(* ===== verification/Byte_Order.thy ===== *)
theory Byte_Order
  imports Prelude
begin

text \<open>
  Byte order conversion, \<open>src/network/util/net.hpp\<close>. The swap macros are modelled operator by
  operator; \<open>ntohs\<close>, \<open>ntohl\<close>, \<open>htons\<close> and \<open>htonl\<close> of the host's C library reverse the bytes of
  their argument on a little-endian host. A \<open>float\<close> or \<open>double\<close> is its bit pattern, which is
  what the code converts through a pointer cast. Signed and unsigned integers of one width share
  the bit pattern, so they share one definition. The main fact is that the mask-and-shift macros
  reverse the byte image, hence every conversion is its own inverse.
\<close>

section \<open>Model\<close>

definition bswap :: "nat \<Rightarrow> 'a::len word \<Rightarrow> 'a word" where
  "bswap n w = le_word (rev (le_bytes n w))"

definition ntohs :: "u16 \<Rightarrow> u16" where "ntohs = bswap 2"
definition htons :: "u16 \<Rightarrow> u16" where "htons = bswap 2"
definition ntohl :: "u32 \<Rightarrow> u32" where "ntohl = bswap 4"
definition htonl :: "u32 \<Rightarrow> u32" where "htonl = bswap 4"

definition SWAP_LONG :: "u32 \<Rightarrow> u32" where
  "SWAP_LONG l =
     (drop_bit 24 l AND 0x000000FF) OR
     (drop_bit 8 l AND 0x0000FF00) OR
     (push_bit 8 l AND 0x00FF0000) OR
     (push_bit 24 l AND 0xFF000000)"

definition SWAP_LONGLONG :: "u64 \<Rightarrow> u64" where
  "SWAP_LONGLONG l =
     (drop_bit 56 l AND 0x00000000000000FF) OR
     (drop_bit 40 l AND 0x000000000000FF00) OR
     (drop_bit 24 l AND 0x0000000000FF0000) OR
     (drop_bit 8 l AND 0x00000000FF000000) OR
     (push_bit 8 l AND 0x000000FF00000000) OR
     (push_bit 24 l AND 0x0000FF0000000000) OR
     (push_bit 40 l AND 0x00FF000000000000) OR
     (push_bit 56 l AND 0xFF00000000000000)"

definition ntoh_id :: "'a \<Rightarrow> 'a" where "ntoh_id t = t"
definition ntoh16 :: "u16 \<Rightarrow> u16" where "ntoh16 v = ntohs v"
definition ntoh32 :: "u32 \<Rightarrow> u32" where "ntoh32 v = ntohl v"
definition ntoh64 :: "u64 \<Rightarrow> u64" where "ntoh64 v = SWAP_LONGLONG v"
definition ntoh_float :: "u32 \<Rightarrow> u32" where "ntoh_float v = SWAP_LONG v"
definition ntoh_double :: "u64 \<Rightarrow> u64" where "ntoh_double v = SWAP_LONGLONG v"

definition hton_id :: "'a \<Rightarrow> 'a" where "hton_id t = t"
definition hton16 :: "u16 \<Rightarrow> u16" where "hton16 v = htons v"
definition hton32 :: "u32 \<Rightarrow> u32" where "hton32 v = htonl v"
definition hton64 :: "u64 \<Rightarrow> u64" where "hton64 v = SWAP_LONGLONG v"
definition hton_float :: "u32 \<Rightarrow> u32" where "hton_float v = SWAP_LONG v"
definition hton_double :: "u64 \<Rightarrow> u64" where "hton_double v = SWAP_LONGLONG v"

section \<open>The macros reverse the byte image\<close>

lemma bit_bswap:
  assumes "LENGTH('a) = 8 * n"
  shows "bit (bswap n w :: 'a::len word) i \<longleftrightarrow>
     i < LENGTH('a) \<and> bit w (8 * (n - Suc (i div 8)) + i mod 8)"
  using assms
  by (auto simp: bswap_def bit_le_word rev_nth nth_le_bytes bit_unsigned_iff bit_drop_bit_eq
      dest: bit_imp_le_length)

text \<open>Each operand of the macros is one byte of the argument, moved by a multiple of eight bits.\<close>

lemma byte_masks:
  "(0x000000FF :: 'a::len word) = push_bit (8 * 0) (mask 8)"
  "(0x0000FF00 :: 'a word) = push_bit (8 * 1) (mask 8)"
  "(0x00FF0000 :: 'a word) = push_bit (8 * 2) (mask 8)"
  "(0xFF000000 :: 'a word) = push_bit (8 * 3) (mask 8)"
  "(0x000000FF00000000 :: 'a word) = push_bit (8 * 4) (mask 8)"
  "(0x0000FF0000000000 :: 'a word) = push_bit (8 * 5) (mask 8)"
  "(0x00FF000000000000 :: 'a word) = push_bit (8 * 6) (mask 8)"
  "(0xFF00000000000000 :: 'a word) = push_bit (8 * 7) (mask 8)"
  by (simp_all add: mask_eq_exp_minus_1 push_bit_eq_mult)

lemma bit_byte_mask:
  "bit (push_bit (8 * k) (mask 8) :: 'a::len word) i \<longleftrightarrow> i < LENGTH('a) \<and> i div 8 = k"
  by (auto simp: bit_push_bit_iff bit_mask_iff)

lemma bit_byte_down:
  "bit (drop_bit m l AND push_bit (8 * k) (mask 8) :: 'a::len word) i \<longleftrightarrow>
     i < LENGTH('a) \<and> i div 8 = k \<and> bit l (m + i)"
  unfolding bit_and_iff bit_byte_mask by (auto simp: bit_drop_bit_eq)

lemma bit_byte_up:
  "bit (push_bit m l AND push_bit (8 * k) (mask 8) :: 'a::len word) i \<longleftrightarrow>
     i < LENGTH('a) \<and> i div 8 = k \<and> m \<le> i \<and> bit l (i - m)"
  unfolding bit_and_iff bit_byte_mask by (auto simp: bit_push_bit_iff)

lemmas byte_moves = bit_or_iff bit_byte_down bit_byte_up

lemma byte_cases:
  fixes i :: nat
  assumes "i < 8 * n"
  obtains k r where "k < n" "r < 8" "i = 8 * k + r"
  using assms by (metis div_mult_mod_eq less_mult_imp_div_less mod_less_divisor mult.commute
      zero_less_numeral)

lemma SWAP_LONG_bswap: "SWAP_LONG l = bswap 4 l"
proof (rule bit_word_eqI)
  fix i
  assume "i < LENGTH(32)"
  then have "i < 8 * 4" by simp
  then obtain k r where k: "k < 4" and r: "r < 8" and i: "i = 8 * k + r" by (rule byte_cases)
  from r have d: "i div 8 = k" "i mod 8 = r" using i by simp_all
  have shift: "m + i = m + 8 * k + r" "i - m = 8 * k + r - m" "m \<le> i \<longleftrightarrow> m \<le> 8 * k + r"
    "i < m \<longleftrightarrow> 8 * k + r < m" for m
    using i by simp_all
  have "k = 0 \<or> k = 1 \<or> k = 2 \<or> k = 3" using k by auto
  then show "bit (SWAP_LONG l) i = bit (bswap 4 l) i"
    unfolding SWAP_LONG_def byte_masks byte_moves
    using r by (elim disjE) (simp_all add: bit_bswap d shift)
qed

lemma SWAP_LONGLONG_bswap: "SWAP_LONGLONG l = bswap 8 l"
proof (rule bit_word_eqI)
  fix i
  assume "i < LENGTH(64)"
  then have "i < 8 * 8" by simp
  then obtain k r where k: "k < 8" and r: "r < 8" and i: "i = 8 * k + r" by (rule byte_cases)
  from r have d: "i div 8 = k" "i mod 8 = r" using i by simp_all
  have shift: "m + i = m + 8 * k + r" "i - m = 8 * k + r - m" "m \<le> i \<longleftrightarrow> m \<le> 8 * k + r"
    "i < m \<longleftrightarrow> 8 * k + r < m" for m
    using i by simp_all
  have "k = 0 \<or> k = 1 \<or> k = 2 \<or> k = 3 \<or> k = 4 \<or> k = 5 \<or> k = 6 \<or> k = 7" using k by auto
  then show "bit (SWAP_LONGLONG l) i = bit (bswap 8 l) i"
    unfolding SWAP_LONGLONG_def byte_masks byte_moves
    using r by (elim disjE) (simp_all add: bit_bswap d shift)
qed

lemma le_bytes_bswap:
  "LENGTH('a) = 8 * n \<Longrightarrow> le_bytes n (bswap n w :: 'a::len word) = rev (le_bytes n w)"
  by (simp add: bswap_def)

lemma bswap_bswap: "LENGTH('a) = 8 * n \<Longrightarrow> bswap n (bswap n w) = (w :: 'a::len word)"
  by (simp add: bswap_def [of n "bswap n w"] le_bytes_bswap)

lemmas byte_order_defs =
  ntohs_def htons_def ntohl_def htonl_def
  ntoh16_def ntoh32_def ntoh64_def ntoh_float_def ntoh_double_def
  hton16_def hton32_def hton64_def hton_float_def hton_double_def
  SWAP_LONG_bswap SWAP_LONGLONG_bswap

lemma ntoh_hton [simp]:
  "ntoh16 (hton16 v) = v" "ntoh32 (hton32 w) = w" "ntoh64 (hton64 x) = x"
  "ntoh_float (hton_float f) = f" "ntoh_double (hton_double d) = d"
  by (simp_all add: byte_order_defs bswap_bswap)

lemma hton_ntoh [simp]:
  "hton16 (ntoh16 v) = v" "hton32 (ntoh32 w) = w" "hton64 (ntoh64 x) = x"
  by (simp_all add: byte_order_defs bswap_bswap)

lemma hton_hton: "hton16 (hton16 v) = v" "hton32 (hton32 w) = w"
  by (simp_all add: byte_order_defs bswap_bswap)

text \<open>The flag value 65535 of an internal header reads the same in both byte orders.\<close>

lemma swap16_flag: "hton16 v = 65535 \<longleftrightarrow> v = 65535" "ntoh16 v = 65535 \<longleftrightarrow> v = 65535"
proof -
  have "bswap 2 (65535 :: u16) = 65535" by code_simp
  then have "bswap 2 v = 65535 \<longleftrightarrow> v = 65535" for v :: u16
    by (metis bswap_bswap [where 'a = 16 and n = 2, simplified])
  then show "hton16 v = 65535 \<longleftrightarrow> v = 65535" "ntoh16 v = 65535 \<longleftrightarrow> v = 65535"
    by (simp_all add: byte_order_defs)
qed

text \<open>
  The mask-and-shift macros that convert 64-bit and floating point values reverse the
  byte image of their argument, which is what the C library does for the narrower integers; so
  host to network conversion of every width emits the most significant byte first.
\<close>

lemma swap_macros_reverse_bytes:
  "le_bytes 4 (SWAP_LONG l) = rev (le_bytes 4 l) \<and>
   le_bytes 8 (SWAP_LONGLONG x) = rev (le_bytes 8 x) \<and>
   SWAP_LONG l = htonl l \<and>
   hton64 x = ntoh64 x \<and> ntoh64 (hton64 x) = x \<and> ntoh_double (hton_double d) = d"
  by (simp add: SWAP_LONG_bswap SWAP_LONGLONG_bswap le_bytes_bswap htonl_def hton64_def ntoh64_def
      bswap_bswap)

end
