(* ===== verification/Protocol.thy ===== *)
theory Protocol
  imports Byte_Order
begin

text \<open>
  Protocol identifiers, result codes and operation results: \<open>src/network/net/common.hpp\<close> and
  \<open>src/network/net/exception.hpp\<close>. A protocol id is one 32-bit value that the code also reads as
  a struct of bit fields through a union; the fields are laid out from the least significant bit
  on, as the compilers the project supports do. \<open>boost::system::error_code\<close> is a value with its
  category. The lemmas show that the two views of an id convert losslessly and what
  \<open>reply_protocol\<close> changes, and that results compare equal to the code they were built from.
\<close>

section \<open>Protocol identifiers\<close>

record full_procotol =
  fp_id :: u16
  server_type :: u8
  fp_need_reply :: bool
  fp_is_reply :: bool
  game_type :: "6 word"

definition to_protocol_id :: "full_procotol \<Rightarrow> u32" where
  "to_protocol_id p =
     ucast (fp_id p) OR push_bit 16 (ucast (server_type p)) OR
     push_bit 24 (of_bool (fp_need_reply p)) OR push_bit 25 (of_bool (fp_is_reply p)) OR
     push_bit 26 (ucast (game_type p))"

definition to_protocol :: "u32 \<Rightarrow> full_procotol" where
  "to_protocol i =
     \<lparr>fp_id = ucast i, server_type = ucast (drop_bit 16 i), fp_need_reply = bit i 24,
      fp_is_reply = bit i 25, game_type = ucast (drop_bit 26 i)\<rparr>"

definition reply_protocol :: "u32 \<Rightarrow> u32" where
  "reply_protocol proto =
     (let full = to_protocol proto;
          full = full\<lparr>fp_is_reply := True\<rparr>;
          full = full\<lparr>fp_need_reply := False\<rparr>
      in to_protocol_id full)"

lemma bit_to_protocol_id:
  "bit (to_protocol_id p) i \<longleftrightarrow>
     (if i < 16 then bit (fp_id p) i
      else if i < 24 then bit (server_type p) (i - 16)
      else if i = 24 then fp_need_reply p
      else if i = 25 then fp_is_reply p
      else i < 32 \<and> bit (game_type p) (i - 26))"
proof -
  have len: "bit (fp_id p) i \<Longrightarrow> i < 16" "bit (server_type p) (i - 16) \<Longrightarrow> i < 24"
    "bit (game_type p) (i - 26) \<Longrightarrow> i < 32"
    by (auto dest: bit_imp_le_length)
  show ?thesis
    using len
    by (auto simp: to_protocol_id_def bit_or_iff bit_push_bit_iff bit_unsigned_iff bit_of_bool_iff)
qed

lemma to_protocol_to_protocol_id: "to_protocol (to_protocol_id p) = p"
proof -
  have "ucast (to_protocol_id p) = fp_id p" "ucast (drop_bit 16 (to_protocol_id p)) = server_type p"
    "ucast (drop_bit 26 (to_protocol_id p)) = game_type p"
    by (auto intro!: bit_word_eqI simp: bit_unsigned_iff bit_drop_bit_eq bit_to_protocol_id)
  then show ?thesis
    by (simp add: to_protocol_def bit_to_protocol_id)
qed

lemma to_protocol_id_to_protocol: "to_protocol_id (to_protocol i) = i"
proof (rule bit_word_eqI)
  fix n
  assume "n < LENGTH(32)"
  then show "bit (to_protocol_id (to_protocol i)) n = bit i n"
    by (auto simp: bit_to_protocol_id to_protocol_def bit_unsigned_iff bit_drop_bit_eq)
qed

lemma to_protocol_reply:
  "to_protocol (reply_protocol i) = (to_protocol i)\<lparr>fp_is_reply := True, fp_need_reply := False\<rparr>"
  by (simp add: reply_protocol_def Let_def to_protocol_to_protocol_id)

lemma reply_protocol_bits:
  "reply_protocol i = unset_bit 24 (set_bit 25 i)"
proof (rule bit_word_eqI)
  fix n
  assume n: "n < LENGTH(32)"
  show "bit (reply_protocol i) n = bit (unset_bit 24 (set_bit 25 i)) n"
    using n
    by (auto simp: reply_protocol_def Let_def bit_to_protocol_id to_protocol_def bit_unsigned_iff
        bit_drop_bit_eq bit_set_bit_iff bit_unset_bit_iff)
qed

lemma reply_protocol_idem [simp]: "reply_protocol (reply_protocol i) = reply_protocol i"
  by (rule bit_word_eqI)
    (auto simp: reply_protocol_bits bit_set_bit_iff bit_unset_bit_iff)

text \<open>
  The union of a protocol id and its fields is lossless in both directions, and
  \<open>reply_protocol\<close> sets the reply flag, clears the need-reply flag, keeps the message id, the
  server type and the game type, and applying it twice is applying it once.
\<close>

theorem protocol_views:
  "to_protocol (to_protocol_id p) = p \<and> to_protocol_id (to_protocol i) = i \<and>
   fp_is_reply (to_protocol (reply_protocol i)) \<and>
   \<not> fp_need_reply (to_protocol (reply_protocol i)) \<and>
   fp_id (to_protocol (reply_protocol i)) = fp_id (to_protocol i) \<and>
   server_type (to_protocol (reply_protocol i)) = server_type (to_protocol i) \<and>
   game_type (to_protocol (reply_protocol i)) = game_type (to_protocol i) \<and>
   reply_protocol (reply_protocol i) = reply_protocol i"
  by (simp add: to_protocol_to_protocol_id to_protocol_id_to_protocol to_protocol_reply)

section \<open>Result codes\<close>

datatype result_code = RC_ok | RC_not_reply | RC_fail

fun result_code_value :: "result_code \<Rightarrow> u16" where
  "result_code_value RC_ok = 0"
| "result_code_value RC_not_reply = 99"
| "result_code_value RC_fail = 100"

datatype error_code =
    EC_ok | EC_fail | EC_unknown | EC_timeout | EC_cancel | EC_connect_fail | EC_badconnect
  | EC_codec_fail | EC_invalid_header | EC_be_disconnected | EC_repeat_connect | EC_no_handler
  | EC_remote_error | EC_recv_error | EC_send_error

fun error_code_value :: "error_code \<Rightarrow> int" where
  "error_code_value EC_ok = 0"
| "error_code_value EC_fail = 100"
| "error_code_value EC_unknown = 101"
| "error_code_value EC_timeout = 102"
| "error_code_value EC_cancel = 103"
| "error_code_value EC_connect_fail = 104"
| "error_code_value EC_badconnect = 105"
| "error_code_value EC_codec_fail = 106"
| "error_code_value EC_invalid_header = 107"
| "error_code_value EC_be_disconnected = 108"
| "error_code_value EC_repeat_connect = 109"
| "error_code_value EC_no_handler = 110"
| "error_code_value EC_remote_error = 111"
| "error_code_value EC_recv_error = 112"
| "error_code_value EC_send_error = 113"

lemma error_code_value_inject: "error_code_value a = error_code_value b \<longleftrightarrow> a = b"
  by (cases a; cases b) simp_all

section \<open>Operation results\<close>

datatype ec_category = generic_category | system_category | application_category | other_category nat

record ec_t =
  ec_value :: int
  ec_category :: ec_category

text \<open>The default constructor of \<open>boost::system::error_code\<close>: value 0 of the system category.\<close>

definition ec_success :: ec_t where
  "ec_success = \<lparr>ec_value = 0, ec_category = system_category\<rparr>"

definition get_ec :: "error_code \<Rightarrow> ec_t" where
  "get_ec ec = \<lparr>ec_value = error_code_value ec, ec_category = application_category\<rparr>"

record net_result =
  app_ec :: ec_t
  sys_ec :: ec_t
  raw_msg :: string

definition net_result_ok :: net_result where
  "net_result_ok = \<lparr>app_ec = ec_success, sys_ec = ec_success, raw_msg = []\<rparr>"

definition net_result_code :: "error_code \<Rightarrow> net_result" where
  "net_result_code ec = \<lparr>app_ec = get_ec ec, sys_ec = ec_success, raw_msg = []\<rparr>"

definition net_result_code_sys :: "error_code \<Rightarrow> ec_t \<Rightarrow> net_result" where
  "net_result_code_sys ec err = \<lparr>app_ec = get_ec ec, sys_ec = err, raw_msg = []\<rparr>"

definition net_result_sys :: "ec_t \<Rightarrow> net_result" where
  "net_result_sys ec =
     \<lparr>app_ec = get_ec (if ec_value ec = 0 then EC_ok else EC_fail), sys_ec = ec, raw_msg = []\<rparr>"

definition net_result_msg :: "error_code \<Rightarrow> string \<Rightarrow> net_result" where
  "net_result_msg ec em = \<lparr>app_ec = get_ec ec, sys_ec = ec_success, raw_msg = em\<rparr>"

definition is_success :: "net_result \<Rightarrow> bool" where
  "is_success r \<longleftrightarrow> ec_value (app_ec r) = 0 \<and> ec_value (sys_ec r) = 0"

definition is_app_error :: "net_result \<Rightarrow> bool" where
  "is_app_error r \<longleftrightarrow> ec_value (sys_ec r) \<noteq> 0 \<or> ec_value (app_ec r) \<noteq> 0"

definition net_result_value :: "net_result \<Rightarrow> int" where
  "net_result_value r = ec_value (sys_ec r)"

definition ec_neq :: "ec_t \<Rightarrow> error_code \<Rightarrow> bool" where
  "ec_neq ec code \<longleftrightarrow> ec_value ec \<noteq> error_code_value code \<or>
     ec_category ec = generic_category \<or> ec_category ec = system_category"

definition ec_eq :: "ec_t \<Rightarrow> error_code \<Rightarrow> bool" where
  "ec_eq ec code \<longleftrightarrow> \<not> ec_neq ec code"

definition net_result_neq :: "net_result \<Rightarrow> error_code \<Rightarrow> bool" where
  "net_result_neq r code \<longleftrightarrow> ec_neq (app_ec r) code"

definition net_result_eq :: "net_result \<Rightarrow> error_code \<Rightarrow> bool" where
  "net_result_eq r code \<longleftrightarrow> \<not> net_result_neq r code"

lemmas net_result_defs =
  net_result_ok_def net_result_code_def net_result_code_sys_def net_result_sys_def
  net_result_msg_def get_ec_def ec_success_def is_success_def is_app_error_def
  net_result_value_def ec_neq_def ec_eq_def net_result_neq_def net_result_eq_def

lemma is_app_error_iff: "is_app_error r \<longleftrightarrow> \<not> is_success r"
  by (auto simp: net_result_defs)

text \<open>
  Every way of building a result from an application code gives a result that compares equal
  to that code and to no other; such a result is a success exactly when the code is ok and the
  system error, if one was given, is 0; a result built from a system error alone reports fail
  exactly when that error is set.
\<close>

lemma net_result_code_agrees:
  "net_result_eq (net_result_code c) d = (c = d) \<and>
   net_result_eq (net_result_code_sys c e) d = (c = d) \<and>
   net_result_eq (net_result_msg c m) d = (c = d) \<and>
   is_success (net_result_code c) = (c = EC_ok) \<and>
   is_success (net_result_code_sys c e) = (c = EC_ok \<and> ec_value e = 0) \<and>
   net_result_eq (net_result_sys e) EC_fail = (ec_value e \<noteq> 0) \<and>
   is_success (net_result_sys e) = (ec_value e = 0)"
  using error_code_value_inject [of c EC_ok]
  by (auto simp: net_result_defs error_code_value_inject)

text \<open>
  A default-constructed result is a success, and yet it does not compare equal to the code
  ok: its application error has the system category, which the comparison with a code excludes.
\<close>

lemma default_result_not_equal_ok:
  "is_success net_result_ok \<and> \<not> net_result_eq net_result_ok EC_ok \<and>
   net_result_eq (net_result_code EC_ok) EC_ok"
  by (simp add: net_result_defs)

end
