(* ===== verification/Wire_Header.thy ===== *)
theory Wire_Header
  imports Protocol
begin

text \<open>
  The contract every message header of the library satisfies, whichever layout it has: a fixed
  size memory image that can be read back in front of any payload, and a conversion to network
  order that the receiver undoes. \<open>hton\<close> and \<open>ntoh\<close> take the header class's static byte-order
  switch as their first argument. The three header types of the code interpret it.
\<close>

locale wire_header =
  fixes to_bytes :: "'h \<Rightarrow> bytes"
    and of_bytes :: "bytes \<Rightarrow> 'h"
    and hsize :: nat
    and hton :: "bool \<Rightarrow> 'h \<Rightarrow> 'h"
    and ntoh :: "bool \<Rightarrow> 'h \<Rightarrow> 'h"
    and valid :: "'h \<Rightarrow> bool"
  assumes size_to_bytes: "valid h \<Longrightarrow> length (to_bytes h) = hsize"
    and of_to_bytes: "valid h \<Longrightarrow> of_bytes (to_bytes h) = h"
    and of_bytes_take: "of_bytes (take hsize bs) = of_bytes bs"
    and ntoh_hton: "valid h \<Longrightarrow> ntoh be (hton be h) = h"
    and hton_valid: "valid h \<Longrightarrow> valid (hton be h)"
begin

definition wire_image :: "bool \<Rightarrow> 'h \<Rightarrow> bytes" where
  "wire_image be h = to_bytes (hton be h)"

lemma length_wire_image: "valid h \<Longrightarrow> length (wire_image be h) = hsize"
  by (simp add: wire_image_def size_to_bytes hton_valid)

lemma received_header: "valid h \<Longrightarrow> ntoh be (of_bytes (wire_image be h @ payload)) = h"
  using length_wire_image [of h be] of_bytes_take [of "wire_image be h @ payload"]
  by (simp add: wire_image_def of_to_bytes hton_valid ntoh_hton)

lemma wire_image_inject:
  assumes "valid h" "valid k" "wire_image be h @ xs = wire_image be k @ ys"
  shows "h = k \<and> xs = ys"
  using received_header [OF assms(1), of be xs] received_header [OF assms(2), of be ys] assms
    length_wire_image
  by (metis append_eq_append_conv)

end

section \<open>The header of the plain TCP messages\<close>

text \<open>
  \<open>src/network/net/raw_msg.hpp\<close>, \<open>struct msg_header\<close>: \<open>conn_id\<close> and \<open>user_id\<close> are one field, as
  the anonymous union makes them. The struct has no padding, so its image is the concatenation of
  its fields, 24 bytes.
\<close>

record msg_header =
  from_unique_id :: u16
  to_unique_id :: u16
  conn_id :: u32
  call_id :: u32
  msg_result :: u16
  reserve_bytes :: u16
  protocol_id :: u32
  msg_length :: u32

text \<open>The static switch: a call with a value stores it, and every call returns the switch.\<close>

definition internal_big_endian :: "bool option \<Rightarrow> bool \<Rightarrow> bool \<times> bool" where
  "internal_big_endian arg flag =
     (let flag' = (case arg of None \<Rightarrow> flag | Some b \<Rightarrow> b) in (flag', flag'))"

definition get_big_endian :: "bool \<Rightarrow> bool" where
  "get_big_endian flag = fst (internal_big_endian None flag)"

definition set_big_endian :: "bool \<Rightarrow> bool \<Rightarrow> bool" where
  "set_big_endian b flag = snd (internal_big_endian (Some b) flag)"

definition mh_ntoh :: "bool \<Rightarrow> msg_header \<Rightarrow> msg_header" where
  "mh_ntoh be h =
     (if \<not> get_big_endian be then h
      else \<lparr>from_unique_id = ntoh16 (from_unique_id h), to_unique_id = ntoh16 (to_unique_id h),
            conn_id = ntoh32 (conn_id h), call_id = ntoh32 (call_id h),
            msg_result = ntoh16 (msg_result h), reserve_bytes = ntoh16 (reserve_bytes h),
            protocol_id = ntoh32 (protocol_id h), msg_length = ntoh32 (msg_length h)\<rparr>)"

definition mh_hton :: "bool \<Rightarrow> msg_header \<Rightarrow> msg_header" where
  "mh_hton be h =
     (if \<not> get_big_endian be then h
      else \<lparr>from_unique_id = hton16 (from_unique_id h), to_unique_id = hton16 (to_unique_id h),
            conn_id = hton32 (conn_id h), call_id = hton32 (call_id h),
            msg_result = hton16 (msg_result h), reserve_bytes = hton16 (reserve_bytes h),
            protocol_id = hton32 (protocol_id h), msg_length = hton32 (msg_length h)\<rparr>)"

definition mh_init :: "u16 \<Rightarrow> u16 \<Rightarrow> u32 \<Rightarrow> u32 \<Rightarrow> u16 \<Rightarrow> u32 \<Rightarrow> u32 \<Rightarrow> msg_header" where
  "mh_init from_id to_id conn call code protocol len =
     \<lparr>from_unique_id = from_id, to_unique_id = to_id, conn_id = conn, call_id = call,
      msg_result = code, reserve_bytes = 0, protocol_id = protocol, msg_length = len\<rparr>"

definition mh_init_short :: "u16 \<Rightarrow> u32 \<Rightarrow> u32 \<Rightarrow> msg_header" where
  "mh_init_short code protocol len =
     \<lparr>from_unique_id = 0, to_unique_id = 0, conn_id = 0, call_id = 0,
      msg_result = code, reserve_bytes = 0, protocol_id = protocol, msg_length = len\<rparr>"

text \<open>Value initialisation of a header, as in \<open>basic_msg() : header_()\<close>, zeroes every field.\<close>

definition mh_zero :: msg_header where
  "mh_zero = mh_init_short 0 0 0"

definition mh_size :: nat where "mh_size = 24"

text \<open>The memory image of the struct: what \<open>to_buffer\<close> hands to the socket.\<close>

definition mh_to_buffer :: "msg_header \<Rightarrow> bytes" where
  "mh_to_buffer h =
     le_bytes 2 (from_unique_id h) @ le_bytes 2 (to_unique_id h) @ le_bytes 4 (conn_id h) @
     le_bytes 4 (call_id h) @ le_bytes 2 (msg_result h) @ le_bytes 2 (reserve_bytes h) @
     le_bytes 4 (protocol_id h) @ le_bytes 4 (msg_length h)"

definition mh_of_buffer :: "bytes \<Rightarrow> msg_header" where
  "mh_of_buffer bs =
     \<lparr>from_unique_id = le_word (take 2 bs), to_unique_id = le_word (take 2 (drop 2 bs)),
      conn_id = le_word (take 4 (drop 4 bs)), call_id = le_word (take 4 (drop 8 bs)),
      msg_result = le_word (take 2 (drop 12 bs)), reserve_bytes = le_word (take 2 (drop 14 bs)),
      protocol_id = le_word (take 4 (drop 16 bs)), msg_length = le_word (take 4 (drop 20 bs))\<rparr>"

definition get_header_length :: "msg_header \<Rightarrow> int" where
  "get_header_length h = sint (msg_length h)"

definition set_header_length :: "msg_header \<Rightarrow> int \<Rightarrow> msg_header" where
  "set_header_length h len = h\<lparr>msg_length := word_of_int len\<rparr>"

lemma get_big_endian_id [simp]: "get_big_endian b = b"
  and set_big_endian_id [simp]: "set_big_endian b c = b"
  by (simp_all add: get_big_endian_def set_big_endian_def internal_big_endian_def)

lemma length_mh_to_buffer [simp]: "length (mh_to_buffer h) = 24"
  by (simp add: mh_to_buffer_def)

lemma mh_of_to_buffer [simp]: "mh_of_buffer (mh_to_buffer h) = h"
  by (simp add: mh_of_buffer_def mh_to_buffer_def)

lemma mh_of_buffer_take [simp]: "24 \<le> n \<Longrightarrow> mh_of_buffer (take n bs) = mh_of_buffer bs"
  by (simp add: mh_of_buffer_def drop_take)

interpretation mh: wire_header mh_to_buffer mh_of_buffer mh_size mh_hton mh_ntoh "\<lambda>_. True"
  by unfold_locales (simp_all add: mh_size_def mh_hton_def mh_ntoh_def)

end
