(* ===== verification/Heap.thy ===== *)
theory Heap
  imports Prelude
begin

text \<open>
  The byte store the buffers live in: numbered blocks, pointers with an offset into a block, and
  the faults of the operations the code performs on them. \<open>MALLOC_MP\<close> and \<open>FREE_MP\<close>
  (\<open>src/network/base/memory_pool.hpp\<close>) are used by the buffers as an allocator: a fresh block of
  the requested size with unspecified contents (the parameter \<open>junk\<close>), and the release of a whole
  block through the pointer that was handed out; anything else passed to \<open>FREE_MP\<close>, the null
  pointer included, is a fault, since it reads the size word in front of the pointer. Accesses
  outside a live block are faults, as is signed 32-bit overflow.
\<close>

datatype mem_error = Bad_Free | Bad_Access | Int_Overflow

record heap =
  blocks :: "nat \<Rightarrow> bytes option"
  next_block :: nat

type_synonym ptr = "(nat \<times> int) option"

abbreviation nullptr :: ptr where "nullptr \<equiv> None"

definition heap_ok :: "heap \<Rightarrow> bool" where
  "heap_ok h \<longleftrightarrow> (\<forall>b. next_block h \<le> b \<longrightarrow> blocks h b = None)"

definition empty_heap :: heap where
  "empty_heap = \<lparr>blocks = (\<lambda>_. None), next_block = 0\<rparr>"

definition MALLOC_MP :: "(nat \<Rightarrow> u8) \<Rightarrow> int \<Rightarrow> heap \<Rightarrow> ptr \<times> heap" where
  "MALLOC_MP junk n h =
     (Some (next_block h, 0),
      \<lparr>blocks = (blocks h)(next_block h \<mapsto> map junk [0..<nat n]), next_block = Suc (next_block h)\<rparr>)"

definition FREE_MP :: "ptr \<Rightarrow> heap \<Rightarrow> mem_error + heap" where
  "FREE_MP p h =
     (case p of None \<Rightarrow> Inl Bad_Free
      | Some (b, off) \<Rightarrow>
          if off = 0 \<and> blocks h b \<noteq> None then Inr (h\<lparr>blocks := (blocks h)(b := None)\<rparr>)
          else Inl Bad_Free)"

definition ptr_add :: "ptr \<Rightarrow> int \<Rightarrow> ptr" where
  "ptr_add p k = map_option (\<lambda>(b, off). (b, off + k)) p"

text \<open>The source range of a \<open>memcpy\<close>, and its destination range. Zero bytes touch nothing.\<close>

definition mem_load :: "ptr \<Rightarrow> int \<Rightarrow> heap \<Rightarrow> mem_error + bytes" where
  "mem_load p n h =
     (if n = 0 then Inr []
      else case p of None \<Rightarrow> Inl Bad_Access
      | Some (b, off) \<Rightarrow>
          (case blocks h b of None \<Rightarrow> Inl Bad_Access
           | Some bs \<Rightarrow>
               if 0 \<le> off \<and> 0 < n \<and> off + n \<le> int (length bs)
               then Inr (take (nat n) (drop (nat off) bs)) else Inl Bad_Access))"

definition overwrite :: "'a list \<Rightarrow> nat \<Rightarrow> 'a list \<Rightarrow> 'a list" where
  "overwrite bs k xs = take k bs @ xs @ drop (k + length xs) bs"

definition mem_store :: "ptr \<Rightarrow> bytes \<Rightarrow> heap \<Rightarrow> mem_error + heap" where
  "mem_store p xs h =
     (if xs = [] then Inr h
      else case p of None \<Rightarrow> Inl Bad_Access
      | Some (b, off) \<Rightarrow>
          (case blocks h b of None \<Rightarrow> Inl Bad_Access
           | Some bs \<Rightarrow>
               if 0 \<le> off \<and> off + int (length xs) \<le> int (length bs)
               then Inr (h\<lparr>blocks := (blocks h)(b \<mapsto> overwrite bs (nat off) xs)\<rparr>)
               else Inl Bad_Access))"

text \<open>Signed 32-bit arithmetic.\<close>

definition int32 :: "int \<Rightarrow> mem_error + int" where
  "int32 x = (if - (2 ^ 31) \<le> x \<and> x < 2 ^ 31 then Inr x else Inl Int_Overflow)"

section \<open>Lemmas\<close>

lemma length_overwrite [simp]: "k + length xs \<le> length bs \<Longrightarrow> length (overwrite bs k xs) = length bs"
  by (simp add: overwrite_def)

lemma take_overwrite: "k + length xs \<le> length bs \<Longrightarrow> take (k + length xs) (overwrite bs k xs) = take k bs @ xs"
  by (simp add: overwrite_def)

lemma take_overwrite_before [simp]:
  "n \<le> k \<Longrightarrow> k + length xs \<le> length bs \<Longrightarrow> take n (overwrite bs k xs) = take n bs"
  by (simp add: overwrite_def)

lemma overwrite_read: "k + length xs \<le> length bs \<Longrightarrow> take (length xs) (drop k (overwrite bs k xs)) = xs"
  by (simp add: overwrite_def)

lemma overwrite_same: "k + length xs \<le> length bs \<Longrightarrow> take (length xs) (drop k bs) = xs \<Longrightarrow> overwrite bs k xs = bs"
  unfolding overwrite_def by (metis add.commute append_take_drop_id drop_drop)

lemma heap_ok_empty [simp]: "heap_ok empty_heap"
  by (simp add: heap_ok_def empty_heap_def)

lemma heap_ok_fresh: "heap_ok h \<Longrightarrow> blocks h (next_block h) = None"
  by (simp add: heap_ok_def)

lemma heap_ok_upd: "heap_ok h \<Longrightarrow> blocks h b \<noteq> None \<Longrightarrow> heap_ok (h\<lparr>blocks := (blocks h)(b := x)\<rparr>)"
  by (auto simp: heap_ok_def)

lemma MALLOC_MP_props:
  assumes "MALLOC_MP junk n h = (p, h')" "heap_ok h"
  shows "p = Some (next_block h, 0)" "heap_ok h'" "blocks h (next_block h) = None"
    "blocks h' (next_block h) = Some (map junk [0..<nat n])"
    "b \<noteq> next_block h \<Longrightarrow> blocks h' b = blocks h b"
  using assms by (auto simp: MALLOC_MP_def heap_ok_def)

lemma mem_load_ok:
  "blocks h b = Some bs \<Longrightarrow> 0 \<le> off \<Longrightarrow> 0 \<le> n \<Longrightarrow> off + n \<le> int (length bs) \<Longrightarrow>
   mem_load (Some (b, off)) n h = Inr (take (nat n) (drop (nat off) bs))"
  by (auto simp: mem_load_def)

lemma mem_store_ok:
  "blocks h b = Some bs \<Longrightarrow> 0 \<le> off \<Longrightarrow> off + int (length xs) \<le> int (length bs) \<Longrightarrow>
   mem_store (Some (b, off)) xs h = Inr (h\<lparr>blocks := (blocks h)(b \<mapsto> overwrite bs (nat off) xs)\<rparr>)"
  by (cases h) (auto simp: mem_store_def overwrite_def fun_upd_idem)

lemma FREE_MP_ok: "blocks h b \<noteq> None \<Longrightarrow> FREE_MP (Some (b, 0)) h = Inr (h\<lparr>blocks := (blocks h)(b := None)\<rparr>)"
  by (simp add: FREE_MP_def)

lemma FREE_MP_twice: "FREE_MP p h = Inr h' \<Longrightarrow> FREE_MP p h' = Inl Bad_Free"
  by (auto simp: FREE_MP_def split: option.splits prod.splits if_splits)

lemma int32_ok: "- (2 ^ 31) \<le> x \<Longrightarrow> x < 2 ^ 31 \<Longrightarrow> int32 x = Inr x"
  by (simp add: int32_def)

end
