(* ===== verification/Memory_Stream.thy ===== *)
theory Memory_Stream
  imports Heap
begin

text \<open>
  The growable byte buffer \<open>memory_stream\<close>, \<open>src/network/base/memory_stream.hpp\<close>. The record has
  the class's fields; the bytes live in a block of the store. Every operation is the method of the
  same name: it takes the stream and the store and gives the method's result with both updated, or
  the memory fault the method runs into. A value of type \<open>T\<close> is given by its memory image, whose
  length is \<open>sizeof(T)\<close>. A reader that reports failure returns \<open>None\<close>. The wide-string variants,
  whose layout depends on the platform's \<open>wchar_t\<close>, are left out.

  The abstract view is the queue of bytes between the read and the write position; the lemmas show
  that writers append to it and readers consume from its front.
\<close>

section \<open>Model\<close>

record mstream =
  ms_data :: ptr
  data_size :: int
  alloc_type :: int
  wr_pos :: int
  rd_pos :: int

definition ms_default_size :: int where "ms_default_size = 1024"

definition ms_new :: "(nat \<Rightarrow> u8) \<Rightarrow> int \<Rightarrow> heap \<Rightarrow> mstream \<times> heap" where
  "ms_new junk sz h =
     (let s = \<lparr>ms_data = nullptr, data_size = sz, alloc_type = 1, wr_pos = 0, rd_pos = 0\<rparr>
      in if sz > 0 then (let (p, h') = MALLOC_MP junk sz h in (s\<lparr>ms_data := p\<rparr>, h'))
         else (s, h))"

definition ms_wrap :: "(nat \<Rightarrow> u8) \<Rightarrow> ptr \<Rightarrow> int \<Rightarrow> int \<Rightarrow> heap \<Rightarrow> mem_error + (mstream \<times> heap)" where
  "ms_wrap junk p len at h =
     (let s = \<lparr>ms_data = p, data_size = len, alloc_type = at, wr_pos = len, rd_pos = 0\<rparr>
      in if at = 0 then Inr (s, h)
         else ebind (int32 ((len + 8) * 2)) (\<lambda>sz.
           let (q, h1) = MALLOC_MP junk sz h in
           ebind (mem_load p len h1) (\<lambda>bs.
           ebind (mem_store q bs h1) (\<lambda>h2.
           Inr (s\<lparr>ms_data := q, data_size := sz\<rparr>, h2)))))"

text \<open>The move constructor: the new stream, and what is left of the old one.\<close>

definition ms_move :: "mstream \<Rightarrow> mstream \<times> mstream" where
  "ms_move other =
     (other, \<lparr>ms_data = nullptr, data_size = 0, alloc_type = 0, wr_pos = 0, rd_pos = 0\<rparr>)"

definition ms_destroy :: "mstream \<Rightarrow> heap \<Rightarrow> mem_error + heap" where
  "ms_destroy s h =
     (if alloc_type s \<noteq> 0 \<and> ms_data s \<noteq> nullptr then FREE_MP (ms_data s) h else Inr h)"

text \<open>Move assignment: the argument is \<open>const\<close>, so it is left as it is.\<close>

definition ms_assign :: "mstream \<Rightarrow> mstream \<Rightarrow> heap \<Rightarrow> mem_error + (mstream \<times> heap)" where
  "ms_assign s other h =
     ebind (if alloc_type s \<noteq> 0 \<and> ms_data s \<noteq> nullptr then FREE_MP (ms_data s) h else Inr h)
       (\<lambda>h1. Inr (s\<lparr>ms_data := ms_data other, data_size := data_size other,
                     alloc_type := alloc_type other, wr_pos := wr_pos other,
                     rd_pos := rd_pos other\<rparr>, h1))"

definition ms_reset :: "mstream \<Rightarrow> mstream" where
  "ms_reset s = s\<lparr>wr_pos := 0, rd_pos := 0\<rparr>"

definition ms_length :: "mstream \<Rightarrow> int" where
  "ms_length s = (if wr_pos s > rd_pos s then wr_pos s - rd_pos s else 0)"

definition ms_space :: "mstream \<Rightarrow> int" where
  "ms_space s = data_size s - wr_pos s"

definition ms_crunch :: "mstream \<Rightarrow> heap \<Rightarrow> mem_error + (mstream \<times> heap)" where
  "ms_crunch s h =
     (if rd_pos s \<noteq> 0 then
        if wr_pos s \<le> rd_pos s then Inr (ms_reset s, h)
        else (let len = ms_length s in
              ebind (mem_load (ptr_add (ms_data s) (rd_pos s)) len h) (\<lambda>bs.
              ebind (mem_store (ms_data s) bs h) (\<lambda>h1.
              Inr (s\<lparr>rd_pos := 0, wr_pos := len\<rparr>, h1))))
      else Inr (s, h))"

definition ms_check_space :: "(nat \<Rightarrow> u8) \<Rightarrow> int \<Rightarrow> mstream \<Rightarrow> heap \<Rightarrow> mem_error + (mstream \<times> heap)" where
  "ms_check_space junk len s h =
     ebind (int32 (wr_pos s + len)) (\<lambda>need.
       if data_size s \<ge> need then Inr (s, h)
       else ebind (int32 (need * 2)) (\<lambda>sz.
         let (p, h1) = MALLOC_MP junk sz h in
         ebind (mem_load (ms_data s) (wr_pos s) h1) (\<lambda>bs.
         ebind (mem_store p bs h1) (\<lambda>h2.
         ebind (FREE_MP (ms_data s) h2) (\<lambda>h3.
         Inr (s\<lparr>data_size := sz, ms_data := p\<rparr>, h3))))))"

definition ms_reallocate :: "(nat \<Rightarrow> u8) \<Rightarrow> int \<Rightarrow> mstream \<Rightarrow> heap \<Rightarrow> mstream \<times> heap" where
  "ms_reallocate junk len s h =
     (if len > 0 then
        (let (p, h1) = MALLOC_MP junk len h in
         (s\<lparr>ms_data := p, wr_pos := 0, rd_pos := 0, data_size := len, alloc_type := 1\<rparr>, h1))
      else (s, h))"

definition ms_rd_ptr :: "mstream \<Rightarrow> ptr" where
  "ms_rd_ptr s = (if rd_pos s \<le> wr_pos s then ptr_add (ms_data s) (rd_pos s) else nullptr)"

definition ms_rd_ptr_offset :: "int \<Rightarrow> mstream \<Rightarrow> ptr \<times> mstream" where
  "ms_rd_ptr_offset offset s =
     (let pos = offset + rd_pos s in
      if pos < 0 \<or> pos > wr_pos s then (nullptr, s)
      else (ptr_add (ms_data s) pos, s\<lparr>rd_pos := pos\<rparr>))"

text \<open>Pointer difference is defined within one block only.\<close>

definition ms_rd_ptr_set :: "ptr \<Rightarrow> mstream \<Rightarrow> mem_error + mstream" where
  "ms_rd_ptr_set p s =
     (case (p, ms_data s) of
        (Some (b, off), Some (b', off')) \<Rightarrow>
          if b = b' then Inr (s\<lparr>rd_pos := off - off'\<rparr>) else Inl Bad_Access
      | (None, None) \<Rightarrow> Inr (s\<lparr>rd_pos := 0\<rparr>)
      | _ \<Rightarrow> Inl Bad_Access)"

definition ms_wr_ptr :: "mstream \<Rightarrow> ptr" where
  "ms_wr_ptr s = (if wr_pos s < data_size s then ptr_add (ms_data s) (wr_pos s) else nullptr)"

definition ms_wr_ptr_offset :: "int \<Rightarrow> mstream \<Rightarrow> ptr \<times> mstream" where
  "ms_wr_ptr_offset offset s =
     (let pos = offset + wr_pos s in
      if pos < 0 \<or> pos > data_size s then (nullptr, s)
      else (ptr_add (ms_data s) pos, s\<lparr>wr_pos := pos\<rparr>))"

text \<open>Copying an image to the write position and advancing it, the body shared by the writers.\<close>

definition ms_put :: "bytes \<Rightarrow> mstream \<Rightarrow> heap \<Rightarrow> mem_error + (mstream \<times> heap)" where
  "ms_put bs s h =
     ebind (mem_store (ptr_add (ms_data s) (wr_pos s)) bs h) (\<lambda>h1.
     Inr (s\<lparr>wr_pos := wr_pos s + int (length bs)\<rparr>, h1))"

definition ms_write_value :: "(nat \<Rightarrow> u8) \<Rightarrow> bytes \<Rightarrow> mstream \<Rightarrow> heap \<Rightarrow> mem_error + (mstream \<times> heap)" where
  "ms_write_value junk t s h =
     ebind (ms_check_space junk (int (length t)) s h) (\<lambda>(s1, h1). ms_put t s1 h1)"

definition ms_read_value :: "int \<Rightarrow> mstream \<Rightarrow> heap \<Rightarrow> mem_error + (bytes option \<times> mstream)" where
  "ms_read_value n s h =
     (if rd_pos s + n > wr_pos s then Inr (None, s)
      else ebind (mem_load (ptr_add (ms_data s) (rd_pos s)) n h) (\<lambda>bs.
        Inr (Some bs, s\<lparr>rd_pos := rd_pos s + n\<rparr>)))"

definition ms_write_uchar :: "(nat \<Rightarrow> u8) \<Rightarrow> u8 \<Rightarrow> mstream \<Rightarrow> heap \<Rightarrow> mem_error + (mstream \<times> heap)" where
  "ms_write_uchar junk v = ms_write_value junk [v]"

definition ms_write_bool :: "(nat \<Rightarrow> u8) \<Rightarrow> bool \<Rightarrow> mstream \<Rightarrow> heap \<Rightarrow> mem_error + (mstream \<times> heap)" where
  "ms_write_bool junk v = ms_write_uchar junk (if v then 1 else 0)"

definition ms_write_short :: "(nat \<Rightarrow> u8) \<Rightarrow> u16 \<Rightarrow> mstream \<Rightarrow> heap \<Rightarrow> mem_error + (mstream \<times> heap)" where
  "ms_write_short junk v = ms_write_value junk (le_bytes 2 v)"

definition ms_write_int :: "(nat \<Rightarrow> u8) \<Rightarrow> u32 \<Rightarrow> mstream \<Rightarrow> heap \<Rightarrow> mem_error + (mstream \<times> heap)" where
  "ms_write_int junk v = ms_write_value junk (le_bytes 4 v)"

definition ms_write_int64 :: "(nat \<Rightarrow> u8) \<Rightarrow> u64 \<Rightarrow> mstream \<Rightarrow> heap \<Rightarrow> mem_error + (mstream \<times> heap)" where
  "ms_write_int64 junk v = ms_write_value junk (le_bytes 8 v)"

text \<open>The two bytes of an \<open>int\<close> that \<open>memcpy(&len, sizeof(short))\<close> copies.\<close>

definition short_image :: "int \<Rightarrow> bytes" where
  "short_image len = le_bytes 2 (word_of_int len :: u32)"

definition ms_write_string :: "(nat \<Rightarrow> u8) \<Rightarrow> bytes \<Rightarrow> mstream \<Rightarrow> heap \<Rightarrow> mem_error + (mstream \<times> heap)" where
  "ms_write_string junk str s h =
     (let len = int (length str) in
      ebind (ms_check_space junk (len + 2) s h) (\<lambda>(s1, h1).
      ebind (ms_put (short_image len) s1 h1) (\<lambda>(s2, h2).
      ms_put str s2 h2)))"

definition ms_write_object :: "(nat \<Rightarrow> u8) \<Rightarrow> ptr \<Rightarrow> u16 \<Rightarrow> mstream \<Rightarrow> heap \<Rightarrow> mem_error + (mstream \<times> heap)" where
  "ms_write_object junk p object_size s h =
     ebind (ms_check_space junk (sint object_size + 2) s h) (\<lambda>(s1, h1).
     ebind (ms_put (le_bytes 2 object_size) s1 h1) (\<lambda>(s2, h2).
     ebind (mem_load p (sint object_size) h2) (\<lambda>bs.
     ms_put bs s2 h2)))"

definition ms_write_binary :: "(nat \<Rightarrow> u8) \<Rightarrow> ptr \<Rightarrow> int \<Rightarrow> mstream \<Rightarrow> heap \<Rightarrow> mem_error + (mstream \<times> heap)" where
  "ms_write_binary junk p len s h =
     ebind (ms_check_space junk len s h) (\<lambda>(s1, h1).
     ebind (mem_load p len h1) (\<lambda>bs. ms_put bs s1 h1))"

definition ms_read_bool :: "mstream \<Rightarrow> heap \<Rightarrow> mem_error + (bool \<times> bool \<times> mstream)" where
  "ms_read_bool s h =
     ebind (ms_read_value 1 s h) (\<lambda>(r, s1).
     Inr (r \<noteq> None, (case r of None \<Rightarrow> (0 :: u8) | Some bs \<Rightarrow> le_word bs) = 1, s1))"

definition ms_read_word :: "int \<Rightarrow> mstream \<Rightarrow> heap \<Rightarrow> mem_error + ('a::len word option \<times> mstream)" where
  "ms_read_word n s h = ebind (ms_read_value n s h) (\<lambda>(r, s1). Inr (map_option le_word r, s1))"

definition ms_read_uchar :: "mstream \<Rightarrow> heap \<Rightarrow> mem_error + (u8 option \<times> mstream)" where
  "ms_read_uchar = ms_read_word 1"

definition ms_read_short :: "mstream \<Rightarrow> heap \<Rightarrow> mem_error + (u16 option \<times> mstream)" where
  "ms_read_short = ms_read_word 2"

definition ms_read_int :: "mstream \<Rightarrow> heap \<Rightarrow> mem_error + (u32 option \<times> mstream)" where
  "ms_read_int = ms_read_word 4"

definition ms_read_int64 :: "mstream \<Rightarrow> heap \<Rightarrow> mem_error + (u64 option \<times> mstream)" where
  "ms_read_int64 = ms_read_word 8"

text \<open>The C string at a pointer: the bytes up to the first zero byte, which has to lie in the block.\<close>

definition mem_cstring :: "ptr \<Rightarrow> heap \<Rightarrow> mem_error + bytes" where
  "mem_cstring p h =
     (case p of None \<Rightarrow> Inl Bad_Access
      | Some (b, off) \<Rightarrow>
          (case blocks h b of None \<Rightarrow> Inl Bad_Access
           | Some bs \<Rightarrow>
               if 0 \<le> off \<and> 0 \<in> set (drop (nat off) bs)
               then Inr (takeWhile (\<lambda>c. c \<noteq> 0) (drop (nat off) bs)) else Inl Bad_Access))"

definition ms_read_string :: "mstream \<Rightarrow> heap \<Rightarrow> mem_error + (bytes option \<times> mstream \<times> heap)" where
  "ms_read_string s h =
     (if wr_pos s \<le> rd_pos s + 2 then Inr (None, s, h)
      else ebind (mem_load (ptr_add (ms_data s) (rd_pos s)) 2 h) (\<lambda>lb.
        let len = sint (le_word lb :: u16);
            s1 = s\<lparr>rd_pos := rd_pos s + 2\<rparr> in
        if len = 0 then Inr (Some [], s1, h)
        else (let endp = ptr_add (ms_data s1) (rd_pos s1 + len) in
          ebind (mem_load endp 1 h) (\<lambda>c.
          ebind (mem_store endp [0] h) (\<lambda>h1.
          ebind (mem_cstring (ptr_add (ms_data s1) (rd_pos s1)) h1) (\<lambda>str.
          ebind (mem_store endp c h1) (\<lambda>h2.
          Inr (Some str, s1\<lparr>rd_pos := rd_pos s1 + len\<rparr>, h2))))))))"

definition ms_read_object :: "int \<Rightarrow> mstream \<Rightarrow> heap \<Rightarrow> mem_error + (int \<times> bytes option \<times> mstream)" where
  "ms_read_object obj_size s h =
     ebind (mem_load (ptr_add (ms_data s) (rd_pos s)) 2 h) (\<lambda>lb.
       let len = sint (le_word lb :: u16);
           s1 = s\<lparr>rd_pos := rd_pos s + 2\<rparr> in
       if len > obj_size then Inr (len, None, s1\<lparr>rd_pos := rd_pos s1 - (2 + 1)\<rparr>)
       else ebind (mem_load (ptr_add (ms_data s1) (rd_pos s1)) len h) (\<lambda>bs.
         Inr (len, Some bs, s1\<lparr>rd_pos := rd_pos s1 + len\<rparr>)))"

definition ms_read_binary :: "int \<Rightarrow> mstream \<Rightarrow> heap \<Rightarrow> mem_error + (bytes \<times> mstream)" where
  "ms_read_binary n s h =
     ebind (mem_load (ptr_add (ms_data s) (rd_pos s)) n h) (\<lambda>bs.
     Inr (bs, s\<lparr>rd_pos := rd_pos s + n\<rparr>))"

definition ms_set_alloc_type :: "int \<Rightarrow> mstream \<Rightarrow> mstream" where
  "ms_set_alloc_type at s = s\<lparr>alloc_type := at\<rparr>"

text \<open>\<open>data()\<close> is the read pointer, \<open>raw_data()\<close> the start of the block.\<close>

definition ms_data_ptr :: "mstream \<Rightarrow> ptr" where "ms_data_ptr s = ms_rd_ptr s"
definition ms_raw_data :: "mstream \<Rightarrow> ptr" where "ms_raw_data s = ms_data s"
definition ms_raw_length :: "mstream \<Rightarrow> int" where "ms_raw_length s = data_size s"


section \<open>Invariant and abstraction\<close>

definition ms_block :: "mstream \<Rightarrow> heap \<Rightarrow> bytes option" where
  "ms_block s h =
     (case ms_data s of Some (b, off) \<Rightarrow> if off = 0 then blocks h b else None | None \<Rightarrow> None)"

definition ms_wf :: "mstream \<Rightarrow> heap \<Rightarrow> bool" where
  "ms_wf s h \<longleftrightarrow>
     heap_ok h \<and> 0 \<le> rd_pos s \<and> rd_pos s \<le> wr_pos s \<and> wr_pos s \<le> data_size s \<and>
     (case ms_block s h of None \<Rightarrow> False | Some bs \<Rightarrow> int (length bs) = data_size s)"

definition ms_content :: "mstream \<Rightarrow> heap \<Rightarrow> bytes" where
  "ms_content s h =
     (case ms_block s h of None \<Rightarrow> []
      | Some bs \<Rightarrow> drop (nat (rd_pos s)) (take (nat (wr_pos s)) bs))"

lemma ms_block_upd [simp]:
  "ms_block (s\<lparr>rd_pos := r\<rparr>) h = ms_block s h"
  "ms_block (s\<lparr>wr_pos := w\<rparr>) h = ms_block s h"
  "ms_block (s\<lparr>data_size := d\<rparr>) h = ms_block s h"
  "ms_block (s\<lparr>alloc_type := a\<rparr>) h = ms_block s h"
  by (simp_all add: ms_block_def)

lemma ms_wfE:
  assumes "ms_wf s h"
  obtains b bs where "ms_data s = Some (b, 0)" "blocks h b = Some bs" "ms_block s h = Some bs"
    "int (length bs) = data_size s" "heap_ok h" "0 \<le> rd_pos s" "rd_pos s \<le> wr_pos s"
    "wr_pos s \<le> data_size s"
  using assms by (auto simp: ms_wf_def ms_block_def split: option.splits if_splits prod.splits)

lemma length_ms_content: "ms_wf s h \<Longrightarrow> int (length (ms_content s h)) = ms_length s"
  by (auto elim!: ms_wfE simp: ms_content_def ms_length_def)

lemma ptr_add_Some [simp]: "ptr_add (Some (b, off)) k = Some (b, off + k)"
  by (simp add: ptr_add_def)

subsection \<open>Growing\<close>

lemma ms_check_space_ok:
  assumes wf: "ms_wf s h" and len: "0 \<le> len" and bound: "(wr_pos s + len) * 2 < 2 ^ 31"
  shows "\<exists>s' h'. ms_check_space junk len s h = Inr (s', h') \<and> ms_wf s' h' \<and>
     ms_content s' h' = ms_content s h \<and> wr_pos s' = wr_pos s \<and> rd_pos s' = rd_pos s \<and>
     alloc_type s' = alloc_type s \<and> wr_pos s + len \<le> data_size s' \<and>
     data_size s' = max (data_size s) (if data_size s < wr_pos s + len then (wr_pos s + len) * 2 else 0)"
proof (cases "wr_pos s + len \<le> data_size s")
  case True
  moreover have "0 \<le> wr_pos s" using wf by (simp add: ms_wf_def)
  ultimately show ?thesis
    using wf len bound by (simp add: ms_check_space_def int32_ok)
next
  case False
  from wf obtain b bs where b: "ms_data s = Some (b, 0)" "blocks h b = Some bs"
    and bl: "ms_block s h = Some bs"
    and l: "int (length bs) = data_size s" and ok: "heap_ok h"
    and p: "0 \<le> rd_pos s" "rd_pos s \<le> wr_pos s" "wr_pos s \<le> data_size s"
    by (rule ms_wfE)
  define sz where "sz = (wr_pos s + len) * 2"
  let ?n = "next_block h" and ?w = "nat (wr_pos s)"
  let ?new = "map junk [0..<nat sz]"
  have neq: "b \<noteq> ?n" using b ok by (auto dest: heap_ok_fresh)
  have wlen: "?w \<le> length bs" "?w \<le> nat sz" using p l len by (auto simp: sz_def)
  define h1 where "h1 = \<lparr>blocks = (blocks h)(?n \<mapsto> ?new), next_block = Suc ?n\<rparr>"
  have m: "MALLOC_MP junk sz h = (Some (?n, 0), h1)" by (simp add: MALLOC_MP_def h1_def)
  have ld: "mem_load (Some (b, 0)) (wr_pos s) h1 = Inr (take ?w bs)"
    using mem_load_ok [of h1 b bs 0 "wr_pos s"] b neq p l by (simp add: h1_def)
  define h2 where "h2 = h1\<lparr>blocks := (blocks h1)(?n \<mapsto> overwrite ?new 0 (take ?w bs))\<rparr>"
  have st: "mem_store (Some (?n, 0)) (take ?w bs) h1 = Inr h2"
  proof -
    have "0 + int (length (take ?w bs)) \<le> int (length ?new)" using wlen by auto
    then show ?thesis
      using mem_store_ok [of h1 ?n ?new 0 "take ?w bs"] by (simp add: h1_def h2_def)
  qed
  define h3 where "h3 = h2\<lparr>blocks := (blocks h2)(b := None)\<rparr>"
  have fr: "FREE_MP (Some (b, 0)) h2 = Inr h3"
    using FREE_MP_ok [of h2 b] b neq by (simp add: h1_def h2_def h3_def)
  let ?s = "s\<lparr>data_size := sz, ms_data := Some (?n, 0)\<rparr>"
  have "ms_check_space junk len s h = Inr (?s, h3)"
  proof -
    have i: "int32 ((wr_pos s + len) * 2) = Inr sz" "int32 (wr_pos s + len) = Inr (wr_pos s + len)"
      using bound p len by (auto simp: sz_def intro!: int32_ok)
    show ?thesis
      using False by (simp only: ms_check_space_def i ebind_simps b m ld st fr Let_def split if_False)
  qed
  moreover have blk: "ms_block ?s h3 = Some (overwrite ?new 0 (take ?w bs))"
    using neq by (simp add: ms_block_def h1_def h2_def h3_def)
  moreover have "ms_content ?s h3 = ms_content s h"
  proof -
    have "take ?w (overwrite ?new 0 (take ?w bs)) = take ?w bs"
      using wlen by (simp add: overwrite_def)
    then show ?thesis by (simp add: ms_content_def blk bl)
  qed
  moreover have "ms_wf ?s h3"
  proof -
    have "heap_ok h3" using ok by (auto simp: heap_ok_def h1_def h2_def h3_def)
    moreover have "length (overwrite ?new 0 (take ?w bs)) = nat sz" using wlen by simp
    moreover have "wr_pos s \<le> sz" "0 \<le> sz" using p len by (simp_all add: sz_def)
    ultimately show ?thesis using p by (simp add: ms_wf_def blk)
  qed
  ultimately show ?thesis using False p len by (auto simp: sz_def)
qed


subsection \<open>Writers append, readers consume\<close>

lemma ms_put_ok:
  assumes wf: "ms_wf s h" and space: "wr_pos s + int (length xs) \<le> data_size s"
  shows "\<exists>s' h'. ms_put xs s h = Inr (s', h') \<and> ms_wf s' h' \<and>
     ms_content s' h' = ms_content s h @ xs \<and> wr_pos s' = wr_pos s + int (length xs) \<and>
     rd_pos s' = rd_pos s \<and> data_size s' = data_size s \<and> alloc_type s' = alloc_type s"
proof -
  from wf obtain b bs where b: "ms_data s = Some (b, 0)" "blocks h b = Some bs"
    and bl: "ms_block s h = Some bs"
    and l: "int (length bs) = data_size s" and ok: "heap_ok h"
    and p: "0 \<le> rd_pos s" "rd_pos s \<le> wr_pos s" "wr_pos s \<le> data_size s"
    by (rule ms_wfE)
  let ?w = "nat (wr_pos s)"
  let ?h = "h\<lparr>blocks := (blocks h)(b \<mapsto> overwrite bs ?w xs)\<rparr>"
  let ?s = "s\<lparr>wr_pos := wr_pos s + int (length xs)\<rparr>"
  have fit: "?w + length xs \<le> length bs" using p l space by linarith
  have put: "ms_put xs s h = Inr (?s, ?h)"
    using mem_store_ok [of h b bs "wr_pos s" xs] b p l space by (simp add: ms_put_def)
  have blk: "ms_block s ?h = Some (overwrite bs ?w xs)"
    by (simp add: ms_block_def b)
  have "ms_content ?s ?h = drop (nat (rd_pos s)) (take ?w bs @ xs)"
    using p take_overwrite [OF fit] by (simp add: ms_content_def blk nat_add_distrib)
  also have "\<dots> = ms_content s h @ xs"
    using p l by (simp add: ms_content_def bl)
  finally have "ms_content ?s ?h = ms_content s h @ xs" .
  moreover have "ms_wf ?s ?h"
    using p l space fit heap_ok_upd [OF ok, of b] b by (simp add: ms_wf_def blk)
  ultimately show ?thesis using put by fastforce
qed

lemma ms_write_value_ok:
  assumes wf: "ms_wf s h" and bound: "(wr_pos s + int (length t)) * 2 < 2 ^ 31"
  shows "\<exists>s' h'. ms_write_value junk t s h = Inr (s', h') \<and> ms_wf s' h' \<and>
     ms_content s' h' = ms_content s h @ t \<and> wr_pos s' = wr_pos s + int (length t) \<and>
     rd_pos s' = rd_pos s"
proof -
  obtain s1 h1 where cs: "ms_check_space junk (int (length t)) s h = Inr (s1, h1)"
    and 1: "ms_wf s1 h1" "ms_content s1 h1 = ms_content s h" "wr_pos s1 = wr_pos s"
      "rd_pos s1 = rd_pos s" "wr_pos s + int (length t) \<le> data_size s1"
    using ms_check_space_ok [OF wf _ bound, of junk] by fastforce
  from ms_put_ok [OF 1(1), of t] 1 obtain s2 h2 where "ms_put t s1 h1 = Inr (s2, h2)"
    "ms_wf s2 h2" "ms_content s2 h2 = ms_content s h @ t" "wr_pos s2 = wr_pos s + int (length t)"
    "rd_pos s2 = rd_pos s"
    by auto
  then show ?thesis by (simp add: ms_write_value_def cs)
qed

lemma ms_read_value_ok:
  assumes wf: "ms_wf s h" and n: "n = int k"
  shows "if k \<le> length (ms_content s h)
     then ms_read_value n s h = Inr (Some (take k (ms_content s h)), s\<lparr>rd_pos := rd_pos s + n\<rparr>) \<and>
          ms_wf (s\<lparr>rd_pos := rd_pos s + n\<rparr>) h \<and>
          ms_content (s\<lparr>rd_pos := rd_pos s + n\<rparr>) h = drop k (ms_content s h)
     else ms_read_value n s h = Inr (None, s)"
proof -
  from wf obtain b bs where b: "ms_data s = Some (b, 0)" "blocks h b = Some bs"
    and bl: "ms_block s h = Some bs"
    and l: "int (length bs) = data_size s" and ok: "heap_ok h"
    and p: "0 \<le> rd_pos s" "rd_pos s \<le> wr_pos s" "wr_pos s \<le> data_size s"
    by (rule ms_wfE)
  let ?s = "s\<lparr>rd_pos := rd_pos s + n\<rparr>"
  have len: "length (ms_content s h) = nat (wr_pos s) - nat (rd_pos s)"
    using p l by (simp add: ms_content_def bl)
  show ?thesis
  proof (cases "k \<le> length (ms_content s h)")
    case True
    then have fit: "rd_pos s + int k \<le> wr_pos s" using len p by linarith
    have "mem_load (Some (b, rd_pos s)) n h = Inr (take k (drop (nat (rd_pos s)) bs))"
      using mem_load_ok [of h b bs "rd_pos s" n] b p l fit n by simp
    moreover have "take k (drop (nat (rd_pos s)) bs) = take k (ms_content s h)"
    proof -
      have "k \<le> nat (wr_pos s) - nat (rd_pos s)" using fit p by linarith
      then show ?thesis by (simp add: ms_content_def bl drop_take min_def)
    qed
    moreover have "ms_content ?s h = drop k (ms_content s h)"
      using p n by (simp add: ms_content_def bl nat_add_distrib add.commute)
    moreover have "ms_wf ?s h" using p l ok fit n by (simp add: ms_wf_def bl)
    ultimately show ?thesis using True fit n b by (simp add: ms_read_value_def)
  next
    case False
    then have "rd_pos s + n > wr_pos s" using len p n by linarith
    then show ?thesis using False by (simp add: ms_read_value_def)
  qed
qed

lemma ms_crunch_ok:
  assumes wf: "ms_wf s h"
  shows "\<exists>s' h'. ms_crunch s h = Inr (s', h') \<and> ms_wf s' h' \<and>
     ms_content s' h' = ms_content s h \<and> rd_pos s' = 0 \<and> data_size s' = data_size s \<and>
     ms_space s' = ms_space s + rd_pos s"
proof -
  from wf obtain b bs where b: "ms_data s = Some (b, 0)" "blocks h b = Some bs"
    and bl: "ms_block s h = Some bs"
    and l: "int (length bs) = data_size s" and ok: "heap_ok h"
    and p: "0 \<le> rd_pos s" "rd_pos s \<le> wr_pos s" "wr_pos s \<le> data_size s"
    by (rule ms_wfE)
  consider "rd_pos s = 0" | "rd_pos s \<noteq> 0" "wr_pos s = rd_pos s" | "rd_pos s > 0" "rd_pos s < wr_pos s"
    using p by linarith
  then show ?thesis
  proof cases
    case 1
    then show ?thesis using wf by (simp add: ms_crunch_def ms_space_def)
  next
    case 2
    have "ms_block (ms_reset s) h = Some bs" using bl by (simp add: ms_block_def ms_reset_def)
    then have "ms_wf (ms_reset s) h" "ms_content (ms_reset s) h = ms_content s h"
      using p l ok 2 by (simp_all add: ms_wf_def ms_content_def bl ms_reset_def)
    then show ?thesis using 2 by (simp add: ms_crunch_def ms_space_def ms_reset_def)
  next
    case 3
    let ?c = "ms_content s h" and ?n = "wr_pos s - rd_pos s"
    have len: "int (length ?c) = ?n" using length_ms_content [OF wf] 3 by (simp add: ms_length_def)
    have "mem_load (Some (b, rd_pos s)) ?n h = Inr (take (nat ?n) (drop (nat (rd_pos s)) bs))"
      using mem_load_ok [of h b bs "rd_pos s" ?n] b p l 3 by simp
    then have ld: "mem_load (Some (b, rd_pos s)) ?n h = Inr ?c"
      using p by (simp add: ms_content_def bl drop_take nat_diff_distrib)
    have fit: "length ?c \<le> length bs" using len l p by linarith
    let ?h = "h\<lparr>blocks := (blocks h)(b \<mapsto> overwrite bs 0 ?c)\<rparr>" and ?s = "s\<lparr>rd_pos := 0, wr_pos := ?n\<rparr>"
    have st: "mem_store (Some (b, 0)) ?c h = Inr ?h"
      using mem_store_ok [of h b bs 0 ?c] b fit by simp
    have blk: "ms_block s ?h = Some (overwrite bs 0 ?c)" by (simp add: ms_block_def b)
    have "nat ?n = length ?c" using len by simp
    then have "ms_content ?s ?h = ?c" using fit by (simp add: ms_content_def [of ?s ?h] blk) (simp add: overwrite_def)
    moreover have "ms_wf ?s ?h"
      using p l 3 fit heap_ok_upd [OF ok, of b] b by (simp add: ms_wf_def blk)
    ultimately show ?thesis
      using 3 ld st b by (simp add: ms_crunch_def ms_length_def ms_space_def)
  qed
qed


subsection \<open>Strings\<close>

lemma length_short_image [simp]: "length (short_image n) = 2"
  by (simp add: short_image_def)

lemma sint_short_image:
  assumes "0 \<le> n" "n < 32768"
  shows "sint (le_word (short_image n) :: u16) = n"
proof -
  have "(le_word (short_image n) :: u16) = word_of_int n"
    using assms by (simp add: short_image_def le_word_le_bytes_ucast unsigned_of_int take_bit_int_eq_self)
  then show ?thesis using assms by (simp add: signed_of_int signed_take_bit_int_eq_self)
qed

lemma ms_wf_split:
  assumes "ms_wf s h" "ms_content s h = c"
  obtains b pre post where "ms_data s = Some (b, 0)" "blocks h b = Some (pre @ c @ post)"
    "int (length pre) = rd_pos s" "rd_pos s + int (length c) = wr_pos s"
    "data_size s = int (length (pre @ c @ post))"
proof -
  from assms(1) obtain b bs where b: "ms_data s = Some (b, 0)" "blocks h b = Some bs"
    and bl: "ms_block s h = Some bs" and l: "int (length bs) = data_size s"
    and p: "0 \<le> rd_pos s" "rd_pos s \<le> wr_pos s" "wr_pos s \<le> data_size s"
    by (rule ms_wfE)
  let ?r = "nat (rd_pos s)" and ?w = "nat (wr_pos s)"
  have c: "c = drop ?r (take ?w bs)" using assms(2) by (simp add: ms_content_def bl)
  have "take ?w bs = take ?r (take ?w bs) @ c" unfolding c by (rule append_take_drop_id [symmetric])
  then have "bs = (take ?r bs @ c) @ drop ?w bs"
    using p by (metis append_take_drop_id min.absorb1 nat_mono take_take)
  then show thesis
    using that [of b "take ?r bs" "drop ?w bs"] b p l c by auto
qed

lemma ms_write_string_ok:
  assumes wf: "ms_wf s h" and bound: "(wr_pos s + (int (length str) + 2)) * 2 < 2 ^ 31"
  shows "\<exists>s' h'. ms_write_string junk str s h = Inr (s', h') \<and> ms_wf s' h' \<and>
     ms_content s' h' = ms_content s h @ short_image (int (length str)) @ str \<and>
     rd_pos s' = rd_pos s \<and>
     data_size s' = max (data_size s)
       (if data_size s < wr_pos s + (int (length str) + 2) then (wr_pos s + (int (length str) + 2)) * 2 else 0)"
proof -
  let ?n = "int (length str) + 2" and ?lb = "short_image (int (length str))"
  obtain s1 h1 where cs: "ms_check_space junk ?n s h = Inr (s1, h1)"
    and 1: "ms_wf s1 h1" "ms_content s1 h1 = ms_content s h" "wr_pos s1 = wr_pos s"
      "rd_pos s1 = rd_pos s" "wr_pos s + ?n \<le> data_size s1"
      "data_size s1 = max (data_size s) (if data_size s < wr_pos s + ?n then (wr_pos s + ?n) * 2 else 0)"
    using ms_check_space_ok [OF wf _ bound, of junk] by fastforce
  obtain s2 h2 where p2: "ms_put ?lb s1 h1 = Inr (s2, h2)"
    and 2: "ms_wf s2 h2" "ms_content s2 h2 = ms_content s1 h1 @ ?lb" "wr_pos s2 = wr_pos s1 + 2"
      "rd_pos s2 = rd_pos s1" "data_size s2 = data_size s1"
    using ms_put_ok [OF 1(1), of ?lb] 1 by auto
  obtain s3 h3 where p3: "ms_put str s2 h2 = Inr (s3, h3)"
    and 3: "ms_wf s3 h3" "ms_content s3 h3 = ms_content s2 h2 @ str"
      "rd_pos s3 = rd_pos s2" "data_size s3 = data_size s2"
    using ms_put_ok [OF 2(1), of str] 1 2 by auto
  have "ms_write_string junk str s h = Inr (s3, h3)"
    by (simp add: ms_write_string_def cs p2 p3)
  moreover have "ms_content s3 h3 = ms_content s h @ ?lb @ str" by (simp only: 3 2 1 append_assoc)
  ultimately show ?thesis using 1 2 3 by auto
qed

lemma ms_read_string_at:
  assumes wf: "ms_wf s h"
    and c: "ms_content s h = short_image (int (length str)) @ str @ rest"
    and str: "str \<noteq> []" "length str < 32768" "0 \<notin> set str"
  shows "ms_read_string s h =
     (if rd_pos s + 2 + int (length str) < data_size s
      then Inr (Some str, s\<lparr>rd_pos := rd_pos s + 2 + int (length str)\<rparr>, h) else Inl Bad_Access)"
proof -
  let ?lb = "short_image (int (length str))" and ?n = "int (length str)"
  from ms_wf_split [OF wf c] obtain b pre post where b: "ms_data s = Some (b, 0)"
    and blk: "blocks h b = Some (pre @ (?lb @ str @ rest) @ post)"
    and r: "int (length pre) = rd_pos s" and w: "rd_pos s + int (length (?lb @ str @ rest)) = wr_pos s"
    and d: "data_size s = int (length (pre @ (?lb @ str @ rest) @ post))"
    by blast
  have ld: "mem_load (Some (b, rd_pos s)) 2 h = Inr ?lb"
  proof -
    have "nat (rd_pos s) = length pre" using r by simp
    then show ?thesis using mem_load_ok [OF blk, of "rd_pos s" 2] r by simp
  qed
  have len: "sint (le_word ?lb :: u16) = ?n" using str sint_short_image [of ?n] by simp
  have n0: "?n \<noteq> 0" and guard: "\<not> wr_pos s \<le> rd_pos s + 2" using str w by (auto simp: neq_Nil_conv)
  let ?off = "rd_pos s + 2 + ?n"
  show ?thesis
  proof (cases "?off < data_size s")
    case False
    then have "int (length rest) + int (length post) \<le> 0" using d r by simp
    then have "length rest = 0" "length post = 0" by linarith+
    then have "rest @ post = []" by simp
    then have "mem_load (Some (b, ?off)) 1 h = Inl Bad_Access"
      using blk r by (auto simp: mem_load_def)
    then show ?thesis
      using guard False n0 by (simp add: ms_read_string_def b ld len Let_def)
  next
    case True
    then have "rest @ post \<noteq> []" using d r by auto
    then obtain x xs where rp: "rest @ post = x # xs" by (cases "rest @ post") auto
    have off: "nat ?off = length (pre @ ?lb @ str)" using r by auto
    have blk': "blocks h b = Some ((pre @ ?lb @ str) @ x # xs)" using blk rp by simp
    have l1: "mem_load (Some (b, ?off)) 1 h = Inr [x]"
      using mem_load_ok [OF blk', of ?off 1] r off by simp
    let ?h1 = "h\<lparr>blocks := (blocks h)(b \<mapsto> (pre @ ?lb @ str) @ 0 # xs)\<rparr>"
    have s1: "mem_store (Some (b, ?off)) [0] h = Inr ?h1"
      using mem_store_ok [OF blk', of ?off "[0]"] r off by (simp add: overwrite_def)
    have cs: "mem_cstring (Some (b, rd_pos s + 2)) ?h1 = Inr str"
    proof -
      have "nat (rd_pos s + 2) = length (pre @ ?lb)" using r by auto
      then have "drop (nat (rd_pos s + 2)) ((pre @ ?lb @ str) @ 0 # xs) = str @ 0 # xs" by simp
      moreover have "takeWhile (\<lambda>c. c \<noteq> 0) (str @ 0 # xs) = str"
        using str by (auto simp: takeWhile_append)
      ultimately show ?thesis using r by (simp add: mem_cstring_def)
    qed
    have "mem_store (Some (b, ?off)) [x] ?h1 = Inr (?h1\<lparr>blocks := (blocks ?h1)(b \<mapsto> (pre @ ?lb @ str) @ x # xs)\<rparr>)"
      using mem_store_ok [of ?h1 b "(pre @ ?lb @ str) @ 0 # xs" ?off "[x]"] r off
      by (simp add: overwrite_def)
    then have s2: "mem_store (Some (b, ?off)) [x] ?h1 = Inr h"
      using blk' by (simp add: fun_upd_idem)
    show ?thesis
      using guard True n0 l1 s1 cs s2
      by (simp add: ms_read_string_def b ld len Let_def add.assoc)
  qed
qed


section \<open>The stream as a queue of bytes\<close>

text \<open>
  What the serialisers rely on: writing appends, reading consumes from the front or reports that
  too little is there. \<open>room\<close> is the bound that keeps the sizes inside 32 bits.
\<close>

primrec write_all :: "(bytes \<Rightarrow> 's \<Rightarrow> 's option) \<Rightarrow> bytes list \<Rightarrow> 's \<Rightarrow> 's option" where
  "write_all wr [] s = Some s"
| "write_all wr (xs # xss) s = Option.bind (wr xs s) (write_all wr xss)"

primrec read_all :: "(nat \<Rightarrow> 's \<Rightarrow> (bytes \<times> 's) option) \<Rightarrow> nat list \<Rightarrow> 's \<Rightarrow> (bytes list \<times> 's) option" where
  "read_all rd [] s = Some ([], s)"
| "read_all rd (n # ns) s =
     Option.bind (rd n s) (\<lambda>(xs, s1).
     Option.bind (read_all rd ns s1) (\<lambda>(xss, s2). Some (xs # xss, s2)))"

locale byte_queue =
  fixes invar :: "'s \<Rightarrow> bool"
    and content :: "'s \<Rightarrow> bytes"
    and wr :: "bytes \<Rightarrow> 's \<Rightarrow> 's option"
    and rd :: "nat \<Rightarrow> 's \<Rightarrow> (bytes \<times> 's) option"
    and room :: "'s \<Rightarrow> nat \<Rightarrow> bool"
  assumes wr_ok: "invar s \<Longrightarrow> room s (length xs + n) \<Longrightarrow>
      \<exists>s'. wr xs s = Some s' \<and> invar s' \<and> content s' = content s @ xs \<and> room s' n"
    and rd_ok: "invar s \<Longrightarrow> n \<le> length (content s) \<Longrightarrow>
      \<exists>s'. rd n s = Some (take n (content s), s') \<and> invar s' \<and> content s' = drop n (content s)"
    and rd_short: "invar s \<Longrightarrow> length (content s) < n \<Longrightarrow> rd n s = None"
begin

lemma write_all_ok:
  "invar s \<Longrightarrow> room s (sum_list (map length xss)) \<Longrightarrow>
   \<exists>s'. write_all wr xss s = Some s' \<and> invar s' \<and> content s' = content s @ concat xss"
proof (induction xss arbitrary: s)
  case Nil
  then show ?case by simp
next
  case (Cons xs xss)
  from Cons.prems wr_ok [of s xs "sum_list (map length xss)"] obtain s1 where
    1: "wr xs s = Some s1" "invar s1" "content s1 = content s @ xs" "room s1 (sum_list (map length xss))"
    by auto
  with Cons.IH [of s1] show ?case by auto
qed

lemma read_all_ok:
  "invar s \<Longrightarrow> content s = concat xss @ rest \<Longrightarrow>
   \<exists>s'. read_all rd (map length xss) s = Some (xss, s') \<and> invar s' \<and> content s' = rest"
proof (induction xss arbitrary: s)
  case Nil
  then show ?case by simp
next
  case (Cons xs xss)
  from Cons.prems rd_ok [of s "length xs"] obtain s1 where
    1: "rd (length xs) s = Some (xs, s1)" "invar s1" "content s1 = concat xss @ rest"
    by auto
  with Cons.IH [of s1] show ?case by auto
qed

lemma write_read_all:
  assumes "invar s" "content s = []" "room s (sum_list (map length xss))"
  shows "\<exists>s1 s2. write_all wr xss s = Some s1 \<and> read_all rd (map length xss) s1 = Some (xss, s2) \<and>
     invar s2 \<and> content s2 = []"
  using write_all_ok [OF assms(1,3)] read_all_ok [of _ xss "[]"] assms(2) by fastforce

end

definition msq_write :: "(nat \<Rightarrow> u8) \<Rightarrow> bytes \<Rightarrow> mstream \<times> heap \<Rightarrow> (mstream \<times> heap) option" where
  "msq_write junk xs sh =
     (case ms_write_value junk xs (fst sh) (snd sh) of Inl _ \<Rightarrow> None | Inr sh' \<Rightarrow> Some sh')"

definition msq_read :: "nat \<Rightarrow> mstream \<times> heap \<Rightarrow> (bytes \<times> mstream \<times> heap) option" where
  "msq_read n sh =
     (case ms_read_value (int n) (fst sh) (snd sh) of
        Inr (Some bs, s') \<Rightarrow> Some (bs, s', snd sh) | _ \<Rightarrow> None)"

interpretation msq: byte_queue "\<lambda>(s, h). ms_wf s h" "\<lambda>(s, h). ms_content s h" "msq_write junk"
    msq_read "\<lambda>(s, h) n. (wr_pos s + int n) * 2 < 2 ^ 31" for junk
proof (unfold_locales, goal_cases)
  case (1 sh xs n)
  obtain s h where sh: "sh = (s, h)" by (cases sh)
  have "(wr_pos s + int (length xs)) * 2 < 2 ^ 31" using 1(2) by (simp add: sh)
  from ms_write_value_ok [of s h xs junk, OF _ this] 1 sh show ?case
    by (fastforce simp: msq_write_def)
next
  case (2 sh n)
  obtain s h where sh: "sh = (s, h)" by (cases sh)
  with 2 ms_read_value_ok [of s h "int n" n] show ?case by (simp add: msq_read_def)
next
  case (3 sh n)
  obtain s h where sh: "sh = (s, h)" by (cases sh)
  with 3 ms_read_value_ok [of s h "int n" n] show ?case by (simp add: msq_read_def)
qed

lemma ms_new_ok:
  assumes "heap_ok h" "0 < n" "ms_new junk n h = (s, h')"
  shows "ms_wf s h' \<and> ms_content s h' = [] \<and> wr_pos s = 0 \<and> rd_pos s = 0 \<and> data_size s = n"
  using assms
  by (auto simp: ms_new_def MALLOC_MP_def ms_wf_def ms_content_def ms_block_def heap_ok_def)


section \<open>Properties\<close>

text \<open>
  (C7) The stream refines a queue of bytes. On a well-formed stream a write succeeds, growing the
  block when it is full, and appends exactly the written image; a read of \<open>k\<close> bytes returns the
  first \<open>k\<close> bytes and drops them, or, when fewer are there, reports failure and changes nothing;
  compaction keeps the contents and gives the consumed space back.
\<close>

theorem stream_refines_byte_queue:
  assumes "ms_wf s h" "(wr_pos s + int (length t)) * 2 < 2 ^ 31"
  shows "(\<exists>s' h'. ms_write_value junk t s h = Inr (s', h') \<and> ms_wf s' h' \<and>
            ms_content s' h' = ms_content s h @ t) \<and>
         (if k \<le> length (ms_content s h)
          then \<exists>s'. ms_read_value (int k) s h = Inr (Some (take k (ms_content s h)), s') \<and>
                 ms_wf s' h \<and> ms_content s' h = drop k (ms_content s h)
          else ms_read_value (int k) s h = Inr (None, s)) \<and>
         (\<exists>s' h'. ms_crunch s h = Inr (s', h') \<and> ms_wf s' h' \<and>
            ms_content s' h' = ms_content s h \<and> ms_space s' = ms_space s + rd_pos s)"
  using ms_write_value_ok [OF assms, of junk] ms_read_value_ok [OF assms(1) refl, of k]
    ms_crunch_ok [OF assms(1)]
  by (auto split: if_splits)

theorem stream_refines_byte_queue_witness:
  "\<exists>s h. ms_new (\<lambda>_. 0) 1 empty_heap = (s, h) \<and> ms_wf s h \<and>
     (\<exists>s' h'. ms_write_value (\<lambda>_. 0) [7, 8, 9] s h = Inr (s', h') \<and> ms_content s' h' = [7, 8, 9])"
proof -
  obtain s h where new: "ms_new (\<lambda>_. 0) 1 empty_heap = (s, h)" by fastforce
  from ms_new_ok [OF heap_ok_empty _ new] have "ms_wf s h" "ms_content s h = []" "wr_pos s = 0"
    by simp_all
  then show ?thesis
    using new stream_refines_byte_queue [of s h "[7, 8, 9]" "\<lambda>_. 0" 0] by fastforce
qed

text \<open>
  Fields written one after the other, of any widths, are read back in the same order and with
  the same images, after which the stream is empty again, provided the whole message stays below
  the 32-bit bound on sizes. No block size has to be chosen: the stream grows as needed.
\<close>

theorem stream_fields_roundtrip:
  assumes "ms_wf s h" "ms_content s h = []"
    "(wr_pos s + int (sum_list (map length xss))) * 2 < 2 ^ 31"
  shows "\<exists>sh1 s2 h2. write_all (msq_write junk) xss (s, h) = Some sh1 \<and>
           read_all msq_read (map length xss) sh1 = Some (xss, (s2, h2)) \<and> ms_content s2 h2 = []"
proof -
  from assms obtain sh1 sh2 where "write_all (msq_write junk) xss (s, h) = Some sh1"
    "read_all msq_read (map length xss) sh1 = Some (xss, sh2)" "(\<lambda>(s, h). ms_content s h) sh2 = []"
    using msq.write_read_all [of "(s, h)" xss junk] by auto
  then show ?thesis by (cases sh2) auto
qed

theorem stream_fields_roundtrip_witness:
  "\<exists>s h sh1 sh2. ms_new (\<lambda>_. 0) 4 empty_heap = (s, h) \<and>
     write_all (msq_write (\<lambda>_. 0)) [le_bytes 4 (258 :: u32), [], le_bytes 8 (77 :: u64)] (s, h) = Some sh1 \<and>
     read_all msq_read [4, 0, 8] sh1 = Some ([le_bytes 4 (258 :: u32), [], le_bytes 8 (77 :: u64)], sh2)"
proof -
  obtain s h where new: "ms_new (\<lambda>_. 0) 4 empty_heap = (s, h)" by fastforce
  from ms_new_ok [OF heap_ok_empty _ new] have "ms_wf s h" "ms_content s h = []" "wr_pos s = 0"
    by simp_all
  then show ?thesis
    using new stream_fields_roundtrip [of s h "[le_bytes 4 (258 :: u32), [], le_bytes 8 (77 :: u64)]" "\<lambda>_. 0"]
    by fastforce
qed

text \<open>
  A string is written as a two-byte length and its characters and read back unchanged, for
  strings of 1 to 32767 bytes without a zero byte, with the store left as it was, if the block has
  a byte behind the string. If the string ends exactly at the end of the block, the reader's
  temporary terminator is read and written one byte past the block.
\<close>

theorem string_roundtrip:
  assumes "ms_wf s h" "ms_content s h = []" "str \<noteq> []" "length str < 32768" "0 \<notin> set str"
    "(wr_pos s + (int (length str) + 2)) * 2 < 2 ^ 31"
  shows "\<exists>s1 h1. ms_write_string junk str s h = Inr (s1, h1) \<and>
           (if wr_pos s + int (length str) + 2 = data_size s
            then ms_read_string s1 h1 = Inl Bad_Access
            else \<exists>s2. ms_read_string s1 h1 = Inr (Some str, s2, h1) \<and> ms_content s2 h1 = [])"
proof -
  let ?n = "int (length str) + 2"
  obtain s1 h1 where w: "ms_write_string junk str s h = Inr (s1, h1)" and wf: "ms_wf s1 h1"
    and c: "ms_content s1 h1 = short_image (int (length str)) @ str @ []"
    and r: "rd_pos s1 = rd_pos s"
    and d: "data_size s1 = max (data_size s)
       (if data_size s < wr_pos s + ?n then (wr_pos s + ?n) * 2 else 0)"
    using ms_write_string_ok [OF assms(1,6), of junk] assms(2) by auto
  have rw: "rd_pos s = wr_pos s" "0 \<le> wr_pos s"
    using length_ms_content [OF assms(1)] assms(1,2) by (auto simp: ms_length_def ms_wf_def split: if_splits)
  have rd: "ms_read_string s1 h1 =
     (if rd_pos s1 + 2 + int (length str) < data_size s1
      then Inr (Some str, s1\<lparr>rd_pos := rd_pos s1 + 2 + int (length str)\<rparr>, h1) else Inl Bad_Access)"
    using ms_read_string_at [OF wf c assms(3-5)] .
  have e: "ms_content (s1\<lparr>rd_pos := rd_pos s1 + 2 + int (length str)\<rparr>) h1 = []"
    using ms_read_value_ok [OF wf refl, of "2 + length str"] c by (simp add: algebra_simps)
  have slack: "rd_pos s1 + 2 + int (length str) < data_size s1 \<longleftrightarrow>
     wr_pos s + int (length str) + 2 \<noteq> data_size s"
    using d rw r by (auto simp: max_def)
  show ?thesis using w rd e slack by auto
qed

theorem string_roundtrip_witness:
  "\<exists>s h s1 h1 s2. ms_new (\<lambda>_. 0) 16 empty_heap = (s, h) \<and>
     ms_write_string (\<lambda>_. 0) [104, 105] s h = Inr (s1, h1) \<and>
     ms_read_string s1 h1 = Inr (Some [104, 105], s2, h1)"
proof -
  obtain s h where new: "ms_new (\<lambda>_. 0) 16 empty_heap = (s, h)" by fastforce
  from ms_new_ok [OF heap_ok_empty _ new]
  have "ms_wf s h" "ms_content s h = []" "wr_pos s = 0" "data_size s = 16" by simp_all
  then show ?thesis
    using new string_roundtrip [of s h "[104, 105]" "\<lambda>_. 0"] by fastforce
qed

text \<open>
  Move assignment between two owning streams leaves both owning the same block, because the
  moved-from stream is not cleared: destroying both releases the block twice.
\<close>

theorem move_assignment_double_free:
  assumes "alloc_type other \<noteq> 0" "ms_data other = Some (b, 0)" "blocks h b = Some bs"
    "alloc_type s = 0"
  shows "\<exists>s' h1. ms_assign s other h = Inr (s', h) \<and> ms_destroy s' h = Inr h1 \<and>
           ms_destroy other h1 = Inl Bad_Free"
  using assms FREE_MP_ok [of h b] FREE_MP_twice [of "Some (b, 0)" h]
  by (simp add: ms_assign_def ms_destroy_def)

theorem move_assignment_double_free_witness:
  "\<exists>other h h1. ms_new (\<lambda>_. 0) 8 empty_heap = (other, h) \<and>
     ms_destroy other h = Inr h1 \<and> ms_destroy other h1 = Inl Bad_Free"
proof -
  obtain other h where new: "ms_new (\<lambda>_. 0) 8 empty_heap = (other, h)" by fastforce
  then have o: "alloc_type other \<noteq> 0" "ms_data other = Some (0, 0)"
    "blocks h 0 = Some (replicate 8 0)"
    by (auto simp: ms_new_def MALLOC_MP_def empty_heap_def map_replicate_const)
  let ?s = "snd (ms_move other)"
  have "alloc_type ?s = 0" by (simp add: ms_move_def)
  from move_assignment_double_free [OF o this] obtain s' h1 where
    "ms_assign ?s other h = Inr (s', h)" "ms_destroy s' h = Inr h1" "ms_destroy other h1 = Inl Bad_Free"
    by blast
  moreover from this(1) have "ms_destroy s' h = ms_destroy other h"
    by (auto simp: ms_assign_def ms_destroy_def ms_move_def)
  ultimately show ?thesis using new by auto
qed

text \<open>
  A stream created with size 0, or left behind by a move, has no block; the first write to it
  allocates one and then releases the null pointer, which faults.
\<close>

lemma write_to_empty_stream_faults:
  assumes "t \<noteq> []" "int (length t) * 2 < 2 ^ 31"
  shows "ms_write_value junk t (fst (ms_new junk 0 h)) h = Inl Bad_Free \<and>
         ms_write_value junk t (snd (ms_move s)) h = Inl Bad_Free"
proof -
  have "0 < int (length t)" using assms by simp
  then have "ms_check_space junk (int (length t))
      \<lparr>ms_data = nullptr, data_size = 0, alloc_type = a, wr_pos = 0, rd_pos = 0\<rparr> h = Inl Bad_Free" for a
    using assms(2) by (simp add: ms_check_space_def int32_ok MALLOC_MP_def mem_load_def mem_store_def FREE_MP_def)
  then show ?thesis by (simp add: ms_write_value_def ms_new_def ms_move_def)
qed

lemma write_to_empty_stream_faults_example:
  "ms_write_value (\<lambda>_. 0) [1] (fst (ms_new (\<lambda>_. 0) 0 empty_heap)) empty_heap = Inl Bad_Free"
  using write_to_empty_stream_faults [of "[1]" "\<lambda>_. 0" empty_heap "fst (ms_new (\<lambda>_. 0) 0 empty_heap)"]
  by simp

text \<open>
  When the object found by \<open>read_object\<close> is larger than the caller's buffer, the read position
  ends one byte before the object's length prefix, not at it.
\<close>

lemma read_object_rewinds_too_far:
  assumes "ms_wf s h" "ms_content s h = short_image n @ rest" "0 \<le> n" "n < 32768" "obj_size < n"
  shows "ms_read_object obj_size s h = Inr (n, None, s\<lparr>rd_pos := rd_pos s - 1\<rparr>)"
proof -
  from ms_wf_split [OF assms(1,2)] obtain b pre post where b: "ms_data s = Some (b, 0)"
    and blk: "blocks h b = Some (pre @ (short_image n @ rest) @ post)" and r: "int (length pre) = rd_pos s"
    by metis
  have "nat (rd_pos s) = length pre" using r by simp
  then have "mem_load (Some (b, rd_pos s)) 2 h = Inr (short_image n)"
    using mem_load_ok [OF blk, of "rd_pos s" 2] r by simp
  then show ?thesis
    using assms(3-5) by (simp add: ms_read_object_def b sint_short_image)
qed

lemma read_object_rewinds_too_far_example:
  "\<exists>s h. ms_content s h = short_image 3 \<and>
     ms_read_object 2 s h = Inr (3, None, s\<lparr>rd_pos := rd_pos s - 1\<rparr>)"
proof -
  obtain s h where new: "ms_new (\<lambda>_. 0) 16 empty_heap = (s, h)" by fastforce
  from ms_new_ok [OF heap_ok_empty _ new]
  have "ms_wf s h" "ms_content s h = []" "wr_pos s = 0" by simp_all
  with ms_write_value_ok [of s h "short_image 3" "\<lambda>_. 0"] obtain s1 h1 where
    "ms_wf s1 h1" "ms_content s1 h1 = short_image 3 @ []" by auto
  then show ?thesis
    using read_object_rewinds_too_far [of s1 h1 3 "[]" 2] by auto
qed

end
