(* ===== verification/Raw_Msg.thy ===== *)
theory Raw_Msg
  imports Wire_Header Memory_Stream
begin

text \<open>
  Messages of the plain TCP layer, \<open>src/network/net/raw_msg.hpp\<close>: \<open>msg_body\<close> owns a block of the
  store, \<open>basic_msg\<close> pairs it with a header, and \<open>batch_msg\<close> collects messages up to a count and a
  length limit. Building a message from a stream hands the stream's block over; the lemmas follow
  that block from the serialiser through the socket to its release. \<open>raw_message\<close> is the value of
  a message: its header and the bytes of its body, which is what the connection works with.
\<close>

section \<open>Model\<close>

record msg_body =
  mb_data :: ptr
  mb_length :: u32
  mb_offset :: u32

definition mb_empty :: msg_body where
  "mb_empty = \<lparr>mb_data = nullptr, mb_length = 0, mb_offset = 0\<rparr>"

definition mb_destroy :: "msg_body \<Rightarrow> heap \<Rightarrow> mem_error + heap" where
  "mb_destroy m h = (if mb_data m \<noteq> nullptr then FREE_MP (mb_data m) h else Inr h)"

definition mb_alloc :: "(nat \<Rightarrow> u8) \<Rightarrow> int \<Rightarrow> msg_body \<Rightarrow> heap \<Rightarrow> msg_body \<times> heap" where
  "mb_alloc junk n m h =
     (let len = (word_of_int n :: u32); (p, h1) = MALLOC_MP junk (uint len) h
      in (m\<lparr>mb_length := len, mb_offset := 0, mb_data := p\<rparr>, h1))"

definition mb_reset :: "ptr \<Rightarrow> int \<Rightarrow> msg_body \<Rightarrow> heap \<Rightarrow> mem_error + (msg_body \<times> heap)" where
  "mb_reset p n m h =
     ebind (if mb_data m \<noteq> nullptr then FREE_MP (mb_data m) h else Inr h) (\<lambda>h1.
     Inr (m\<lparr>mb_data := p, mb_length := word_of_int n, mb_offset := 0\<rparr>, h1))"

definition mb_raw_data :: "msg_body \<Rightarrow> ptr" where "mb_raw_data m = mb_data m"
definition mb_data_ptr :: "msg_body \<Rightarrow> ptr" where
  "mb_data_ptr m = ptr_add (mb_data m) (uint (mb_offset m))"
definition mb_raw_length :: "msg_body \<Rightarrow> u32" where "mb_raw_length m = mb_length m"
definition mb_len :: "msg_body \<Rightarrow> u32" where "mb_len m = mb_length m - mb_offset m"

text \<open>The bytes a buffer over the body denotes.\<close>

definition mb_to_buffer :: "msg_body \<Rightarrow> heap \<Rightarrow> mem_error + bytes" where
  "mb_to_buffer m h = mem_load (mb_data_ptr m) (uint (mb_len m)) h"

record basic_msg =
  bm_header :: msg_header
  bm_body :: msg_body

definition bm_empty :: basic_msg where
  "bm_empty = \<lparr>bm_header = mh_zero, bm_body = mb_empty\<rparr>"

definition bm_of_header :: "(nat \<Rightarrow> u8) \<Rightarrow> msg_header \<Rightarrow> heap \<Rightarrow> basic_msg \<times> heap" where
  "bm_of_header junk hdr h =
     (let len = get_header_length hdr in
      if len > 0 then (let (b, h1) = mb_alloc junk len mb_empty h in (\<lparr>bm_header = hdr, bm_body = b\<rparr>, h1))
      else (\<lparr>bm_header = hdr, bm_body = mb_empty\<rparr>, h))"

definition bm_reset :: "ptr \<Rightarrow> int \<Rightarrow> basic_msg \<Rightarrow> heap \<Rightarrow> mem_error + (basic_msg \<times> heap)" where
  "bm_reset p n m h =
     ebind (mb_reset p n (bm_body m) h) (\<lambda>(b, h1).
     Inr (\<lparr>bm_header = set_header_length (bm_header m) n, bm_body = b\<rparr>, h1))"

definition bm_reset_stream :: "mstream \<Rightarrow> basic_msg \<Rightarrow> heap \<Rightarrow> mem_error + (basic_msg \<times> mstream \<times> heap)" where
  "bm_reset_stream gos m h =
     ebind (mb_reset (ms_data_ptr gos) (ms_length gos) (bm_body m) h) (\<lambda>(b, h1).
     Inr (\<lparr>bm_header = set_header_length (bm_header m) (ms_length gos), bm_body = b\<rparr>,
          ms_set_alloc_type 0 gos, h1))"

definition bm_of_stream :: "mstream \<Rightarrow> heap \<Rightarrow> mem_error + (basic_msg \<times> mstream \<times> heap)" where
  "bm_of_stream gos h =
     (if ms_length gos > 0 then bm_reset_stream gos bm_empty h else Inr (bm_empty, gos, h))"

definition bm_of_header_stream :: "msg_header \<Rightarrow> mstream \<Rightarrow> heap \<Rightarrow> mem_error + (basic_msg \<times> mstream \<times> heap)" where
  "bm_of_header_stream hdr gos h =
     (if ms_length gos > 0
      then ebind (mb_reset (ms_data_ptr gos) (ms_length gos) mb_empty h) (\<lambda>(b, h1).
             Inr (\<lparr>bm_header = hdr, bm_body = b\<rparr>, ms_set_alloc_type 0 gos, h1))
      else Inr (\<lparr>bm_header = hdr, bm_body = mb_empty\<rparr>, gos, h))"

definition bm_hton :: "bool \<Rightarrow> basic_msg \<Rightarrow> basic_msg" where
  "bm_hton be m = m\<lparr>bm_header := mh_hton be (bm_header m)\<rparr>"

definition bm_ntoh :: "bool \<Rightarrow> basic_msg \<Rightarrow> basic_msg" where
  "bm_ntoh be m = m\<lparr>bm_header := mh_ntoh be (bm_header m)\<rparr>"

text \<open>What the scatter list of \<open>to_buffers\<close> denotes: the header image, then the body.\<close>

definition bm_to_buffers :: "basic_msg \<Rightarrow> heap \<Rightarrow> mem_error + bytes" where
  "bm_to_buffers m h =
     ebind (mb_to_buffer (bm_body m) h) (\<lambda>bs. Inr (mh_to_buffer (bm_header m) @ bs))"

definition bm_total_length :: "basic_msg \<Rightarrow> u32" where
  "bm_total_length m = 24 + msg_length (bm_header m)"

definition bm_get_stream :: "(nat \<Rightarrow> u8) \<Rightarrow> basic_msg \<Rightarrow> heap \<Rightarrow> mem_error + (mstream \<times> heap)" where
  "bm_get_stream junk m h = ms_wrap junk (mb_data_ptr (bm_body m)) (sint (mb_len (bm_body m))) 0 h"

definition bm_destroy :: "basic_msg \<Rightarrow> heap \<Rightarrow> mem_error + heap" where
  "bm_destroy m h = mb_destroy (bm_body m) h"

subsection \<open>Message values and batches\<close>

record raw_message =
  rm_header :: msg_header
  rm_body :: bytes

definition rm_total_length :: "raw_message \<Rightarrow> u32" where
  "rm_total_length m = 24 + msg_length (rm_header m)"

definition rm_hton :: "bool \<Rightarrow> raw_message \<Rightarrow> raw_message" where
  "rm_hton be m = m\<lparr>rm_header := mh_hton be (rm_header m)\<rparr>"

definition rm_ntoh :: "bool \<Rightarrow> raw_message \<Rightarrow> raw_message" where
  "rm_ntoh be m = m\<lparr>rm_header := mh_ntoh be (rm_header m)\<rparr>"

definition rm_to_buffers :: "raw_message \<Rightarrow> bytes" where
  "rm_to_buffers m = mh_to_buffer (rm_header m) @ rm_body m"

text \<open>
  A batch of message handles. The messages are shared, so the batch holds handles and the
  operations on the messages themselves go through the table of messages.
\<close>

record batch_msg =
  bt_msgs :: "nat list"
  bt_capacity :: nat
  bt_length_capacity :: nat
  bt_cur_length :: nat

definition batch_new :: "nat \<Rightarrow> nat \<Rightarrow> batch_msg" where
  "batch_new c l = \<lparr>bt_msgs = [], bt_capacity = c, bt_length_capacity = l, bt_cur_length = 0\<rparr>"

definition batch_default :: batch_msg where "batch_default = batch_new 0 0"

definition batch_full :: "batch_msg \<Rightarrow> bool" where
  "batch_full b \<longleftrightarrow> bt_capacity b > 0 \<and> length (bt_msgs b) \<ge> bt_capacity b"

definition batch_empty :: "batch_msg \<Rightarrow> bool" where "batch_empty b \<longleftrightarrow> bt_msgs b = []"

definition batch_size :: "batch_msg \<Rightarrow> nat" where "batch_size b = length (bt_msgs b)"

definition batch_length_full :: "batch_msg \<Rightarrow> bool" where
  "batch_length_full b \<longleftrightarrow> bt_length_capacity b > 0 \<and> bt_cur_length b \<ge> bt_length_capacity b"

definition batch_add_msg :: "(nat \<Rightarrow> raw_message) \<Rightarrow> nat \<Rightarrow> batch_msg \<Rightarrow> bool \<times> batch_msg" where
  "batch_add_msg tab m b =
     (if batch_full b \<or> batch_length_full b then (False, b)
      else (True, b\<lparr>bt_msgs := bt_msgs b @ [m],
                    bt_cur_length := bt_cur_length b + unat (rm_total_length (tab m))\<rparr>))"

primrec map_msgs :: "(raw_message \<Rightarrow> raw_message) \<Rightarrow> nat list \<Rightarrow> (nat \<Rightarrow> raw_message) \<Rightarrow> nat \<Rightarrow> raw_message" where
  "map_msgs f [] tab = tab"
| "map_msgs f (m # ms) tab = map_msgs f ms (tab(m := f (tab m)))"

definition batch_hton :: "bool \<Rightarrow> batch_msg \<Rightarrow> (nat \<Rightarrow> raw_message) \<Rightarrow> nat \<Rightarrow> raw_message" where
  "batch_hton be b = map_msgs (rm_hton be) (bt_msgs b)"

definition batch_ntoh :: "bool \<Rightarrow> batch_msg \<Rightarrow> (nat \<Rightarrow> raw_message) \<Rightarrow> nat \<Rightarrow> raw_message" where
  "batch_ntoh be b = map_msgs (rm_ntoh be) (bt_msgs b)"

definition batch_to_buffers :: "(nat \<Rightarrow> raw_message) \<Rightarrow> batch_msg \<Rightarrow> bytes" where
  "batch_to_buffers tab b = concat (map (\<lambda>m. rm_to_buffers (tab m)) (bt_msgs b))"

text \<open>Offering messages to a batch one after the other, as the connection does.\<close>

fun batch_add_all :: "(nat \<Rightarrow> raw_message) \<Rightarrow> nat list \<Rightarrow> batch_msg \<Rightarrow> batch_msg" where
  "batch_add_all tab [] b = b"
| "batch_add_all tab (m # ms) b = batch_add_all tab ms (snd (batch_add_msg tab m b))"

section \<open>Lemmas\<close>

lemma rm_ntoh_hton [simp]: "rm_ntoh be (rm_hton be m) = m"
  using mh.ntoh_hton [where h = "rm_header m" and be = be] by (simp add: rm_ntoh_def rm_hton_def)

lemma rm_to_buffers_hton_length [simp]: "length (rm_to_buffers (rm_hton be m)) = length (rm_to_buffers m)"
  by (simp add: rm_to_buffers_def rm_hton_def)

lemma map_msgs_notin: "m \<notin> set ms \<Longrightarrow> map_msgs f ms tab m = tab m"
  by (induction ms arbitrary: tab) auto

lemma map_msgs_in: "distinct ms \<Longrightarrow> m \<in> set ms \<Longrightarrow> map_msgs f ms tab m = f (tab m)"
  by (induction ms arbitrary: tab) (auto simp: map_msgs_notin)

text \<open>The value of a message whose body lies in the store.\<close>

definition bm_value :: "basic_msg \<Rightarrow> heap \<Rightarrow> raw_message" where
  "bm_value m h =
     \<lparr>rm_header = bm_header m, rm_body = (case mb_to_buffer (bm_body m) h of Inr bs \<Rightarrow> bs | Inl _ \<Rightarrow> [])\<rparr>"

lemma uint_word32: "0 \<le> n \<Longrightarrow> n < 2 ^ 32 \<Longrightarrow> uint (word_of_int n :: u32) = n"
  by (simp add: unsigned_of_int take_bit_int_eq_self)

lemma bm_reset_stream_ok:
  assumes wf: "ms_wf gos h" and len: "ms_length gos < 2 ^ 31"
  shows "\<exists>m gos'. bm_reset_stream gos \<lparr>bm_header = hdr, bm_body = mb_empty\<rparr> h = Inr (m, gos', h) \<and>
     bm_header m = hdr\<lparr>msg_length := word_of_int (ms_length gos)\<rparr> \<and>
     bm_to_buffers m h = Inr (mh_to_buffer (bm_header m) @ ms_content gos h) \<and>
     mb_data (bm_body m) = ptr_add (ms_data gos) (rd_pos gos) \<and>
     alloc_type gos' = 0 \<and> ms_data gos' = ms_data gos"
proof -
  from ms_wf_split [OF wf refl] obtain b pre post where b: "ms_data gos = Some (b, 0)"
    and blk: "blocks h b = Some (pre @ ms_content gos h @ post)" and r: "int (length pre) = rd_pos gos"
    and w: "rd_pos gos + int (length (ms_content gos h)) = wr_pos gos"
    by blast
  let ?n = "ms_length gos" and ?c = "ms_content gos h"
  let ?m = "\<lparr>bm_header = hdr\<lparr>msg_length := word_of_int ?n\<rparr>,
     bm_body = \<lparr>mb_data = Some (b, rd_pos gos), mb_length = word_of_int ?n, mb_offset = 0\<rparr>\<rparr>"
  have n: "int (length ?c) = ?n" using length_ms_content [OF wf] .
  have u: "uint (word_of_int ?n :: u32) = ?n" using uint_word32 [of ?n] len n by (simp add: ms_length_def)
  have "bm_reset_stream gos \<lparr>bm_header = hdr, bm_body = mb_empty\<rparr> h = Inr (?m, ms_set_alloc_type 0 gos, h)"
    using w by (simp add: bm_reset_stream_def mb_reset_def mb_empty_def set_header_length_def
        ms_data_ptr_def ms_rd_ptr_def b)
  moreover have "nat (rd_pos gos) = length pre" "nat ?n = length ?c" using r n by auto
  moreover then have "mem_load (Some (b, rd_pos gos)) ?n h = Inr ?c"
    using mem_load_ok [OF blk, of "rd_pos gos" ?n] r n by simp
  ultimately show ?thesis
    by (simp add: bm_to_buffers_def mb_to_buffer_def mb_data_ptr_def mb_len_def u b
        ms_set_alloc_type_def)
qed

lemma batch_add_ok:
  assumes "batch_add_msg tab m b = (r, b')"
  shows "r \<longleftrightarrow> \<not> (batch_full b \<or> batch_length_full b)"
    "bt_msgs b' = bt_msgs b @ (if r then [m] else [])"
    "bt_capacity b' = bt_capacity b" "bt_length_capacity b' = bt_length_capacity b"
    "bt_cur_length b' = bt_cur_length b + (if r then unat (rm_total_length (tab m)) else 0)"
  using assms by (auto simp: batch_add_msg_def split: if_splits)

lemma batch_add_all_inv:
  assumes "bt_cur_length b = sum_list (map (\<lambda>m. unat (rm_total_length (tab m))) (bt_msgs b))"
    "bt_capacity b = 0 \<or> length (bt_msgs b) \<le> bt_capacity b"
  shows "bt_cur_length (batch_add_all tab ms b) =
       sum_list (map (\<lambda>m. unat (rm_total_length (tab m))) (bt_msgs (batch_add_all tab ms b))) \<and>
     (bt_capacity b = 0 \<or> length (bt_msgs (batch_add_all tab ms b)) \<le> bt_capacity b) \<and>
     (\<exists>k \<le> length ms. bt_msgs (batch_add_all tab ms b) = bt_msgs b @ take k ms)"
  using assms
proof (induction ms arbitrary: b)
  case Nil
  then show ?case by simp
next
  case (Cons m ms)
  show ?case
  proof (cases "batch_full b \<or> batch_length_full b")
    case True
    then have stuck: "batch_add_all tab xs b = b" for xs
      by (induction xs) (auto simp: batch_add_msg_def)
    show ?thesis using Cons.prems by (auto simp: stuck simp del: batch_add_all.simps intro: exI [of _ 0])
  next
    case False
    let ?b = "snd (batch_add_msg tab m b)"
    have b: "bt_msgs ?b = bt_msgs b @ [m]" "bt_capacity ?b = bt_capacity b"
      "bt_cur_length ?b = bt_cur_length b + unat (rm_total_length (tab m))"
      using False by (simp_all add: batch_add_msg_def)
    have "bt_capacity ?b = 0 \<or> length (bt_msgs ?b) \<le> bt_capacity ?b"
      using False b by (auto simp: batch_full_def)
    from Cons.IH [OF _ this] Cons.prems b obtain k where
      "bt_cur_length (batch_add_all tab ms ?b) =
         sum_list (map (\<lambda>m. unat (rm_total_length (tab m))) (bt_msgs (batch_add_all tab ms ?b)))"
      "bt_capacity b = 0 \<or> length (bt_msgs (batch_add_all tab ms ?b)) \<le> bt_capacity b"
      "k \<le> length ms" "bt_msgs (batch_add_all tab ms ?b) = bt_msgs b @ m # take k ms"
      by auto
    then show ?thesis by (auto intro!: exI [of _ "Suc k"])
  qed
qed

lemma batch_add_all_unbounded:
  "bt_capacity b = 0 \<Longrightarrow> bt_length_capacity b = 0 \<Longrightarrow> bt_msgs (batch_add_all tab ms b) = bt_msgs b @ ms"
  by (induction ms arbitrary: b) (simp_all add: batch_add_msg_def batch_full_def batch_length_full_def)

section \<open>Properties\<close>

text \<open>
  A message built from a serialised stream puts a header carrying the stream's length in front
  of exactly the stream's contents, and takes the stream's block over: destroying the stream then
  releases nothing and destroying the message releases the block once, if the stream was not read
  from. If it was, the message holds a pointer into the middle of the block and releasing it
  faults.
\<close>

theorem message_takes_over_stream:
  assumes "ms_wf gos h" "ms_length gos < 2 ^ 31" "0 < ms_length gos"
  shows "\<exists>m gos'. bm_of_stream gos h = Inr (m, gos', h) \<and>
     bm_to_buffers m h = Inr (mh_to_buffer (mh_zero\<lparr>msg_length := word_of_int (ms_length gos)\<rparr>) @ ms_content gos h) \<and>
     ms_destroy gos' h = Inr h \<and>
     (if rd_pos gos = 0
      then \<exists>h1. bm_destroy m h = Inr h1 \<and> ms_block gos h1 = None \<and> bm_destroy m h1 = Inl Bad_Free
      else bm_destroy m h = Inl Bad_Free)"
proof -
  obtain m gos' where r: "bm_reset_stream gos bm_empty h = Inr (m, gos', h)"
    and hdr: "bm_header m = mh_zero\<lparr>msg_length := word_of_int (ms_length gos)\<rparr>"
    and bytes: "bm_to_buffers m h = Inr (mh_to_buffer (bm_header m) @ ms_content gos h)"
    and p: "mb_data (bm_body m) = ptr_add (ms_data gos) (rd_pos gos)" and a: "alloc_type gos' = 0"
    using bm_reset_stream_ok [OF assms(1,2), of mh_zero] by (auto simp: bm_empty_def)
  from assms(1) obtain b bs where b: "ms_data gos = Some (b, 0)" "blocks h b = Some bs"
    by (auto elim: ms_wfE)
  have "if rd_pos gos = 0
      then \<exists>h1. bm_destroy m h = Inr h1 \<and> ms_block gos h1 = None \<and> bm_destroy m h1 = Inl Bad_Free
      else bm_destroy m h = Inl Bad_Free"
    using p b by (simp add: bm_destroy_def mb_destroy_def FREE_MP_def ms_block_def)
  then show ?thesis
    using assms(3) r hdr bytes a by (auto simp: bm_of_stream_def ms_destroy_def)
qed

theorem message_takes_over_stream_witness:
  "\<exists>gos h m gos'. ms_content gos h = [5, 6] \<and> bm_of_stream gos h = Inr (m, gos', h) \<and>
     ms_destroy gos' h = Inr h"
proof -
  obtain s h where new: "ms_new (\<lambda>_. 0) 4 empty_heap = (s, h)" by fastforce
  from ms_new_ok [OF heap_ok_empty _ new]
  have "ms_wf s h" "ms_content s h = []" "wr_pos s = 0" by simp_all
  with ms_write_value_ok [of s h "[5, 6]" "\<lambda>_. 0"] obtain s1 h1 where
    1: "ms_wf s1 h1" "ms_content s1 h1 = [5, 6]" by auto
  then have "ms_length s1 = 2" using length_ms_content [OF 1(1)] by simp
  with message_takes_over_stream [OF 1(1)] 1 show ?thesis by fastforce
qed

text \<open>
  A batch respects its limits: a message is taken exactly when neither limit is reached yet,
  the recorded length is the sum of the total lengths of the messages taken, in order, and a batch
  with no limits (the one the connection uses) takes every message.
\<close>

lemma batch_limits:
  "bt_cur_length (batch_add_all tab ms (batch_new c l)) =
     sum_list (map (\<lambda>m. unat (rm_total_length (tab m))) (bt_msgs (batch_add_all tab ms (batch_new c l)))) \<and>
   (c = 0 \<or> length (bt_msgs (batch_add_all tab ms (batch_new c l))) \<le> c) \<and>
   (\<exists>k \<le> length ms. bt_msgs (batch_add_all tab ms (batch_new c l)) = take k ms) \<and>
   bt_msgs (batch_add_all tab ms batch_default) = ms"
  using batch_add_all_inv [of "batch_new c l" tab ms] batch_add_all_unbounded [of batch_default tab ms]
  by (simp add: batch_new_def batch_default_def)

end
