(* ===== verification/Conn_Reader.thy ===== *)
theory Conn_Reader
  imports Raw_Msg "HOL-Library.Sublist"
begin

text \<open>
  The incremental message parser of a TCP connection, \<open>connection_reader\<close> in
  \<open>src/network/net/tcp_connect.hpp\<close>, and the read loop that drives it
  (\<open>async_sequence_read\<close> and \<open>handle_sequence_read\<close>). Sizes are \<open>size_t\<close>, modelled as natural
  numbers: none of the sums can reach \<open>2 ^ 64\<close>, and \<open>npos\<close> is the value \<open>(size_t)-1\<close> that
  \<open>cur_len_\<close> holds while no header is known. The copy of the unparsed rest to the front of the
  buffer is a \<open>memcpy\<close>, which is undefined when source and destination overlap: \<open>move_rest\<close> raises
  \<open>overlapped\<close> then, and nothing is claimed of a connection that has raised it, which takes no further step.

  The socket is the environment: \<open>boost::asio::async_read\<close> asks the completion condition how much
  it may read next, reads some of the bytes that have arrived into the free part of the buffer, and
  stops when the condition says 0 or the buffer is full. \<open>rx_step\<close> has one rule per such event, so a
  run is one way the network may cut the stream into pieces.
\<close>

section \<open>The reader\<close>

definition CLIENT_MSG_BUFF_MAX :: nat where "CLIENT_MSG_BUFF_MAX = 1024 * 100"
definition npos :: nat where "npos = 2 ^ 64 - 1"
definition header_length :: nat where "header_length = mh_size"
definition default_max_transfer_size :: nat where "default_max_transfer_size = 65536"

record reader =
  buff :: bytes
  rd_header :: msg_header
  cur_len :: nat
  remain_len :: nat
  cur_index :: nat
  msg_list :: "raw_message list"
  valid_flag :: bool
  overlapped :: bool

definition prepare_next_recv :: "reader \<Rightarrow> nat \<times> reader" where
  "prepare_next_recv r =
     (CLIENT_MSG_BUFF_MAX - remain_len r, r\<lparr>cur_index := 0, msg_list := []\<rparr>)"

definition parse_header :: "bool \<Rightarrow> nat \<Rightarrow> reader \<Rightarrow> bool \<times> reader" where
  "parse_header be src r =
     (let h = mh_ntoh be (mh_of_buffer (take header_length (drop src (buff r))));
          n = header_length + unat (msg_length h);
          r1 = r\<lparr>rd_header := h, cur_len := n\<rparr>
      in if n > CLIENT_MSG_BUFF_MAX \<or> n < header_length then (False, r1\<lparr>valid_flag := False\<rparr>)
         else (True, r1))"

definition completion_condition :: "bool \<Rightarrow> bool \<Rightarrow> nat \<Rightarrow> reader \<Rightarrow> nat \<times> reader" where
  "completion_condition be err bytes_transfered r =
     (if err then (0, r)
      else
        (let data_len = remain_len r + bytes_transfered;
             (ok, r1) = (if cur_len r = npos \<and> data_len \<ge> header_length then parse_header be 0 r
                         else (True, r))
         in if \<not> ok then (0, r1)
            else (if data_len \<ge> cur_len r1 then 0 else default_max_transfer_size, r1)))"

text \<open>
  The loop of \<open>parse\<close>: the result is \<open>parse_ok\<close>, the offset of \<open>pnext\<close> in the buffer, and the
  reader. Each round takes a message off the buffer or learns the next header, so it ends.
\<close>

function parse_loop :: "bool \<Rightarrow> nat \<Rightarrow> reader \<Rightarrow> bool \<times> nat \<times> reader" where
  "parse_loop be pnext r =
     (if cur_len r \<noteq> npos then
        if cur_len r > CLIENT_MSG_BUFF_MAX \<or> cur_len r < header_length then (False, pnext, r)
        else if remain_len r \<ge> cur_len r then
          (let body = (if msg_length (rd_header r) > 0
                       then take (unat (msg_length (rd_header r))) (drop (pnext + header_length) (buff r))
                       else []);
               msg = \<lparr>rm_header = rd_header r, rm_body = body\<rparr>
           in parse_loop be (pnext + cur_len r)
                (r\<lparr>msg_list := msg_list r @ [msg], remain_len := remain_len r - cur_len r,
                   cur_index := cur_index r + cur_len r, cur_len := npos\<rparr>))
        else (True, pnext, r)
      else if remain_len r \<ge> header_length then parse_loop be pnext (snd (parse_header be pnext r))
      else (True, pnext, r))"
  by pat_completeness auto

lemma parse_header_frame [simp]:
  "buff (snd (parse_header be p r)) = buff r" "remain_len (snd (parse_header be p r)) = remain_len r"
  "cur_index (snd (parse_header be p r)) = cur_index r" "overlapped (snd (parse_header be p r)) = overlapped r"
  "msg_list (snd (parse_header be p r)) = msg_list r"
  by (simp_all add: parse_header_def Let_def)

lemma parse_header_cur_len: "cur_len (snd (parse_header be p r)) \<noteq> npos"
proof -
  have "24 + unat w < npos" for w :: u32
    using unsigned_less [of w, where 'a = nat] by (simp add: npos_def)
  then show ?thesis by (simp add: parse_header_def Let_def header_length_def mh_size_def less_imp_neq)
qed

termination parse_loop
  by (relation "measure (\<lambda>(be, p, r). 2 * remain_len r + of_bool (cur_len r = npos))")
    (auto simp: header_length_def mh_size_def npos_def parse_header_cur_len [unfolded npos_def, simplified])

declare parse_loop.simps [simp del]

text \<open>
  The \<open>memcpy\<close> of the unparsed rest, \<open>remain_len\<close> bytes from the offset \<open>pnext\<close> to the front. The
  two ranges are disjoint only when the rest is not longer than \<open>pnext\<close>; otherwise the behaviour is
  undefined, which \<open>overlapped\<close> records.
\<close>

definition move_rest :: "nat \<Rightarrow> reader \<Rightarrow> reader" where
  "move_rest pnext r =
     (if remain_len r \<le> pnext
      then r\<lparr>buff := overwrite (buff r) 0 (take (remain_len r) (drop pnext (buff r)))\<rparr>
      else r\<lparr>overlapped := True\<rparr>)"

definition parse :: "bool \<Rightarrow> nat \<Rightarrow> reader \<Rightarrow> bool \<times> reader" where
  "parse be bytes_transfered r =
     (let (parse_ok, pnext, r1) = parse_loop be 0 (r\<lparr>remain_len := remain_len r + bytes_transfered\<rparr>)
      in if pnext = 0 then (False, r1)
         else if parse_ok \<and> remain_len r1 > 0 then (parse_ok, move_rest pnext r1)
         else (parse_ok, r1))"

definition reader_reset :: "reader \<Rightarrow> reader" where
  "reader_reset r =
     r\<lparr>cur_len := npos, remain_len := 0, cur_index := 0,
       rd_header := (rd_header r)\<lparr>msg_length := 0\<rparr>, msg_list := [], valid_flag := True\<rparr>"

definition reader_is_valid :: "reader \<Rightarrow> bool" where
  "reader_is_valid r \<longleftrightarrow> valid_flag r \<and> cur_len r \<le> CLIENT_MSG_BUFF_MAX"

section \<open>The read loop\<close>

record rx =
  rx_reader :: reader
  rx_got :: nat
  rx_wire :: bytes
  rx_out :: "raw_message list"
  rx_open :: bool

text \<open>
  \<open>handle_sequence_read\<close> for a read that ended without a socket error: an empty read or an invalid
  reader ends the connection; otherwise the buffer is parsed, the messages go to
  \<open>on_receive_msgs\<close>, a failed parse resets the reader, and the next read is prepared. After an
  overlapping copy nothing is known of what the program does, and the model stops there.
\<close>

definition handle_sequence_read :: "bool \<Rightarrow> rx \<Rightarrow> rx" where
  "handle_sequence_read be s =
     (if rx_got s = 0 \<or> \<not> reader_is_valid (rx_reader s) then s\<lparr>rx_open := False\<rparr>
      else
        (let (has_msg, r) = parse be (rx_got s) (rx_reader s);
             s1 = (if has_msg then s\<lparr>rx_out := rx_out s @ msg_list r, rx_reader := r\<rparr>
                   else s\<lparr>rx_reader := reader_reset r\<rparr>)
         in if overlapped r then s\<lparr>rx_reader := r, rx_got := 0\<rparr>
            else s1\<lparr>rx_reader := snd (prepare_next_recv (rx_reader s1)), rx_got := 0\<rparr>))"

inductive rx_step :: "bool \<Rightarrow> rx \<Rightarrow> rx \<Rightarrow> bool" for be where
  rx_more: "rx_open s \<Longrightarrow> \<not> overlapped (rx_reader s) \<Longrightarrow> completion_condition be False (rx_got s) (rx_reader s) = (k, r) \<Longrightarrow>
    0 < n \<Longrightarrow> n \<le> k \<Longrightarrow> n \<le> CLIENT_MSG_BUFF_MAX - (remain_len r + rx_got s) \<Longrightarrow> n \<le> length (rx_wire s) \<Longrightarrow>
    rx_step be s (s\<lparr>rx_reader := r\<lparr>buff := overwrite (buff r) (remain_len r + rx_got s) (take n (rx_wire s))\<rparr>,
                    rx_got := rx_got s + n, rx_wire := drop n (rx_wire s)\<rparr>)"
| rx_done: "rx_open s \<Longrightarrow> \<not> overlapped (rx_reader s) \<Longrightarrow> completion_condition be False (rx_got s) (rx_reader s) = (k, r) \<Longrightarrow>
    k = 0 \<or> remain_len r + rx_got s = CLIENT_MSG_BUFF_MAX \<Longrightarrow>
    rx_step be s (handle_sequence_read be (s\<lparr>rx_reader := r\<rparr>))"

inductive_cases rx_stepE: "rx_step be s t"

text \<open>A connection that has just started reading a peer's stream; the buffer holds anything.\<close>

definition rx_init :: "bool \<Rightarrow> (nat \<Rightarrow> u8) \<Rightarrow> raw_message list \<Rightarrow> rx" where
  "rx_init be junk ms =
     \<lparr>rx_reader = reader_reset \<lparr>buff = map junk [0..<CLIENT_MSG_BUFF_MAX], rd_header = mh_zero,
        cur_len = npos, remain_len = 0, cur_index = 0, msg_list = [], valid_flag = True, overlapped = False\<rparr>,
      rx_got = 0, rx_wire = concat (map (\<lambda>m. rm_to_buffers (rm_hton be m)) ms), rx_out = [],
      rx_open = True\<rparr>"

definition msg_fits :: "raw_message \<Rightarrow> bool" where
  "msg_fits m \<longleftrightarrow> length (rm_body m) = unat (msg_length (rm_header m)) \<and>
     header_length + length (rm_body m) \<le> CLIENT_MSG_BUFF_MAX"

section \<open>Parsing\<close>

text \<open>The bytes of a message on the wire, and what is known of the reader when the unparsed part of
  the buffer, from offset \<open>p\<close>, and the bytes still to come are the messages \<open>pend\<close>.\<close>

definition wire_bytes :: "bool \<Rightarrow> raw_message \<Rightarrow> bytes" where
  "wire_bytes be m = rm_to_buffers (rm_hton be m)"

definition reader_inv :: "bool \<Rightarrow> bytes \<Rightarrow> raw_message list \<Rightarrow> nat \<Rightarrow> reader \<Rightarrow> bool" where
  "reader_inv be wire pend p r \<longleftrightarrow>
     \<not> overlapped r \<and> length (buff r) = CLIENT_MSG_BUFF_MAX \<and> p + remain_len r \<le> CLIENT_MSG_BUFF_MAX \<and> valid_flag r \<and>
     take (remain_len r) (drop p (buff r)) @ wire = concat (map (wire_bytes be) pend) \<and>
     list_all msg_fits pend \<and>
     (cur_len r = npos \<or>
      pend \<noteq> [] \<and> header_length \<le> remain_len r \<and> cur_len r = header_length + length (rm_body (hd pend)) \<and>
      rd_header r = rm_header (hd pend))"

lemma length_wire_bytes [simp]: "length (wire_bytes be m) = header_length + length (rm_body m)"
  by (simp add: wire_bytes_def rm_to_buffers_def header_length_def mh_size_def rm_hton_def)

lemma header_of_wire_bytes:
  assumes "take n xs = take n (wire_bytes be m @ ys)" "header_length \<le> n"
  shows "mh_ntoh be (mh_of_buffer (take header_length xs)) = rm_header m"
proof -
  have "take header_length xs = take header_length (wire_bytes be m @ ys)"
    using arg_cong [OF assms(1), of "take header_length"] assms(2) by (simp add: min_def)
  then have "take header_length xs = mh.wire_image be (rm_header m)"
    by (simp add: wire_bytes_def rm_to_buffers_def rm_hton_def mh.wire_image_def header_length_def mh_size_def)
  then show ?thesis using mh.received_header [where h = "rm_header m" and payload = "[]"] by simp
qed

lemma reader_inv_stream:
  "reader_inv be w pend p r \<Longrightarrow> take (remain_len r) (drop p (buff r)) @ w = concat (map (wire_bytes be) pend)"
  by (simp add: reader_inv_def)

lemma reader_inv_length: "reader_inv be w pend p r \<Longrightarrow> length (take (remain_len r) (drop p (buff r))) = remain_len r"
  by (auto simp: reader_inv_def)

lemma parse_header_valid:
  assumes inv: "reader_inv be wire pend p r" and h: "header_length \<le> remain_len r"
  obtains m rest r' where "pend = m # rest" "parse_header be p r = (True, r')" "reader_inv be wire pend p r'"
    "r' = r\<lparr>rd_header := rm_header m, cur_len := header_length + length (rm_body m)\<rparr>"
proof -
  from inv h have "pend \<noteq> []"
    by (auto simp: reader_inv_def header_length_def mh_size_def CLIENT_MSG_BUFF_MAX_def)
  then obtain m rest where pend: "pend = m # rest" by (cases pend) auto
  have len: "length (take (remain_len r) (drop p (buff r))) = remain_len r"
    using inv by (auto simp: reader_inv_def)
  have "take (remain_len r) (drop p (buff r)) =
      take (remain_len r) (wire_bytes be m @ concat (map (wire_bytes be) rest))"
    using inv len by (simp add: reader_inv_def pend append_eq_conv_conj)
  from header_of_wire_bytes [OF this h] inv
  have "parse_header be p r = (True, r\<lparr>rd_header := rm_header m, cur_len := header_length + length (rm_body m)\<rparr>)"
    by (simp add: parse_header_def Let_def reader_inv_def pend msg_fits_def)
  then show thesis using that [OF pend] inv h by (simp add: reader_inv_def pend)
qed

lemma take_front:
  assumes "take n xs @ w = a @ b" "n \<le> length xs" "length a \<le> n"
  shows "take (length a) xs = a" "take (n - length a) (drop (length a) xs) @ w = b"
proof -
  have "take (length a) (take n xs @ w) = a" "drop (length a) (take n xs @ w) = b"
    using assms(1) by simp_all
  with assms(2,3) show "take (length a) xs = a" "take (n - length a) (drop (length a) xs) @ w = b"
    by (simp_all add: drop_take min_def)
qed

text \<open>Taking the first message off a buffer that holds all of it.\<close>

lemma take_message_valid:
  assumes inv: "reader_inv be wire pend p r" and c: "cur_len r \<noteq> npos" "cur_len r \<le> remain_len r"
  obtains m rest where "pend = m # rest"
    "m = \<lparr>rm_header = rd_header r, rm_body = (if msg_length (rd_header r) > 0
        then take (unat (msg_length (rd_header r))) (drop (p + header_length) (buff r)) else [])\<rparr>"
    "cur_len r = length (wire_bytes be m)"
    "reader_inv be wire rest (p + cur_len r) (r\<lparr>msg_list := msg_list r @ [m],
        remain_len := remain_len r - cur_len r, cur_index := cur_index r + cur_len r, cur_len := npos\<rparr>)"
proof -
  from inv c obtain m rest where pend: "pend = m # rest" by (cases pend) (auto simp: reader_inv_def)
  have cur: "cur_len r = length (wire_bytes be m)" and hdr: "rd_header r = rm_header m"
    and fits: "length (rm_body m) = unat (msg_length (rm_header m))"
    using inv c by (auto simp: reader_inv_def pend msg_fits_def)
  have front: "take (length (wire_bytes be m)) (drop p (buff r)) = wire_bytes be m"
    "take (remain_len r - length (wire_bytes be m)) (drop (length (wire_bytes be m)) (drop p (buff r))) @ wire =
       concat (map (wire_bytes be) rest)"
    by (rule take_front [where n = "remain_len r"]; use inv c cur in \<open>auto simp: reader_inv_def pend\<close>)+
  have "drop header_length (take (length (wire_bytes be m)) (drop p (buff r))) = rm_body m"
    by (simp only: front) (simp add: wire_bytes_def rm_to_buffers_def rm_hton_def header_length_def mh_size_def)
  then have "take (unat (msg_length (rm_header m))) (drop (p + header_length) (buff r)) = rm_body m"
    by (simp add: drop_take fits add.commute)
  moreover have "rm_body m = []" if "\<not> msg_length (rm_header m) > 0"
    using fits that by (simp add: word_gt_0)
  ultimately have m: "m = \<lparr>rm_header = rd_header r, rm_body = (if msg_length (rd_header r) > 0
        then take (unat (msg_length (rd_header r))) (drop (p + header_length) (buff r)) else [])\<rparr>"
    by (simp add: hdr)
  show thesis
    using that [OF pend m cur] inv c front(2) by (auto simp: reader_inv_def pend cur add.commute)
qed

lemma parse_loop_valid:
  assumes "reader_inv be wire pend p r"
  shows "\<exists>xs pend' r'. parse_loop be p r = (True, p + length (concat (map (wire_bytes be) xs)), r') \<and>
     pend = xs @ pend' \<and> msg_list r' = msg_list r @ xs \<and> buff r' = buff r \<and>
     reader_inv be wire pend' (p + length (concat (map (wire_bytes be) xs))) r' \<and>
     remain_len r' < (if cur_len r' = npos then header_length else cur_len r') \<and>
     (xs = [] \<longrightarrow> cur_len r \<noteq> npos \<longrightarrow> remain_len r < cur_len r)"
  using assms
proof (induction be p r arbitrary: pend rule: parse_loop.induct)
  case (1 be p r)
  consider (msg) "cur_len r \<noteq> npos" "cur_len r \<le> remain_len r"
    | (wait) "cur_len r \<noteq> npos" "remain_len r < cur_len r"
    | (hdr) "cur_len r = npos" "header_length \<le> remain_len r"
    | (more) "cur_len r = npos" "remain_len r < header_length"
    by linarith
  then show ?case
  proof cases
    case msg
    from take_message_valid [OF 1(3) msg] obtain m rest where pend: "pend = m # rest"
      and m: "m = \<lparr>rm_header = rd_header r, rm_body = (if msg_length (rd_header r) > 0
        then take (unat (msg_length (rd_header r))) (drop (p + header_length) (buff r)) else [])\<rparr>"
      and cur: "cur_len r = length (wire_bytes be m)"
      and inv: "reader_inv be wire rest (p + cur_len r) (r\<lparr>msg_list := msg_list r @ [m],
        remain_len := remain_len r - cur_len r, cur_index := cur_index r + cur_len r, cur_len := npos\<rparr>)"
      by blast
    have ok: "\<not> (cur_len r > CLIENT_MSG_BUFF_MAX \<or> cur_len r < header_length)"
      using 1(3) msg cur by (auto simp: reader_inv_def)
    have step: "parse_loop be p r = parse_loop be (p + cur_len r) (r\<lparr>msg_list := msg_list r @ [m],
        remain_len := remain_len r - cur_len r, cur_index := cur_index r + cur_len r, cur_len := npos\<rparr>)"
      using msg ok by (subst parse_loop.simps) (simp add: m Let_def)
    from 1(1) [OF msg(1) ok msg(2) refl m] inv obtain xs pend' r' where
      "parse_loop be p r = (True, p + cur_len r + length (concat (map (wire_bytes be) xs)), r')"
      "rest = xs @ pend'" "msg_list r' = msg_list r @ m # xs" "buff r' = buff r"
      "reader_inv be wire pend' (p + cur_len r + length (concat (map (wire_bytes be) xs))) r'"
      "remain_len r' < (if cur_len r' = npos then header_length else cur_len r')"
      unfolding step by fastforce
    then show ?thesis
      by (intro exI [of _ "m # xs"] exI [of _ pend'] exI [of _ r'])
        (simp add: pend cur add.assoc)
  next
    case wait
    then have "parse_loop be p r = (True, p, r)"
      using 1(3) by (subst parse_loop.simps) (cases pend; auto simp: reader_inv_def msg_fits_def)
    then show ?thesis using 1(3) wait by (intro exI [of _ "[]"] exI [of _ pend] exI [of _ r]) simp
  next
    case hdr
    obtain m rest r' where "pend = m # rest" and
      ph: "parse_header be p r = (True, r')" "reader_inv be wire pend p r'"
      "r' = r\<lparr>rd_header := rm_header m, cur_len := header_length + length (rm_body m)\<rparr>"
      by (rule parse_header_valid [OF 1(3) hdr(2)])
    have step: "parse_loop be p r = parse_loop be p r'"
      using parse_loop.simps [of be p r] hdr ph(1) by simp
    have "\<not> cur_len r \<noteq> npos" using hdr by simp
    note ih = 1(2) [OF this hdr(2), unfolded ph(1) snd_conv, OF ph(2)]
    have frame: "msg_list r' = msg_list r" "buff r' = buff r" by (simp_all add: ph(3))
    from ih show ?thesis by (elim ex_forward) (simp add: step frame hdr(1))
  next
    case more
    then have "parse_loop be p r = (True, p, r)" by (subst parse_loop.simps) simp
    then show ?thesis using 1(3) more by (intro exI [of _ "[]"] exI [of _ pend] exI [of _ r]) simp
  qed
qed

section \<open>The read loop keeps the stream\<close>

definition rx_inv :: "bool \<Rightarrow> raw_message list \<Rightarrow> rx \<Rightarrow> bool" where
  "rx_inv be ms s \<longleftrightarrow> rx_open s \<and> msg_list (rx_reader s) = [] \<and>
     (\<exists>pend. ms = rx_out s @ pend \<and>
       reader_inv be (rx_wire s) pend 0 ((rx_reader s)\<lparr>remain_len := remain_len (rx_reader s) + rx_got s\<rparr>) \<and>
       (pend \<noteq> [] \<longrightarrow> remain_len (rx_reader s) < length (wire_bytes be (hd pend))))"

lemma parse_header_remain:
  "parse_header be p (r\<lparr>remain_len := n\<rparr>) =
     (let (b, r') = parse_header be p r in (b, r'\<lparr>remain_len := n\<rparr>))"
  by (simp add: parse_header_def Let_def)

text \<open>The completion condition on a valid stream: it stops the read exactly when the buffer holds
  the whole first message, and then its header is known.\<close>

lemma completion_valid:
  assumes inv: "reader_inv be w pend 0 (r\<lparr>remain_len := remain_len r + got\<rparr>)"
    and c: "completion_condition be False got r = (k, r')"
  shows "reader_inv be w pend 0 (r'\<lparr>remain_len := remain_len r + got\<rparr>)"
    "remain_len r' = remain_len r" "msg_list r' = msg_list r" "buff r' = buff r"
    "k = (if remain_len r + got \<ge> cur_len r' then 0 else default_max_transfer_size)"
    "cur_len r' = npos \<Longrightarrow> remain_len r + got < header_length"
proof -
  let ?r = "r\<lparr>remain_len := remain_len r + got\<rparr>"
  have all: "reader_inv be w pend 0 (r'\<lparr>remain_len := remain_len r + got\<rparr>) \<and>
    remain_len r' = remain_len r \<and> msg_list r' = msg_list r \<and> buff r' = buff r \<and>
    k = (if remain_len r + got \<ge> cur_len r' then 0 else default_max_transfer_size) \<and>
    (cur_len r' = npos \<longrightarrow> remain_len r + got < header_length)"
  proof (cases "cur_len r = npos \<and> remain_len r + got \<ge> header_length")
    case True
    then have "header_length \<le> remain_len ?r" by simp
    from parse_header_valid [OF inv this] obtain m r1 where
      1: "parse_header be 0 ?r = (True, r1)" "reader_inv be w pend 0 r1" by blast
    then obtain r2 where 2: "parse_header be 0 r = (True, r2)" "r1 = r2\<lparr>remain_len := remain_len r + got\<rparr>"
      by (auto simp: parse_header_remain split: prod.splits)
    with c True have 3: "r' = r2" "k = (if remain_len r + got \<ge> cur_len r2 then 0 else default_max_transfer_size)"
      by (auto simp: completion_condition_def Let_def)
    show ?thesis
      using 1(2) 2 parse_header_frame [of be 0 r] parse_header_cur_len [of be 0 r] unfolding 3 by simp
  next
    case False
    with c inv show ?thesis by (auto simp: completion_condition_def Let_def)
  qed
  then show "reader_inv be w pend 0 (r'\<lparr>remain_len := remain_len r + got\<rparr>)"
    "remain_len r' = remain_len r" "msg_list r' = msg_list r" "buff r' = buff r"
    "k = (if remain_len r + got \<ge> cur_len r' then 0 else default_max_transfer_size)"
    "cur_len r' = npos \<Longrightarrow> remain_len r + got < header_length"
    by blast+
qed

lemma receive_bytes_valid:
  assumes "reader_inv be w pend 0 r" "n \<le> length w" "remain_len r + n \<le> CLIENT_MSG_BUFF_MAX"
  shows "reader_inv be (drop n w) pend 0
    (r\<lparr>buff := overwrite (buff r) (remain_len r) (take n w), remain_len := remain_len r + n\<rparr>)"
  using assms unfolding reader_inv_def by (auto simp: overwrite_def)

lemma move_rest_valid:
  assumes "reader_inv be w pend p r" "remain_len r \<le> p"
  shows "reader_inv be w pend 0 (move_rest p r)"
  using assms unfolding reader_inv_def move_rest_def by (auto simp: overwrite_def min_def)

lemma move_rest_frame [simp]:
  "msg_list (move_rest p r) = msg_list r" "remain_len (move_rest p r) = remain_len r"
  by (simp_all add: move_rest_def)

lemma move_rest_overlapped: "\<not> overlapped r \<Longrightarrow> overlapped (move_rest p r) \<longleftrightarrow> p < remain_len r"
  by (auto simp: move_rest_def)

text \<open>A read that ended because the first message is complete: whole messages are taken off the
  buffer, and the copy of the rest overlaps exactly when the rest is longer than they are together.\<close>

lemma parse_valid:
  assumes inv: "reader_inv be w pend 0 (r\<lparr>remain_len := remain_len r + got\<rparr>)"
    and c: "cur_len r \<noteq> npos" "cur_len r \<le> remain_len r + got" and ml: "msg_list r = []"
  obtains xs pend' r' where "parse be got r = (True, r')" "xs \<noteq> []" "pend = xs @ pend'" "msg_list r' = xs"
    "overlapped r' \<longleftrightarrow> length (concat (map (wire_bytes be) xs)) < remain_len r'"
    "\<not> overlapped r' \<Longrightarrow> reader_inv be w pend' 0 r'"
    "remain_len r' + length (concat (map (wire_bytes be) xs)) = remain_len r + got"
    "pend' \<noteq> [] \<Longrightarrow> remain_len r' < length (wire_bytes be (hd pend'))" "pend' = [] \<Longrightarrow> remain_len r' = 0"
proof -
  let ?r = "r\<lparr>remain_len := remain_len r + got\<rparr>"
  from parse_loop_valid [OF inv] c obtain xs pend' r1 where
    pl: "parse_loop be 0 ?r = (True, length (concat (map (wire_bytes be) xs)), r1)"
    and pend: "pend = xs @ pend'" "msg_list r1 = xs" "xs \<noteq> []"
    and r1: "reader_inv be w pend' (length (concat (map (wire_bytes be) xs))) r1"
    "remain_len r1 < (if cur_len r1 = npos then header_length else cur_len r1)"
    using ml by fastforce
  let ?p = "length (concat (map (wire_bytes be) xs))"
  have p: "?p \<noteq> 0" using pend(3) by (cases xs) (auto simp: header_length_def mh_size_def)
  let ?r' = "if remain_len r1 > 0 then move_rest ?p r1 else r1"
  have over: "\<not> overlapped r1" using r1(1) by (simp add: reader_inv_def)
  have "parse be got r = (True, ?r')" using pl p by (simp add: parse_def Let_def)
  moreover have "overlapped ?r' \<longleftrightarrow> ?p < remain_len ?r'"
    using over by (auto simp: move_rest_overlapped)
  moreover have "reader_inv be w pend' 0 ?r'" if "\<not> overlapped ?r'"
    using r1(1) move_rest_valid [OF r1(1)] that over by (auto simp: reader_inv_def move_rest_def)
  moreover have "remain_len ?r' + ?p = remain_len r + got"
    using arg_cong [where f = length, OF reader_inv_stream [OF inv]]
      arg_cong [where f = length, OF reader_inv_stream [OF r1(1)]]
      reader_inv_length [OF inv] reader_inv_length [OF r1(1)] by (simp add: pend)
  moreover have "remain_len ?r' < length (wire_bytes be (hd pend'))" if "pend' \<noteq> []"
    using r1 by (auto simp: reader_inv_def split: if_splits)
  moreover have "remain_len ?r' = 0" if "pend' = []"
    using reader_inv_length [OF r1(1)] reader_inv_stream [OF r1(1)] that by auto
  ultimately show thesis using that pend by auto
qed

text \<open>
  No message is longer than the one before it. The rest of a read is part of one message, and at
  least the message before it has been consumed, so on such a stream no copy overlaps.
\<close>

definition shrinking :: "raw_message list \<Rightarrow> bool" where
  "shrinking = successively (\<lambda>m n. length (rm_body n) \<le> length (rm_body m))"

lemma shrinking_no_overlap:
  assumes "shrinking (out @ xs @ pend)" "xs \<noteq> []" "pend \<noteq> []" "n < length (wire_bytes be (hd pend))"
  shows "n \<le> length (concat (map (wire_bytes be) xs))"
proof -
  have "length (rm_body (hd pend)) \<le> length (rm_body (last xs))"
    using assms(1-3) by (simp add: shrinking_def successively_append_iff)
  moreover have "length (wire_bytes be (last xs)) \<le> length (concat (map (wire_bytes be) xs))"
    using assms(2) by (cases xs rule: rev_cases) auto
  ultimately show ?thesis using assms(4) by simp
qed

text \<open>A connection on which an overlapping copy has been made.\<close>

definition rx_lost :: "raw_message list \<Rightarrow> rx \<Rightarrow> bool" where
  "rx_lost ms s \<longleftrightarrow> overlapped (rx_reader s) \<and> rx_open s \<and> prefix (rx_out s) ms \<and> \<not> shrinking ms"

lemma rx_done_valid:
  assumes inv: "rx_inv be ms s" and c: "completion_condition be False (rx_got s) (rx_reader s) = (k, r)"
    and k: "k = 0 \<or> remain_len r + rx_got s = CLIENT_MSG_BUFF_MAX"
    and t: "t = handle_sequence_read be (s\<lparr>rx_reader := r\<rparr>)"
  shows "rx_inv be ms t \<or> rx_lost ms t" "rx_got s > 0" "rx_wire t = rx_wire s" "rx_got t = 0"
    "ms = rx_out s @ m # rest \<Longrightarrow> remain_len (rx_reader s) + rx_got s \<le> length (wire_bytes be m) \<Longrightarrow>
       rx_inv be ms t \<and> remain_len (rx_reader t) = 0"
    "\<exists>xs pend. xs \<noteq> [] \<and> ms = rx_out s @ xs @ pend \<and>
       (overlapped (rx_reader t) \<longleftrightarrow> length (concat (map (wire_bytes be) xs)) < remain_len (rx_reader t)) \<and>
       remain_len (rx_reader t) + length (concat (map (wire_bytes be) xs)) = remain_len (rx_reader s) + rx_got s"
proof -
  from inv obtain pend where ms: "ms = rx_out s @ pend" "msg_list (rx_reader s) = []" "rx_open s"
    and ri: "reader_inv be (rx_wire s) pend 0 ((rx_reader s)\<lparr>remain_len := remain_len (rx_reader s) + rx_got s\<rparr>)"
    and lt: "pend \<noteq> [] \<Longrightarrow> remain_len (rx_reader s) < length (wire_bytes be (hd pend))"
    by (auto simp: rx_inv_def)
  note cv = completion_valid [OF ri c]
  have "remain_len r + rx_got s \<le> CLIENT_MSG_BUFF_MAX" and v: "valid_flag r"
    and cl: "cur_len r = npos \<or> pend \<noteq> [] \<and> cur_len r = length (wire_bytes be (hd pend)) \<and> cur_len r \<le> CLIENT_MSG_BUFF_MAX"
    using cv(1,2) by (cases pend; auto simp: reader_inv_def msg_fits_def)+
  with k cv(5,6,2) have cur: "cur_len r \<noteq> npos" "cur_len r \<le> remain_len r + rx_got s"
    by (auto simp: npos_def CLIENT_MSG_BUFF_MAX_def header_length_def mh_size_def default_max_transfer_size_def split: if_splits)
  with cl lt cv(2) show got: "rx_got s > 0" by auto
  have pv: "reader_inv be (rx_wire s) pend 0 (r\<lparr>remain_len := remain_len r + rx_got s\<rparr>)" and ml: "msg_list r = []"
    using cv(1-3) ms(2) by simp_all
  obtain xs pend' r' where p: "parse be (rx_got s) r = (True, r')" "xs \<noteq> []" "pend = xs @ pend'" "msg_list r' = xs"
    "overlapped r' \<longleftrightarrow> length (concat (map (wire_bytes be) xs)) < remain_len r'"
    "\<not> overlapped r' \<Longrightarrow> reader_inv be (rx_wire s) pend' 0 r'"
    "remain_len r' + length (concat (map (wire_bytes be) xs)) = remain_len r + rx_got s"
    "pend' \<noteq> [] \<Longrightarrow> remain_len r' < length (wire_bytes be (hd pend'))" "pend' = [] \<Longrightarrow> remain_len r' = 0"
    by (rule parse_valid [OF pv cur ml]) (rule that)
  have h: "t = (if overlapped r' then s\<lparr>rx_reader := r', rx_got := 0\<rparr>
      else s\<lparr>rx_out := rx_out s @ xs, rx_reader := r'\<lparr>cur_index := 0, msg_list := []\<rparr>, rx_got := 0\<rparr>)"
    using got v cl cur p by (simp add: t handle_sequence_read_def reader_is_valid_def prepare_next_recv_def Let_def)
  have good: "rx_inv be ms t" if "\<not> overlapped r'"
    unfolding h rx_inv_def using that ms p by (auto simp: reader_inv_def intro!: exI [of _ pend'])
  have "\<not> shrinking ms" if "overlapped r'"
  proof
    assume "shrinking ms"
    then have "shrinking (rx_out s @ xs @ pend')" by (simp add: ms(1) p(3))
    from shrinking_no_overlap [OF this p(2), of "remain_len r'" be] that p(5,8,9) show False
      by (cases "pend' = []") auto
  qed
  then have "rx_lost ms t" if "overlapped r'"
    using that ms by (simp add: h rx_lost_def)
  with good show "rx_inv be ms t \<or> rx_lost ms t" by blast
  show "rx_wire t = rx_wire s" "rx_got t = 0" by (simp_all add: h)
  show "rx_inv be ms t \<and> remain_len (rx_reader t) = 0"
    if "ms = rx_out s @ m # rest" "remain_len (rx_reader s) + rx_got s \<le> length (wire_bytes be m)"
  proof -
    have "length (wire_bytes be m) \<le> length (concat (map (wire_bytes be) xs))"
      using that(1) ms(1) p(2,3) by (cases xs) auto
    then have r0: "remain_len r' = 0" using p(7) that(2) cv(2) by linarith
    then have "\<not> overlapped r'" by (simp add: p(5))
    with r0 good show ?thesis by (simp add: h)
  qed
  show "\<exists>xs pend. xs \<noteq> [] \<and> ms = rx_out s @ xs @ pend \<and>
       (overlapped (rx_reader t) \<longleftrightarrow> length (concat (map (wire_bytes be) xs)) < remain_len (rx_reader t)) \<and>
       remain_len (rx_reader t) + length (concat (map (wire_bytes be) xs)) = remain_len (rx_reader s) + rx_got s"
    using ms(1) p(2,3,5,7) cv(2) by (intro exI [of _ xs] exI [of _ pend']) (simp add: h)
qed

text \<open>Twice the bytes still to come, plus one while a read is under way: every step lowers it.\<close>

definition rx_measure :: "rx \<Rightarrow> nat" where
  "rx_measure s = 2 * length (rx_wire s) + of_bool (rx_got s > 0)"

lemma rx_more_valid:
  assumes inv: "rx_inv be ms s" and c: "completion_condition be False (rx_got s) (rx_reader s) = (k, r)"
    and n: "0 < n" "n \<le> CLIENT_MSG_BUFF_MAX - (remain_len r + rx_got s)" "n \<le> length (rx_wire s)"
    and t: "t = s\<lparr>rx_reader := r\<lparr>buff := overwrite (buff r) (remain_len r + rx_got s) (take n (rx_wire s))\<rparr>,
                    rx_got := rx_got s + n, rx_wire := drop n (rx_wire s)\<rparr>"
  shows "rx_inv be ms t" "remain_len (rx_reader t) = remain_len (rx_reader s)"
proof -
  from inv obtain pend where ms: "ms = rx_out s @ pend" "msg_list (rx_reader s) = []" "rx_open s"
    and ri: "reader_inv be (rx_wire s) pend 0 ((rx_reader s)\<lparr>remain_len := remain_len (rx_reader s) + rx_got s\<rparr>)"
    and lt: "pend \<noteq> [] \<Longrightarrow> remain_len (rx_reader s) < length (wire_bytes be (hd pend))"
    by (auto simp: rx_inv_def)
  note cv = completion_valid [OF ri c]
  have le: "remain_len r + rx_got s + n \<le> CLIENT_MSG_BUFF_MAX"
    using n(1,2) by linarith
  have "reader_inv be (drop n (rx_wire s)) pend 0
      (r\<lparr>buff := overwrite (buff r) (remain_len r + rx_got s) (take n (rx_wire s)),
         remain_len := remain_len r + (rx_got s + n)\<rparr>)"
    using receive_bytes_valid [OF cv(1) n(3)] le cv(2) by (simp add: add.assoc)
  then show "rx_inv be ms t"
    using ms lt cv(2,3) by (auto simp: t rx_inv_def intro!: exI [of _ pend])
  show "remain_len (rx_reader t) = remain_len (rx_reader s)" by (simp add: t cv(2))
qed

lemma rx_step_valid:
  assumes "rx_step be s t" "rx_inv be ms s"
  shows "(rx_inv be ms t \<or> rx_lost ms t) \<and> rx_measure t < rx_measure s"
  using assms(1)
proof cases
  case (rx_more k r n)
  then show ?thesis
    using rx_more_valid(1) [OF assms(2) rx_more(4,5,7,8) rx_more(1)] by (simp add: rx_measure_def)
next
  case (rx_done k r)
  show ?thesis
    using rx_done_valid(1-4) [OF assms(2) rx_done(4,5,1)] by (simp add: rx_measure_def)
qed

lemma rx_lost_stuck: "rx_lost ms s \<Longrightarrow> \<not> rx_step be s t"
  by (auto simp: rx_lost_def elim: rx_stepE)

lemma rx_init_wire: "rx_wire (rx_init be junk ms) = concat (map (wire_bytes be) ms)"
  by (simp add: rx_init_def wire_bytes_def [abs_def])

lemma rx_init_inv:
  assumes "list_all msg_fits ms"
  shows "rx_inv be ms (rx_init be junk ms)"
proof -
  have "header_length > 0" by (simp add: header_length_def mh_size_def)
  with assms show ?thesis
    unfolding rx_inv_def reader_inv_def rx_init_wire
    by (intro conjI exI [of _ ms]) (simp_all add: rx_init_def reader_reset_def)
qed

lemma rx_reach_inv:
  "(rx_step be)\<^sup>*\<^sup>* (rx_init be junk ms) s \<Longrightarrow> list_all msg_fits ms \<Longrightarrow> rx_inv be ms s \<or> rx_lost ms s"
  by (induction rule: rtranclp_induct) (auto simp: rx_init_inv dest: rx_step_valid rx_lost_stuck)

lemma rx_run_measure:
  "(rx_step be ^^ n) s t \<Longrightarrow> rx_inv be ms s \<Longrightarrow> n + rx_measure t \<le> rx_measure s"
proof (induction n arbitrary: s)
  case (Suc n)
  from Suc.prems(1) obtain u where u: "rx_step be s u" "(rx_step be ^^ n) u t"
    by (rule relpowp_Suc_E2)
  show ?case
  proof (cases "rx_inv be ms u")
    case True
    with rx_step_valid [OF u(1) Suc.prems(2)] Suc.IH [OF u(2)] show ?thesis by auto
  next
    case False
    with rx_step_valid [OF u(1) Suc.prems(2)] have lost: "rx_lost ms u" and lt: "rx_measure u < rx_measure s"
      by auto
    from lost u(2) have "n = 0" by (cases n) (auto dest: rx_lost_stuck simp: relpowp_Suc_left simp del: relpowp.simps)
    with u(2) lt show ?thesis by simp
  qed
qed simp

lemma rx_stuck_delivered:
  assumes inv: "rx_inv be ms s" and stuck: "\<And>t. \<not> rx_step be s t"
  shows "rx_out s = ms \<and> rx_wire s = []"
proof -
  from inv obtain pend where ms: "ms = rx_out s @ pend" "rx_open s" "\<not> overlapped (rx_reader s)"
    and ri: "reader_inv be (rx_wire s) pend 0 ((rx_reader s)\<lparr>remain_len := remain_len (rx_reader s) + rx_got s\<rparr>)"
    by (auto simp: rx_inv_def reader_inv_def)
  obtain k r where c: "completion_condition be False (rx_got s) (rx_reader s) = (k, r)" by fastforce
  note cv = completion_valid [OF ri c]
  have "\<not> (k = 0 \<or> remain_len r + rx_got s = CLIENT_MSG_BUFF_MAX)"
    using rx_step.rx_done [OF ms(2,3) c] stuck [of "handle_sequence_read be (s\<lparr>rx_reader := r\<rparr>)"]
    by linarith
  with cv(1,2,5) have k: "k = default_max_transfer_size" "cur_len r > remain_len r + rx_got s"
    and room: "remain_len r + rx_got s < CLIENT_MSG_BUFF_MAX"
    by (auto simp: reader_inv_def split: if_splits)
  have wire: "rx_wire s = []"
    using stuck rx_step.rx_more [OF ms(2,3) c, of 1] k(1) room
    by (auto simp: default_max_transfer_size_def Suc_le_eq)
  have "pend = []"
  proof (rule ccontr)
    assume "pend \<noteq> []"
    then obtain m rest where p: "pend = m # rest" by (cases pend) auto
    have "length (take (remain_len r + rx_got s) (buff r)) \<ge> length (wire_bytes be m)"
      using cv(1,2) wire by (simp add: reader_inv_def p del: length_take)
    then have "header_length + length (rm_body m) \<le> remain_len r + rx_got s" by simp
    with k(2) cv(1,2,6) show False by (auto simp: reader_inv_def p)
  qed
  with ms(1) wire show ?thesis by simp
qed

text \<open>
  A network that delivers one byte at a time: the read stops with the last byte of a message, so
  nothing is left behind it and no copy is needed.
\<close>

definition byte_wise :: "bool \<Rightarrow> raw_message list \<Rightarrow> rx \<Rightarrow> bool" where
  "byte_wise be ms s \<longleftrightarrow> rx_inv be ms s \<and> remain_len (rx_reader s) = 0 \<and>
     (\<forall>m rest. ms = rx_out s @ m # rest \<longrightarrow> rx_got s \<le> length (wire_bytes be m))"

lemma byte_wise_step:
  assumes bw: "byte_wise be ms s" and "\<exists>t. rx_step be s t"
  shows "\<exists>t. rx_step be s t \<and> byte_wise be ms t"
proof -
  have inv: "rx_inv be ms s" and r0: "remain_len (rx_reader s) = 0" using bw by (simp_all add: byte_wise_def)
  from inv obtain pend where ms: "ms = rx_out s @ pend" "rx_open s" "\<not> overlapped (rx_reader s)"
    and ri: "reader_inv be (rx_wire s) pend 0 ((rx_reader s)\<lparr>remain_len := remain_len (rx_reader s) + rx_got s\<rparr>)"
    by (auto simp: rx_inv_def reader_inv_def)
  obtain k r where c: "completion_condition be False (rx_got s) (rx_reader s) = (k, r)" by fastforce
  note cv = completion_valid [OF ri c]
  have got: "rx_got s \<le> length (wire_bytes be m)" if "ms = rx_out s @ m # rest" for m rest
    using bw that by (simp add: byte_wise_def)
  show ?thesis
  proof (cases "k = 0 \<or> remain_len r + rx_got s = CLIENT_MSG_BUFF_MAX")
    case True
    let ?t = "handle_sequence_read be (s\<lparr>rx_reader := r\<rparr>)"
    note dn = rx_done_valid [OF inv c True refl]
    obtain m rest where m: "ms = rx_out s @ m # rest"
      using dn(2) ri ms(1) r0 by (cases pend) (auto simp: reader_inv_def CLIENT_MSG_BUFF_MAX_def)
    from dn(5) [OF m] got [OF m] r0 have "rx_inv be ms ?t \<and> remain_len (rx_reader ?t) = 0" by simp
    then have "byte_wise be ms ?t" using dn(4) by (simp add: byte_wise_def)
    then show ?thesis using rx_step.rx_done [OF ms(2,3) c True] by blast
  next
    case False
    then have room: "remain_len r + rx_got s < CLIENT_MSG_BUFF_MAX" and k: "k = default_max_transfer_size"
      and cur: "rx_got s < cur_len r"
      using cv(1,2,5) r0 by (auto simp: reader_inv_def split: if_splits)
    from assms(2) False c have "rx_wire s \<noteq> []" by (auto elim!: rx_stepE)
    then have n: "(0::nat) < 1" "1 \<le> CLIENT_MSG_BUFF_MAX - (remain_len r + rx_got s)" "1 \<le> length (rx_wire s)" "1 \<le> k"
      using room by (auto simp: Suc_le_eq k default_max_transfer_size_def)
    let ?t = "s\<lparr>rx_reader := r\<lparr>buff := overwrite (buff r) (remain_len r + rx_got s) (take 1 (rx_wire s))\<rparr>,
        rx_got := rx_got s + 1, rx_wire := drop 1 (rx_wire s)\<rparr>"
    have "rx_got s < length (wire_bytes be m)" if "ms = rx_out s @ m # rest" for m rest
      using cv(1,6) cur that ms(1) r0 by (auto simp: reader_inv_def)
    then have "byte_wise be ms ?t"
      using rx_more_valid [OF inv c n(1-3) refl] r0 by (simp add: byte_wise_def Suc_le_eq)
    then show ?thesis using rx_step.rx_more [OF ms(2,3) c n(1,4,2,3)] by blast
  qed
qed

lemma rx_complete_run:
  "byte_wise be ms s \<Longrightarrow> \<exists>t. (rx_step be)\<^sup>*\<^sup>* s t \<and> rx_out t = ms \<and> rx_wire t = [] \<and> rx_inv be ms t"
proof (induction "rx_measure s" arbitrary: s rule: less_induct)
  case less
  have inv: "rx_inv be ms s" using less.prems by (simp add: byte_wise_def)
  show ?case
  proof (cases "\<exists>t. rx_step be s t")
    case True
    then obtain u where u: "rx_step be s u" "byte_wise be ms u" using byte_wise_step [OF less.prems] by blast
    with rx_step_valid [OF u(1) inv] less.hyps obtain t where
      "(rx_step be)\<^sup>*\<^sup>* u t \<and> rx_out t = ms \<and> rx_wire t = [] \<and> rx_inv be ms t" by blast
    with converse_rtranclp_into_rtranclp [of "rx_step be", OF u(1)] show ?thesis by blast
  next
    case False
    with rx_stuck_delivered [OF inv] inv show ?thesis by blast
  qed
qed

lemma rx_init_byte_wise: "list_all msg_fits ms \<Longrightarrow> byte_wise be ms (rx_init be junk ms)"
  unfolding byte_wise_def by (simp add: rx_init_inv) (simp add: rx_init_def reader_reset_def)

lemma rx_reach_delivers:
  assumes "list_all msg_fits ms" "(rx_step be)\<^sup>*\<^sup>* (rx_init be junk ms) s"
  shows "rx_open s \<and> prefix (rx_out s) ms \<and>
    (\<not> overlapped (rx_reader s) \<longrightarrow> (\<nexists>t. rx_step be s t) \<longrightarrow> rx_out s = ms \<and> rx_wire s = []) \<and>
    (shrinking ms \<longrightarrow> \<not> overlapped (rx_reader s))"
  using rx_reach_inv [OF assms(2,1)]
proof
  assume inv: "rx_inv be ms s"
  then have "rx_open s \<and> prefix (rx_out s) ms \<and> \<not> overlapped (rx_reader s)"
    by (auto simp: rx_inv_def reader_inv_def)
  moreover have "rx_out s = ms \<and> rx_wire s = []" if "\<nexists>t. rx_step be s t"
    using rx_stuck_delivered [OF inv] that by blast
  ultimately show ?thesis by blast
qed (simp add: rx_lost_def)

section \<open>Properties\<close>

text \<open>
  (C2) Framing is independent of how the network cuts the stream, up to the copy of the rest. For
  messages that fit the buffer (at most \<open>CLIENT_MSG_BUFF_MAX\<close> bytes with the header, the header's
  length that of the body), whatever pieces their bytes arrive in, the connection stays open and has
  handed on a prefix of exactly those messages in order; and unless a \<open>memcpy\<close> of the rest has
  overlapped, it has handed on all of them and consumed every byte when no further step is possible.
  No copy ever overlaps when no message is longer than the one before it.
\<close>

theorem reader_delivers:
  assumes "list_all msg_fits ms" "(rx_step be)\<^sup>*\<^sup>* (rx_init be junk ms) s"
  shows "rx_open s \<and> prefix (rx_out s) ms \<and>
    (\<not> overlapped (rx_reader s) \<longrightarrow> (\<nexists>t. rx_step be s t) \<longrightarrow> rx_out s = ms \<and> rx_wire s = []) \<and>
    (shrinking ms \<longrightarrow> \<not> overlapped (rx_reader s))"
  by (rule rx_reach_delivers [OF assms])

text \<open>
  (C25) Reading ends: for messages that fit the buffer, every run of the read loop over their bytes
  takes at most two steps per byte, whatever the pieces they arrive in; and a network that delivers
  few enough bytes at a time has a run at whose end all the messages have been handed on, without
  an overlapping copy.
\<close>

theorem reader_terminates:
  assumes "list_all msg_fits ms"
  shows "(\<forall>n s. (rx_step be ^^ n) (rx_init be junk ms) s \<longrightarrow>
       n \<le> 2 * length (concat (map (\<lambda>m. rm_to_buffers (rm_hton be m)) ms))) \<and>
     (\<exists>s. (rx_step be)\<^sup>*\<^sup>* (rx_init be junk ms) s \<and> rx_out s = ms \<and> rx_wire s = [] \<and> \<not> overlapped (rx_reader s))"
proof -
  have m: "rx_measure (rx_init be junk ms) = 2 * length (concat (map (\<lambda>m. rm_to_buffers (rm_hton be m)) ms))"
    by (simp add: rx_measure_def rx_init_def)
  have "n \<le> 2 * length (concat (map (\<lambda>m. rm_to_buffers (rm_hton be m)) ms))"
    if "(rx_step be ^^ n) (rx_init be junk ms) s" for n s
    using rx_run_measure [OF that rx_init_inv [OF assms]] unfolding m by linarith
  moreover obtain s where "(rx_step be)\<^sup>*\<^sup>* (rx_init be junk ms) s" "rx_out s = ms" "rx_wire s = []" "rx_inv be ms s"
    using rx_complete_run [OF rx_init_byte_wise [OF assms]] by blast
  ultimately show ?thesis by (auto simp: rx_inv_def reader_inv_def)
qed

definition sample_msgs :: "raw_message list" where
  "sample_msgs =
     [\<lparr>rm_header = mh_init_short 0 7 2, rm_body = [1, 2]\<rparr>, \<lparr>rm_header = mh_init_short 0 9 0, rm_body = []\<rparr>]"

lemma sample_msgs_fit: "list_all msg_fits sample_msgs"
  by (simp add: sample_msgs_def msg_fits_def mh_init_short_def header_length_def mh_size_def CLIENT_MSG_BUFF_MAX_def)

theorem reader_delivers_witness:
  "\<exists>s. (rx_step True)\<^sup>*\<^sup>* (rx_init True (\<lambda>_. 0) sample_msgs) s \<and> rx_wire s = [] \<and> rx_open s \<and>
     prefix (rx_out s) sample_msgs"
proof -
  from rx_complete_run [OF rx_init_byte_wise [OF sample_msgs_fit]] obtain s where
    s: "(rx_step True)\<^sup>*\<^sup>* (rx_init True (\<lambda>_. 0) sample_msgs) s" "rx_wire s = []" by blast
  from reader_delivers [OF sample_msgs_fit s(1)] s show ?thesis by blast
qed

theorem reader_terminates_witness:
  "\<exists>s. (rx_step True)\<^sup>*\<^sup>* (rx_init True (\<lambda>_. 0) sample_msgs) s \<and> rx_out s = sample_msgs \<and>
     \<not> overlapped (rx_reader s)"
  using reader_terminates [OF sample_msgs_fit, of True "\<lambda>_. 0"] by blast

text \<open>
  The copy can overlap on an ordinary stream: a message followed by one at least two bytes longer,
  when the read brings the whole of the first and, of the second, one byte more than the first has.
\<close>

theorem overlapping_copy:
  assumes fits: "msg_fits m1" "msg_fits m2"
    and len: "length (rm_body m1) + 1 < length (rm_body m2)"
      "2 * (header_length + length (rm_body m1)) + 1 \<le> default_max_transfer_size"
  shows "\<exists>s. (rx_step be)\<^sup>*\<^sup>* (rx_init be junk [m1, m2]) s \<and> overlapped (rx_reader s)"
proof -
  let ?i = "rx_init be junk [m1, m2]" and ?n = "2 * length (wire_bytes be m1) + 1"
  have i: "rx_open ?i" "\<not> overlapped (rx_reader ?i)" "rx_got ?i = 0" "remain_len (rx_reader ?i) = 0"
    "cur_len (rx_reader ?i) = npos" "rx_out ?i = []"
    by (simp_all add: rx_init_def reader_reset_def)
  have inv: "rx_inv be [m1, m2] ?i" using fits by (simp add: rx_init_inv)
  have c0: "completion_condition be False (rx_got ?i) (rx_reader ?i) = (default_max_transfer_size, rx_reader ?i)"
    by (simp add: completion_condition_def i header_length_def mh_size_def npos_def default_max_transfer_size_def)
  have n: "0 < ?n" "?n \<le> default_max_transfer_size"
    "?n \<le> CLIENT_MSG_BUFF_MAX - (remain_len (rx_reader ?i) + rx_got ?i)" "?n \<le> length (rx_wire ?i)"
    using len i by (simp_all add: rx_init_wire CLIENT_MSG_BUFF_MAX_def default_max_transfer_size_def)
  define s where "s = ?i\<lparr>rx_reader := (rx_reader ?i)\<lparr>buff := overwrite (buff (rx_reader ?i))
      (remain_len (rx_reader ?i) + rx_got ?i) (take ?n (rx_wire ?i))\<rparr>,
    rx_got := rx_got ?i + ?n, rx_wire := drop ?n (rx_wire ?i)\<rparr>"
  have step: "rx_step be ?i s" unfolding s_def by (rule rx_step.rx_more [OF i(1,2) c0 n])
  have sinv: "rx_inv be [m1, m2] s" and rem: "remain_len (rx_reader s) = 0"
    using rx_more_valid [OF inv c0 n(1,3,4) s_def] i(4) by simp_all
  have s: "rx_got s = ?n" "rx_out s = []" "rx_open s" by (simp_all add: s_def i)
  from sinv rem s have ri: "reader_inv be (rx_wire s) [m1, m2] 0
      ((rx_reader s)\<lparr>remain_len := remain_len (rx_reader s) + rx_got s\<rparr>)"
    by (simp add: rx_inv_def)
  then have over: "\<not> overlapped (rx_reader s)" by (simp add: reader_inv_def)
  obtain k r where c: "completion_condition be False (rx_got s) (rx_reader s) = (k, r)" by fastforce
  note cv = completion_valid [OF ri c]
  have "k = 0" using cv(1,5,6) rem s(1) by (auto simp: reader_inv_def)
  then have k: "k = 0 \<or> remain_len r + rx_got s = CLIENT_MSG_BUFF_MAX" by simp
  let ?t = "handle_sequence_read be (s\<lparr>rx_reader := r\<rparr>)"
  from rx_done_valid(6) [OF sinv c k refl] obtain xs pend where xs: "xs \<noteq> []" "[m1, m2] = xs @ pend"
    "overlapped (rx_reader ?t) \<longleftrightarrow> length (concat (map (wire_bytes be) xs)) < remain_len (rx_reader ?t)"
    "remain_len (rx_reader ?t) + length (concat (map (wire_bytes be) xs)) = ?n"
    using s rem by auto
  from xs(1,2) consider "xs = [m1]" | "xs = [m1, m2]" by (cases xs) (auto simp: Cons_eq_append_conv)
  then have "overlapped (rx_reader ?t)" using xs(3,4) len by cases auto
  moreover have "rx_step be s ?t" by (rule rx_step.rx_done [OF s(3) over c k])
  ultimately show ?thesis using step by (meson converse_rtranclp_into_rtranclp rtranclp.rtrancl_refl)
qed

theorem overlapping_copy_witness:
  "\<exists>s. (rx_step True)\<^sup>*\<^sup>* (rx_init True (\<lambda>_. 0)
     [\<lparr>rm_header = mh_init_short 0 7 1, rm_body = [1]\<rparr>, \<lparr>rm_header = mh_init_short 0 9 3, rm_body = [1, 2, 3]\<rparr>]) s \<and>
     overlapped (rx_reader s)"
  by (rule overlapping_copy) (simp_all add: msg_fits_def mh_init_short_def header_length_def mh_size_def
      CLIENT_MSG_BUFF_MAX_def default_max_transfer_size_def)

text \<open>
  A header that announces more than the buffer can hold ends the connection: as soon as it is
  complete the read stops, the reader is no longer valid, and the handler closes without handing
  anything on.
\<close>

theorem oversized_header_closes:
  assumes "rx_open s" "cur_len (rx_reader s) = npos" "header_length \<le> remain_len (rx_reader s) + rx_got s"
    "header_length + unat (msg_length (mh_ntoh be (mh_of_buffer (buff (rx_reader s))))) > CLIENT_MSG_BUFF_MAX"
  shows "\<exists>r. completion_condition be False (rx_got s) (rx_reader s) = (0, r) \<and>
     \<not> reader_is_valid r \<and>
     handle_sequence_read be (s\<lparr>rx_reader := r\<rparr>) = s\<lparr>rx_reader := r, rx_open := False\<rparr>"
  using assms by (simp add: completion_condition_def parse_header_def Let_def reader_is_valid_def
      handle_sequence_read_def header_length_def mh_size_def)

definition sample_msg :: raw_message where
  "sample_msg = \<lparr>rm_header = mh_init_short 0 7 2, rm_body = [1, 2]\<rparr>"

definition bad_header :: msg_header where "bad_header = mh_init_short 0 7 (2 ^ 24)"

definition sample_oversized :: rx where
  "sample_oversized =
     (let s = rx_init True (\<lambda>i. 0) []
      in s\<lparr>rx_got := 24, rx_reader := (rx_reader s)\<lparr>buff :=
             mh_to_buffer (mh_hton True bad_header) @ replicate (CLIENT_MSG_BUFF_MAX - 24) 0\<rparr>\<rparr>)"

theorem oversized_header_closes_witness:
  "\<exists>r. \<not> reader_is_valid r \<and>
     handle_sequence_read True (sample_oversized\<lparr>rx_reader := r\<rparr>) =
       sample_oversized\<lparr>rx_reader := r, rx_open := False\<rparr>"
proof -
  have h: "mh_ntoh True (mh_of_buffer (buff (rx_reader sample_oversized))) = bad_header"
    using mh.received_header [where h = bad_header and be = True]
    by (simp add: sample_oversized_def Let_def mh.wire_image_def)
  have "\<exists>r. completion_condition True False (rx_got sample_oversized) (rx_reader sample_oversized) = (0, r) \<and>
     \<not> reader_is_valid r \<and>
     handle_sequence_read True (sample_oversized\<lparr>rx_reader := r\<rparr>) = sample_oversized\<lparr>rx_reader := r, rx_open := False\<rparr>"
    using oversized_header_closes [of sample_oversized True, unfolded h]
    by (simp add: sample_oversized_def rx_init_def reader_reset_def Let_def bad_header_def
        mh_init_short_def CLIENT_MSG_BUFF_MAX_def header_length_def mh_size_def)
  then show ?thesis by blast
qed

lemma parse_loop_bad_header:
  assumes "cur_len r = npos" "header_length \<le> remain_len r"
    "header_length + unat (msg_length (mh_ntoh be (mh_of_buffer (take header_length (drop p (buff r)))))) > CLIENT_MSG_BUFF_MAX"
  shows "fst (parse_loop be p r) = False"
proof -
  let ?r = "snd (parse_header be p r)"
  have "cur_len ?r > CLIENT_MSG_BUFF_MAX" using assms(3) by (simp add: parse_header_def Let_def)
  then have "fst (parse_loop be p ?r) = False"
    using parse_loop.simps [of be p ?r] parse_header_cur_len [of be p r] by simp
  then show ?thesis using parse_loop.simps [of be p r] assms(1,2) by simp
qed

lemma parse_loop_overlapped: "overlapped (snd (snd (parse_loop be p r))) = overlapped r"
proof (induction be p r rule: parse_loop.induct)
  case (1 be p r)
  show ?case by (subst parse_loop.simps) (use 1 in \<open>simp add: Let_def\<close>)
qed

lemma failed_parse_overlapped: "parse be n r = (False, r') \<Longrightarrow> overlapped r' = overlapped r"
  using parse_loop_overlapped [of be 0 "r\<lparr>remain_len := remain_len r + n\<rparr>"]
  by (auto simp: parse_def Let_def split: prod.splits if_splits)

lemma parse_loop_message:
  assumes "cur_len r \<noteq> npos" "header_length \<le> cur_len r" "cur_len r \<le> CLIENT_MSG_BUFF_MAX" "cur_len r \<le> remain_len r"
  shows "\<exists>msgs i. parse_loop be p r = parse_loop be (p + cur_len r)
    (r\<lparr>msg_list := msgs, remain_len := remain_len r - cur_len r, cur_index := i, cur_len := npos\<rparr>)"
  using parse_loop.simps [of be p r] assms by (simp add: Let_def) blast

text \<open>
  The same header behind a complete message in one read is treated differently: the parse
  fails, the messages already taken off the buffer are dropped without being handed on, and the
  reader is reset with the connection left open, so the bytes that follow are read as if they
  started a message.
\<close>

theorem bad_header_drops_messages:
  assumes s: "rx_open s" "cur_len (rx_reader s) = npos" "remain_len (rx_reader s) = 0"
      "valid_flag (rx_reader s) \<and> \<not> overlapped (rx_reader s)"
    "length (buff (rx_reader s)) = CLIENT_MSG_BUFF_MAX"
    and m: "msg_fits m" and h: "header_length + unat (msg_length h) > CLIENT_MSG_BUFF_MAX"
    and d: "take (rx_got s) (buff (rx_reader s)) = rm_to_buffers (rm_hton be m) @ mh_to_buffer (mh_hton be h)"
    "rx_got s = 2 * header_length + length (rm_body m)"
  shows "\<exists>r. completion_condition be False (rx_got s) (rx_reader s) = (0, r) \<and>
     (\<exists>r'. handle_sequence_read be (s\<lparr>rx_reader := r\<rparr>) = s\<lparr>rx_reader := r', rx_got := 0\<rparr> \<and>
       cur_len r' = npos \<and> remain_len r' = 0 \<and> msg_list r' = [] \<and> valid_flag r')"
proof -
  let ?r = "rx_reader s" and ?n = "header_length + length (rm_body m)"
  have hl: "header_length = 24" by (simp add: header_length_def mh_size_def)
  have d': "take (rx_got s) (buff ?r) = wire_bytes be m @ mh.wire_image be h"
    using d(1) by (simp add: wire_bytes_def mh.wire_image_def)
  have front: "take header_length (buff ?r) = take header_length (wire_bytes be m)"
    using arg_cong [OF d', of "take header_length"] d(2) by simp
  have h1: "mh_ntoh be (mh_of_buffer (take header_length (buff ?r))) = rm_header m"
    by (rule header_of_wire_bytes [where n = header_length and ys = "[]"]) (simp_all add: front)
  have "take header_length (drop ?n (buff ?r)) = mh.wire_image be h"
    using arg_cong [OF d', of "drop ?n"] d(2) by (simp add: drop_take)
  then have h2: "mh_ntoh be (mh_of_buffer (take header_length (drop ?n (buff ?r)))) = h"
    using mh.received_header [where payload = "[]"] by simp
  define r1 where "r1 = ?r\<lparr>rd_header := rm_header m, cur_len := ?n\<rparr>"
  have n: "?n \<noteq> npos" "?n \<le> CLIENT_MSG_BUFF_MAX" "length (rm_body m) = unat (msg_length (rm_header m))"
    using m by (auto simp: msg_fits_def npos_def CLIENT_MSG_BUFF_MAX_def)
  have cc: "completion_condition be False (rx_got s) ?r = (0, r1)"
    using s d(2) h1 n by (simp add: completion_condition_def parse_header_def Let_def r1_def)
  have "fst (parse_loop be 0 (r1\<lparr>remain_len := rx_got s\<rparr>)) = False"
    using parse_loop_message [of "r1\<lparr>remain_len := rx_got s\<rparr>" be 0] n d(2) h h2
    by (auto simp: r1_def parse_loop_bad_header)
  then have "fst (parse be (rx_got s) r1) = False"
    using s(3) by (auto simp: parse_def Let_def r1_def split: prod.splits)
  then have "\<exists>r'. handle_sequence_read be (s\<lparr>rx_reader := r1\<rparr>) = s\<lparr>rx_reader := r', rx_got := 0\<rparr> \<and>
       cur_len r' = npos \<and> remain_len r' = 0 \<and> msg_list r' = [] \<and> valid_flag r'"
    using s n d(2) hl by (auto simp: handle_sequence_read_def reader_is_valid_def r1_def Let_def prepare_next_recv_def
        reader_reset_def failed_parse_overlapped split: prod.splits)
  with cc show ?thesis by blast
qed

definition sample_bad_second :: rx where
  "sample_bad_second =
     (let s = rx_init True (\<lambda>i. 0) []
      in s\<lparr>rx_got := 50, rx_reader := (rx_reader s)\<lparr>buff :=
             rm_to_buffers (rm_hton True sample_msg) @ mh_to_buffer (mh_hton True bad_header) @
             replicate (CLIENT_MSG_BUFF_MAX - 50) 0\<rparr>\<rparr>)"

theorem bad_header_drops_messages_witness:
  "\<exists>r r'. completion_condition True False 50 (rx_reader sample_bad_second) = (0, r) \<and>
     handle_sequence_read True (sample_bad_second\<lparr>rx_reader := r\<rparr>) =
       sample_bad_second\<lparr>rx_reader := r', rx_got := 0\<rparr>"
proof -
  have m: "msg_fits sample_msg" and len: "length (rm_to_buffers (rm_hton True sample_msg)) = 26"
    by (simp_all add: sample_msg_def msg_fits_def mh_init_short_def header_length_def mh_size_def
        CLIENT_MSG_BUFF_MAX_def rm_to_buffers_def rm_hton_def)
  have h: "header_length + unat (msg_length bad_header) > CLIENT_MSG_BUFF_MAX"
    by (simp add: bad_header_def mh_init_short_def CLIENT_MSG_BUFF_MAX_def header_length_def mh_size_def)
  have s: "rx_open sample_bad_second" "cur_len (rx_reader sample_bad_second) = npos" "rx_got sample_bad_second = 50"
    "remain_len (rx_reader sample_bad_second) = 0"
    "valid_flag (rx_reader sample_bad_second) \<and> \<not> overlapped (rx_reader sample_bad_second)"
    "length (buff (rx_reader sample_bad_second)) = CLIENT_MSG_BUFF_MAX"
    "take 50 (buff (rx_reader sample_bad_second)) =
       rm_to_buffers (rm_hton True sample_msg) @ mh_to_buffer (mh_hton True bad_header)"
    using len by (simp_all add: sample_bad_second_def rx_init_def reader_reset_def Let_def CLIENT_MSG_BUFF_MAX_def)
  have "length (rm_body sample_msg) = 2" by (simp add: sample_msg_def)
  with bad_header_drops_messages [OF s(1,2,4-6) m h, of True] s(3,7) show ?thesis
    by (auto simp: header_length_def mh_size_def)
qed

end
