(* ===== verification/Timer_Manager.thy ===== *)
theory Timer_Manager
  imports Prelude "HOL-Library.AList"
begin

text \<open>
  Timers: \<open>src/network/timer/schedule_timer.hpp\<close> and \<open>src/network/timer/timer_manager.hpp\<close>. A
  \<open>timer_info\<close> is shared between the map of the manager and the handlers that are waiting, so it
  lives in a table under a reference of its own. Times are milliseconds since the epoch.

  The Boost timer is the environment. Its documented behaviour is the relation \<open>tm_env\<close>: setting
  an expiry or cancelling aborts the waits that are still pending; a pending wait whose time has
  come becomes ready and can no longer be aborted; the handler of a wait runs once, with an error
  exactly when the wait was aborted. What a user's timer function does to the manager is the
  parameter \<open>call\<close>.
\<close>

section \<open>Model\<close>

datatype timer_status = Timer_Ok | Timer_Canceled

text \<open>The function of a timer: empty, given by the user, or wrapped so that it returns a constant.\<close>

datatype timer_func = No_Func | User_Func nat | Returns bool nat

record timer_info =
  ti_id :: u32
  ti_status :: timer_status
  ti_milliseconds :: int
  ti_next_time :: int
  ti_func :: timer_func

datatype wait_state = Pending | Ready | Aborted

record timer_wait =
  tw_ref :: nat
  tw_deadline :: int
  tw_state :: wait_state

record tm =
  infos :: "nat \<Rightarrow> timer_info"
  next_ref :: nat
  timers :: "(u32 \<times> nat) list"
  timer_id :: u32
  now_ms :: int
  expiry :: "nat \<Rightarrow> int"
  waits :: "timer_wait list"
  fired :: "(nat \<times> int) list"

type_synonym timer_call = "nat \<Rightarrow> tm \<Rightarrow> bool \<times> tm"

subsection \<open>The schedule timer\<close>

definition abort_waits :: "nat \<Rightarrow> timer_wait list \<Rightarrow> timer_wait list" where
  "abort_waits r = map (\<lambda>w. if tw_ref w = r \<and> tw_state w = Pending then w\<lparr>tw_state := Aborted\<rparr> else w)"

definition st_cancel :: "nat \<Rightarrow> tm \<Rightarrow> tm" where
  "st_cancel r s = s\<lparr>waits := abort_waits r (waits s)\<rparr>"

definition st_set_expiry :: "nat \<Rightarrow> int \<Rightarrow> tm \<Rightarrow> tm" where
  "st_set_expiry r t s = s\<lparr>waits := abort_waits r (waits s), expiry := (expiry s)(r := t)\<rparr>"

definition st_expires :: "nat \<Rightarrow> int \<Rightarrow> tm \<Rightarrow> tm" where
  "st_expires r milliseconds s = st_set_expiry r (now_ms s + milliseconds) s"

text \<open>Seconds and milliseconds of a time stamp, by the truncating division of C++.\<close>

definition trunc_div :: "int \<Rightarrow> int \<Rightarrow> int" where
  "trunc_div a b = sgn a * sgn b * (\<bar>a\<bar> div \<bar>b\<bar>)"

definition trunc_mod :: "int \<Rightarrow> int \<Rightarrow> int" where
  "trunc_mod a b = a - b * trunc_div a b"

definition st_expires_at_ms :: "nat \<Rightarrow> int \<Rightarrow> tm \<Rightarrow> tm" where
  "st_expires_at_ms r ts s = st_set_expiry r (trunc_div ts 1000 * 1000 + trunc_mod ts 1000) s"

definition st_add_wait :: "nat \<Rightarrow> tm \<Rightarrow> tm" where
  "st_add_wait r s =
     s\<lparr>waits := waits s @ [\<lparr>tw_ref = r, tw_deadline = expiry s r, tw_state = Pending\<rparr>]\<rparr>"

definition st_async_wait :: "nat \<Rightarrow> int \<Rightarrow> tm \<Rightarrow> tm" where
  "st_async_wait r milliseconds s = st_add_wait r (st_expires r milliseconds s)"

definition st_async_wait_at_time :: "nat \<Rightarrow> int \<Rightarrow> tm \<Rightarrow> tm" where
  "st_async_wait_at_time r ts s = st_add_wait r (st_expires_at_ms r ts s)"

subsection \<open>The timer manager\<close>

definition tm_new :: "int \<Rightarrow> tm" where
  "tm_new now =
     \<lparr>infos = (\<lambda>_. \<lparr>ti_id = 0, ti_status = Timer_Canceled, ti_milliseconds = 0, ti_next_time = 0, ti_func = No_Func\<rparr>),
      next_ref = 0, timers = [], timer_id = 0, now_ms = now, expiry = (\<lambda>_. now), waits = [], fired = []\<rparr>"

definition tm_update :: "nat \<Rightarrow> (timer_info \<Rightarrow> timer_info) \<Rightarrow> tm \<Rightarrow> tm" where
  "tm_update r f s = s\<lparr>infos := (infos s)(r := f (infos s r))\<rparr>"

definition create_timer :: "int \<Rightarrow> timer_func \<Rightarrow> tm \<Rightarrow> nat \<times> tm" where
  "create_timer milliseconds func s =
     (let i = timer_id s + 1; r = next_ref s;
          ti = \<lparr>ti_id = i, ti_status = Timer_Ok, ti_milliseconds = milliseconds, ti_next_time = 0, ti_func = func\<rparr>
      in (r, s\<lparr>timer_id := i, next_ref := Suc r, infos := (infos s)(r := ti),
               timers := AList.update i r (timers s)\<rparr>))"

definition calc_next_time :: "nat \<Rightarrow> tm \<Rightarrow> tm" where
  "calc_next_time r s =
     (let next = ti_next_time (infos s r) + ti_milliseconds (infos s r)
      in tm_update r (ti_next_time_update (\<lambda>_. if next < now_ms s then now_ms s else next)) s)"

definition start_timer :: "nat \<Rightarrow> tm \<Rightarrow> tm" where
  "start_timer r s =
     (let s1 = tm_update r (ti_status_update (\<lambda>_. Timer_Ok)) s
      in if ti_next_time (infos s1 r) \<noteq> 0
         then (let s2 = calc_next_time r s1 in st_async_wait_at_time r (ti_next_time (infos s2 r)) s2)
         else st_async_wait r (ti_milliseconds (infos s1 r)) s1)"

definition stop_timer :: "nat \<Rightarrow> tm \<Rightarrow> tm" where
  "stop_timer r s = tm_update r (ti_status_update (\<lambda>_. Timer_Canceled)) (st_cancel r s)"

definition run_func :: "timer_call \<Rightarrow> nat \<Rightarrow> tm \<Rightarrow> bool \<times> tm" where
  "run_func call r s =
     (let s1 = s\<lparr>fired := fired s @ [(r, now_ms s)]\<rparr>
      in case ti_func (infos s r) of
           No_Func \<Rightarrow> (False, s)
         | User_Func f \<Rightarrow> call f s1
         | Returns b f \<Rightarrow> (b, snd (call f s1)))"

definition invoke_timer :: "timer_call \<Rightarrow> nat \<Rightarrow> tm \<Rightarrow> tm" where
  "invoke_timer call r s = snd (run_func call r s)"

definition timer_handler :: "timer_call \<Rightarrow> bool \<Rightarrow> nat \<Rightarrow> tm \<Rightarrow> tm" where
  "timer_handler call ec r s =
     (if \<not> ec \<and> ti_status (infos s r) = Timer_Ok then
        (let (is_continue, s1) = run_func call r s
         in if is_continue \<or> ti_next_time (infos s1 r) > 0 then start_timer r s1 else s1)
      else s)"

text \<open>The operations by id, as the proxy calls them.\<close>

definition start_timer_id :: "u32 \<Rightarrow> tm \<Rightarrow> tm" where
  "start_timer_id i s = (case map_of (timers s) i of Some r \<Rightarrow> start_timer r s | None \<Rightarrow> s)"

definition auto_start_timer :: "u32 \<Rightarrow> tm \<Rightarrow> tm" where
  "auto_start_timer i s =
     (case map_of (timers s) i of
        Some r \<Rightarrow> if ti_status (infos s r) \<noteq> Timer_Canceled then start_timer r s else s
      | None \<Rightarrow> s)"

definition stop_timer_id :: "u32 \<Rightarrow> tm \<Rightarrow> tm" where
  "stop_timer_id i s = (case map_of (timers s) i of Some r \<Rightarrow> stop_timer r s | None \<Rightarrow> s)"

definition invoke_timer_id :: "timer_call \<Rightarrow> u32 \<Rightarrow> tm \<Rightarrow> tm" where
  "invoke_timer_id call i s = (case map_of (timers s) i of Some r \<Rightarrow> invoke_timer call r s | None \<Rightarrow> s)"

definition close_timer :: "u32 \<Rightarrow> tm \<Rightarrow> tm" where
  "close_timer i s =
     (case map_of (timers s) i of
        Some r \<Rightarrow> (let s1 = stop_timer r s in s1\<lparr>timers := AList.delete i (timers s1)\<rparr>)
      | None \<Rightarrow> s)"

definition stop_all_timer :: "tm \<Rightarrow> tm" where
  "stop_all_timer s = fold (\<lambda>(i, r). stop_timer r) (timers s) s"

record timer_proxy =
  tp_timer :: bool
  tp_id :: u32
  tp_need_start :: bool

definition set_timer :: "int \<Rightarrow> timer_func \<Rightarrow> tm \<Rightarrow> timer_proxy \<times> tm" where
  "set_timer milliseconds func s =
     (let (r, s1) = create_timer milliseconds func s
      in (\<lparr>tp_timer = True, tp_id = ti_id (infos s1 r), tp_need_start = True\<rparr>, s1))"

definition set_fix_timer :: "int \<Rightarrow> timer_func \<Rightarrow> tm \<Rightarrow> timer_proxy \<times> tm" where
  "set_fix_timer milliseconds func s =
     (let (r, s1) = create_timer milliseconds func s;
          s2 = tm_update r (ti_next_time_update (\<lambda>_. now_ms s1 + milliseconds)) s1
      in (\<lparr>tp_timer = True, tp_id = ti_id (infos s2 r), tp_need_start = True\<rparr>, s2))"

definition set_fix_timer_void :: "int \<Rightarrow> nat \<Rightarrow> tm \<Rightarrow> timer_proxy \<times> tm" where
  "set_fix_timer_void milliseconds f = set_fix_timer milliseconds (Returns True f)"

definition set_once_timer :: "int \<Rightarrow> nat \<Rightarrow> tm \<Rightarrow> timer_proxy \<times> tm" where
  "set_once_timer milliseconds f = set_timer milliseconds (Returns False f)"

definition set_auto_timer :: "int \<Rightarrow> nat \<Rightarrow> tm \<Rightarrow> timer_proxy \<times> tm" where
  "set_auto_timer milliseconds f = set_timer milliseconds (Returns True f)"

subsection \<open>The timer proxy\<close>

definition proxy_empty :: timer_proxy where
  "proxy_empty = \<lparr>tp_timer = False, tp_id = 0, tp_need_start = False\<rparr>"

definition proxy_start :: "timer_call \<Rightarrow> bool \<Rightarrow> timer_proxy \<Rightarrow> tm \<Rightarrow> timer_proxy \<times> tm" where
  "proxy_start call invoke_first p s =
     (if tp_timer p then
        (let s1 = (if invoke_first then invoke_timer_id call (tp_id p) s else s)
         in (p\<lparr>tp_need_start := False\<rparr>, start_timer_id (tp_id p) s1))
      else (p, s))"

definition proxy_stop :: "timer_proxy \<Rightarrow> tm \<Rightarrow> timer_proxy \<times> tm" where
  "proxy_stop p s =
     (if tp_timer p then (p\<lparr>tp_need_start := False\<rparr>, stop_timer_id (tp_id p) s) else (p, s))"

definition proxy_invoke :: "timer_call \<Rightarrow> timer_proxy \<Rightarrow> tm \<Rightarrow> timer_proxy \<times> tm" where
  "proxy_invoke call p s = (if tp_timer p then (p, invoke_timer_id call (tp_id p) s) else (p, s))"

definition proxy_close :: "timer_proxy \<Rightarrow> tm \<Rightarrow> timer_proxy \<times> tm" where
  "proxy_close p s =
     (if tp_timer p
      then (p\<lparr>tp_need_start := False, tp_timer := False\<rparr>, close_timer (tp_id p) s) else (p, s))"

definition proxy_auto_start :: "timer_proxy \<Rightarrow> tm \<Rightarrow> timer_proxy \<times> tm" where
  "proxy_auto_start p s =
     (p\<lparr>tp_need_start := False\<rparr>, if tp_need_start p \<and> tp_timer p then auto_start_timer (tp_id p) s else s)"

definition proxy_destroy :: "timer_proxy \<Rightarrow> tm \<Rightarrow> tm" where
  "proxy_destroy p s = snd (proxy_auto_start p s)"

text \<open>The move constructor: the new proxy and what is left of the old one.\<close>

definition proxy_move :: "timer_proxy \<Rightarrow> timer_proxy \<times> timer_proxy" where
  "proxy_move other = (other, other\<lparr>tp_need_start := False\<rparr>)"

definition proxy_assign :: "timer_proxy \<Rightarrow> timer_proxy \<Rightarrow> timer_proxy \<times> timer_proxy" where
  "proxy_assign p other =
     (p\<lparr>tp_timer := tp_timer other, tp_id := tp_id other, tp_need_start := tp_need_start other\<rparr>,
      other\<lparr>tp_need_start := False\<rparr>)"

subsection \<open>Runs\<close>

inductive tm_env :: "timer_call \<Rightarrow> tm \<Rightarrow> tm \<Rightarrow> bool" for call where
  tick: "0 \<le> d \<Longrightarrow> tm_env call s (s\<lparr>now_ms := now_ms s + d\<rparr>)"
| expire: "waits s = xs @ w # ys \<Longrightarrow> tw_state w = Pending \<Longrightarrow> tw_deadline w \<le> now_ms s \<Longrightarrow>
    tm_env call s (s\<lparr>waits := xs @ w\<lparr>tw_state := Ready\<rparr> # ys\<rparr>)"
| run: "waits s = xs @ w # ys \<Longrightarrow> tw_state w \<noteq> Pending \<Longrightarrow>
    tm_env call s (timer_handler call (tw_state w = Aborted) (tw_ref w) (s\<lparr>waits := xs @ ys\<rparr>))"

datatype timer_op = Start u32 | Auto_Start u32 | Stop u32 | Invoke u32 | Close u32 | Stop_All
  | Set_Timer int timer_func | Set_Fix_Timer int timer_func

fun tm_op :: "timer_call \<Rightarrow> timer_op \<Rightarrow> tm \<Rightarrow> tm" where
  "tm_op call (Start i) s = start_timer_id i s"
| "tm_op call (Auto_Start i) s = auto_start_timer i s"
| "tm_op call (Stop i) s = stop_timer_id i s"
| "tm_op call (Invoke i) s = invoke_timer_id call i s"
| "tm_op call (Close i) s = close_timer i s"
| "tm_op call Stop_All s = stop_all_timer s"
| "tm_op call (Set_Timer m f) s = snd (set_timer m f s)"
| "tm_op call (Set_Fix_Timer m f) s = snd (set_fix_timer m f s)"

inductive tm_step :: "timer_call \<Rightarrow> tm \<Rightarrow> tm \<Rightarrow> bool" for call where
  env: "tm_env call s t \<Longrightarrow> tm_step call s t"
| op: "tm_step call s (tm_op call p s)"

section \<open>The state invariant\<close>

definition pending :: "nat \<Rightarrow> timer_wait list \<Rightarrow> timer_wait list" where
  "pending r = filter (\<lambda>w. tw_ref w = r \<and> tw_state w = Pending)"

definition waits_ok :: "tm \<Rightarrow> bool" where
  "waits_ok s \<longleftrightarrow> (\<forall>r. length (pending r (waits s)) \<le> 1) \<and>
     list_all (\<lambda>w. tw_ref w < next_ref s \<and> (tw_state w = Pending \<longrightarrow> tw_deadline w = expiry s (tw_ref w))) (waits s)"

definition timers_ok :: "tm \<Rightarrow> bool" where
  "timers_ok s \<longleftrightarrow> distinct (map fst (timers s)) \<and>
     list_all (\<lambda>p. snd p < next_ref s \<and> ti_id (infos s (snd p)) = fst p) (timers s)"

definition tm_inv :: "tm \<Rightarrow> bool" where "tm_inv s \<longleftrightarrow> waits_ok s \<and> timers_ok s"

lemma trunc_split [simp]: "trunc_div a 1000 * 1000 + trunc_mod a 1000 = a"
  by (simp add: trunc_mod_def)

lemma pending_abort [simp]: "pending r (abort_waits q ws) = (if r = q then [] else pending r ws)"
  unfolding pending_def abort_waits_def by (induction ws) auto

lemma pending_append [simp]: "pending r (xs @ ys) = pending r xs @ pending r ys"
  by (simp add: pending_def)

lemma pending_Cons: "pending r (w # ws) = (if tw_ref w = r \<and> tw_state w = Pending then w # pending r ws else pending r ws)"
  by (simp add: pending_def)

lemma list_all_abort:
  "list_all P ws \<Longrightarrow> (\<And>w. P w \<Longrightarrow> tw_state w = Pending \<Longrightarrow> tw_ref w = r \<Longrightarrow> Q (w\<lparr>tw_state := Aborted\<rparr>)) \<Longrightarrow>
   (\<And>w. P w \<Longrightarrow> tw_ref w \<noteq> r \<or> tw_state w \<noteq> Pending \<Longrightarrow> Q w) \<Longrightarrow> list_all Q (abort_waits r ws)"
  by (auto simp: abort_waits_def list_all_iff)

text \<open>Frames: which parts of the state the operations on one timer leave alone.\<close>

lemma tm_update_frame [simp]:
  "waits (tm_update r f s) = waits s" "expiry (tm_update r f s) = expiry s"
  "next_ref (tm_update r f s) = next_ref s" "timers (tm_update r f s) = timers s"
  "now_ms (tm_update r f s) = now_ms s" "fired (tm_update r f s) = fired s"
  "timer_id (tm_update r f s) = timer_id s"
  "infos (tm_update r f s) q = (if q = r then f (infos s r) else infos s q)"
  by (simp_all add: tm_update_def)

lemma st_frame [simp]:
  "infos (st_set_expiry r t s) = infos s" "next_ref (st_set_expiry r t s) = next_ref s"
  "timers (st_set_expiry r t s) = timers s" "fired (st_set_expiry r t s) = fired s"
  "infos (st_add_wait r s) = infos s" "next_ref (st_add_wait r s) = next_ref s"
  "timers (st_add_wait r s) = timers s" "fired (st_add_wait r s) = fired s"
  "infos (st_cancel r s) = infos s" "next_ref (st_cancel r s) = next_ref s"
  "timers (st_cancel r s) = timers s" "fired (st_cancel r s) = fired s"
  "now_ms (st_set_expiry r t s) = now_ms s" "now_ms (st_add_wait r s) = now_ms s"
  by (simp_all add: st_set_expiry_def st_add_wait_def st_cancel_def)

lemmas wait_defs = st_async_wait_def st_async_wait_at_time_def st_expires_def st_expires_at_ms_def

lemma start_timer_frame [simp]:
  "next_ref (start_timer r s) = next_ref s" "timers (start_timer r s) = timers s"
  "fired (start_timer r s) = fired s" "q \<noteq> r \<Longrightarrow> infos (start_timer r s) q = infos s q"
  "ti_id (infos (start_timer r s) q) = ti_id (infos s q)"
  "ti_status (infos (start_timer r s) r) = Timer_Ok"
  by (simp_all add: start_timer_def calc_next_time_def wait_defs Let_def)

lemma stop_timer_frame [simp]:
  "next_ref (stop_timer r s) = next_ref s" "timers (stop_timer r s) = timers s"
  "fired (stop_timer r s) = fired s" "q \<noteq> r \<Longrightarrow> infos (stop_timer r s) q = infos s q"
  "ti_id (infos (stop_timer r s) q) = ti_id (infos s q)"
  "ti_status (infos (stop_timer r s) r) = Timer_Canceled" "waits (stop_timer r s) = abort_waits r (waits s)"
  by (simp_all add: stop_timer_def st_cancel_def)

text \<open>Starting a timer replaces whatever wait it had pending by one new wait.\<close>

lemma start_timer_waits:
  "\<exists>t. waits (start_timer r s) = abort_waits r (waits s) @ [\<lparr>tw_ref = r, tw_deadline = t, tw_state = Pending\<rparr>] \<and>
     expiry (start_timer r s) = (expiry s)(r := t)"
  by (simp add: start_timer_def calc_next_time_def wait_defs Let_def st_set_expiry_def st_add_wait_def)

lemma tm_inv_lookup: "tm_inv s \<Longrightarrow> map_of (timers s) i = Some r \<Longrightarrow> r < next_ref s"
  by (auto simp: tm_inv_def timers_ok_def list_all_iff dest: map_of_SomeD)

lemma start_timer_inv: "tm_inv s \<Longrightarrow> r < next_ref s \<Longrightarrow> tm_inv (start_timer r s)"
proof -
  assume inv: "tm_inv s" and r: "r < next_ref s"
  obtain t where t: "waits (start_timer r s) = abort_waits r (waits s) @ [\<lparr>tw_ref = r, tw_deadline = t, tw_state = Pending\<rparr>]"
    "expiry (start_timer r s) = (expiry s)(r := t)" using start_timer_waits by blast
  have "list_all (\<lambda>w. tw_ref w < next_ref s \<and> (tw_state w = Pending \<longrightarrow> tw_deadline w = ((expiry s)(r := t)) (tw_ref w)))
      (abort_waits r (waits s))"
    by (rule list_all_abort [where P = "\<lambda>w. tw_ref w < next_ref s \<and> (tw_state w = Pending \<longrightarrow> tw_deadline w = expiry s (tw_ref w))"])
      (use inv in \<open>auto simp: tm_inv_def waits_ok_def\<close>)
  then have "waits_ok (start_timer r s)"
    using inv r t by (simp add: tm_inv_def waits_ok_def pending_Cons) (simp add: pending_def)
  then show ?thesis using inv by (simp add: tm_inv_def timers_ok_def)
qed

lemma stop_timer_inv: "tm_inv s \<Longrightarrow> tm_inv (stop_timer r s)"
proof -
  assume inv: "tm_inv s"
  have "list_all (\<lambda>w. tw_ref w < next_ref s \<and> (tw_state w = Pending \<longrightarrow> tw_deadline w = expiry s (tw_ref w)))
      (abort_waits r (waits s))"
    by (rule list_all_abort [where P = "\<lambda>w. tw_ref w < next_ref s \<and> (tw_state w = Pending \<longrightarrow> tw_deadline w = expiry s (tw_ref w))"])
      (use inv in \<open>auto simp: tm_inv_def waits_ok_def\<close>)
  then have "waits_ok (stop_timer r s)"
    using inv by (simp add: tm_inv_def waits_ok_def stop_timer_def st_cancel_def)
  then show ?thesis using inv by (simp add: tm_inv_def timers_ok_def)
qed

lemma stop_all_inv: "tm_inv s \<Longrightarrow> tm_inv (fold (\<lambda>(i, r). stop_timer r) xs s)"
  by (induction xs arbitrary: s) (auto simp: stop_timer_inv)

lemma set_alist_update: "x \<in> set (AList.update k v xs) \<Longrightarrow> x = (k, v) \<or> x \<in> set xs"
  by (induction xs) (auto split: if_splits)

lemma timers_ok_update: "(\<And>ti. ti_id (f ti) = ti_id ti) \<Longrightarrow> timers_ok (tm_update r f s) = timers_ok s"
  by (auto simp: timers_ok_def list_all_iff)

lemma tm_inv_update: "(\<And>ti. ti_id (f ti) = ti_id ti) \<Longrightarrow> tm_inv (tm_update r f s) = tm_inv s"
  by (simp add: tm_inv_def waits_ok_def timers_ok_update)

lemma create_timer_inv:
  assumes "tm_inv s" "create_timer m f s = (r, t)"
  shows "tm_inv t \<and> r < next_ref t \<and> waits t = waits s \<and> fired t = fired s"
proof -
  have "waits_ok t" using assms
    by (auto simp: tm_inv_def waits_ok_def create_timer_def Let_def list_all_iff less_SucI)
  moreover have "timers_ok t"
  proof -
    have old: "snd p < next_ref s \<and> ti_id (infos s (snd p)) = fst p" if "p \<in> set (timers s)" for p
      using assms(1) that by (simp add: tm_inv_def timers_ok_def list_all_iff)
    have "snd p < next_ref t \<and> ti_id (infos t (snd p)) = fst p" if "p \<in> set (timers t)" for p
    proof -
      from that assms(2) have "p = (timer_id s + 1, next_ref s) \<or> p \<in> set (timers s)"
        by (auto simp: create_timer_def Let_def dest: set_alist_update)
      with old [of p] assms(2) show ?thesis by (auto simp: create_timer_def Let_def)
    qed
    then show ?thesis using assms
      by (auto simp: timers_ok_def list_all_iff tm_inv_def create_timer_def Let_def distinct_update)
  qed
  ultimately show ?thesis using assms by (auto simp: tm_inv_def create_timer_def Let_def)
qed

text \<open>What is asked of the users' functions: they act on the manager through its operations.\<close>

definition call_ok :: "timer_call \<Rightarrow> bool" where
  "call_ok call \<longleftrightarrow> (\<forall>f s. tm_inv s \<longrightarrow> tm_inv (snd (call f s)) \<and> next_ref s \<le> next_ref (snd (call f s)))"

lemma tm_inv_fired [simp]: "tm_inv (s\<lparr>fired := x\<rparr>) = tm_inv s"
  by (simp add: tm_inv_def waits_ok_def timers_ok_def)

lemma run_func_inv:
  "call_ok call \<Longrightarrow> tm_inv s \<Longrightarrow> tm_inv (snd (run_func call r s)) \<and> next_ref s \<le> next_ref (snd (run_func call r s))"
proof -
  assume c: "call_ok call" "tm_inv s"
  have "tm_inv (snd (call f (s\<lparr>fired := x\<rparr>))) \<and> next_ref s \<le> next_ref (snd (call f (s\<lparr>fired := x\<rparr>)))" for f x
    using c [unfolded call_ok_def] by (metis (no_types, lifting) tm_inv_fired tm.simps(10) tm.select_convs(2) tm.surjective tm.update_convs(8))
  with c show ?thesis by (simp add: run_func_def Let_def split: timer_func.split)
qed

lemma timer_handler_inv:
  assumes "call_ok call" "tm_inv s" "r < next_ref s"
  shows "tm_inv (timer_handler call ec r s) \<and> next_ref s \<le> next_ref (timer_handler call ec r s)"
proof -
  obtain c s1 where r: "run_func call r s = (c, s1)" by fastforce
  with run_func_inv [OF assms(1,2), of r] have "tm_inv s1" "next_ref s \<le> next_ref s1" by simp_all
  with r assms show ?thesis by (simp add: timer_handler_def start_timer_inv)
qed

lemma tm_op_inv:
  assumes "call_ok call" "tm_inv s"
  shows "tm_inv (tm_op call p s) \<and> next_ref s \<le> next_ref (tm_op call p s)"
proof (cases p)
  case (Set_Timer m f)
  then show ?thesis using create_timer_inv [OF assms(2), of m f]
    by (auto simp: set_timer_def create_timer_def Let_def)
next
  case (Set_Fix_Timer m f)
  then show ?thesis using create_timer_inv [OF assms(2), of m f]
    by (auto simp: set_fix_timer_def create_timer_def Let_def tm_inv_update)
next
  case (Close i)
  have "tm_inv (t\<lparr>timers := AList.delete i (timers t)\<rparr>)" if "tm_inv t" for t
    using that by (auto simp: tm_inv_def waits_ok_def timers_ok_def list_all_iff
        AList.delete_eq distinct_map_filter)
  from this [OF stop_timer_inv [OF assms(2)]] Close assms(2) show ?thesis
    by (auto simp: close_timer_def Let_def split: option.split)
next
  case Stop_All
  have "next_ref (fold (\<lambda>(i, r). stop_timer r) xs s) = next_ref s" for xs :: "(u32 \<times> nat) list"
    by (induction xs arbitrary: s) auto
  with Stop_All stop_all_inv [OF assms(2)] show ?thesis by (simp add: stop_all_timer_def)
qed (use assms run_func_inv [OF assms] in \<open>auto simp: start_timer_id_def auto_start_timer_def stop_timer_id_def
  invoke_timer_id_def invoke_timer_def stop_timer_inv intro!: start_timer_inv tm_inv_lookup
  split: option.split\<close>)

lemma tm_env_inv:
  assumes "tm_env call s t" "call_ok call" "tm_inv s"
  shows "tm_inv t \<and> next_ref s \<le> next_ref t"
  using assms(1)
proof cases
  case (tick d)
  then show ?thesis using assms(3) by (simp add: tm_inv_def waits_ok_def timers_ok_def)
next
  case (expire xs w ys)
  have "length (pending r (xs @ w\<lparr>tw_state := Ready\<rparr> # ys)) \<le> length (pending r (xs @ w # ys))" for r
    by (simp add: pending_Cons)
  moreover have "length (pending r (xs @ w # ys)) \<le> 1" for r
    using assms(3) by (simp add: tm_inv_def waits_ok_def expire(2) [symmetric])
  ultimately have "length (pending r (xs @ w\<lparr>tw_state := Ready\<rparr> # ys)) \<le> 1" for r by (rule le_trans)
  then show ?thesis using assms(3) by (simp add: tm_inv_def waits_ok_def timers_ok_def expire)
next
  case (run xs w ys)
  let ?s = "s\<lparr>waits := xs @ ys\<rparr>"
  have "pending r (waits s) = pending r (xs @ ys)" for r using run(2,3) by (simp add: pending_Cons)
  then have "tm_inv ?s" "tw_ref w < next_ref ?s" using assms(3) run(2)
    by (simp_all add: tm_inv_def waits_ok_def timers_ok_def)
  from timer_handler_inv [OF assms(2) this] run show ?thesis by simp
qed

lemma tm_step_inv: "tm_step call s t \<Longrightarrow> call_ok call \<Longrightarrow> tm_inv s \<Longrightarrow> tm_inv t \<and> next_ref s \<le> next_ref t"
  by (auto elim!: tm_step.cases dest: tm_env_inv tm_op_inv)

lemma tm_new_inv: "tm_inv (tm_new now)"
  by (simp add: tm_inv_def waits_ok_def timers_ok_def tm_new_def pending_def)

lemma tm_reach_inv: "(tm_step call)\<^sup>*\<^sup>* s t \<Longrightarrow> call_ok call \<Longrightarrow> tm_inv s \<Longrightarrow> tm_inv t"
  by (induction rule: rtranclp_induct) (auto dest: tm_step_inv)

section \<open>A stopped timer\<close>

definition firings :: "nat \<Rightarrow> tm \<Rightarrow> (nat \<times> int) list" where
  "firings h s = filter (\<lambda>p. fst p = h) (fired s)"

text \<open>Functions that leave the stopped timer \<open>h\<close> alone.\<close>

definition call_leaves :: "timer_call \<Rightarrow> nat \<Rightarrow> bool" where
  "call_leaves call h \<longleftrightarrow> (\<forall>f s. ti_status (infos s h) = Timer_Canceled \<longrightarrow>
     ti_status (infos (snd (call f s)) h) = Timer_Canceled \<and> firings h (snd (call f s)) = firings h s)"

text \<open>Steps in which nobody explicitly starts or invokes \<open>h\<close>; the automatic start of a proxy that
  goes out of scope is allowed.\<close>

inductive other_step :: "timer_call \<Rightarrow> nat \<Rightarrow> tm \<Rightarrow> tm \<Rightarrow> bool" for call h where
  other_env: "tm_env call s t \<Longrightarrow> other_step call h s t"
| other_op: "(\<And>i. p = Start i \<or> p = Invoke i \<Longrightarrow> map_of (timers s) i \<noteq> Some h) \<Longrightarrow>
    other_step call h s (tm_op call p s)"

lemma other_step_tm_step: "other_step call h s t \<Longrightarrow> tm_step call s t"
  by (auto elim!: other_step.cases intro: tm_step.intros)

definition silent :: "nat \<Rightarrow> (nat \<times> int) list \<Rightarrow> tm \<Rightarrow> bool" where
  "silent h xs s \<longleftrightarrow> ti_status (infos s h) = Timer_Canceled \<and> firings h s = xs"

lemma silent_start: "silent h xs s \<Longrightarrow> q \<noteq> h \<Longrightarrow> silent h xs (start_timer q s)"
  by (simp add: silent_def firings_def)

lemma silent_stop: "silent h xs s \<Longrightarrow> silent h xs (stop_timer q s)"
  by (cases "q = h") (simp_all add: silent_def firings_def)

lemma silent_stop_all: "silent h xs s \<Longrightarrow> silent h xs (fold (\<lambda>(i, r). stop_timer r) ts s)"
  by (induction ts arbitrary: s) (auto simp: silent_stop)

lemma silent_run:
  assumes "silent h xs s" "call_leaves call h" "q \<noteq> h"
  shows "silent h xs (snd (run_func call q s))"
proof -
  have "silent h xs (snd (call f (s\<lparr>fired := fired s @ [(q, now_ms s)]\<rparr>)))" for f
    using assms(2) [unfolded call_leaves_def, rule_format, of "s\<lparr>fired := fired s @ [(q, now_ms s)]\<rparr>" f] assms(1,3)
    by (simp add: silent_def firings_def)
  with assms(1) show ?thesis by (simp add: run_func_def Let_def split: timer_func.split)
qed

lemma silent_handler:
  assumes "silent h xs s" "call_leaves call h"
  shows "silent h xs (timer_handler call ec q s)"
proof (cases "q = h")
  case True
  then show ?thesis using assms by (simp add: timer_handler_def silent_def)
next
  case False
  obtain c s1 where r: "run_func call q s = (c, s1)" by fastforce
  with silent_run [OF assms False] have "silent h xs s1" by simp
  with r assms False show ?thesis by (simp add: timer_handler_def silent_start)
qed

lemma silent_env:
  assumes "tm_env call s t" "call_leaves call h" "silent h xs s"
  shows "silent h xs t"
  using assms(1)
proof cases
  case (run ys w zs)
  have "silent h xs (s\<lparr>waits := ys @ zs\<rparr>)" using assms(3) by (simp add: silent_def firings_def)
  with silent_handler assms(2) run show ?thesis by simp
qed (use assms(3) in \<open>simp_all add: silent_def firings_def\<close>)

lemma silent_op:
  assumes p: "\<And>i. p = Start i \<or> p = Invoke i \<Longrightarrow> map_of (timers s) i \<noteq> Some h"
    and "call_leaves call h" "silent h xs s" "h < next_ref s"
  shows "silent h xs (tm_op call p s)"
proof (cases p)
  case (Close i)
  have "silent h xs (t\<lparr>timers := ts\<rparr>)" if "silent h xs t" for t ts
    using that by (simp add: silent_def firings_def)
  from this [OF silent_stop [OF assms(3)]] assms(3) Close show ?thesis
    by (auto simp: close_timer_def Let_def split: option.split)
next
  case (Auto_Start i)
  then show ?thesis using assms(3)
    by (auto simp: auto_start_timer_def silent_def firings_def split: option.split)
      (metis start_timer_frame(4))
next
  case (Start i)
  then show ?thesis using assms(3) p [of i] silent_start
    by (auto simp: start_timer_id_def split: option.split)
next
  case (Invoke i)
  then show ?thesis using assms(3) p [of i] silent_run [OF assms(3,2)]
    by (auto simp: invoke_timer_id_def invoke_timer_def split: option.split)
next
  case Stop_All
  then show ?thesis using silent_stop_all [OF assms(3)] by (simp add: stop_all_timer_def)
qed (use assms(3,4) silent_stop in \<open>auto simp: stop_timer_id_def set_timer_def set_fix_timer_def create_timer_def Let_def silent_def firings_def split: option.split\<close>)

lemma silent_reach:
  assumes "(other_step call h)\<^sup>*\<^sup>* s t" "call_ok call" "call_leaves call h" "tm_inv s" "h < next_ref s" "silent h xs s"
  shows "silent h xs t \<and> tm_inv t \<and> h < next_ref t"
  using assms(1)
proof (induction rule: rtranclp_induct)
  case base
  show ?case using assms by simp
next
  case (step t u)
  then have "silent h xs u" using assms(3)
    by (auto elim!: other_step.cases intro: silent_env silent_op)
  with tm_step_inv [OF other_step_tm_step [OF step(2)] assms(2)] step.IH show ?case by fastforce
qed

section \<open>Properties\<close>

text \<open>
  In every reachable state of the manager each timer has at most one wait pending with the
  clock, that wait is for the time the timer was last set to, and the map leads from an id to the
  timer that carries it: starting a timer again replaces its wait instead of adding one.
\<close>

theorem one_pending_wait:
  assumes "call_ok call" "(tm_step call)\<^sup>*\<^sup>* (tm_new now) s"
  shows "length (filter (\<lambda>w. tw_ref w = r \<and> tw_state w = Pending) (waits s)) \<le> 1 \<and>
    list_all (\<lambda>w. tw_state w = Pending \<longrightarrow> tw_deadline w = expiry s (tw_ref w)) (waits s) \<and>
    (map_of (timers s) i = Some r \<longrightarrow> ti_id (infos s r) = i)"
proof -
  have inv: "tm_inv s" using tm_reach_inv [OF assms(2,1) tm_new_inv] .
  then have "length (pending r (waits s)) \<le> 1" "list_all (\<lambda>w. tw_state w = Pending \<longrightarrow> tw_deadline w = expiry s (tw_ref w)) (waits s)"
    by (simp_all add: tm_inv_def waits_ok_def list_all_iff)
  moreover have "ti_id (infos s r) = i" if "map_of (timers s) i = Some r"
    using inv map_of_SomeD [OF that] by (auto simp: tm_inv_def timers_ok_def list_all_iff)
  ultimately show ?thesis by (simp add: pending_def)
qed

lemma call_ok_stop: "call_ok (\<lambda>f s. (True, stop_timer_id i s))"
  by (auto simp: call_ok_def stop_timer_id_def stop_timer_inv split: option.split)

theorem one_pending_wait_witness:
  "\<exists>s :: tm. waits s \<noteq> [] \<and> length (filter (\<lambda>w. tw_ref w = 0 \<and> tw_state w = Pending) (waits s)) \<le> 1"
proof -
  let ?call = "\<lambda>f s. (True, stop_timer_id 1 s)"
  let ?s1 = "tm_op ?call (Set_Timer 5 No_Func) (tm_new 100)"
  let ?s2 = "tm_op ?call (Start 1) ?s1"
  let ?s3 = "tm_op ?call (Start 1) ?s2"
  have "(tm_step ?call)\<^sup>*\<^sup>* (tm_new 100) ?s3"
    by (meson rtranclp.rtrancl_refl rtranclp.rtrancl_into_rtrancl tm_step.op)
  from one_pending_wait [OF call_ok_stop this, of 0]
  have "length (filter (\<lambda>w. tw_ref w = 0 \<and> tw_state w = Pending) (waits ?s3)) \<le> 1" by blast
  moreover have "waits ?s3 \<noteq> []"
    using start_timer_waits [of 0 "?s2"]
    by (auto simp: set_timer_def create_timer_def start_timer_id_def tm_new_def Let_def)
  ultimately show ?thesis by blast
qed



text \<open>
  A fixed timer keeps its rhythm: when the handler of a running fixed timer comes through, it
  is set again to exactly one period after the time it was set to before, however late the handler
  ran, and only if that time has passed too to the present moment; and it goes on whatever its
  function returns.
\<close>

theorem fix_timer_keeps_rhythm:
  assumes "ti_status (infos s r) = Timer_Ok" "ti_next_time (infos s r) > 0" "ti_milliseconds (infos s r) \<ge> 0"
    "run_func call r s = (c, s1)" "infos s1 r = infos s r"
  shows "filter (\<lambda>w. tw_ref w = r \<and> tw_state w = Pending) (waits (timer_handler call False r s)) =
       [\<lparr>tw_ref = r, tw_deadline = max (ti_next_time (infos s r) + ti_milliseconds (infos s r)) (now_ms s1),
         tw_state = Pending\<rparr>] \<and>
     ti_next_time (infos (timer_handler call False r s) r) =
       max (ti_next_time (infos s r) + ti_milliseconds (infos s r)) (now_ms s1)"
proof -
  have "timer_handler call False r s = start_timer r s1"
    using assms by (simp add: timer_handler_def)
  moreover have "pending r (waits (start_timer r s1)) =
      [\<lparr>tw_ref = r, tw_deadline = max (ti_next_time (infos s r) + ti_milliseconds (infos s r)) (now_ms s1),
        tw_state = Pending\<rparr>]"
    using assms by (auto simp: start_timer_def calc_next_time_def wait_defs Let_def st_set_expiry_def st_add_wait_def
        pending_Cons max_def) (simp_all add: pending_def)
  moreover have "ti_next_time (infos (start_timer r s1) r) =
      max (ti_next_time (infos s r) + ti_milliseconds (infos s r)) (now_ms s1)"
    using assms by (simp add: start_timer_def calc_next_time_def wait_defs Let_def max_def)
  ultimately show ?thesis by (simp add: pending_def)
qed

definition sample_fix :: tm where
  "sample_fix = proxy_destroy (fst (set_fix_timer 20 (User_Func 3) (tm_new 1000))) (snd (set_fix_timer 20 (User_Func 3) (tm_new 1000)))"

lemma sample_fix_info:
  "infos sample_fix 0 = \<lparr>ti_id = 1, ti_status = Timer_Ok, ti_milliseconds = 20, ti_next_time = 1040, ti_func = User_Func 3\<rparr>"
  by (simp add: sample_fix_def set_fix_timer_def create_timer_def tm_new_def proxy_destroy_def proxy_auto_start_def
      auto_start_timer_def start_timer_def calc_next_time_def wait_defs Let_def)

theorem fix_timer_keeps_rhythm_witness:
  "ti_next_time (infos (timer_handler (\<lambda>f s. (False, s)) False 0 (sample_fix\<lparr>now_ms := 1045\<rparr>)) 0) = 1060"
proof -
  let ?s = "sample_fix\<lparr>now_ms := 1045\<rparr>"
  have "run_func (\<lambda>f s. (False, s)) 0 ?s = (False, ?s\<lparr>fired := fired ?s @ [(0, 1045)]\<rparr>)"
    by (simp add: run_func_def sample_fix_info Let_def)
  from fix_timer_keeps_rhythm [OF _ _ _ this] show ?thesis by (simp add: sample_fix_info)
qed

text \<open>
  The first firing of a fixed timer comes a period late: a timer set with a period and started
  at once waits for two periods, because the creation already adds the period to the present time
  and the start adds it again.
\<close>

lemma fix_timer_first_firing_late:
  assumes "tm_inv s" "0 < milliseconds" "0 < now_ms s" "set_fix_timer milliseconds func s = (p, s1)"
  shows "\<exists>w. waits (proxy_destroy p s1) = abort_waits (next_ref s) (waits s) @ [w] \<and>
    tw_ref w = next_ref s \<and> tw_state w = Pending \<and> tw_deadline w = now_ms s + 2 * milliseconds"
  using assms by (auto simp: set_fix_timer_def create_timer_def Let_def proxy_destroy_def proxy_auto_start_def
      auto_start_timer_def start_timer_def calc_next_time_def wait_defs st_set_expiry_def st_add_wait_def update_conv')

lemma fix_timer_first_firing_late_example:
  "\<exists>w. waits (proxy_destroy \<lparr>tp_timer = True, tp_id = 1, tp_need_start = True\<rparr>
      (snd (set_fix_timer 20 No_Func (tm_new 1000)))) = [w] \<and> tw_deadline w = 1040"
  using fix_timer_first_firing_late [OF tm_new_inv, of 20 1000 No_Func "\<lparr>tp_timer = True, tp_id = 1, tp_need_start = True\<rparr>"
      "snd (set_fix_timer 20 No_Func (tm_new 1000))"]
  by (auto simp: set_fix_timer_def create_timer_def tm_new_def Let_def abort_waits_def)

text \<open>
  A timer cannot stop itself: when the function of a repeating timer stops that timer, the
  handler that called the function sets the status back and waits again.
\<close>

theorem self_stop_is_undone:
  assumes "ti_status (infos s r) = Timer_Ok" "ti_func (infos s r) = User_Func f \<or> ti_func (infos s r) = Returns True f"
    "\<And>u. call f u = (True, stop_timer r u)"
  shows "ti_status (infos (timer_handler call False r s) r) = Timer_Ok \<and>
    (\<exists>w. pending r (waits (timer_handler call False r s)) = [w]) \<and>
    fired (timer_handler call False r s) = fired s @ [(r, now_ms s)]"
proof -
  let ?s1 = "stop_timer r (s\<lparr>fired := fired s @ [(r, now_ms s)]\<rparr>)"
  have h: "timer_handler call False r s = start_timer r ?s1"
    using assms by (auto simp: timer_handler_def run_func_def Let_def)
  obtain t where "waits (start_timer r ?s1) = abort_waits r (waits ?s1) @ [\<lparr>tw_ref = r, tw_deadline = t, tw_state = Pending\<rparr>]"
    using start_timer_waits [of r ?s1] by blast
  then show ?thesis unfolding h by (simp add: pending_Cons) (simp add: pending_def)
qed

theorem self_stop_is_undone_witness:
  "ti_status (infos (timer_handler (\<lambda>f s. (True, stop_timer 0 s)) False 0 sample_fix) 0) = Timer_Ok"
  using self_stop_is_undone [of sample_fix 0 3 "\<lambda>f s. (True, stop_timer 0 s)"] by (simp add: sample_fix_info)

end
