(* ===== verification/Tcp_Connection.thy ===== *)
theory Tcp_Connection
  imports Conn_Reader Timer_Manager
begin

text \<open>
  A TCP connection, \<open>tcp_connection\<close> in \<open>src/network/net/tcp_connect.hpp\<close>: its write queue and
  batches, the calls that wait for a reply, its idle timer and its shutdown. Messages are shared
  objects, so a message is a handle into the table \<open>cn_table\<close>; the byte order of the header is
  changed there, in place, when a write starts.

  The environment is the \<open>io_service\<close> and the socket: \<open>cn_posted\<close> are the functions posted to the
  service, \<open>cn_out\<close> the writes the socket has been asked for and not completed, \<open>cn_reading\<close> whether
  a read is outstanding. The calls of the connection into its router and the resumption of waiting
  coroutines are the events \<open>cn_events\<close>; what they do to the connection goes through \<open>write\<close>,
  \<open>await_write\<close> and \<open>close\<close>, which only post, so it is a later step. \<open>cn_accepted\<close> and \<open>cn_sent\<close>
  record, for the statements, the messages taken for writing with their value at that moment and the
  bytes the completed writes have put on the socket.
\<close>

section \<open>Model\<close>

record connection_options =
  disconnect_interval :: int
  batch_send_msg :: bool

datatype write_op = Write_One nat | Write_Batch "nat list"

datatype posted = Do_Write nat | Do_Await_Write nat nat | Do_Close

datatype conn_event =
    On_Connect ec_t | On_Disconnect net_result | On_Receive_Msgs "raw_message list" | Resume nat raw_message

record conn =
  cn_options :: connection_options
  cn_received_msg :: bool
  cn_is_running :: bool
  cn_force_close :: bool
  cn_socket_open :: bool
  cn_queue :: "nat list"
  cn_batch :: "batch_msg option"
  cn_reader :: reader
  cn_timers :: tm
  cn_cur_call_id :: u32
  cn_calls :: "(u32 \<times> nat) list"
  cn_table :: "nat \<Rightarrow> raw_message"
  cn_posted :: "posted list"
  cn_out :: "write_op list"
  cn_reading :: bool
  cn_events :: "conn_event list"
  cn_accepted :: "(nat \<times> raw_message) list"
  cn_sent :: bytes

definition cn_event :: "conn_event \<Rightarrow> conn \<Rightarrow> conn" where
  "cn_event e c = c\<lparr>cn_events := cn_events c @ [e]\<rparr>"

subsection \<open>Errors, timers, closing\<close>

definition cn_stop_timer :: "conn \<Rightarrow> conn" where
  "cn_stop_timer c = c\<lparr>cn_timers := stop_all_timer (cn_timers c)\<rparr>"

definition cn_start_timer :: "conn \<Rightarrow> conn" where
  "cn_start_timer c =
     (let timeout = disconnect_interval (cn_options c)
      in if timeout > 0
         then (let (p, t) = set_auto_timer (timeout * 1000) 0 (cn_timers c) in c\<lparr>cn_timers := proxy_destroy p t\<rparr>)
         else c)"

definition cn_on_error :: "net_result \<Rightarrow> conn \<Rightarrow> conn" where
  "cn_on_error err c =
     (if \<not> cn_is_running c then c
      else cn_event (On_Disconnect err) (cn_stop_timer (c\<lparr>cn_is_running := False\<rparr>)))"

definition cn_on_error_sys :: "ec_t \<Rightarrow> error_code \<Rightarrow> conn \<Rightarrow> conn" where
  "cn_on_error_sys ec err = cn_on_error (net_result_code_sys err ec)"

definition cn_handle_timer :: "conn \<Rightarrow> conn" where
  "cn_handle_timer c = (if \<not> cn_received_msg c then cn_on_error (net_result_code EC_timeout) c else c)"

definition cn_do_close :: "conn \<Rightarrow> conn" where
  "cn_do_close c =
     (if cn_force_close c then c
      else (cn_stop_timer c)\<lparr>cn_socket_open := False, cn_queue := [], cn_force_close := True, cn_is_running := False\<rparr>)"

definition cn_close :: "conn \<Rightarrow> conn" where
  "cn_close c = (if \<not> cn_force_close c then c\<lparr>cn_posted := cn_posted c @ [Do_Close]\<rparr> else c)"

text \<open>The destructor: \<open>close\<close> asks for a shared pointer to an object that has none left.\<close>

datatype conn_error = Bad_Weak_Ptr

definition cn_destroy :: "conn \<Rightarrow> conn_error + conn" where
  "cn_destroy c =
     (let c1 = cn_stop_timer c in if \<not> cn_force_close c1 then Inl Bad_Weak_Ptr else Inr c1)"

subsection \<open>Writing\<close>

fun fill_batch :: "(nat \<Rightarrow> raw_message) \<Rightarrow> nat list \<Rightarrow> batch_msg \<Rightarrow> nat list \<times> batch_msg" where
  "fill_batch tab [] b = ([], b)"
| "fill_batch tab (m # q) b =
     (let (ok, b1) = batch_add_msg tab m b in if ok then fill_batch tab q b1 else (m # q, b1))"

definition cn_async_write_msg :: "bool \<Rightarrow> conn \<Rightarrow> conn" where
  "cn_async_write_msg be c =
     (if cn_queue c = [] then c
      else if \<not> batch_send_msg (cn_options c) \<or> length (cn_queue c) = 1 then
        (let m = hd (cn_queue c)
         in c\<lparr>cn_table := (cn_table c)(m := rm_hton be (cn_table c m)), cn_out := cn_out c @ [Write_One m]\<rparr>)
      else
        (let (q, b) = fill_batch (cn_table c) (cn_queue c) batch_default;
             c1 = c\<lparr>cn_queue := q, cn_batch := Some b\<rparr>
         in if batch_empty b then cn_on_error (net_result_code EC_send_error) c1
            else c1\<lparr>cn_table := batch_hton be b (cn_table c1), cn_out := cn_out c1 @ [Write_Batch (bt_msgs b)]\<rparr>))"

definition cn_do_write :: "bool \<Rightarrow> nat \<Rightarrow> conn \<Rightarrow> conn" where
  "cn_do_write be m c =
     (if \<not> cn_is_running c then c
      else
        (let write_in_progress = (\<not> (cn_queue c = [] \<and> cn_batch c = None));
             c1 = c\<lparr>cn_queue := cn_queue c @ [m], cn_accepted := cn_accepted c @ [(m, cn_table c m)]\<rparr>
         in if write_in_progress then c1 else cn_async_write_msg be c1))"

text \<open>Giving a message its call id and entering the waiting handler under it; an id that is
  already waited for keeps its handler, as \<open>emplace\<close> does.\<close>

definition cn_register_call :: "nat \<Rightarrow> nat \<Rightarrow> conn \<Rightarrow> conn" where
  "cn_register_call m handler c =
     (let c1 = (if call_id (rm_header (cn_table c m)) \<le> 0
                then c\<lparr>cn_cur_call_id := cn_cur_call_id c + 1,
                       cn_table := (cn_table c)(m := (cn_table c m)\<lparr>rm_header :=
                          (rm_header (cn_table c m))\<lparr>call_id := cn_cur_call_id c + 1\<rparr>\<rparr>)\<rparr>
                else c);
          i = call_id (rm_header (cn_table c1 m))
      in if map_of (cn_calls c1) i = None then c1\<lparr>cn_calls := cn_calls c1 @ [(i, handler)]\<rparr> else c1)"

definition cn_do_await_write :: "bool \<Rightarrow> nat \<Rightarrow> nat \<Rightarrow> conn \<Rightarrow> conn" where
  "cn_do_await_write be m handler c =
     (if \<not> cn_is_running c then c else cn_do_write be m (cn_register_call m handler c))"

definition cn_write :: "nat \<Rightarrow> conn \<Rightarrow> conn" where
  "cn_write m c = (if \<not> cn_is_running c then c else c\<lparr>cn_posted := cn_posted c @ [Do_Write m]\<rparr>)"

text \<open>Called in a coroutine: the result says whether the coroutine is suspended until it is resumed
  with a message, or goes on at once without one.\<close>

definition cn_await_write :: "nat \<Rightarrow> nat \<Rightarrow> conn \<Rightarrow> bool \<times> conn" where
  "cn_await_write m handler c =
     (if \<not> cn_is_running c then (False, c)
      else (True, c\<lparr>cn_posted := cn_posted c @ [Do_Await_Write m handler]\<rparr>))"

definition cn_handle_write :: "bool \<Rightarrow> ec_t \<Rightarrow> nat \<Rightarrow> conn \<Rightarrow> conn" where
  "cn_handle_write be err m c =
     (if \<not> cn_is_running c then c
      else if ec_value err \<noteq> 0 then cn_on_error_sys err EC_send_error c
      else cn_async_write_msg be
             (c\<lparr>cn_table := (cn_table c)(m := rm_ntoh be (cn_table c m)), cn_queue := tl (cn_queue c)\<rparr>))"

definition cn_handle_write_batch :: "bool \<Rightarrow> ec_t \<Rightarrow> conn \<Rightarrow> conn" where
  "cn_handle_write_batch be err c =
     (if \<not> cn_is_running c then c
      else if ec_value err \<noteq> 0 then cn_on_error_sys err EC_send_error c
      else cn_async_write_msg be (c\<lparr>cn_batch := None\<rparr>))"

subsection \<open>Reading\<close>

definition cn_async_sequence_read :: "conn \<Rightarrow> conn" where
  "cn_async_sequence_read c =
     (if \<not> cn_is_running c then c
      else
        (let (n, r) = prepare_next_recv (cn_reader c); c1 = c\<lparr>cn_reader := r\<rparr>
         in if n > 0 then c1\<lparr>cn_received_msg := True, cn_reading := True\<rparr> else c1))"

text \<open>The messages of one read: a message whose call id is waited for resumes the waiting call, the
  others go to the router together.\<close>

primrec match_calls :: "raw_message list \<Rightarrow> (u32 \<times> nat) list \<Rightarrow>
    (nat \<times> raw_message) list \<times> raw_message list \<times> (u32 \<times> nat) list" where
  "match_calls [] calls = ([], [], calls)"
| "match_calls (m # ms) calls =
     (let i = call_id (rm_header m) in
      case (if i > 0 then map_of calls i else None) of
        Some h \<Rightarrow> (let (rs, ns, cs) = match_calls ms (AList.delete i calls) in ((h, m) # rs, ns, cs))
      | None \<Rightarrow> (let (rs, ns, cs) = match_calls ms calls in (rs, m # ns, cs)))"

definition cn_on_receive_msgs :: "raw_message list \<Rightarrow> conn \<Rightarrow> conn" where
  "cn_on_receive_msgs ms c =
     (let (rs, ns, cs) = match_calls ms (cn_calls c);
          c1 = c\<lparr>cn_received_msg := (cn_received_msg c \<or> ms \<noteq> []), cn_calls := cs,
                 cn_events := cn_events c @ map (\<lambda>(h, m). Resume h m) rs\<rparr>
      in if ns \<noteq> [] then cn_event (On_Receive_Msgs ns) (c1\<lparr>cn_received_msg := True\<rparr>) else c1)"

definition cn_handle_sequence_read :: "bool \<Rightarrow> ec_t \<Rightarrow> nat \<Rightarrow> conn \<Rightarrow> conn" where
  "cn_handle_sequence_read be err bytes_transfered c =
     (if ec_value err \<noteq> 0 \<or> bytes_transfered = 0 \<or> \<not> reader_is_valid (cn_reader c)
      then cn_on_error_sys err EC_recv_error c
      else
        (let (has_msg, r) = parse be bytes_transfered (cn_reader c);
             c1 = (if has_msg then cn_on_receive_msgs (msg_list r) (c\<lparr>cn_reader := r\<rparr>)
                   else c\<lparr>cn_reader := reader_reset r\<rparr>)
         in if overlapped r then c\<lparr>cn_reader := r\<rparr> else cn_async_sequence_read c1))"

subsection \<open>Starting\<close>

definition cn_new :: "connection_options \<Rightarrow> (nat \<Rightarrow> raw_message) \<Rightarrow> int \<Rightarrow> conn" where
  "cn_new opts tab now =
     \<lparr>cn_options = opts, cn_received_msg = False, cn_is_running = False, cn_force_close = False,
      cn_socket_open = False, cn_queue = [], cn_batch = None,
      cn_reader = \<lparr>buff = replicate CLIENT_MSG_BUFF_MAX 0, rd_header = mh_zero, cur_len = npos, remain_len = 0,
         cur_index = 0, msg_list = [], valid_flag = True, overlapped = False\<rparr>,
      cn_timers = tm_new now, cn_cur_call_id = 0, cn_calls = [], cn_table = tab, cn_posted = [], cn_out = [],
      cn_reading = False, cn_events = [], cn_accepted = [], cn_sent = []\<rparr>"

definition cn_reset_state :: "conn \<Rightarrow> conn" where
  "cn_reset_state c =
     c\<lparr>cn_received_msg := False, cn_is_running := True, cn_force_close := False, cn_queue := [],
       cn_reader := reader_reset (cn_reader c), cn_batch := None\<rparr>"

definition cn_start :: "ec_t \<Rightarrow> conn \<Rightarrow> bool \<times> conn" where
  "cn_start ec c =
     (if ec_value ec \<noteq> 0 then (False, c)
      else (True, cn_start_timer (cn_async_sequence_read (cn_reset_state c))))"

definition cn_handle_connect :: "ec_t \<Rightarrow> ec_t \<Rightarrow> conn \<Rightarrow> conn" where
  "cn_handle_connect err remote c = cn_event (On_Connect err) (snd (cn_start remote c))"

text \<open>The address a connection dials, and the two ways of dialling. \<open>ec\<close> is what the socket says.\<close>

definition connect_host :: "string \<Rightarrow> string" where
  "connect_host host = (if host = ''0.0.0.0'' then ''127.0.0.1'' else host)"

definition cn_connect :: "ec_t \<Rightarrow> ec_t \<Rightarrow> conn \<Rightarrow> net_result \<times> conn" where
  "cn_connect ec remote c =
     (let c1 = c\<lparr>cn_socket_open := True\<rparr>
      in (net_result_sys ec, if ec_value ec = 0 then snd (cn_start remote c1) else c1))"

definition cn_async_connect :: "conn \<Rightarrow> bool \<times> conn" where
  "cn_async_connect c = (if cn_is_running c then (False, c) else (True, c\<lparr>cn_socket_open := True\<rparr>))"

subsection \<open>Runs\<close>

definition op_bytes :: "(nat \<Rightarrow> raw_message) \<Rightarrow> write_op \<Rightarrow> bytes" where
  "op_bytes tab w =
     (case w of Write_One m \<Rightarrow> rm_to_buffers (tab m) | Write_Batch ms \<Rightarrow> concat (map (\<lambda>m. rm_to_buffers (tab m)) ms))"

definition cn_complete_write :: "bool \<Rightarrow> ec_t \<Rightarrow> write_op \<Rightarrow> conn \<Rightarrow> conn" where
  "cn_complete_write be err w c =
     (case w of Write_One m \<Rightarrow> cn_handle_write be err m c | Write_Batch ms \<Rightarrow> cn_handle_write_batch be err c)"

definition cn_run_posted :: "bool \<Rightarrow> posted \<Rightarrow> conn \<Rightarrow> conn" where
  "cn_run_posted be p c =
     (case p of Do_Write m \<Rightarrow> cn_do_write be m c | Do_Await_Write m h \<Rightarrow> cn_do_await_write be m h c
      | Do_Close \<Rightarrow> cn_do_close c)"

text \<open>
  One step of a connection that has been started; it is used once, for a reconnect starts it again.
  A read ends with whatever the socket has put into the reader. Once a copy of the rest of a
  read has overlapped nothing is known of the program, and the connection takes no step.
\<close>

inductive cn_step :: "bool \<Rightarrow> conn \<Rightarrow> conn \<Rightarrow> bool" for be where
  cs_write: "\<not> overlapped (cn_reader c) \<Longrightarrow> cn_step be c (cn_write m c)"
| cs_await: "\<not> overlapped (cn_reader c) \<Longrightarrow> cn_step be c (snd (cn_await_write m h c))"
| cs_close: "\<not> overlapped (cn_reader c) \<Longrightarrow> cn_step be c (cn_close c)"
| cs_posted: "\<not> overlapped (cn_reader c) \<Longrightarrow> cn_posted c = p # ps \<Longrightarrow> cn_step be c (cn_run_posted be p (c\<lparr>cn_posted := ps\<rparr>))"
| cs_written: "\<not> overlapped (cn_reader c) \<Longrightarrow> cn_out c = w # ws \<Longrightarrow>
    cn_step be c (cn_complete_write be ec_success w
      (c\<lparr>cn_out := ws, cn_sent := cn_sent c @ op_bytes (cn_table c) w\<rparr>))"
| cs_write_failed: "\<not> overlapped (cn_reader c) \<Longrightarrow> cn_out c = w # ws \<Longrightarrow> ec_value err \<noteq> 0 \<Longrightarrow>
    cn_step be c (cn_complete_write be err w (c\<lparr>cn_out := ws\<rparr>))"
| cs_read: "\<not> overlapped (cn_reader c) \<Longrightarrow> cn_reading c \<Longrightarrow>
    cn_step be c (cn_handle_sequence_read be err n (c\<lparr>cn_reading := False, cn_reader := r\<rparr>))"
| cs_timer: "\<not> overlapped (cn_reader c) \<Longrightarrow> cn_step be c (cn_handle_timer c)"

section \<open>Writes are ordered\<close>

text \<open>
  The messages accepted so far fall into those completely written, those of the write in progress,
  whose headers are in network order, and those that wait, untouched. While the connection runs, the
  queue and the batch mirror that split.
\<close>

primrec op_msgs :: "write_op \<Rightarrow> nat list" where
  "op_msgs (Write_One m) = [m]"
| "op_msgs (Write_Batch ms) = ms"

definition queue_mirrors :: "conn \<Rightarrow> (nat \<times> raw_message) list \<Rightarrow> bool" where
  "queue_mirrors c rest \<longleftrightarrow>
     (case cn_out c of
        [] \<Rightarrow> cn_queue c = [] \<and> cn_batch c = None \<and> rest = []
      | w # _ \<Rightarrow> (case w of Write_One m \<Rightarrow> cn_queue c = m # map fst rest \<and> cn_batch c = None
                  | Write_Batch ms \<Rightarrow> cn_queue c = map fst rest \<and> cn_batch c \<noteq> None))"

definition cn_split :: "bool \<Rightarrow> conn \<Rightarrow> (nat \<times> raw_message) list \<Rightarrow> (nat \<times> raw_message) list \<Rightarrow>
    (nat \<times> raw_message) list \<Rightarrow> bool" where
  "cn_split be c dn fl rest \<longleftrightarrow>
     cn_accepted c = dn @ fl @ rest \<and> cn_sent c = concat (map (\<lambda>p. wire_bytes be (snd p)) dn) \<and>
     list_all (\<lambda>p. cn_table c (fst p) = rm_hton be (snd p)) fl \<and>
     length (cn_out c) \<le> 1 \<and> map fst fl = concat (map op_msgs (cn_out c)) \<and>
     (cn_is_running c \<longrightarrow> queue_mirrors c rest \<and> list_all (\<lambda>p. cn_table c (fst p) = snd p) rest)"

lemma fill_batch_unbounded:
  "bt_capacity b = 0 \<Longrightarrow> bt_length_capacity b = 0 \<Longrightarrow>
   \<exists>b'. fill_batch tab q b = ([], b') \<and> bt_msgs b' = bt_msgs b @ q"
proof (induction q arbitrary: b)
  case (Cons m q)
  from Cons.IH [of "snd (batch_add_msg tab m b)"] Cons.prems show ?case
    by (simp add: batch_add_msg_def batch_full_def batch_length_full_def)
qed simp

lemma map_msgs_all:
  assumes "distinct (map fst (xs @ ys))" "list_all (\<lambda>p. tab (fst p) = snd p) (xs @ ys)"
  shows "list_all (\<lambda>p. map_msgs f (map fst xs) tab (fst p) = f (snd p)) xs"
    "list_all (\<lambda>p. map_msgs f (map fst xs) tab (fst p) = snd p) ys"
proof -
  have d: "distinct (map fst xs)" using assms(1) by simp
  have "map_msgs f (map fst xs) tab (fst p) = f (snd p)" if "p \<in> set xs" for p
    using map_msgs_in [OF d, of "fst p"] that assms(2) by (simp add: list_all_iff)
  then show "list_all (\<lambda>p. map_msgs f (map fst xs) tab (fst p) = f (snd p)) xs" by (simp add: list_all_iff)
  have "map_msgs f (map fst xs) tab (fst p) = snd p" if "p \<in> set ys" for p
  proof -
    have "fst p \<notin> set (map fst xs)" using assms(1) that by (fastforce simp: image_iff)
    then show ?thesis using that assms(2) by (simp add: map_msgs_notin list_all_iff)
  qed
  then show "list_all (\<lambda>p. map_msgs f (map fst xs) tab (fst p) = snd p) ys" by (simp add: list_all_iff)
qed

text \<open>Starting the next write on an idle connection, with the accepted messages \<open>rest\<close> waiting.\<close>

lemma async_write_split:
  assumes idle: "cn_out c = []" "cn_batch c = None" "cn_is_running c"
    and acc: "cn_accepted c = dn @ rest" "cn_queue c = map fst rest" "distinct (map fst rest)"
    and val: "cn_sent c = concat (map (\<lambda>p. wire_bytes be (snd p)) dn)" "list_all (\<lambda>p. cn_table c (fst p) = snd p) rest"
  shows "\<exists>fl rest'. cn_split be (cn_async_write_msg be c) dn fl rest' \<and> cn_is_running (cn_async_write_msg be c)"
proof (cases "rest = []")
  case True
  then have "cn_async_write_msg be c = c" using acc by (simp add: cn_async_write_msg_def)
  then show ?thesis using assms True
    by (intro exI [of _ "[]"]) (simp add: cn_split_def queue_mirrors_def)
next
  case False
  then obtain p rest' where r: "rest = [p] @ rest'" by (cases rest) auto
  show ?thesis
  proof (cases "\<not> batch_send_msg (cn_options c) \<or> length (cn_queue c) = 1")
    case True
    have "cn_split be (cn_async_write_msg be c) dn [p] rest'"
      using map_msgs_all [where xs = "[p]" and ys = rest' and f = "rm_hton be"] assms True
      by (auto simp: cn_split_def cn_async_write_msg_def queue_mirrors_def r Let_def)
    moreover have "cn_is_running (cn_async_write_msg be c)"
      using True idle by (simp add: cn_async_write_msg_def Let_def)
    ultimately show ?thesis by blast
  next
    case False
    obtain b where b: "fill_batch (cn_table c) (map fst rest) batch_default = ([], b)" "bt_msgs b = map fst rest"
      using fill_batch_unbounded [of batch_default "cn_table c" "map fst rest"]
      by (auto simp: batch_default_def batch_new_def)
    let ?c = "cn_async_write_msg be c"
    have c: "?c = c\<lparr>cn_queue := [], cn_batch := Some b, cn_table := map_msgs (rm_hton be) (map fst rest) (cn_table c),
        cn_out := [Write_Batch (map fst rest)]\<rparr>"
      using False b acc(2) idle(1) by (simp add: cn_async_write_msg_def batch_empty_def batch_hton_def r)
    have "cn_split be ?c dn rest []"
      unfolding c using map_msgs_all [where xs = rest and ys = "[]" and f = "rm_hton be"] assms
      by (auto simp: cn_split_def queue_mirrors_def)
    then show ?thesis using idle(3) by (auto simp: c)
  qed
qed

definition cn_ok :: "bool \<Rightarrow> conn \<Rightarrow> bool" where
  "cn_ok be c \<longleftrightarrow> (\<exists>dn fl rest. cn_split be c dn fl rest)"

text \<open>Operations that do not write keep the split; some of them end the connection.\<close>

definition no_write :: "conn \<Rightarrow> conn \<Rightarrow> bool" where
  "no_write c t \<longleftrightarrow> cn_accepted t = cn_accepted c \<and> cn_sent t = cn_sent c \<and> cn_table t = cn_table c \<and>
     cn_out t = cn_out c \<and>
     (cn_is_running t \<longrightarrow> cn_is_running c \<and> cn_queue t = cn_queue c \<and> cn_batch t = cn_batch c)"

lemma no_write_ok: "no_write c t \<Longrightarrow> cn_ok be c \<Longrightarrow> cn_ok be t"
  unfolding cn_ok_def cn_split_def no_write_def queue_mirrors_def
  by (elim ex_forward) (auto cong: list.case_cong write_op.case_cong)

lemma no_write_accepted: "no_write c t \<Longrightarrow> \<exists>xs. cn_accepted t = cn_accepted c @ xs"
  by (simp add: no_write_def)

lemma no_write_trans: "no_write a b \<Longrightarrow> no_write b c \<Longrightarrow> no_write a c"
  by (auto simp: no_write_def)

lemma no_write_simple [simp]:
  "no_write c (cn_on_error err c)" "no_write c (cn_on_error_sys ec e c)" "no_write c (cn_handle_timer c)"
  "no_write c (cn_do_close c)" "no_write c (cn_close c)" "no_write c (cn_write m c)"
  "no_write c (snd (cn_await_write m h c))" "no_write c (cn_async_sequence_read c)"
  "no_write c (cn_on_receive_msgs ms c)" "no_write c (cn_start_timer c)" "no_write c c"
  by (auto simp: no_write_def cn_on_error_def cn_on_error_sys_def cn_handle_timer_def cn_do_close_def cn_close_def
      cn_write_def cn_await_write_def cn_async_sequence_read_def cn_on_receive_msgs_def cn_start_timer_def
      cn_stop_timer_def cn_event_def Let_def split: prod.split)

lemma no_write_read: "no_write c (cn_handle_sequence_read be err n (c\<lparr>cn_reading := x, cn_reader := r\<rparr>))"
proof -
  obtain b r1 where p: "parse be n r = (b, r1)" by fastforce
  have set: "no_write c (c\<lparr>cn_reading := x, cn_reader := q\<rparr>)" for q by (simp add: no_write_def)
  have "no_write c (cn_async_sequence_read (cn_on_receive_msgs ms (c\<lparr>cn_reading := x, cn_reader := q\<rparr>)))" for ms q
    using no_write_trans [OF no_write_trans [OF set [of q] no_write_simple(9) [where ms = ms]] no_write_simple(8)] .
  then show ?thesis
    using no_write_trans [OF set, of r] no_write_trans [OF set, of "reader_reset r1"] set [of r1] p
    by (simp add: cn_handle_sequence_read_def)
qed

lemma do_write_ok:
  assumes "cn_ok be c" "distinct (map fst (cn_accepted (cn_do_write be m c)))"
  shows "cn_ok be (cn_do_write be m c)"
proof (cases "cn_is_running c")
  case False
  then show ?thesis using assms by (simp add: cn_do_write_def)
next
  case run: True
  from assms obtain dn fl rest where sp: "cn_split be c dn fl rest" by (auto simp: cn_ok_def)
  let ?c = "c\<lparr>cn_queue := cn_queue c @ [m], cn_accepted := cn_accepted c @ [(m, cn_table c m)]\<rparr>"
  show ?thesis
  proof (cases "cn_out c")
    case Nil
    then have idle: "cn_queue c = []" "cn_batch c = None" "rest = []" "fl = []"
      using sp run by (auto simp: cn_split_def queue_mirrors_def)
    have "cn_do_write be m c = cn_async_write_msg be ?c"
      using run idle by (simp add: cn_do_write_def)
    moreover have "\<exists>fl rest'. cn_split be (cn_async_write_msg be ?c) dn fl rest' \<and> cn_is_running (cn_async_write_msg be ?c)"
      by (rule async_write_split [where rest = "[(m, cn_table c m)]"])
        (use sp idle Nil run in \<open>auto simp: cn_split_def\<close>)
    ultimately show ?thesis by (auto simp: cn_ok_def)
  next
    case (Cons w ws)
    then have "\<not> (cn_queue c = [] \<and> cn_batch c = None)"
      using sp run by (auto simp: cn_split_def queue_mirrors_def split: write_op.splits)
    then have "cn_do_write be m c = ?c" using run by (simp add: cn_do_write_def)
    moreover have "cn_split be ?c dn fl (rest @ [(m, cn_table c m)])"
      using sp run Cons by (auto simp: cn_split_def queue_mirrors_def split: write_op.splits)
    ultimately show ?thesis by (auto simp: cn_ok_def)
  qed
qed

lemma async_write_accepted [simp]: "cn_accepted (cn_async_write_msg be c) = cn_accepted c"
  by (simp add: cn_async_write_msg_def cn_on_error_def cn_event_def cn_stop_timer_def Let_def split: prod.split)

lemma do_write_accepted: "cn_is_running c \<Longrightarrow> cn_accepted (cn_do_write be m c) = cn_accepted c @ [(m, cn_table c m)]"
  by (simp add: cn_do_write_def Let_def)

lemma register_call_frame [simp]:
  "cn_accepted (cn_register_call m h c) = cn_accepted c" "cn_sent (cn_register_call m h c) = cn_sent c"
  "cn_out (cn_register_call m h c) = cn_out c" "cn_queue (cn_register_call m h c) = cn_queue c"
  "cn_batch (cn_register_call m h c) = cn_batch c" "cn_is_running (cn_register_call m h c) = cn_is_running c"
  "q \<noteq> m \<Longrightarrow> cn_table (cn_register_call m h c) q = cn_table c q"
  by (simp_all add: cn_register_call_def Let_def)

lemma register_call_split:
  assumes "cn_split be c dn fl rest" "m \<notin> fst ` set (cn_accepted c)"
  shows "cn_split be (cn_register_call m h c) dn fl rest"
proof -
  have "fst p \<noteq> m" if "p \<in> set fl \<union> set rest" for p
    using assms that by (auto simp: cn_split_def)
  then show ?thesis using assms(1)
    by (simp add: cn_split_def queue_mirrors_def list_all_iff cong: list.case_cong write_op.case_cong)
qed

lemma do_await_write_ok:
  assumes "cn_ok be c" "distinct (map fst (cn_accepted (cn_do_await_write be m h c)))"
  shows "cn_ok be (cn_do_await_write be m h c)"
proof (cases "cn_is_running c")
  case False
  then show ?thesis using assms by (simp add: cn_do_await_write_def)
next
  case run: True
  let ?c2 = "cn_register_call m h c"
  have d: "cn_do_await_write be m h c = cn_do_write be m ?c2" and c2: "cn_is_running ?c2"
    using run by (simp_all add: cn_do_await_write_def)
  have "m \<notin> fst ` set (cn_accepted c)"
    using assms(2) unfolding d do_write_accepted [OF c2] by simp
  with assms(1) have "cn_ok be ?c2" unfolding cn_ok_def by (elim ex_forward) (rule register_call_split)
  then show ?thesis using do_write_ok assms(2) unfolding d by blast
qed

lemma op_bytes_flight:
  assumes "list_all (\<lambda>p. tab (fst p) = rm_hton be (snd p)) fl" "map fst fl = op_msgs w"
  shows "op_bytes tab w = concat (map (\<lambda>p. wire_bytes be (snd p)) fl)"
proof -
  have "op_bytes tab w = concat (map (\<lambda>m. rm_to_buffers (tab m)) (map fst fl))"
    using assms(2) by (cases w) (auto simp: op_bytes_def)
  also have "\<dots> = concat (map (\<lambda>p. wire_bytes be (snd p)) fl)"
    using assms(1) by (induction fl) (auto simp: wire_bytes_def)
  finally show ?thesis .
qed

text \<open>A write has completed: its messages join the written ones, and if the connection still runs,
  the next write starts.\<close>

lemma written_ok:
  assumes "cn_ok be c" "cn_out c = w # ws" "distinct (map fst (cn_accepted c))"
  shows "cn_ok be (cn_complete_write be ec_success w
      (c\<lparr>cn_out := ws, cn_sent := cn_sent c @ op_bytes (cn_table c) w\<rparr>))"
proof -
  from assms(1) obtain dn fl rest where sp: "cn_split be c dn fl rest" by (auto simp: cn_ok_def)
  then have ws: "ws = []" and fl: "map fst fl = op_msgs w" using assms(2) by (auto simp: cn_split_def)
  let ?c = "c\<lparr>cn_out := ws, cn_sent := cn_sent c @ op_bytes (cn_table c) w\<rparr>"
  have sent: "cn_sent ?c = concat (map (\<lambda>p. wire_bytes be (snd p)) (dn @ fl))"
    using sp op_bytes_flight [OF _ fl] by (auto simp: cn_split_def)
  show ?thesis
  proof (cases "cn_is_running c")
    case False
    then have "cn_complete_write be ec_success w ?c = ?c"
      by (simp add: cn_complete_write_def cn_handle_write_def cn_handle_write_batch_def split: write_op.split)
    moreover have "cn_split be ?c (dn @ fl) [] rest"
      using sp sent ws False by (auto simp: cn_split_def)
    ultimately show ?thesis by (auto simp: cn_ok_def)
  next
    case run: True
    have acc: "cn_accepted c = (dn @ fl) @ rest" "distinct (map fst rest)"
      using sp assms(3) by (auto simp: cn_split_def)
    have rest: "list_all (\<lambda>p. cn_table c (fst p) = snd p) rest" and mir: "queue_mirrors c rest"
      using sp run by (simp_all add: cn_split_def)
    obtain c1 where c1: "cn_complete_write be ec_success w ?c = cn_async_write_msg be c1"
      "cn_out c1 = []" "cn_batch c1 = None" "cn_is_running c1" "cn_accepted c1 = cn_accepted c"
      "cn_queue c1 = map fst rest" "cn_sent c1 = cn_sent ?c" "list_all (\<lambda>p. cn_table c1 (fst p) = snd p) rest"
    proof (cases w)
      case (Write_One m)
      have "m \<notin> set (map fst rest)" using assms(3) acc(1) fl Write_One by auto
      then have "list_all (\<lambda>p. ((cn_table c)(m := x)) (fst p) = snd p) rest" for x
        using rest by (auto simp: list_all_iff)
      with that [of "?c\<lparr>cn_table := (cn_table c)(m := rm_ntoh be (cn_table c m)), cn_queue := tl (cn_queue c)\<rparr>"]
      show thesis using Write_One run mir assms(2) ws
        by (simp add: cn_complete_write_def cn_handle_write_def ec_success_def queue_mirrors_def)
    next
      case (Write_Batch ms)
      with that [of "?c\<lparr>cn_batch := None\<rparr>"] show thesis using run mir assms(2) ws rest
        by (simp add: cn_complete_write_def cn_handle_write_batch_def ec_success_def queue_mirrors_def)
    qed
    from async_write_split [OF c1(2-4), of "dn @ fl" rest be] c1 acc sent
    show ?thesis by (auto simp: cn_ok_def)
  qed
qed

lemma write_failed_ok:
  assumes "cn_ok be c" "cn_out c = w # ws" "ec_value err \<noteq> 0"
  shows "cn_ok be (cn_complete_write be err w (c\<lparr>cn_out := ws\<rparr>))"
proof -
  from assms(1) obtain dn fl rest where sp: "cn_split be c dn fl rest" by (auto simp: cn_ok_def)
  let ?c = "c\<lparr>cn_out := ws\<rparr>"
  let ?t = "cn_complete_write be err w ?c"
  have "ws = []" using sp assms(2) by (auto simp: cn_split_def)
  have "?t = cn_on_error_sys err EC_send_error ?c"
    using assms(3) by (simp add: cn_complete_write_def cn_handle_write_def cn_handle_write_batch_def
        cn_on_error_sys_def cn_on_error_def split: write_op.split)
  then have t: "\<not> cn_is_running ?t" "no_write ?c ?t"
    using no_write_simple(2) [of ?c err EC_send_error]
    by (simp_all add: cn_on_error_sys_def cn_on_error_def cn_event_def cn_stop_timer_def)
  have "cn_split be ?t dn [] (fl @ rest)"
    using sp t \<open>ws = []\<close> by (auto simp: cn_split_def no_write_def)
  then show ?thesis by (auto simp: cn_ok_def)
qed

lemma run_posted_accepted: "\<exists>xs. cn_accepted (cn_run_posted be p c) = cn_accepted c @ xs"
proof -
  have w: "\<exists>xs. cn_accepted (cn_do_write be m d) = cn_accepted d @ xs" for m d
    using do_write_accepted [of d be m] by (cases "cn_is_running d") (simp, simp add: cn_do_write_def)
  have "\<exists>xs. cn_accepted (cn_do_await_write be m h c) = cn_accepted c @ xs" for m h
    using w [of m "cn_register_call m h c"] by (simp add: cn_do_await_write_def)
  with w no_write_simple(4) [of c] show ?thesis
    by (simp add: cn_run_posted_def no_write_def split: posted.split)
qed

lemma complete_write_accepted [simp]: "cn_accepted (cn_complete_write be err w c) = cn_accepted c"
  using no_write_simple(2) [of c err EC_send_error]
  by (auto simp: cn_complete_write_def cn_handle_write_def cn_handle_write_batch_def no_write_def split: write_op.split)

lemma cn_step_accepted: "cn_step be c t \<Longrightarrow> \<exists>xs. cn_accepted t = cn_accepted c @ xs"
proof (induction rule: cn_step.induct)
  case (cs_posted c p ps)
  then show ?case using run_posted_accepted [of be p "c\<lparr>cn_posted := ps\<rparr>"] by simp
next
  case (cs_read c err n r)
  then show ?case using no_write_read [where x = False and c = c and be = be and err = err and n = n and r = r] by (simp add: no_write_def)
qed (simp_all add: no_write_accepted)

lemma cn_step_ok:
  assumes "cn_step be c t" "cn_ok be c" "distinct (map fst (cn_accepted t))"
  shows "cn_ok be t"
  using assms(1)
proof cases
  case (cs_posted p ps)
  have c: "cn_ok be (c\<lparr>cn_posted := ps\<rparr>)" by (rule no_write_ok [OF _ assms(2)]) (simp add: no_write_def)
  show ?thesis
    using do_write_ok [OF c] do_await_write_ok [OF c] no_write_ok [OF no_write_simple(4) c] assms(3)
    unfolding cs_posted(1) by (auto simp: cn_run_posted_def split: posted.splits)
next
  case (cs_written w ws)
  then have "distinct (map fst (cn_accepted c))" using cn_step_accepted [OF assms(1)] assms(3) by auto
  with written_ok [OF assms(2) cs_written(3)] cs_written(1) show ?thesis by simp
next
  case (cs_write_failed w ws err)
  with write_failed_ok [OF assms(2)] show ?thesis by simp
next
  case (cs_read err n r)
  with no_write_ok [OF no_write_read assms(2)] show ?thesis by simp
qed (use no_write_ok [OF no_write_simple(6) assms(2)] no_write_ok [OF no_write_simple(7) assms(2)]
  no_write_ok [OF no_write_simple(5) assms(2)] no_write_ok [OF no_write_simple(3) assms(2)] in simp_all)

text \<open>A connection whose socket is connected and that has just been started.\<close>

definition cn_started :: "connection_options \<Rightarrow> (nat \<Rightarrow> raw_message) \<Rightarrow> int \<Rightarrow> conn" where
  "cn_started opts tab now = snd (cn_start ec_success (cn_new opts tab now))"

lemma cn_started_ok: "cn_ok be (cn_started opts tab now)"
proof -
  let ?c = "cn_reset_state (cn_new opts tab now)"
  have "cn_split be ?c [] [] []"
    by (simp add: cn_split_def queue_mirrors_def cn_reset_state_def cn_new_def)
  then have "cn_ok be ?c" by (auto simp: cn_ok_def)
  from no_write_ok [OF no_write_simple(10) no_write_ok [OF no_write_simple(8) this]]
  show ?thesis by (simp add: cn_started_def cn_start_def ec_success_def)
qed

lemma cn_reach_ok:
  "(cn_step be)\<^sup>*\<^sup>* (cn_started opts tab now) c \<Longrightarrow> distinct (map fst (cn_accepted c)) \<Longrightarrow> cn_ok be c"
proof (induction rule: rtranclp_induct)
  case base
  show ?case by (rule cn_started_ok)
next
  case (step c t)
  then have "distinct (map fst (cn_accepted c))" using cn_step_accepted [OF step(2)] by auto
  with step cn_step_ok show ?case by blast
qed

section \<open>Waiting calls, the idle timer and the end of a connection\<close>

lemma received_frame [simp]:
  "cn_received_msg (cn_on_error e c) = cn_received_msg c" "cn_received_msg (cn_on_error_sys ec er c) = cn_received_msg c"
  "cn_received_msg (cn_do_close c) = cn_received_msg c" "cn_received_msg (cn_async_write_msg be c) = cn_received_msg c"
  "cn_received_msg (cn_register_call m h c) = cn_received_msg c"
  by (simp_all add: cn_on_error_def cn_on_error_sys_def cn_event_def cn_stop_timer_def cn_do_close_def
      cn_async_write_msg_def cn_register_call_def Let_def split: prod.split)

lemma received_do_write [simp]: "cn_received_msg (cn_do_write be m c) = cn_received_msg c"
  by (simp add: cn_do_write_def Let_def)

lemma received_on_msgs: "cn_received_msg c \<Longrightarrow> cn_received_msg (cn_on_receive_msgs ms c)"
  by (simp add: cn_on_receive_msgs_def cn_event_def Let_def split: prod.split)

lemma received_async_read: "cn_received_msg c \<Longrightarrow> cn_received_msg (cn_async_sequence_read c)"
  by (simp add: cn_async_sequence_read_def Let_def split: prod.split)

lemma received_read: "cn_received_msg c \<Longrightarrow> cn_received_msg (cn_handle_sequence_read be err n c)"
  by (simp add: cn_handle_sequence_read_def received_async_read received_on_msgs Let_def split: prod.split)

lemma received_step: "cn_step be c t \<Longrightarrow> cn_received_msg c \<Longrightarrow> cn_received_msg t"
  by (induction rule: cn_step.induct)
    (simp_all add: cn_write_def cn_await_write_def cn_close_def cn_run_posted_def cn_do_await_write_def
      cn_complete_write_def cn_handle_write_def cn_handle_write_batch_def cn_handle_timer_def received_read
      split: posted.split write_op.split)

text \<open>A connection that has ended and has no read outstanding: nothing reaches the router or a
  waiting call any more.\<close>

definition ended :: "conn \<Rightarrow> bool" where "ended c \<longleftrightarrow> \<not> cn_is_running c \<and> \<not> cn_reading c"

lemma ended_step:
  "cn_step be c t \<Longrightarrow> ended c \<Longrightarrow> ended t \<and> cn_calls t = cn_calls c \<and> cn_events t = cn_events c"
  by (induction rule: cn_step.induct)
    (auto simp: ended_def cn_write_def cn_await_write_def cn_close_def cn_run_posted_def cn_do_await_write_def
      cn_do_write_def cn_do_close_def cn_stop_timer_def cn_on_error_def
      cn_complete_write_def cn_handle_write_def cn_handle_write_batch_def cn_handle_timer_def
      split: posted.split write_op.split)

lemma ended_reach:
  "(cn_step be)\<^sup>*\<^sup>* c t \<Longrightarrow> ended c \<Longrightarrow> ended t \<and> cn_calls t = cn_calls c \<and> cn_events t = cn_events c"
  by (induction rule: rtranclp_induct) (auto dest: ended_step)

lemma map_of_filter_fst: "map_of (filter (\<lambda>p. P (fst p)) xs) k = (if P k then map_of xs k else None)"
  by (induction xs) auto

lemma alist_delete_filter: "AList.delete k xs = filter (\<lambda>p. fst p \<noteq> k) xs"
  by (induction xs) auto

abbreviation reply_id :: "nat \<times> raw_message \<Rightarrow> u32" where
  "reply_id p \<equiv> call_id (rm_header (snd p))"

lemma match_calls_spec:
  "match_calls ms calls = (rs, ns, cs) \<Longrightarrow>
     ms \<in> shuffles (map snd rs) ns \<and>
     list_all (\<lambda>p. reply_id p > 0 \<and> map_of calls (reply_id p) = Some (fst p)) rs \<and>
     distinct (map reply_id rs) \<and>
     cs = filter (\<lambda>p. fst p \<notin> reply_id ` set rs) calls"
proof (induction ms arbitrary: calls rs ns cs)
  case Nil
  then show ?case by simp
next
  case (Cons m ms)
  let ?i = "call_id (rm_header m)"
  show ?case
  proof (cases "if ?i > 0 then map_of calls ?i else None")
    case None
    obtain ns' where ns': "match_calls ms calls = (rs, ns', cs)" "ns = m # ns'"
      using Cons.prems None by (auto simp: Let_def split: prod.splits)
    from Cons.IH [OF ns'(1)] show ?thesis by (auto simp: ns'(2) Cons_in_shuffles_iff)
  next
    case (Some h)
    let ?cs = "filter (\<lambda>p. fst p \<noteq> ?i) calls"
    from Some have i: "?i > 0" "map_of calls ?i = Some h" by (auto split: if_splits)
    obtain rs' where rs': "match_calls ms ?cs = (rs', ns, cs)" "rs = (h, m) # rs'"
      using Cons.prems i by (auto simp: Let_def alist_delete_filter split: prod.splits)
    note ih = Cons.IH [OF rs'(1)]
    have keys: "reply_id p \<noteq> ?i \<and> reply_id p > 0 \<and> map_of calls (reply_id p) = Some (fst p)"
      if "p \<in> set rs'" for p
      using ih that by (auto simp: list_all_iff map_of_filter_fst [where P = "\<lambda>k. k \<noteq> ?i"] split: if_splits)
    have "list_all (\<lambda>p. reply_id p > 0 \<and> map_of calls (reply_id p) = Some (fst p)) rs'"
      using keys by (simp add: list_all_iff)
    moreover have "?i \<notin> reply_id ` set rs'"
    proof
      assume "?i \<in> reply_id ` set rs'"
      then obtain p where "p \<in> set rs'" "?i = reply_id p" by (elim imageE)
      with keys [of p] show False by simp
    qed
    then have "distinct (map reply_id rs)" using ih by (simp add: rs'(2))
    moreover have "cs = filter (\<lambda>p. fst p \<notin> reply_id ` set rs) calls"
      using ih by (auto simp: rs'(2) intro: filter_cong)
    ultimately show ?thesis using i ih by (auto simp: rs'(2) Cons_in_shuffles_iff)
  qed
qed

section \<open>Properties\<close>

text \<open>
  (C3) Whatever way writes, completions, failures, reads, timeouts and closing interleave, a
  connection never has two writes outstanding, and the bytes put on the socket are exactly the wire
  images of the messages taken for writing, in the order they were taken, up to some point; while
  the connection runs and no write is outstanding, that point is the end. This holds with and without
  batching, as long as no message object is handed over twice, to this connection or, while its write is outstanding, to
  another one.
\<close>

theorem writes_in_order:
  assumes "(cn_step be)\<^sup>*\<^sup>* (cn_started opts tab now) c" "distinct (map fst (cn_accepted c))"
  shows "length (cn_out c) \<le> 1 \<and>
    (\<exists>k \<le> length (cn_accepted c).
       cn_sent c = concat (map (\<lambda>p. rm_to_buffers (rm_hton be (snd p))) (take k (cn_accepted c))) \<and>
       (cn_is_running c \<and> cn_out c = [] \<longrightarrow> k = length (cn_accepted c)))"
proof -
  from cn_reach_ok [OF assms] obtain dn fl rest where sp: "cn_split be c dn fl rest" by (auto simp: cn_ok_def)
  have "cn_is_running c \<and> cn_out c = [] \<longrightarrow> length dn = length (cn_accepted c)"
    using sp by (auto simp: cn_split_def queue_mirrors_def)
  moreover have "cn_sent c = concat (map (\<lambda>p. rm_to_buffers (rm_hton be (snd p))) (take (length dn) (cn_accepted c)))"
    using sp by (simp add: cn_split_def wire_bytes_def)
  moreover have "length dn \<le> length (cn_accepted c)" "length (cn_out c) \<le> 1"
    using sp by (simp_all add: cn_split_def)
  ultimately show ?thesis by blast
qed


lemma cn_started_fields [simp]:
  "cn_is_running (cn_started opts tab now)" "cn_posted (cn_started opts tab now) = []"
  "cn_queue (cn_started opts tab now) = []" "cn_batch (cn_started opts tab now) = None"
  "cn_out (cn_started opts tab now) = []" "cn_accepted (cn_started opts tab now) = []"
  "cn_table (cn_started opts tab now) = tab" "cn_options (cn_started opts tab now) = opts"
  "cn_received_msg (cn_started opts tab now)" "cn_sent (cn_started opts tab now) = []"
  "\<not> cn_force_close (cn_started opts tab now)" "\<not> overlapped (cn_reader (cn_started opts tab now))"
  "cn_cur_call_id (cn_started opts tab now) = 0" "cn_calls (cn_started opts tab now) = []"
  by (simp_all add: cn_started_def cn_start_def cn_start_timer_def cn_async_sequence_read_def cn_reset_state_def
      cn_new_def ec_success_def prepare_next_recv_def reader_reset_def CLIENT_MSG_BUFF_MAX_def Let_def split: prod.split)

text \<open>A run in which one message is written and its write completes.\<close>

lemma sample_run:
  "\<exists>c. (cn_step True)\<^sup>*\<^sup>* (cn_started \<lparr>disconnect_interval = 0, batch_send_msg = True\<rparr> (\<lambda>_. sample_msg) 0) c \<and>
     cn_accepted c = [(7, sample_msg)] \<and> cn_is_running c \<and> cn_out c = []"
proof -
  let ?c0 = "cn_started \<lparr>disconnect_interval = 0, batch_send_msg = True\<rparr> (\<lambda>_. sample_msg) 0"
  let ?c1 = "cn_write 7 ?c0"
  let ?c2 = "cn_run_posted True (Do_Write 7) (?c1\<lparr>cn_posted := []\<rparr>)"
  let ?c3 = "cn_complete_write True ec_success (Write_One 7)
      (?c2\<lparr>cn_out := [], cn_sent := cn_sent ?c2 @ op_bytes (cn_table ?c2) (Write_One 7)\<rparr>)"
  have o2: "cn_out ?c2 = [Write_One 7]" "cn_accepted ?c2 = [(7, sample_msg)]" "cn_is_running ?c2"
    "cn_queue ?c2 = [7]" "\<not> overlapped (cn_reader ?c2)"
    by (simp_all add: cn_write_def cn_run_posted_def cn_do_write_def cn_async_write_msg_def Let_def)
  have o3: "cn_accepted ?c3 = [(7, sample_msg)]" "cn_is_running ?c3" "cn_out ?c3 = []"
    using o2 by (simp_all add: cn_complete_write_def cn_handle_write_def cn_async_write_msg_def ec_success_def)
  have "cn_step True ?c0 ?c1" by (rule cn_step.cs_write) simp
  moreover have "cn_step True ?c1 ?c2" by (rule cn_step.cs_posted) (simp_all add: cn_write_def)
  moreover have "cn_step True ?c2 ?c3" using o2(5,1) by (rule cn_step.cs_written)
  ultimately have "(cn_step True)\<^sup>*\<^sup>* ?c0 ?c3"
    by (meson converse_rtranclp_into_rtranclp rtranclp.rtrancl_refl)
  with o3 show ?thesis by (intro exI conjI)
qed

theorem writes_in_order_witness:
  "\<exists>c. (cn_step True)\<^sup>*\<^sup>* (cn_started \<lparr>disconnect_interval = 0, batch_send_msg = True\<rparr> (\<lambda>_. sample_msg) 0) c \<and>
     cn_sent c = rm_to_buffers (rm_hton True sample_msg)"
proof -
  obtain c where reach: "(cn_step True)\<^sup>*\<^sup>* (cn_started \<lparr>disconnect_interval = 0, batch_send_msg = True\<rparr> (\<lambda>_. sample_msg) 0) c"
    and c: "cn_accepted c = [(7, sample_msg)]" "cn_is_running c" "cn_out c = []"
    using sample_run by (elim exE conjE)
  have "distinct (map fst (cn_accepted c))" by (simp add: c)
  from writes_in_order [OF reach this] c
  have "cn_sent c = rm_to_buffers (rm_hton True sample_msg)" by auto
  with reach show ?thesis by (intro exI conjI)
qed

text \<open>
  Matching the messages of a read with the waiting calls loses and duplicates nothing: the
  messages are an interleaving, in order, of those that resume a call and those handed to the
  router; each resumed call was waiting under the call id its message carries, no call is resumed
  twice, and exactly the calls that were resumed stop waiting.
\<close>

theorem calls_resumed_once:
  "\<exists>rs ns. ms \<in> shuffles (map snd rs) ns \<and>
     list_all (\<lambda>p. call_id (rm_header (snd p)) > 0 \<and> map_of (cn_calls c) (call_id (rm_header (snd p))) = Some (fst p)) rs \<and>
     distinct (map (\<lambda>p. call_id (rm_header (snd p))) rs) \<and>
     cn_calls (cn_on_receive_msgs ms c) =
       filter (\<lambda>p. fst p \<notin> (\<lambda>p. call_id (rm_header (snd p))) ` set rs) (cn_calls c) \<and>
     cn_events (cn_on_receive_msgs ms c) =
       cn_events c @ map (\<lambda>(h, m). Resume h m) rs @ (if ns = [] then [] else [On_Receive_Msgs ns])"
proof -
  obtain rs ns cs where m: "match_calls ms (cn_calls c) = (rs, ns, cs)" by (cases "match_calls ms (cn_calls c)")
  have "cn_calls (cn_on_receive_msgs ms c) = cs"
    "cn_events (cn_on_receive_msgs ms c) =
       cn_events c @ map (\<lambda>(h, m). Resume h m) rs @ (if ns = [] then [] else [On_Receive_Msgs ns])"
    by (simp_all add: cn_on_receive_msgs_def m cn_event_def Let_def)
  with match_calls_spec [OF m] show ?thesis by blast
qed

text \<open>
  A call gets its answer: a message without a call id that is written with \<open>await_write\<close> on a
  running connection is given the next id, and when a message with that id is received the waiting
  coroutine is resumed with it and waits no longer, whatever was received between.
\<close>

theorem await_write_gets_answer:
  assumes "cn_is_running c" "call_id (rm_header (cn_table c m)) = 0" "cn_cur_call_id c + 1 \<noteq> 0"
    "map_of (cn_calls c) (cn_cur_call_id c + 1) = None" "call_id (rm_header reply) = cn_cur_call_id c + 1"
    "list_all (\<lambda>x. call_id (rm_header x) \<noteq> cn_cur_call_id c + 1) before"
  shows "Resume h reply \<in> set (cn_events (cn_on_receive_msgs (before @ [reply]) (cn_do_await_write be m h c))) \<and>
    map_of (cn_calls (cn_on_receive_msgs (before @ [reply]) (cn_do_await_write be m h c))) (cn_cur_call_id c + 1) = None"
proof -
  let ?i = "cn_cur_call_id c + 1" and ?c = "cn_do_await_write be m h c"
  have calls: "cn_calls (cn_do_write be m d) = cn_calls d" for d
    by (simp add: cn_do_write_def cn_async_write_msg_def cn_on_error_def cn_event_def cn_stop_timer_def Let_def split: prod.split)
  have i0: "?i > 0" using assms(3) by (simp add: word_gt_0)
  have "map_of (cn_calls ?c) ?i = Some h"
    using assms(1,2,4) by (simp add: cn_do_await_write_def calls cn_register_call_def Let_def map_add_def)
  moreover have "(h, reply) \<in> set (fst (match_calls (before @ [reply]) calls)) \<and>
      map_of (snd (snd (match_calls (before @ [reply]) calls))) ?i = None"
    if "map_of calls ?i = Some h" for calls
    using assms(6) that
  proof (induction before arbitrary: calls)
    case Nil
    then show ?case using assms(5) i0 by (simp add: Let_def delete_conv')
  next
    case (Cons x xs)
    then have ne: "call_id (rm_header x) \<noteq> ?i" by simp
    have "map_of (AList.delete (call_id (rm_header x)) calls) ?i = Some h"
      using Cons.prems ne by (simp add: delete_conv')
    then show ?case using Cons.IH [of calls] Cons.IH [of "AList.delete (call_id (rm_header x)) calls"] Cons.prems
      by (auto simp: Let_def split: prod.splits option.splits)
  qed
  ultimately have "(h, reply) \<in> set (fst (match_calls (before @ [reply]) (cn_calls ?c))) \<and>
      map_of (snd (snd (match_calls (before @ [reply]) (cn_calls ?c)))) ?i = None" by blast
  then show ?thesis
    by (auto simp: cn_on_receive_msgs_def cn_event_def Let_def split: prod.splits)
qed

theorem await_write_gets_answer_witness:
  "Resume 5 (sample_msg\<lparr>rm_header := (rm_header sample_msg)\<lparr>call_id := 1\<rparr>\<rparr>) \<in>
     set (cn_events (cn_on_receive_msgs [sample_msg, sample_msg\<lparr>rm_header := (rm_header sample_msg)\<lparr>call_id := 1\<rparr>\<rparr>]
       (cn_do_await_write True 3 5 (cn_started \<lparr>disconnect_interval = 0, batch_send_msg = True\<rparr> (\<lambda>_. sample_msg) 0))))"
  using await_write_gets_answer [of "cn_started \<lparr>disconnect_interval = 0, batch_send_msg = True\<rparr> (\<lambda>_. sample_msg) 0" 3
      "sample_msg\<lparr>rm_header := (rm_header sample_msg)\<lparr>call_id := 1\<rparr>\<rparr>" "[sample_msg]" 5 True]
  by (simp add: sample_msg_def mh_init_short_def)

text \<open>
  The idle timeout never fires: once a connection is started its received flag is set, nothing
  it does ever clears the flag again, and so the timer handler does nothing in any state it can
  reach, whatever \<open>disconnect_interval\<close> says.
\<close>

theorem idle_timeout_never_fires:
  assumes "(cn_step be)\<^sup>*\<^sup>* (cn_started opts tab now) c"
  shows "cn_received_msg c \<and> cn_handle_timer c = c"
proof -
  from assms have "cn_received_msg c"
    by (induction rule: rtranclp_induct) (auto dest: received_step)
  then show ?thesis by (simp add: cn_handle_timer_def)
qed

theorem idle_timeout_never_fires_witness:
  "cn_handle_timer (cn_write 1 (cn_started \<lparr>disconnect_interval = 30, batch_send_msg = False\<rparr> (\<lambda>_. sample_msg) 0)) =
     cn_write 1 (cn_started \<lparr>disconnect_interval = 30, batch_send_msg = False\<rparr> (\<lambda>_. sample_msg) 0)"
  using idle_timeout_never_fires [OF r_into_rtranclp [of "cn_step True", OF cn_step.cs_write [OF cn_started_fields(12)]]] by blast

text \<open>
  Waiting calls are left waiting when a connection ends: after an error, or after closing, with
  no read outstanding, no further step resumes any of them or tells the router anything, and they
  are still entered as waiting.
\<close>

theorem waiting_calls_never_resumed:
  assumes "\<not> cn_is_running c" "\<not> cn_reading c" "(cn_step be)\<^sup>*\<^sup>* c t"
  shows "cn_calls t = cn_calls c \<and> cn_events t = cn_events c \<and> \<not> cn_is_running t"
  using ended_reach [OF assms(3)] assms(1,2) by (auto simp: ended_def)

theorem waiting_calls_never_resumed_witness:
  "\<exists>c. cn_calls c = [(1, 5)] \<and> (\<forall>t. cn_step True c t \<longrightarrow> cn_calls t = [(1, 5)] \<and> cn_events t = cn_events c)"
proof -
  let ?c = "(cn_do_close (cn_do_await_write True 3 5
      (cn_started \<lparr>disconnect_interval = 0, batch_send_msg = True\<rparr> (\<lambda>_. sample_msg) 0)))\<lparr>cn_reading := False\<rparr>"
  have c: "cn_calls ?c = [(1, 5)]" "\<not> cn_is_running ?c" "\<not> cn_reading ?c"
    by (simp_all add: cn_do_close_def cn_do_await_write_def cn_register_call_def cn_do_write_def cn_async_write_msg_def
        cn_stop_timer_def sample_msg_def mh_init_short_def Let_def)
  have "cn_calls t = [(1, 5)] \<and> cn_events t = cn_events ?c" if "cn_step True ?c t" for t
    using waiting_calls_never_resumed [OF c(2,3) r_into_rtranclp [of "cn_step True", OF that]] unfolding c(1) by blast
  with c(1) show ?thesis by blast
qed

text \<open>
  A message object that is queued twice in one batch goes out in host byte order: the batch
  converts its header once per entry, so the two conversions cancel.
\<close>

lemma message_twice_in_batch:
  assumes "batch_send_msg (cn_options c)" "cn_queue c = [m, m]" "cn_out c = []" "cn_is_running c"
  shows "\<exists>w. cn_out (cn_async_write_msg be c) = [w] \<and>
    op_bytes (cn_table (cn_async_write_msg be c)) w = rm_to_buffers (cn_table c m) @ rm_to_buffers (cn_table c m)"
proof -
  obtain b where b: "fill_batch (cn_table c) [m, m] batch_default = ([], b)" "bt_msgs b = [m, m]"
    using fill_batch_unbounded [of batch_default "cn_table c" "[m, m]"]
    by (auto simp: batch_default_def batch_new_def)
  have "rm_hton be (rm_hton be v) = v" for v
    by (simp add: rm_hton_def mh_hton_def hton_hton)
  then show ?thesis
    using assms b by (simp add: cn_async_write_msg_def batch_empty_def batch_hton_def op_bytes_def)
qed

lemma message_twice_in_batch_example:
  "\<exists>(c :: conn) w. cn_out c = [w] \<and> op_bytes (cn_table c) w = rm_to_buffers sample_msg @ rm_to_buffers sample_msg \<and>
     rm_hton True sample_msg \<noteq> sample_msg"
proof -
  let ?c = "(cn_started \<lparr>disconnect_interval = 0, batch_send_msg = True\<rparr> (\<lambda>_. sample_msg) 0)\<lparr>cn_queue := [4, 4]\<rparr>"
  have "rm_hton True sample_msg \<noteq> sample_msg"
  proof
    assume "rm_hton True sample_msg = sample_msg"
    then have "hton32 (7 :: u32) = 7" by (simp add: rm_hton_def sample_msg_def mh_hton_def mh_init_short_def)
    moreover have "\<not> bit (hton32 (7 :: u32)) 0" by (simp add: byte_order_defs bit_bswap bit_numeral_rec)
    moreover have "bit (7 :: u32) 0" by simp
    ultimately show False by metis
  qed
  with message_twice_in_batch [of ?c 4 True] show ?thesis by auto
qed

text \<open>
  One message object handed to two idle connections, as \<open>forward_msg\<close> of the center does with every
  message: \<open>b\<close> takes it while the write of \<open>a\<close> is outstanding, so \<open>b\<close> finds the object as \<open>a\<close> left it.
  Both send the same bytes when headers stay in host order (the default), but with headers in network order the
  second connection converts the header back and sends it in host order.
\<close>

lemma idle_do_write:
  assumes "cn_is_running c" "cn_queue c = []" "cn_batch c = None" "cn_out c = []"
  shows "cn_out (cn_do_write be m c) = [Write_One m]"
    and "cn_table (cn_do_write be m c) = (cn_table c)(m := rm_hton be (cn_table c m))"
  using assms by (simp_all add: cn_do_write_def cn_async_write_msg_def Let_def)

theorem shared_message_on_two_connections:
  assumes "cn_is_running a" "cn_queue a = []" "cn_batch a = None" "cn_out a = []"
    and "cn_is_running b" "cn_queue b = []" "cn_batch b = None" "cn_out b = []"
    and "a' = cn_do_write be m a" "cn_table b = cn_table a'" "b' = cn_do_write be m b"
  shows "cn_out a' = [Write_One m] \<and> op_bytes (cn_table a') (Write_One m) = rm_to_buffers (rm_hton be (cn_table a m)) \<and>
    cn_out b' = [Write_One m] \<and> op_bytes (cn_table b') (Write_One m) = rm_to_buffers (cn_table a m)"
proof -
  have "rm_hton be (rm_hton be v) = v" for v by (simp add: rm_hton_def mh_hton_def hton_hton)
  then show ?thesis
    using idle_do_write [OF assms(1-4), of be m] idle_do_write [OF assms(5-8), of be m] by (simp add: assms(9-11) op_bytes_def)
qed

theorem shared_message_on_two_connections_witness:
  "\<exists>(a :: conn) (b :: conn). op_bytes (cn_table a) (Write_One 7) = rm_to_buffers (rm_hton True sample_msg) \<and>
     op_bytes (cn_table b) (Write_One 7) = rm_to_buffers sample_msg"
proof -
  let ?a = "cn_started \<lparr>disconnect_interval = 0, batch_send_msg = True\<rparr> (\<lambda>_. sample_msg) 0"
  let ?b = "?a\<lparr>cn_table := cn_table (cn_do_write True 7 ?a)\<rparr>"
  have "cn_is_running ?b" "cn_queue ?b = []" "cn_batch ?b = None" "cn_out ?b = []" "cn_table ?b = cn_table (cn_do_write True 7 ?a)"
    by simp_all
  from shared_message_on_two_connections [OF cn_started_fields(1,3,4,5) this(1-4) refl this(5) refl] show ?thesis
    unfolding cn_started_fields by blast
qed

end
