(* ===== verification/Pools.thy ===== *)
theory Pools
  imports Timer_Manager "HOL-Library.Multiset"
begin

text \<open>
  What runs the work: the pool of I/O services (\<open>src/network/net/ios_pool.hpp\<close>), the executors and
  their pool (\<open>src/network/thread/executor.hpp\<close>, \<open>executor_pool.hpp\<close>), and the pool of worker
  threads (\<open>src/network/thread/thread_pool.hpp\<close>). A service or an executor is a number, a task too.
  \<open>std::thread::hardware_concurrency\<close> is the parameter \<open>cores\<close>.

  The two pools of services hand them out in turn; the locale \<open>round_robin\<close> states what that means and
  both interpret it. The worker threads are a step relation: each worker tests whether there is something
  to do, waits on the condition variable, takes a task, runs it or exits, between the steps of the
  others; the notifications of \<open>enqueue\<close> and \<open>close\<close> are steps of their own, and a waiting worker may
  wake without one. \<open>pl_enqueued\<close>, \<open>pl_started\<close> and \<open>pl_done\<close> record the tasks in the
  order they were added, taken and finished.
\<close>

section \<open>Model\<close>

subsection \<open>I/O services\<close>

record ios_pool =
  ip_main :: nat
  ip_ios :: "nat list"
  ip_works :: "nat list"
  ip_cur :: int
  ip_threads :: "nat list"
  ip_stopped :: "nat list"

text \<open>Services are numbered in the order they are made, the main service being 0.\<close>

definition init_io_services :: "u32 \<Rightarrow> ios_pool \<Rightarrow> ios_pool" where
  "init_io_services io_service_count p =
     (let p1 = p\<lparr>ip_works := ip_works p @ [ip_main p]\<rparr>; new = map (\<lambda>i. ip_main p + 1 + i) [0..<unat io_service_count]
      in if io_service_count \<le> 0 then p1
         else p1\<lparr>ip_ios := ip_ios p1 @ new, ip_works := ip_works p1 @ new\<rparr>)"

definition ios_pool_new :: "u32 \<Rightarrow> ios_pool" where
  "ios_pool_new io_service_count =
     init_io_services io_service_count \<lparr>ip_main = 0, ip_ios = [], ip_works = [], ip_cur = 0, ip_threads = [], ip_stopped = []\<rparr>"

definition ios_pool_default :: "u32 \<Rightarrow> ios_pool" where
  "ios_pool_default cores = ios_pool_new cores"

definition ios_start :: "ios_pool \<Rightarrow> ios_pool" where
  "ios_start p = p\<lparr>ip_threads := ip_threads p @ ip_ios p @ [ip_main p]\<rparr>"

definition ios_stop :: "ios_pool \<Rightarrow> ios_pool" where
  "ios_stop p = p\<lparr>ip_stopped := ip_stopped p @ ip_ios p @ [ip_main p]\<rparr>"

definition get_io_service :: "ios_pool \<Rightarrow> nat \<times> ios_pool" where
  "get_io_service p =
     (if ip_ios p = [] then (ip_main p, p)
      else (ip_ios p ! nat (ip_cur p), p\<lparr>ip_cur := (ip_cur p + 1) mod int (length (ip_ios p))\<rparr>))"

definition get_io_service_by_id :: "int \<Rightarrow> ios_pool \<Rightarrow> nat" where
  "get_io_service_by_id i p =
     (if ip_ios p = [] \<or> i < 0 then ip_main p else ip_ios p ! nat (i mod int (length (ip_ios p))))"

definition get_cur_ios_index :: "ios_pool \<Rightarrow> int" where
  "get_cur_ios_index p = (if ip_ios p = [] then -1 else ip_cur p)"

datatype server_thread_mode = no_io_thread | one_io_thread | more_io_thread

definition get_thread_count :: "u32 \<Rightarrow> server_thread_mode \<Rightarrow> u32" where
  "get_thread_count cores m = (case m of no_io_thread \<Rightarrow> 0 | one_io_thread \<Rightarrow> 1 | more_io_thread \<Rightarrow> cores)"

subsection \<open>Executors\<close>

datatype exec_error = Enqueue_On_Stopped

record executor =
  ex_stopped :: bool
  ex_posted :: "nat list"
  ex_timer_mgr :: tm

definition executor_new :: "int \<Rightarrow> executor" where
  "executor_new now = \<lparr>ex_stopped = False, ex_posted = [], ex_timer_mgr = tm_new now\<rparr>"

definition ex_stop :: "executor \<Rightarrow> executor" where
  "ex_stop e = e\<lparr>ex_stopped := True\<rparr>"

definition ex_execute :: "nat \<Rightarrow> executor \<Rightarrow> exec_error + executor" where
  "ex_execute f e = (if ex_stopped e then Inl Enqueue_On_Stopped else Inr (e\<lparr>ex_posted := ex_posted e @ [f]\<rparr>))"

text \<open>A packaged task is named by its function; its future is the task's name.\<close>

definition ex_invoke :: "nat \<Rightarrow> executor \<Rightarrow> exec_error + nat \<times> executor" where
  "ex_invoke f e = (if ex_stopped e then Inl Enqueue_On_Stopped else Inr (f, e\<lparr>ex_posted := ex_posted e @ [f]\<rparr>))"

text \<open>The narrowing of a 64-bit delay to the \<open>int32_t\<close> of the timers.\<close>

definition to_int32 :: "int \<Rightarrow> int" where
  "to_int32 i = sint (word_of_int i :: u32)"

definition ex_schedule :: "nat \<Rightarrow> int \<Rightarrow> int \<Rightarrow> executor \<Rightarrow> exec_error + nat \<times> executor" where
  "ex_schedule f delay_time time_unit e =
     (if ex_stopped e then Inl Enqueue_On_Stopped
      else (let (p, t) = set_once_timer (to_int32 (delay_time * time_unit)) f (ex_timer_mgr e)
            in Inr (f, e\<lparr>ex_timer_mgr := proxy_destroy p t\<rparr>)))"

definition ex_schedule_at_fixed_rate :: "timer_call \<Rightarrow> timer_func \<Rightarrow> int \<Rightarrow> int \<Rightarrow> executor \<Rightarrow>
    exec_error + timer_proxy \<times> executor" where
  "ex_schedule_at_fixed_rate call f period time_unit e =
     (if ex_stopped e then Inl Enqueue_On_Stopped
      else (let (p, t) = set_fix_timer (to_int32 (period * time_unit)) f (ex_timer_mgr e); (q, u) = proxy_start call False p t
            in Inr (q, e\<lparr>ex_timer_mgr := u\<rparr>)))"

definition ex_schedule_at_fixed_delay :: "timer_call \<Rightarrow> nat \<Rightarrow> int \<Rightarrow> int \<Rightarrow> executor \<Rightarrow>
    exec_error + timer_proxy \<times> executor" where
  "ex_schedule_at_fixed_delay call f delay_time time_unit e =
     (if ex_stopped e then Inl Enqueue_On_Stopped
      else (let (p, t) = set_auto_timer (to_int32 (delay_time * time_unit)) f (ex_timer_mgr e); (q, u) = proxy_start call False p t
            in Inr (q, e\<lparr>ex_timer_mgr := u\<rparr>)))"

text \<open>The pool of executors. A thread is joinable until it has been joined; joining one that is not
  is the exception \<open>std::system_error\<close>.\<close>

datatype join_error = Not_Joinable

record executor_pool =
  ep_executors :: "nat list"
  ep_joinable :: "bool list"
  ep_works :: "nat list"
  ep_stopped :: "nat list"
  ep_cur :: int

definition executor_pool_new :: executor_pool where
  "executor_pool_new = \<lparr>ep_executors = [], ep_joinable = [], ep_works = [], ep_stopped = [], ep_cur = 0\<rparr>"

definition ep_init :: "nat \<Rightarrow> executor_pool \<Rightarrow> executor_pool" where
  "ep_init thread_count p = p\<lparr>ep_executors := [0..<thread_count]\<rparr>"

definition ep_start :: "executor_pool \<Rightarrow> executor_pool" where
  "ep_start p =
     (if ep_joinable p = []
      then p\<lparr>ep_works := ep_works p @ ep_executors p, ep_joinable := map (\<lambda>_. True) (ep_executors p)\<rparr> else p)"

primrec join_all :: "bool list \<Rightarrow> join_error + bool list" where
  "join_all [] = Inr []"
| "join_all (j # js) = (if j then ebind (join_all js) (\<lambda>ks. Inr (False # ks)) else Inl Not_Joinable)"

definition ep_stop :: "executor_pool \<Rightarrow> join_error + executor_pool" where
  "ep_stop p =
     (let p1 = p\<lparr>ep_stopped := ep_stopped p @ ep_executors p\<rparr>
      in ebind (join_all (ep_joinable p1)) (\<lambda>js. Inr (p1\<lparr>ep_joinable := js\<rparr>)))"

definition ep_destroy :: "executor_pool \<Rightarrow> join_error + executor_pool" where
  "ep_destroy p = ebind (ep_stop p) (\<lambda>p1. Inr (p1\<lparr>ep_works := [], ep_executors := [], ep_joinable := []\<rparr>))"

definition get_executor :: "executor_pool \<Rightarrow> nat option \<times> executor_pool" where
  "get_executor p =
     (if ep_executors p = [] then (None, p)
      else (Some (ep_executors p ! nat (ep_cur p)), p\<lparr>ep_cur := (ep_cur p + 1) mod int (length (ep_executors p))\<rparr>))"

definition get_executor_by_id :: "int \<Rightarrow> executor_pool \<Rightarrow> nat option" where
  "get_executor_by_id i p =
     (if ep_executors p = [] \<or> i < 0 then None else Some (ep_executors p ! nat (i mod int (length (ep_executors p)))))"

definition get_cur_executor_index :: "executor_pool \<Rightarrow> int" where
  "get_cur_executor_index p = (if ep_executors p = [] then -1 else ep_cur p)"

subsection \<open>Worker threads\<close>

text \<open>
  A worker that is \<open>Checking\<close> holds or is about to take the mutex and tests the predicate of its wait;
  one that is \<open>Waiting\<close> is blocked on the condition variable. \<open>pl_notifies\<close> counts the calls of
  \<open>enqueue\<close> that have added their task and not yet called \<open>notify_one\<close>.
\<close>

datatype worker = Checking | Waiting | Running nat | Exited

datatype pool_error = Enqueue_On_Stopped_Pool | Enqueue_On_No_Worker

datatype close_phase = Not_Closing | Notifying | Joining

record thread_pool =
  pl_stop :: bool
  pl_workers :: "worker list"
  pl_tasks :: "nat list"
  pl_notifies :: nat
  pl_closing :: close_phase
  pl_enqueued :: "nat list"
  pl_started :: "nat list"
  pl_done :: "nat list"

definition thread_pool_new :: thread_pool where
  "thread_pool_new =
     \<lparr>pl_stop = True, pl_workers = [], pl_tasks = [], pl_notifies = 0, pl_closing = Not_Closing,
      pl_enqueued = [], pl_started = [], pl_done = []\<rparr>"

definition pl_init :: "nat \<Rightarrow> thread_pool \<Rightarrow> thread_pool" where
  "pl_init threads p =
     (if \<not> pl_stop p then p
      else p\<lparr>pl_stop := False, pl_workers := pl_workers p @ replicate threads Checking\<rparr>)"

definition thread_pool_new_threads :: "nat \<Rightarrow> thread_pool" where
  "thread_pool_new_threads threads = pl_init threads thread_pool_new"

text \<open>\<open>enqueue\<close> up to the end of its critical section, and the \<open>notify_one\<close> after it, which wakes the
  waiting worker \<open>i\<close> if any worker waits.\<close>

definition pl_enqueue :: "nat \<Rightarrow> thread_pool \<Rightarrow> pool_error + thread_pool" where
  "pl_enqueue t p =
     (if pl_stop p then Inl Enqueue_On_Stopped_Pool
      else if pl_workers p = [] then Inl Enqueue_On_No_Worker
      else Inr (p\<lparr>pl_tasks := pl_tasks p @ [t], pl_enqueued := pl_enqueued p @ [t], pl_notifies := pl_notifies p + 1\<rparr>))"

definition pl_notify_one :: "nat \<Rightarrow> thread_pool \<Rightarrow> thread_pool option" where
  "pl_notify_one i p =
     (if pl_notifies p = 0 then None
      else if Waiting \<notin> set (pl_workers p) then Some (p\<lparr>pl_notifies := pl_notifies p - 1\<rparr>)
      else if i < length (pl_workers p) \<and> pl_workers p ! i = Waiting
      then Some (p\<lparr>pl_notifies := pl_notifies p - 1, pl_workers := (pl_workers p)[i := Checking]\<rparr>)
      else None)"

text \<open>What a worker does next: it tests the predicate and waits, exits or takes the first task; or it
  runs its task to the end.\<close>

definition worker_round :: "nat \<Rightarrow> thread_pool \<Rightarrow> thread_pool option" where
  "worker_round i p =
     (if i < length (pl_workers p) then
        (case pl_workers p ! i of
           Checking \<Rightarrow>
             if \<not> (pl_stop p \<or> pl_tasks p \<noteq> []) then Some (p\<lparr>pl_workers := (pl_workers p)[i := Waiting]\<rparr>)
             else if pl_stop p \<and> pl_tasks p = [] then Some (p\<lparr>pl_workers := (pl_workers p)[i := Exited]\<rparr>)
             else Some (p\<lparr>pl_workers := (pl_workers p)[i := Running (hd (pl_tasks p))], pl_tasks := tl (pl_tasks p),
                          pl_started := pl_started p @ [hd (pl_tasks p)]\<rparr>)
         | Waiting \<Rightarrow> None
         | Running t \<Rightarrow> Some (p\<lparr>pl_workers := (pl_workers p)[i := Checking], pl_done := pl_done p @ [t]\<rparr>)
         | Exited \<Rightarrow> None)
      else None)"

text \<open>\<open>close\<close>: setting \<open>stop\<close> under the lock, \<open>notify_all\<close>, and the end, when all workers have been joined.\<close>

definition pl_close :: "thread_pool \<Rightarrow> thread_pool" where
  "pl_close p = (if pl_stop p then p else p\<lparr>pl_stop := True, pl_closing := Notifying\<rparr>)"

definition pl_notify_all :: "thread_pool \<Rightarrow> thread_pool" where
  "pl_notify_all p =
     p\<lparr>pl_workers := map (\<lambda>w. if w = Waiting then Checking else w) (pl_workers p), pl_closing := Joining\<rparr>"

definition pl_joined :: "thread_pool \<Rightarrow> thread_pool option" where
  "pl_joined p =
     (if pl_closing p = Joining \<and> list_all (\<lambda>w. w = Exited) (pl_workers p)
      then Some (p\<lparr>pl_workers := [], pl_closing := Not_Closing\<rparr>) else None)"

definition wait_tasks_size :: "thread_pool \<Rightarrow> nat" where
  "wait_tasks_size p = length (pl_tasks p)"

text \<open>The owner calls \<open>init\<close> and \<open>close\<close>, so neither while \<open>close\<close> is under way; anyone may add tasks. A
  waiting worker may wake spuriously.\<close>

inductive pl_step :: "thread_pool \<Rightarrow> thread_pool \<Rightarrow> bool" where
  ps_init: "pl_closing p = Not_Closing \<Longrightarrow> pl_step p (pl_init n p)"
| ps_enqueue: "pl_enqueue t p = Inr q \<Longrightarrow> pl_step p q"
| ps_notify_one: "pl_notify_one i p = Some q \<Longrightarrow> pl_step p q"
| ps_worker: "worker_round i p = Some q \<Longrightarrow> pl_step p q"
| ps_spurious: "i < length (pl_workers p) \<Longrightarrow> pl_workers p ! i = Waiting \<Longrightarrow>
    pl_step p (p\<lparr>pl_workers := (pl_workers p)[i := Checking]\<rparr>)"
| ps_close: "pl_closing p = Not_Closing \<Longrightarrow> pl_step p (pl_close p)"
| ps_notify_all: "pl_closing p = Notifying \<Longrightarrow> pl_step p (pl_notify_all p)"
| ps_joined: "pl_joined p = Some q \<Longrightarrow> pl_step p q"

inductive_cases pl_stepE: "pl_step p q"

section \<open>Taking turns\<close>

primrec picks :: "('s \<Rightarrow> 'i \<times> 's) \<Rightarrow> nat \<Rightarrow> 's \<Rightarrow> 'i list \<times> 's" where
  "picks get 0 s = ([], s)"
| "picks get (Suc n) s = (let (x, s1) = get s; (xs, s2) = picks get n s1 in (x # xs, s2))"

locale round_robin =
  fixes items :: "'s \<Rightarrow> 'i list"
    and cur :: "'s \<Rightarrow> int"
    and get :: "'s \<Rightarrow> 'i \<times> 's"
  assumes get_item: "items s \<noteq> [] \<Longrightarrow> 0 \<le> cur s \<Longrightarrow> cur s < int (length (items s)) \<Longrightarrow> fst (get s) = items s ! nat (cur s)"
    and get_cur: "items s \<noteq> [] \<Longrightarrow> 0 \<le> cur s \<Longrightarrow> cur s < int (length (items s)) \<Longrightarrow>
      cur (snd (get s)) = (cur s + 1) mod int (length (items s))"
    and get_items: "items (snd (get s)) = items s"
begin

definition turn_ok :: "'s \<Rightarrow> bool" where
  "turn_ok s \<longleftrightarrow> 0 \<le> cur s \<and> cur s < int (length (items s))"

lemma turn_ok_items: "turn_ok s \<Longrightarrow> items s \<noteq> []"
  by (auto simp: turn_ok_def)

lemma turn_ok_get:
  assumes "turn_ok s"
  shows "turn_ok (snd (get s))"
proof -
  have "int (length (items s)) > 0" using turn_ok_items [OF assms] by simp
  moreover have "cur (snd (get s)) = (cur s + 1) mod int (length (items s))"
    using get_cur [OF turn_ok_items [OF assms]] assms by (simp add: turn_ok_def)
  ultimately show ?thesis by (simp add: turn_ok_def get_items)
qed

lemma picks_spec:
  assumes "turn_ok s"
  shows "fst (picks get n s) = map (\<lambda>j. items s ! nat ((cur s + int j) mod int (length (items s)))) [0..<n] \<and>
    cur (snd (picks get n s)) = (cur s + int n) mod int (length (items s)) \<and>
    items (snd (picks get n s)) = items s"
  using assms
proof (induction n arbitrary: s)
  case 0
  then show ?case by (simp add: turn_ok_def)
next
  case (Suc n)
  let ?t = "snd (get s)" and ?l = "int (length (items s))"
  have c: "cur ?t = (cur s + 1) mod ?l" using Suc.prems get_cur turn_ok_items by (simp add: turn_ok_def)
  have shift: "((cur s + 1) mod ?l + int j) mod ?l = (cur s + int (Suc j)) mod ?l" for j
    by (simp add: mod_add_left_eq algebra_simps) (simp add: mod_add_right_eq ac_simps)
  have "fst (get s) = items s ! nat (cur s mod ?l)"
    using Suc.prems get_item turn_ok_items by (simp add: turn_ok_def)
  then show ?case
    using Suc.IH [OF turn_ok_get [OF Suc.prems]]
    by (simp add: get_items c shift split_def Let_def map_upt_Suc del: upt_Suc)
qed

lemma picks_round:
  assumes "turn_ok s"
  shows "fst (picks get (length (items s)) s) = rotate (nat (cur s)) (items s) \<and>
    cur (snd (picks get (length (items s)) s)) = cur s"
proof -
  have "fst (picks get (length (items s)) s) = rotate (nat (cur s)) (items s)"
    using picks_spec [OF assms] assms
    by (intro nth_equalityI) (auto simp: turn_ok_def nth_rotate nat_mod_distrib nat_add_distrib)
  then show ?thesis using picks_spec [OF assms, of "length (items s)"] assms by (simp add: turn_ok_def)
qed

end

interpretation ios: round_robin ip_ios ip_cur get_io_service
  by unfold_locales (simp_all add: get_io_service_def)

interpretation execs: round_robin "\<lambda>p. map Some (ep_executors p)" ep_cur get_executor
  by unfold_locales (simp_all add: get_executor_def)

section \<open>The worker threads\<close>

definition worker_tasks :: "worker list \<Rightarrow> nat multiset" where
  "worker_tasks ws = mset (concat (map (\<lambda>w. case w of Running t \<Rightarrow> [t] | _ \<Rightarrow> []) ws))"

text \<open>
  Besides the bookkeeping of the tasks: while a worker waits, every queued task has a worker that is
  about to look or a notification that is about to come; and nobody waits once \<open>close\<close> has notified.
\<close>

definition n_checking :: "worker list \<Rightarrow> nat" where
  "n_checking ws = length (filter (\<lambda>w. w = Checking) ws)"

definition pl_inv :: "thread_pool \<Rightarrow> bool" where
  "pl_inv p \<longleftrightarrow> pl_enqueued p = pl_started p @ pl_tasks p \<and>
     mset (pl_started p) = mset (pl_done p) + worker_tasks (pl_workers p) \<and>
     (pl_closing p \<noteq> Not_Closing \<longrightarrow> pl_stop p) \<and> (pl_stop p \<and> pl_closing p = Not_Closing \<longrightarrow> pl_workers p = []) \<and>
     (pl_workers p = [] \<longrightarrow> pl_tasks p = []) \<and> (Exited \<in> set (pl_workers p) \<longrightarrow> pl_stop p \<and> pl_tasks p = []) \<and>
     (Waiting \<in> set (pl_workers p) \<longrightarrow> length (pl_tasks p) \<le> pl_notifies p + n_checking (pl_workers p)) \<and>
     (pl_closing p = Joining \<longrightarrow> Waiting \<notin> set (pl_workers p))"

lemma worker_tasks_simps [simp]:
  "worker_tasks [] = {#}" "worker_tasks (Waiting # ws) = worker_tasks ws" "worker_tasks (Checking # ws) = worker_tasks ws"
  "worker_tasks (Exited # ws) = worker_tasks ws" "worker_tasks (Running t # ws) = add_mset t (worker_tasks ws)"
  "worker_tasks (vs @ ws) = worker_tasks vs + worker_tasks ws" "worker_tasks (replicate n Checking) = {#}"
  by (simp_all add: worker_tasks_def)

lemma worker_tasks_woken [simp]: "worker_tasks (map (\<lambda>w. if w = Waiting then Checking else w) ws) = worker_tasks ws"
  by (induction ws) (auto simp: worker_tasks_def)

lemma n_checking_simps [simp]:
  "n_checking [] = 0" "n_checking (w # ws) = (if w = Checking then 1 else 0) + n_checking ws"
  "n_checking (vs @ ws) = n_checking vs + n_checking ws"
  by (simp_all add: n_checking_def)

text \<open>A worker that moves, in the middle of the others.\<close>

lemma worker_split:
  assumes "i < length ws"
  obtains us vs where "ws = us @ ws ! i # vs" "\<And>w. ws[i := w] = us @ w # vs"
  using that [of "take i ws" "drop (Suc i) ws"] assms by (simp add: id_take_nth_drop [OF assms, symmetric] upd_conv_take_nth_drop)

lemma worker_round_cases:
  assumes "worker_round i p = Some q"
  obtains (wait) us vs where "pl_workers p = us @ Checking # vs" "\<not> pl_stop p" "pl_tasks p = []"
    "q = p\<lparr>pl_workers := us @ Waiting # vs\<rparr>"
  | (take) us vs t ts where "pl_workers p = us @ Checking # vs" "pl_tasks p = t # ts"
    "q = p\<lparr>pl_workers := us @ Running t # vs, pl_tasks := ts, pl_started := pl_started p @ [t]\<rparr>"
  | (leave) us vs where "pl_workers p = us @ Checking # vs" "pl_stop p" "pl_tasks p = []"
    "q = p\<lparr>pl_workers := us @ Exited # vs\<rparr>"
  | (fin) us vs t where "pl_workers p = us @ Running t # vs"
    "q = p\<lparr>pl_workers := us @ Checking # vs, pl_done := pl_done p @ [t]\<rparr>"
proof -
  from assms have i: "i < length (pl_workers p)" by (simp add: worker_round_def split: if_splits)
  then obtain us vs where ws: "pl_workers p = us @ pl_workers p ! i # vs"
    and upd: "\<And>w. (pl_workers p)[i := w] = us @ w # vs" by (rule worker_split) blast
  show thesis
  proof (cases "pl_workers p ! i")
    case Checking
    have ws1: "pl_workers p = us @ Checking # vs" using ws unfolding Checking .
    show thesis
    proof (cases "pl_tasks p")
      case Nil
      show thesis
      proof (cases "pl_stop p")
        case True
        then show thesis by (intro leave [OF ws1 _ Nil]) (use assms i Checking Nil in \<open>simp_all add: worker_round_def upd\<close>)
      next
        case False
        then show thesis by (intro wait [OF ws1 _ Nil]) (use assms i Checking Nil in \<open>simp_all add: worker_round_def upd\<close>)
      qed
    next
      case (Cons t ts)
      show thesis
        by (rule take [OF ws1 Cons]) (use assms i Checking Cons in \<open>simp add: worker_round_def upd\<close>)
    qed
  next
    case (Running t)
    show thesis
      by (rule fin [OF ws [unfolded Running]]) (use assms i Running in \<open>simp add: worker_round_def upd\<close>)
  qed (use assms i in \<open>simp_all add: worker_round_def\<close>)
qed

lemma worker_round_inv: "worker_round i p = Some q \<Longrightarrow> pl_inv p \<Longrightarrow> pl_inv q"
  by (erule worker_round_cases) (auto simp: pl_inv_def)

text \<open>A waiting worker that wakes, by a notification or without one.\<close>

lemma woken_inv:
  assumes "pl_inv p" "i < length (pl_workers p)" "pl_workers p ! i = Waiting" "pl_notifies p \<le> Suc n"
  shows "pl_inv (p\<lparr>pl_notifies := n, pl_workers := (pl_workers p)[i := Checking]\<rparr>)"
proof -
  from worker_split [OF assms(2)] obtain us vs where "pl_workers p = us @ Waiting # vs" "(pl_workers p)[i := Checking] = us @ Checking # vs"
    using assms(3) by metis
  with assms(1,4) show ?thesis by (auto simp: pl_inv_def)
qed

lemma notify_one_inv: "pl_notify_one i p = Some q \<Longrightarrow> pl_inv p \<Longrightarrow> pl_inv q"
proof -
  assume n: "pl_notify_one i p = Some q" and inv: "pl_inv p"
  show "pl_inv q"
  proof (cases "Waiting \<in> set (pl_workers p)")
    case True
    with n woken_inv [OF inv, of i "pl_notifies p - 1"] show ?thesis by (auto simp: pl_notify_one_def split: if_splits)
  next
    case False
    with n inv show ?thesis by (auto simp: pl_notify_one_def pl_inv_def split: if_splits)
  qed
qed

lemma joined_inv:
  assumes "pl_joined p = Some q" "pl_inv p"
  shows "pl_inv q"
proof -
  from assms(1) have q: "pl_closing p = Joining" "list_all (\<lambda>w. w = Exited) (pl_workers p)"
    "q = p\<lparr>pl_workers := [], pl_closing := Not_Closing\<rparr>"
    by (auto simp: pl_joined_def split: if_splits)
  have "worker_tasks ws = {#}" if "list_all (\<lambda>w. w = Exited) ws" for ws using that by (induction ws) auto
  moreover from q(2) have "pl_workers p = [] \<or> Exited \<in> set (pl_workers p)"
    by (cases "pl_workers p") auto
  ultimately show ?thesis using assms(2) q by (auto simp: pl_inv_def)
qed

lemma pl_step_inv: "pl_step p q \<Longrightarrow> pl_inv p \<Longrightarrow> pl_inv q"
proof (induction rule: pl_step.induct)
  case (ps_spurious i p)
  then show ?case using woken_inv [of p i "pl_notifies p"] by simp
next
  case (ps_init p n)
  then show ?case by (auto simp: pl_init_def pl_inv_def)
next
  case (ps_enqueue t p q)
  then show ?case by (auto simp: pl_enqueue_def pl_inv_def split: if_splits)
next
  case (ps_notify_all p)
  then show ?case by (auto simp: pl_notify_all_def pl_inv_def)
next
  case (ps_close p)
  then show ?case by (auto simp: pl_close_def pl_inv_def)
qed (simp_all add: worker_round_inv notify_one_inv joined_inv)

lemma pl_reach_inv: "pl_step\<^sup>*\<^sup>* thread_pool_new p \<Longrightarrow> pl_inv p"
  by (induction rule: rtranclp_induct) (auto simp: pl_inv_def thread_pool_new_def dest: pl_step_inv)

text \<open>How much is left to do once \<open>close\<close> has been called.\<close>

definition worker_rest :: "worker \<Rightarrow> nat" where
  "worker_rest w = (case w of Checking \<Rightarrow> 1 | Waiting \<Rightarrow> 2 | Running _ \<Rightarrow> 2 | Exited \<Rightarrow> 0)"

definition pl_rest :: "thread_pool \<Rightarrow> nat" where
  "pl_rest p = 2 * length (pl_tasks p) + sum_list (map worker_rest (pl_workers p)) + pl_notifies p +
     (case pl_closing p of Not_Closing \<Rightarrow> 0 | Notifying \<Rightarrow> 2 | Joining \<Rightarrow> 1)"

lemma pl_rest_le: "pl_rest p \<le> 2 * length (pl_tasks p) + 2 * length (pl_workers p) + pl_notifies p + 2"
proof -
  have "sum_list (map worker_rest ws) \<le> 2 * length ws" for ws
    by (induction ws) (auto simp: worker_rest_def split: worker.split)
  from this [of "pl_workers p"] show ?thesis by (cases "pl_closing p") (simp_all add: pl_rest_def)
qed

lemma woken_less:
  assumes "i < length (pl_workers p)" "pl_workers p ! i = Waiting" "n \<le> pl_notifies p"
  shows "pl_rest (p\<lparr>pl_notifies := n, pl_workers := (pl_workers p)[i := Checking]\<rparr>) < pl_rest p"
proof -
  from worker_split [OF assms(1)] obtain us vs where "pl_workers p = us @ Waiting # vs" "(pl_workers p)[i := Checking] = us @ Checking # vs"
    using assms(2) by metis
  with assms(3) show ?thesis by (simp add: pl_rest_def worker_rest_def)
qed

lemma notify_all_less:
  assumes "pl_closing p = Notifying"
  shows "pl_rest (pl_notify_all p) < pl_rest p"
proof -
  have "sum_list (map worker_rest (map (\<lambda>w. if w = Waiting then Checking else w) ws)) \<le> sum_list (map worker_rest ws)" for ws
    unfolding map_map by (rule sum_list_mono) (auto simp: worker_rest_def)
  from this [of "pl_workers p"] assms show ?thesis by (simp add: pl_rest_def pl_notify_all_def)
qed

lemma closing_step_less:
  assumes "pl_step p q" "pl_closing p \<noteq> Not_Closing" "pl_inv p"
  shows "pl_rest q < pl_rest p"
  using assms(1)
proof (cases rule: pl_step.cases)
  case (ps_worker i)
  then show ?thesis
    by (rule worker_round_cases) (use assms(2,3) in \<open>simp_all add: pl_rest_def worker_rest_def pl_inv_def\<close>)
next
  case (ps_notify_one i)
  then show ?thesis using woken_less [of i p "pl_notifies p - 1"] by (auto simp: pl_notify_one_def pl_rest_def split: if_splits)
next
  case (ps_spurious i)
  then show ?thesis using woken_less [of i p "pl_notifies p"] by simp
qed (use assms notify_all_less in \<open>auto simp: pl_enqueue_def pl_inv_def pl_joined_def pl_rest_def split: if_splits\<close>)

lemma closing_step_exists:
  assumes "pl_closing p \<noteq> Not_Closing" "pl_inv p"
  shows "\<exists>q. pl_step p q"
proof (cases "pl_closing p")
  case Joining
  show ?thesis
  proof (cases "list_all (\<lambda>w. w = Exited) (pl_workers p)")
    case True
    with Joining have "pl_joined p = Some (p\<lparr>pl_workers := [], pl_closing := Not_Closing\<rparr>)" by (simp add: pl_joined_def)
    then show ?thesis by (intro exI) (rule pl_step.ps_joined)
  next
    case False
    then obtain i where i: "i < length (pl_workers p)" "pl_workers p ! i \<noteq> Exited"
      by (auto simp: list_all_length)
    moreover have "pl_workers p ! i \<noteq> Waiting" using assms(2) Joining i(1) nth_mem by (fastforce simp: pl_inv_def)
    ultimately have "\<exists>q. worker_round i p = Some q"
      by (auto simp: worker_round_def split: worker.split)
    then show ?thesis by (auto intro: pl_step.ps_worker)
  qed
qed (use assms(1) in \<open>auto intro: pl_step.ps_notify_all\<close>)

text \<open>A pool at rest: nobody is about to move or to notify, so nothing is queued or being run.\<close>

lemma resting_pool:
  assumes "pl_inv p" "pl_notifies p = 0" "\<And>i. worker_round i p = None"
  shows "pl_tasks p = [] \<and> worker_tasks (pl_workers p) = {#}"
proof -
  have still: "w = Waiting \<or> w = Exited" if "w \<in> set (pl_workers p)" for w
  proof -
    from that obtain i where i: "i < length (pl_workers p)" "w = pl_workers p ! i" by (auto simp: in_set_conv_nth)
    with assms(3) [of i] show ?thesis by (cases "pl_workers p ! i") (simp_all add: worker_round_def split: if_splits)
  qed
  have "worker_tasks ws = {#} \<and> n_checking ws = 0" if "\<forall>w\<in>set ws. w = Waiting \<or> w = Exited" for ws
    using that by (induction ws) auto
  from this [of "pl_workers p"] still have none: "worker_tasks (pl_workers p) = {#}" "n_checking (pl_workers p) = 0" by blast+
  have "pl_tasks p = []"
  proof (cases "pl_workers p")
    case (Cons w ws)
    then show ?thesis using still [of w] assms(1,2) none by (auto simp: pl_inv_def)
  qed (use assms(1) in \<open>simp add: pl_inv_def\<close>)
  with none show ?thesis by blast
qed

section \<open>Properties\<close>

text \<open>
  (C6) Every task runs exactly once: in any state of the pool, however its threads interleave, the
  tasks are started in the order they were added, the ones not started are the queue, and each task started
  is either finished or being run by exactly one worker.
\<close>

theorem tasks_run_once:
  assumes "pl_step\<^sup>*\<^sup>* thread_pool_new p"
  shows "pl_enqueued p = pl_started p @ pl_tasks p \<and>
    mset (pl_started p) = mset (pl_done p) + mset (concat (map (\<lambda>w. case w of Running t \<Rightarrow> [t] | _ \<Rightarrow> []) (pl_workers p)))"
  using pl_reach_inv [OF assms] by (simp add: pl_inv_def worker_tasks_def)

definition sample_pool :: thread_pool where
  "sample_pool = (pl_init 2 thread_pool_new)\<lparr>pl_tasks := [7], pl_enqueued := [7], pl_notifies := 1\<rparr>"

lemma sample_pool_reached: "pl_step\<^sup>*\<^sup>* thread_pool_new sample_pool"
proof -
  have "pl_step thread_pool_new (pl_init 2 thread_pool_new)"
    by (rule pl_step.ps_init) (simp add: thread_pool_new_def)
  moreover have "pl_step (pl_init 2 thread_pool_new) sample_pool"
    by (rule pl_step.ps_enqueue [where t = 7]) (simp add: sample_pool_def pl_enqueue_def pl_init_def thread_pool_new_def)
  ultimately show ?thesis by (meson converse_rtranclp_into_rtranclp rtranclp.rtrancl_refl)
qed

theorem tasks_run_once_witness:
  "pl_enqueued sample_pool = [7] \<and> pl_started sample_pool @ pl_tasks sample_pool = [7]"
  using tasks_run_once [OF sample_pool_reached] by (simp add: sample_pool_def)



text \<open>
  Services and executors are handed out in turn: as many requests as the pool has members give every
  member exactly once, in a rotation of their order that starts where the last request ended, and leave
  the turn where it was.
\<close>

theorem pools_take_turns:
  "(0 \<le> ip_cur p \<and> ip_cur p < int (length (ip_ios p)) \<longrightarrow>
     fst (picks get_io_service (length (ip_ios p)) p) = rotate (nat (ip_cur p)) (ip_ios p) \<and>
     ip_cur (snd (picks get_io_service (length (ip_ios p)) p)) = ip_cur p) \<and>
   (0 \<le> ep_cur e \<and> ep_cur e < int (length (ep_executors e)) \<longrightarrow>
     fst (picks get_executor (length (ep_executors e)) e) = rotate (nat (ep_cur e)) (map Some (ep_executors e)) \<and>
     ep_cur (snd (picks get_executor (length (ep_executors e)) e)) = ep_cur e)"
  using ios.picks_round [of p] execs.picks_round [of e] by (simp add: ios.turn_ok_def execs.turn_ok_def)

theorem pools_take_turns_witness:
  "fst (picks get_io_service 3 ((ios_pool_new 3)\<lparr>ip_cur := 1\<rparr>)) = [2, 3, 1]"
proof -
  have "ip_ios ((ios_pool_new 3)\<lparr>ip_cur := 1\<rparr>) = [1, 2, 3]"
    by (simp add: ios_pool_new_def init_io_services_def upt_rec Let_def)
  then show ?thesis using pools_take_turns [of "(ios_pool_new 3)\<lparr>ip_cur := 1\<rparr>"]
    by (simp add: numeral_3_eq_3 del: picks.simps)
qed

text \<open>
  A pool of executors that has been stopped cannot be destroyed: after a start and a stop the
  destructor joins threads that have been joined, which throws, and a second start starts nothing.
\<close>

lemma join_all_map: "join_all (map (\<lambda>_. True) xs) = Inr (map (\<lambda>_. False) xs)"
  by (induction xs) simp_all

lemma stopped_executors_cannot_be_destroyed:
  assumes "0 < n"
  shows "\<exists>p. ep_stop (ep_start (ep_init n executor_pool_new)) = Inr p \<and>
    ep_destroy p = Inl Not_Joinable \<and> ep_start p = p"
proof -
  from assms obtain m where n: "[0..<n] = 0 # m" by (simp add: upt_conv_Cons)
  show ?thesis
    by (simp add: ep_init_def ep_start_def ep_stop_def ep_destroy_def executor_pool_new_def n join_all_map Let_def)
qed

lemma stopped_executors_cannot_be_destroyed_example:
  "\<exists>p. ep_stop (ep_start (ep_init 4 executor_pool_new)) = Inr p \<and> ep_destroy p = Inl Not_Joinable"
  using stopped_executors_cannot_be_destroyed [of 4] by auto

text \<open>A delay of more than \<open>2 ^ 31\<close> milliseconds becomes a negative one: 30 days are over at once.\<close>

lemma long_delay_is_negative: "to_int32 (30 * 86400000) < 0"
  by (simp add: to_int32_def sint_uint word_of_int_inverse uint_word_of_int signed_take_bit_def take_bit_eq_mod bit_iff_odd)

end
