(* ===== verification/Tcp_Server.thy ===== *)
theory Tcp_Server
  imports Tcp_Connection Pools
begin

text \<open>
  The TCP server, \<open>src/network/net/tcp_server.hpp\<close>: it keeps one connection ready, hands it the next
  client that is accepted, and makes another one. The acceptor is the environment: each completion
  of \<open>async_accept\<close> is a call of \<open>sv_accepted\<close> with its error code and the one the new socket reports
  for its remote end. A connection is the record of \<open>Tcp_Connection\<close> with its id and its
  service.
\<close>

section \<open>Model\<close>

record server_options =
  so_thread_mode :: server_thread_mode
  so_disconnect_interval :: int
  so_batch_send_msg :: bool

record server_conn =
  sv_conn_id :: u32
  sv_conn_ios :: nat
  sv_conn :: conn

record server =
  sv_pool :: ios_pool
  sv_router :: bool
  sv_options :: server_options
  sv_cur_conn_id :: u32
  sv_accepting :: "server_conn option"
  sv_conns :: "server_conn list"

definition server_new :: "u32 \<Rightarrow> server_options \<Rightarrow> bool \<Rightarrow> server" where
  "server_new cores options router =
     \<lparr>sv_pool = ios_pool_new (get_thread_count cores (so_thread_mode options)), sv_router = router, sv_options = options,
      sv_cur_conn_id = 0, sv_accepting = None, sv_conns = []\<rparr>"

text \<open>\<open>tab\<close> are the messages of the connection and \<open>now\<close> the time, as in \<open>cn_new\<close>.\<close>

definition create_connection :: "(nat \<Rightarrow> raw_message) \<Rightarrow> int \<Rightarrow> server \<Rightarrow> server_conn \<times> server" where
  "create_connection tab now s =
     (let s1 = s\<lparr>sv_cur_conn_id := sv_cur_conn_id s + 1\<rparr>;
          conn_options = \<lparr>disconnect_interval = so_disconnect_interval (sv_options s), batch_send_msg = so_batch_send_msg (sv_options s)\<rparr>;
          (ios, pool) = get_io_service (sv_pool s1)
      in (\<lparr>sv_conn_id = sv_cur_conn_id s1, sv_conn_ios = ios, sv_conn = cn_new conn_options tab now\<rparr>, s1\<lparr>sv_pool := pool\<rparr>))"

definition do_accept :: "(nat \<Rightarrow> raw_message) \<Rightarrow> int \<Rightarrow> server \<Rightarrow> server" where
  "do_accept tab now s = (let (c, s1) = create_connection tab now s in s1\<lparr>sv_accepting := Some c\<rparr>)"

text \<open>The handler of an accept. It holds the only pointer to a connection that was not accepted, so the
  connection is destroyed when the handler ends.\<close>

definition sv_accepted :: "ec_t \<Rightarrow> ec_t \<Rightarrow> (nat \<Rightarrow> raw_message) \<Rightarrow> int \<Rightarrow> server \<Rightarrow> conn_error + server" where
  "sv_accepted err remote tab now s =
     (case sv_accepting s of
        None \<Rightarrow> Inr s
      | Some c \<Rightarrow>
          if ec_value err = 0 then
            (let k = (sv_conn c)\<lparr>cn_socket_open := True\<rparr>;
                 k1 = (if sv_router s then cn_event (On_Connect err) k else k);
                 k2 = snd (cn_start remote k1)
             in Inr (do_accept tab now (s\<lparr>sv_accepting := None, sv_conns := sv_conns s @ [c\<lparr>sv_conn := k2\<rparr>]\<rparr>)))
          else
            (let s1 = do_accept tab now (s\<lparr>sv_accepting := None\<rparr>)
             in ebind (cn_destroy (sv_conn c)) (\<lambda>_. Inr s1)))"

definition sv_start :: "(nat \<Rightarrow> raw_message) \<Rightarrow> int \<Rightarrow> server \<Rightarrow> server" where
  "sv_start tab now s = (let s1 = do_accept tab now s in s1\<lparr>sv_pool := ios_start (sv_pool s1)\<rparr>)"

definition sv_stop :: "server \<Rightarrow> server" where
  "sv_stop s = s\<lparr>sv_pool := ios_stop (sv_pool s)\<rparr>"

text \<open>A run of successful accepts, each with what the socket says of its remote end.\<close>

primrec sv_accept_all :: "(ec_t \<times> (nat \<Rightarrow> raw_message) \<times> int) list \<Rightarrow> server \<Rightarrow> conn_error + server" where
  "sv_accept_all [] s = Inr s"
| "sv_accept_all (a # as) s =
     (case a of (remote, tab, now) \<Rightarrow> ebind (sv_accepted ec_success remote tab now s) (sv_accept_all as))"

section \<open>The order of connections\<close>

definition service_of :: "nat list \<Rightarrow> nat \<Rightarrow> nat" where
  "service_of ioss i = (if ioss = [] then 0 else ioss ! (i mod length ioss))"

definition sv_inv :: "nat list \<Rightarrow> nat \<Rightarrow> server \<Rightarrow> bool" where
  "sv_inv ioss n s \<longleftrightarrow>
     ip_main (sv_pool s) = 0 \<and> ip_ios (sv_pool s) = ioss \<and> (ioss \<noteq> [] \<longrightarrow> ip_cur (sv_pool s) = int (Suc n mod length ioss)) \<and>
     sv_cur_conn_id s = of_nat (Suc n) \<and>
     (\<exists>c. sv_accepting s = Some c \<and> sv_conn_id c = of_nat (Suc n) \<and> sv_conn_ios c = service_of ioss n) \<and>
     map (\<lambda>c. (sv_conn_id c, sv_conn_ios c)) (sv_conns s) = map (\<lambda>i. (of_nat (Suc i), service_of ioss i)) [0..<n]"

lemma next_service:
  assumes "ip_main p = 0" "ip_ios p \<noteq> [] \<longrightarrow> ip_cur p = int (i mod length (ip_ios p))"
  shows "fst (get_io_service p) = service_of (ip_ios p) i" "ip_main (snd (get_io_service p)) = 0"
    "ip_ios (snd (get_io_service p)) = ip_ios p"
    "ip_ios p \<noteq> [] \<longrightarrow> ip_cur (snd (get_io_service p)) = int (Suc i mod length (ip_ios p))"
  using assms by (auto simp: get_io_service_def service_of_def zmod_int mod_simps nat_mod_distrib add.commute)

lemma do_accept_fields:
  "sv_cur_conn_id (do_accept tab now s) = sv_cur_conn_id s + 1"
  "sv_pool (do_accept tab now s) = snd (get_io_service (sv_pool s))" "sv_conns (do_accept tab now s) = sv_conns s"
  "\<exists>c. sv_accepting (do_accept tab now s) = Some c \<and> sv_conn_id c = sv_cur_conn_id s + 1 \<and>
     sv_conn_ios c = fst (get_io_service (sv_pool s))"
  by (simp_all add: do_accept_def create_connection_def Let_def split: prod.split)

lemma sv_accepted_inv:
  assumes "sv_inv ioss n s"
  shows "\<exists>t. sv_accepted ec_success remote tab now s = Inr t \<and> sv_inv ioss (Suc n) t"
proof -
  from assms obtain c where c: "sv_accepting s = Some c" "sv_conn_id c = of_nat (Suc n)" "sv_conn_ios c = service_of ioss n"
    by (auto simp: sv_inv_def)
  have p: "ip_main (sv_pool s) = 0" "ip_ios (sv_pool s) \<noteq> [] \<longrightarrow> ip_cur (sv_pool s) = int (Suc n mod length (ip_ios (sv_pool s)))"
    using assms by (simp_all add: sv_inv_def)
  obtain k where t: "sv_accepted ec_success remote tab now s =
      Inr (do_accept tab now (s\<lparr>sv_accepting := None, sv_conns := sv_conns s @ [c\<lparr>sv_conn := k\<rparr>]\<rparr>))"
    using c(1) by (simp add: sv_accepted_def ec_success_def Let_def)
  let ?t = "do_accept tab now (s\<lparr>sv_accepting := None, sv_conns := sv_conns s @ [c\<lparr>sv_conn := k\<rparr>]\<rparr>)"
  have "sv_inv ioss (Suc n) ?t"
    using assms c(2,3) next_service [OF p] do_accept_fields(4) [of tab now "s\<lparr>sv_accepting := None, sv_conns := sv_conns s @ [c\<lparr>sv_conn := k\<rparr>]\<rparr>"]
    by (auto simp: sv_inv_def do_accept_fields add.commute)
  with t show ?thesis by blast
qed

lemma sv_accept_all_inv:
  "sv_inv ioss n s \<Longrightarrow> \<exists>t. sv_accept_all as s = Inr t \<and> sv_inv ioss (n + length as) t"
proof (induction as arbitrary: n s)
  case (Cons a as)
  obtain remote tab now where a: "a = (remote, tab, now)" by (cases a)
  from sv_accepted_inv [OF Cons.prems] obtain t where
    t: "sv_accepted ec_success remote tab now s = Inr t" "sv_inv ioss (Suc n) t" by blast
  from Cons.IH [OF t(2)] show ?case by (simp add: a t(1))
qed simp

lemma sv_start_inv:
  "sv_inv [1..<Suc (unat (get_thread_count cores (so_thread_mode options)))] 0 (sv_start tab now (server_new cores options router))"
proof -
  let ?p = "sv_pool (server_new cores options router)"
  have p: "ip_main ?p = 0" "ip_cur ?p = 0" "ip_ios ?p = [1..<Suc (unat (get_thread_count cores (so_thread_mode options)))]"
    by (simp_all add: server_new_def ios_pool_new_def init_io_services_def Let_def map_add_upt [symmetric] map_Suc_upt del: upt_Suc)
  note nx = next_service [of ?p 0, unfolded p]
  show ?thesis
    using nx do_accept_fields(4) [of tab now "server_new cores options router"]
    by (simp add: sv_inv_def sv_start_def Let_def do_accept_fields ios_start_def server_new_def p del: upt_Suc)
qed

section \<open>Properties\<close>

text \<open>
  A server numbers its connections 1, 2, 3 \dots in the order they are accepted and spreads them over
  its I/O services in turn: the connection accepted as the \<open>i\<close>-th from 0 has id \<open>i + 1\<close>
  and runs on service \<open>i mod n + 1\<close> of \<open>n\<close>, or on the main service when there are no others; and
  after any number of accepts it is ready for the next.
\<close>

theorem connections_in_turn:
  "\<exists>s. sv_accept_all as (sv_start tab now (server_new cores options router)) = Inr s \<and> sv_accepting s \<noteq> None \<and>
     map (\<lambda>c. (sv_conn_id c, sv_conn_ios c)) (sv_conns s) =
       map (\<lambda>i. (of_nat (Suc i),
                 let n = unat (get_thread_count cores (so_thread_mode options)) in if n = 0 then 0 else i mod n + 1)) [0..<length as]"
proof -
  let ?n = "unat (get_thread_count cores (so_thread_mode options))"
  have svc: "service_of [1..<Suc ?n] i = (if ?n = 0 then 0 else i mod ?n + 1)" for i
    by (simp add: service_of_def nth_upt del: upt_Suc)
  from sv_accept_all_inv [OF sv_start_inv [of cores options tab now router], of as] svc show ?thesis
    by (auto simp: sv_inv_def Let_def simp del: upt_Suc)
qed

text \<open>
  The router of a server hears of a connection before the connection runs: whatever it writes in
  \<open>on_connect\<close> is dropped without a trace, and a call it makes there goes on at once without an answer.
\<close>

lemma write_in_on_connect_dropped:
  assumes "sv_accepting (do_accept tab now s) = Some c"
  shows "cn_write m (cn_event (On_Connect ec_success) ((sv_conn c)\<lparr>cn_socket_open := True\<rparr>)) =
      cn_event (On_Connect ec_success) ((sv_conn c)\<lparr>cn_socket_open := True\<rparr>) \<and>
    fst (cn_await_write m h (cn_event (On_Connect ec_success) ((sv_conn c)\<lparr>cn_socket_open := True\<rparr>))) = False"
  using assms by (auto simp: do_accept_def create_connection_def cn_new_def cn_event_def cn_write_def cn_await_write_def
      Let_def split: prod.splits)

definition sample_server :: server where
  "sample_server = server_new 4 \<lparr>so_thread_mode = more_io_thread, so_disconnect_interval = 30, so_batch_send_msg = True\<rparr> True"

lemma write_in_on_connect_dropped_example:
  "\<exists>k :: conn. cn_write 3 k = k \<and> cn_events k = [On_Connect ec_success]"
proof -
  obtain c where c: "sv_accepting (do_accept (\<lambda>_. sample_msg) 0 sample_server) = Some c"
    using do_accept_fields(4) [of "\<lambda>_. sample_msg" 0 sample_server] by blast
  then have "cn_events (cn_event (On_Connect ec_success) ((sv_conn c)\<lparr>cn_socket_open := True\<rparr>)) = [On_Connect ec_success]"
    by (auto simp: do_accept_def create_connection_def cn_new_def cn_event_def Let_def split: prod.splits)
  with write_in_on_connect_dropped [OF c, of 3] show ?thesis by blast
qed

text \<open>
  An accept that fails ends the process: the connection that waited for it is destroyed without having
  been closed, and its destructor asks for a shared pointer to itself, which throws.
\<close>

theorem accept_error_throws:
  assumes "sv_accepting (do_accept tab now s) = Some c" "ec_value err \<noteq> 0"
  shows "sv_accepted err remote tab2 now2 (do_accept tab now s) = Inl Bad_Weak_Ptr"
proof -
  have "cn_destroy (sv_conn c) = Inl Bad_Weak_Ptr"
    using assms(1) by (auto simp: do_accept_def create_connection_def cn_new_def cn_destroy_def cn_stop_timer_def
        Let_def split: prod.splits)
  then show ?thesis using assms by (simp add: sv_accepted_def Let_def)
qed

theorem accept_error_throws_witness:
  "sv_accepted \<lparr>ec_value = 24, ec_category = system_category\<rparr> ec_success (\<lambda>_. sample_msg) 0
     (do_accept (\<lambda>_. sample_msg) 0 sample_server) = Inl Bad_Weak_Ptr"
proof -
  obtain c where c: "sv_accepting (do_accept (\<lambda>_. sample_msg) 0 sample_server) = Some c"
    using do_accept_fields(4) [of "\<lambda>_. sample_msg" 0 sample_server] by blast
  show ?thesis by (rule accept_error_throws [OF c]) simp
qed

end
