(* ===== verification/Rpc_Header.thy ===== *)
theory Rpc_Header
  imports Wire_Header
begin

text \<open>
  The message headers of the RPC layer, \<open>src/network/rpc/net/msg_header.hpp\<close>. The client header
  has 12 bytes. The server side uses \<open>msg_header\<close>, a union of a server header and an internal
  header of 24 bytes each that share their first field, the flag; the union is its memory image,
  and reading a member decodes the image at that member's layout. An internal header is one whose
  flag is 65535. The two header types offer the same operations to the RPC context and channel,
  which are templates over the header; \<open>header_ops\<close> collects these operations and the locale
  \<open>rpc_header\<close> states what the channel relies on.
\<close>

section \<open>Client header\<close>

record client_msg_header =
  cmh_result :: u16
  cmh_reserve_bytes :: u16
  cmh_protocol_id :: u32
  cmh_length :: u32

definition cmh_ntoh :: "bool \<Rightarrow> client_msg_header \<Rightarrow> client_msg_header" where
  "cmh_ntoh be h =
     (if \<not> get_big_endian be then h
      else \<lparr>cmh_result = ntoh16 (cmh_result h), cmh_reserve_bytes = ntoh16 (cmh_reserve_bytes h),
            cmh_protocol_id = ntoh32 (cmh_protocol_id h), cmh_length = ntoh32 (cmh_length h)\<rparr>)"

definition cmh_hton :: "bool \<Rightarrow> client_msg_header \<Rightarrow> client_msg_header" where
  "cmh_hton be h =
     (if \<not> get_big_endian be then h
      else \<lparr>cmh_result = hton16 (cmh_result h), cmh_reserve_bytes = hton16 (cmh_reserve_bytes h),
            cmh_protocol_id = hton32 (cmh_protocol_id h), cmh_length = hton32 (cmh_length h)\<rparr>)"

definition cmh_new :: "u16 \<Rightarrow> u32 \<Rightarrow> u32 \<Rightarrow> client_msg_header" where
  "cmh_new code protocol len =
     \<lparr>cmh_result = code, cmh_reserve_bytes = 0, cmh_protocol_id = protocol, cmh_length = len\<rparr>"

definition cmh_default :: client_msg_header where
  "cmh_default = \<lparr>cmh_result = 0, cmh_reserve_bytes = 0, cmh_protocol_id = 0, cmh_length = 0\<rparr>"

definition cmh_is_internal :: "client_msg_header \<Rightarrow> bool" where
  "cmh_is_internal h = False"

definition cmh_is_reply :: "client_msg_header \<Rightarrow> bool" where
  "cmh_is_reply h = fp_is_reply (to_protocol (cmh_protocol_id h))"

definition cmh_reply :: "bool \<Rightarrow> client_msg_header \<Rightarrow> client_msg_header" where
  "cmh_reply is_reply h = h\<lparr>cmh_protocol_id := reply_protocol (cmh_protocol_id h)\<rparr>"

definition cmh_need_reply :: "client_msg_header \<Rightarrow> bool" where
  "cmh_need_reply h =
     (let proto = to_protocol (cmh_protocol_id h) in \<not> fp_is_reply proto \<and> fp_need_reply proto)"

definition cmh_set_result :: "u16 \<Rightarrow> client_msg_header \<Rightarrow> client_msg_header" where
  "cmh_set_result r h = h\<lparr>cmh_result := r\<rparr>"

definition cmh_call_id :: "client_msg_header \<Rightarrow> u32" where
  "cmh_call_id h = cmh_protocol_id h"

definition cmh_set_length :: "u32 \<Rightarrow> client_msg_header \<Rightarrow> client_msg_header" where
  "cmh_set_length len h = h\<lparr>cmh_length := len\<rparr>"

definition cmh_proto :: "client_msg_header \<Rightarrow> u64" where
  "cmh_proto h = ucast (cmh_protocol_id h)"

definition cmh_set_conn_id :: "u32 \<Rightarrow> client_msg_header \<Rightarrow> client_msg_header" where
  "cmh_set_conn_id i h = h"

definition cmh_size :: nat where "cmh_size = 12"

definition cmh_to_bytes :: "client_msg_header \<Rightarrow> bytes" where
  "cmh_to_bytes h =
     le_bytes 2 (cmh_result h) @ le_bytes 2 (cmh_reserve_bytes h) @
     le_bytes 4 (cmh_protocol_id h) @ le_bytes 4 (cmh_length h)"

definition cmh_of_bytes :: "bytes \<Rightarrow> client_msg_header" where
  "cmh_of_bytes bs =
     \<lparr>cmh_result = le_word (take 2 bs), cmh_reserve_bytes = le_word (take 2 (drop 2 bs)),
      cmh_protocol_id = le_word (take 4 (drop 4 bs)), cmh_length = le_word (take 4 (drop 8 bs))\<rparr>"

interpretation cmh: wire_header cmh_to_bytes cmh_of_bytes cmh_size cmh_hton cmh_ntoh "\<lambda>_. True"
  by unfold_locales
    (simp_all add: cmh_size_def cmh_hton_def cmh_ntoh_def cmh_to_bytes_def cmh_of_bytes_def drop_take)

section \<open>Server header\<close>

record server_msg_header =
  smh_from_unique_id :: u16
  smh_to_unique_id :: u16
  smh_conn_id :: u32
  smh_call_id :: u32
  smh_result :: u16
  smh_reserve_bytes :: u16
  smh_protocol_id :: u32
  smh_length :: u32

definition smh_ntoh :: "bool \<Rightarrow> server_msg_header \<Rightarrow> server_msg_header" where
  "smh_ntoh be h =
     (if \<not> get_big_endian be then h
      else \<lparr>smh_from_unique_id = ntoh16 (smh_from_unique_id h),
            smh_to_unique_id = ntoh16 (smh_to_unique_id h),
            smh_conn_id = ntoh32 (smh_conn_id h), smh_call_id = ntoh32 (smh_call_id h),
            smh_result = ntoh16 (smh_result h), smh_reserve_bytes = ntoh16 (smh_reserve_bytes h),
            smh_protocol_id = ntoh32 (smh_protocol_id h), smh_length = ntoh32 (smh_length h)\<rparr>)"

definition smh_hton :: "bool \<Rightarrow> server_msg_header \<Rightarrow> server_msg_header" where
  "smh_hton be h =
     (if \<not> get_big_endian be then h
      else \<lparr>smh_from_unique_id = hton16 (smh_from_unique_id h),
            smh_to_unique_id = hton16 (smh_to_unique_id h),
            smh_conn_id = hton32 (smh_conn_id h), smh_call_id = hton32 (smh_call_id h),
            smh_result = hton16 (smh_result h), smh_reserve_bytes = hton16 (smh_reserve_bytes h),
            smh_protocol_id = hton32 (smh_protocol_id h), smh_length = hton32 (smh_length h)\<rparr>)"

definition smh_init :: "u16 \<Rightarrow> u16 \<Rightarrow> u32 \<Rightarrow> u32 \<Rightarrow> u16 \<Rightarrow> u32 \<Rightarrow> u32 \<Rightarrow> server_msg_header" where
  "smh_init from_id to_id conn call code protocol len =
     \<lparr>smh_from_unique_id = from_id, smh_to_unique_id = to_id, smh_conn_id = conn,
      smh_call_id = call, smh_result = code, smh_reserve_bytes = 0,
      smh_protocol_id = protocol, smh_length = len\<rparr>"

definition smh_init_short :: "u16 \<Rightarrow> u32 \<Rightarrow> u32 \<Rightarrow> server_msg_header" where
  "smh_init_short code protocol len = smh_init 0 0 0 0 code protocol len"

definition smh_to_bytes :: "server_msg_header \<Rightarrow> bytes" where
  "smh_to_bytes h =
     le_bytes 2 (smh_from_unique_id h) @ le_bytes 2 (smh_to_unique_id h) @
     le_bytes 4 (smh_conn_id h) @ le_bytes 4 (smh_call_id h) @ le_bytes 2 (smh_result h) @
     le_bytes 2 (smh_reserve_bytes h) @ le_bytes 4 (smh_protocol_id h) @ le_bytes 4 (smh_length h)"

definition smh_of_bytes :: "bytes \<Rightarrow> server_msg_header" where
  "smh_of_bytes bs =
     \<lparr>smh_from_unique_id = le_word (take 2 bs), smh_to_unique_id = le_word (take 2 (drop 2 bs)),
      smh_conn_id = le_word (take 4 (drop 4 bs)), smh_call_id = le_word (take 4 (drop 8 bs)),
      smh_result = le_word (take 2 (drop 12 bs)),
      smh_reserve_bytes = le_word (take 2 (drop 14 bs)),
      smh_protocol_id = le_word (take 4 (drop 16 bs)), smh_length = le_word (take 4 (drop 20 bs))\<rparr>"

lemma take_drop_pieces:
  "take m (drop a xs) @ take n (drop (a + m) xs) = take (m + n) (drop a xs)"
  by (simp add: take_add add.commute)

lemma smh_length_to_bytes [simp]: "length (smh_to_bytes h) = 24"
  by (simp add: smh_to_bytes_def)

lemma smh_of_to_bytes [simp]: "smh_of_bytes (smh_to_bytes h) = h"
  by (simp add: smh_of_bytes_def smh_to_bytes_def)

lemma smh_to_of_bytes [simp]:
  assumes "length bs = 24"
  shows "smh_to_bytes (smh_of_bytes bs) = bs"
proof -
  have "smh_to_bytes (smh_of_bytes bs) =
      take 2 (drop 0 bs) @ take 2 (drop 2 bs) @ take 4 (drop 4 bs) @ take 4 (drop 8 bs) @
      take 2 (drop 12 bs) @ take 2 (drop 14 bs) @ take 4 (drop 16 bs) @ take 4 (drop 20 bs)"
    using assms by (simp add: smh_to_bytes_def smh_of_bytes_def)
  also have "\<dots> = take 24 (drop 0 bs)"
    using take_drop_pieces [of 4 16 bs 4] take_drop_pieces [of 2 14 bs 8]
      take_drop_pieces [of 2 12 bs 10] take_drop_pieces [of 4 8 bs 12]
      take_drop_pieces [of 4 4 bs 16] take_drop_pieces [of 2 2 bs 20]
      take_add [of 2 22 bs]
    by simp
  finally show ?thesis using assms by simp
qed

lemma smh_ntoh_hton [simp]: "smh_ntoh be (smh_hton be h) = h"
  by (simp add: smh_ntoh_def smh_hton_def)

section \<open>Internal header\<close>

datatype msg_way = one_way | two_way

record msg_option =
  opt_is_reply :: bool
  opt_is_one_way :: bool
  opt_protocol_type :: "2 word"
  opt_reserve :: "4 word"
  opt_reserve1 :: u8

record internal_msg_header =
  imh_flag :: u16
  imh_result :: u16
  imh_option :: msg_option
  imh_reserve_bytes :: u16
  imh_call_id :: u32
  imh_len :: u32
  imh_hash :: u64

definition imh_init :: "u16 \<Rightarrow> msg_option \<Rightarrow> u32 \<Rightarrow> u32 \<Rightarrow> u64 \<Rightarrow> internal_msg_header" where
  "imh_init code option call len hash =
     \<lparr>imh_flag = 65535, imh_result = code, imh_option = option, imh_reserve_bytes = 0,
      imh_call_id = call, imh_len = len, imh_hash = hash\<rparr>"

definition imh_ntoh :: "internal_msg_header \<Rightarrow> internal_msg_header" where "imh_ntoh h = h"
definition imh_hton :: "internal_msg_header \<Rightarrow> internal_msg_header" where "imh_hton h = h"

text \<open>The bit fields of \<open>msg_option\<close> fill its first byte from the least significant bit.\<close>

definition option_byte :: "msg_option \<Rightarrow> u8" where
  "option_byte p =
     of_bool (opt_is_reply p) OR push_bit 1 (of_bool (opt_is_one_way p)) OR
     push_bit 2 (ucast (opt_protocol_type p)) OR push_bit 4 (ucast (opt_reserve p))"

definition option_of_byte :: "u8 \<Rightarrow> u8 \<Rightarrow> msg_option" where
  "option_of_byte b b1 =
     \<lparr>opt_is_reply = bit b 0, opt_is_one_way = bit b 1, opt_protocol_type = ucast (drop_bit 2 b),
      opt_reserve = ucast (drop_bit 4 b), opt_reserve1 = b1\<rparr>"

definition imh_to_bytes :: "internal_msg_header \<Rightarrow> bytes" where
  "imh_to_bytes h =
     le_bytes 2 (imh_flag h) @ le_bytes 2 (imh_result h) @
     [option_byte (imh_option h), opt_reserve1 (imh_option h)] @
     le_bytes 2 (imh_reserve_bytes h) @ le_bytes 4 (imh_call_id h) @ le_bytes 4 (imh_len h) @
     le_bytes 8 (imh_hash h)"

definition imh_of_bytes :: "bytes \<Rightarrow> internal_msg_header" where
  "imh_of_bytes bs =
     \<lparr>imh_flag = le_word (take 2 bs), imh_result = le_word (take 2 (drop 2 bs)),
      imh_option = option_of_byte (le_word (take 1 (drop 4 bs))) (le_word (take 1 (drop 5 bs))),
      imh_reserve_bytes = le_word (take 2 (drop 6 bs)), imh_call_id = le_word (take 4 (drop 8 bs)),
      imh_len = le_word (take 4 (drop 12 bs)), imh_hash = le_word (take 8 (drop 16 bs))\<rparr>"

lemma bit_option_byte:
  "bit (option_byte p) i \<longleftrightarrow>
     (if i = 0 then opt_is_reply p else if i = 1 then opt_is_one_way p
      else if i < 4 then bit (opt_protocol_type p) (i - 2)
      else i < 8 \<and> bit (opt_reserve p) (i - 4))"
proof -
  have len: "bit (opt_protocol_type p) (i - 2) \<Longrightarrow> i < 4" "bit (opt_reserve p) (i - 4) \<Longrightarrow> i < 8"
    by (auto dest: bit_imp_le_length)
  show ?thesis
    using len
    by (auto simp: option_byte_def bit_or_iff bit_push_bit_iff bit_unsigned_iff bit_of_bool_iff
        bit_2_iff)
qed

lemma option_of_option_byte [simp]: "option_of_byte (option_byte p) (opt_reserve1 p) = p"
proof -
  have "ucast (drop_bit 2 (option_byte p)) = opt_protocol_type p"
    "ucast (drop_bit 4 (option_byte p)) = opt_reserve p"
    by (auto intro!: bit_word_eqI simp: bit_unsigned_iff bit_drop_bit_eq bit_option_byte)
  then show ?thesis
    by (simp add: option_of_byte_def bit_option_byte)
qed

lemma imh_length_to_bytes [simp]: "length (imh_to_bytes h) = 24"
  by (simp add: imh_to_bytes_def)

lemma le_word_single [simp]: "le_word [b] = (b :: u8)"
  by simp

lemma imh_of_to_bytes [simp]: "imh_of_bytes (imh_to_bytes h) = h"
  by (simp add: imh_of_bytes_def imh_to_bytes_def)

section \<open>The union header\<close>

type_synonym rpc_msg_header = bytes

definition rmh_valid :: "rpc_msg_header \<Rightarrow> bool" where "rmh_valid h \<longleftrightarrow> length h = 24"
definition rmh_size :: nat where "rmh_size = 24"

definition rmh_flag :: "rpc_msg_header \<Rightarrow> u16" where "rmh_flag h = le_word (take 2 h)"

definition rmh_new_internal :: "u16 \<Rightarrow> msg_option \<Rightarrow> u32 \<Rightarrow> u32 \<Rightarrow> u64 \<Rightarrow> rpc_msg_header" where
  "rmh_new_internal code option call len hash = imh_to_bytes (imh_init code option call len hash)"

definition rmh_new_server :: "u16 \<Rightarrow> u16 \<Rightarrow> u32 \<Rightarrow> u32 \<Rightarrow> u16 \<Rightarrow> u32 \<Rightarrow> u32 \<Rightarrow> rpc_msg_header" where
  "rmh_new_server from_id to_id conn call code protocol len =
     smh_to_bytes (smh_init from_id to_id conn call code protocol len)"

definition rmh_new_short :: "u16 \<Rightarrow> u32 \<Rightarrow> u32 \<Rightarrow> rpc_msg_header" where
  "rmh_new_short code protocol len = smh_to_bytes (smh_init_short code protocol len)"

definition rmh_upd_server :: "(server_msg_header \<Rightarrow> server_msg_header) \<Rightarrow> rpc_msg_header \<Rightarrow> rpc_msg_header" where
  "rmh_upd_server f h = smh_to_bytes (f (smh_of_bytes h))"

definition rmh_upd_internal :: "(internal_msg_header \<Rightarrow> internal_msg_header) \<Rightarrow> rpc_msg_header \<Rightarrow> rpc_msg_header" where
  "rmh_upd_internal f h = imh_to_bytes (f (imh_of_bytes h))"

definition rmh_is_internal :: "rpc_msg_header \<Rightarrow> bool" where
  "rmh_is_internal h \<longleftrightarrow> rmh_flag h = 65535"

definition rmh_is_reply :: "rpc_msg_header \<Rightarrow> bool" where
  "rmh_is_reply h =
     (if rmh_is_internal h then opt_is_reply (imh_option (imh_of_bytes h))
      else fp_is_reply (to_protocol (smh_protocol_id (smh_of_bytes h))))"

definition rmh_reply :: "bool \<Rightarrow> rpc_msg_header \<Rightarrow> rpc_msg_header" where
  "rmh_reply is_reply h =
     (if rmh_is_internal h
      then rmh_upd_internal (\<lambda>i. i\<lparr>imh_option := (imh_option i)\<lparr>opt_is_reply := is_reply\<rparr>\<rparr>) h
      else rmh_upd_server (\<lambda>s. s\<lparr>smh_protocol_id := reply_protocol (smh_protocol_id s)\<rparr>) h)"

definition rmh_need_reply :: "rpc_msg_header \<Rightarrow> bool" where
  "rmh_need_reply h =
     (if rmh_is_internal h
      then \<not> opt_is_reply (imh_option (imh_of_bytes h)) \<and> \<not> opt_is_one_way (imh_option (imh_of_bytes h))
      else (let proto = to_protocol (smh_protocol_id (smh_of_bytes h))
            in \<not> fp_is_reply proto \<and> fp_need_reply proto))"

definition rmh_result :: "rpc_msg_header \<Rightarrow> u16" where
  "rmh_result h =
     (if rmh_is_internal h then imh_result (imh_of_bytes h) else smh_result (smh_of_bytes h))"

definition rmh_set_result :: "u16 \<Rightarrow> rpc_msg_header \<Rightarrow> rpc_msg_header" where
  "rmh_set_result r h =
     (if rmh_is_internal h then rmh_upd_internal (\<lambda>i. i\<lparr>imh_result := r\<rparr>) h
      else rmh_upd_server (\<lambda>s. s\<lparr>smh_result := r\<rparr>) h)"

definition rmh_set_conn_id :: "u32 \<Rightarrow> rpc_msg_header \<Rightarrow> rpc_msg_header" where
  "rmh_set_conn_id i h =
     (if \<not> rmh_is_internal h then rmh_upd_server (\<lambda>s. s\<lparr>smh_conn_id := i\<rparr>) h else h)"

definition rmh_call_id :: "rpc_msg_header \<Rightarrow> u32" where
  "rmh_call_id h =
     (if rmh_is_internal h then imh_call_id (imh_of_bytes h) else smh_call_id (smh_of_bytes h))"

definition rmh_set_call_id :: "u32 \<Rightarrow> rpc_msg_header \<Rightarrow> rpc_msg_header" where
  "rmh_set_call_id i h =
     (if rmh_is_internal h then rmh_upd_internal (\<lambda>m. m\<lparr>imh_call_id := i\<rparr>) h
      else rmh_upd_server (\<lambda>s. s\<lparr>smh_call_id := i\<rparr>) h)"

definition rmh_length :: "rpc_msg_header \<Rightarrow> u32" where
  "rmh_length h =
     (if rmh_is_internal h then imh_len (imh_of_bytes h) else smh_length (smh_of_bytes h))"

definition rmh_set_length :: "u32 \<Rightarrow> rpc_msg_header \<Rightarrow> rpc_msg_header" where
  "rmh_set_length n h =
     (if rmh_is_internal h then rmh_upd_internal (\<lambda>i. i\<lparr>imh_len := n\<rparr>) h
      else rmh_upd_server (\<lambda>s. s\<lparr>smh_length := n\<rparr>) h)"

definition rmh_proto :: "rpc_msg_header \<Rightarrow> u64" where
  "rmh_proto h =
     (if rmh_is_internal h then imh_hash (imh_of_bytes h)
      else ucast (smh_protocol_id (smh_of_bytes h)))"

definition rmh_ntoh :: "bool \<Rightarrow> rpc_msg_header \<Rightarrow> rpc_msg_header" where
  "rmh_ntoh be h =
     (if rmh_is_internal h then rmh_upd_internal imh_ntoh h else rmh_upd_server (smh_ntoh be) h)"

definition rmh_hton :: "bool \<Rightarrow> rpc_msg_header \<Rightarrow> rpc_msg_header" where
  "rmh_hton be h =
     (if rmh_is_internal h then rmh_upd_internal imh_hton h else rmh_upd_server (smh_hton be) h)"


subsection \<open>Reading the union after a write\<close>

lemma option_byte_of_byte [simp]: "option_byte (option_of_byte b c) = b"
proof (rule bit_word_eqI)
  fix i
  assume "i < LENGTH(8)"
  moreover have "2 \<le> i \<Longrightarrow> Suc (Suc (i - 2)) = i" by simp
  ultimately show "bit (option_byte (option_of_byte b c)) i = bit b i"
    by (auto simp: bit_option_byte option_of_byte_def bit_unsigned_iff bit_drop_bit_eq)
qed

lemma le_word_take1: "k < length bs \<Longrightarrow> le_word (take (Suc 0) (drop k bs)) = (bs ! k :: u8)"
  by (simp add: take_Suc_conv_app_nth take_Suc drop_eq_Nil hd_drop_conv_nth)

lemma imh_to_of_bytes [simp]:
  assumes "length bs = 24"
  shows "imh_to_bytes (imh_of_bytes bs) = bs"
proof -
  have one: "[bs ! 4, bs ! 5] = take 2 (drop 4 bs)"
    using assms by (simp add: numeral_eq_Suc take_Suc drop_eq_Nil hd_drop_conv_nth tl_drop drop_Suc [symmetric])
  have o1: "opt_reserve1 (option_of_byte b c) = c" for b c by (simp add: option_of_byte_def)
  have "imh_to_bytes (imh_of_bytes bs) =
      take 2 (drop 0 bs) @ take 2 (drop 2 bs) @ take 2 (drop 4 bs) @ take 2 (drop 6 bs) @
      take 4 (drop 8 bs) @ take 4 (drop 12 bs) @ take 8 (drop 16 bs)"
    using assms by (simp add: imh_to_bytes_def imh_of_bytes_def le_word_take1 o1 one [symmetric])
  also have "\<dots> = take 24 (drop 0 bs)"
    using take_drop_pieces [of 4 12 bs 8] take_drop_pieces [of 4 8 bs 12]
      take_drop_pieces [of 2 6 bs 16] take_drop_pieces [of 2 4 bs 18]
      take_drop_pieces [of 2 2 bs 20] take_add [of 2 22 bs]
    by simp
  finally show ?thesis using assms by simp
qed

lemma rmh_upd_simps [simp]:
  "smh_of_bytes (rmh_upd_server f h) = f (smh_of_bytes h)"
  "imh_of_bytes (rmh_upd_internal g h) = g (imh_of_bytes h)"
  "rmh_flag (rmh_upd_server f h) = smh_from_unique_id (f (smh_of_bytes h))"
  "rmh_flag (rmh_upd_internal g h) = imh_flag (g (imh_of_bytes h))"
  "smh_from_unique_id (smh_of_bytes h) = rmh_flag h"
  "imh_flag (imh_of_bytes h) = rmh_flag h"
  "rmh_valid (rmh_upd_server f h)"
  "rmh_valid (rmh_upd_internal g h)"
  by (simp_all add: rmh_upd_server_def rmh_upd_internal_def rmh_flag_def smh_to_bytes_def
      imh_to_bytes_def smh_of_bytes_def [of h] imh_of_bytes_def [of h] rmh_valid_def)
    (simp_all add: smh_of_bytes_def imh_of_bytes_def)


lemma smh_hton_flag [simp]:
  "smh_from_unique_id (smh_hton be h) = 65535 \<longleftrightarrow> smh_from_unique_id h = 65535"
  by (simp add: smh_hton_def swap16_flag)

lemma rmh_is_internal_upd [simp]:
  "rmh_is_internal (rmh_hton be h) = rmh_is_internal h"
  "rmh_is_internal (rmh_set_result r h) = rmh_is_internal h"
  "rmh_is_internal (rmh_set_length n h) = rmh_is_internal h"
  "rmh_is_internal (rmh_set_call_id n h) = rmh_is_internal h"
  "rmh_is_internal (rmh_set_conn_id n h) = rmh_is_internal h"
  "rmh_is_internal (rmh_reply b h) = rmh_is_internal h"
  by (simp_all add: rmh_is_internal_def rmh_hton_def rmh_set_result_def rmh_set_length_def
      rmh_set_call_id_def rmh_set_conn_id_def rmh_reply_def imh_hton_def)

lemma rmh_valid_upd [simp]:
  "rmh_valid h \<Longrightarrow> rmh_valid (rmh_hton be h)"
  "rmh_valid h \<Longrightarrow> rmh_valid (rmh_ntoh be h)"
  "rmh_valid h \<Longrightarrow> rmh_valid (rmh_set_result r h)"
  "rmh_valid h \<Longrightarrow> rmh_valid (rmh_set_length n h)"
  "rmh_valid h \<Longrightarrow> rmh_valid (rmh_set_call_id n h)"
  "rmh_valid h \<Longrightarrow> rmh_valid (rmh_set_conn_id n h)"
  "rmh_valid h \<Longrightarrow> rmh_valid (rmh_reply b h)"
  by (simp_all add: rmh_hton_def rmh_ntoh_def rmh_set_result_def rmh_set_length_def
      rmh_set_call_id_def rmh_set_conn_id_def rmh_reply_def)

lemma rmh_ntoh_hton: "rmh_valid h \<Longrightarrow> rmh_ntoh be (rmh_hton be h) = h"
  by (simp add: rmh_ntoh_def rmh_is_internal_upd(1))
    (simp add: rmh_hton_def rmh_upd_server_def rmh_upd_internal_def imh_hton_def imh_ntoh_def
      rmh_valid_def)

interpretation rmh: wire_header "\<lambda>h. h" "take 24" rmh_size rmh_hton rmh_ntoh rmh_valid
  by unfold_locales (simp_all add: rmh_size_def rmh_ntoh_hton, simp_all add: rmh_valid_def)

section \<open>The operations the RPC layer is generic over\<close>

record 'h header_ops =
  ho_is_reply :: "'h \<Rightarrow> bool"
  ho_need_reply :: "'h \<Rightarrow> bool"
  ho_reply :: "bool \<Rightarrow> 'h \<Rightarrow> 'h"
  ho_result :: "'h \<Rightarrow> u16"
  ho_set_result :: "u16 \<Rightarrow> 'h \<Rightarrow> 'h"
  ho_call_id :: "'h \<Rightarrow> u32"
  ho_length :: "'h \<Rightarrow> u32"
  ho_set_length :: "u32 \<Rightarrow> 'h \<Rightarrow> 'h"
  ho_proto :: "'h \<Rightarrow> u64"
  ho_set_conn_id :: "u32 \<Rightarrow> 'h \<Rightarrow> 'h"

definition client_ops :: "client_msg_header header_ops" where
  "client_ops =
     \<lparr>ho_is_reply = cmh_is_reply, ho_need_reply = cmh_need_reply, ho_reply = cmh_reply,
      ho_result = cmh_result, ho_set_result = cmh_set_result, ho_call_id = cmh_call_id,
      ho_length = cmh_length, ho_set_length = cmh_set_length, ho_proto = cmh_proto,
      ho_set_conn_id = cmh_set_conn_id\<rparr>"

definition server_ops :: "rpc_msg_header header_ops" where
  "server_ops =
     \<lparr>ho_is_reply = rmh_is_reply, ho_need_reply = rmh_need_reply, ho_reply = rmh_reply,
      ho_result = rmh_result, ho_set_result = rmh_set_result, ho_call_id = rmh_call_id,
      ho_length = rmh_length, ho_set_length = rmh_set_length, ho_proto = rmh_proto,
      ho_set_conn_id = rmh_set_conn_id\<rparr>"

locale rpc_header =
  fixes ops :: "'h header_ops"
  assumes reply_marks: "ho_is_reply ops (ho_reply ops True h)"
    and need_not_reply: "ho_need_reply ops h \<Longrightarrow> \<not> ho_is_reply ops h"
    and result_set: "ho_result ops (ho_set_result ops r h) = r"
    and length_set: "ho_length ops (ho_set_length ops n h) = n"
    and set_result_frame:
      "ho_is_reply ops (ho_set_result ops r h) = ho_is_reply ops h"
      "ho_need_reply ops (ho_set_result ops r h) = ho_need_reply ops h"
      "ho_call_id ops (ho_set_result ops r h) = ho_call_id ops h"
      "ho_proto ops (ho_set_result ops r h) = ho_proto ops h"
      "ho_length ops (ho_set_result ops r h) = ho_length ops h"
    and set_length_frame:
      "ho_is_reply ops (ho_set_length ops n h) = ho_is_reply ops h"
      "ho_need_reply ops (ho_set_length ops n h) = ho_need_reply ops h"
      "ho_call_id ops (ho_set_length ops n h) = ho_call_id ops h"
      "ho_proto ops (ho_set_length ops n h) = ho_proto ops h"
      "ho_result ops (ho_set_length ops n h) = ho_result ops h"
begin

lemma reply_no_need: "\<not> ho_need_reply ops (ho_reply ops True h)"
  using reply_marks need_not_reply by blast

lemmas frame = result_set length_set set_result_frame set_length_frame

end

lemmas rmh_acc_defs =
  rmh_is_reply_def rmh_need_reply_def rmh_reply_def rmh_result_def rmh_set_result_def
  rmh_call_id_def rmh_set_call_id_def rmh_length_def rmh_set_length_def rmh_proto_def
  rmh_set_conn_id_def

lemmas cmh_acc_defs =
  cmh_is_reply_def cmh_need_reply_def cmh_reply_def cmh_set_result_def cmh_call_id_def
  cmh_set_length_def cmh_proto_def cmh_set_conn_id_def

interpretation client_hdr: rpc_header client_ops
  by unfold_locales (auto simp: client_ops_def cmh_acc_defs to_protocol_reply Let_def)

lemma rmh_internal_set:
  "rmh_flag h = 65535 \<Longrightarrow> rmh_is_internal h" "rmh_flag h \<noteq> 65535 \<Longrightarrow> \<not> rmh_is_internal h"
  by (simp_all add: rmh_is_internal_def)

interpretation server_hdr: rpc_header server_ops
  by unfold_locales
    (cases "rmh_is_internal h";
      auto simp: server_ops_def rmh_acc_defs to_protocol_reply Let_def rmh_is_internal_def)+


section \<open>Properties\<close>

text \<open>
  (C24) A header put on the wire in network order arrives unchanged, for all three header types and
  for either setting of the byte-order switch, whatever payload follows it. For the union header
  this needs that conversion never changes which member is active: the receiver decides that on
  the bytes as they arrive, before it converts them.
\<close>

theorem header_arrives_unchanged:
  assumes "rmh_valid r"
  shows "mh_ntoh be (mh_of_buffer (mh_to_buffer (mh_hton be h) @ payload)) = h \<and>
         cmh_ntoh be (cmh_of_bytes (cmh_to_bytes (cmh_hton be c) @ payload)) = c \<and>
         rmh_ntoh be (take 24 (rmh_hton be r @ payload)) = r \<and>
         rmh_is_internal (rmh_hton be r) = rmh_is_internal r"
  using mh.received_header [where h = h and be = be and payload = payload]
    cmh.received_header [where h = c and be = be and payload = payload]
    rmh.received_header [OF assms, of be payload]
  by (simp only: mh.wire_image_def cmh.wire_image_def rmh.wire_image_def rmh_is_internal_upd)

theorem header_arrives_unchanged_witness:
  "rmh_valid (rmh_new_short 7 9 3) \<and>
   rmh_ntoh True (take 24 (rmh_hton True (rmh_new_short 7 9 3) @ [1, 2, 3])) = rmh_new_short 7 9 3"
proof -
  have "rmh_valid (rmh_new_short 7 9 3)"
    by (simp add: rmh_valid_def rmh_new_short_def)
  then show ?thesis using header_arrives_unchanged by blast
qed

text \<open>
  The accessors of the union header read back what was set whichever member is active, a
  reply is marked as one and asks for no reply, and setting the result, the length, the call id or
  the connection id changes no other field the RPC layer looks at.
\<close>

theorem union_header_accessors:
  "rmh_result (rmh_set_result r h) = r \<and> rmh_length (rmh_set_length n h) = n \<and>
   rmh_call_id (rmh_set_call_id c h) = c \<and>
   rmh_is_reply (rmh_reply True h) \<and> \<not> rmh_need_reply (rmh_reply True h) \<and>
   rmh_call_id (rmh_reply True h) = rmh_call_id h \<and>
   rmh_length (rmh_set_result r h) = rmh_length h \<and> rmh_proto (rmh_set_result r h) = rmh_proto h \<and>
   rmh_proto (rmh_set_length n h) = rmh_proto h \<and> rmh_proto (rmh_set_call_id c h) = rmh_proto h \<and>
   rmh_need_reply (rmh_set_call_id c h) = rmh_need_reply h \<and>
   rmh_call_id (rmh_set_conn_id k h) = rmh_call_id h \<and>
   rmh_is_internal (rmh_set_conn_id k h) = rmh_is_internal h"
proof (intro conjI)
  show "rmh_is_reply (rmh_reply True h)" "\<not> rmh_need_reply (rmh_reply True h)"
    using server_hdr.reply_marks [of h] server_hdr.reply_no_need [of h]
    by (simp_all add: server_ops_def)
qed (cases "rmh_is_internal h"; auto simp: rmh_acc_defs Let_def rmh_is_internal_def)+

text \<open>
  A server header whose sender has the id 65535 is taken for an internal header: the length
  the receiver then uses is the result code of the message, not its length.
\<close>

lemma sender_65535_read_as_internal:
  "rmh_is_internal (rmh_new_server 65535 to_id conn call code protocol len) \<and>
   rmh_length (rmh_new_server 65535 to_id conn call code protocol len) = ucast code"
proof -
  let ?h = "rmh_new_server 65535 to_id conn call code protocol len"
  have int: "rmh_is_internal ?h"
    by (simp add: rmh_is_internal_def rmh_flag_def rmh_new_server_def smh_to_bytes_def smh_init_def)
  have "take 4 (drop 12 ?h) = le_bytes 2 code @ le_bytes 2 (0 :: u16)"
    by (simp add: rmh_new_server_def smh_to_bytes_def smh_init_def)
  also have "\<dots> = le_bytes 4 (ucast code :: u32)"
  proof -
    have "le_bytes 2 (0 :: u16) = [0, 0]" by (simp add: numeral_eq_Suc)
    moreover have hi: "\<not> bit code (16 + n)" "\<not> bit code (24 + n)" for n
      using bit_imp_le_length [of code "16 + n"] bit_imp_le_length [of code "24 + n"] by auto
    have "ucast (ucast code :: u32) = (ucast code :: u8)"
      "ucast (drop_bit 8 (ucast code :: u32)) = (ucast (drop_bit 8 code) :: u8)"
      "ucast (drop_bit 16 (ucast code :: u32)) = (0 :: u8)"
      "ucast (drop_bit 24 (ucast code :: u32)) = (0 :: u8)"
      by (auto intro!: bit_word_eqI simp: bit_unsigned_iff bit_drop_bit_eq hi)
    ultimately show ?thesis
      by (simp add: numeral_eq_Suc)
  qed
  finally have "imh_len (imh_of_bytes ?h) = ucast code"
    by (simp add: imh_of_bytes_def)
  with int show ?thesis by (simp add: rmh_length_def)
qed

text \<open>
  The argument of \<open>reply\<close> is ignored by the client header and by a server header: asking to
  clear the reply mark sets it. Only an internal header obeys the argument.
\<close>

lemma reply_false_still_marks:
  assumes "\<not> rmh_is_internal h" "rmh_is_internal k"
  shows "rmh_is_reply (rmh_reply False h) \<and> cmh_is_reply (cmh_reply False c) \<and>
         \<not> rmh_is_reply (rmh_reply False k)"
  using assms by (simp add: rmh_is_reply_def cmh_acc_defs to_protocol_reply)
    (simp add: rmh_reply_def to_protocol_reply)

lemma reply_false_still_marks_example:
  "\<not> rmh_is_internal (rmh_new_short 0 5 0) \<and> rmh_is_reply (rmh_reply False (rmh_new_short 0 5 0))"
proof -
  have a: "\<not> rmh_is_internal (rmh_new_short 0 5 0)"
    by (simp add: rmh_is_internal_def rmh_flag_def rmh_new_short_def smh_to_bytes_def
        smh_init_short_def smh_init_def)
  have b: "rmh_is_internal (rmh_new_internal 0 (option_of_byte 0 0) 0 0 0)"
    by (simp add: rmh_is_internal_def rmh_flag_def rmh_new_internal_def imh_to_bytes_def imh_init_def)
  from a reply_false_still_marks [OF a b] show ?thesis by blast
qed

end
