(* ===== verification/Rpc_Context.thy ===== *)
theory Rpc_Context
  imports Rpc_Header "HOL-Library.AList"
begin

text \<open>
  A call of the RPC layer and the containers that keep the calls waiting for a reply,
  \<open>src/network/rpc/net/async_rpc_context.hpp\<close> with \<open>waitable_object\<close> of
  \<open>src/network/base/waitable_object.hpp\<close>. Contexts are shared objects: the containers hold handles,
  and the operations that change a context work on the table of contexts. User functions are
  numbers, and a call of one is an entry in the log of the context.

  Both containers keep, for each id a reply can carry, the calls that wait for it in the order they
  were made: \<open>call_queue\<close> is that contract, interpreted for the container of server channels, which
  gives every call an id of its own, and for the one of client channels, where calls of the same
  reply protocol wait in one queue.
\<close>

section \<open>Contexts\<close>

datatype ctx_event = Called_Ok nat bytes | Called_Error nat net_result | Notified

record 'h rpc_context =
  cx_send_msg :: bytes
  cx_head :: 'h
  cx_recv_msg :: bytes
  cx_err :: net_result
  cx_on_ok :: "nat option"
  cx_on_error :: "nat option"
  cx_post_func :: "nat option"
  cx_barrier :: bool
  cx_is_over :: bool
  cx_timer :: bool
  cx_duration :: int
  cx_reply_protocol_id :: u32
  cx_log :: "ctx_event list"

definition ctx_new :: "'h \<Rightarrow> bytes \<Rightarrow> 'h rpc_context" where
  "ctx_new h msg =
     \<lparr>cx_send_msg = msg, cx_head = h, cx_recv_msg = [], cx_err = net_result_ok, cx_on_ok = None, cx_on_error = None,
      cx_post_func = None, cx_barrier = False, cx_is_over = False, cx_timer = False, cx_duration = 0,
      cx_reply_protocol_id = 0, cx_log = []\<rparr>"

text \<open>The constructors: a call by protocol id, a response, a response built from a body alone, and the
  call of a server channel by name.\<close>

definition ctx_call_client :: "u32 \<Rightarrow> bytes \<Rightarrow> client_msg_header rpc_context" where
  "ctx_call_client protocol msg = ctx_new (cmh_new 0 protocol (word_of_nat (length msg))) msg"

definition ctx_call_server :: "u32 \<Rightarrow> bytes \<Rightarrow> rpc_msg_header rpc_context" where
  "ctx_call_server protocol msg = ctx_new (rmh_new_short 0 protocol (word_of_nat (length msg))) msg"

definition ctx_response :: "'h header_ops \<Rightarrow> 'h \<Rightarrow> bytes \<Rightarrow> nat option \<Rightarrow> 'h rpc_context" where
  "ctx_response ops h msg postf =
     (ctx_new (ho_set_length ops (word_of_nat (length msg)) h) msg)\<lparr>cx_post_func := postf\<rparr>"

definition ctx_response_body :: "'h header_ops \<Rightarrow> 'h \<Rightarrow> bytes \<Rightarrow> nat option \<Rightarrow> 'h rpc_context" where
  "ctx_response_body ops uninit msg postf =
     (ctx_new (ho_set_length ops (word_of_nat (length msg)) (ho_reply ops True uninit)) msg)\<lparr>cx_post_func := postf\<rparr>"

definition ctx_call_named :: "msg_way \<Rightarrow> u64 \<Rightarrow> bytes \<Rightarrow> rpc_msg_header rpc_context" where
  "ctx_call_named way hash msg =
     ctx_new (rmh_new_internal 0
       \<lparr>opt_is_reply = False, opt_is_one_way = (way = one_way), opt_protocol_type = 0, opt_reserve = 0, opt_reserve1 = 0\<rparr>
       0 (word_of_nat (length msg)) hash) msg"

definition make_error_message :: "'h header_ops \<Rightarrow> 'h \<Rightarrow> error_code \<Rightarrow> 'h rpc_context" where
  "make_error_message ops h code =
     ctx_response ops (ho_set_result ops (word_of_int (error_code_value code)) h) [] None"

definition ctx_is_reply :: "'h header_ops \<Rightarrow> 'h rpc_context \<Rightarrow> bool" where
  "ctx_is_reply ops c = ho_is_reply ops (cx_head c)"

definition ctx_need_reply :: "'h header_ops \<Rightarrow> 'h rpc_context \<Rightarrow> bool" where
  "ctx_need_reply ops c = ho_need_reply ops (cx_head c)"

definition ctx_reply_protocol :: "client_msg_header rpc_context \<Rightarrow> u32" where
  "ctx_reply_protocol c =
     (if cx_reply_protocol_id c \<noteq> 0 then cx_reply_protocol_id c else reply_protocol (cmh_protocol_id (cx_head c)))"

definition ctx_have_reply_process :: "'h rpc_context \<Rightarrow> bool" where
  "ctx_have_reply_process c \<longleftrightarrow> cx_on_ok c \<noteq> None \<or> cx_on_error c \<noteq> None \<or> cx_barrier c \<or> cx_timer c"

definition ctx_get_recv_message :: "nat \<Rightarrow> 'h rpc_context \<Rightarrow> 'h rpc_context" where
  "ctx_get_recv_message n c =
     c\<lparr>cx_recv_msg := take n (cx_recv_msg c) @ replicate (n - length (cx_recv_msg c)) 0\<rparr>"

definition ctx_ok :: "'h rpc_context \<Rightarrow> 'h rpc_context" where
  "ctx_ok c =
     (if \<not> cx_is_over c then
        c\<lparr>cx_is_over := True,
          cx_log := cx_log c @ (case cx_on_ok c of Some f \<Rightarrow> [Called_Ok f (cx_recv_msg c)] | None \<Rightarrow> []) @
                    (if cx_barrier c then [Notified] else [])\<rparr>
      else c)"

definition ctx_post_error :: "'h rpc_context \<Rightarrow> 'h rpc_context" where
  "ctx_post_error c =
     (if \<not> cx_is_over c then
        c\<lparr>cx_is_over := True,
          cx_log := cx_log c @ (case cx_on_error c of Some f \<Rightarrow> [Called_Error f (cx_err c)] | None \<Rightarrow> []) @
                    (if cx_barrier c then [Notified] else [])\<rparr>
      else c)"

definition ctx_error :: "net_result \<Rightarrow> 'h rpc_context \<Rightarrow> 'h rpc_context" where
  "ctx_error e c = ctx_post_error (c\<lparr>cx_err := e\<rparr>)"

definition ctx_create_barrier :: "'h rpc_context \<Rightarrow> 'h rpc_context" where
  "ctx_create_barrier c = (if \<not> cx_barrier c then c\<lparr>cx_barrier := True\<rparr> else c)"

text \<open>\<open>wait\<close>: nothing while the barrier has not been notified, then the error as an exception.\<close>

definition ctx_wait :: "'h rpc_context \<Rightarrow> (net_result + unit) option" where
  "ctx_wait c =
     (if cx_barrier c \<and> Notified \<notin> set (cx_log c) then None
      else Some (if \<not> is_success (cx_err c) then Inl (cx_err c) else Inr ()))"

definition ctx_apply_post_func :: "'h rpc_context \<Rightarrow> nat list" where
  "ctx_apply_post_func c = (case cx_post_func c of Some f \<Rightarrow> [f] | None \<Rightarrow> [])"

definition ctx_timeout :: "int \<Rightarrow> 'h rpc_context \<Rightarrow> 'h rpc_context" where
  "ctx_timeout d c = c\<lparr>cx_duration := d\<rparr>"

section \<open>The container of a server channel\<close>

type_synonym 'h ctx_table = "nat \<Rightarrow> 'h rpc_context"

record server_calls =
  sc_call_map :: "(u32 \<times> nat) list"
  sc_call_list :: "nat list"
  sc_call_id :: u32

definition sc_new :: server_calls where
  "sc_new = \<lparr>sc_call_map = [], sc_call_list = [], sc_call_id = 0\<rparr>"

definition sc_push_call_response :: "nat \<Rightarrow> rpc_msg_header ctx_table \<Rightarrow> server_calls \<Rightarrow>
    rpc_msg_header ctx_table \<times> server_calls" where
  "sc_push_call_response x tab c =
     (if ctx_need_reply server_ops (tab x) then
        (let i = sc_call_id c + 1
         in (tab(x := (tab x)\<lparr>cx_head := rmh_set_call_id i (cx_head (tab x))\<rparr>),
             c\<lparr>sc_call_id := i,
               sc_call_map := (if map_of (sc_call_map c) i = None then sc_call_map c @ [(i, x)] else sc_call_map c)\<rparr>))
      else (tab, c))"

definition sc_push_call :: "nat \<Rightarrow> rpc_msg_header ctx_table \<Rightarrow> server_calls \<Rightarrow>
    bool \<times> rpc_msg_header ctx_table \<times> server_calls" where
  "sc_push_call x tab c =
     (let (tab1, c1) = (if ctx_need_reply server_ops (tab x) \<and> ctx_have_reply_process (tab x)
                        then sc_push_call_response x tab c else (tab, c))
      in (True, tab1, c1\<lparr>sc_call_list := sc_call_list c1 @ [x]\<rparr>))"

definition sc_task_calls_from_list :: "server_calls \<Rightarrow> nat list \<times> server_calls" where
  "sc_task_calls_from_list c = (sc_call_list c, c\<lparr>sc_call_list := []\<rparr>)"

definition sc_call_list_empty :: "server_calls \<Rightarrow> bool" where
  "sc_call_list_empty c \<longleftrightarrow> sc_call_list c = []"

definition sc_get_call_from_map :: "u32 \<Rightarrow> server_calls \<Rightarrow> nat option \<times> server_calls" where
  "sc_get_call_from_map i c =
     (case map_of (sc_call_map c) i of
        Some x \<Rightarrow> (Some x, c\<lparr>sc_call_map := AList.delete i (sc_call_map c)\<rparr>)
      | None \<Rightarrow> (None, c))"

definition sc_remove_call_from_map :: "u32 \<Rightarrow> server_calls \<Rightarrow> server_calls" where
  "sc_remove_call_from_map i c =
     (if map_of (sc_call_map c) i \<noteq> None then c\<lparr>sc_call_map := AList.delete i (sc_call_map c)\<rparr> else c)"

definition sc_task_calls_from_map :: "server_calls \<Rightarrow> nat list \<times> server_calls" where
  "sc_task_calls_from_map c = (map snd (sc_call_map c), c\<lparr>sc_call_map := []\<rparr>)"

section \<open>The container of a client channel\<close>

record client_calls =
  cc_call_map :: "(u32 \<times> nat list) list"
  cc_call_list :: "nat list"

definition cc_new :: client_calls where
  "cc_new = \<lparr>cc_call_map = [], cc_call_list = []\<rparr>"

definition cc_push_call_response :: "nat \<Rightarrow> client_msg_header ctx_table \<Rightarrow> client_calls \<Rightarrow>
    client_msg_header ctx_table \<times> client_calls" where
  "cc_push_call_response x tab c =
     (if ctx_need_reply client_ops (tab x) then
        (let p = ctx_reply_protocol (tab x)
         in (tab, case map_of (cc_call_map c) p of
                    Some q \<Rightarrow> c\<lparr>cc_call_map := AList.update p (q @ [x]) (cc_call_map c)\<rparr>
                  | None \<Rightarrow> c\<lparr>cc_call_map := cc_call_map c @ [(p, [x])]\<rparr>))
      else (tab, c))"

definition cc_push_call :: "nat \<Rightarrow> client_msg_header ctx_table \<Rightarrow> client_calls \<Rightarrow>
    bool \<times> client_msg_header ctx_table \<times> client_calls" where
  "cc_push_call x tab c =
     (let (tab1, c1) = (if ctx_need_reply client_ops (tab x) then cc_push_call_response x tab c else (tab, c))
      in (True, tab1, c1\<lparr>cc_call_list := cc_call_list c1 @ [x]\<rparr>))"

definition cc_task_calls_from_list :: "client_calls \<Rightarrow> nat list \<times> client_calls" where
  "cc_task_calls_from_list c = (cc_call_list c, c\<lparr>cc_call_list := []\<rparr>)"

definition cc_call_list_empty :: "client_calls \<Rightarrow> bool" where
  "cc_call_list_empty c \<longleftrightarrow> cc_call_list c = []"

text \<open>Dropping the front of the queue of a protocol, and the queue with it when it was the last.\<close>

definition cc_pop :: "u32 \<Rightarrow> nat list \<Rightarrow> client_calls \<Rightarrow> client_calls" where
  "cc_pop p q c =
     c\<lparr>cc_call_map := (if tl q = [] then AList.delete p (cc_call_map c) else AList.update p (tl q) (cc_call_map c))\<rparr>"

definition cc_get_call_from_map :: "u32 \<Rightarrow> client_calls \<Rightarrow> nat option \<times> client_calls" where
  "cc_get_call_from_map p c =
     (case map_of (cc_call_map c) p of Some q \<Rightarrow> (Some (hd q), cc_pop p q c) | None \<Rightarrow> (None, c))"

definition cc_remove_call_from_map :: "u32 \<Rightarrow> client_calls \<Rightarrow> client_calls" where
  "cc_remove_call_from_map p c =
     (case map_of (cc_call_map c) p of Some q \<Rightarrow> cc_pop p q c | None \<Rightarrow> c)"

definition cc_task_calls_from_map :: "client_calls \<Rightarrow> nat list \<times> client_calls" where
  "cc_task_calls_from_map c = (concat (map snd (cc_call_map c)), c\<lparr>cc_call_map := []\<rparr>)"

section \<open>The contract of a container\<close>

text \<open>The calls that a number of replies with the same id find, one after the other.\<close>

primrec gets :: "(u32 \<Rightarrow> 's \<Rightarrow> nat option \<times> 's) \<Rightarrow> nat \<Rightarrow> u32 \<Rightarrow> 's \<Rightarrow> nat option list" where
  "gets get 0 k s = []"
| "gets get (Suc n) k s = fst (get k s) # gets get n k (snd (get k s))"

text \<open>
  A container as its channel uses it: \<open>push\<close> enters a call that expects a reply, \<open>get\<close> takes the call
  a reply with the given id is for. \<open>waiting\<close> is the abstraction: the calls that wait under an id,
  oldest first. \<open>key\<close> is the id the reply to a call carries, \<open>ready\<close> says that a call may be entered.
\<close>

locale call_queue =
  fixes push :: "nat \<Rightarrow> 's \<Rightarrow> 's"
    and get :: "u32 \<Rightarrow> 's \<Rightarrow> nat option \<times> 's"
    and key :: "nat \<Rightarrow> 's \<Rightarrow> u32"
    and ready :: "nat \<Rightarrow> 's \<Rightarrow> bool"
    and waiting :: "'s \<Rightarrow> u32 \<Rightarrow> nat list"
    and inv :: "'s \<Rightarrow> bool"
  assumes push_inv: "inv s \<Longrightarrow> ready x s \<Longrightarrow> inv (push x s)"
    and push_waiting: "inv s \<Longrightarrow> ready x s \<Longrightarrow>
      waiting (push x s) = (waiting s)(key x (push x s) := waiting s (key x (push x s)) @ [x])"
    and get_inv: "inv s \<Longrightarrow> inv (snd (get k s))"
    and get_result: "inv s \<Longrightarrow> fst (get k s) = (case waiting s k of [] \<Rightarrow> None | x # _ \<Rightarrow> Some x)"
    and get_waiting: "inv s \<Longrightarrow> waiting (snd (get k s)) = (waiting s)(k := tl (waiting s k))"
begin

lemma push_get:
  assumes "inv s" "ready x s" "waiting s (key x (push x s)) = []"
  shows "fst (get (key x (push x s)) (push x s)) = Some x"
    "waiting (snd (get (key x (push x s)) (push x s))) = waiting s"
proof -
  note w = push_waiting [OF assms(1,2)] and i = push_inv [OF assms(1,2)]
  show "fst (get (key x (push x s)) (push x s)) = Some x"
    using get_result [OF i] by (simp add: w assms(3))
  have "waiting s = (waiting s)(key x (push x s) := [])" using assms(3) by (simp add: fun_upd_idem)
  then show "waiting (snd (get (key x (push x s)) (push x s))) = waiting s"
    using get_waiting [OF i] by (simp add: w assms(3))
qed

text \<open>Replies with one id are matched with the calls waiting under it first come, first served.\<close>

lemma gets_fifo: "inv s \<Longrightarrow> n \<le> length (waiting s k) \<Longrightarrow> gets get n k s = map Some (take n (waiting s k))"
proof (induction n arbitrary: s)
  case (Suc n)
  then obtain x xs where w: "waiting s k = x # xs" by (cases "waiting s k") auto
  from Suc.prems w get_waiting [OF Suc.prems(1), of k] get_inv
  have "gets get n k (snd (get k s)) = map Some (take n xs)" by (intro Suc.IH [THEN trans]) simp_all
  with get_result [OF Suc.prems(1), of k] w show ?case by simp
qed simp

lemma gets_empty: "inv s \<Longrightarrow> waiting s k = [] \<Longrightarrow> fst (get k s) = None"
  by (simp add: get_result)

end

subsection \<open>The server container implements it\<close>

type_synonym server_state = "rpc_msg_header ctx_table \<times> server_calls"

definition sq_push :: "nat \<Rightarrow> server_state \<Rightarrow> server_state" where
  "sq_push x s = snd (sc_push_call x (fst s) (snd s))"

definition sq_get :: "u32 \<Rightarrow> server_state \<Rightarrow> nat option \<times> server_state" where
  "sq_get k s = (let (r, c) = sc_get_call_from_map k (snd s) in (r, fst s, c))"

definition sq_key :: "nat \<Rightarrow> server_state \<Rightarrow> u32" where
  "sq_key x s = rmh_call_id (cx_head (fst s x))"

definition sq_ready :: "nat \<Rightarrow> server_state \<Rightarrow> bool" where
  "sq_ready x s \<longleftrightarrow> ctx_need_reply server_ops (fst s x) \<and> ctx_have_reply_process (fst s x) \<and>
     map_of (sc_call_map (snd s)) (sc_call_id (snd s) + 1) = None"

definition sq_waiting :: "server_state \<Rightarrow> u32 \<Rightarrow> nat list" where
  "sq_waiting s k = (case map_of (sc_call_map (snd s)) k of Some x \<Rightarrow> [x] | None \<Rightarrow> [])"

lemma rmh_call_id_set [simp]: "rmh_call_id (rmh_set_call_id i h) = i"
  by (cases "rmh_is_internal h") (auto simp: rmh_acc_defs Let_def rmh_is_internal_def)

interpretation sq: call_queue sq_push sq_get sq_key sq_ready sq_waiting "\<lambda>_. True"
proof unfold_locales
  fix x s
  assume "sq_ready x s"
  then show "sq_waiting (sq_push x s) = (sq_waiting s)(sq_key x (sq_push x s) := sq_waiting s (sq_key x (sq_push x s)) @ [x])"
    by (auto simp: sq_ready_def sq_push_def sq_key_def sq_waiting_def sc_push_call_def sc_push_call_response_def
        Let_def fun_eq_iff map_add_def split: option.splits)
next
  fix k s
  show "fst (sq_get k s) = (case sq_waiting s k of [] \<Rightarrow> None | x # _ \<Rightarrow> Some x)"
    by (auto simp: sq_get_def sc_get_call_from_map_def sq_waiting_def split: option.splits)
  show "sq_waiting (snd (sq_get k s)) = (sq_waiting s)(k := tl (sq_waiting s k))"
    by (auto simp: sq_get_def sc_get_call_from_map_def sq_waiting_def fun_eq_iff delete_conv' split: option.splits)
qed simp_all

subsection \<open>The client container implements it\<close>

type_synonym client_state = "client_msg_header ctx_table \<times> client_calls"

definition cq_push :: "nat \<Rightarrow> client_state \<Rightarrow> client_state" where
  "cq_push x s = snd (cc_push_call x (fst s) (snd s))"

definition cq_get :: "u32 \<Rightarrow> client_state \<Rightarrow> nat option \<times> client_state" where
  "cq_get k s = (let (r, c) = cc_get_call_from_map k (snd s) in (r, fst s, c))"

definition cq_key :: "nat \<Rightarrow> client_state \<Rightarrow> u32" where
  "cq_key x s = ctx_reply_protocol (fst s x)"

definition cq_ready :: "nat \<Rightarrow> client_state \<Rightarrow> bool" where
  "cq_ready x s \<longleftrightarrow> ctx_need_reply client_ops (fst s x)"

definition cq_waiting :: "client_state \<Rightarrow> u32 \<Rightarrow> nat list" where
  "cq_waiting s k = (case map_of (cc_call_map (snd s)) k of Some q \<Rightarrow> q | None \<Rightarrow> [])"

text \<open>No queue in the map is empty.\<close>

definition cq_inv :: "client_state \<Rightarrow> bool" where
  "cq_inv s \<longleftrightarrow> (\<forall>k. map_of (cc_call_map (snd s)) k \<noteq> Some [])"

interpretation cq: call_queue cq_push cq_get cq_key cq_ready cq_waiting cq_inv
proof unfold_locales
  fix x s
  assume r: "cq_ready x s" and i: "cq_inv s"
  then show "cq_inv (cq_push x s)"
    by (auto simp: cq_inv_def cq_ready_def cq_push_def cc_push_call_def cc_push_call_response_def Let_def
        update_conv' map_add_def split: option.splits if_splits)
  show "cq_waiting (cq_push x s) = (cq_waiting s)(cq_key x (cq_push x s) := cq_waiting s (cq_key x (cq_push x s)) @ [x])"
    using r by (auto simp: cq_ready_def cq_push_def cq_key_def cq_waiting_def cc_push_call_def cc_push_call_response_def
        Let_def fun_eq_iff update_conv' map_add_def split: option.splits)
next
  fix k s
  assume i: "cq_inv s"
  then show "cq_inv (snd (cq_get k s))"
    by (auto simp: cq_inv_def cq_get_def cc_get_call_from_map_def cc_pop_def update_conv' delete_conv' split: option.splits)
  show "fst (cq_get k s) = (case cq_waiting s k of [] \<Rightarrow> None | x # _ \<Rightarrow> Some x)"
    using i by (auto simp: cq_inv_def cq_get_def cc_get_call_from_map_def cq_waiting_def split: option.splits list.splits)
  show "cq_waiting (snd (cq_get k s)) = (cq_waiting s)(k := tl (cq_waiting s k))"
    by (auto simp: cq_get_def cc_get_call_from_map_def cc_pop_def cq_waiting_def fun_eq_iff update_conv' delete_conv'
        split: option.splits)
qed

lemma cq_push_all:
  "list_all (\<lambda>x. ctx_need_reply client_ops (tab x) \<and> ctx_reply_protocol (tab x) = p) xs \<Longrightarrow> cq_inv (tab, c) \<Longrightarrow>
   \<exists>c'. fold cq_push xs (tab, c) = (tab, c') \<and> cq_inv (tab, c') \<and> cq_waiting (tab, c') p = cq_waiting (tab, c) p @ xs"
proof (induction xs arbitrary: c)
  case (Cons x xs)
  obtain c1 where c1: "cq_push x (tab, c) = (tab, c1)"
    using Cons.prems(1) by (simp add: cq_push_def cc_push_call_def cc_push_call_response_def Let_def)
  have "cq_ready x (tab, c)" "cq_key x (tab, c1) = p" using Cons.prems(1) by (simp_all add: cq_ready_def cq_key_def)
  then have "cq_inv (tab, c1)" "cq_waiting (tab, c1) p = cq_waiting (tab, c) p @ [x]"
    using cq.push_inv [of "(tab, c)" x] cq.push_waiting [of "(tab, c)" x] Cons.prems(2) by (simp_all add: c1)
  with Cons.IH [of c1] Cons.prems(1) show ?case by (simp add: c1)
qed simp

section \<open>Completing a context\<close>

datatype ctx_op = Op_Ok | Op_Error net_result

primrec ctx_do :: "ctx_op \<Rightarrow> 'h rpc_context \<Rightarrow> 'h rpc_context" where
  "ctx_do Op_Ok c = ctx_ok c"
| "ctx_do (Op_Error e) c = ctx_error e c"

lemma ctx_do_over: "cx_is_over (ctx_do op c)"
  by (cases op) (simp_all add: ctx_ok_def ctx_error_def ctx_post_error_def)

lemma ctx_do_again: "cx_is_over c \<Longrightarrow> cx_log (ctx_do op c) = cx_log c"
  by (cases op) (simp_all add: ctx_ok_def ctx_error_def ctx_post_error_def)

lemma ctx_do_all_over: "cx_is_over c \<Longrightarrow> cx_log (fold ctx_do ops c) = cx_log c \<and> cx_is_over (fold ctx_do ops c)"
  by (induction ops arbitrary: c) (simp_all add: ctx_do_over ctx_do_again)

section \<open>Properties\<close>

text \<open>
  A call completes exactly once: whatever replies, errors and timeouts reach a context after
  the first of them, in whatever order, only the first runs a user function or releases a waiter.
\<close>

theorem context_completes_once:
  assumes "\<not> cx_is_over c"
  shows "cx_log (fold ctx_do (op # ops) c) =
    cx_log c @
    (case op of
       Op_Ok \<Rightarrow> (case cx_on_ok c of Some f \<Rightarrow> [Called_Ok f (cx_recv_msg c)] | None \<Rightarrow> [])
     | Op_Error e \<Rightarrow> (case cx_on_error c of Some f \<Rightarrow> [Called_Error f e] | None \<Rightarrow> [])) @
    (if cx_barrier c then [Notified] else [])"
proof -
  have "cx_log (fold ctx_do (op # ops) c) = cx_log (ctx_do op c)"
    by (simp add: ctx_do_all_over ctx_do_over)
  also have "\<dots> = cx_log c @
    (case op of
       Op_Ok \<Rightarrow> (case cx_on_ok c of Some f \<Rightarrow> [Called_Ok f (cx_recv_msg c)] | None \<Rightarrow> [])
     | Op_Error e \<Rightarrow> (case cx_on_error c of Some f \<Rightarrow> [Called_Error f e] | None \<Rightarrow> [])) @
    (if cx_barrier c then [Notified] else [])"
    using assms by (cases op) (simp_all add: ctx_ok_def ctx_error_def ctx_post_error_def split: option.split)
  finally show ?thesis .
qed

theorem context_completes_once_witness:
  "cx_log (fold ctx_do [Op_Ok, Op_Error (net_result_code EC_timeout), Op_Ok]
     ((ctx_call_client 7 [1])\<lparr>cx_on_ok := Some 3, cx_on_error := Some 4\<rparr>)) = [Called_Ok 3 []]"
  using context_completes_once [of "(ctx_call_client 7 [1])\<lparr>cx_on_ok := Some 3, cx_on_error := Some 4\<rparr>" Op_Ok
      "[Op_Error (net_result_code EC_timeout), Op_Ok]"]
  by (simp add: ctx_call_client_def ctx_new_def)

text \<open>
  An error that arrives after the reply still replaces the result: a caller that waits on the
  context gets no exception before it and an exception after it, although the call succeeded. The
  timer of a call is such an error, since nothing cancels it when the reply comes.
\<close>

theorem late_error_replaces_result:
  assumes "\<not> cx_is_over c" "cx_barrier c" "cx_err c = net_result_ok" "\<not> is_success e"
  shows "ctx_wait (ctx_ok c) = Some (Inr ()) \<and> ctx_wait (ctx_error e (ctx_ok c)) = Some (Inl e)"
  using assms by (simp add: ctx_wait_def ctx_ok_def ctx_error_def ctx_post_error_def is_success_def net_result_ok_def ec_success_def)

theorem late_error_replaces_result_witness:
  "ctx_wait (ctx_error (net_result_code EC_timeout) (ctx_ok (ctx_create_barrier (ctx_call_client 7 [])))) =
     Some (Inl (net_result_code EC_timeout))"
  using late_error_replaces_result [of "ctx_create_barrier (ctx_call_client 7 [])" "net_result_code EC_timeout"]
  by (simp add: ctx_create_barrier_def ctx_call_client_def ctx_new_def is_success_def net_result_code_def get_ec_def)

text \<open>
  (C9) On a server channel a reply finds its call: a call that expects a reply is entered under a
  fresh id, which goes into the header that is sent, and a reply with that id takes exactly this
  call out again and leaves the other waiting calls as they were. On a client channel replies of one
  protocol are matched with the calls that wait for it in the order the calls were made.
\<close>

theorem replies_find_their_calls:
  assumes "ctx_need_reply server_ops (tab x)" "ctx_have_reply_process (tab x)"
    "map_of (sc_call_map c) (sc_call_id c + 1) = None" "sc_push_call x tab c = (ok, tab', c')"
    "list_all (\<lambda>y. ctx_need_reply client_ops (ctab y) \<and> ctx_reply_protocol (ctab y) = p) xs" "n \<le> length xs"
  shows "fst (sc_get_call_from_map (rmh_call_id (cx_head (tab' x))) c') = Some x \<and>
    (\<forall>i. map_of (sc_call_map (snd (sc_get_call_from_map (rmh_call_id (cx_head (tab' x))) c'))) i = map_of (sc_call_map c) i) \<and>
    gets cq_get n p (fold cq_push xs (ctab, cc_new)) = map Some (take n xs)"
proof -
  let ?s = "(tab, c)"
  have push: "sq_push x ?s = (tab', c')" "sq_ready x ?s" using assms(1-4) by (simp_all add: sq_push_def sq_ready_def)
  have key: "sq_key x (tab', c') = sc_call_id c + 1"
    using assms(1,2,4) by (auto simp: sq_key_def sc_push_call_def sc_push_call_response_def Let_def)
  have "sq_waiting ?s (sc_call_id c + 1) = []" using assms(3) by (simp add: sq_waiting_def)
  with sq.push_get [where s = ?s and x = x] push key
  have g: "fst (sq_get (sc_call_id c + 1) (tab', c')) = Some x"
    "sq_waiting (snd (sq_get (sc_call_id c + 1) (tab', c'))) = sq_waiting ?s" by simp_all
  have eq: "a = b" if "(case a of Some (y :: nat) \<Rightarrow> [y] | None \<Rightarrow> []) = (case b of Some y \<Rightarrow> [y] | None \<Rightarrow> [])" for a b
    using that by (auto split: option.splits)
  have "map_of (sc_call_map (snd (sc_get_call_from_map (sc_call_id c + 1) c'))) i = map_of (sc_call_map c) i" for i
    using fun_cong [OF g(2), of i] by (intro eq) (simp add: sq_waiting_def sq_get_def split: prod.splits)
  moreover have "fst (sc_get_call_from_map (sc_call_id c + 1) c') = Some x"
    using g(1) by (simp add: sq_get_def split: prod.splits)
  moreover have "cq_inv (ctab, cc_new)" "cq_waiting (ctab, cc_new) p = []" by (simp_all add: cq_inv_def cq_waiting_def cc_new_def)
  then have "gets cq_get n p (fold cq_push xs (ctab, cc_new)) = map Some (take n xs)"
    using cq_push_all [OF assms(5), of cc_new] cq.gets_fifo assms(6) by fastforce
  ultimately show ?thesis using key by (simp add: sq_key_def)
qed

theorem replies_find_their_calls_witness:
  "fst (sc_get_call_from_map 1 (snd (snd (sc_push_call 4
      (\<lambda>_. (ctx_call_named two_way 99 [])\<lparr>cx_on_ok := Some 0\<rparr>) sc_new)))) = Some 4"
proof -
  let ?tab = "\<lambda>_ :: nat. (ctx_call_named two_way 99 [])\<lparr>cx_on_ok := Some 0\<rparr>"
  have int: "rmh_is_internal (rmh_new_internal r p i l g)" for r p i l g
    by (simp add: rmh_is_internal_def rmh_flag_def rmh_new_internal_def imh_to_bytes_def imh_init_def)
  have n: "ctx_need_reply server_ops (?tab 4)"
    by (simp add: ctx_need_reply_def server_ops_def rmh_need_reply_def ctx_call_named_def ctx_new_def int)
      (simp add: rmh_new_internal_def imh_init_def)
  obtain tab' c' where p: "sc_push_call 4 ?tab sc_new = (True, tab', c')"
    by (cases "sc_push_call 4 ?tab sc_new") (auto simp: sc_push_call_def split: prod.splits)
  have key: "rmh_call_id (cx_head (tab' 4)) = 1"
    using p n by (auto simp: sc_push_call_def sc_push_call_response_def ctx_have_reply_process_def sc_new_def Let_def)
  have "fst (sc_get_call_from_map 1 c') = Some 4"
    using replies_find_their_calls [OF n _ _ p, where xs = "[]" and n = 0] key
    by (simp add: ctx_have_reply_process_def sc_new_def)
  then show ?thesis by (simp add: p)
qed

end
