(* ===== verification/Router.thy ===== *)
theory Router
  imports Rpc_Context
begin

text \<open>
  Dispatch of requests, \<open>src/network/rpc/net/router.hpp\<close>, \<open>router_impl.hpp\<close>,
  \<open>invoker_traits.hpp\<close> and \<open>protocol.hpp\<close>: the table of invokers, the wrapper that unpacks the
  arguments of a request, runs the user's handler and sends the answer, and \<open>apply_invoker\<close>, which
  chooses the invoker and turns exceptions and missing handlers into error answers. The codec and
  the handlers are parameters. A handler sees the header of the request and may change it, and it
  may throw, so it maps the header and the arguments to the header afterwards and either a
  \<open>net_exception\<close> with its code or a result. \<open>hash\<close> is \<open>std::hash<std::string>\<close>.
\<close>

section \<open>Model\<close>

type_synonym ('h, 'a, 'r) handler = "'h \<Rightarrow> 'a \<Rightarrow> 'h \<times> (error_code + 'r)"
type_synonym 'h invoker = "'h \<Rightarrow> bytes \<Rightarrow> 'h \<times> (error_code + 'h rpc_context list)"

text \<open>The end of every invoker: whether an answer goes out, and the header it carries.\<close>

definition invoker_answer :: "'h header_ops \<Rightarrow> u64 \<Rightarrow> 'h \<Rightarrow> bytes \<Rightarrow> nat option \<Rightarrow> 'h \<times> 'h rpc_context list" where
  "invoker_answer ops recv_proto header message postf =
     (if ho_result ops header = result_code_value RC_not_reply then (header, [])
      else if recv_proto = ho_proto ops header then
        if \<not> ho_need_reply ops header then (header, [])
        else (let h = ho_reply ops True header in (h, [ctx_response ops h message postf]))
      else (header, [ctx_response ops header message postf]))"

definition invoker_result :: "'h header_ops \<Rightarrow> (bytes \<Rightarrow> u32 \<Rightarrow> error_code + 'a) \<Rightarrow> ('r \<Rightarrow> bytes) \<Rightarrow>
    ('h, 'a, 'r) handler \<Rightarrow> ('r \<Rightarrow> nat option) \<Rightarrow> 'h invoker" where
  "invoker_result ops unpack pack h postf header data =
     (let recv_proto = ho_proto ops header
      in case unpack data (ho_length ops header) of
           Inl e \<Rightarrow> (header, Inl e)
         | Inr args \<Rightarrow>
             (let (header', r) = h header args
              in case r of
                   Inl e \<Rightarrow> (header', Inl e)
                 | Inr result \<Rightarrow>
                     (let (header'', out) = invoker_answer ops recv_proto header' (pack result) (postf result)
                      in (header'', Inr out))))"

definition invoker_void :: "'h header_ops \<Rightarrow> (bytes \<Rightarrow> u32 \<Rightarrow> error_code + 'a) \<Rightarrow>
    ('h, 'a, unit) handler \<Rightarrow> nat option \<Rightarrow> 'h invoker" where
  "invoker_void ops unpack h postf = invoker_result ops unpack (\<lambda>_. []) h (\<lambda>_. postf)"

record 'h router =
  rt_invokers :: "(u64 \<times> 'h invoker option) list"
  rt_before_invoker :: "('h \<Rightarrow> 'h \<times> (error_code + bool)) option"
  rt_proto_invokers :: "(('h \<Rightarrow> bool) \<times> 'h invoker) list"

definition rt_new :: "'h router" where
  "rt_new = \<lparr>rt_invokers = [], rt_before_invoker = None, rt_proto_invokers = []\<rparr>"

definition rt_register_impl :: "u64 \<Rightarrow> 'h invoker option \<Rightarrow> 'h router \<Rightarrow> bool \<times> 'h router" where
  "rt_register_impl proto_hash invoker rt =
     (if map_of (rt_invokers rt) proto_hash \<noteq> None then (False, rt)
      else (True, rt\<lparr>rt_invokers := rt_invokers rt @ [(proto_hash, invoker)]\<rparr>))"

definition rt_register_protocol :: "u32 \<Rightarrow> 'h invoker option \<Rightarrow> 'h router \<Rightarrow> bool \<times> 'h router" where
  "rt_register_protocol protocol = rt_register_impl (ucast protocol)"

definition rt_register_name :: "(string \<Rightarrow> u64) \<Rightarrow> string \<Rightarrow> 'h invoker option \<Rightarrow> 'h router \<Rightarrow> bool \<times> 'h router" where
  "rt_register_name hash name = rt_register_impl (hash name)"

definition rt_set_before_invoker :: "('h \<Rightarrow> 'h \<times> (error_code + bool)) \<Rightarrow> 'h router \<Rightarrow> 'h router" where
  "rt_set_before_invoker f rt = rt\<lparr>rt_before_invoker := Some f\<rparr>"

datatype 'h action = Respond "'h rpc_context" | To_Irouter 'h

text \<open>The body of the \<open>try\<close> block: the header afterwards, and an exception or what was done.\<close>

definition apply_body :: "'h header_ops \<Rightarrow> bool \<Rightarrow> 'h router \<Rightarrow> 'h \<Rightarrow> bytes \<Rightarrow> 'h \<times> (error_code + 'h action list)" where
  "apply_body ops has_irouter rt header data =
     (let (header, go) = (case rt_before_invoker rt of None \<Rightarrow> (header, Inr True) | Some f \<Rightarrow> f header)
      in case go of
           Inl e \<Rightarrow> (header, Inl e)
         | Inr False \<Rightarrow> (header, Inr [])
         | Inr True \<Rightarrow>
             (case List.find (\<lambda>p. fst p header) (rt_proto_invokers rt) of
                Some p \<Rightarrow> (let (h, r) = snd p header data in (h, map_sum id (map Respond) r))
              | None \<Rightarrow>
                  (case map_of (rt_invokers rt) (ho_proto ops header) of
                     None \<Rightarrow>
                       if has_irouter then (header, Inr [To_Irouter header])
                       else if ho_need_reply ops header
                            then (let ctx = make_error_message ops header EC_no_handler
                                  in (ho_set_result ops (word_of_int (error_code_value EC_no_handler)) header, Inr [Respond ctx]))
                       else (header, Inr [])
                   | Some None \<Rightarrow>
                       if \<not> ho_need_reply ops header then (header, Inr [])
                       else (let ctx = make_error_message ops header EC_no_handler
                             in (ho_set_result ops (word_of_int (error_code_value EC_no_handler)) header, Inr [Respond ctx]))
                   | Some (Some invoker) \<Rightarrow> (let (h, r) = invoker header data in (h, map_sum id (map Respond) r)))))"

definition apply_invoker :: "'h header_ops \<Rightarrow> bool \<Rightarrow> 'h router \<Rightarrow> 'h \<Rightarrow> bytes \<Rightarrow> 'h action list" where
  "apply_invoker ops has_irouter rt header data =
     (case apply_body ops has_irouter rt header data of
        (h, Inr actions) \<Rightarrow> actions
      | (h, Inl e) \<Rightarrow> if \<not> ho_need_reply ops h then [] else [Respond (make_error_message ops h e)])"

subsection \<open>Protocol values\<close>

record rpc_protocol =
  pr_name :: u64
  pr_is_inter :: bool
  pr_reply :: u32

text \<open>The constructor from a name does not initialise the reply protocol: \<open>garbage\<close> is its value.\<close>

definition protocol_of_name :: "(string \<Rightarrow> u64) \<Rightarrow> u32 \<Rightarrow> string \<Rightarrow> rpc_protocol" where
  "protocol_of_name hash garbage name = \<lparr>pr_name = hash name, pr_is_inter = False, pr_reply = garbage\<rparr>"

definition protocol_of_id :: "u32 \<Rightarrow> rpc_protocol" where
  "protocol_of_id protocol = \<lparr>pr_name = ucast protocol, pr_is_inter = True, pr_reply = 0\<rparr>"

definition protocol_of_ids :: "u32 \<Rightarrow> u32 \<Rightarrow> rpc_protocol" where
  "protocol_of_ids protocol reply_id = \<lparr>pr_name = ucast protocol, pr_is_inter = True, pr_reply = reply_id\<rparr>"

text \<open>The context a server channel and a client channel build for a call.\<close>

definition make_rpc_context_server :: "u64 \<Rightarrow> bool \<Rightarrow> bytes \<Rightarrow> rpc_msg_header rpc_context" where
  "make_rpc_context_server name inter_proto buffer =
     (if \<not> inter_proto then ctx_call_named two_way name buffer else ctx_call_server (ucast name) buffer)"

definition make_rpc_context_client :: "u64 \<Rightarrow> bool \<Rightarrow> bytes \<Rightarrow> client_msg_header rpc_context" where
  "make_rpc_context_client name inter_proto buffer = ctx_call_client (ucast name) buffer"

section \<open>Lemmas\<close>

lemma make_error_message_head:
  "cx_head (make_error_message ops h code) =
     ho_set_length ops 0 (ho_set_result ops (word_of_int (error_code_value code)) h)"
  by (simp add: make_error_message_def ctx_response_def ctx_new_def)

context rpc_header
begin

lemma error_head:
  "ho_need_reply ops (cx_head (make_error_message ops h code)) = ho_need_reply ops h"
  "ho_is_reply ops (cx_head (make_error_message ops h code)) = ho_is_reply ops h"
  "ho_proto ops (cx_head (make_error_message ops h code)) = ho_proto ops h"
  "ho_call_id ops (cx_head (make_error_message ops h code)) = ho_call_id ops h"
  "ho_result ops (cx_head (make_error_message ops h code)) = word_of_int (error_code_value code)"
  by (simp_all add: make_error_message_head frame)

lemma answer_marked:
  assumes "invoker_answer ops p h msg postf = (h', out)" "p = ho_proto ops h"
  shows "out = [] \<and> (\<not> ho_need_reply ops h \<or> ho_result ops h = result_code_value RC_not_reply) \<or>
    (\<exists>ctx. out = [ctx] \<and> ho_need_reply ops h \<and> ho_is_reply ops (cx_head ctx) \<and> \<not> ho_need_reply ops (cx_head ctx) \<and>
       cx_send_msg ctx = msg \<and> ho_length ops (cx_head ctx) = word_of_nat (length msg))"
  using assms reply_marks reply_no_need
  by (auto simp: invoker_answer_def ctx_response_def ctx_new_def frame Let_def split: if_splits)

text \<open>What a router that has no handler, no hook and no other receiver does with a request.\<close>

lemma no_handler_answer:
  assumes "rt_before_invoker rt = None" "rt_proto_invokers rt = []" "map_of (rt_invokers rt) (ho_proto ops h) = None"
  shows "apply_invoker ops False rt h data =
    (if ho_need_reply ops h then [Respond (make_error_message ops h EC_no_handler)] else [])"
  using assms by (simp add: apply_invoker_def apply_body_def Let_def)

end

section \<open>Properties\<close>


definition echo_router :: "client_msg_header router" where
  "echo_router = snd (rt_register_protocol 16777223
     (Some (invoker_result client_ops (\<lambda>d n. Inr d) id (\<lambda>h args. (h, Inr args)) (\<lambda>_. None))) rt_new)"


text \<open>The header that comes back when a router is sent a message and answers it.\<close>

definition exchange :: "'h header_ops \<Rightarrow> 'h router \<Rightarrow> 'h \<Rightarrow> 'h option" where
  "exchange ops rt h = (case apply_invoker ops False rt h [] of [Respond ctx] \<Rightarrow> Some (cx_head ctx) | _ \<Rightarrow> None)"

primrec exchanges :: "'h header_ops \<Rightarrow> 'h router \<Rightarrow> nat \<Rightarrow> 'h \<Rightarrow> 'h option" where
  "exchanges ops rt 0 h = Some h"
| "exchanges ops rt (Suc n) h = (case exchange ops rt h of Some h' \<Rightarrow> exchanges ops rt n h' | None \<Rightarrow> None)"

text \<open>
  An error answer is not marked as a reply: it goes back as a request that itself wants a
  reply. If the receiver has no handler for the protocol either, it answers with an error in the
  same way, so a single request nobody handles is sent back and forth without end.
\<close>

theorem error_answers_bounce:
  assumes "rpc_header ops" "ho_need_reply ops h"
  shows "\<exists>h'. exchanges ops rt_new n h = Some h' \<and> ho_need_reply ops h' \<and> \<not> ho_is_reply ops h'"
  using assms(2)
proof (induction n arbitrary: h)
  case 0
  then show ?case using rpc_header.need_not_reply [OF assms(1)] by simp
next
  case (Suc n)
  let ?m = "make_error_message ops h EC_no_handler"
  have "apply_invoker ops False rt_new h [] = [Respond ?m]"
    using rpc_header.no_handler_answer [OF assms(1), of rt_new h "[]"] Suc.prems by (simp add: rt_new_def)
  with Suc.IH [of "cx_head ?m"] Suc.prems rpc_header.error_head [OF assms(1)] show ?case
    by (simp add: exchange_def)
qed

theorem error_answers_bounce_witness:
  "\<exists>h'. exchanges client_ops rt_new 1000 (cmh_new 0 16777223 2) = Some h' \<and> ho_need_reply client_ops h'"
proof -
  have "ho_need_reply client_ops (cmh_new 0 16777223 2)"
    by (simp add: client_ops_def cmh_need_reply_def cmh_new_def to_protocol_def bit_numeral_rec Let_def)
  from error_answers_bounce [OF client_hdr.rpc_header_axioms this] show ?thesis by blast
qed

end
