(* ===== verification/Rpc_Channel.thy ===== *)
theory Rpc_Channel
  imports Router
begin

text \<open>
  The RPC channel, \<open>src/network/rpc/net/async_rpc_channel.hpp\<close>, over the connection of
  \<open>async_connection.hpp\<close>: the life of a session, sending calls and answers one at a time, and
  receiving. The channel is generic in the header and in the container of waiting calls, and
  \<open>call_ops\<close> holds the operations it uses of both.

  Socket and service are the environment: \<open>ch_posted\<close> are the functions posted, \<open>ch_out\<close> the
  contexts whose writes are outstanding, \<open>ch_read\<close> the read outstanding. A handler runs to its end
  before the next one starts, so the mutexes have no counterpart. \<open>Empty_List\<close> stands for the
  undefined behaviour of \<open>front\<close> and \<open>pop_front\<close> on an empty list. \<open>ch_pushed\<close> and \<open>ch_sent\<close> record,
  for the statements, the contexts taken for sending and those whose write has completed.
\<close>

section \<open>Model\<close>

record ('h, 'c) call_ops =
  co_head :: "'h header_ops"
  co_hton :: "bool \<Rightarrow> 'h \<Rightarrow> 'h"
  co_ntoh :: "bool \<Rightarrow> 'h \<Rightarrow> 'h"
  co_push :: "nat \<Rightarrow> 'h ctx_table \<Rightarrow> 'c \<Rightarrow> bool \<times> 'h ctx_table \<times> 'c"
  co_get :: "u32 \<Rightarrow> 'c \<Rightarrow> nat option \<times> 'c"
  co_take_list :: "'c \<Rightarrow> nat list \<times> 'c"
  co_list_empty :: "'c \<Rightarrow> bool"
  co_take_map :: "'c \<Rightarrow> nat list \<times> 'c"

definition server_call_ops :: "(rpc_msg_header, server_calls) call_ops" where
  "server_call_ops =
     \<lparr>co_head = server_ops, co_hton = rmh_hton, co_ntoh = rmh_ntoh, co_push = sc_push_call,
      co_get = sc_get_call_from_map, co_take_list = sc_task_calls_from_list,
      co_list_empty = sc_call_list_empty, co_take_map = sc_task_calls_from_map\<rparr>"

definition client_call_ops :: "(client_msg_header, client_calls) call_ops" where
  "client_call_ops =
     \<lparr>co_head = client_ops, co_hton = cmh_hton, co_ntoh = cmh_ntoh, co_push = cc_push_call,
      co_get = cc_get_call_from_map, co_take_list = cc_task_calls_from_list,
      co_list_empty = cc_call_list_empty, co_take_map = cc_task_calls_from_map\<rparr>"

datatype status_t = disconnected | connecting | connected | disconnecting

datatype ch_post = Post_Call | Post_Next

datatype ch_read = No_Read | Read_Head | Read_Reply nat | Read_Request

datatype 'h ch_event =
    Ev_Connect net_result | Ev_Connect_Func net_result | Ev_Disconnect net_result | Ev_Router_Error net_result
  | Ev_On_Read 'h | Ev_After_Send 'h | Ev_Post_Func nat

datatype ch_error = Empty_List

record ('h, 'c) channel =
  ch_status :: status_t
  ch_socket_open :: bool
  ch_is_client :: bool
  ch_irptr :: bool
  ch_big_endian :: bool
  ch_before_send :: "('h \<Rightarrow> bool) option"
  ch_after_send :: bool
  ch_table :: "'h ctx_table"
  ch_calls :: 'c
  ch_head :: 'h
  ch_to_calls :: "nat list"
  ch_posted :: "ch_post list"
  ch_out :: "nat list"
  ch_read :: ch_read
  ch_timers :: "nat list"
  ch_events :: "'h ch_event list"
  ch_pushed :: "nat list"
  ch_sent :: "nat list"

definition ch_event :: "'h ch_event \<Rightarrow> ('h, 'c) channel \<Rightarrow> ('h, 'c) channel" where
  "ch_event e s = s\<lparr>ch_events := ch_events s @ [e]\<rparr>"

definition ch_upd :: "nat \<Rightarrow> ('h rpc_context \<Rightarrow> 'h rpc_context) \<Rightarrow> ('h, 'c) channel \<Rightarrow> ('h, 'c) channel" where
  "ch_upd x f s = s\<lparr>ch_table := (ch_table s)(x := f (ch_table s x))\<rparr>"

subsection \<open>Stopping\<close>

definition ch_close :: "('h, 'c) channel \<Rightarrow> ('h, 'c) channel" where
  "ch_close s = s\<lparr>ch_socket_open := False\<rparr>"

definition ch_stop_rpc_calls :: "('h, 'c) call_ops \<Rightarrow> net_result \<Rightarrow> ('h, 'c) channel \<Rightarrow> ('h, 'c) channel" where
  "ch_stop_rpc_calls ops err s =
     (let (xs, c) = co_take_map ops (ch_calls s)
      in fold (\<lambda>x. ch_upd x (ctx_error err)) xs (s\<lparr>ch_to_calls := [], ch_calls := c\<rparr>))"

definition ch_stop_rpc_service :: "('h, 'c) call_ops \<Rightarrow> net_result \<Rightarrow> bool \<Rightarrow> ('h, 'c) channel \<Rightarrow>
    bool \<times> ('h, 'c) channel" where
  "ch_stop_rpc_service ops err on_error_func s =
     (let s1 = ch_stop_rpc_calls ops err (ch_close (s\<lparr>ch_status := disconnecting\<rparr>));
          s2 = (if on_error_func then ch_event (Ev_Connect_Func err) s1 else s1)
      in (on_error_func, s2\<lparr>ch_status := disconnected\<rparr>))"

definition ch_on_error :: "('h, 'c) call_ops \<Rightarrow> net_result \<Rightarrow> ('h, 'c) channel \<Rightarrow> ('h, 'c) channel" where
  "ch_on_error ops err s =
     (let s1 = snd (ch_stop_rpc_service ops err False s);
          s2 = (if \<not> ch_is_client s1 then ch_event (Ev_Router_Error err) s1 else s1)
      in if ch_irptr s2 then ch_event (Ev_Disconnect err) s2 else s2)"

definition ch_on_error_sys :: "('h, 'c) call_ops \<Rightarrow> ec_t \<Rightarrow> ('h, 'c) channel \<Rightarrow> ('h, 'c) channel" where
  "ch_on_error_sys ops ec = ch_on_error ops (net_result_code_sys EC_badconnect ec)"

definition ch_disconnect :: "('h, 'c) call_ops \<Rightarrow> ('h, 'c) channel \<Rightarrow> ('h, 'c) channel" where
  "ch_disconnect ops = ch_on_error ops (net_result_code EC_be_disconnected)"

definition ch_destroy :: "('h, 'c) call_ops \<Rightarrow> ('h, 'c) channel \<Rightarrow> ('h, 'c) channel" where
  "ch_destroy ops s =
     (if ch_status s \<noteq> disconnected then ch_on_error ops (net_result_code EC_cancel) s else s)"

subsection \<open>Sending\<close>

definition duration_max :: int where "duration_max = 2 ^ 63 - 1"

definition ch_set_timeout :: "nat \<Rightarrow> ('h, 'c) channel \<Rightarrow> ('h, 'c) channel" where
  "ch_set_timeout x s =
     (let c = ch_table s x
      in if cx_on_ok c \<noteq> None \<or> cx_on_error c \<noteq> None \<or> cx_barrier c
         then if cx_duration c \<le> 0 \<or> cx_duration c = duration_max then s
              else (ch_upd x (cx_timer_update (\<lambda>_. True)) s)\<lparr>ch_timers := ch_timers s @ [x]\<rparr>
         else s)"

definition ch_handle_timeout :: "ec_t \<Rightarrow> nat \<Rightarrow> ('h, 'c) channel \<Rightarrow> ('h, 'c) channel" where
  "ch_handle_timeout error x = ch_upd x (ctx_error (net_result_code_sys EC_timeout error))"

definition ch_call_impl1 :: "('h, 'c) call_ops \<Rightarrow> ('h, 'c) channel \<Rightarrow> ch_error + ('h, 'c) channel" where
  "ch_call_impl1 ops s =
     (case ch_to_calls s of
        [] \<Rightarrow> Inl Empty_List
      | x # _ \<Rightarrow>
          if (case ch_before_send s of Some f \<Rightarrow> \<not> f (cx_head (ch_table s x)) | None \<Rightarrow> False)
          then (let s1 = ch_upd x (ctx_error (net_result_code EC_cancel)) s
                in Inr (s1\<lparr>ch_posted := ch_posted s1 @ [Post_Next]\<rparr>))
          else (let s1 = ch_upd x (cx_head_update (co_hton ops (ch_big_endian s))) s;
                    s2 = ch_set_timeout x s1
                in Inr (s2\<lparr>ch_out := ch_out s2 @ [x]\<rparr>)))"

definition ch_call_impl :: "('h, 'c) call_ops \<Rightarrow> ('h, 'c) channel \<Rightarrow> ch_error + ('h, 'c) channel" where
  "ch_call_impl ops s =
     (if \<not> co_list_empty ops (ch_calls s)
      then (let (xs, c) = co_take_list ops (ch_calls s)
            in ch_call_impl1 ops (s\<lparr>ch_to_calls := xs, ch_calls := c\<rparr>))
      else Inr s)"

definition ch_run_posted :: "('h, 'c) call_ops \<Rightarrow> ch_post \<Rightarrow> ('h, 'c) channel \<Rightarrow> ch_error + ('h, 'c) channel" where
  "ch_run_posted ops p s =
     (case p of
        Post_Call \<Rightarrow> if ch_to_calls s = [] then ch_call_impl ops s else Inr s
      | Post_Next \<Rightarrow> if ch_to_calls s = [] then ch_call_impl ops s else ch_call_impl1 ops s)"

definition ch_call_context :: "('h, 'c) call_ops \<Rightarrow> nat \<Rightarrow> ('h, 'c) channel \<Rightarrow> ('h, 'c) channel" where
  "ch_call_context ops x s =
     (if ch_status s \<noteq> connected \<and> ch_status s \<noteq> connecting
      then ch_upd x (ctx_error (net_result_msg EC_badconnect ''rpc session already stopped'')) s
      else
        (let empty = co_list_empty ops (ch_calls s);
             (push_success, tab, c) = co_push ops x (ch_table s) (ch_calls s);
             s1 = s\<lparr>ch_table := tab, ch_calls := c, ch_pushed := ch_pushed s @ [x]\<rparr>;
             s2 = (if \<not> push_success then ch_upd x (ctx_error (net_result_msg EC_unknown ''push_call failed'')) s1 else s1)
         in if empty \<and> ch_status s2 = connected then s2\<lparr>ch_posted := ch_posted s2 @ [Post_Call]\<rparr> else s2))"

text \<open>What follows a successful write: the hook of the router and the function of an answer.\<close>

definition ch_after_sent :: "('h, 'c) call_ops \<Rightarrow> nat \<Rightarrow> ('h, 'c) channel \<Rightarrow> ('h, 'c) channel" where
  "ch_after_sent ops x s =
     (let c = ch_table s x;
          s1 = (if ch_after_send s then ch_event (Ev_After_Send (cx_head c)) s else s);
          s2 = (if ctx_is_reply (co_head ops) c
                then fold (\<lambda>f. ch_event (Ev_Post_Func f)) (ctx_apply_post_func c) s1 else s1)
      in s2\<lparr>ch_sent := ch_sent s2 @ [x]\<rparr>)"

definition ch_handle_send :: "('h, 'c) call_ops \<Rightarrow> ec_t \<Rightarrow> nat \<Rightarrow> ('h, 'c) channel \<Rightarrow> ch_error + ('h, 'c) channel" where
  "ch_handle_send ops error x s =
     (if \<not> ch_socket_open s then Inr s
      else case ch_to_calls s of
        [] \<Rightarrow> Inl Empty_List
      | _ # rest \<Rightarrow>
          (let s1 = ch_upd x (cx_head_update (co_ntoh ops (ch_big_endian s))) (s\<lparr>ch_to_calls := rest\<rparr>)
           in if ec_value error \<noteq> 0 then Inr (ch_on_error_sys ops error s1)
              else
                (let s2 = ch_after_sent ops x s1
                 in if ch_to_calls s2 = [] then ch_call_impl ops s2 else ch_call_impl1 ops s2)))"

subsection \<open>Receiving\<close>

definition ch_recv_head :: "('h, 'c) channel \<Rightarrow> ('h, 'c) channel" where
  "ch_recv_head s = s\<lparr>ch_read := Read_Head\<rparr>"

definition max_body :: nat where "max_body = 5 * 1024 * 1024"

definition ch_recv_request :: "('h, 'c) call_ops \<Rightarrow> ('h, 'c) channel \<Rightarrow> ('h, 'c) channel" where
  "ch_recv_request ops s =
     (let len = ho_length (co_head ops) (ch_head s)
      in if len = 0 then ch_recv_head (ch_event (Ev_On_Read (ch_head s)) s)
         else if unat len > max_body then ch_on_error ops (net_result_code EC_invalid_header) s
         else s\<lparr>ch_read := Read_Request\<rparr>)"

definition ch_call_complete :: "('h, 'c) call_ops \<Rightarrow> nat \<Rightarrow> ('h, 'c) channel \<Rightarrow> ('h, 'c) channel" where
  "ch_call_complete ops x s =
     (let s1 = ch_recv_head s; rcode = ho_result (co_head ops) (cx_head (ch_table s1 x))
      in if rcode < result_code_value RC_fail then ch_upd x ctx_ok s1
         else ch_upd x (ctx_error (net_result_code_sys EC_remote_error
                \<lparr>ec_value = uint rcode, ec_category = application_category\<rparr>)) s1)"

definition ch_recv_call_reply :: "('h, 'c) call_ops \<Rightarrow> ('h, 'c) channel \<Rightarrow> ('h, 'c) channel" where
  "ch_recv_call_reply ops s =
     (let ho = co_head ops; (r, c) = co_get ops (ho_call_id ho (ch_head s)) (ch_calls s); s1 = s\<lparr>ch_calls := c\<rparr>
      in case r of
           None \<Rightarrow> ch_recv_request ops s1
         | Some x \<Rightarrow>
             (let k = ch_table s1 x
              in if cx_on_ok k = None \<and> cx_on_error k = None \<and> \<not> cx_barrier k then ch_recv_request ops s1
                 else
                   (let len = ho_length ho (ch_head s1);
                        s2 = ch_upd x (cx_head_update (\<lambda>h. ho_set_result ho (ho_result ho (ch_head s1)) (ho_set_length ho len h))) s1
                    in if len = 0 then ch_call_complete ops x s2
                       else if unat len > max_body then ch_on_error ops (net_result_code EC_invalid_header) s2
                       else (ch_upd x (ctx_get_recv_message (unat len)) s2)\<lparr>ch_read := Read_Reply x\<rparr>)))"

definition ch_recv_body :: "('h, 'c) call_ops \<Rightarrow> ('h, 'c) channel \<Rightarrow> ('h, 'c) channel" where
  "ch_recv_body ops s = (if ho_is_reply (co_head ops) (ch_head s) then ch_recv_call_reply ops s else ch_recv_request ops s)"

definition ch_handle_recv_head :: "('h, 'c) call_ops \<Rightarrow> ec_t \<Rightarrow> ('h, 'c) channel \<Rightarrow> ('h, 'c) channel" where
  "ch_handle_recv_head ops error s =
     (if \<not> ch_socket_open s then s
      else
        (let s1 = s\<lparr>ch_head := co_ntoh ops (ch_big_endian s) (ch_head s)\<rparr>
         in if ec_value error = 0 then ch_recv_body ops s1 else ch_on_error_sys ops error s1))"

definition ch_handle_recv_reply :: "('h, 'c) call_ops \<Rightarrow> nat \<Rightarrow> ec_t \<Rightarrow> ('h, 'c) channel \<Rightarrow> ('h, 'c) channel" where
  "ch_handle_recv_reply ops x error s =
     (if \<not> ch_socket_open s then s
      else if ec_value error = 0 then ch_call_complete ops x s else ch_on_error_sys ops error s)"

definition ch_handle_recv_request :: "('h, 'c) call_ops \<Rightarrow> ec_t \<Rightarrow> ('h, 'c) channel \<Rightarrow> ('h, 'c) channel" where
  "ch_handle_recv_request ops error s =
     (if \<not> ch_socket_open s then s
      else if ec_value error = 0 then ch_event (Ev_On_Read (ch_head s)) (ch_recv_head s)
      else ch_on_error_sys ops error s)"

subsection \<open>Starting\<close>

definition ch_start_rpc_service :: "('h, 'c) call_ops \<Rightarrow> ('h, 'c) channel \<Rightarrow> ch_error + ('h, 'c) channel" where
  "ch_start_rpc_service ops s = ebind (ch_call_impl ops (s\<lparr>ch_status := connected\<rparr>)) (\<lambda>s1. Inr (ch_recv_head s1))"

text \<open>Starting an accepted connection, and dialling: \<open>on_err\<close> says whether the caller gave an error
  function; dialling opens the socket.\<close>

definition ch_start_accepted :: "('h, 'c) call_ops \<Rightarrow> ('h, 'c) channel \<Rightarrow> ch_error + ('h, 'c) channel" where
  "ch_start_accepted ops s = (if ch_status s \<noteq> disconnected then Inr s else ch_start_rpc_service ops s)"

definition ch_start :: "bool \<Rightarrow> ('h, 'c) channel \<Rightarrow> ('h, 'c) channel" where
  "ch_start on_err s =
     (if ch_status s \<noteq> disconnected
      then if on_err then ch_event (Ev_Connect_Func (net_result_code EC_repeat_connect)) s
           else if ch_irptr s then ch_event (Ev_Connect (net_result_code EC_repeat_connect)) s
           else s
      else s\<lparr>ch_status := connecting, ch_socket_open := True\<rparr>)"

definition ch_connect_done :: "('h, 'c) call_ops \<Rightarrow> bool \<Rightarrow> bool \<Rightarrow> ec_t \<Rightarrow> ('h, 'c) channel \<Rightarrow> ch_error + ('h, 'c) channel" where
  "ch_connect_done ops on_succ on_err error s =
     (if ec_value error = 0 then
        ebind (ch_start_rpc_service ops s) (\<lambda>s1.
          Inr (if on_succ then ch_event (Ev_Connect_Func net_result_ok) s1
               else if ch_irptr s1 then ch_event (Ev_Connect net_result_ok) s1 else s1))
      else
        (let r = net_result_code_sys EC_connect_fail error; (has_func, s1) = ch_stop_rpc_service ops r on_err s
         in Inr (if has_func then s1 else if ch_irptr s1 then ch_event (Ev_Connect r) s1 else s1)))"

definition ch_new :: "'c \<Rightarrow> 'h \<Rightarrow> 'h ctx_table \<Rightarrow> bool \<Rightarrow> bool \<Rightarrow> bool \<Rightarrow> ('h \<Rightarrow> bool) option \<Rightarrow> bool \<Rightarrow>
    ('h, 'c) channel" where
  "ch_new calls head tab be is_client irptr before_send after_send =
     \<lparr>ch_status = disconnected, ch_socket_open = False, ch_is_client = is_client, ch_irptr = irptr, ch_big_endian = be,
      ch_before_send = before_send, ch_after_send = after_send, ch_table = tab, ch_calls = calls, ch_head = head,
      ch_to_calls = [], ch_posted = [], ch_out = [], ch_read = No_Read, ch_timers = [], ch_events = [],
      ch_pushed = [], ch_sent = []\<rparr>"

subsection \<open>Runs of one session\<close>

inductive ch_step :: "('h, 'c) call_ops \<Rightarrow> ('h, 'c) channel \<Rightarrow> ch_error + ('h, 'c) channel \<Rightarrow> bool" for ops where
  cs_call: "ch_step ops s (Inr (ch_call_context ops x s))"
| cs_posted: "ch_posted s = p # ps \<Longrightarrow> ch_step ops s (ch_run_posted ops p (s\<lparr>ch_posted := ps\<rparr>))"
| cs_sent: "ch_out s = x # xs \<Longrightarrow> ch_step ops s (ch_handle_send ops error x (s\<lparr>ch_out := xs\<rparr>))"
| cs_head: "ch_read s = Read_Head \<Longrightarrow> ch_step ops s (Inr (ch_handle_recv_head ops error (s\<lparr>ch_read := No_Read, ch_head := h\<rparr>)))"
| cs_reply: "ch_read s = Read_Reply x \<Longrightarrow>
    ch_step ops s (Inr (ch_handle_recv_reply ops x error (ch_upd x (cx_recv_msg_update (\<lambda>_. d)) (s\<lparr>ch_read := No_Read\<rparr>))))"
| cs_request: "ch_read s = Read_Request \<Longrightarrow> ch_step ops s (Inr (ch_handle_recv_request ops error (s\<lparr>ch_read := No_Read\<rparr>)))"
| cs_timeout: "x \<in> set (ch_timers s) \<Longrightarrow> ch_step ops s (Inr (ch_handle_timeout error x s))"
| cs_disconnect: "ch_step ops s (Inr (ch_disconnect ops s))"

section \<open>Frames\<close>

lemma ch_upd_frame [simp]:
  "ch_status (ch_upd x f s) = ch_status s" "ch_socket_open (ch_upd x f s) = ch_socket_open s"
  "ch_calls (ch_upd x f s) = ch_calls s" "ch_to_calls (ch_upd x f s) = ch_to_calls s"
  "ch_posted (ch_upd x f s) = ch_posted s" "ch_out (ch_upd x f s) = ch_out s"
  "ch_pushed (ch_upd x f s) = ch_pushed s" "ch_sent (ch_upd x f s) = ch_sent s"
  "ch_is_client (ch_upd x f s) = ch_is_client s" "ch_irptr (ch_upd x f s) = ch_irptr s"
  "ch_read (ch_upd x f s) = ch_read s" "ch_head (ch_upd x f s) = ch_head s"
  "ch_after_send (ch_upd x f s) = ch_after_send s" "ch_before_send (ch_upd x f s) = ch_before_send s"
  "ch_table (ch_upd x f s) y = (if y = x then f (ch_table s x) else ch_table s y)"
  by (simp_all add: ch_upd_def)

lemma ch_event_frame [simp]:
  "ch_status (ch_event e s) = ch_status s" "ch_socket_open (ch_event e s) = ch_socket_open s"
  "ch_calls (ch_event e s) = ch_calls s" "ch_to_calls (ch_event e s) = ch_to_calls s"
  "ch_posted (ch_event e s) = ch_posted s" "ch_out (ch_event e s) = ch_out s"
  "ch_pushed (ch_event e s) = ch_pushed s" "ch_sent (ch_event e s) = ch_sent s"
  "ch_table (ch_event e s) = ch_table s" "ch_irptr (ch_event e s) = ch_irptr s"
  by (simp_all add: ch_event_def)

lemma fold_upd_frame [simp]:
  "ch_status (fold (\<lambda>x. ch_upd x f) xs s) = ch_status s" "ch_socket_open (fold (\<lambda>x. ch_upd x f) xs s) = ch_socket_open s"
  "ch_calls (fold (\<lambda>x. ch_upd x f) xs s) = ch_calls s" "ch_to_calls (fold (\<lambda>x. ch_upd x f) xs s) = ch_to_calls s"
  "ch_posted (fold (\<lambda>x. ch_upd x f) xs s) = ch_posted s" "ch_out (fold (\<lambda>x. ch_upd x f) xs s) = ch_out s"
  "ch_pushed (fold (\<lambda>x. ch_upd x f) xs s) = ch_pushed s" "ch_sent (fold (\<lambda>x. ch_upd x f) xs s) = ch_sent s"
  "ch_is_client (fold (\<lambda>x. ch_upd x f) xs s) = ch_is_client s" "ch_irptr (fold (\<lambda>x. ch_upd x f) xs s) = ch_irptr s"
  by (induction xs arbitrary: s) simp_all

lemma fold_event_frame [simp]:
  "ch_status (fold (\<lambda>x. ch_event (g x)) xs s) = ch_status s"
  "ch_socket_open (fold (\<lambda>x. ch_event (g x)) xs s) = ch_socket_open s"
  "ch_calls (fold (\<lambda>x. ch_event (g x)) xs s) = ch_calls s" "ch_to_calls (fold (\<lambda>x. ch_event (g x)) xs s) = ch_to_calls s"
  "ch_posted (fold (\<lambda>x. ch_event (g x)) xs s) = ch_posted s" "ch_out (fold (\<lambda>x. ch_event (g x)) xs s) = ch_out s"
  "ch_pushed (fold (\<lambda>x. ch_event (g x)) xs s) = ch_pushed s" "ch_sent (fold (\<lambda>x. ch_event (g x)) xs s) = ch_sent s"
  by (induction xs arbitrary: s) simp_all

lemma set_timeout_frame [simp]:
  "ch_status (ch_set_timeout x s) = ch_status s" "ch_socket_open (ch_set_timeout x s) = ch_socket_open s"
  "ch_calls (ch_set_timeout x s) = ch_calls s" "ch_to_calls (ch_set_timeout x s) = ch_to_calls s"
  "ch_posted (ch_set_timeout x s) = ch_posted s" "ch_out (ch_set_timeout x s) = ch_out s"
  "ch_pushed (ch_set_timeout x s) = ch_pushed s" "ch_sent (ch_set_timeout x s) = ch_sent s"
  by (simp_all add: ch_set_timeout_def Let_def)

lemma after_sent_frame [simp]:
  "ch_status (ch_after_sent ops x s) = ch_status s" "ch_socket_open (ch_after_sent ops x s) = ch_socket_open s"
  "ch_calls (ch_after_sent ops x s) = ch_calls s" "ch_to_calls (ch_after_sent ops x s) = ch_to_calls s"
  "ch_posted (ch_after_sent ops x s) = ch_posted s" "ch_out (ch_after_sent ops x s) = ch_out s"
  "ch_pushed (ch_after_sent ops x s) = ch_pushed s" "ch_sent (ch_after_sent ops x s) = ch_sent s @ [x]"
  by (simp_all add: ch_after_sent_def Let_def)

lemma on_error_frame [simp]:
  "ch_status (ch_on_error ops e s) = disconnected" "\<not> ch_socket_open (ch_on_error ops e s)"
  "ch_to_calls (ch_on_error ops e s) = []" "ch_posted (ch_on_error ops e s) = ch_posted s"
  "ch_out (ch_on_error ops e s) = ch_out s" "ch_pushed (ch_on_error ops e s) = ch_pushed s"
  "ch_sent (ch_on_error ops e s) = ch_sent s"
  "ch_calls (ch_on_error ops e s) = snd (co_take_map ops (ch_calls s))"
  by (simp_all add: ch_on_error_def ch_stop_rpc_service_def ch_stop_rpc_calls_def ch_close_def Let_def split: prod.split)

section \<open>Sending in order\<close>

text \<open>The list half of a container: calls come out of it as they went in, whatever is done with the
  calls that wait for replies.\<close>

locale call_list =
  fixes ops :: "('h, 'c) call_ops" and clist :: "'c \<Rightarrow> nat list"
  assumes push_list: "co_push ops x tab c = (b, tab', c') \<Longrightarrow> b \<and> clist c' = clist c @ [x]"
    and get_list: "clist (snd (co_get ops k c)) = clist c"
    and take_list: "co_take_list ops c = (xs, c') \<Longrightarrow> xs = clist c \<and> clist c' = []"
    and list_empty: "co_list_empty ops c \<longleftrightarrow> clist c = []"
    and take_map: "clist (snd (co_take_map ops c)) = clist c"
begin

text \<open>While the socket is open: either the front of the calls taken for sending is being written, or
  nothing is to be sent, or a refused call is about to be tried again; and the contexts pushed are
  those sent, those taken and those still listed, in that order.\<close>

definition sending_ok :: "nat list \<Rightarrow> nat list \<Rightarrow> ch_post list \<Rightarrow> bool" where
  "sending_ok out to_calls posted \<longleftrightarrow>
     (out \<noteq> [] \<and> tl out = [] \<and> to_calls \<noteq> [] \<and> hd to_calls = hd out \<and> count_list posted Post_Next = 0) \<or>
     (out = [] \<and> to_calls = [] \<and> count_list posted Post_Next = 0) \<or>
     (out = [] \<and> to_calls \<noteq> [] \<and> count_list posted Post_Next = 1)"

definition ch_inv :: "('h, 'c) channel \<Rightarrow> bool" where
  "ch_inv s \<longleftrightarrow>
     (if ch_socket_open s
      then ch_status s = connected \<and> sending_ok (ch_out s) (ch_to_calls s) (ch_posted s) \<and>
        ch_pushed s = ch_sent s @ ch_to_calls s @ clist (ch_calls s) \<and>
        (clist (ch_calls s) \<noteq> [] \<longrightarrow> ch_to_calls s \<noteq> [] \<or> Post_Call \<in> set (ch_posted s))
      else ch_status s = disconnected)"

lemma inv_frame:
  assumes "ch_inv s" "ch_status t = ch_status s" "ch_socket_open t = ch_socket_open s" "ch_to_calls t = ch_to_calls s"
    "clist (ch_calls t) = clist (ch_calls s)" "ch_posted t = ch_posted s" "ch_out t = ch_out s"
    "ch_pushed t = ch_pushed s" "ch_sent t = ch_sent s"
  shows "ch_inv t"
  using assms by (auto simp: ch_inv_def)

lemma inv_on_error: "ch_inv (ch_on_error ops e s)"
  by (simp add: ch_inv_def)

text \<open>Starting the next write: the socket is open, nothing is being written and no retry is posted.\<close>

lemma call_impl1_inv:
  assumes "ch_socket_open s" "ch_status s = connected" "ch_out s = []" "count_list (ch_posted s) Post_Next = 0"
    "ch_to_calls s \<noteq> []" "ch_pushed s = ch_sent s @ ch_to_calls s @ clist (ch_calls s)"
  shows "\<exists>t. ch_call_impl1 ops s = Inr t \<and> ch_inv t"
proof -
  from assms(5) obtain x xs where tc: "ch_to_calls s = x # xs" by (cases "ch_to_calls s") auto
  show ?thesis
  proof (cases "case ch_before_send s of Some f \<Rightarrow> \<not> f (cx_head (ch_table s x)) | None \<Rightarrow> False")
    case True
    then show ?thesis using assms tc by (auto simp: ch_call_impl1_def ch_inv_def sending_ok_def)
  next
    case False
    then show ?thesis using assms tc by (auto simp: ch_call_impl1_def ch_inv_def sending_ok_def Let_def)
  qed
qed

lemma call_impl_inv:
  assumes "ch_socket_open s" "ch_status s = connected" "ch_out s = []" "count_list (ch_posted s) Post_Next = 0"
    "ch_to_calls s = []" "ch_pushed s = ch_sent s @ clist (ch_calls s)"
  shows "\<exists>t. ch_call_impl ops s = Inr t \<and> ch_inv t"
proof (cases "clist (ch_calls s) = []")
  case True
  then show ?thesis using assms by (auto simp: ch_call_impl_def list_empty ch_inv_def sending_ok_def)
next
  case False
  obtain xs c where t: "co_take_list ops (ch_calls s) = (xs, c)" by fastforce
  with take_list [OF t] False assms show ?thesis
    using call_impl1_inv [of "s\<lparr>ch_to_calls := xs, ch_calls := c\<rparr>"]
    by (simp add: ch_call_impl_def list_empty)
qed

text \<open>On a closed socket nothing can go wrong either: the calls taken are only forgotten.\<close>

lemma call_impl_closed:
  assumes "\<not> ch_socket_open s" "ch_status s = disconnected"
  shows "\<exists>t. ch_call_impl ops s = Inr t \<and> ch_inv t" "ch_to_calls s \<noteq> [] \<Longrightarrow> \<exists>t. ch_call_impl1 ops s = Inr t \<and> ch_inv t"
proof -
  have 1: "\<exists>t. ch_call_impl1 ops r = Inr t \<and> ch_inv t"
    if "\<not> ch_socket_open r" "ch_status r = disconnected" "ch_to_calls r \<noteq> []" for r
    using that by (auto simp: ch_call_impl1_def ch_inv_def Let_def split: list.split)
  then show "ch_to_calls s \<noteq> [] \<Longrightarrow> \<exists>t. ch_call_impl1 ops s = Inr t \<and> ch_inv t" using assms by blast
  obtain xs c where t: "co_take_list ops (ch_calls s) = (xs, c)" by fastforce
  show "\<exists>t. ch_call_impl ops s = Inr t \<and> ch_inv t"
    using 1 [of "s\<lparr>ch_to_calls := xs, ch_calls := c\<rparr>"] take_list [OF t] assms
    by (auto simp: ch_call_impl_def list_empty t ch_inv_def)
qed


lemma call_context_inv: "ch_inv s \<Longrightarrow> ch_inv (ch_call_context ops x s)"
proof -
  assume inv: "ch_inv s"
  obtain b tab c where p: "co_push ops x (ch_table s) (ch_calls s) = (b, tab, c)" by (metis prod_cases3)
  note push = push_list [OF p]
  show ?thesis
  proof (cases "ch_socket_open s")
    case True
    then show ?thesis using inv push p
      by (auto simp: ch_call_context_def ch_inv_def sending_ok_def list_empty Let_def)
  next
    case False
    then show ?thesis using inv by (simp add: ch_call_context_def ch_inv_def)
  qed
qed

lemma run_posted_inv:
  assumes inv: "ch_inv s" and p: "ch_posted s = p # ps"
  shows "\<exists>t. ch_run_posted ops p (s\<lparr>ch_posted := ps\<rparr>) = Inr t \<and> ch_inv t"
proof (cases "ch_socket_open s")
  case False
  then have "ch_status s = disconnected" using inv by (simp add: ch_inv_def)
  with False call_impl_closed [of "s\<lparr>ch_posted := ps\<rparr>"] show ?thesis
    by (cases p) (auto simp: ch_run_posted_def ch_inv_def)
next
  case opn: True
  let ?s = "s\<lparr>ch_posted := ps\<rparr>"
  have c: "ch_status s = connected" "sending_ok (ch_out s) (ch_to_calls s) (p # ps)"
    "ch_pushed s = ch_sent s @ ch_to_calls s @ clist (ch_calls s)"
    "clist (ch_calls s) \<noteq> [] \<Longrightarrow> ch_to_calls s \<noteq> [] \<or> Post_Call \<in> set (p # ps)"
    using inv opn p by (simp_all add: ch_inv_def)
  show ?thesis
  proof (cases "ch_to_calls s = []")
    case True
    with c have "ch_out s = []" "count_list ps Post_Next = 0"
      by (auto simp: sending_ok_def split: if_splits)
    with call_impl_inv [of ?s] True c opn show ?thesis by (cases p) (simp_all add: ch_run_posted_def)
  next
    case False
    show ?thesis
    proof (cases p)
      case Post_Call
      with False c opn show ?thesis by (simp add: ch_run_posted_def ch_inv_def sending_ok_def)
    next
      case Post_Next
      with False c have "ch_out s = []" "count_list ps Post_Next = 0" by (auto simp: sending_ok_def)
      with call_impl1_inv [of ?s] False c opn Post_Next show ?thesis by (simp add: ch_run_posted_def)
    qed
  qed
qed

lemma handle_send_inv:
  assumes inv: "ch_inv s" and out: "ch_out s = x # xs"
  shows "\<exists>t. ch_handle_send ops error x (s\<lparr>ch_out := xs\<rparr>) = Inr t \<and> ch_inv t"
proof (cases "ch_socket_open s")
  case False
  then show ?thesis using inv by (simp add: ch_handle_send_def ch_inv_def)
next
  case opn: True
  then obtain rest where r: "ch_to_calls s = x # rest" "xs = []" "count_list (ch_posted s) Post_Next = 0"
    using inv out by (cases "ch_to_calls s") (auto simp: ch_inv_def sending_ok_def)
  have c: "ch_status s = connected" "ch_pushed s = ch_sent s @ (x # rest) @ clist (ch_calls s)"
    using inv opn r by (simp_all add: ch_inv_def)
  show ?thesis
  proof (cases "ec_value error = 0")
    case False
    then show ?thesis using opn r inv_on_error by (simp add: ch_handle_send_def ch_on_error_sys_def Let_def)
  next
    case True
    let ?t = "ch_after_sent ops x (ch_upd x (cx_head_update (co_ntoh ops (ch_big_endian s)))
        (s\<lparr>ch_out := xs, ch_to_calls := rest\<rparr>))"
    have "ch_handle_send ops error x (s\<lparr>ch_out := xs\<rparr>) = (if rest = [] then ch_call_impl ops ?t else ch_call_impl1 ops ?t)"
      using True opn r by (simp add: ch_handle_send_def Let_def)
    then show ?thesis
      using call_impl_inv [of ?t] call_impl1_inv [of ?t] c r opn by (cases "rest = []") simp_all
  qed
qed

lemma recv_request_inv: "ch_inv s \<Longrightarrow> ch_inv (ch_recv_request ops s)"
  using inv_on_error by (auto simp: ch_recv_request_def ch_recv_head_def Let_def intro: inv_frame)

lemma call_complete_inv: "ch_inv s \<Longrightarrow> ch_inv (ch_call_complete ops x s)"
  by (auto simp: ch_call_complete_def ch_recv_head_def Let_def intro: inv_frame)

lemma recv_call_reply_inv: "ch_inv s \<Longrightarrow> ch_inv (ch_recv_call_reply ops s)"
proof -
  assume inv: "ch_inv s"
  obtain r c where g: "co_get ops (ho_call_id (co_head ops) (ch_head s)) (ch_calls s) = (r, c)" by fastforce
  have c: "clist c = clist (ch_calls s)" using get_list [of _ "ch_calls s"] g by (metis snd_conv)
  have s1: "ch_inv (s\<lparr>ch_calls := c\<rparr>)" using inv_frame [OF inv] c by simp
  then have "ch_inv (ch_upd x f (s\<lparr>ch_calls := c\<rparr>))" "ch_inv ((ch_upd y g (ch_upd x f (s\<lparr>ch_calls := c\<rparr>)))\<lparr>ch_read := d\<rparr>)"
    for x f y g d by (auto intro: inv_frame)
  with s1 show ?thesis
    by (simp add: ch_recv_call_reply_def g Let_def recv_request_inv call_complete_inv inv_on_error split: option.split)
qed

lemma step_inv: "ch_step ops s r \<Longrightarrow> ch_inv s \<Longrightarrow> \<exists>t. r = Inr t \<and> ch_inv t"
proof (induction rule: ch_step.induct)
  case (cs_head s error h)
  have 1: "ch_inv (s\<lparr>ch_read := No_Read, ch_head := k\<rparr>)" for k by (rule inv_frame [OF cs_head(2)]) simp_all
  show ?case
    using recv_call_reply_inv [OF 1] recv_request_inv [OF 1] inv_on_error 1
    by (simp add: ch_handle_recv_head_def ch_recv_body_def ch_on_error_sys_def Let_def)
next
  case (cs_reply s x error d)
  have 1: "ch_inv (ch_upd x (cx_recv_msg_update (\<lambda>_. d)) (s\<lparr>ch_read := No_Read\<rparr>))"
    by (rule inv_frame [OF cs_reply(2)]) simp_all
  show ?case using call_complete_inv [OF 1] inv_on_error 1
    by (simp add: ch_handle_recv_reply_def ch_on_error_sys_def)
next
  case (cs_request s error)
  have 1: "ch_inv (s\<lparr>ch_read := No_Read\<rparr>)" by (rule inv_frame [OF cs_request(2)]) simp_all
  have 2: "ch_inv (ch_event e (s\<lparr>ch_read := Read_Head\<rparr>))" for e by (rule inv_frame [OF cs_request(2)]) simp_all
  show ?case using 1 2 inv_on_error by (simp add: ch_handle_recv_request_def ch_on_error_sys_def ch_recv_head_def)
next
  case (cs_timeout x s error)
  show ?case using inv_frame [OF cs_timeout(2)] by (simp add: ch_handle_timeout_def)
qed (simp_all add: call_context_inv run_posted_inv handle_send_inv inv_on_error ch_disconnect_def)

text \<open>The states a session runs through; an error would end the run.\<close>

lemma reach_inv: "(\<lambda>s t. ch_step ops s (Inr t))\<^sup>*\<^sup>* s t \<Longrightarrow> ch_inv s \<Longrightarrow> ch_inv t"
  by (induction rule: rtranclp_induct) (auto dest: step_inv)

end

interpretation server_list: call_list server_call_ops sc_call_list
  by unfold_locales (auto simp: server_call_ops_def sc_push_call_def sc_push_call_response_def sc_get_call_from_map_def
      sc_task_calls_from_list_def sc_call_list_empty_def sc_task_calls_from_map_def Let_def split: if_splits option.split)

interpretation client_list: call_list client_call_ops cc_call_list
  by unfold_locales (auto simp: client_call_ops_def cc_push_call_def cc_push_call_response_def cc_get_call_from_map_def
      cc_pop_def cc_task_calls_from_list_def cc_call_list_empty_def cc_task_calls_from_map_def Let_def
      split: if_splits option.splits)

section \<open>Stopping completes the calls\<close>

lemma ctx_error_idem [simp]: "ctx_error e (ctx_error e c) = ctx_error e c"
  by (simp add: ctx_error_def ctx_post_error_def)

lemma fold_error_table:
  "ch_table (fold (\<lambda>x. ch_upd x (ctx_error e)) xs s) x =
     (if x \<in> set xs then ctx_error e (ch_table s x) else ch_table s x)"
  by (induction xs arbitrary: s) auto

lemma before_send_on_error: "ch_before_send (ch_on_error ops e s) = ch_before_send s"
proof -
  have "ch_before_send (fold (\<lambda>x. ch_upd x f) xs r) = ch_before_send r" for f xs and r :: "('a, 'b) channel"
    by (induction xs arbitrary: r) simp_all
  then show ?thesis
    by (simp add: ch_on_error_def ch_stop_rpc_service_def ch_stop_rpc_calls_def ch_close_def ch_event_def Let_def split: prod.split)
qed

lemma on_error_table:
  "ch_table (ch_on_error ops e s) x =
     (if x \<in> set (fst (co_take_map ops (ch_calls s))) then ctx_error e (ch_table s x) else ch_table s x)"
  by (simp add: ch_on_error_def ch_stop_rpc_service_def ch_stop_rpc_calls_def ch_close_def Let_def fold_error_table
      split: prod.split)

section \<open>Properties\<close>

text \<open>
  (C4) A session sends its calls and answers one at a time and in the order they were made: from the
  start of the service on, whatever calls, completions, errors, replies, timeouts and disconnects
  come in whatever order, no handler touches an empty list, and while the socket is open at most one
  write is outstanding and the contexts pushed are those sent, those taken and those listed, in
  order. If nothing is being written and nothing is posted, all of them have been sent.
\<close>

theorem channel_sends_in_order:
  assumes "ch_start_rpc_service server_call_ops
      ((ch_new sc_new head tab be is_client irptr before_send after_send)\<lparr>ch_socket_open := True\<rparr>) = Inr s0"
    "(\<lambda>s t. ch_step server_call_ops s (Inr t))\<^sup>*\<^sup>* s0 s"
  shows "(\<forall>r. ch_step server_call_ops s r \<longrightarrow> (\<exists>t. r = Inr t)) \<and>
    (ch_socket_open s \<longrightarrow>
       length (ch_out s) \<le> 1 \<and> ch_pushed s = ch_sent s @ ch_to_calls s @ sc_call_list (ch_calls s) \<and>
       (ch_out s = [] \<and> ch_posted s = [] \<longrightarrow> ch_sent s = ch_pushed s))"
proof -
  have "server_list.ch_inv s0"
    using assms(1) by (auto simp: ch_start_rpc_service_def ch_call_impl_def server_call_ops_def sc_call_list_empty_def
        sc_new_def ch_new_def ch_recv_head_def server_list.ch_inv_def server_list.sending_ok_def)
  from server_list.reach_inv [OF assms(2) this] have inv: "server_list.ch_inv s" .
  then have "\<forall>r. ch_step server_call_ops s r \<longrightarrow> (\<exists>t. r = Inr t)" using server_list.step_inv by blast
  moreover have "length (ch_out s) \<le> 1 \<and> ch_pushed s = ch_sent s @ ch_to_calls s @ sc_call_list (ch_calls s) \<and>
      (ch_out s = [] \<and> ch_posted s = [] \<longrightarrow> ch_sent s = ch_pushed s)" if "ch_socket_open s"
    using inv that by (cases "ch_out s") (auto simp: server_list.ch_inv_def server_list.sending_ok_def)
  ultimately show ?thesis by blast
qed

definition sample_channel :: "(rpc_msg_header, server_calls) channel" where
  "sample_channel =
     ch_new sc_new [] (\<lambda>_. (ctx_call_named two_way 99 [])\<lparr>cx_on_ok := Some 0\<rparr>) False True True None False"

theorem channel_sends_in_order_witness:
  "\<exists>s0. ch_start_rpc_service server_call_ops (sample_channel\<lparr>ch_socket_open := True\<rparr>) = Inr s0 \<and>
     (\<forall>r. ch_step server_call_ops (ch_call_context server_call_ops 3 s0) r \<longrightarrow> (\<exists>t. r = Inr t))"
proof -
  obtain s0 where s0: "ch_start_rpc_service server_call_ops (sample_channel\<lparr>ch_socket_open := True\<rparr>) = Inr s0"
    by (simp add: sample_channel_def ch_start_rpc_service_def ch_call_impl_def server_call_ops_def sc_call_list_empty_def
        sc_new_def ch_new_def)
  have "(\<lambda>s t. ch_step server_call_ops s (Inr t))\<^sup>*\<^sup>* s0 (ch_call_context server_call_ops 3 s0)"
    by (rule r_into_rtranclp) (rule ch_step.cs_call)
  from channel_sends_in_order [OF s0 [unfolded sample_channel_def] this] s0 show ?thesis by blast
qed

text \<open>
  (C27) When a session stops, the calls registered for a reply, which are those whose reply header
  has not come in, are not left waiting: each of them, on a server channel as on a client channel, is
  completed with the error that stopped the session, its error function is called if it has not
  completed before, no call stays registered, and no other context is touched. What this does not
  cover is the call whose reply is being read, see \<open>stop_during_reply_loses_call\<close>.
\<close>

theorem stop_completes_waiting_calls:
  assumes "map_of (sc_call_map (ch_calls s)) i = Some x" "map_of (cc_call_map (ch_calls c)) p = Some q" "y \<in> set q"
  shows "ch_table (ch_on_error server_call_ops err s) x = ctx_error err (ch_table s x) \<and>
    ch_table (ch_on_error client_call_ops err c) y = ctx_error err (ch_table c y) \<and>
    cx_is_over (ch_table (ch_on_error server_call_ops err s) x) \<and>
    cx_is_over (ch_table (ch_on_error client_call_ops err c) y) \<and>
    sc_call_map (ch_calls (ch_on_error server_call_ops err s)) = [] \<and>
    cc_call_map (ch_calls (ch_on_error client_call_ops err c)) = [] \<and>
    ch_status (ch_on_error server_call_ops err s) = disconnected \<and>
    ch_status (ch_on_error client_call_ops err c) = disconnected \<and>
    (\<forall>z. z \<notin> snd ` set (sc_call_map (ch_calls s)) \<longrightarrow> ch_table (ch_on_error server_call_ops err s) z = ch_table s z) \<and>
    (\<forall>z. z \<notin> set (concat (map snd (cc_call_map (ch_calls c)))) \<longrightarrow>
       ch_table (ch_on_error client_call_ops err c) z = ch_table c z)"
proof -
  have "x \<in> set (fst (co_take_map server_call_ops (ch_calls s)))"
    using map_of_SomeD [OF assms(1)] by (force simp: server_call_ops_def sc_task_calls_from_map_def)
  moreover have "y \<in> set (fst (co_take_map client_call_ops (ch_calls c)))"
    using map_of_SomeD [OF assms(2)] assms(3) by (force simp: client_call_ops_def cc_task_calls_from_map_def)
  ultimately show ?thesis
    by (simp add: on_error_table ctx_error_def ctx_post_error_def)
      (auto simp: server_call_ops_def client_call_ops_def sc_task_calls_from_map_def cc_task_calls_from_map_def)
qed

theorem stop_completes_waiting_calls_witness:
  "\<exists>s :: (rpc_msg_header, server_calls) channel. map_of (sc_call_map (ch_calls s)) 1 = Some 3 \<and>
     cx_is_over (ch_table (ch_on_error server_call_ops (net_result_code EC_cancel) s) 3)"
proof -
  let ?s = "sample_channel\<lparr>ch_calls := \<lparr>sc_call_map = [(1, 3)], sc_call_list = [], sc_call_id = 1\<rparr>\<rparr>"
  let ?c = "ch_new \<lparr>cc_call_map = [(7, [2])], cc_call_list = []\<rparr> cmh_default (\<lambda>_. ctx_call_client 7 []) False True True None False"
  have m: "map_of (sc_call_map (ch_calls ?s)) 1 = Some 3" by simp
  have c: "map_of (cc_call_map (ch_calls ?c)) 7 = Some [2]" "2 \<in> set [2 :: nat]" by (simp_all add: ch_new_def)
  have "cx_is_over (ch_table (ch_on_error server_call_ops (net_result_code EC_cancel) ?s) 3)"
    using stop_completes_waiting_calls [OF m c, of "net_result_code EC_cancel"] by (elim conjE)
  with m show ?thesis by (intro exI conjI)
qed

text \<open>What the header of a reply and then its body do to the call that waits for it.\<close>

lemma reply_completes:
  fixes s :: "(rpc_msg_header, server_calls) channel"
  assumes "ch_socket_open s" "ch_big_endian s = be" "rmh_is_reply (rmh_ntoh be (ch_head s))"
    "map_of (sc_call_map (ch_calls s)) (rmh_call_id (rmh_ntoh be (ch_head s))) = Some x"
    "cx_on_ok (ch_table s x) \<noteq> None \<or> cx_on_error (ch_table s x) \<noteq> None \<or> cx_barrier (ch_table s x)"
    "0 < unat (rmh_length (rmh_ntoh be (ch_head s)))" "unat (rmh_length (rmh_ntoh be (ch_head s))) \<le> max_body"
    "s1 = ch_handle_recv_head server_call_ops ec_success (s\<lparr>ch_read := No_Read\<rparr>)"
    "s2 = ch_handle_recv_reply server_call_ops x ec_success (ch_upd x (cx_recv_msg_update (\<lambda>_. body)) (s1\<lparr>ch_read := No_Read\<rparr>))"
  shows "ch_read s1 = Read_Reply x" "ch_read s2 = Read_Head"
    "ch_calls s2 = (ch_calls s)\<lparr>sc_call_map := AList.delete (rmh_call_id (rmh_ntoh be (ch_head s))) (sc_call_map (ch_calls s))\<rparr>"
    "\<exists>h. ch_table s2 x = (if rmh_result (rmh_ntoh be (ch_head s)) < 100 then ctx_ok else ctx_error (net_result_code_sys EC_remote_error
        \<lparr>ec_value = uint (rmh_result (rmh_ntoh be (ch_head s))), ec_category = application_category\<rparr>))
      ((ch_table s x)\<lparr>cx_head := h, cx_recv_msg := body\<rparr>)"
    "\<forall>y. y \<noteq> x \<longrightarrow> ch_table s2 y = ch_table s y" "ch_events s2 = ch_events s"
proof -
  let ?h = "rmh_ntoh be (ch_head s)" and ?k = "ch_table s x"
  let ?r = "rmh_result ?h"
  let ?c = "(ch_calls s)\<lparr>sc_call_map := AList.delete (rmh_call_id ?h) (sc_call_map (ch_calls s))\<rparr>"
  have nh: "(cx_on_ok ?k = None \<and> cx_on_error ?k = None \<and> \<not> cx_barrier ?k) = False" using assms(5) by auto
  have get: "co_get server_call_ops (rmh_call_id ?h) (ch_calls s) = (Some x, ?c)"
    using assms(4) by (simp add: server_call_ops_def sc_get_call_from_map_def)
  have ops: "co_head server_call_ops = server_ops" "co_ntoh server_call_ops = rmh_ntoh"
    "ho_is_reply server_ops = rmh_is_reply" "ho_call_id server_ops = rmh_call_id" "ho_length server_ops = rmh_length"
    "ho_result server_ops = rmh_result"
    by (simp_all add: server_call_ops_def server_ops_def)
  have s1: "s1 = (ch_upd x (ctx_get_recv_message (unat (rmh_length ?h)))
      (ch_upd x (cx_head_update (\<lambda>h. ho_set_result server_ops ?r (ho_set_length server_ops (rmh_length ?h) h)))
        (s\<lparr>ch_read := No_Read, ch_head := ?h, ch_calls := ?c\<rparr>)))\<lparr>ch_read := Read_Reply x\<rparr>"
    using assms(1-3,6-8) get nh
    by (simp add: ch_handle_recv_head_def ch_recv_body_def ch_recv_call_reply_def ops ec_success_def Let_def unat_gt_0)
  have head: "rmh_result (ho_set_result server_ops ?r k) = ?r" for k
    using server_hdr.result_set [of ?r k] by (simp add: ops)
  have s2: "s2 = ch_upd x (if ?r < 100 then ctx_ok else ctx_error (net_result_code_sys EC_remote_error
        \<lparr>ec_value = uint ?r, ec_category = application_category\<rparr>))
      ((ch_upd x (cx_recv_msg_update (\<lambda>_. body)) (s1\<lparr>ch_read := No_Read\<rparr>))\<lparr>ch_read := Read_Head\<rparr>)"
    using assms(1,9) head by (simp add: s1 ch_handle_recv_reply_def ch_call_complete_def ch_recv_head_def ops ec_success_def
        Let_def ctx_get_recv_message_def)
  show "ch_read s1 = Read_Reply x" "ch_read s2 = Read_Head" "ch_calls s2 = ?c" "ch_events s2 = ch_events s"
    "\<forall>y. y \<noteq> x \<longrightarrow> ch_table s2 y = ch_table s y"
    by (simp_all add: s1 s2 ch_upd_def)
  have "ch_table s2 x = (if ?r < 100 then ctx_ok else ctx_error (net_result_code_sys EC_remote_error
        \<lparr>ec_value = uint ?r, ec_category = application_category\<rparr>))
      ((cx_head_update (\<lambda>h. ho_set_result server_ops ?r (ho_set_length server_ops (rmh_length ?h) h)) ?k)\<lparr>cx_recv_msg := body\<rparr>)"
    by (simp add: s2 s1 ctx_get_recv_message_def)
  then show "\<exists>h. ch_table s2 x = (if ?r < 100 then ctx_ok else ctx_error (net_result_code_sys EC_remote_error
        \<lparr>ec_value = uint ?r, ec_category = application_category\<rparr>)) (?k\<lparr>cx_head := h, cx_recv_msg := body\<rparr>)"
    by (intro exI [where x = "ho_set_result server_ops ?r (ho_set_length server_ops (rmh_length ?h) (cx_head ?k))"]) (cases ?k, simp)
qed

text \<open>
  (C8) A reply reaches its caller. On an open server channel, when the header of a reply comes in that
  bears the id of a registered call which has not completed and has both its functions, and then its
  body, which is not empty and at most 5 MB long, the call's function is called once, with that body
  if the result code is below the failure range and with a remote error otherwise; the call is over and
  no longer registered, the channel reads the next header, and nothing else has changed: no
  other context, no other registered or listed call, and the router is told nothing.
\<close>

theorem reply_reaches_caller:
  fixes s :: "(rpc_msg_header, server_calls) channel"
  assumes "ch_socket_open s" "ch_big_endian s = be" "rmh_is_reply (rmh_ntoh be (ch_head s))"
    "map_of (sc_call_map (ch_calls s)) (rmh_call_id (rmh_ntoh be (ch_head s))) = Some x"
    "\<not> cx_is_over (ch_table s x)" "cx_on_ok (ch_table s x) = Some f" "cx_on_error (ch_table s x) = Some g"
    "0 < unat (rmh_length (rmh_ntoh be (ch_head s)))" "unat (rmh_length (rmh_ntoh be (ch_head s))) \<le> max_body"
    "s1 = ch_handle_recv_head server_call_ops ec_success (s\<lparr>ch_read := No_Read\<rparr>)"
    "s2 = ch_handle_recv_reply server_call_ops x ec_success (ch_upd x (cx_recv_msg_update (\<lambda>_. body)) (s1\<lparr>ch_read := No_Read\<rparr>))"
  shows "ch_read s1 = Read_Reply x \<and> ch_read s2 = Read_Head \<and>
    ch_calls s2 = (ch_calls s)\<lparr>sc_call_map := filter (\<lambda>(i, _). rmh_call_id (rmh_ntoh be (ch_head s)) \<noteq> i) (sc_call_map (ch_calls s))\<rparr> \<and>
    (\<forall>y. y \<noteq> x \<longrightarrow> ch_table s2 y = ch_table s y) \<and> ch_events s2 = ch_events s \<and>
    cx_is_over (ch_table s2 x) \<and>
    cx_log (ch_table s2 x) = cx_log (ch_table s x) @
      [if rmh_result (rmh_ntoh be (ch_head s)) < 100 then Called_Ok f body
       else Called_Error g (net_result_code_sys EC_remote_error
            \<lparr>ec_value = uint (rmh_result (rmh_ntoh be (ch_head s))), ec_category = application_category\<rparr>)] @
      (if cx_barrier (ch_table s x) then [Notified] else [])"
proof -
  have "cx_on_ok (ch_table s x) \<noteq> None \<or> cx_on_error (ch_table s x) \<noteq> None \<or> cx_barrier (ch_table s x)" using assms(6) by simp
  note rc = reply_completes [OF assms(1-4) this assms(8-11)]
  from rc(4) obtain h where "ch_table s2 x = (if rmh_result (rmh_ntoh be (ch_head s)) < 100 then ctx_ok
      else ctx_error (net_result_code_sys EC_remote_error
        \<lparr>ec_value = uint (rmh_result (rmh_ntoh be (ch_head s))), ec_category = application_category\<rparr>))
      ((ch_table s x)\<lparr>cx_head := h, cx_recv_msg := body\<rparr>)" ..
  then show ?thesis
    using assms(5-7) rc(1-3,5,6) by (simp add: ctx_ok_def ctx_error_def ctx_post_error_def AList.delete_eq)
qed

definition sample_reply :: rpc_msg_header where
  "sample_reply = rmh_new_internal 0 \<lparr>opt_is_reply = True, opt_is_one_way = False, opt_protocol_type = 0, opt_reserve = 0,
     opt_reserve1 = 0\<rparr> 1 2 99"

lemma sample_reply_fields:
  "rmh_ntoh be sample_reply = sample_reply" "rmh_is_reply sample_reply" "rmh_call_id sample_reply = 1"
  "rmh_length sample_reply = 2" "rmh_result sample_reply = 0"
proof -
  have int: "rmh_is_internal sample_reply"
    by (simp add: sample_reply_def rmh_is_internal_def rmh_flag_def rmh_new_internal_def imh_to_bytes_def imh_init_def)
  then show "rmh_ntoh be sample_reply = sample_reply"
    by (simp add: rmh_ntoh_def rmh_upd_internal_def imh_ntoh_def) (simp add: sample_reply_def rmh_new_internal_def imh_init_def)
  show "rmh_is_reply sample_reply" "rmh_call_id sample_reply = 1" "rmh_length sample_reply = 2" "rmh_result sample_reply = 0"
    using int by (simp_all add: rmh_is_reply_def rmh_call_id_def rmh_length_def rmh_result_def)
      (simp_all add: sample_reply_def rmh_new_internal_def imh_init_def)
qed

theorem reply_reaches_caller_witness:
  "\<exists>s :: (rpc_msg_header, server_calls) channel. cx_is_over (ch_table s 3) \<and> ch_read s = Read_Head"
proof -
  let ?s = "sample_channel\<lparr>ch_socket_open := True, ch_head := sample_reply,
     ch_table := (\<lambda>_. (ctx_call_named two_way 99 [])\<lparr>cx_on_ok := Some 0, cx_on_error := Some 1\<rparr>),
     ch_calls := \<lparr>sc_call_map = [(1, 3)], sc_call_list = [], sc_call_id = 1\<rparr>\<rparr>"
  have "unat (2 :: u32) \<le> max_body" "0 < unat (2 :: u32)" by (simp_all add: max_body_def)
  then show ?thesis
    using reply_reaches_caller [of ?s False 3 0 1 _ _ "[7, 8]", OF _ _ _ _ _ _ _ _ _ refl refl]
    by (auto simp: sample_reply_fields sample_channel_def ch_new_def ctx_call_named_def ctx_new_def)
qed

text \<open>
  (C37) A call whose reply is being read when the session stops is never told. On an open server
  channel the header of a reply with a body comes in, for a registered call that has not completed, has a function
  for success and is registered under this id only; then the read of the body fails with a socket error, or the
  header announced more than 5 MB. The session is over and no call is registered, but this call
  has not been completed: the header had taken it out of the registered calls, so stopping passes over it.
\<close>

theorem stop_during_reply_loses_call:
  fixes s :: "(rpc_msg_header, server_calls) channel"
  assumes "ch_socket_open s" "ch_big_endian s = be" "rmh_is_reply (rmh_ntoh be (ch_head s))"
    "map_of (sc_call_map (ch_calls s)) (rmh_call_id (rmh_ntoh be (ch_head s))) = Some x"
    "x \<notin> snd ` {e \<in> set (sc_call_map (ch_calls s)). fst e \<noteq> rmh_call_id (rmh_ntoh be (ch_head s))}"
    "\<not> cx_is_over (ch_table s x)" "cx_on_ok (ch_table s x) = Some f"
    "0 < unat (rmh_length (rmh_ntoh be (ch_head s)))"
    "s1 = ch_handle_recv_head server_call_ops ec_success (s\<lparr>ch_read := No_Read\<rparr>)"
    "s2 = (if unat (rmh_length (rmh_ntoh be (ch_head s))) > max_body then s1
           else ch_handle_recv_reply server_call_ops x err
             (ch_upd x (cx_recv_msg_update (\<lambda>_. body)) (s1\<lparr>ch_read := No_Read\<rparr>)))"
    "ec_value err \<noteq> 0"
  shows "ch_status s2 = disconnected \<and> \<not> cx_is_over (ch_table s2 x) \<and> sc_call_map (ch_calls s2) = []"
proof -
  let ?h = "rmh_ntoh be (ch_head s)"
  let ?c = "(ch_calls s)\<lparr>sc_call_map := AList.delete (rmh_call_id ?h) (sc_call_map (ch_calls s))\<rparr>"
  let ?s = "ch_upd x (cx_head_update (\<lambda>h. ho_set_result server_ops (rmh_result ?h) (ho_set_length server_ops (rmh_length ?h) h)))
        (s\<lparr>ch_read := No_Read, ch_head := ?h, ch_calls := ?c\<rparr>)"
  have nin: "x \<notin> set (fst (co_take_map server_call_ops ?c))"
    using assms(5) by (auto simp: server_call_ops_def sc_task_calls_from_map_def AList.delete_eq)
  have get: "co_get server_call_ops (rmh_call_id ?h) (ch_calls s) = (Some x, ?c)"
    using assms(4) by (simp add: server_call_ops_def sc_get_call_from_map_def)
  have ops: "co_head server_call_ops = server_ops" "co_ntoh server_call_ops = rmh_ntoh"
    "ho_is_reply server_ops = rmh_is_reply" "ho_call_id server_ops = rmh_call_id" "ho_length server_ops = rmh_length"
    "ho_result server_ops = rmh_result"
    by (simp_all add: server_call_ops_def server_ops_def)
  have s1: "s1 = (if unat (rmh_length ?h) > max_body then ch_on_error server_call_ops (net_result_code EC_invalid_header) ?s
      else (ch_upd x (ctx_get_recv_message (unat (rmh_length ?h))) ?s)\<lparr>ch_read := Read_Reply x\<rparr>)"
    using assms(1-3,7-9) get
    by (simp add: ch_handle_recv_head_def ch_recv_body_def ch_recv_call_reply_def ops ec_success_def Let_def unat_gt_0)
  have taken: "sc_call_map (snd (co_take_map server_call_ops k)) = []" for k
    by (simp add: server_call_ops_def sc_task_calls_from_map_def)
  have "s2 = ch_on_error server_call_ops (if unat (rmh_length ?h) > max_body then net_result_code EC_invalid_header
      else net_result_code_sys EC_badconnect err) (if unat (rmh_length ?h) > max_body then ?s
        else ch_upd x (cx_recv_msg_update (\<lambda>_. body)) (s1\<lparr>ch_read := No_Read\<rparr>))"
    using assms(1,10,11) by (auto simp: s1 ch_handle_recv_reply_def ch_on_error_sys_def)
  then show ?thesis
    using nin assms(6) by (auto simp: on_error_table s1 taken ctx_get_recv_message_def)
qed

theorem stop_during_reply_loses_call_witness:
  "\<exists>s :: (rpc_msg_header, server_calls) channel. ch_status s = disconnected \<and> \<not> cx_is_over (ch_table s 3) \<and>
     sc_call_map (ch_calls s) = []"
proof -
  let ?s = "sample_channel\<lparr>ch_socket_open := True, ch_head := sample_reply,
     ch_table := (\<lambda>_. (ctx_call_named two_way 99 [])\<lparr>cx_on_ok := Some 0\<rparr>),
     ch_calls := \<lparr>sc_call_map = [(1, 3)], sc_call_list = [], sc_call_id = 1\<rparr>\<rparr>"
  have "0 < unat (2 :: u32)" by simp
  then show ?thesis
    using stop_during_reply_loses_call [of ?s False 3 0 _ _ "\<lparr>ec_value = 1, ec_category = application_category\<rparr>" "[7, 8]",
      OF _ _ _ _ _ _ _ _ refl refl]
    by (fastforce simp: sample_reply_fields sample_channel_def ch_new_def ctx_call_named_def ctx_new_def)
qed

text \<open>Running the posted functions of a channel, a number of times, as long as nothing else happens.\<close>

primrec ch_run_posts :: "('h, 'c) call_ops \<Rightarrow> nat \<Rightarrow> ('h, 'c) channel \<Rightarrow> ch_error + ('h, 'c) channel" where
  "ch_run_posts ops 0 s = Inr s"
| "ch_run_posts ops (Suc n) s =
     (case ch_posted s of
        [] \<Rightarrow> Inr s
      | p # ps \<Rightarrow> ebind (ch_run_posted ops p (s\<lparr>ch_posted := ps\<rparr>)) (ch_run_posts ops n))"

text \<open>
  A call the router's hook refuses blocks the channel for good: the refused call is told so but
  stays at the front of the calls to be sent, and the retry posted for it refuses it again, so
  however often the posted functions run, it is still there, a retry is still posted and nothing is
  written.
\<close>

theorem refused_call_blocks_channel:
  assumes "ch_to_calls s = x # xs" "ch_before_send s = Some f" "\<not> f (cx_head (ch_table s x))"
    "ch_posted s = [Post_Next]" "ch_out s = []"
  shows "\<exists>t. ch_run_posts ops n s = Inr t \<and> ch_to_calls t = x # xs \<and> ch_posted t = [Post_Next] \<and> ch_out t = []"
  using assms
proof (induction n arbitrary: s)
  case (Suc n)
  let ?t = "(ch_upd x (ctx_error (net_result_code EC_cancel)) (s\<lparr>ch_posted := []\<rparr>))\<lparr>ch_posted := [Post_Next]\<rparr>"
  have "ch_run_posted ops Post_Next (s\<lparr>ch_posted := []\<rparr>) = Inr ?t"
    using Suc.prems by (simp add: ch_run_posted_def ch_call_impl1_def Let_def)
  moreover have "cx_head (ch_table ?t x) = cx_head (ch_table s x)"
    by (simp add: ctx_error_def ctx_post_error_def)
  ultimately show ?case using Suc.IH [of ?t] Suc.prems by simp
qed simp

theorem refused_call_blocks_channel_witness:
  "\<exists>t. ch_run_posts server_call_ops 1000
     (sample_channel\<lparr>ch_to_calls := [3, 4], ch_before_send := Some (\<lambda>_. False), ch_posted := [Post_Next]\<rparr>) = Inr t \<and>
     ch_to_calls t = [3, 4] \<and> ch_out t = []"
  using refused_call_blocks_channel [of "sample_channel\<lparr>ch_to_calls := [3, 4], ch_before_send := Some (\<lambda>_. False),
      ch_posted := [Post_Next]\<rparr>" 3 "[4]" "\<lambda>_. False" server_call_ops 1000]
  by (auto simp: sample_channel_def ch_new_def)

text \<open>
  Connecting again before the aborted write of the old session has come back breaks the
  channel: dialling opens the socket, so the handler of the old write does not notice that its
  session is over, and it pops the list of calls, which stopping had emptied.
\<close>

theorem stale_write_after_reconnect:
  "ch_handle_send ops error x (ch_start on_err (ch_on_error ops err s)) = Inl Empty_List"
  by (simp add: ch_start_def ch_handle_send_def)

text \<open>
  Calls that were waiting to be sent outlive their session: stopping tells the caller of a
  listed call the error, but leaves the call in the list, and the next session sends it first
  although its caller has given it up.
\<close>

theorem failed_calls_sent_after_reconnect:
  fixes s :: "(rpc_msg_header, server_calls) channel"
  assumes "sc_call_list (ch_calls s) = x # xs" "map_of (sc_call_map (ch_calls s)) i = Some x" "ch_before_send s = None"
    "s1 = ch_start on_err (ch_on_error server_call_ops err s)"
  shows "cx_is_over (ch_table s1 x) \<and>
    (\<exists>t. ch_connect_done server_call_ops on_succ on_err ec_success s1 = Inr t \<and> x \<in> set (ch_out t))"
proof -
  have "x \<in> set (fst (co_take_map server_call_ops (ch_calls s)))"
    using map_of_SomeD [OF assms(2)] by (force simp: server_call_ops_def sc_task_calls_from_map_def)
  then have "cx_is_over (ch_table s1 x)"
    by (simp add: assms(4) ch_start_def on_error_table ctx_error_def ctx_post_error_def)
  moreover have bs: "ch_before_send s1 = None"
    using assms(3) by (simp add: assms(4) ch_start_def before_send_on_error)
  have calls: "sc_call_list (ch_calls s1) = x # xs"
    using assms(1) by (simp add: assms(4) ch_start_def) (simp add: server_call_ops_def sc_task_calls_from_map_def)
  obtain t where "ch_call_impl server_call_ops (s1\<lparr>ch_status := connected\<rparr>) = Inr t" "x \<in> set (ch_out t)"
    using bs calls by (simp add: ch_call_impl_def ch_call_impl1_def Let_def)
      (simp add: server_call_ops_def sc_call_list_empty_def sc_task_calls_from_list_def ch_call_impl1_def Let_def)
  then have "\<exists>t. ch_connect_done server_call_ops on_succ on_err ec_success s1 = Inr t \<and> x \<in> set (ch_out t)"
    by (auto simp: ch_connect_done_def ch_start_rpc_service_def ec_success_def ch_recv_head_def)
  ultimately show ?thesis by blast
qed

theorem failed_calls_sent_after_reconnect_witness:
  "\<exists>t. ch_connect_done server_call_ops False False ec_success
     (ch_start False (ch_on_error server_call_ops (net_result_code EC_cancel)
       (sample_channel\<lparr>ch_calls := \<lparr>sc_call_map = [(1, 3)], sc_call_list = [3], sc_call_id = 1\<rparr>\<rparr>))) = Inr t \<and>
     3 \<in> set (ch_out t)"
  using failed_calls_sent_after_reconnect [of "sample_channel\<lparr>ch_calls := \<lparr>sc_call_map = [(1, 3)], sc_call_list = [3],
      sc_call_id = 1\<rparr>\<rparr>" 3 "[]" 1, OF _ _ _ refl, of False "net_result_code EC_cancel" False]
  by (simp add: sample_channel_def ch_new_def)

end
