(* ===== verification/Rpc_Task.thy ===== *)
theory Rpc_Task
  imports Rpc_Channel Raw_Msg Pools
begin

text \<open>
  Calls as the user of a client makes them (\<open>src/network/rpc/net/rpc_task.hpp\<close>): \<open>call\<close> returns an \<open>rpc_task\<close>, which is
  given its functions and submits its context to the channel when it is destroyed or waited for, and dials first when the channel is not
  connected; \<open>connect\<close> returns a \<open>connect_task\<close> for dialling alone. The clients of \<open>rpc/client/\<close> and the service that
  runs them, \<open>net/ios_wrapper.hpp\<close>, the part of \<open>router_register.hpp\<close> that hands a request to its handler, and the server of \<open>rpc/server/\<close>
  stand at the end.

  The functions given to \<open>start\<close> are values of \<open>ok_func\<close> and \<open>err_func\<close>, one constructor per closure the code makes; \<open>rt_dials\<close>
  are those of the attempts that have not completed, \<open>rt_delays\<close> what waits for a timer. A thread that waits is a value of
  \<open>waiting\<close>, and \<open>tk_wait_resume\<close> gives what it does when it can go on, \<open>None\<close> while it is blocked. The function that \<open>wait\<close> installs is number 0.
\<close>

section \<open>Model\<close>

datatype ok_func = No_Ok | User_Ok nat | Call_Ok nat | Wake_Ok nat
datatype err_func = No_Err | User_Err nat | Call_Err nat | Wake_Err nat
datatype delayed = Delayed_Call nat | Delayed_Start ok_func err_func | Delayed_Timeout nat

record barrier =
  ba_over :: bool
  ba_result :: net_result

datatype task_note = Connected_Func nat | Failed_Func nat net_result

record ('h, 'c) rt =
  rt_ch :: "('h, 'c) channel"
  rt_dials :: "(ok_func \<times> err_func) list"
  rt_delays :: "(int \<times> delayed) list"
  rt_barriers :: "nat \<Rightarrow> barrier"
  rt_notes :: "task_note list"

definition rt_upd :: "(('h, 'c) channel \<Rightarrow> ('h, 'c) channel) \<Rightarrow> ('h, 'c) rt \<Rightarrow> ('h, 'c) rt" where
  "rt_upd f r = r\<lparr>rt_ch := f (rt_ch r)\<rparr>"

definition rt_initial :: "('h, 'c) channel \<Rightarrow> ('h, 'c) rt" where
  "rt_initial ch = \<lparr>rt_ch = ch, rt_dials = [], rt_delays = [], rt_barriers = (\<lambda>_. \<lparr>ba_over = False, ba_result = net_result_ok\<rparr>), rt_notes = []\<rparr>"

subsection \<open>Dialling\<close>

definition rt_wake :: "nat \<Rightarrow> net_result option \<Rightarrow> ('h, 'c) rt \<Rightarrow> ('h, 'c) rt" where
  "rt_wake b res r =
     (if ba_over (rt_barriers r b) then r
      else r\<lparr>rt_barriers := (rt_barriers r)(b := \<lparr>ba_over = True, ba_result = (case res of None \<Rightarrow> ba_result (rt_barriers r b) | Some e \<Rightarrow> e)\<rparr>)\<rparr>)"

definition run_ok :: "('h, 'c) call_ops \<Rightarrow> ok_func \<Rightarrow> ('h, 'c) rt \<Rightarrow> ('h, 'c) rt" where
  "run_ok ops f r = (case f of
     No_Ok \<Rightarrow> r
   | User_Ok u \<Rightarrow> r\<lparr>rt_notes := rt_notes r @ [Connected_Func u]\<rparr>
   | Call_Ok x \<Rightarrow> rt_upd (\<lambda>s. ch_call_context ops x (if ch_irptr s then ch_event (Ev_Connect net_result_ok) s else s)) r
   | Wake_Ok b \<Rightarrow> rt_wake b None r)"

definition run_err :: "err_func \<Rightarrow> net_result \<Rightarrow> ('h, 'c) rt \<Rightarrow> ('h, 'c) rt" where
  "run_err f e r = (case f of
     No_Err \<Rightarrow> r
   | User_Err u \<Rightarrow> r\<lparr>rt_notes := rt_notes r @ [Failed_Func u e]\<rparr>
   | Call_Err x \<Rightarrow>
       (let c = ch_table (rt_ch r) x
        in if cx_on_ok c \<noteq> None \<or> cx_on_error c \<noteq> None \<or> cx_barrier c then rt_upd (ch_upd x (ctx_error e)) r
           else if ch_irptr (rt_ch r) then rt_upd (ch_event (Ev_Connect e)) r else r)
   | Wake_Err b \<Rightarrow> rt_wake b (Some e) r)"

text \<open>\<open>async_rpc_channel::start\<close> with the functions it is given: on a channel that is not disconnected the second one is called at
  once. The functions of a failed attempt run before the status is set; none of them looks at it.\<close>

definition rt_start :: "ok_func \<Rightarrow> err_func \<Rightarrow> ('h, 'c) rt \<Rightarrow> ('h, 'c) rt" where
  "rt_start ok er r =
     (let r1 = rt_upd (ch_start (er \<noteq> No_Err)) r
      in if ch_status (rt_ch r) \<noteq> disconnected then run_err er (net_result_code EC_repeat_connect) r1
         else r1\<lparr>rt_dials := rt_dials r1 @ [(ok, er)]\<rparr>)"

definition rt_connect_done :: "('h, 'c) call_ops \<Rightarrow> ec_t \<Rightarrow> ('h, 'c) rt \<Rightarrow> ch_error + ('h, 'c) rt" where
  "rt_connect_done ops ec r =
     (case rt_dials r of
        [] \<Rightarrow> Inr r
      | (ok, er) # ds \<Rightarrow>
          ebind (ch_connect_done ops (ok \<noteq> No_Ok) (er \<noteq> No_Err) ec (rt_ch r)) (\<lambda>ch.
            let r1 = r\<lparr>rt_ch := ch, rt_dials := ds\<rparr>
            in Inr (if ec_value ec = 0 then run_ok ops ok r1 else run_err er (net_result_code_sys EC_connect_fail ec) r1)))"

subsection \<open>A task for connecting\<close>

record connect_task =
  ct_on_ok :: ok_func
  ct_on_error :: err_func
  ct_dismiss :: bool
  ct_has_timer :: bool
  ct_duration :: int
  ct_timeout_duration :: int

definition ct_new :: connect_task where
  "ct_new = \<lparr>ct_on_ok = No_Ok, ct_on_error = No_Err, ct_dismiss = False, ct_has_timer = True, ct_duration = 0, ct_timeout_duration = 0\<rparr>"

text \<open>Moving a task leaves the old one dismissed and empty; the members for the timeout are not moved, so in the new one they are
  whatever was there, \<open>garbage\<close>.\<close>

definition ct_move :: "int \<Rightarrow> connect_task \<Rightarrow> connect_task \<times> connect_task" where
  "ct_move garbage t = (t\<lparr>ct_timeout_duration := garbage\<rparr>, t\<lparr>ct_on_ok := No_Ok, ct_on_error := No_Err, ct_dismiss := True, ct_has_timer := False\<rparr>)"

definition ct_set_ok :: "ok_func \<Rightarrow> connect_task \<Rightarrow> connect_task" where
  "ct_set_ok f t = t\<lparr>ct_on_ok := f\<rparr>"

definition ct_set_error :: "err_func \<Rightarrow> connect_task \<Rightarrow> connect_task" where
  "ct_set_error f t = t\<lparr>ct_on_error := f\<rparr>"

definition ct_delay :: "int \<Rightarrow> connect_task \<Rightarrow> connect_task" where
  "ct_delay d t = (if d > 0 then t\<lparr>ct_duration := d\<rparr> else t)"

definition ct_timeout :: "int \<Rightarrow> connect_task \<Rightarrow> connect_task" where
  "ct_timeout d t = (if d > 0 then t\<lparr>ct_timeout_duration := d\<rparr> else t)"

text \<open>The overload that takes milliseconds.\<close>

definition ct_timeout_ms :: "int \<Rightarrow> connect_task \<Rightarrow> connect_task" where
  "ct_timeout_ms ms t = ct_delay ms t"

definition ct_do_call_managed :: "connect_task \<Rightarrow> ('h, 'c) rt \<Rightarrow> connect_task \<times> ('h, 'c) rt" where
  "ct_do_call_managed t r =
     (if ct_dismiss t then (t, r)
      else (t\<lparr>ct_dismiss := True, ct_on_ok := No_Ok, ct_on_error := No_Err\<rparr>,
            if \<not> ct_has_timer t \<or> ct_duration t \<le> 0 then rt_start (ct_on_ok t) (ct_on_error t) r
            else r\<lparr>rt_delays := rt_delays r @ [(ct_duration t, Delayed_Start (ct_on_ok t) (ct_on_error t))]\<rparr>))"

text \<open>\<open>wait\<close> up to the point where the thread blocks on the barrier \<open>b\<close>; the result is read when it goes on.\<close>

definition ct_wait :: "int \<Rightarrow> nat \<Rightarrow> connect_task \<Rightarrow> ('h, 'c) rt \<Rightarrow> connect_task \<times> ('h, 'c) rt" where
  "ct_wait d b t r =
     (if ct_dismiss t then (t, r)
      else let tmo = (if d \<noteq> duration_max then d else ct_timeout_duration t);
               r1 = (if tmo > 0 then r\<lparr>rt_delays := rt_delays r @ [(tmo, Delayed_Timeout b)]\<rparr> else r)
           in (t\<lparr>ct_dismiss := True, ct_on_ok := No_Ok, ct_on_error := No_Err, ct_timeout_duration := tmo\<rparr>,
               rt_start (Wake_Ok b) (Wake_Err b) r1))"

subsection \<open>A task for a call\<close>

record rpc_task =
  tk_ctx :: nat
  tk_dismiss :: bool
  tk_timer :: bool
  tk_duration :: int
  tk_has_result :: bool

definition tk_new :: "nat \<Rightarrow> rpc_task" where
  "tk_new x = \<lparr>tk_ctx = x, tk_dismiss = False, tk_timer = False, tk_duration = 0, tk_has_result = False\<rparr>"

text \<open>\<open>call_impl\<close>: \<open>c\<close> is the context made from the packed arguments, \<open>reply_id\<close> what the protocol names as its reply.\<close>

definition rt_call :: "nat \<Rightarrow> 'h rpc_context \<Rightarrow> u32 \<Rightarrow> ('h, 'c) rt \<Rightarrow> rpc_task \<times> ('h, 'c) rt" where
  "rt_call x c reply_id r = (tk_new x, rt_upd (ch_upd x (\<lambda>_. c\<lparr>cx_reply_protocol_id := reply_id\<rparr>)) r)"

text \<open>A typed task has a copy constructor of its own and hence no move constructor: passing one on by value, also from a temporary,
  copies every member, \<open>dismiss_\<close> too, and leaves the original as it is.\<close>

definition tk_copy :: "rpc_task \<Rightarrow> rpc_task" where
  "tk_copy t = t"

definition tk_set :: "('h rpc_context \<Rightarrow> 'h rpc_context) \<Rightarrow> rpc_task \<Rightarrow> ('h, 'c) rt \<Rightarrow> ('h, 'c) rt" where
  "tk_set f t r = rt_upd (ch_upd (tk_ctx t) f) r"

definition tk_reply :: "u32 \<Rightarrow> rpc_task \<Rightarrow> ('h, 'c) rt \<Rightarrow> ('h, 'c) rt" where
  "tk_reply reply_id t r = tk_set (\<lambda>c. c\<lparr>cx_reply_protocol_id := reply_id\<rparr>) t r"

definition tk_on_ok :: "nat \<Rightarrow> rpc_task \<Rightarrow> ('h, 'c) rt \<Rightarrow> rpc_task \<times> ('h, 'c) rt" where
  "tk_on_ok f t r = (t\<lparr>tk_has_result := True\<rparr>, tk_set (\<lambda>c. c\<lparr>cx_on_ok := Some f\<rparr>) t r)"

definition tk_on_error :: "nat \<Rightarrow> rpc_task \<Rightarrow> ('h, 'c) rt \<Rightarrow> ('h, 'c) rt" where
  "tk_on_error f t r = tk_set (\<lambda>c. c\<lparr>cx_on_error := Some f\<rparr>) t r"

definition tk_delay :: "int \<Rightarrow> rpc_task \<Rightarrow> rpc_task" where
  "tk_delay d t = (if d \<le> 0 then t else t\<lparr>tk_timer := True, tk_duration := d\<rparr>)"

definition tk_timeout :: "int \<Rightarrow> rpc_task \<Rightarrow> ('h, 'c) rt \<Rightarrow> ('h, 'c) rt" where
  "tk_timeout d t r = tk_set (ctx_timeout d) t r"

text \<open>What the destructor runs.\<close>

definition tk_do_call_managed :: "('h, 'c) call_ops \<Rightarrow> rpc_task \<Rightarrow> ('h, 'c) rt \<Rightarrow> rpc_task \<times> ('h, 'c) rt" where
  "tk_do_call_managed ops t r =
     (if tk_dismiss t then (t, r)
      else let x = tk_ctx t
           in (t\<lparr>tk_dismiss := True\<rparr>,
               if ch_is_client (rt_ch r) \<and> ch_status (rt_ch r) = disconnected
               then snd (ct_do_call_managed (ct_delay (tk_duration t) (ct_set_error (Call_Err x) (ct_set_ok (Call_Ok x) ct_new))) r)
               else if \<not> tk_timer t \<or> tk_duration t \<le> 0 then rt_upd (ch_call_context ops x) r
               else r\<lparr>rt_delays := rt_delays r @ [(tk_duration t, Delayed_Call x)]\<rparr>))"

datatype waiting = Wait_Connect nat | Wait_Ctx | Wait_Done "net_result + unit"

definition tk_submit :: "('h, 'c) call_ops \<Rightarrow> nat \<Rightarrow> ('h, 'c) rt \<Rightarrow> ('h, 'c) rt" where
  "tk_submit ops x r = rt_upd (\<lambda>s. ch_call_context ops x (ch_upd x ctx_create_barrier s)) r"

text \<open>\<open>wait\<close> of a task with or without a result up to the point where it blocks; \<open>b\<close> is the barrier of the \<open>connect_task\<close> it makes.\<close>

definition tk_do_call_and_wait :: "('h, 'c) call_ops \<Rightarrow> nat \<Rightarrow> rpc_task \<Rightarrow> ('h, 'c) rt \<Rightarrow> rpc_task \<times> waiting \<times> ('h, 'c) rt" where
  "tk_do_call_and_wait ops b t r =
     (if tk_dismiss t then (t, Wait_Done (Inr ()), r)
      else if ch_is_client (rt_ch r) \<and> ch_status (rt_ch r) = disconnected
      then (t\<lparr>tk_dismiss := True\<rparr>, Wait_Connect b, snd (ct_wait duration_max b ct_new r))
      else (t\<lparr>tk_dismiss := True\<rparr>, Wait_Ctx, tk_submit ops (tk_ctx t) r))"

definition tk_wait :: "bool \<Rightarrow> ('h, 'c) call_ops \<Rightarrow> int \<Rightarrow> nat \<Rightarrow> rpc_task \<Rightarrow> ('h, 'c) rt \<Rightarrow> rpc_task \<times> waiting \<times> ('h, 'c) rt" where
  "tk_wait has_result ops d b t r =
     (if tk_dismiss t then tk_do_call_and_wait ops b t r
      else tk_do_call_and_wait ops b (if has_result then t\<lparr>tk_has_result := True\<rparr> else t)
             (tk_set (\<lambda>c. c\<lparr>cx_duration := d, cx_on_ok := (if has_result then Some 0 else None), cx_on_error := None\<rparr>) t r))"

definition tk_wait_resume :: "('h, 'c) call_ops \<Rightarrow> rpc_task \<Rightarrow> waiting \<Rightarrow> ('h, 'c) rt \<Rightarrow> (waiting \<times> ('h, 'c) rt) option" where
  "tk_wait_resume ops t w r = (case w of
     Wait_Connect b \<Rightarrow>
       if \<not> ba_over (rt_barriers r b) then None
       else if is_success (ba_result (rt_barriers r b)) then Some (Wait_Ctx, tk_submit ops (tk_ctx t) r)
       else Some (Wait_Done (Inl (ba_result (rt_barriers r b))), r)
   | Wait_Ctx \<Rightarrow> map_option (\<lambda>res. (Wait_Done res, r)) (ctx_wait (ch_table (rt_ch r) (tk_ctx t)))
   | Wait_Done res \<Rightarrow> None)"

text \<open>\<open>*result_\<close>: what the closure made by the task unpacked last, the default value before.\<close>

definition tk_value :: "(bytes \<Rightarrow> 'r) \<Rightarrow> 'r \<Rightarrow> rpc_task \<Rightarrow> ('h, 'c) rt \<Rightarrow> 'r" where
  "tk_value unpack dflt t r =
     (case [d. Called_Ok _ d \<leftarrow> cx_log (ch_table (rt_ch r) (tk_ctx t))] of [] \<Rightarrow> dflt | ds \<Rightarrow> unpack (last ds))"

text \<open>\<open>get\<close> after \<open>wait\<close> has returned, and the overload that catches the exception.\<close>

definition tk_get :: "(bytes \<Rightarrow> 'r) \<Rightarrow> 'r \<Rightarrow> rpc_task \<Rightarrow> waiting \<Rightarrow> ('h, 'c) rt \<Rightarrow> (net_result + 'r) option" where
  "tk_get unpack dflt t w r = (case w of
     Wait_Done (Inr _) \<Rightarrow> Some (Inr (tk_value unpack dflt t r))
   | Wait_Done (Inl e) \<Rightarrow> Some (Inl e)
   | _ \<Rightarrow> None)"

definition tk_get_ec :: "(bytes \<Rightarrow> 'r) \<Rightarrow> 'r \<Rightarrow> rpc_task \<Rightarrow> waiting \<Rightarrow> ('h, 'c) rt \<Rightarrow> ('r option \<times> net_result option) option" where
  "tk_get_ec unpack dflt t w r =
     map_option (\<lambda>res. case res of Inr v \<Rightarrow> (Some v, None) | Inl e \<Rightarrow> (None, Some e)) (tk_get unpack dflt t w r)"

subsection \<open>Timers\<close>

definition rt_fire :: "('h, 'c) call_ops \<Rightarrow> ec_t \<Rightarrow> delayed \<Rightarrow> ('h, 'c) rt \<Rightarrow> ('h, 'c) rt" where
  "rt_fire ops ec d r = (case d of
     Delayed_Call x \<Rightarrow> if ec_value ec = 0 then rt_upd (ch_call_context ops x) r else r
   | Delayed_Start ok er \<Rightarrow> if ec_value ec = 0 then rt_start ok er r else r
   | Delayed_Timeout b \<Rightarrow> rt_wake b (Some (if ec_value ec \<noteq> 0 then net_result_sys ec else net_result_code EC_timeout)) r)"

subsection \<open>The synchronous client\<close>

text \<open>\<open>sync_client::call\<close> up to the point where it blocks, for protocols with and without a result.\<close>

definition sync_call :: "bool \<Rightarrow> ('h, 'c) call_ops \<Rightarrow> nat \<Rightarrow> 'h rpc_context \<Rightarrow> u32 \<Rightarrow> nat \<Rightarrow> ('h, 'c) rt \<Rightarrow> rpc_task \<times> waiting \<times> ('h, 'c) rt" where
  "sync_call has_result ops x c reply_id b r = (case rt_call x c reply_id r of (t, r0) \<Rightarrow> tk_wait has_result ops duration_max b t r0)"

section \<open>A call that waits for its answer\<close>

lemma server_call_ops_simps [simp]:
  "co_head server_call_ops = server_ops" "co_push server_call_ops = sc_push_call" "co_list_empty server_call_ops = sc_call_list_empty"
  "co_take_list server_call_ops = sc_task_calls_from_list"
  by (simp_all add: server_call_ops_def)

text \<open>A context that is registered under \<open>i\<close>, with the thread that made it waiting.\<close>

definition awaits :: "u32 \<Rightarrow> nat \<Rightarrow> bool \<Rightarrow> (rpc_msg_header, server_calls) channel \<Rightarrow> bool" where
  "awaits i x be s \<longleftrightarrow> ch_socket_open s \<and> ch_big_endian s = be \<and> map_of (sc_call_map (ch_calls s)) i = Some x \<and>
     (let c = ch_table s x in cx_on_ok c = Some 0 \<and> cx_barrier c \<and> \<not> cx_is_over c \<and> cx_log c = [] \<and> is_success (cx_err c))"

lemma named_call_fields [simp]:
  "cx_on_ok (ctx_call_named way hash msg) = None" "\<not> cx_barrier (ctx_call_named way hash msg)" "\<not> cx_is_over (ctx_call_named way hash msg)"
  "cx_log (ctx_call_named way hash msg) = []" "cx_err (ctx_call_named way hash msg) = net_result_ok"
  by (simp_all add: ctx_call_named_def ctx_new_def)

lemma named_call_needs_reply: "ctx_need_reply server_ops (ctx_call_named two_way hash msg)"
proof -
  let ?h = "cx_head (ctx_call_named two_way hash msg)"
  have "rmh_is_internal ?h"
    by (simp add: ctx_call_named_def ctx_new_def rmh_is_internal_def rmh_flag_def rmh_new_internal_def imh_to_bytes_def imh_init_def)
  then show ?thesis
    by (simp add: ctx_need_reply_def server_ops_def rmh_need_reply_def)
      (simp add: ctx_call_named_def ctx_new_def rmh_new_internal_def imh_init_def)
qed

lemma submit_registers:
  fixes s :: "(rpc_msg_header, server_calls) channel"
  assumes "ch_status s = connected" "ch_socket_open s" "sc_call_list (ch_calls s) = []" "ch_posted s = []"
    "map_of (sc_call_map (ch_calls s)) (sc_call_id (ch_calls s) + 1) = None"
    "ctx_need_reply server_ops (ch_table s x)" "cx_on_ok (ch_table s x) = Some 0" "\<not> cx_is_over (ch_table s x)" "cx_log (ch_table s x) = []"
    "is_success (cx_err (ch_table s x))"
    and "s' = ch_call_context server_call_ops x (ch_upd x ctx_create_barrier s)"
  shows "awaits (sc_call_id (ch_calls s) + 1) x (ch_big_endian s) s'" "ch_posted s' = [Post_Call]" "sc_call_list (ch_calls s') = [x]"
    "ch_to_calls s' = ch_to_calls s" "ch_out s' = ch_out s" "ch_before_send s' = ch_before_send s" "ch_read s' = ch_read s"
proof -
  have "ctx_need_reply server_ops (ctx_create_barrier (ch_table s x))" "ctx_have_reply_process (ctx_create_barrier (ch_table s x))"
    using assms(6,7) by (simp_all add: ctx_need_reply_def ctx_create_barrier_def ctx_have_reply_process_def)
  note c = assms(1-5,7-10) this
  have "ch_big_endian (ch_upd x f s) = ch_big_endian s" for f by (simp add: ch_upd_def)
  then show "awaits (sc_call_id (ch_calls s) + 1) x (ch_big_endian s) s'"
    using c unfolding assms(11)
    by (simp add: ch_call_context_def sc_call_list_empty_def sc_push_call_def sc_push_call_response_def awaits_def Let_def ctx_create_barrier_def map_add_def)
  show "ch_posted s' = [Post_Call]" "sc_call_list (ch_calls s') = [x]" "ch_to_calls s' = ch_to_calls s" "ch_out s' = ch_out s"
    "ch_before_send s' = ch_before_send s" "ch_read s' = ch_read s"
    using c unfolding assms(11)
    by (simp_all add: ch_call_context_def sc_call_list_empty_def sc_push_call_def sc_push_call_response_def Let_def)
qed

text \<open>Writing the call leaves it waiting.\<close>

lemma awaits_upd:
  assumes "awaits i x be s" "\<And>c. cx_on_ok (f c) = cx_on_ok c" "\<And>c. cx_barrier (f c) = cx_barrier c" "\<And>c. cx_is_over (f c) = cx_is_over c"
    "\<And>c. cx_log (f c) = cx_log c" "\<And>c. cx_err (f c) = cx_err c"
  shows "awaits i x be (ch_upd y f s)"
  using assms by (auto simp: awaits_def ch_upd_def Let_def)

lemma awaits_set_timeout: "awaits i x be s \<Longrightarrow> awaits i x be (ch_set_timeout y s)"
  using awaits_upd [of i x be s "cx_timer_update (\<lambda>_. True)" y] by (auto simp: ch_set_timeout_def Let_def awaits_def)

lemma awaits_after_sent: "awaits i x be s \<Longrightarrow> awaits i x be (ch_after_sent ops y s)"
proof -
  have "awaits i x be t \<Longrightarrow> awaits i x be (ch_event e t)" for e t by (simp add: awaits_def ch_event_def)
  moreover have "awaits i x be t \<Longrightarrow> awaits i x be (fold (\<lambda>f. ch_event (Ev_Post_Func f)) fs t)" for fs t
    using calculation by (induction fs arbitrary: t) auto
  moreover have "awaits i x be (t\<lparr>ch_sent := l\<rparr>) = awaits i x be t" for t l by (simp add: awaits_def)
  ultimately show "awaits i x be s \<Longrightarrow> ?thesis" by (simp add: ch_after_sent_def Let_def)
qed

lemma post_writes:
  assumes "awaits i x be s" "sc_call_list (ch_calls s) = [x]" "ch_to_calls s = []" "ch_out s = []" "ch_before_send s = None"
  obtains s' where "ch_run_posted server_call_ops Post_Call (s\<lparr>ch_posted := ps\<rparr>) = Inr s'" "awaits i x be s'" "ch_out s' = [x]"
    "ch_to_calls s' = [x]" "sc_call_list (ch_calls s') = []" "ch_read s' = ch_read s"
proof -
  let ?t = "s\<lparr>ch_posted := ps, ch_to_calls := [x], ch_calls := (ch_calls s)\<lparr>sc_call_list := []\<rparr>\<rparr>"
  let ?u = "ch_set_timeout x (ch_upd x (cx_head_update (co_hton server_call_ops be)) ?t)"
  have be: "ch_big_endian s = be" using assms(1) by (simp add: awaits_def)
  have "awaits i x be ?t" using assms(1) by (simp add: awaits_def)
  then have a: "awaits i x be ?u" by (intro awaits_set_timeout awaits_upd) simp_all
  have r: "ch_read ?u = ch_read s" by (simp add: ch_set_timeout_def Let_def)
  have run: "ch_run_posted server_call_ops Post_Call (s\<lparr>ch_posted := ps\<rparr>) = Inr (?u\<lparr>ch_out := [x]\<rparr>)"
    using assms(2-5) be
    by (simp add: ch_run_posted_def ch_call_impl_def sc_call_list_empty_def sc_task_calls_from_list_def ch_call_impl1_def Let_def)
  from a have "awaits i x be (?u\<lparr>ch_out := [x]\<rparr>)" by (simp add: awaits_def)
  from that [OF run this] r show ?thesis by simp
qed

lemma send_done:
  assumes "awaits i x be s" "sc_call_list (ch_calls s) = []" "ch_to_calls s = [x]"
  obtains s' where "ch_handle_send server_call_ops ec_success x (s\<lparr>ch_out := os\<rparr>) = Inr s'" "awaits i x be s'" "ch_read s' = ch_read s"
proof -
  let ?t = "ch_upd x (cx_head_update (co_ntoh server_call_ops be)) (s\<lparr>ch_out := os, ch_to_calls := []\<rparr>)"
  let ?u = "ch_after_sent server_call_ops x ?t"
  have b: "ch_big_endian s = be" "ch_socket_open s" using assms(1) by (simp_all add: awaits_def)
  have "awaits i x be (s\<lparr>ch_out := os, ch_to_calls := []\<rparr>)" using assms(1) by (simp add: awaits_def)
  then have a: "awaits i x be ?u" by (intro awaits_after_sent awaits_upd) simp_all
  have "ch_read (fold (\<lambda>f. ch_event (Ev_Post_Func f)) fs t) = ch_read t" for fs and t :: "(rpc_msg_header, server_calls) channel"
    by (induction fs arbitrary: t) (simp_all add: ch_event_def)
  then have r: "ch_read ?u = ch_read s" by (simp add: ch_after_sent_def Let_def ch_event_def)
  have run: "ch_handle_send server_call_ops ec_success x (s\<lparr>ch_out := os\<rparr>) = Inr ?u"
    using assms(2,3) b by (simp add: ch_handle_send_def ec_success_def Let_def ch_call_impl_def sc_call_list_empty_def)
  from that [OF run a r] show ?thesis .
qed

lemma ctx_wait_outcome:
  assumes "cx_on_ok c = Some 0" "cx_barrier c" "\<not> cx_is_over c" "cx_log c = []" "is_success (cx_err c)"
  shows "ctx_wait c = None" "ctx_wait (ctx_ok c) = Some (Inr ())" "cx_log (ctx_ok c) = [Called_Ok 0 (cx_recv_msg c), Notified]"
    "\<not> is_success e \<Longrightarrow> ctx_wait (ctx_error e c) = Some (Inl e)"
  using assms by (simp_all add: ctx_wait_def ctx_ok_def ctx_error_def ctx_post_error_def)

lemma awaited_reply:
  assumes "awaits i x be s" "rmh_is_reply (rmh_ntoh be h)" "rmh_call_id (rmh_ntoh be h) = i"
    "0 < unat (rmh_length (rmh_ntoh be h))" "unat (rmh_length (rmh_ntoh be h)) \<le> max_body" "code = rmh_result (rmh_ntoh be h)"
    "s1 = ch_handle_recv_head server_call_ops ec_success ((s\<lparr>ch_head := h\<rparr>)\<lparr>ch_read := No_Read\<rparr>)"
    "s2 = ch_handle_recv_reply server_call_ops x ec_success (ch_upd x (cx_recv_msg_update (\<lambda>_. body)) (s1\<lparr>ch_read := No_Read\<rparr>))"
  shows "ch_read s1 = Read_Reply x" "ctx_wait (ch_table s2 x) = Some (if code < 100 then Inr ()
      else Inl (net_result_code_sys EC_remote_error \<lparr>ec_value = uint code, ec_category = application_category\<rparr>))"
    "code < 100 \<Longrightarrow> cx_log (ch_table s2 x) = [Called_Ok 0 body, Notified]"
proof -
  let ?e = "net_result_code_sys EC_remote_error \<lparr>ec_value = uint code, ec_category = application_category\<rparr>"
  have a: "ch_socket_open s" "ch_big_endian s = be" "map_of (sc_call_map (ch_calls s)) i = Some x" "cx_barrier (ch_table s x)"
    using assms(1) by (simp_all add: awaits_def Let_def)
  have rc: "ch_read s1 = Read_Reply x" "\<exists>k. ch_table s2 x = (if code < 100 then ctx_ok else ctx_error ?e) ((ch_table s x)\<lparr>cx_head := k, cx_recv_msg := body\<rparr>)"
    using reply_completes(1,4) [of "s\<lparr>ch_head := h\<rparr>" be x, OF _ _ _ _ _ _ _ assms(7,8)] a assms(2-6) by (simp_all cong: if_cong)
  from rc(2) obtain k where t: "ch_table s2 x = (if code < 100 then ctx_ok else ctx_error ?e) ((ch_table s x)\<lparr>cx_head := k, cx_recv_msg := body\<rparr>)" ..
  show "ch_read s1 = Read_Reply x" by (rule rc(1))
  have "\<not> is_success ?e" by (simp add: is_success_def net_result_code_sys_def get_ec_def)
  with ctx_wait_outcome [of "(ch_table s x)\<lparr>cx_head := k, cx_recv_msg := body\<rparr>"] assms(1)
  show "ctx_wait (ch_table s2 x) = Some (if code < 100 then Inr () else Inl ?e)"
    "code < 100 \<Longrightarrow> cx_log (ch_table s2 x) = [Called_Ok 0 body, Notified]"
    by (simp_all add: t awaits_def Let_def)
qed

text \<open>(C10) A synchronous call on a client that is not connected dials, blocks until the connection is there, then submits the call and
  blocks until its answer arrives, and returns the value unpacked from the body of the answer, or throws a remote error with the
  result code of the answer when that is in the failure range.\<close>

theorem sync_call_returns_reply:
  fixes r :: "(rpc_msg_header, server_calls) rt"
  assumes "ch_is_client (rt_ch r)" "ch_status (rt_ch r) = disconnected" "sc_call_list (ch_calls (rt_ch r)) = []"
    "ch_to_calls (rt_ch r) = []" "ch_posted (rt_ch r) = []" "ch_out (rt_ch r) = []" "ch_before_send (rt_ch r) = None"
    "map_of (sc_call_map (ch_calls (rt_ch r))) (sc_call_id (ch_calls (rt_ch r)) + 1) = None"
    "rt_dials r = []" "rt_barriers r b = \<lparr>ba_over = False, ba_result = net_result_ok\<rparr>"
    and "c = ctx_call_named two_way hash args"
    and "rmh_is_reply (rmh_ntoh (ch_big_endian (rt_ch r)) h)" "rmh_call_id (rmh_ntoh (ch_big_endian (rt_ch r)) h) = sc_call_id (ch_calls (rt_ch r)) + 1"
    "0 < unat (rmh_length (rmh_ntoh (ch_big_endian (rt_ch r)) h))" "unat (rmh_length (rmh_ntoh (ch_big_endian (rt_ch r)) h)) \<le> max_body"
    "code = rmh_result (rmh_ntoh (ch_big_endian (rt_ch r)) h)"
  shows "\<exists>t1 w1 r1 r2 r3 s4 s5 s6 s7 w r4.
    sync_call True server_call_ops x c 0 b r = (t1, w1, r1) \<and> tk_wait_resume server_call_ops t1 w1 r1 = None \<and>
    rt_connect_done server_call_ops ec_success r1 = Inr r2 \<and> tk_wait_resume server_call_ops t1 w1 r2 = Some (Wait_Ctx, r3) \<and>
    tk_wait_resume server_call_ops t1 Wait_Ctx r3 = None \<and> ch_posted (rt_ch r3) = [Post_Call] \<and>
    ch_run_posted server_call_ops Post_Call ((rt_ch r3)\<lparr>ch_posted := []\<rparr>) = Inr s4 \<and> ch_out s4 = [x] \<and>
    ch_handle_send server_call_ops ec_success x (s4\<lparr>ch_out := []\<rparr>) = Inr s5 \<and> ch_read s5 = Read_Head \<and>
    s6 = ch_handle_recv_head server_call_ops ec_success (s5\<lparr>ch_head := h, ch_read := No_Read\<rparr>) \<and> ch_read s6 = Read_Reply x \<and>
    s7 = ch_handle_recv_reply server_call_ops x ec_success (ch_upd x (cx_recv_msg_update (\<lambda>_. body)) (s6\<lparr>ch_read := No_Read\<rparr>)) \<and>
    tk_wait_resume server_call_ops t1 Wait_Ctx (r3\<lparr>rt_ch := s7\<rparr>) = Some (w, r4) \<and>
    tk_get unpack dflt t1 w r4 = Some (if code < 100 then Inr (unpack body)
      else Inl (net_result_code_sys EC_remote_error \<lparr>ec_value = uint code, ec_category = application_category\<rparr>))"
proof -
  let ?s = "rt_ch r" and ?i = "sc_call_id (ch_calls (rt_ch r)) + 1" and ?be = "ch_big_endian (rt_ch r)"
  define c1 where "c1 = c\<lparr>cx_reply_protocol_id := 0, cx_duration := duration_max, cx_on_ok := Some 0, cx_on_error := None\<rparr>"
  define s1 where "s1 = (ch_upd x (\<lambda>_. c1) ?s)\<lparr>ch_status := connecting, ch_socket_open := True\<rparr>"
  define s2 where "s2 = ch_event (Ev_Connect_Func net_result_ok) (ch_recv_head (s1\<lparr>ch_status := connected\<rparr>))"
  define s3 where "s3 = ch_call_context server_call_ops x (ch_upd x ctx_create_barrier s2)"
  let ?t1 = "(tk_new x)\<lparr>tk_has_result := True, tk_dismiss := True\<rparr>"
  let ?r1 = "r\<lparr>rt_ch := s1, rt_dials := [(Wake_Ok b, Wake_Err b)]\<rparr>"
  let ?r2 = "r\<lparr>rt_ch := s2, rt_dials := [], rt_barriers := (rt_barriers r)(b := \<lparr>ba_over = True, ba_result = net_result_ok\<rparr>)\<rparr>"
  let ?r3 = "?r2\<lparr>rt_ch := s3\<rparr>"
  have wait: "sync_call True server_call_ops x c 0 b r = (?t1, Wait_Connect b, ?r1)"
    using assms(1,2,9)
    by (simp add: sync_call_def tk_wait_def tk_new_def rt_call_def tk_do_call_and_wait_def tk_set_def rt_upd_def ct_wait_def ct_new_def rt_start_def ch_start_def
        s1_def c1_def ch_upd_def Let_def)
  have conn: "rt_connect_done server_call_ops ec_success ?r1 = Inr ?r2"
    using assms(3,10)
    by (simp add: rt_connect_done_def ch_connect_done_def ec_success_def ch_start_rpc_service_def ch_call_impl_def s1_def s2_def
        sc_call_list_empty_def run_ok_def rt_wake_def Let_def)
  have ctx: "ch_table s2 x = c1" by (simp add: s2_def s1_def ch_recv_head_def)
  have nr: "ctx_need_reply server_ops c1" unfolding c1_def assms(11) using named_call_needs_reply [of hash args] by (simp add: ctx_need_reply_def)
  have s2: "ch_status s2 = connected" "ch_socket_open s2" "ch_calls s2 = ch_calls ?s" "ch_posted s2 = []" "ch_to_calls s2 = []" "ch_out s2 = []"
    "ch_before_send s2 = None" "ch_read s2 = Read_Head" "ch_big_endian s2 = ?be"
    using assms(4-7) by (simp_all add: s2_def s1_def ch_recv_head_def ch_event_def ch_upd_def)
  have f: "cx_on_ok (ch_table s2 x) = Some 0" "\<not> cx_is_over (ch_table s2 x)" "cx_log (ch_table s2 x) = []" "is_success (cx_err (ch_table s2 x))"
    by (simp_all add: ctx c1_def assms(11)) (simp_all add: is_success_def net_result_ok_def ec_success_def)
  have sub: "awaits ?i x ?be s3" "ch_posted s3 = [Post_Call]" "sc_call_list (ch_calls s3) = [x]" "ch_to_calls s3 = []" "ch_out s3 = []"
    "ch_before_send s3 = None" "ch_read s3 = Read_Head"
    using submit_registers [OF s2(1,2) _ s2(4) _ _ f s3_def] s2 assms(3,8) nr ctx by simp_all
  from post_writes [OF sub(1,3-6)] obtain s4 where s4: "ch_run_posted server_call_ops Post_Call (s3\<lparr>ch_posted := []\<rparr>) = Inr s4"
    "awaits ?i x ?be s4" "ch_out s4 = [x]" "ch_to_calls s4 = [x]" "sc_call_list (ch_calls s4) = []" "ch_read s4 = Read_Head"
    using sub(7) by metis
  from send_done [OF s4(2,5,4)] obtain s5 where s5: "ch_handle_send server_call_ops ec_success x (s4\<lparr>ch_out := []\<rparr>) = Inr s5"
    "awaits ?i x ?be s5" "ch_read s5 = Read_Head" using s4(6) by metis
  let ?e = "net_result_code_sys EC_remote_error \<lparr>ec_value = uint code, ec_category = application_category\<rparr>"
  define s6 where "s6 = ch_handle_recv_head server_call_ops ec_success ((s5\<lparr>ch_head := h\<rparr>)\<lparr>ch_read := No_Read\<rparr>)"
  define s7 where "s7 = ch_handle_recv_reply server_call_ops x ec_success (ch_upd x (cx_recv_msg_update (\<lambda>_. body)) (s6\<lparr>ch_read := No_Read\<rparr>))"
  note w = awaited_reply [OF s5(2) assms(12-16) s6_def s7_def]
  let ?w = "Wait_Done (if code < 100 then Inr () else Inl ?e)" and ?r4 = "?r3\<lparr>rt_ch := s7\<rparr>"
  have w1: "tk_wait_resume server_call_ops ?t1 (Wait_Connect b) ?r1 = None" using assms(10) by (simp add: tk_wait_resume_def)
  have w2: "tk_wait_resume server_call_ops ?t1 (Wait_Connect b) ?r2 = Some (Wait_Ctx, ?r3)"
    by (simp add: tk_wait_resume_def tk_submit_def rt_upd_def s3_def tk_new_def is_success_def net_result_ok_def ec_success_def)
  have w3: "tk_wait_resume server_call_ops ?t1 Wait_Ctx ?r3 = None"
    using sub(1) ctx_wait_outcome(1) [of "ch_table s3 x"] by (simp add: tk_wait_resume_def tk_new_def awaits_def Let_def)
  have w4: "tk_wait_resume server_call_ops ?t1 Wait_Ctx ?r4 = Some (?w, ?r4)" by (simp add: tk_wait_resume_def tk_new_def w(2))
  have w5: "tk_get unpack dflt ?t1 ?w ?r4 = Some (if code < 100 then Inr (unpack body) else Inl ?e)"
    by (simp add: tk_get_def tk_value_def tk_new_def w(3))
  have p: "ch_posted (rt_ch ?r3) = [Post_Call]" "ch_run_posted server_call_ops Post_Call ((rt_ch ?r3)\<lparr>ch_posted := []\<rparr>) = Inr s4"
    using sub(2) s4(1) by simp_all
  show ?thesis
    by (rule exI [where x = ?t1], rule exI [where x = "Wait_Connect b"], rule exI [where x = ?r1],
        rule exI [where x = ?r2], rule exI [where x = ?r3], rule exI [where x = s4], rule exI [where x = s5], rule exI [where x = s6],
        rule exI [where x = s7], rule exI [where x = ?w], rule exI [where x = ?r4])
      (intro conjI wait conn p s4(3) s5(1,3) w(1) s6_def s7_def w1 w2 w3 w4 w5)
qed

definition sample_rt :: "(rpc_msg_header, server_calls) rt" where
  "sample_rt = rt_initial (ch_new sc_new [] (\<lambda>_. ctx_call_named two_way 99 []) False True True None False)"

theorem sync_call_returns_reply_witness:
  "\<exists>t1 w1 r1 w r4. sync_call True server_call_ops 3 (ctx_call_named two_way 99 []) 0 0 sample_rt = (t1, w1, r1) \<and>
     tk_get length 0 t1 w (r4 :: (rpc_msg_header, server_calls) rt) = Some (Inr 2)"
proof -
  have h: "rmh_ntoh (ch_big_endian (rt_ch sample_rt)) sample_reply = sample_reply" by (rule sample_reply_fields)
  have st: "ch_is_client (rt_ch sample_rt)" "ch_status (rt_ch sample_rt) = disconnected" "sc_call_list (ch_calls (rt_ch sample_rt)) = []"
    "ch_to_calls (rt_ch sample_rt) = []" "ch_posted (rt_ch sample_rt) = []" "ch_out (rt_ch sample_rt) = []" "ch_before_send (rt_ch sample_rt) = None"
    "map_of (sc_call_map (ch_calls (rt_ch sample_rt))) (sc_call_id (ch_calls (rt_ch sample_rt)) + 1) = None" "rt_dials sample_rt = []"
    "rt_barriers sample_rt 0 = \<lparr>ba_over = False, ba_result = net_result_ok\<rparr>" "sc_call_id (ch_calls (rt_ch sample_rt)) = 0"
    by (simp_all add: sample_rt_def rt_initial_def ch_new_def sc_new_def)
  have rep: "rmh_is_reply (rmh_ntoh (ch_big_endian (rt_ch sample_rt)) sample_reply)"
    "rmh_call_id (rmh_ntoh (ch_big_endian (rt_ch sample_rt)) sample_reply) = sc_call_id (ch_calls (rt_ch sample_rt)) + 1"
    "0 < unat (rmh_length (rmh_ntoh (ch_big_endian (rt_ch sample_rt)) sample_reply))"
    "unat (rmh_length (rmh_ntoh (ch_big_endian (rt_ch sample_rt)) sample_reply)) \<le> max_body"
    "0 = rmh_result (rmh_ntoh (ch_big_endian (rt_ch sample_rt)) sample_reply)"
    unfolding h by (simp_all add: sample_reply_fields st(11) max_body_def)
  have c: "(0 :: u16) < 100" "length [7 :: u8, 8] = 2" by simp_all
  from sync_call_returns_reply [OF st(1-10) refl rep, where hash = 99 and args = "[]" and x = 3 and body = "[7, 8]" and
      unpack = length and dflt = 0, unfolded if_P [OF c(1)] c(2)]
  show ?thesis by (elim exE conjE) (intro exI conjI)
qed

section \<open>Runs of a client\<close>

text \<open>A client with the tasks its user holds and the threads that wait. The user makes, configures, copies, drops and waits for tasks, dials with
  functions of its own or disconnects; the rest are completions: of an attempt to connect, of a timer, of the channel. A context
  that is made is a new object. \<open>tc_made\<close> records, for the statements, the task objects made for a context that are not dismissed
  from the start: the one the call returns, and one for every copy of a task that is not dismissed.\<close>

record ('h, 'c) tasks =
  tc_rt :: "('h, 'c) rt"
  tc_live :: "rpc_task list"
  tc_waits :: "(rpc_task \<times> waiting) list"
  tc_made :: "nat multiset"

fun ok_ctx :: "ok_func \<Rightarrow> nat list" where
  "ok_ctx (Call_Ok x) = [x]"
| "ok_ctx _ = []"

fun delayed_ctx :: "delayed \<Rightarrow> nat list" where
  "delayed_ctx (Delayed_Call x) = [x]"
| "delayed_ctx (Delayed_Start ok er) = ok_ctx ok"
| "delayed_ctx (Delayed_Timeout b) = []"

definition live_ctx :: "rpc_task \<Rightarrow> nat list" where
  "live_ctx t = (if tk_dismiss t then [] else [tk_ctx t])"

fun wait_ctx :: "rpc_task \<times> waiting \<Rightarrow> nat list" where
  "wait_ctx (t, Wait_Connect b) = [tk_ctx t]"
| "wait_ctx _ = []"

text \<open>The contexts that somebody may still submit, and those that have been submitted.\<close>

definition rt_held :: "('h, 'c) rt \<Rightarrow> nat multiset" where
  "rt_held r = mset (concat (map (ok_ctx \<circ> fst) (rt_dials r))) + mset (concat (map (delayed_ctx \<circ> snd) (rt_delays r))) + mset (ch_pushed (rt_ch r))"

definition held :: "('h, 'c) tasks \<Rightarrow> nat multiset" where
  "held c = mset (concat (map live_ctx (tc_live c))) + mset (concat (map wait_ctx (tc_waits c))) + rt_held (tc_rt c)"

inductive tk_step :: "('h, 'c) call_ops \<Rightarrow> ('h, 'c) tasks \<Rightarrow> ('h, 'c) tasks \<Rightarrow> bool" for ops where
  ts_call: "x \<notin># tc_made c \<Longrightarrow> rt_call x k i (tc_rt c) = (t, r) \<Longrightarrow>
    tk_step ops c (c\<lparr>tc_rt := r, tc_live := tc_live c @ [t], tc_made := add_mset x (tc_made c)\<rparr>)"
| ts_on_ok: "tc_live c = xs @ t # ys \<Longrightarrow> tk_on_ok f t (tc_rt c) = (t', r) \<Longrightarrow> tk_step ops c (c\<lparr>tc_rt := r, tc_live := xs @ t' # ys\<rparr>)"
| ts_on_error: "t \<in> set (tc_live c) \<Longrightarrow> tk_step ops c (c\<lparr>tc_rt := tk_on_error f t (tc_rt c)\<rparr>)"
| ts_reply: "t \<in> set (tc_live c) \<Longrightarrow> tk_step ops c (c\<lparr>tc_rt := tk_reply i t (tc_rt c)\<rparr>)"
| ts_timeout: "t \<in> set (tc_live c) \<Longrightarrow> tk_step ops c (c\<lparr>tc_rt := tk_timeout d t (tc_rt c)\<rparr>)"
| ts_delay: "tc_live c = xs @ t # ys \<Longrightarrow> tk_step ops c (c\<lparr>tc_live := xs @ tk_delay d t # ys\<rparr>)"
| ts_copy: "t \<in> set (tc_live c) \<Longrightarrow>
    tk_step ops c (c\<lparr>tc_live := tc_live c @ [tk_copy t], tc_made := mset (live_ctx t) + tc_made c\<rparr>)"
| ts_drop: "tc_live c = xs @ t # ys \<Longrightarrow> tk_do_call_managed ops t (tc_rt c) = (t', r) \<Longrightarrow> tk_step ops c (c\<lparr>tc_rt := r, tc_live := xs @ ys\<rparr>)"
| ts_wait: "tc_live c = xs @ t # ys \<Longrightarrow> tk_wait res ops d b t (tc_rt c) = (t', w, r) \<Longrightarrow>
    tk_step ops c (c\<lparr>tc_rt := r, tc_live := xs @ t' # ys, tc_waits := tc_waits c @ [(t', w)]\<rparr>)"
| ts_resume: "tc_waits c = us @ (t, w) # vs \<Longrightarrow> tk_wait_resume ops t w (tc_rt c) = Some (w', r) \<Longrightarrow>
    tk_step ops c (c\<lparr>tc_rt := r, tc_waits := us @ (t, w') # vs\<rparr>)"
| ts_connect: "ok_ctx (ct_on_ok k) = [] \<Longrightarrow> tk_step ops c (c\<lparr>tc_rt := snd (ct_do_call_managed k (tc_rt c))\<rparr>)"
| ts_connect_wait: "tk_step ops c (c\<lparr>tc_rt := snd (ct_wait d b k (tc_rt c))\<rparr>)"
| ts_done: "rt_connect_done ops ec (tc_rt c) = Inr r \<Longrightarrow> tk_step ops c (c\<lparr>tc_rt := r\<rparr>)"
| ts_fire: "rt_delays (tc_rt c) = ds @ (d, e) # es \<Longrightarrow> tk_step ops c (c\<lparr>tc_rt := rt_fire ops ec e ((tc_rt c)\<lparr>rt_delays := ds @ es\<rparr>)\<rparr>)"
| ts_channel: "ch_step ops (rt_ch (tc_rt c)) (Inr s) \<Longrightarrow> (\<And>x. s \<noteq> ch_call_context ops x (rt_ch (tc_rt c))) \<Longrightarrow>
    tk_step ops c (c\<lparr>tc_rt := (tc_rt c)\<lparr>rt_ch := s\<rparr>\<rparr>)"

subsection \<open>Submitting once\<close>

lemma pushed_call: "mset (ch_pushed (ch_call_context ops x s)) \<subseteq># add_mset x (mset (ch_pushed s))"
  by (auto simp: ch_call_context_def Let_def split: prod.split)

lemma call_impl1_pushed: "ch_call_impl1 ops s = Inr s' \<Longrightarrow> ch_pushed s' = ch_pushed s"
  by (auto simp: ch_call_impl1_def Let_def split: list.splits if_splits)

lemma call_impl_pushed: "ch_call_impl ops s = Inr s' \<Longrightarrow> ch_pushed s' = ch_pushed s"
  by (auto simp: ch_call_impl_def Let_def dest!: call_impl1_pushed split: prod.splits if_splits)

lemma start_service_pushed: "ch_start_rpc_service ops s = Inr s' \<Longrightarrow> ch_pushed s' = ch_pushed s"
  by (auto simp: ch_start_rpc_service_def ch_recv_head_def ebind_Inr_iff dest!: call_impl_pushed)

lemma stop_service_pushed: "ch_pushed (snd (ch_stop_rpc_service ops e b s)) = ch_pushed s"
  by (simp add: ch_stop_rpc_service_def ch_stop_rpc_calls_def ch_close_def Let_def split: prod.split)

lemma connect_done_pushed: "ch_connect_done ops a b ec s = Inr s' \<Longrightarrow> ch_pushed s' = ch_pushed s"
  using stop_service_pushed [of ops "net_result_code_sys EC_connect_fail ec" b s]
  by (auto simp: ch_connect_done_def ebind_Inr_iff Let_def dest!: start_service_pushed split: if_splits prod.splits)

lemma receive_pushed:
  "ch_pushed (ch_recv_request ops s) = ch_pushed s" "ch_pushed (ch_call_complete ops x s) = ch_pushed s"
  by (simp_all add: ch_recv_request_def ch_call_complete_def ch_recv_head_def Let_def)

lemma recv_reply_pushed: "ch_pushed (ch_recv_call_reply ops s) = ch_pushed s"
  by (simp add: ch_recv_call_reply_def Let_def receive_pushed split: prod.split option.split)

lemma step_pushed:
  assumes "ch_step ops s (Inr s')" "\<And>x. s' \<noteq> ch_call_context ops x s"
  shows "ch_pushed s' = ch_pushed s"
  using assms
  by (cases rule: ch_step.cases)
    (auto simp: ch_run_posted_def ch_handle_send_def ch_on_error_sys_def ch_handle_recv_head_def ch_recv_body_def receive_pushed recv_reply_pushed
      ch_handle_recv_reply_def ch_handle_recv_request_def ch_recv_head_def ch_handle_timeout_def ch_disconnect_def Let_def
      dest!: sym [THEN call_impl_pushed] sym [THEN call_impl1_pushed] split: ch_post.splits if_splits list.splits)

lemma rt_held_upd: "mset (ch_pushed (f (rt_ch r))) \<subseteq># mset xs + mset (ch_pushed (rt_ch r)) \<Longrightarrow> rt_held (rt_upd f r) \<subseteq># mset xs + rt_held r"
  by (simp add: rt_held_def rt_upd_def ac_simps)

lemma rt_held_call: "rt_held (rt_upd (ch_call_context ops x) r) \<subseteq># add_mset x (rt_held r)"
  using rt_held_upd [of "ch_call_context ops x" r "[x]"] pushed_call [of ops x "rt_ch r"] by simp

lemma rt_wake_held [simp]: "rt_held (rt_wake b e r) = rt_held r"
  by (simp add: rt_wake_def rt_held_def)

lemma tk_set_held [simp]: "rt_held (tk_set f t r) = rt_held r"
  by (simp add: tk_set_def rt_held_def rt_upd_def)

lemma run_err_held [simp]: "rt_held (run_err f e r) = rt_held r"
  by (auto simp: run_err_def rt_held_def rt_upd_def rt_wake_def Let_def split: err_func.split)

lemma run_ok_held: "rt_held (run_ok ops f r) \<subseteq># mset (ok_ctx f) + rt_held r"
proof (cases f)
  case (Call_Ok x)
  then show ?thesis
    using rt_held_upd [of "\<lambda>s. ch_call_context ops x (if ch_irptr s then ch_event (Ev_Connect net_result_ok) s else s)" r "[x]"]
      pushed_call [of ops x "rt_ch r"] pushed_call [of ops x "ch_event (Ev_Connect net_result_ok) (rt_ch r)"]
    by (simp add: run_ok_def)
qed (simp_all add: run_ok_def, simp add: rt_held_def)

lemma rt_start_held: "rt_held (rt_start ok er r) \<subseteq># mset (ok_ctx ok) + rt_held r"
proof -
  have "ch_pushed (ch_start b s) = ch_pushed s" for b and s :: "('a, 'b) channel" by (simp add: ch_start_def)
  then have "rt_held (rt_upd (ch_start (er \<noteq> No_Err)) r) = rt_held r" by (simp add: rt_held_def rt_upd_def)
  then show ?thesis by (simp add: rt_start_def Let_def) (simp add: rt_held_def rt_upd_def ac_simps)
qed

lemma connect_done_held:
  assumes "rt_connect_done ops ec r = Inr r'"
  shows "rt_held r' \<subseteq># rt_held r"
proof (cases "rt_dials r")
  case (Cons p ds)
  obtain ok er where p: "p = (ok, er)" by force
  with assms Cons obtain ch where ch: "ch_connect_done ops (ok \<noteq> No_Ok) (er \<noteq> No_Err) ec (rt_ch r) = Inr ch"
    "r' = (if ec_value ec = 0 then run_ok ops ok (r\<lparr>rt_ch := ch, rt_dials := ds\<rparr>)
           else run_err er (net_result_code_sys EC_connect_fail ec) (r\<lparr>rt_ch := ch, rt_dials := ds\<rparr>))"
    by (auto simp: rt_connect_done_def ebind_Inr_iff Let_def split: if_splits)
  have "mset (ok_ctx ok) + rt_held (r\<lparr>rt_ch := ch, rt_dials := ds\<rparr>) = rt_held r"
    using connect_done_pushed [OF ch(1)] by (simp add: rt_held_def Cons p)
  then show ?thesis using run_ok_held [of ops ok "r\<lparr>rt_ch := ch, rt_dials := ds\<rparr>"]
      mset_subset_eq_add_right [of "rt_held (r\<lparr>rt_ch := ch, rt_dials := ds\<rparr>)" "mset (ok_ctx ok)"]
    by (simp add: ch(2))
qed (use assms in \<open>simp add: rt_connect_done_def\<close>)

lemma rt_fire_held:
  assumes "rt_delays r = ds @ (d, e) # es"
  shows "rt_held (rt_fire ops ec e (r\<lparr>rt_delays := ds @ es\<rparr>)) \<subseteq># rt_held r"
proof -
  let ?r = "r\<lparr>rt_delays := ds @ es\<rparr>"
  have h: "rt_held r = mset (delayed_ctx e) + rt_held ?r" using assms by (simp add: rt_held_def ac_simps)
  have "rt_held (rt_fire ops ec e ?r) \<subseteq># mset (delayed_ctx e) + rt_held ?r"
    using rt_held_call [of ops _ ?r] rt_start_held [of _ _ ?r] by (cases e) (auto simp: rt_fire_def intro: subset_mset.order_trans)
  then show ?thesis by (simp add: h)
qed

lemma do_call_managed_held:
  assumes "tk_do_call_managed ops t r = (t', r')"
  shows "rt_held r' \<subseteq># mset (live_ctx t) + rt_held r"
proof -
  have "rt_held (snd (ct_do_call_managed k r)) \<subseteq># mset (ok_ctx (ct_on_ok k)) + rt_held r" for k
    using rt_start_held [of "ct_on_ok k" "ct_on_error k" r] by (simp add: ct_do_call_managed_def) (simp add: rt_held_def ac_simps)
  from this [of "ct_delay (tk_duration t) (ct_set_error (Call_Err (tk_ctx t)) (ct_set_ok (Call_Ok (tk_ctx t)) ct_new))"]
  show ?thesis using assms rt_held_call [of ops "tk_ctx t" r]
    by (auto simp: tk_do_call_managed_def live_ctx_def ct_delay_def ct_set_error_def ct_set_ok_def Let_def split: if_splits)
      (simp_all add: rt_held_def)
qed

lemma ct_held:
  "ok_ctx (ct_on_ok k) = [] \<Longrightarrow> rt_held (snd (ct_do_call_managed k r)) \<subseteq># rt_held r" "rt_held (snd (ct_wait d b k r)) \<subseteq># rt_held r"
proof -
  show "ok_ctx (ct_on_ok k) = [] \<Longrightarrow> rt_held (snd (ct_do_call_managed k r)) \<subseteq># rt_held r"
    using rt_start_held [of "ct_on_ok k" "ct_on_error k" r] by (simp add: ct_do_call_managed_def) (simp add: rt_held_def ac_simps)
  have "rt_held (r\<lparr>rt_delays := rt_delays r @ [(x, Delayed_Timeout b)]\<rparr>) = rt_held r" for x by (simp add: rt_held_def)
  then show "rt_held (snd (ct_wait d b k r)) \<subseteq># rt_held r"
    using rt_start_held [of "Wake_Ok b" "Wake_Err b"] by (auto simp: ct_wait_def Let_def) (metis add_0 mset.simps(1) ok_ctx.simps(4))+
qed

lemma submit_held: "rt_held (tk_submit ops x r) \<subseteq># add_mset x (rt_held r)"
  using rt_held_upd [of "\<lambda>s. ch_call_context ops x (ch_upd x ctx_create_barrier s)" r "[x]"] pushed_call [of ops x "ch_upd x ctx_create_barrier (rt_ch r)"]
  by (simp add: tk_submit_def)

lemma wait_held:
  assumes "tk_wait res ops d b t r = (t', w, r')"
  shows "mset (live_ctx t') + mset (wait_ctx (t', w)) + rt_held r' \<subseteq># mset (live_ctx t) + rt_held r"
proof (cases "tk_dismiss t")
  case False
  define r1 where "r1 = tk_set (\<lambda>c. c\<lparr>cx_duration := d, cx_on_ok := (if res then Some 0 else None), cx_on_error := None\<rparr>) t r"
  have h: "rt_held r1 = rt_held r" by (simp add: r1_def)
  have "tk_wait res ops d b t r = tk_do_call_and_wait ops b (if res then t\<lparr>tk_has_result := True\<rparr> else t) r1"
    using False by (simp add: tk_wait_def r1_def)
  with assms False show ?thesis using submit_held [of ops "tk_ctx t" r1] ct_held(2) [of duration_max b ct_new r1]
    by (auto simp: tk_do_call_and_wait_def live_ctx_def h split: if_splits)
qed (use assms in \<open>auto simp: tk_wait_def tk_do_call_and_wait_def live_ctx_def\<close>)

lemma resume_held:
  assumes "tk_wait_resume ops t w r = Some (w', r')"
  shows "mset (wait_ctx (t, w')) + rt_held r' \<subseteq># mset (wait_ctx (t, w)) + rt_held r"
  using assms submit_held [of ops "tk_ctx t" r] by (auto simp: tk_wait_resume_def split: waiting.splits if_splits)

text \<open>A step hands contexts on or drops them; only a new call and a copy of a task add one, and a task for it.\<close>

lemma step_held:
  "tk_step ops c c' \<Longrightarrow> held c' \<subseteq># held c \<and> tc_made c' = tc_made c \<or>
     (\<exists>xs. held c' = mset xs + held c \<and> tc_made c' = mset xs + tc_made c)"
proof (induction rule: tk_step.induct)
  case (ts_call x c k i t r)
  then have "rt_held r = rt_held (tc_rt c)" "live_ctx t = [x]" by (auto simp: rt_call_def tk_new_def live_ctx_def rt_held_def rt_upd_def)
  then show ?case by (intro disjI2 exI [of _ "[x]"]) (simp add: held_def)
next
  case (ts_on_ok c xs t ys f t' r)
  then show ?case by (auto simp: tk_on_ok_def held_def live_ctx_def)
next
  case (ts_delay c xs t ys d)
  then show ?case by (auto simp: tk_delay_def held_def live_ctx_def)
next
  case (ts_copy t c)
  then show ?case by (intro disjI2 exI [of _ "live_ctx t"]) (simp add: tk_copy_def held_def ac_simps)
next
  case (ts_drop c xs t ys t' r)
  then show ?case using do_call_managed_held [OF ts_drop(2)] by (simp add: held_def ac_simps)
next
  case (ts_wait c xs t ys res d b t' w r)
  then show ?case using wait_held [OF ts_wait(2)] by (simp add: held_def ac_simps)
next
  case (ts_resume c us t w vs w' r)
  then show ?case using resume_held [OF ts_resume(2)] by (simp add: held_def ac_simps)
next
  case (ts_channel c s)
  then show ?case using step_pushed [OF ts_channel] by (simp add: held_def rt_held_def)
qed (auto simp: held_def tk_on_error_def tk_reply_def tk_timeout_def ct_held rt_fire_held dest: connect_done_held)

lemma reach_held:
  assumes "(tk_step ops)\<^sup>*\<^sup>* \<lparr>tc_rt = rt_initial (ch_new calls head tab be cl ir bs as), tc_live = [], tc_waits = [], tc_made = {#}\<rparr> c"
  shows "held c \<subseteq># tc_made c"
  using assms
proof (induction rule: rtranclp_induct)
  case base
  then show ?case by (simp add: held_def rt_held_def rt_initial_def ch_new_def)
next
  case (step c c')
  from step_held [OF step(2)] show ?case
  proof
    assume "held c' \<subseteq># held c \<and> tc_made c' = tc_made c"
    with step.IH show ?thesis by (metis subset_mset.order_trans)
  qed (use step.IH in auto)
qed

text \<open>(C11) A task hands its call to the channel at most once. Whatever the user does with its tasks, copying, dropping and waiting for them in
  any order, and however connecting, timers and the channel interleave, a context is handed to the channel at most as often as
  there have been task objects for it (the one the call returned, and the copies of tasks that were not dismissed), and for a task
  that is still held and not dismissed, and for a thread that still waits for the connection, there is one such task that has not
  handed it over. So when no such task is copied, no call is submitted twice, nor before its task is dropped or waited for.\<close>

theorem call_submitted_once:
  assumes "(tk_step ops)\<^sup>*\<^sup>* \<lparr>tc_rt = rt_initial (ch_new calls head tab be cl ir bs as), tc_live = [], tc_waits = [], tc_made = {#}\<rparr> c"
  shows "mset (ch_pushed (rt_ch (tc_rt c))) \<subseteq># tc_made c \<and>
    (\<forall>t\<in>set (tc_live c). \<not> tk_dismiss t \<longrightarrow> count (mset (ch_pushed (rt_ch (tc_rt c)))) (tk_ctx t) < count (tc_made c) (tk_ctx t)) \<and>
    (\<forall>(t, w)\<in>set (tc_waits c). (\<exists>b. w = Wait_Connect b) \<longrightarrow>
       count (mset (ch_pushed (rt_ch (tc_rt c)))) (tk_ctx t) < count (tc_made c) (tk_ctx t)) \<and>
    ((\<forall>x. count (tc_made c) x \<le> 1) \<longrightarrow> distinct (ch_pushed (rt_ch (tc_rt c))))"
proof -
  note h = reach_held [OF assms]
  let ?p = "mset (ch_pushed (rt_ch (tc_rt c)))"
  have parts: "mset (concat (map live_ctx (tc_live c))) + ?p \<subseteq># held c" "mset (concat (map wait_ctx (tc_waits c))) + ?p \<subseteq># held c"
    by (simp_all add: held_def rt_held_def ac_simps)
  have less: "count ?p x < count (tc_made c) x" if "mset xs + ?p \<subseteq># held c" "x \<in> set xs" for xs x
  proof -
    have "1 \<le> count (mset xs) x" using that(2) by (simp add: Suc_le_eq)
    then show ?thesis using mset_subset_eq_count [OF subset_mset.order_trans [OF that(1) h], of x] unfolding count_union by linarith
  qed
  have sub: "?p \<subseteq># tc_made c" using subset_mset.order_trans [OF _ h] by (simp add: held_def rt_held_def)
  have "count ?p x \<le> 1" if "\<forall>x. count (tc_made c) x \<le> 1" for x
    using that mset_subset_eq_count [OF sub, of x] by (meson order_trans)
  then have "distinct (ch_pushed (rt_ch (tc_rt c)))" if "\<forall>x. count (tc_made c) x \<le> 1"
    using that unfolding distinct_count_atmost_1 by (metis One_nat_def count_mset_0_iff count_greater_zero_iff le_antisym set_mset_mset Suc_leI)
  moreover have "count ?p (tk_ctx t) < count (tc_made c) (tk_ctx t)" if "t \<in> set (tc_live c)" "\<not> tk_dismiss t" for t
    using that by (intro less [OF parts(1)]) (force simp: live_ctx_def)
  moreover have "count ?p (tk_ctx t) < count (tc_made c) (tk_ctx t)" if "(t, w) \<in> set (tc_waits c)" "w = Wait_Connect b" for t w b
    using that by (intro less [OF parts(2)]) force
  ultimately show ?thesis using sub by blast
qed

definition sample_tasks :: "(rpc_msg_header, server_calls) tasks" where
  "sample_tasks = \<lparr>tc_rt = rt_initial (ch_new sc_new [] (\<lambda>_. ctx_call_named two_way 99 []) False True True None False), tc_live = [], tc_waits = [], tc_made = {#}\<rparr>"

theorem call_submitted_once_witness:
  "\<exists>c. tk_step server_call_ops sample_tasks c \<and> tc_live c = [tk_new 3] \<and>
     (\<forall>t\<in>set (tc_live c). count (mset (ch_pushed (rt_ch (tc_rt c)))) (tk_ctx t) < count (tc_made c) (tk_ctx t))"
proof -
  let ?c = "sample_tasks\<lparr>tc_rt := snd (rt_call 3 (ctx_call_named two_way 99 []) 0 (tc_rt sample_tasks)),
      tc_live := tc_live sample_tasks @ [tk_new 3], tc_made := add_mset 3 (tc_made sample_tasks)\<rparr>"
  have "3 \<notin># tc_made sample_tasks" by (simp add: sample_tasks_def)
  then have st: "tk_step server_call_ops sample_tasks ?c" by (rule ts_call) (simp add: rt_call_def)
  then have "(tk_step server_call_ops)\<^sup>*\<^sup>* sample_tasks ?c" by (rule r_into_rtranclp)
  from call_submitted_once [OF this [unfolded sample_tasks_def]]
  have "\<forall>t\<in>set (tc_live ?c). \<not> tk_dismiss t \<longrightarrow> count (mset (ch_pushed (rt_ch (tc_rt ?c)))) (tk_ctx t) < count (tc_made ?c) (tk_ctx t)"
    by (simp add: sample_tasks_def)
  with st show ?thesis by (intro exI [where x = ?c]) (simp add: sample_tasks_def tk_new_def)
qed

section \<open>What goes wrong\<close>

text \<open>A copied task submits its call twice: the copy of a task that is not dismissed is not dismissed either, and the destructors of both hand
  the same context to the channel.\<close>

theorem copied_task_submits_twice:
  assumes "ch_status (rt_ch r) = connected" "\<not> tk_dismiss t" "\<not> tk_timer t"
    "tk_do_call_managed ops t r = (t1, r1)" "tk_do_call_managed ops (tk_copy t) r1 = (t2, r2)"
  shows "ch_pushed (rt_ch r2) = ch_pushed (rt_ch r) @ [tk_ctx t, tk_ctx t]"
proof -
  have "ch_status (ch_call_context ops x s) = ch_status s" "ch_pushed (ch_call_context ops x s) = ch_pushed s @ [x]"
    if "ch_status s = connected" for x and s :: "('a, 'b) channel"
    using that by (simp_all add: ch_call_context_def Let_def split: prod.split)
  with assms show ?thesis by (auto simp: tk_do_call_managed_def tk_copy_def rt_upd_def Let_def)
qed

theorem copied_task_submits_twice_witness:
  "\<exists>r :: (rpc_msg_header, server_calls) rt. ch_pushed (rt_ch r) = [3, 3]"
proof -
  let ?r = "rt_upd (ch_status_update (\<lambda>_. connected)) (tc_rt sample_tasks)"
  obtain t1 r1 t2 r2 where "tk_do_call_managed server_call_ops (tk_new 3) ?r = (t1, r1)"
    "tk_do_call_managed server_call_ops (tk_copy (tk_new 3)) r1 = (t2, r2)" by (metis surj_pair)
  from copied_task_submits_twice [OF _ _ _ this] have "ch_pushed (rt_ch r2) = ch_pushed (rt_ch ?r) @ [3, 3]"
    by (simp add: tk_new_def rt_upd_def)
  then show ?thesis by (auto simp: rt_upd_def sample_tasks_def rt_initial_def ch_new_def)
qed

text \<open>A delayed call fails because the client is connected. A call with a delay on a client that is not connected delays the dialling; when
  another call has connected the client meanwhile, the delayed dialling is refused as a repetition, and the call is completed
  with that error instead of being sent over the connection that is there.\<close>

theorem delayed_call_refused:
  fixes r :: "(rpc_msg_header, server_calls) rt"
  assumes "ch_is_client (rt_ch r)" "ch_status (rt_ch r) = disconnected" "sc_call_list (ch_calls (rt_ch r)) = []" "rt_dials r = []" "rt_delays r = []"
    "x \<noteq> y" "cx_on_error (ch_table (rt_ch r) x) = Some g" "\<not> cx_is_over (ch_table (rt_ch r) x)" "cx_log (ch_table (rt_ch r) x) = []"
    "\<not> cx_barrier (ch_table (rt_ch r) x)" "d > 0"
    and "r1 = snd (tk_do_call_managed server_call_ops (tk_delay d (tk_new x)) r)" "r2 = snd (tk_do_call_managed server_call_ops (tk_new y) r1)"
  shows "\<exists>r3 r4. rt_connect_done server_call_ops ec_success r2 = Inr r3 \<and> ch_status (rt_ch r3) = connected \<and>
    rt_delays r3 = [(d, Delayed_Start (Call_Ok x) (Call_Err x))] \<and>
    r4 = rt_fire server_call_ops ec_success (Delayed_Start (Call_Ok x) (Call_Err x)) (r3\<lparr>rt_delays := []\<rparr>) \<and>
    cx_log (ch_table (rt_ch r4) x) = [Called_Error g (net_result_code EC_repeat_connect)] \<and> cx_is_over (ch_table (rt_ch r4) x) \<and>
    ch_pushed (rt_ch r4) = ch_pushed (rt_ch r3) \<and> ch_status (rt_ch r4) = connected"
proof -
  have r1: "r1 = r\<lparr>rt_delays := [(d, Delayed_Start (Call_Ok x) (Call_Err x))]\<rparr>"
    using assms(1,2,5,11) unfolding assms(12)
    by (simp add: tk_do_call_managed_def tk_delay_def tk_new_def ct_do_call_managed_def ct_delay_def ct_set_error_def ct_set_ok_def ct_new_def Let_def)
  have r2: "r2 = r1\<lparr>rt_ch := (rt_ch r)\<lparr>ch_status := connecting, ch_socket_open := True\<rparr>, rt_dials := [(Call_Ok y, Call_Err y)]\<rparr>"
    using assms(1,2,4) unfolding assms(13) r1
    by (simp add: tk_do_call_managed_def tk_new_def ct_do_call_managed_def ct_delay_def ct_set_error_def ct_set_ok_def ct_new_def rt_start_def rt_upd_def
        ch_start_def Let_def)
  define s where "s = ch_event (Ev_Connect_Func net_result_ok) (ch_recv_head ((rt_ch r)\<lparr>ch_socket_open := True, ch_status := connected\<rparr>))"
  define s3 where "s3 = ch_call_context server_call_ops y (if ch_irptr s then ch_event (Ev_Connect net_result_ok) s else s)"
  have r3: "rt_connect_done server_call_ops ec_success r2 = Inr (r1\<lparr>rt_dials := [], rt_ch := s3\<rparr>)"
    using assms(3)
    by (simp add: r2 rt_connect_done_def ch_connect_done_def ch_start_rpc_service_def ch_call_impl_def sc_call_list_empty_def ec_success_def
        run_ok_def rt_upd_def s3_def s_def ch_recv_head_def ch_event_def)
  have other: "ch_table (ch_call_context server_call_ops y t) x = ch_table t x" "ch_status (ch_call_context server_call_ops y t) = ch_status t"
    for t :: "(rpc_msg_header, server_calls) channel"
    using assms(6) by (auto simp: ch_call_context_def sc_push_call_def sc_push_call_response_def Let_def)
  have s3: "ch_table s3 x = ch_table (rt_ch r) x" "ch_status s3 = connected"
    by (simp_all add: s3_def s_def other ch_recv_head_def)
  let ?r3 = "r1\<lparr>rt_dials := [], rt_ch := s3\<rparr>"
  have fire: "rt_fire server_call_ops ec_success (Delayed_Start (Call_Ok x) (Call_Err x)) (?r3\<lparr>rt_delays := []\<rparr>) =
      ?r3\<lparr>rt_delays := [], rt_ch := ch_upd x (ctx_error (net_result_code EC_repeat_connect)) (ch_event (Ev_Connect_Func (net_result_code EC_repeat_connect)) s3)\<rparr>"
    using assms(7) s3 by (simp add: rt_fire_def ec_success_def rt_start_def rt_upd_def run_err_def ch_start_def)
  show ?thesis
    by (rule exI [where x = ?r3], rule exI, intro conjI, rule r3, simp add: s3, simp add: r1, rule refl)
      (use assms(8,9,10,7) s3 in \<open>simp_all add: fire ctx_error_def ctx_post_error_def\<close>)
qed

definition delay_rt :: "(rpc_msg_header, server_calls) rt" where
  "delay_rt = rt_initial (ch_new sc_new [] (\<lambda>_. (ctx_call_named two_way 99 [])\<lparr>cx_on_error := Some 5\<rparr>) False True True None False)"

theorem delayed_call_refused_witness:
  "\<exists>r3 r4. rt_connect_done server_call_ops ec_success (snd (tk_do_call_managed server_call_ops (tk_new 2)
      (snd (tk_do_call_managed server_call_ops (tk_delay 10 (tk_new 1)) delay_rt)))) = Inr r3 \<and>
    r4 = rt_fire server_call_ops ec_success (Delayed_Start (Call_Ok 1) (Call_Err 1)) (r3\<lparr>rt_delays := []\<rparr>) \<and>
    cx_log (ch_table (rt_ch r4) 1) = [Called_Error 5 (net_result_code EC_repeat_connect)]"
proof -
  have st: "ch_is_client (rt_ch delay_rt)" "ch_status (rt_ch delay_rt) = disconnected" "sc_call_list (ch_calls (rt_ch delay_rt)) = []"
    "rt_dials delay_rt = []" "rt_delays delay_rt = []" "(1 :: nat) \<noteq> 2" "cx_on_error (ch_table (rt_ch delay_rt) 1) = Some 5"
    "\<not> cx_is_over (ch_table (rt_ch delay_rt) 1)" "cx_log (ch_table (rt_ch delay_rt) 1) = []" "\<not> cx_barrier (ch_table (rt_ch delay_rt) 1)" "(0 :: int) < 10"
    by (simp_all add: delay_rt_def rt_initial_def ch_new_def sc_new_def)
  from delayed_call_refused [OF st refl refl] show ?thesis by (elim exE conjE) (intro exI conjI)
qed

text \<open>The overload of \<open>connect_task::timeout\<close> that takes milliseconds delays the attempt and sets no timeout.\<close>

lemma connect_timeout_delays:
  assumes "ms > 0"
  shows "ct_timeout_duration (ct_timeout_ms ms t) = ct_timeout_duration t" "ct_duration (ct_timeout_ms ms t) = ms"
  using assms by (simp_all add: ct_timeout_ms_def ct_delay_def)

text \<open>Waiting a second time for a task whose call failed returns as if it had succeeded, with the default value.\<close>

lemma second_wait_returns:
  assumes "tk_dismiss t" "[d. Called_Ok _ d \<leftarrow> cx_log (ch_table (rt_ch r) (tk_ctx t))] = []"
  shows "tk_wait res ops d b t r = (t, Wait_Done (Inr ()), r)" "tk_get unpack dflt t (Wait_Done (Inr ())) r = Some (Inr dflt)"
  using assms(1) unfolding tk_get_def tk_value_def assms(2) by (simp_all add: tk_wait_def tk_do_call_and_wait_def)

section \<open>The service of a client\<close>

text \<open>\<open>ios_wrapper\<close> runs a service in a thread of its own. \<open>iw_pending\<close> counts the operations that have not completed; \<open>run\<close> returns when
  the service is stopped, or when there is neither work nor an operation. \<open>iw_joins\<close> says that the thread can be joined.\<close>

record ios_wrapper =
  iw_is_owner :: bool
  iw_work :: bool
  iw_stopped :: bool
  iw_pending :: nat
  iw_thread :: bool

definition iw_own :: ios_wrapper where
  "iw_own = \<lparr>iw_is_owner = True, iw_work = True, iw_stopped = False, iw_pending = 0, iw_thread = False\<rparr>"

definition iw_of_service :: "bool \<Rightarrow> nat \<Rightarrow> ios_wrapper" where
  "iw_of_service stp n = \<lparr>iw_is_owner = False, iw_work = True, iw_stopped = stp, iw_pending = n, iw_thread = False\<rparr>"

definition iw_start :: "ios_wrapper \<Rightarrow> ios_wrapper" where
  "iw_start s = (if iw_is_owner s then s\<lparr>iw_thread := True\<rparr> else s)"

definition iw_stop :: "ios_wrapper \<Rightarrow> ios_wrapper" where
  "iw_stop s =
     (if iw_is_owner s
      then let s1 = s\<lparr>iw_work := False\<rparr> in if iw_stopped s1 then s1\<lparr>iw_stopped := True\<rparr> else s1
      else s)"

definition iw_joins :: "ios_wrapper \<Rightarrow> bool" where
  "iw_joins s \<longleftrightarrow> \<not> iw_thread s \<or> iw_stopped s \<or> (\<not> iw_work s \<and> iw_pending s = 0)"

text \<open>Stopping asks whether the service is stopped already before it stops it, so it never does: the destructor of a client whose connection has a
  read outstanding waits for that read.\<close>

lemma stop_waits_for_operations:
  assumes "iw_is_owner s" "iw_thread s" "\<not> iw_stopped s"
  shows "iw_joins (iw_stop s) \<longleftrightarrow> iw_pending s = 0"
  using assms by (simp add: iw_stop_def iw_joins_def)

section \<open>The body of a request\<close>

text \<open>The function that \<open>init_callback_functions\<close> installs: the message for the handler gets the memory of the read buffer of the
  channel, a block that belongs to the channel. \<open>n\<close> is the length in the header.\<close>

definition rr_on_read :: "(nat \<Rightarrow> u8) \<Rightarrow> ptr \<Rightarrow> int \<Rightarrow> heap \<Rightarrow> mem_error + (msg_body \<times> heap)" where
  "rr_on_read junk read_buffer n h =
     (let (m, h1) = (if n > 0 then mb_alloc junk n mb_empty h else (mb_empty, h)) in mb_reset read_buffer n m h1)"

text \<open>The message of a request releases the read buffer of its channel when it is destroyed, so the next request that is received is
  written into released memory.\<close>

theorem request_frees_read_buffer:
  assumes "heap_ok h" "blocks h b = Some bs" "0 < n" "n < 2 ^ 31"
  shows "\<exists>m h1 h2. rr_on_read junk (Some (b, 0)) n h = Inr (m, h1) \<and> mb_data m = Some (b, 0) \<and> mb_destroy m h1 = Inr h2 \<and> blocks h2 b = None \<and>
    mem_store (Some (b, 0)) (y # ys) h2 = Inl Bad_Access"
proof -
  have "b < next_block h" using assms(1,2) by (metis heap_ok_def linorder_not_less option.distinct(1))
  then show ?thesis using assms(2,3)
    by (simp add: rr_on_read_def mb_alloc_def MALLOC_MP_def mb_empty_def mb_reset_def FREE_MP_def mb_destroy_def mem_store_def Let_def)
qed

theorem request_frees_read_buffer_witness:
  "\<exists>m h1 h2. rr_on_read (\<lambda>_. 0) (Some (0, 0)) 2 \<lparr>blocks = [0 \<mapsto> [1, 2, 3]], next_block = 1\<rparr> = Inr (m, h1) \<and> mb_destroy m h1 = Inr h2 \<and>
     mem_store (Some (0, 0)) [9] h2 = Inl Bad_Access"
proof -
  have "heap_ok \<lparr>blocks = [0 \<mapsto> [1, 2, 3]], next_block = 1\<rparr>" by (simp add: heap_ok_def)
  from request_frees_read_buffer [OF this, of 0 "[1, 2, 3]" 2 "\<lambda>_. 0" 9 "[]"] show ?thesis by auto
qed

section \<open>The server\<close>

text \<open>\<open>server\<close> of \<open>rpc/server/server.hpp\<close>: it accepts one channel after the other, each on the next service of its pool. \<open>mk\<close> is the channel
  that is made, and \<open>rs_told\<close> records what the router is told of a connection that failed.\<close>

record ('h, 'c) rpc_server =
  rs_pool :: ios_pool
  rs_irouter :: bool
  rs_accepting :: "(nat \<times> ('h, 'c) channel) option"
  rs_conns :: "(nat \<times> ('h, 'c) channel) list"
  rs_told :: "net_result list"
  rs_msg_stopped :: bool

definition rs_new :: "u32 \<Rightarrow> bool \<Rightarrow> ('h, 'c) rpc_server" where
  "rs_new threads irouter =
     \<lparr>rs_pool = ios_pool_new threads, rs_irouter = irouter, rs_accepting = None, rs_conns = [], rs_told = [], rs_msg_stopped = False\<rparr>"

definition rs_do_accept :: "('h, 'c) channel \<Rightarrow> ('h, 'c) rpc_server \<Rightarrow> ('h, 'c) rpc_server" where
  "rs_do_accept mk s = (let (i, p) = get_io_service (rs_pool s) in s\<lparr>rs_pool := p, rs_accepting := Some (i, mk)\<rparr>)"

definition rs_accepted :: "('h, 'c) call_ops \<Rightarrow> ec_t \<Rightarrow> ('h, 'c) channel \<Rightarrow> ('h, 'c) rpc_server \<Rightarrow> ch_error + ('h, 'c) rpc_server" where
  "rs_accepted ops err mk s =
     (case rs_accepting s of
        None \<Rightarrow> Inr s
      | Some (i, c) \<Rightarrow>
          if ec_value err = 0 then
            ebind (ch_start_accepted ops (c\<lparr>ch_socket_open := True\<rparr>)) (\<lambda>c1.
              let c2 = (if rs_irouter s then ch_event (Ev_Connect (net_result_sys err)) c1 else c1)
              in Inr (rs_do_accept mk (s\<lparr>rs_conns := rs_conns s @ [(i, c2)]\<rparr>)))
          else Inr (rs_do_accept mk (if rs_irouter s then s\<lparr>rs_told := rs_told s @ [net_result_sys err]\<rparr> else s)))"

definition rs_start :: "('h, 'c) channel \<Rightarrow> ('h, 'c) rpc_server \<Rightarrow> ('h, 'c) rpc_server" where
  "rs_start mk s = (let s1 = rs_do_accept mk s in s1\<lparr>rs_pool := ios_start (rs_pool s1)\<rparr>)"

definition rs_stop :: "('h, 'c) rpc_server \<Rightarrow> ('h, 'c) rpc_server" where
  "rs_stop s = s\<lparr>rs_msg_stopped := True, rs_pool := ios_stop (rs_pool s)\<rparr>"

text \<open>An accepted channel is connected and reads before the router hears of it, unlike the connections of \<open>Tcp_Server\<close>, and the server is
  ready for the next; a failed accept does not end the accepting.\<close>

lemma accepted_channel_runs:
  assumes "rs_accepting s = Some (i, ch_new sc_new head tab be False ir bs as)" "rs_irouter s"
  shows "\<exists>s' c. rs_accepted server_call_ops ec_success mk s = Inr s' \<and> rs_conns s' = rs_conns s @ [(i, c)] \<and> ch_status c = connected \<and>
      ch_read c = Read_Head \<and> ch_events c = [Ev_Connect (net_result_sys ec_success)] \<and> (\<exists>k. rs_accepting s' = Some (k, mk))"
    "ec_value err \<noteq> 0 \<Longrightarrow> \<exists>s'. rs_accepted server_call_ops err mk s = Inr s' \<and> rs_conns s' = rs_conns s \<and> (\<exists>k. rs_accepting s' = Some (k, mk)) \<and>
      rs_told s' = rs_told s @ [net_result_sys err]"
  using assms
  by (simp_all add: rs_accepted_def ec_success_def ch_start_accepted_def ch_new_def ch_start_rpc_service_def ch_call_impl_def sc_call_list_empty_def
      sc_new_def ch_recv_head_def rs_do_accept_def ch_event_def split: prod.split)

end
