(* ===== verification/Csv.thy ===== *)
theory Csv
  imports Prelude
begin

text \<open>
  The CSV reader of the configuration tables, \<open>src/network/serialize/detail/csv_parser.hpp\<close>, and the
  file helpers it loads its text with, \<open>src/network/util/file.hpp\<close>. The parser is a state machine over
  characters; each case of its \<open>switch\<close> is one definition, and an exception is an error value, of
  which the code is kept and the message dropped. \<open>boost::trim_copy_if\<close> is the parameter \<open>trim_if\<close>; nothing is
  assumed of it. A row points to the header of its table or to none; \<open>row_header\<close> says which. The
  file system maps a path to the content of the file.
\<close>

section \<open>Model\<close>

subsection \<open>Files\<close>

type_synonym files = "string \<rightharpoonup> string"

definition file_size :: "files \<Rightarrow> string \<Rightarrow> int" where
  "file_size fs path = (case fs path of None \<Rightarrow> -1 | Some c \<Rightarrow> int (length c))"

definition file_read_all :: "files \<Rightarrow> string \<Rightarrow> string" where
  "file_read_all fs path = (case fs path of None \<Rightarrow> [] | Some c \<Rightarrow> c)"

definition file_write_all_buf :: "string \<Rightarrow> string \<Rightarrow> files \<Rightarrow> files" where
  "file_write_all_buf path content fs = fs(path \<mapsto> content)"

definition file_write_all :: "string \<Rightarrow> string \<Rightarrow> files \<Rightarrow> files" where
  "file_write_all path content = file_write_all_buf path content"

definition file_append_all :: "string \<Rightarrow> string \<Rightarrow> files \<Rightarrow> files" where
  "file_append_all path content = file_write_all_buf path content"

definition file_append_all_buf :: "string \<Rightarrow> string \<Rightarrow> files \<Rightarrow> files" where
  "file_append_all_buf path content fs = fs(path \<mapsto> file_read_all fs path @ content)"

definition CR :: char where "CR = CHR 0x0D"
definition LF :: char where "LF = CHR 0x0A"
definition QUOTE :: char where "QUOTE = CHR 0x22"
definition COMMA :: char where "COMMA = CHR 0x2C"

primrec add_cr :: "char \<Rightarrow> string \<Rightarrow> string" where
  "add_cr prev [] = []"
| "add_cr prev (c # cs) = (if prev \<noteq> CR \<and> c = LF then [CR, LF] else [c]) @ add_cr c cs"

definition unix_to_windows :: "string \<Rightarrow> files \<Rightarrow> files" where
  "unix_to_windows path fs = file_write_all path (add_cr (CHR 0x00) (file_read_all fs path)) fs"

subsection \<open>Rows\<close>

datatype csv_error =
    CE_ok | CE_fail | CE_no_header | CE_no_key | CE_index_overflow | CE_over_max_size | CE_has_empty_line
  | CE_invalid_newline_character | CE_syntax_error

text \<open>What an access can end with: an exception, or a read outside a vector.\<close>

datatype csv_fault = Throws csv_error | Out_Of_Bounds

record csv_row =
  row_header :: bool
  row_values :: "string list"

definition csv_row_new :: csv_row where "csv_row_new = \<lparr>row_header = False, row_values = []\<rparr>"

definition row_at :: "nat \<Rightarrow> csv_row \<Rightarrow> csv_fault + string" where
  "row_at i r = (if i < length (row_values r) then Inr (row_values r ! i) else Inl (Throws CE_index_overflow))"

definition row_key :: "string list \<Rightarrow> string \<Rightarrow> csv_row \<Rightarrow> csv_fault + string" where
  "row_key header key r =
     (if \<not> row_header r then Inl (Throws CE_no_header)
      else
        (let i = length (takeWhile (\<lambda>x. x \<noteq> key) header)
         in if i = length header then Inl (Throws CE_no_key)
            else if i < length (row_values r) then Inr (row_values r ! i) else Inl Out_Of_Bounds))"

type_synonym trim_if = "(char \<Rightarrow> bool) \<Rightarrow> string \<Rightarrow> string"

definition trim_copy :: "trim_if \<Rightarrow> string \<Rightarrow> string \<Rightarrow> string" where
  "trim_copy trim_if str chars = trim_if (\<lambda>c. c \<in> set chars) str"

definition row_push_back :: "trim_if \<Rightarrow> string \<Rightarrow> csv_row \<Rightarrow> csv_row" where
  "row_push_back trim_if v r =
     r\<lparr>row_values := row_values r @ [trim_copy trim_if v [CHR 0x20, CHR 0x09, CR, LF]]\<rparr>"

subsection \<open>The parser\<close>

datatype state_type =
    new_field_start | non_quotes_field | quotes_field | field_separator | quote_in_quotes_field | row_separator
  | csv_state_error | newline_in_quote_field

record csv_parser =
  ps_state :: state_type
  ps_field :: string
  ps_row :: csv_row
  ps_content :: "csv_row list"

definition push_field :: "trim_if \<Rightarrow> string \<Rightarrow> csv_parser \<Rightarrow> csv_parser" where
  "push_field trim_if v p = p\<lparr>ps_row := row_push_back trim_if v (ps_row p)\<rparr>"

definition next_row :: "csv_parser \<Rightarrow> csv_parser" where
  "next_row p =
     p\<lparr>ps_content := ps_content p @ [ps_row p], ps_row := csv_row_new, ps_field := [], ps_state := new_field_start\<rparr>"

definition in_new_field_start :: "trim_if \<Rightarrow> char \<Rightarrow> csv_parser \<Rightarrow> csv_error + csv_parser" where
  "in_new_field_start trim_if ch p =
     (if ch = QUOTE then Inr (p\<lparr>ps_state := quotes_field\<rparr>)
      else if ch = COMMA then Inr ((push_field trim_if [] p)\<lparr>ps_state := field_separator\<rparr>)
      else if ch = CR \<or> ch = LF then Inl CE_has_empty_line
      else Inr (p\<lparr>ps_field := ps_field p @ [ch], ps_state := non_quotes_field\<rparr>))"

definition in_non_quotes_field :: "trim_if \<Rightarrow> char \<Rightarrow> csv_parser \<Rightarrow> csv_error + csv_parser" where
  "in_non_quotes_field trim_if ch p =
     (if ch = COMMA then Inr ((push_field trim_if (ps_field p) p)\<lparr>ps_field := [], ps_state := field_separator\<rparr>)
      else if ch = CR then Inr ((push_field trim_if (ps_field p) p)\<lparr>ps_state := row_separator\<rparr>)
      else if ch = LF then Inr (next_row (push_field trim_if (ps_field p) p))
      else Inr (p\<lparr>ps_field := ps_field p @ [ch]\<rparr>))"

definition in_quotes_field :: "char \<Rightarrow> csv_parser \<Rightarrow> csv_error + csv_parser" where
  "in_quotes_field ch p =
     (if ch = QUOTE then Inr (p\<lparr>ps_state := quote_in_quotes_field\<rparr>)
      else if ch = CR then Inr (p\<lparr>ps_state := newline_in_quote_field\<rparr>)
      else Inr (p\<lparr>ps_field := ps_field p @ [ch]\<rparr>))"

definition in_field_separator :: "trim_if \<Rightarrow> char \<Rightarrow> csv_parser \<Rightarrow> csv_error + csv_parser" where
  "in_field_separator trim_if ch p =
     (if ch = COMMA then Inr (push_field trim_if [] p)
      else if ch = QUOTE then Inr (p\<lparr>ps_field := [], ps_state := quotes_field\<rparr>)
      else if ch = CR then Inr ((push_field trim_if [] p)\<lparr>ps_state := row_separator\<rparr>)
      else if ch = LF then Inr (next_row (push_field trim_if [] p))
      else Inr (p\<lparr>ps_field := ps_field p @ [ch], ps_state := non_quotes_field\<rparr>))"

definition in_quote_in_quotes_field :: "trim_if \<Rightarrow> char \<Rightarrow> csv_parser \<Rightarrow> csv_error + csv_parser" where
  "in_quote_in_quotes_field trim_if ch p =
     (if ch = COMMA then Inr ((push_field trim_if (ps_field p) p)\<lparr>ps_field := [], ps_state := field_separator\<rparr>)
      else if ch = CR then Inr ((push_field trim_if (ps_field p) p)\<lparr>ps_state := row_separator\<rparr>)
      else if ch = LF then Inr (next_row (push_field trim_if (ps_field p) p))
      else if ch = QUOTE then Inr (p\<lparr>ps_field := ps_field p @ [ch], ps_state := quotes_field\<rparr>)
      else Inl CE_syntax_error)"

definition in_row_separator :: "char \<Rightarrow> csv_parser \<Rightarrow> csv_error + csv_parser" where
  "in_row_separator ch p = (if ch = LF then Inr (next_row p) else Inl CE_invalid_newline_character)"

definition in_newline_in_quote_field :: "char \<Rightarrow> csv_parser \<Rightarrow> csv_error + csv_parser" where
  "in_newline_in_quote_field ch p =
     (if ch = LF then Inr (p\<lparr>ps_field := ps_field p @ [LF], ps_state := quotes_field\<rparr>)
      else Inl CE_invalid_newline_character)"

definition csv_step :: "trim_if \<Rightarrow> char \<Rightarrow> csv_parser \<Rightarrow> csv_error + csv_parser" where
  "csv_step trim_if ch p =
     (case ps_state p of
        new_field_start \<Rightarrow> in_new_field_start trim_if ch p
      | non_quotes_field \<Rightarrow> in_non_quotes_field trim_if ch p
      | quotes_field \<Rightarrow> in_quotes_field ch p
      | field_separator \<Rightarrow> in_field_separator trim_if ch p
      | quote_in_quotes_field \<Rightarrow> in_quote_in_quotes_field trim_if ch p
      | row_separator \<Rightarrow> in_row_separator ch p
      | newline_in_quote_field \<Rightarrow> in_newline_in_quote_field ch p
      | csv_state_error \<Rightarrow> Inr p)"

text \<open>The loop over the text: the error it ends with, if any, and the parser at that point.\<close>

primrec csv_loop :: "trim_if \<Rightarrow> string \<Rightarrow> csv_parser \<Rightarrow> csv_error option \<times> csv_parser" where
  "csv_loop trim_if [] p = (None, p)"
| "csv_loop trim_if (c # cs) p =
     (case csv_step trim_if c p of Inl e \<Rightarrow> (Some e, p) | Inr p1 \<Rightarrow> csv_loop trim_if cs p1)"

definition csv_finish :: "trim_if \<Rightarrow> csv_parser \<Rightarrow> csv_error + csv_row list" where
  "csv_finish trim_if p =
     (case ps_state p of
        new_field_start \<Rightarrow> Inr (ps_content p)
      | non_quotes_field \<Rightarrow> Inr (ps_content p @ [ps_row (push_field trim_if (ps_field p) p)])
      | quotes_field \<Rightarrow> Inl CE_syntax_error
      | field_separator \<Rightarrow> Inr (ps_content p @ [ps_row (push_field trim_if [] p)])
      | quote_in_quotes_field \<Rightarrow> Inr (ps_content p @ [ps_row (push_field trim_if (ps_field p) p)])
      | row_separator \<Rightarrow> Inr (ps_content p)
      | csv_state_error \<Rightarrow> Inr (ps_content p)
      | newline_in_quote_field \<Rightarrow> Inr (ps_content p))"

subsection \<open>The table\<close>

record csv =
  first_line_is_header :: bool
  header_is_in_rows :: bool
  csv_content :: "csv_row list"
  csv_header :: "string list"
  csv_types :: "string list"
  csv_desc :: "string list"

definition csv_new :: "bool \<Rightarrow> bool \<Rightarrow> csv" where
  "csv_new first_header in_rows =
     \<lparr>first_line_is_header = first_header, header_is_in_rows = in_rows, csv_content = [], csv_header = [],
      csv_types = [], csv_desc = []\<rparr>"

definition add_content :: "string list \<Rightarrow> csv_row \<Rightarrow> string list" where
  "add_content l r = l @ row_values r"

definition set_header :: "csv \<Rightarrow> csv" where
  "set_header d =
     (if \<not> first_line_is_header d \<or> length (csv_content d) < 3 then d
      else
        (let rows = csv_content d;
             kept = (if \<not> header_is_in_rows d then drop 3 rows else rows)
         in d\<lparr>csv_header := add_content [] (rows ! 0), csv_types := add_content [] (rows ! 1),
              csv_desc := add_content [] (rows ! 2), csv_content := map (row_header_update (\<lambda>_. True)) kept\<rparr>))"

definition parse_string :: "trim_if \<Rightarrow> string \<Rightarrow> csv \<Rightarrow> (csv_error + unit) \<times> csv" where
  "parse_string trim_if text d =
     (let (e, p) = csv_loop trim_if text \<lparr>ps_state = new_field_start, ps_field = [], ps_row = csv_row_new, ps_content = []\<rparr>;
          d1 = d\<lparr>csv_header := [], csv_content := ps_content p\<rparr>
      in case e of
           Some err \<Rightarrow> (Inl err, d1)
         | None \<Rightarrow>
             (case csv_finish trim_if p of
                Inl err \<Rightarrow> (Inl err, d1)
              | Inr rows \<Rightarrow> (Inr (), set_header (d1\<lparr>csv_content := rows\<rparr>))))"

definition MB :: int where "MB = 1024 * 1024"

text \<open>The exception for a file over the limit is raised inside the \<open>try\<close> whose handler turns every
  exception into \<open>fail\<close>; the file helpers raise none.\<close>

definition parse_file :: "trim_if \<Rightarrow> files \<Rightarrow> string \<Rightarrow> csv \<Rightarrow> (csv_error + unit) \<times> csv" where
  "parse_file trim_if fs file_name d =
     (let size = file_size fs file_name
      in if size = 0 then (Inr (), d)
         else
           (let content = (if size > 50 * MB then Inl CE_over_max_size else Inr (file_read_all fs file_name))
            in case content of
                 Inl e \<Rightarrow> (Inl CE_fail, d)
               | Inr c \<Rightarrow> parse_string trim_if c d))"

definition csv_at :: "nat \<Rightarrow> csv \<Rightarrow> csv_fault + csv_row" where
  "csv_at i d = (if i < length (csv_content d) then Inr (csv_content d ! i) else Inl (Throws CE_index_overflow))"

definition column_size :: "csv \<Rightarrow> nat" where "column_size d = length (csv_header d)"

text \<open>Converting line ends twice changes nothing more.\<close>

lemma add_cr_add_cr: "add_cr prev (add_cr prev cs) = add_cr prev cs"
  by (induction cs arbitrary: prev) (auto simp: CR_def LF_def)

section \<open>Printed documents\<close>

text \<open>The texts the parser is meant for: rows of bare or quoted fields, each row ended by LF or CRLF,
  the last one possibly by the end of the text.\<close>

datatype csv_field = Bare string | Quoted string

primrec field_text :: "csv_field \<Rightarrow> string" where
  "field_text (Bare v) = v"
| "field_text (Quoted v) = v"

primrec print_field :: "csv_field \<Rightarrow> string" where
  "print_field (Bare v) = v"
| "print_field (Quoted v) = QUOTE # concat (map (\<lambda>c. if c = QUOTE then [QUOTE, QUOTE] else [c]) v) @ [QUOTE]"

primrec field_ok :: "csv_field \<Rightarrow> bool" where
  "field_ok (Bare v) \<longleftrightarrow> list_all (\<lambda>c. c \<noteq> COMMA \<and> c \<noteq> CR \<and> c \<noteq> LF) v \<and> (v \<noteq> [] \<longrightarrow> hd v \<noteq> QUOTE)"
| "field_ok (Quoted v) \<longleftrightarrow> list_all (\<lambda>c. c \<noteq> CR) v"

fun print_row :: "csv_field list \<Rightarrow> string" where
  "print_row [] = []"
| "print_row [f] = print_field f"
| "print_row (f # fs) = print_field f @ COMMA # print_row fs"

definition row_ok :: "csv_field list \<Rightarrow> bool" where
  "row_ok fs \<longleftrightarrow> fs \<noteq> [] \<and> fs \<noteq> [Bare []] \<and> list_all field_ok fs"

definition newline :: "bool \<Rightarrow> string" where
  "newline crlf = (if crlf then [CR, LF] else [LF])"

definition print_rows :: "(bool \<times> csv_field list) list \<Rightarrow> string" where
  "print_rows ls = concat (map (\<lambda>(crlf, r). print_row r @ newline crlf) ls)"

section \<open>Parsing printed documents\<close>

text \<open>A parser in a given position, and the cells it has stored for a row of fields.\<close>

definition at :: "state_type \<Rightarrow> string \<Rightarrow> string list \<Rightarrow> csv_row list \<Rightarrow> csv_parser" where
  "at st fld vs rows = \<lparr>ps_state = st, ps_field = fld, ps_row = \<lparr>row_header = False, row_values = vs\<rparr>, ps_content = rows\<rparr>"

definition cell :: "trim_if \<Rightarrow> string \<Rightarrow> string" where
  "cell trim_if v = trim_copy trim_if v [CHR 0x20, CHR 0x09, CR, LF]"

definition parsed_row :: "trim_if \<Rightarrow> csv_field list \<Rightarrow> csv_row" where
  "parsed_row trim_if fs = \<lparr>row_header = False, row_values = map (\<lambda>f. cell trim_if (field_text f)) fs\<rparr>"

lemma special_chars [simp]:
  "CR \<noteq> LF" "LF \<noteq> CR" "COMMA \<noteq> CR" "COMMA \<noteq> LF" "CR \<noteq> COMMA" "LF \<noteq> COMMA" "QUOTE \<noteq> COMMA" "COMMA \<noteq> QUOTE"
  "QUOTE \<noteq> CR" "QUOTE \<noteq> LF" "CR \<noteq> QUOTE" "LF \<noteq> QUOTE"
  by (simp_all add: CR_def LF_def COMMA_def QUOTE_def)

lemmas csv_step_defs = csv_step_def in_new_field_start_def in_non_quotes_field_def in_quotes_field_def
  in_field_separator_def in_quote_in_quotes_field_def in_row_separator_def in_newline_in_quote_field_def
  push_field_def next_row_def row_push_back_def csv_row_new_def

lemma csv_loop_append:
  "csv_loop trim_if (xs @ ys) p =
     (case csv_loop trim_if xs p of (Some e, q) \<Rightarrow> (Some e, q) | (None, q) \<Rightarrow> csv_loop trim_if ys q)"
  by (induction xs arbitrary: p) (auto split: sum.splits)

lemma loop_non_quotes:
  "list_all (\<lambda>c. c \<noteq> COMMA \<and> c \<noteq> CR \<and> c \<noteq> LF) v \<Longrightarrow>
   csv_loop trim_if v (at non_quotes_field fld vs rows) = (None, at non_quotes_field (fld @ v) vs rows)"
  by (induction v arbitrary: fld) (simp_all add: csv_step_defs at_def)

lemma loop_quotes:
  "list_all (\<lambda>c. c \<noteq> CR) v \<Longrightarrow>
   csv_loop trim_if (concat (map (\<lambda>c. if c = QUOTE then [QUOTE, QUOTE] else [c]) v)) (at quotes_field fld vs rows) =
     (None, at quotes_field (fld @ v) vs rows)"
  by (induction v arbitrary: fld) (auto simp: csv_step_defs at_def csv_loop_append)

text \<open>After a field: where the parser stands depends on how the field was written and on what was
  before it.\<close>

definition before_field :: "string list \<Rightarrow> state_type" where
  "before_field vs = (if vs = [] then new_field_start else field_separator)"

definition after_field :: "string list \<Rightarrow> csv_field \<Rightarrow> state_type" where
  "after_field vs f =
     (case f of Quoted v \<Rightarrow> quote_in_quotes_field | Bare v \<Rightarrow> if v = [] then before_field vs else non_quotes_field)"

lemma loop_field:
  assumes "field_ok f"
  shows "csv_loop trim_if (print_field f) (at (before_field vs) [] vs rows) =
     (None, at (after_field vs f) (field_text f) vs rows)"
proof (cases f)
  case (Quoted v)
  have "csv_step trim_if QUOTE (at (before_field vs) [] vs rows) = Inr (at quotes_field [] vs rows)"
    by (simp add: csv_step_defs at_def before_field_def)
  moreover have "csv_loop trim_if [QUOTE] (at quotes_field v vs rows) = (None, at quote_in_quotes_field v vs rows)"
    by (simp add: csv_step_defs at_def)
  ultimately show ?thesis
    using assms Quoted by (simp add: csv_loop_append loop_quotes after_field_def del: csv_loop.simps(2))
      (simp add: csv_loop_append loop_quotes)
next
  case (Bare v)
  show ?thesis
  proof (cases v)
    case (Cons c cs)
    have "csv_step trim_if c (at (before_field vs) [] vs rows) = Inr (at non_quotes_field [c] vs rows)"
      using assms Bare Cons by (simp add: csv_step_defs at_def before_field_def)
    then show ?thesis using assms Bare Cons by (simp add: loop_non_quotes after_field_def)
  qed (use Bare in \<open>simp add: after_field_def\<close>)
qed

lemma after_field_comma:
  "csv_step trim_if COMMA (at (after_field vs f) (field_text f) vs rows) =
     Inr (at field_separator [] (vs @ [cell trim_if (field_text f)]) rows)"
  by (cases f) (auto simp: after_field_def before_field_def csv_step_defs at_def cell_def)

lemma after_field_newline:
  assumes "vs \<noteq> [] \<or> f \<noteq> Bare []"
  shows "csv_loop trim_if (newline crlf) (at (after_field vs f) (field_text f) vs rows) =
     (None, at new_field_start [] []
        (rows @ [\<lparr>row_header = False, row_values = vs @ [cell trim_if (field_text f)]\<rparr>]))"
  using assms by (cases f)
    (auto simp: after_field_def before_field_def csv_step_defs at_def cell_def newline_def)

lemma after_field_finish:
  assumes "vs \<noteq> [] \<or> f \<noteq> Bare []"
  shows "csv_finish trim_if (at (after_field vs f) (field_text f) vs rows) =
     Inr (rows @ [\<lparr>row_header = False, row_values = vs @ [cell trim_if (field_text f)]\<rparr>])"
  using assms by (cases f)
    (auto simp: after_field_def before_field_def csv_finish_def csv_step_defs at_def cell_def)

text \<open>A row up to its last field.\<close>

lemma loop_row:
  assumes "fs \<noteq> []" "list_all field_ok fs"
  shows "csv_loop trim_if (print_row fs) (at (before_field vs) [] vs rows) =
     (None, at (after_field (vs @ map (\<lambda>f. cell trim_if (field_text f)) (butlast fs)) (last fs)) (field_text (last fs))
        (vs @ map (\<lambda>f. cell trim_if (field_text f)) (butlast fs)) rows)"
  using assms
proof (induction fs arbitrary: vs rule: print_row.induct)
  case (3 f g fs)
  have "before_field (vs @ [x]) = field_separator" for x by (simp add: before_field_def)
  with 3(1) [of "vs @ [cell trim_if (field_text f)]"] 3(2,3) show ?case
    by (simp add: csv_loop_append loop_field after_field_comma)
qed (simp_all add: loop_field)

lemma row_values_split:
  "fs \<noteq> [] \<Longrightarrow> map (\<lambda>f. cell trim_if (field_text f)) (butlast fs) @ [cell trim_if (field_text (last fs))] =
     map (\<lambda>f. cell trim_if (field_text f)) fs"
  by (induction fs) auto

lemma row_ok_last: "row_ok fs \<Longrightarrow> map g (butlast fs) \<noteq> [] \<or> last fs \<noteq> Bare []"
  by (cases fs rule: rev_cases) (auto simp: row_ok_def)

lemma before_field_Nil [simp]: "before_field [] = new_field_start"
  by (simp add: before_field_def)

lemma loop_line:
  assumes "row_ok fs"
  shows "csv_loop trim_if (print_row fs @ newline crlf) (at new_field_start [] [] rows) =
     (None, at new_field_start [] [] (rows @ [parsed_row trim_if fs]))"
  using assms loop_row [of fs trim_if "[]" rows] row_ok_last [OF assms, of "\<lambda>f. cell trim_if (field_text f)"]
  by (auto simp: csv_loop_append after_field_newline parsed_row_def row_ok_def row_values_split)

lemma loop_lines:
  "list_all (\<lambda>l. row_ok (snd l)) ls \<Longrightarrow>
   csv_loop trim_if (print_rows ls) (at new_field_start [] [] rows) =
     (None, at new_field_start [] [] (rows @ map (\<lambda>l. parsed_row trim_if (snd l)) ls))"
proof (induction ls arbitrary: rows)
  case (Cons l ls)
  then show ?case
    by (cases l) (simp add: print_rows_def csv_loop_append [of _ "print_row _ @ _", simplified] loop_line)
qed (simp add: print_rows_def)

lemma parse_string_lines:
  assumes "list_all (\<lambda>l. row_ok (snd l)) ls" "last_row = [] \<or> row_ok last_row"
  shows "parse_string trim_if (print_rows ls @ print_row last_row) d =
     (Inr (), set_header (d\<lparr>csv_header := [],
        csv_content := map (parsed_row trim_if) (map snd ls @ (if last_row = [] then [] else [last_row]))\<rparr>))"
proof -
  have start: "\<lparr>ps_state = new_field_start, ps_field = [], ps_row = csv_row_new, ps_content = []\<rparr> = at new_field_start [] [] []"
    by (simp add: at_def csv_row_new_def)
  let ?rows = "map (\<lambda>l. parsed_row trim_if (snd l)) ls"
  show ?thesis
  proof (cases "last_row = []")
    case True
    then show ?thesis
      using loop_lines [OF assms(1), of trim_if "[]"] unfolding parse_string_def start
      by (simp add: csv_finish_def at_def comp_def)
  next
    case False
    with assms(2) have ok: "row_ok last_row" by simp
    note fin = after_field_finish [OF row_ok_last [OF ok]]
    show ?thesis
      using False ok loop_row [of last_row trim_if "[]" ?rows] unfolding parse_string_def start
      by (simp add: csv_loop_append loop_lines [OF assms(1)] fin row_ok_def row_values_split comp_def parsed_row_def)
  qed
qed

section \<open>Properties\<close>

text \<open>
  (C29) The parser reads back the documents it is meant for: rows of bare fields (without comma, line break
  or a quote in front) and quoted fields (quotes doubled, commas and LF allowed, no CR), no row a single empty bare
  field, rows ended by LF or CRLF in any mixture and the last one possibly by the end of the text. They are parsed without an error
  into exactly their rows, each cell the trimmed text of its field. When the first line is to be the header and there are at least
  three rows, these are the header, the types and the descriptions, and the table keeps the rows behind them, or all when
  the header is to be among the rows; otherwise there is no header and the table keeps all rows.
\<close>

theorem csv_parses_documents:
  assumes "list_all (\<lambda>l. row_ok (snd l)) ls" "last_row = [] \<or> row_ok last_row"
    and "rows = map (map (\<lambda>f. trim_copy trim_if (field_text f) [CHR 0x20, CHR 0x09, CR, LF]))
        (map snd ls @ (if last_row = [] then [] else [last_row]))"
  shows "\<exists>t. parse_string trim_if (print_rows ls @ print_row last_row) d = (Inr (), t) \<and>
    (if first_line_is_header d \<and> 3 \<le> length rows
     then csv_header t = rows ! 0 \<and> csv_types t = rows ! 1 \<and> csv_desc t = rows ! 2 \<and>
       map row_values (csv_content t) = (if header_is_in_rows d then rows else drop 3 rows)
     else csv_header t = [] \<and> map row_values (csv_content t) = rows)"
proof -
  define fs where "fs = map snd ls @ (if last_row = [] then [] else [last_row])"
  have rows: "rows = map (\<lambda>r. row_values (parsed_row trim_if r)) fs" by (simp add: assms(3) fs_def parsed_row_def cell_def)
  have three: "3 \<le> length fs \<Longrightarrow> \<exists>x y z zs. fs = x # y # z # zs" by (auto simp: numeral_3_eq_3 Suc_le_length_iff)
  have "parse_string trim_if (print_rows ls @ print_row last_row) d =
      (Inr (), set_header (d\<lparr>csv_header := [], csv_content := map (parsed_row trim_if) fs\<rparr>))"
    using parse_string_lines [OF assms(1,2)] by (simp add: fs_def)
  then show ?thesis by (cases "3 \<le> length fs") (auto simp: rows set_header_def add_content_def Let_def comp_def dest!: three)
qed

theorem csv_parses_documents_witness:
  "(\<exists>t. parse_string (\<lambda>_ v. v)
       (print_rows [(True, [Bare ''id'', Quoted [QUOTE, LF]]), (False, [Bare [], Bare ''x''])] @ print_row [Bare ''7'']) (csv_new False False) = (Inr (), t) \<and>
     csv_header t = [] \<and> map row_values (csv_content t) = [[''id'', [QUOTE, LF]], [[], ''x''], [''7'']]) \<and>
   (\<exists>t. parse_string (\<lambda>_ v. v)
       (print_rows [(True, [Bare ''id'']), (False, [Bare ''int'']), (False, [Bare ''key''])] @ print_row [Bare ''7'']) (csv_new True False) = (Inr (), t) \<and>
     csv_header t = [''id''] \<and> map row_values (csv_content t) = [[''7'']])"
proof (intro conjI)
  let ?a = "[(True, [Bare ''id'', Quoted [QUOTE, LF]]), (False, [Bare [], Bare ''x''])]" and ?b = "[(True, [Bare ''id'']), (False, [Bare ''int'']), (False, [Bare ''key''])]"
  have ok: "list_all (\<lambda>l. row_ok (snd l)) ?a" "list_all (\<lambda>l. row_ok (snd l)) ?b" "[Bare ''7''] = [] \<or> row_ok [Bare ''7'']"
    by (simp_all add: row_ok_def CR_def LF_def COMMA_def QUOTE_def)
  show "\<exists>t. parse_string (\<lambda>_ v. v) (print_rows ?a @ print_row [Bare ''7'']) (csv_new False False) = (Inr (), t) \<and>
     csv_header t = [] \<and> map row_values (csv_content t) = [[''id'', [QUOTE, LF]], [[], ''x''], [''7'']]"
    using csv_parses_documents [OF ok(1,3) refl, of "\<lambda>_ v. v" "csv_new False False"]
    by (simp only: csv_new_def csv.simps) (simp add: trim_copy_def del: print_row.simps)
  show "\<exists>t. parse_string (\<lambda>_ v. v) (print_rows ?b @ print_row [Bare ''7'']) (csv_new True False) = (Inr (), t) \<and>
     csv_header t = [''id''] \<and> map row_values (csv_content t) = [[''7'']]"
    using csv_parses_documents [OF ok(2,3) refl, of "\<lambda>_ v. v" "csv_new True False"]
    by (simp only: csv_new_def csv.simps) (force simp add: trim_copy_def simp del: print_row.simps)
qed

lemma takeWhile_index:
  "distinct xs \<Longrightarrow> k < length xs \<Longrightarrow> length (takeWhile (\<lambda>x. x \<noteq> xs ! k) xs) = k"
proof (induction xs arbitrary: k)
  case (Cons x xs)
  then show ?case by (cases k) auto
qed simp

text \<open>
  Cells are found by name: in a table with a header, a line of types and a line of descriptions, every cell
  of every data row that has that column is what the row answers for the column's name, the header lines are not
  rows, and an index past the last data row is refused.
\<close>

theorem csv_cell_by_name:
  assumes "list_all (\<lambda>l. row_ok (snd l)) ls" "map snd ls = hdr # tys # dsc # data"
    "first_line_is_header d" "\<not> header_is_in_rows d" "distinct (map (\<lambda>f. cell trim_if (field_text f)) hdr)"
    "i < length data" "k < length hdr" "k < length (data ! i)"
  shows "\<exists>t row. parse_string trim_if (print_rows ls) d = (Inr (), t) \<and> csv_at i t = Inr row \<and>
    row_key (csv_header t) (cell trim_if (field_text (hdr ! k))) row = Inr (cell trim_if (field_text (data ! i ! k))) \<and>
    column_size t = length hdr \<and> csv_at (length data) t = Inl (Throws CE_index_overflow)"
proof -
  let ?c = "\<lambda>f. cell trim_if (field_text f)"
  have "\<exists>t. parse_string trim_if (print_rows ls) d = (Inr (), t) \<and> csv_header t = map ?c hdr \<and>
      csv_content t = map (\<lambda>r. \<lparr>row_header = True, row_values = map ?c r\<rparr>) data"
    using parse_string_lines [OF assms(1), of "[]" trim_if d] assms(2-4)
    by (simp add: set_header_def add_content_def parsed_row_def comp_def)
  then obtain t where t: "parse_string trim_if (print_rows ls) d = (Inr (), t)" "csv_header t = map ?c hdr"
    "csv_content t = map (\<lambda>r. \<lparr>row_header = True, row_values = map ?c r\<rparr>) data" by blast
  have "length (takeWhile (\<lambda>x. x \<noteq> ?c (hdr ! k)) (map ?c hdr)) = k"
    using takeWhile_index [OF assms(5)] assms(7) by simp
  then show ?thesis
    using t assms(6-8) by (auto simp: csv_at_def row_key_def column_size_def Let_def)
qed

theorem csv_cell_by_name_witness:
  "\<exists>t row. parse_string (\<lambda>_ v. v) (print_rows (map (Pair True)
       [[Bare ''id'', Bare ''name''], [Bare ''int'', Bare ''str''], [Bare ''k'', Bare ''n''], [Bare ''1'', Quoted ''a,b'']]))
       (csv_new True False) = (Inr (), t) \<and> csv_at 0 t = Inr row \<and> row_key (csv_header t) ''name'' row = Inr ''a,b''"
  using csv_cell_by_name [where trim_if = "\<lambda>_ v. v" and d = "csv_new True False" and i = 0 and k = 1 and
      ls = "map (Pair True)
       [[Bare ''id'', Bare ''name''], [Bare ''int'', Bare ''str''], [Bare ''k'', Bare ''n''], [Bare ''1'', Quoted ''a,b'']]"]
  by (force simp: row_ok_def csv_new_def CR_def LF_def COMMA_def QUOTE_def cell_def trim_copy_def)

lemma csv_step_errors: "csv_step trim_if c p \<noteq> Inl CE_over_max_size"
  by (simp add: csv_step_def in_new_field_start_def in_non_quotes_field_def in_quotes_field_def in_field_separator_def
      in_quote_in_quotes_field_def in_row_separator_def in_newline_in_quote_field_def split: state_type.split)

lemma csv_loop_errors: "csv_loop trim_if cs p \<noteq> (Some CE_over_max_size, q)"
  by (induction cs arbitrary: p) (auto simp: csv_step_errors split: sum.split)

lemma parse_string_errors: "fst (parse_string trim_if str d) \<noteq> Inl CE_over_max_size"
  by (auto simp: parse_string_def csv_finish_def Let_def csv_loop_errors
      split: prod.split option.split sum.split state_type.split)

text \<open>
  What \<open>parse_file\<close> makes of files it should refuse: no file is ever reported as over the maximal
  size, the code the check raises; a missing file gives an empty table without an error; and
  an empty file leaves the table as it was, with the rows of the file before.
\<close>

lemma parse_file_errors:
  "fst (parse_file trim_if fs f d) \<noteq> Inl CE_over_max_size \<and>
   fst (parse_file trim_if (fs(f := None)) f d) = Inr () \<and>
   csv_content (snd (parse_file trim_if (fs(f := None)) f d)) = [] \<and>
   parse_file trim_if (fs(f \<mapsto> [])) f d = (Inr (), d)"
proof -
  have "fst (parse_file trim_if fs f d) \<noteq> Inl CE_over_max_size"
    using parse_string_errors by (simp add: parse_file_def Let_def)
  then show ?thesis
    by (simp add: parse_file_def file_size_def file_read_all_def parse_string_def csv_finish_def set_header_def MB_def)
qed

end
