(* ===== verification/Memory_Pool.thy ===== *)
theory Memory_Pool
  imports Prelude
begin

text \<open>
  The pool of memory blocks behind \<open>MALLOC_MP\<close>, \<open>FREE_MP\<close>, \<open>NEW_MP\<close> and \<open>DELETE_MP\<close>
  (\<open>src/network/base/memory_pool.hpp\<close>). The blocks come from one \<open>boost::pool\<close> per size class or from
  \<open>malloc\<close>; both are parameters, functions of the calls made so far that say which address a call returns
  and whether a pool owns an address. The model keeps the calls, the bytes of memory (the size word
  in front of a block is stored there) and the size classes, a \<open>std::map\<close> in ascending order. Sizes
  are \<open>size_t\<close> values, the addition of the head wraps at \<open>2 ^ 64\<close>.
\<close>

section \<open>Model\<close>

type_synonym addr = int

datatype pool_call = Pool_Malloc nat addr | Pool_Free nat addr | Sys_Malloc nat addr | Sys_Free addr

record allocators =
  pool_malloc :: "pool_call list \<Rightarrow> nat \<Rightarrow> addr option"
  pool_is_from :: "pool_call list \<Rightarrow> nat \<Rightarrow> addr \<Rightarrow> bool"
  sys_malloc :: "pool_call list \<Rightarrow> nat \<Rightarrow> addr option"

record memory_pool =
  pool_map :: "nat list"
  is_init :: bool
  max_memory_pool_size :: nat
  calls :: "pool_call list"
  memory :: "addr \<Rightarrow> u8"

datatype pool_error = Bad_Alloc | Constructor_Threw

definition memory_head_size :: nat where "memory_head_size = 4"

definition size_t :: "nat \<Rightarrow> nat" where "size_t n = n mod 2 ^ 64"

definition mp_new :: "(addr \<Rightarrow> u8) \<Rightarrow> memory_pool" where
  "mp_new bytes = \<lparr>pool_map = [], is_init = False, max_memory_pool_size = 0, calls = [], memory = bytes\<rparr>"

primrec init_loop :: "nat \<Rightarrow> nat \<Rightarrow> memory_pool \<Rightarrow> memory_pool" where
  "init_loop 0 sz p = p"
| "init_loop (Suc n) sz p =
     init_loop n (size_t (2 * sz)) (p\<lparr>pool_map := insort_insert sz (pool_map p), max_memory_pool_size := sz\<rparr>)"

definition mp_init :: "memory_pool \<Rightarrow> memory_pool" where
  "mp_init p = (if is_init p then p else init_loop 16 4 (p\<lparr>is_init := True\<rparr>))"

definition log :: "pool_call \<Rightarrow> memory_pool \<Rightarrow> memory_pool" where
  "log c p = p\<lparr>calls := calls p @ [c]\<rparr>"

text \<open>An \<open>int\<close> at an address.\<close>

definition load_int :: "(addr \<Rightarrow> u8) \<Rightarrow> addr \<Rightarrow> u32" where
  "load_int m a = le_word (map (\<lambda>i. m (a + int i)) [0..<4])"

definition store_int :: "addr \<Rightarrow> u32 \<Rightarrow> (addr \<Rightarrow> u8) \<Rightarrow> (addr \<Rightarrow> u8)" where
  "store_int a w m = (\<lambda>x. if a \<le> x \<and> x < a + 4 then le_bytes 4 w ! nat (x - a) else m x)"

text \<open>The iterator as the classes from the first that is large enough.\<close>

definition get_iterator :: "nat \<Rightarrow> memory_pool \<Rightarrow> nat list" where
  "get_iterator alloc_size p = dropWhile (\<lambda>s. s < alloc_size) (pool_map p)"

definition get_internal_size :: "nat \<Rightarrow> nat" where
  "get_internal_size alloc_size = size_t (alloc_size + memory_head_size)"

definition get_ptr :: "addr \<Rightarrow> nat \<Rightarrow> memory_pool \<Rightarrow> addr \<times> memory_pool" where
  "get_ptr internal_ptr internal_size p =
     (internal_ptr + int memory_head_size, p\<lparr>memory := store_int internal_ptr (of_nat internal_size) (memory p)\<rparr>)"

definition get_internal_ptr :: "addr \<Rightarrow> addr" where
  "get_internal_ptr ptr = ptr - int memory_head_size"

text \<open>The \<open>int\<close> in front of the block, converted to \<open>size_t\<close>.\<close>

definition get_memory_size :: "addr \<Rightarrow> memory_pool \<Rightarrow> nat" where
  "get_memory_size ptr p = unat (scast (load_int (memory p) (get_internal_ptr ptr)) :: u64)"

definition default_malloc :: "allocators \<Rightarrow> nat \<Rightarrow> memory_pool \<Rightarrow> pool_error + (addr \<times> memory_pool)" where
  "default_malloc ops alloc_size p =
     (case sys_malloc ops (calls p) alloc_size of
        None \<Rightarrow> Inl Bad_Alloc
      | Some a \<Rightarrow> Inr (a, log (Sys_Malloc alloc_size a) p))"

primrec malloc_loop :: "allocators \<Rightarrow> nat \<Rightarrow> nat \<Rightarrow> nat list \<Rightarrow> memory_pool \<Rightarrow> pool_error + (addr \<times> memory_pool)" where
  "malloc_loop ops alloc_size internal_size [] p = default_malloc ops alloc_size p"
| "malloc_loop ops alloc_size internal_size (s # it) p =
     (case pool_malloc ops (calls p) s of
        Some a \<Rightarrow> Inr (get_ptr a internal_size (log (Pool_Malloc s a) p))
      | None \<Rightarrow> malloc_loop ops alloc_size internal_size it p)"

definition malloc_memory :: "allocators \<Rightarrow> nat \<Rightarrow> memory_pool \<Rightarrow> pool_error + (addr \<times> memory_pool)" where
  "malloc_memory ops alloc_size p =
     (let internal_size = get_internal_size alloc_size
      in malloc_loop ops alloc_size internal_size (get_iterator internal_size p) p)"

definition default_free :: "addr \<Rightarrow> memory_pool \<Rightarrow> memory_pool" where
  "default_free ptr p = log (Sys_Free ptr) p"

primrec free_loop :: "allocators \<Rightarrow> addr \<Rightarrow> nat list \<Rightarrow> memory_pool \<Rightarrow> memory_pool" where
  "free_loop ops ptr [] p = default_free ptr p"
| "free_loop ops ptr (s # it) p =
     (if pool_is_from ops (calls p) s ptr then log (Pool_Free s ptr) p else free_loop ops ptr it p)"

definition free_memory :: "allocators \<Rightarrow> addr \<Rightarrow> memory_pool \<Rightarrow> memory_pool" where
  "free_memory ops ptr p =
     (let internal_size = get_memory_size ptr p
      in if internal_size < max_memory_pool_size p then free_loop ops ptr (get_iterator internal_size p) p
         else default_free ptr p)"

text \<open>Objects: the constructor and the destructor of the element type are parameters, and so is its size. A
  constructor that throws releases the memory and passes the exception on.\<close>

primrec construct_loop :: "(addr \<Rightarrow> (addr \<Rightarrow> u8) \<Rightarrow> (addr \<Rightarrow> u8) option) \<Rightarrow> nat \<Rightarrow> allocators \<Rightarrow> addr \<Rightarrow> nat \<Rightarrow> addr \<Rightarrow> memory_pool \<Rightarrow>
    (pool_error \<times> memory_pool) + memory_pool" where
  "construct_loop ctor sz ops ptr 0 at p = Inr p"
| "construct_loop ctor sz ops ptr (Suc n) at p =
     (case ctor at (memory p) of
        None \<Rightarrow> Inl (Constructor_Threw, free_memory ops ptr p)
      | Some m \<Rightarrow> construct_loop ctor sz ops ptr n (at + int sz) (p\<lparr>memory := m\<rparr>))"

definition new_memory :: "(addr \<Rightarrow> (addr \<Rightarrow> u8) \<Rightarrow> (addr \<Rightarrow> u8) option) \<Rightarrow> nat \<Rightarrow> allocators \<Rightarrow> nat \<Rightarrow> nat \<Rightarrow> memory_pool \<Rightarrow>
    (pool_error \<times> memory_pool) + (addr \<times> memory_pool)" where
  "new_memory ctor sz ops alloc_size len p =
     (let temp_alloc_size = size_t ((if alloc_size = 0 then 1 else alloc_size) + 4)
      in case malloc_memory ops temp_alloc_size p of
           Inl e \<Rightarrow> Inl (e, p)
         | Inr (ptr, p') \<Rightarrow>
             (let p'' = p'\<lparr>memory := store_int ptr (of_nat len) (memory p')\<rparr>
              in case construct_loop ctor sz ops ptr len (ptr + 4) p'' of
                   Inl e \<Rightarrow> Inl e
                 | Inr q \<Rightarrow> Inr (ptr + 4, q)))"

primrec destroy_loop :: "(addr \<Rightarrow> (addr \<Rightarrow> u8) \<Rightarrow> (addr \<Rightarrow> u8)) \<Rightarrow> nat \<Rightarrow> nat \<Rightarrow> addr \<Rightarrow> memory_pool \<Rightarrow> memory_pool" where
  "destroy_loop dtor sz 0 at p = p"
| "destroy_loop dtor sz (Suc n) at p = destroy_loop dtor sz n (at + int sz) (p\<lparr>memory := dtor at (memory p)\<rparr>)"

definition delete_memory :: "(addr \<Rightarrow> (addr \<Rightarrow> u8) \<Rightarrow> (addr \<Rightarrow> u8)) \<Rightarrow> nat \<Rightarrow> allocators \<Rightarrow> addr option \<Rightarrow> memory_pool \<Rightarrow> memory_pool" where
  "delete_memory dtor sz ops ptr p =
     (case ptr of None \<Rightarrow> p
      | Some a \<Rightarrow> free_memory ops (a - 4) (destroy_loop dtor sz (unat (load_int (memory p) (a - 4))) a p))"

section \<open>The size classes\<close>

definition size_classes :: "nat list" where
  "size_classes = map (\<lambda>i. 4 * 2 ^ i) [0..<16]"

lemma size_classes_eval:
  "size_classes = [4, 8, 16, 32, 64, 128, 256, 512, 1024, 2048, 4096, 8192, 16384, 32768, 65536, 131072]"
  by (simp add: size_classes_def upt_rec)

lemma insort_insert_greatest: "\<forall>x \<in> set xs. x < (a::nat) \<Longrightarrow> insort_insert a xs = xs @ [a]"
  by (induction xs) (auto simp: insort_insert_key_def)

lemma init_loop_map:
  "0 < sz \<Longrightarrow> sz * 2 ^ n < 2 ^ 64 \<Longrightarrow> \<forall>x \<in> set (pool_map p). x < sz \<Longrightarrow>
    pool_map (init_loop n sz p) = pool_map p @ map (\<lambda>i. sz * 2 ^ i) [0..<n] \<and>
    max_memory_pool_size (init_loop n sz p) = (if n = 0 then max_memory_pool_size p else sz * 2 ^ (n - 1))"
proof (induction n arbitrary: sz p)
  case (Suc n)
  let ?q = "p\<lparr>pool_map := insort_insert sz (pool_map p), max_memory_pool_size := sz\<rparr>"
  have "2 * sz \<le> sz * 2 ^ Suc n" by simp
  then have "2 * sz < 2 ^ 64" using Suc.prems(2) by (rule le_less_trans)
  then have st: "size_t (2 * sz) = 2 * sz" by (simp add: size_t_def)
  have q: "pool_map ?q = pool_map p @ [sz]" using Suc.prems(3) by (simp add: insort_insert_greatest)
  have "[0..<Suc n] = 0 # map Suc [0..<n]" by (simp add: upt_conv_Cons map_Suc_upt del: upt_Suc)
  then have "map (\<lambda>i. sz * 2 ^ i) [0..<Suc n] = sz # map (\<lambda>i. 2 * sz * 2 ^ i) [0..<n]" by (simp add: comp_def)
  moreover have "sz * 2 ^ n = 2 * sz * 2 ^ (n - 1)" if "n \<noteq> 0" using that by (cases n) auto
  moreover have "\<forall>x \<in> set (pool_map ?q). x < 2 * sz" unfolding q using Suc.prems by fastforce
  ultimately show ?case using Suc.IH [of "2 * sz" ?q] Suc.prems q st by auto
qed simp

lemma mp_init_new:
  "pool_map (mp_init (mp_new m)) = size_classes" "max_memory_pool_size (mp_init (mp_new m)) = 131072"
  using init_loop_map [of 4 16 "mp_new m\<lparr>is_init := True\<rparr>"] by (simp_all add: mp_init_def mp_new_def size_classes_def)

lemma mp_init_idem: "mp_init (mp_init p) = mp_init p"
proof -
  have "is_init (init_loop n sz p) = is_init p" for n sz p by (induction n arbitrary: sz p) auto
  then show ?thesis by (simp add: mp_init_def)
qed

text \<open>What a first allocation from a class is: the least class that holds the block and its size word.\<close>

lemma least_class:
  assumes "sorted sizes" "distinct sizes" "dropWhile (\<lambda>s. s < n) sizes = s # it"
  shows "s \<in> set sizes \<and> n \<le> s \<and> (\<forall>s' \<in> set sizes. n \<le> s' \<longrightarrow> s \<le> s')"
proof -
  have "sizes = takeWhile (\<lambda>s. s < n) sizes @ s # it" using assms(3) takeWhile_dropWhile_id by metis
  then have "sorted (takeWhile (\<lambda>s. s < n) sizes @ s # it)" "set sizes = set (takeWhile (\<lambda>s. s < n) sizes) \<union> insert s (set it)"
    using assms(1) by (metis, metis list.simps(15) set_append)
  moreover have "\<not> s < n" using assms(3) by (metis (full_types) dropWhile_eq_Cons_conv)
  ultimately show ?thesis by (auto simp: sorted_append dest: set_takeWhileD)
qed

lemma load_store_int: "load_int (store_int a w m) a = w"
proof -
  have "map (\<lambda>i. store_int a w m (a + int i)) [0..<4] = le_bytes 4 w"
    by (rule nth_equalityI) (auto simp: store_int_def)
  then show ?thesis by (simp add: load_int_def)
qed

lemma sorted_classes: "sorted size_classes" "distinct size_classes"
  by (simp_all add: size_classes_eval)

lemma dropWhile_sorted_set: "sorted xs \<Longrightarrow> set (dropWhile (\<lambda>s. s < n) xs) = {s \<in> set xs. (n::nat) \<le> s}"
  by (induction xs) auto

lemma half_class: "s \<in> set size_classes \<Longrightarrow> s = 4 \<or> s div 2 \<in> set size_classes"
  by (auto simp: size_classes_eval)

section \<open>Allocation\<close>

lemma signed_size: "n < 2 ^ 31 \<Longrightarrow> unat (scast (of_nat n :: u32) :: u64) = n"
  by (simp add: signed_of_nat signed_take_bit_int_eq_self unsigned_of_nat take_bit_nat_eq_self)

lemma get_memory_size_get_ptr:
  "n < 2 ^ 31 \<Longrightarrow> get_ptr a n p = (ptr, p') \<Longrightarrow> get_memory_size ptr p' = n"
  by (auto simp: get_memory_size_def get_ptr_def get_internal_ptr_def load_store_int signed_size)

text \<open>What an allocation returns: a block behind the size word in a chunk of one of the classes tried, the
  earlier ones being exhausted, or a block of the system when all of them are.\<close>

lemma malloc_loop_cases:
  assumes "malloc_loop ops n i it p = Inr (ptr, p')"
  obtains (pool) s a it1 it2 where "it = it1 @ s # it2" "\<forall>s' \<in> set it1. pool_malloc ops (calls p) s' = None"
      "pool_malloc ops (calls p) s = Some a" "get_ptr a i (log (Pool_Malloc s a) p) = (ptr, p')"
    | (system) "\<forall>s \<in> set it. pool_malloc ops (calls p) s = None" "sys_malloc ops (calls p) n = Some ptr"
      "p' = log (Sys_Malloc n ptr) p"
proof -
  have "(\<exists>s a it1 it2. it = it1 @ s # it2 \<and> (\<forall>s' \<in> set it1. pool_malloc ops (calls p) s' = None) \<and>
      pool_malloc ops (calls p) s = Some a \<and> get_ptr a i (log (Pool_Malloc s a) p) = (ptr, p')) \<or>
    ((\<forall>s \<in> set it. pool_malloc ops (calls p) s = None) \<and> sys_malloc ops (calls p) n = Some ptr \<and> p' = log (Sys_Malloc n ptr) p)"
    using assms
  proof (induction it)
    case Nil
    then show ?case by (auto simp: default_malloc_def split: option.splits)
  next
    case (Cons s it)
    show ?case
    proof (cases "pool_malloc ops (calls p) s")
      case None
      with Cons.prems have "malloc_loop ops n i it p = Inr (ptr, p')" by simp
      from Cons.IH [OF this] show ?thesis
      proof (elim disjE exE conjE)
        fix s1 a it1 it2
        assume "it = it1 @ s1 # it2" "\<forall>s' \<in> set it1. pool_malloc ops (calls p) s' = None"
          "pool_malloc ops (calls p) s1 = Some a" "get_ptr a i (log (Pool_Malloc s1 a) p) = (ptr, p')"
        with None show ?thesis by (intro disjI1 exI [of _ s1] exI [of _ a] exI [of _ "s # it1"] exI [of _ it2]) simp
      qed (use None in simp)
    next
      case (Some a)
      with Cons.prems show ?thesis by (intro disjI1 exI [of _ s] exI [of _ a] exI [of _ "[]"] exI [of _ it]) simp
    qed
  qed
  then show ?thesis using pool system by blast
qed

lemma log_simps [simp]:
  "pool_map (log c p) = pool_map p" "max_memory_pool_size (log c p) = max_memory_pool_size p"
  "calls (log c p) = calls p @ [c]" "memory (log c p) = memory p"
  by (simp_all add: log_def)

lemma get_ptr_eq:
  "get_ptr a n p = (ptr, p') \<longleftrightarrow> ptr = a + 4 \<and> p' = p\<lparr>memory := store_int a (of_nat n) (memory p)\<rparr>"
  by (auto simp: get_ptr_def memory_head_size_def)

lemma malloc_memory_frame:
  assumes "malloc_memory ops n p = Inr (ptr, p')"
  shows "pool_map p' = pool_map p \<and> max_memory_pool_size p' = max_memory_pool_size p"
  using assms unfolding malloc_memory_def Let_def
  by (rule malloc_loop_cases) (auto simp: get_ptr_eq)

lemma free_loop_calls:
  "\<exists>c. free_loop ops ptr it p = log c p \<and> (c = Sys_Free ptr \<or> (\<exists>s \<in> set it. c = Pool_Free s ptr))"
  by (induction it) (auto simp: default_free_def)

lemma free_memory_calls:
  "\<exists>c. free_memory ops ptr p = log c p \<and> (c = Sys_Free ptr \<or> (\<exists>s \<in> set (pool_map p). c = Pool_Free s ptr))"
  using free_loop_calls [of ops ptr "get_iterator (get_memory_size ptr p) p" p]
  by (auto simp: free_memory_def Let_def default_free_def get_iterator_def dest: set_dropWhileD)

text \<open>The states of a pool that has been initialised: allocations, releases, and anything the program
  writes to memory.\<close>

inductive pool_run :: "allocators \<Rightarrow> memory_pool \<Rightarrow> bool" for ops where
  run_start: "pool_run ops (mp_init (mp_new m))"
| run_malloc: "pool_run ops p \<Longrightarrow> malloc_memory ops n p = Inr (ptr, p') \<Longrightarrow> pool_run ops p'"
| run_free: "pool_run ops p \<Longrightarrow> pool_run ops (free_memory ops ptr p)"
| run_write: "pool_run ops p \<Longrightarrow> pool_run ops (p\<lparr>memory := m\<rparr>)"

lemma pool_run_classes:
  "pool_run ops p \<Longrightarrow> pool_map p = size_classes \<and> max_memory_pool_size p = 131072"
proof (induction rule: pool_run.induct)
  case (run_free p ptr)
  obtain c where "free_memory ops ptr p = log c p" using free_memory_calls by blast
  with run_free show ?case by simp
qed (auto simp: mp_init_new dest: malloc_memory_frame)


text \<open>Allocators for the examples: pools that always have a chunk at a fixed address per class, and own the
  addresses inside it.\<close>

definition sample_allocators :: allocators where
  "sample_allocators = \<lparr>pool_malloc = (\<lambda>_ s. Some (1000000 * int s)),
     pool_is_from = (\<lambda>_ s a. 1000000 * int s \<le> a \<and> a < 1000001 * int s), sys_malloc = (\<lambda>_ _. Some 64)\<rparr>"

definition sample_pool :: memory_pool where
  "sample_pool = mp_init (mp_new (\<lambda>_. 0))"

lemma sample_malloc:
  "malloc_memory sample_allocators 20 sample_pool =
     Inr (32000004, (log (Pool_Malloc 32 32000000) sample_pool)\<lparr>memory := store_int 32000000 24 (\<lambda>_. 0)\<rparr>)"
proof -
  have "pool_map sample_pool = size_classes" "memory sample_pool = (\<lambda>_. 0)"
    by (simp_all add: sample_pool_def mp_init_new) (simp add: mp_init_def mp_new_def numeral_eq_Suc)
  then show ?thesis
    by (simp add: malloc_memory_def get_internal_size_def size_t_def memory_head_size_def get_iterator_def size_classes_eval
        sample_allocators_def get_ptr_def)
qed


section \<open>Release\<close>

text \<open>A block that came from a pool is not released as the chunk the pool handed out: releasing it
  makes exactly one call, to a pool or to \<open>free\<close>, with the address behind the size word, four bytes into the
  chunk.\<close>

theorem free_memory_misses_chunk:
  assumes "malloc_memory ops n p = Inr (ptr, p')" "calls p' = calls p @ [Pool_Malloc s a]"
  shows "\<exists>c. calls (free_memory ops ptr p') = calls p @ [Pool_Malloc s a, c] \<and>
    (c = Sys_Free (a + 4) \<or> (\<exists>s'. c = Pool_Free s' (a + 4)))"
proof -
  have "ptr = a + 4"
    using assms unfolding malloc_memory_def Let_def by (auto elim!: malloc_loop_cases simp: get_ptr_eq)
  then show ?thesis using free_memory_calls [of ops ptr p'] assms(2) by auto
qed

theorem free_memory_misses_chunk_witness:
  "\<exists>p' c. malloc_memory sample_allocators 20 sample_pool = Inr (32000004, p') \<and>
     calls (free_memory sample_allocators 32000004 p') = calls sample_pool @ [Pool_Malloc 32 32000000, c] \<and>
     (c = Sys_Free 32000004 \<or> (\<exists>s. c = Pool_Free s 32000004))"
  using free_memory_misses_chunk [OF sample_malloc, of 32 32000000] sample_malloc by simp

text \<open>The size of a request with its head wraps round \<open>2 ^ 64\<close>, and the smallest class serves it.\<close>

lemma huge_request_wraps: "get_internal_size (2 ^ 64 - 2) = 2"
  by (simp add: get_internal_size_def size_t_def memory_head_size_def)

section \<open>Objects\<close>

text \<open>A constructor writes its own object only.\<close>

definition ctor_local :: "(addr \<Rightarrow> (addr \<Rightarrow> u8) \<Rightarrow> (addr \<Rightarrow> u8) option) \<Rightarrow> nat \<Rightarrow> bool" where
  "ctor_local ctor sz \<longleftrightarrow> (\<forall>a m m' x. ctor a m = Some m' \<longrightarrow> x < a \<or> a + int sz \<le> x \<longrightarrow> m' x = m x)"

lemma construct_loop_below:
  assumes "ctor_local ctor sz"
  shows "construct_loop ctor sz ops ptr n at p = Inr q \<Longrightarrow> x < at \<Longrightarrow> memory q x = memory p x"
proof (induction n arbitrary: at p)
  case (Suc n)
  then show ?case using assms by (auto simp: ctor_local_def split: option.splits)
qed simp

lemma load_int_cong: "(\<And>x. a \<le> x \<Longrightarrow> x < a + 4 \<Longrightarrow> m x = m' x) \<Longrightarrow> load_int m a = load_int m' a"
  unfolding load_int_def by (intro arg_cong [of _ _ le_word] map_cong) auto

text \<open>An array created by \<open>NEW_ARRAY_MP\<close> and handed to \<open>DELETE_ARRAY_MP\<close> has its destructor run once per
  element, in order from the first, and then the memory released that the array was created in.\<close>

theorem delete_destroys_what_new_made:
  assumes "new_memory ctor sz ops alloc_size len p = Inr (arr, q)" "ctor_local ctor sz" "len < 2 ^ 31"
  shows "\<exists>ptr p'. malloc_memory ops (size_t ((if alloc_size = 0 then 1 else alloc_size) + 4)) p = Inr (ptr, p') \<and>
    arr = ptr + 4 \<and> delete_memory dtor sz ops (Some arr) q = free_memory ops ptr (destroy_loop dtor sz len arr q)"
proof -
  obtain ptr p' where m: "malloc_memory ops (size_t ((if alloc_size = 0 then 1 else alloc_size) + 4)) p = Inr (ptr, p')"
    "arr = ptr + 4" "construct_loop ctor sz ops ptr len arr (p'\<lparr>memory := store_int ptr (of_nat len) (memory p')\<rparr>) = Inr q"
    using assms(1) by (auto simp: new_memory_def Let_def split: sum.splits)
  have "load_int (memory q) ptr = load_int (store_int ptr (of_nat len) (memory p')) ptr"
    using construct_loop_below [OF assms(2) m(3)] m(2) by (intro load_int_cong) simp
  then have "unat (load_int (memory q) ptr) = len"
    using assms(3) by (simp add: load_store_int unsigned_of_nat take_bit_nat_eq_self)
  then show ?thesis using m by (simp add: delete_memory_def)
qed

lemma sample_new:
  "\<exists>q. new_memory (\<lambda>a m. Some (m(a := 1))) 4 sample_allocators 8 2 sample_pool = Inr (16000008, q)"
proof -
  have "pool_map sample_pool = size_classes" by (simp add: sample_pool_def mp_init_new)
  then have "malloc_memory sample_allocators 12 sample_pool =
      Inr (16000004, (log (Pool_Malloc 16 16000000) sample_pool)\<lparr>memory := store_int 16000000 16 (memory sample_pool)\<rparr>)"
    by (simp add: malloc_memory_def get_internal_size_def size_t_def memory_head_size_def get_iterator_def size_classes_eval
        sample_allocators_def get_ptr_def)
  moreover have "\<exists>q. construct_loop (\<lambda>a m. Some (m(a := 1))) 4 sample_allocators ptr n at p = Inr q" for ptr n at p
    by (induction n arbitrary: at p) auto
  moreover have "size_t 12 = 12" by (simp add: size_t_def)
  ultimately show ?thesis by (auto simp: new_memory_def Let_def split: sum.splits) (metis sum.distinct(1))
qed

theorem delete_destroys_what_new_made_witness:
  "\<exists>q ptr. new_memory (\<lambda>a m. Some (m(a := 1))) 4 sample_allocators 8 2 sample_pool = Inr (16000008, q) \<and>
     delete_memory (\<lambda>a m. m(a := 0)) 4 sample_allocators (Some 16000008) q =
       free_memory sample_allocators ptr (destroy_loop (\<lambda>a m. m(a := 0)) 4 2 16000008 q)"
proof -
  obtain q where q: "new_memory (\<lambda>a m. Some (m(a := 1))) 4 sample_allocators 8 2 sample_pool = Inr (16000008, q)"
    using sample_new by blast
  have "ctor_local (\<lambda>a m. Some (m(a := 1))) 4" by (auto simp: ctor_local_def)
  from delete_destroys_what_new_made [OF q this, of "\<lambda>a m. m(a := 0)"] q show ?thesis by auto
qed

end
