(* ===== verification/Gos_Serializer.thy ===== *)
theory Gos_Serializer
  imports Memory_Stream Byte_Order
begin

text \<open>
  The binary serialiser: \<open>Serializer\<close> (\<open>src/network/serialize/serializer.hpp\<close>) over
  \<open>gos_serialize_adapter\<close>, and \<open>DeSerializer\<close> over \<open>gos_deserialize_adapter\<close>
  (\<open>src/network/serialize/gos_adapter.hpp\<close>), with the codec that packs and unpacks messages
  (\<open>src/network/codec/codec_gos.hpp\<close>). The overloads of \<open>WriteObject\<close> and \<open>ReadObject\<close> are the cases of one
  recursive definition over values and one over types; the compile-time tag \<open>BeginObject\<close> is a flag.
  Numbers, enumerations and times are their memory images. The streams are used through four operations, whose
  contract is the locale \<open>gos_stream\<close>; \<open>memory_stream\<close> satisfies it. A container is the list of its elements in the order it is
  walked through; a multiset, which keeps what is repeated, is a sequence. Arrays of \<open>char\<close>, read as a string that is cut off, are left out.
\<close>

section \<open>Model\<close>

record 'st gos_ops =
  op_write :: "bytes \<Rightarrow> 'st \<Rightarrow> mem_error + 'st"
  op_write_string :: "bytes \<Rightarrow> 'st \<Rightarrow> mem_error + 'st"
  op_read :: "nat \<Rightarrow> 'st \<Rightarrow> mem_error + (bytes option \<times> 'st)"
  op_read_string :: "'st \<Rightarrow> mem_error + (bytes option \<times> 'st)"

datatype gty = G_Num nat | G_Str | G_Opt gty | G_Struct "gty list" | G_Tuple "gty list" | G_Seq gty | G_Set gty
  | G_Array nat gty | G_Map gty gty | G_Pair gty gty

datatype gval = V_Num bytes | V_Str bytes | V_Opt "gval option" | V_Struct "gval list" | V_Tuple "gval list"
  | V_Seq "gval list" | V_Set "gval list" | V_Array "gval list" | V_Map "(gval \<times> gval) list" | V_Pair gval gval

subsection \<open>Writing\<close>

definition gos_hton :: "bool \<Rightarrow> u32 \<Rightarrow> u32" where
  "gos_hton is_big_endian t = (if is_big_endian then hton32 t else t)"

definition gos_ntoh :: "bool \<Rightarrow> u32 \<Rightarrow> u32" where
  "gos_ntoh is_big_endian t = (if is_big_endian then ntoh32 t else t)"

definition begin_array :: "'st gos_ops \<Rightarrow> bool \<Rightarrow> nat \<Rightarrow> 'st \<Rightarrow> mem_error + 'st" where
  "begin_array ops be array_size s = op_write ops (le_bytes 4 (gos_hton be (of_nat array_size))) s"

definition write_is_null :: "'st gos_ops \<Rightarrow> bool \<Rightarrow> 'st \<Rightarrow> mem_error + 'st" where
  "write_is_null ops is_null s = op_write ops [if is_null then 1 else 0] s"

function WriteObject :: "'st gos_ops \<Rightarrow> bool \<Rightarrow> bool \<Rightarrow> gval \<Rightarrow> 'st \<Rightarrow> mem_error + 'st"
  and WriteElements :: "'st gos_ops \<Rightarrow> bool \<Rightarrow> bool \<Rightarrow> gval list \<Rightarrow> 'st \<Rightarrow> mem_error + 'st"
  and WriteKVs :: "'st gos_ops \<Rightarrow> bool \<Rightarrow> bool \<Rightarrow> (gval \<times> gval) list \<Rightarrow> 'st \<Rightarrow> mem_error + 'st" where
  "WriteObject ops be bo (V_Num bs) s = op_write ops bs s"
| "WriteObject ops be bo (V_Str str) s = op_write_string ops str s"
| "WriteObject ops be bo (V_Opt None) s = write_is_null ops True s"
| "WriteObject ops be bo (V_Opt (Some v)) s = ebind (write_is_null ops False s) (\<lambda>s1. WriteObject ops be bo v s1)"
| "WriteObject ops be bo (V_Struct vs) s = WriteElements ops be True vs s"
| "WriteObject ops be bo (V_Tuple vs) s = WriteElements ops be bo vs s"
| "WriteObject ops be bo (V_Seq vs) s = ebind (begin_array ops be (length vs) s) (\<lambda>s1. WriteElements ops be False vs s1)"
| "WriteObject ops be bo (V_Set vs) s = ebind (begin_array ops be (length vs) s) (\<lambda>s1. WriteElements ops be False vs s1)"
| "WriteObject ops be bo (V_Array vs) s = WriteElements ops be False vs s"
| "WriteObject ops be bo (V_Map kvs) s = ebind (begin_array ops be (length kvs) s) (\<lambda>s1. WriteKVs ops be bo kvs s1)"
| "WriteObject ops be bo (V_Pair k v) s =
     (if bo then ebind (WriteObject ops be True k s) (\<lambda>s1. WriteObject ops be True v s1) else WriteObject ops be True v s)"
| "WriteElements ops be bo [] s = Inr s"
| "WriteElements ops be bo (v # vs) s = ebind (WriteObject ops be bo v s) (\<lambda>s1. WriteElements ops be bo vs s1)"
| "WriteKVs ops be bo [] s = Inr s"
| "WriteKVs ops be bo ((k, v) # kvs) s =
     ebind (if bo then ebind (WriteObject ops be True k s) (\<lambda>s1. WriteObject ops be True v s1) else WriteObject ops be True v s)
       (\<lambda>s2. WriteKVs ops be bo kvs s2)"
  by pat_completeness auto
termination WriteObject
  by (relation "measure (case_sum (\<lambda>(_, _, _, v, _). size v)
       (case_sum (\<lambda>(_, _, _, vs, _). size_list size vs) (\<lambda>(_, _, _, kvs, _). size_list (size_prod size size) kvs)))") auto

definition Serialize :: "'st gos_ops \<Rightarrow> bool \<Rightarrow> gval \<Rightarrow> 'st \<Rightarrow> mem_error + 'st" where
  "Serialize ops be v s = WriteObject ops be True v s"

subsection \<open>Reading\<close>

text \<open>The result of a stream read is not looked at: a field that is not there keeps its initial value.\<close>

fun initial :: "gty \<Rightarrow> gval" where
  "initial (G_Num n) = V_Num (replicate n 0)"
| "initial G_Str = V_Str []"
| "initial (G_Opt t) = V_Opt None"
| "initial (G_Struct ts) = V_Struct (map initial ts)"
| "initial (G_Tuple ts) = V_Tuple (map initial ts)"
| "initial (G_Seq t) = V_Seq []"
| "initial (G_Set t) = V_Set []"
| "initial (G_Array n t) = V_Array (replicate n (initial t))"
| "initial (G_Map k v) = V_Map []"
| "initial (G_Pair k v) = V_Pair (initial k) (initial v)"

definition read_array_size :: "'st gos_ops \<Rightarrow> bool \<Rightarrow> 'st \<Rightarrow> mem_error + (nat \<times> 'st)" where
  "read_array_size ops be s =
     ebind (op_read ops 4 s) (\<lambda>(r, s1).
     let len = gos_ntoh be (case r of None \<Rightarrow> 0 | Some bs \<Rightarrow> le_word bs)
     in Inr (unat (scast len :: u64), s1))"

primrec read_times :: "nat \<Rightarrow> ('st \<Rightarrow> mem_error + ('a \<times> 'st)) \<Rightarrow> 'st \<Rightarrow> mem_error + ('a list \<times> 'st)" where
  "read_times 0 rd s = Inr ([], s)"
| "read_times (Suc n) rd s = ebind (rd s) (\<lambda>(x, s1). ebind (read_times n rd s1) (\<lambda>(xs, s2). Inr (x # xs, s2)))"

text \<open>\<open>insert\<close> on a map keeps the value of a key that is there.\<close>

definition map_insert :: "(gval \<times> gval) list \<Rightarrow> gval \<times> gval \<Rightarrow> (gval \<times> gval) list" where
  "map_insert m kv = (if fst kv \<in> fst ` set m then m else m @ [kv])"

text \<open>A container that can only be inserted into, a set, ignores an element that is there.\<close>

definition set_insert :: "gval list \<Rightarrow> gval \<Rightarrow> gval list" where
  "set_insert m v = (if v \<in> set m then m else m @ [v])"

fun ReadObject :: "'st gos_ops \<Rightarrow> bool \<Rightarrow> gty \<Rightarrow> bool \<Rightarrow> 'st \<Rightarrow> mem_error + (gval \<times> 'st)"
  and ReadTuple :: "'st gos_ops \<Rightarrow> bool \<Rightarrow> gty list \<Rightarrow> bool \<Rightarrow> 'st \<Rightarrow> mem_error + (gval list \<times> 'st)" where
  "ReadObject ops be (G_Num n) bo s =
     ebind (op_read ops n s) (\<lambda>(r, s1). Inr (V_Num (case r of None \<Rightarrow> replicate n 0 | Some bs \<Rightarrow> bs), s1))"
| "ReadObject ops be G_Str bo s =
     ebind (op_read_string ops s) (\<lambda>(r, s1). Inr (V_Str (case r of None \<Rightarrow> [] | Some str \<Rightarrow> str), s1))"
| "ReadObject ops be (G_Opt t) bo s =
     ebind (op_read ops 1 s) (\<lambda>(r, s1).
     if (case r of None \<Rightarrow> False | Some bs \<Rightarrow> bs \<noteq> [0]) then Inr (V_Opt None, s1)
     else ebind (ReadObject ops be t True s1) (\<lambda>(v, s2). Inr (V_Opt (Some v), s2)))"
| "ReadObject ops be (G_Struct ts) bo s = ebind (ReadTuple ops be ts True s) (\<lambda>(vs, s1). Inr (V_Struct vs, s1))"
| "ReadObject ops be (G_Tuple ts) bo s = ebind (ReadTuple ops be ts False s) (\<lambda>(vs, s1). Inr (V_Tuple vs, s1))"
| "ReadObject ops be (G_Seq t) bo s =
     ebind (read_array_size ops be s) (\<lambda>(n, s1).
     ebind (read_times n (\<lambda>s. ReadObject ops be t False s) s1) (\<lambda>(vs, s2). Inr (V_Seq vs, s2)))"
| "ReadObject ops be (G_Set t) bo s =
     ebind (read_array_size ops be s) (\<lambda>(n, s1).
     ebind (read_times n (\<lambda>s. ReadObject ops be t False s) s1) (\<lambda>(vs, s2). Inr (V_Set (foldl set_insert [] vs), s2)))"
| "ReadObject ops be (G_Array n t) bo s =
     ebind (read_times n (\<lambda>s. ReadObject ops be t False s) s) (\<lambda>(vs, s2). Inr (V_Array vs, s2))"
| "ReadObject ops be (G_Map k v) bo s =
     ebind (read_array_size ops be s) (\<lambda>(n, s1).
     ebind (read_times n (\<lambda>s.
         ebind (if bo then ReadObject ops be k True s else Inr (initial k, s)) (\<lambda>(x, s).
         ebind (ReadObject ops be v True s) (\<lambda>(y, s). Inr ((x, y), s)))) s1) (\<lambda>(kvs, s2).
     Inr (V_Map (foldl map_insert [] kvs), s2)))"
| "ReadObject ops be (G_Pair k v) bo s =
     ebind (if bo then ReadObject ops be k True s else Inr (initial k, s)) (\<lambda>(x, s1).
     ebind (ReadObject ops be v True s1) (\<lambda>(y, s2). Inr (V_Pair x y, s2)))"
| "ReadTuple ops be [] bo s = Inr ([], s)"
| "ReadTuple ops be (t # ts) bo s =
     ebind (ReadObject ops be t bo s) (\<lambda>(v, s1). ebind (ReadTuple ops be ts bo s1) (\<lambda>(vs, s2). Inr (v # vs, s2)))"

definition DeSerialize :: "'st gos_ops \<Rightarrow> bool \<Rightarrow> gty \<Rightarrow> 'st \<Rightarrow> mem_error + (gval \<times> 'st)" where
  "DeSerialize ops be ty s = ReadObject ops be ty True s"

text \<open>The arguments of a call: \<open>GetTuple\<close> reads the elements with the flag set, unlike a tuple, and takes the ones whose
  type is in the tuple it was given (\<open>supplied\<close>) from there.\<close>

primrec get_tuple_elems :: "'st gos_ops \<Rightarrow> bool \<Rightarrow> (gty \<Rightarrow> gval option) \<Rightarrow> gty list \<Rightarrow> 'st \<Rightarrow> mem_error + (gval list \<times> 'st)" where
  "get_tuple_elems ops be supplied [] s = Inr ([], s)"
| "get_tuple_elems ops be supplied (t # ts) s =
     ebind (case supplied t of Some v \<Rightarrow> Inr (v, s) | None \<Rightarrow> ReadObject ops be t True s) (\<lambda>(v, s1).
     ebind (get_tuple_elems ops be supplied ts s1) (\<lambda>(vs, s2). Inr (v # vs, s2)))"

definition GetTuple :: "'st gos_ops \<Rightarrow> bool \<Rightarrow> (gty \<Rightarrow> gval option) \<Rightarrow> gty list \<Rightarrow> 'st \<Rightarrow> mem_error + (gval \<times> 'st)" where
  "GetTuple ops be supplied ts s = ebind (get_tuple_elems ops be supplied ts s) (\<lambda>(vs, s1). Inr (V_Tuple vs, s1))"

subsection \<open>The stream and the codec\<close>

definition ms_ops :: "(nat \<Rightarrow> u8) \<Rightarrow> (mstream \<times> heap) gos_ops" where
  "ms_ops junk = \<lparr>op_write = (\<lambda>xs (s, h). ms_write_value junk xs s h),
     op_write_string = (\<lambda>str (s, h). ms_write_string junk str s h),
     op_read = (\<lambda>n (s, h). ebind (ms_read_value (int n) s h) (\<lambda>(r, s1). Inr (r, (s1, h)))),
     op_read_string = (\<lambda>(s, h). ebind (ms_read_string s h) (\<lambda>(r, s1, h1). Inr (r, (s1, h1))))\<rparr>"

text \<open>The number of bytes of a type, if it is the same for all its values, and -1 otherwise.\<close>

fun tuple_total_size :: "gty \<Rightarrow> int"
  and total_sizes :: "gty list \<Rightarrow> int" where
  "tuple_total_size (G_Num n) = int n"
| "tuple_total_size (G_Array n t) = (if tuple_total_size t < 0 then -1 else tuple_total_size t * int n)"
| "tuple_total_size (G_Struct ts) = total_sizes ts"
| "tuple_total_size (G_Tuple ts) = total_sizes ts"
| "tuple_total_size (G_Pair k v) =
     (if tuple_total_size k < 0 \<or> tuple_total_size v < 0 then -1 else tuple_total_size k + tuple_total_size v)"
| "tuple_total_size G_Str = -1"
| "tuple_total_size (G_Opt t) = -1"
| "tuple_total_size (G_Seq t) = -1"
| "tuple_total_size (G_Set t) = -1"
| "tuple_total_size (G_Map k v) = -1"
| "total_sizes [] = 0"
| "total_sizes (t # ts) =
     (if tuple_total_size t < 0 \<or> total_sizes ts < 0 then -1 else tuple_total_size t + total_sizes ts)"

record gos_buffer =
  buf_data :: ptr
  buf_size :: int

definition gb_empty :: gos_buffer where
  "gb_empty = \<lparr>buf_data = nullptr, buf_size = 0\<rparr>"

definition gb_move :: "gos_buffer \<Rightarrow> gos_buffer \<times> gos_buffer" where
  "gb_move gos = (gos, gb_empty)"

definition gb_copy :: "(nat \<Rightarrow> u8) \<Rightarrow> ptr \<Rightarrow> int \<Rightarrow> heap \<Rightarrow> mem_error + (gos_buffer \<times> heap)" where
  "gb_copy junk begin sz h =
     (let (p, h1) = MALLOC_MP junk sz h
      in ebind (mem_load begin sz h1) (\<lambda>bs. ebind (mem_store p bs h1) (\<lambda>h2. Inr (\<lparr>buf_data = p, buf_size = sz\<rparr>, h2))))"

definition gb_of_stream :: "mstream \<Rightarrow> gos_buffer \<times> mstream" where
  "gb_of_stream gos = (\<lparr>buf_data = ms_data_ptr gos, buf_size = ms_length gos\<rparr>, ms_set_alloc_type 0 gos)"

definition gb_destroy :: "gos_buffer \<Rightarrow> heap \<Rightarrow> mem_error + heap" where
  "gb_destroy b h = (if buf_data b \<noteq> nullptr then FREE_MP (buf_data b) h else Inr h)"

definition gb_reset :: "bool \<Rightarrow> gos_buffer \<Rightarrow> heap \<Rightarrow> mem_error + (gos_buffer \<times> heap)" where
  "gb_reset release_memory b h =
     ebind (if release_memory \<and> buf_data b \<noteq> nullptr then FREE_MP (buf_data b) h else Inr h) (\<lambda>h1. Inr (gb_empty, h1))"

definition gos_pack :: "(nat \<Rightarrow> u8) \<Rightarrow> bool \<Rightarrow> gty \<Rightarrow> gval \<Rightarrow> heap \<Rightarrow> mem_error + (gos_buffer \<times> heap)" where
  "gos_pack junk be ty v h =
     (let total_size = tuple_total_size ty
      in if total_size = 0 then Inr (gb_empty, h)
         else (let (gos, h1) = ms_new junk (if total_size < 0 then ms_default_size else total_size) h
               in ebind (Serialize (ms_ops junk) be v (gos, h1)) (\<lambda>(gos, h2).
                  let (buffer, gos) = gb_of_stream gos
                  in ebind (ms_destroy gos h2) (\<lambda>h3. Inr (buffer, h3)))))"

definition gos_pack_into :: "(nat \<Rightarrow> u8) \<Rightarrow> bool \<Rightarrow> gval \<Rightarrow> mstream \<times> heap \<Rightarrow> mem_error + (mstream \<times> heap)" where
  "gos_pack_into junk be v gos = Serialize (ms_ops junk) be v gos"

definition gos_unpack :: "(nat \<Rightarrow> u8) \<Rightarrow> bool \<Rightarrow> gty \<Rightarrow> ptr \<Rightarrow> int \<Rightarrow> heap \<Rightarrow> mem_error + (gval \<times> heap)" where
  "gos_unpack junk be ty data len h =
     ebind (ms_wrap junk data len 0 h) (\<lambda>sh.
     ebind (DeSerialize (ms_ops junk) be ty sh) (\<lambda>(t, gos, h1).
     ebind (ms_destroy gos h1) (\<lambda>h2. Inr (t, h2))))"

definition gos_unpack_args :: "(nat \<Rightarrow> u8) \<Rightarrow> bool \<Rightarrow> (gty \<Rightarrow> gval option) \<Rightarrow> gty list \<Rightarrow> ptr \<Rightarrow> int \<Rightarrow> heap \<Rightarrow> mem_error + (gval \<times> heap)" where
  "gos_unpack_args junk be supplied ts data len h =
     ebind (ms_wrap junk data len 0 h) (\<lambda>sh.
     ebind (GetTuple (ms_ops junk) be supplied ts sh) (\<lambda>(t, gos, h1).
     ebind (ms_destroy gos h1) (\<lambda>h2. Inr (t, h2))))"

section \<open>The format\<close>

definition count_image :: "bool \<Rightarrow> nat \<Rightarrow> bytes" where
  "count_image be n = le_bytes 4 (gos_hton be (of_nat n))"

function enc :: "bool \<Rightarrow> bool \<Rightarrow> gval \<Rightarrow> bytes"
  and encs :: "bool \<Rightarrow> bool \<Rightarrow> gval list \<Rightarrow> bytes"
  and enc_kvs :: "bool \<Rightarrow> bool \<Rightarrow> (gval \<times> gval) list \<Rightarrow> bytes" where
  "enc be bo (V_Num bs) = bs"
| "enc be bo (V_Str str) = short_image (int (length str)) @ str"
| "enc be bo (V_Opt None) = [1]"
| "enc be bo (V_Opt (Some v)) = 0 # enc be bo v"
| "enc be bo (V_Struct vs) = encs be True vs"
| "enc be bo (V_Tuple vs) = encs be bo vs"
| "enc be bo (V_Seq vs) = count_image be (length vs) @ encs be False vs"
| "enc be bo (V_Set vs) = count_image be (length vs) @ encs be False vs"
| "enc be bo (V_Array vs) = encs be False vs"
| "enc be bo (V_Map kvs) = count_image be (length kvs) @ enc_kvs be bo kvs"
| "enc be bo (V_Pair k v) = (if bo then enc be True k else []) @ enc be True v"
| "encs be bo [] = []"
| "encs be bo (v # vs) = enc be bo v @ encs be bo vs"
| "enc_kvs be bo [] = []"
| "enc_kvs be bo ((k, v) # kvs) = ((if bo then enc be True k else []) @ enc be True v) @ enc_kvs be bo kvs"
  by pat_completeness auto
termination enc
  by (relation "measure (case_sum (\<lambda>(_, _, v). size v)
       (case_sum (\<lambda>(_, _, vs). size_list size vs) (\<lambda>(_, _, kvs). size_list (size_prod size size) kvs)))") auto

text \<open>Values of a type that fit the format: strings of fewer than 32768 bytes without a zero byte, fewer than
  \<open>2 ^ 31\<close> elements, maps with distinct keys, sets without repetition.\<close>

fun has_ty :: "gty \<Rightarrow> gval \<Rightarrow> bool"
  and have_tys :: "gty list \<Rightarrow> gval list \<Rightarrow> bool" where
  "has_ty (G_Num n) x = (case x of V_Num bs \<Rightarrow> length bs = n | _ \<Rightarrow> False)"
| "has_ty G_Str x = (case x of V_Str str \<Rightarrow> length str < 32768 \<and> 0 \<notin> set str | _ \<Rightarrow> False)"
| "has_ty (G_Opt t) x = (case x of V_Opt y \<Rightarrow> (case y of None \<Rightarrow> True | Some v \<Rightarrow> has_ty t v) | _ \<Rightarrow> False)"
| "has_ty (G_Struct ts) x = (case x of V_Struct vs \<Rightarrow> have_tys ts vs | _ \<Rightarrow> False)"
| "has_ty (G_Tuple ts) x = (case x of V_Tuple vs \<Rightarrow> have_tys ts vs | _ \<Rightarrow> False)"
| "has_ty (G_Seq t) x = (case x of V_Seq vs \<Rightarrow> length vs < 2 ^ 31 \<and> list_all (\<lambda>v. has_ty t v) vs | _ \<Rightarrow> False)"
| "has_ty (G_Set t) x = (case x of V_Set vs \<Rightarrow> length vs < 2 ^ 31 \<and> distinct vs \<and> list_all (\<lambda>v. has_ty t v) vs | _ \<Rightarrow> False)"
| "has_ty (G_Array n t) x = (case x of V_Array vs \<Rightarrow> length vs = n \<and> list_all (\<lambda>v. has_ty t v) vs | _ \<Rightarrow> False)"
| "has_ty (G_Map k v) x = (case x of V_Map kvs \<Rightarrow> length kvs < 2 ^ 31 \<and> distinct (map fst kvs) \<and>
     list_all (\<lambda>kv. has_ty k (fst kv) \<and> has_ty v (snd kv)) kvs | _ \<Rightarrow> False)"
| "has_ty (G_Pair k v) x = (case x of V_Pair y z \<Rightarrow> has_ty k y \<and> has_ty v z | _ \<Rightarrow> False)"
| "have_tys [] vs = (vs = [])"
| "have_tys (t # ts) vs = (case vs of [] \<Rightarrow> False | v # vs' \<Rightarrow> has_ty t v \<and> have_tys ts vs')"

text \<open>The flags under which a type is written and read agree on what is transferred: keys are, and a tuple, read
  without the flag, holds no map or pair that was written with it.\<close>

fun agree :: "gty \<Rightarrow> bool \<Rightarrow> bool \<Rightarrow> bool" where
  "agree (G_Num n) w r = True"
| "agree G_Str w r = True"
| "agree (G_Opt t) w r = agree t w True"
| "agree (G_Struct ts) w r = list_all (\<lambda>t. agree t True True) ts"
| "agree (G_Tuple ts) w r = list_all (\<lambda>t. agree t w False) ts"
| "agree (G_Seq t) w r = agree t False False"
| "agree (G_Set t) w r = agree t False False"
| "agree (G_Array n t) w r = agree t False False"
| "agree (G_Map k v) w r = (w \<and> r \<and> agree k True True \<and> agree v True True)"
| "agree (G_Pair k v) w r = (w \<and> r \<and> agree k True True \<and> agree v True True)"

fun no_strings :: "gty \<Rightarrow> bool" where
  "no_strings (G_Num n) = True"
| "no_strings G_Str = False"
| "no_strings (G_Opt t) = no_strings t"
| "no_strings (G_Struct ts) = list_all no_strings ts"
| "no_strings (G_Tuple ts) = list_all no_strings ts"
| "no_strings (G_Seq t) = no_strings t"
| "no_strings (G_Set t) = no_strings t"
| "no_strings (G_Array n t) = no_strings t"
| "no_strings (G_Map k v) = (no_strings k \<and> no_strings v)"
| "no_strings (G_Pair k v) = (no_strings k \<and> no_strings v)"

lemma length_count_image [simp]: "length (count_image be n) = 4"
  by (simp add: count_image_def)

lemma gos_ntoh_hton: "gos_ntoh be (gos_hton be w) = w"
  by (simp add: gos_ntoh_def gos_hton_def ntoh_hton)

lemma count_of_image: "n < 2 ^ 31 \<Longrightarrow> unat (scast (gos_ntoh be (le_word (count_image be n)) :: u32) :: u64) = n"
  by (simp add: count_image_def gos_ntoh_hton signed_of_nat signed_take_bit_int_eq_self unsigned_of_nat take_bit_nat_eq_self)

lemma encs_concat: "encs be bo vs = concat (map (enc be bo) vs)"
  by (induction vs) simp_all

lemma enc_kvs_concat: "enc_kvs be True kvs = concat (map (\<lambda>kv. enc be True (fst kv) @ enc be True (snd kv)) kvs)"
  by (induction kvs) auto

lemma foldl_map_insert: "distinct (map fst (m @ kvs)) \<Longrightarrow> foldl map_insert m kvs = m @ kvs"
proof (induction kvs arbitrary: m)
  case (Cons kv kvs)
  then have "map_insert m kv = m @ [kv]" by (auto simp: map_insert_def)
  then show ?case using Cons.IH [of "m @ [kv]"] Cons.prems by simp
qed simp

lemma foldl_set_insert: "distinct (m @ vs) \<Longrightarrow> foldl set_insert m vs = m @ vs"
  by (induction vs arbitrary: m) (auto simp: set_insert_def)

lemma gos_ntoh_zero [simp]: "gos_ntoh be 0 = 0"
  by (simp add: gos_ntoh_def ntoh32_def ntohl_def bswap_def eval_nat_numeral)

text \<open>What is read of a type when nothing is there: zeros and empty containers, but an optional is present.\<close>

fun absent :: "bool \<Rightarrow> gty \<Rightarrow> gval" where
  "absent r (G_Num n) = V_Num (replicate n 0)"
| "absent r G_Str = V_Str []"
| "absent r (G_Opt t) = V_Opt (Some (absent True t))"
| "absent r (G_Struct ts) = V_Struct (map (absent True) ts)"
| "absent r (G_Tuple ts) = V_Tuple (map (absent False) ts)"
| "absent r (G_Seq t) = V_Seq []"
| "absent r (G_Set t) = V_Set []"
| "absent r (G_Array n t) = V_Array (replicate n (absent False t))"
| "absent r (G_Map k v) = V_Map []"
| "absent r (G_Pair k v) = V_Pair (if r then absent True k else initial k) (absent True v)"

text \<open>The arguments of a call of which some are supplied by the receiver: those the sender transfers, and what they have to be.\<close>

fun sent_args :: "(gty \<Rightarrow> gval option) \<Rightarrow> gty list \<Rightarrow> gval list \<Rightarrow> gval list" where
  "sent_args supplied (t # ts) (v # vs) = (if supplied t = None then v # sent_args supplied ts vs else sent_args supplied ts vs)"
| "sent_args supplied _ _ = []"

fun args_ok :: "(gty \<Rightarrow> gval option) \<Rightarrow> gty list \<Rightarrow> gval list \<Rightarrow> bool" where
  "args_ok supplied [] [] = True"
| "args_ok supplied (t # ts) (v # vs) =
     ((case supplied t of Some x \<Rightarrow> v = x | None \<Rightarrow> has_ty t v \<and> agree t True True) \<and> args_ok supplied ts vs)"
| "args_ok supplied _ _ = False"

section \<open>Writing and reading over any stream\<close>

locale gos_stream =
  fixes ops :: "'st gos_ops"
    and invar :: "'st \<Rightarrow> bool"
    and content :: "'st \<Rightarrow> bytes"
    and room :: "'st \<Rightarrow> nat \<Rightarrow> bool"
  assumes write_ok: "invar s \<Longrightarrow> room s (length xs + n) \<Longrightarrow>
      \<exists>s'. op_write ops xs s = Inr s' \<and> invar s' \<and> content s' = content s @ xs \<and> room s' n"
    and write_string_ok: "invar s \<Longrightarrow> room s (2 + length str + n) \<Longrightarrow>
      \<exists>s'. op_write_string ops str s = Inr s' \<and> invar s' \<and>
        content s' = content s @ short_image (int (length str)) @ str \<and> room s' n"
    and read_ok: "invar s \<Longrightarrow> content s = xs @ rest \<Longrightarrow>
      \<exists>s'. op_read ops (length xs) s = Inr (Some xs, s') \<and> invar s' \<and> content s' = rest"
    and read_short: "invar s \<Longrightarrow> length (content s) < n \<Longrightarrow> op_read ops n s = Inr (None, s)"
    and read_zero: "invar s \<Longrightarrow> op_read ops 0 s = Inr (Some [], s)"
    and read_string_ok: "invar s \<Longrightarrow> content s = short_image (int (length str)) @ str @ rest \<Longrightarrow> rest \<noteq> [] \<Longrightarrow>
      length str < 32768 \<Longrightarrow> 0 \<notin> set str \<Longrightarrow>
      \<exists>s'. op_read_string ops s = Inr (Some str, s') \<and> invar s' \<and> content s' = rest"
    and read_string_short: "invar s \<Longrightarrow> length (content s) \<le> 2 \<Longrightarrow> op_read_string ops s = Inr (None, s)"
begin

definition appends :: "('st \<Rightarrow> mem_error + 'st) \<Rightarrow> bytes \<Rightarrow> bool" where
  "appends f xs \<longleftrightarrow> (\<forall>s n. invar s \<longrightarrow> room s (length xs + n) \<longrightarrow>
     (\<exists>s'. f s = Inr s' \<and> invar s' \<and> content s' = content s @ xs \<and> room s' n))"

lemma appendsD:
  assumes "appends f xs" "invar s" "room s (length xs + n)"
  obtains s' where "f s = Inr s'" "invar s'" "content s' = content s @ xs" "room s' n"
  using assms unfolding appends_def by blast

lemma appends_write: "appends (op_write ops xs) xs"
  using write_ok by (simp add: appends_def)

lemma appends_string: "appends (op_write_string ops str) (short_image (int (length str)) @ str)"
  using write_string_ok by (simp add: appends_def)

lemma appends_Inr: "appends (\<lambda>s. Inr s) []"
  by (simp add: appends_def)

lemma appends_bind:
  assumes "appends f xs" "appends g ys"
  shows "appends (\<lambda>s. ebind (f s) (\<lambda>s1. g s1)) (xs @ ys)"
  unfolding appends_def
proof (intro allI impI)
  fix s n
  assume s: "invar s" "room s (length (xs @ ys) + n)"
  then obtain s1 where s1: "f s = Inr s1" "invar s1" "content s1 = content s @ xs" "room s1 (length ys + n)"
    using assms(1) unfolding appends_def by (metis length_append add.assoc)
  then show "\<exists>s'. ebind (f s) (\<lambda>s1. g s1) = Inr s' \<and> invar s' \<and> content s' = content s @ xs @ ys \<and> room s' n"
    using assms(2) unfolding appends_def by fastforce
qed

lemma appends_begin_array: "appends (begin_array ops be n) (count_image be n)"
  using appends_write by (simp add: begin_array_def count_image_def appends_def)

lemma appends_is_null: "appends (write_is_null ops b) [if b then 1 else 0]"
  using appends_write by (simp add: write_is_null_def appends_def)

lemma appends_object:
  "appends (WriteObject ops be bo v) (enc be bo v)"
  "appends (WriteElements ops be bo vs) (encs be bo vs)"
  "appends (WriteKVs ops be bo kvs) (enc_kvs be bo kvs)"
proof (induction be bo v and be bo vs and be bo kvs rule: enc_encs_enc_kvs.induct)
  case (15 be bo k v kvs)
  then show ?case by (cases bo) (auto simp del: append_assoc intro!: appends_bind)
qed (auto intro: appends_write appends_string appends_Inr appends_bind appends_begin_array
       appends_is_null [of True, simplified] appends_is_null [of False, simplified]
       appends_bind [OF appends_is_null [of False, simplified], simplified])

definition reads :: "('st \<Rightarrow> mem_error + ('a \<times> 'st)) \<Rightarrow> bool \<Rightarrow> bytes \<Rightarrow> 'a \<Rightarrow> bool" where
  "reads f ns xs v \<longleftrightarrow> (\<forall>s rest. invar s \<longrightarrow> content s = xs @ rest \<longrightarrow> ns \<or> rest \<noteq> [] \<longrightarrow>
     (\<exists>s'. f s = Inr (v, s') \<and> invar s' \<and> content s' = rest))"

lemma readsD:
  assumes "reads f ns xs v" "invar s" "content s = xs @ rest" "ns \<or> rest \<noteq> []"
  obtains s' where "f s = Inr (v, s')" "invar s'" "content s' = rest"
  using assms unfolding reads_def by blast

lemma reads_weaken: "reads f ns' xs v \<Longrightarrow> (ns \<Longrightarrow> ns') \<Longrightarrow> reads f ns xs v"
  unfolding reads_def by blast

lemma reads_return: "reads (\<lambda>s. Inr (v, s)) ns [] v"
  by (simp add: reads_def)

lemma reads_bind:
  assumes "reads f ns xs v" "reads (g v) ns ys w"
  shows "reads (\<lambda>s. ebind (f s) (\<lambda>(x, s1). g x s1)) ns (xs @ ys) w"
  unfolding reads_def
proof (intro allI impI)
  fix s rest
  assume s: "invar s" "content s = (xs @ ys) @ rest" "ns \<or> rest \<noteq> []"
  then have "content s = xs @ ys @ rest" "ns \<or> ys @ rest \<noteq> []" by auto
  from readsD [OF assms(1) s(1) this] obtain s1 where s1: "f s = Inr (v, s1)" "invar s1" "content s1 = ys @ rest" .
  from readsD [OF assms(2) this(2,3) s(3)] s1(1)
  show "\<exists>s'. ebind (f s) (\<lambda>(x, s1). g x s1) = Inr (w, s') \<and> invar s' \<and> content s' = rest" by auto
qed

lemma reads_map: "reads f ns xs v \<Longrightarrow> reads (\<lambda>s. ebind (f s) (\<lambda>(x, s1). Inr (h x, s1))) ns xs (h v)"
  using reads_bind [of f ns xs v "\<lambda>x s1. Inr (h x, s1)" "[]" "h v"] by (simp add: reads_return)

lemma reads_times:
  "list_all (\<lambda>v. reads f ns (e v) v) vs \<Longrightarrow> reads (read_times (length vs) f) ns (concat (map e vs)) vs"
proof (induction vs)
  case Nil
  then show ?case by (simp add: reads_return)
next
  case (Cons v vs)
  have "reads (\<lambda>s1. ebind (read_times (length vs) f s1) (\<lambda>(xs, s2). Inr (v # xs, s2))) ns (concat (map e vs)) (v # vs)"
    using Cons by (intro reads_map [where h = "\<lambda>xs. v # xs"]) simp
  moreover have "reads f ns (e v) v" using Cons.prems by simp
  ultimately show ?case using reads_bind [of f ns "e v" v
      "\<lambda>x s1. ebind (read_times (length vs) f s1) (\<lambda>(xs, s2). Inr (x # xs, s2))"] by simp
qed

lemma reads_op: "reads (\<lambda>s. ebind (op_read ops (length xs) s) (\<lambda>(r, s1). Inr (h r, s1))) ns xs (h (Some xs))"
  unfolding reads_def
proof (intro allI impI)
  fix s rest
  assume "invar s" "content s = xs @ rest"
  from read_ok [OF this] show "\<exists>s'. ebind (op_read ops (length xs) s) (\<lambda>(r, s1). Inr (h r, s1)) = Inr (h (Some xs), s') \<and> invar s' \<and> content s' = rest"
    by auto
qed

lemma reads_count: "n < 2 ^ 31 \<Longrightarrow> reads (read_array_size ops be) ns (count_image be n) n"
  using reads_op [of "count_image be n" "\<lambda>r. unat (scast (gos_ntoh be (case r of None \<Rightarrow> 0 | Some bs \<Rightarrow> le_word bs)) :: u64)" ns]
  by (simp add: read_array_size_def Let_def count_of_image reads_def)

lemma reads_tuple:
  assumes "\<And>t v. t \<in> set ts \<Longrightarrow> has_ty t v \<Longrightarrow> agree t w r \<Longrightarrow> reads (ReadObject ops be t r) (no_strings t) (enc be w v) v"
  shows "have_tys ts vs \<Longrightarrow> list_all (\<lambda>t. agree t w r) ts \<Longrightarrow>
    reads (ReadTuple ops be ts r) (list_all no_strings ts) (encs be w vs) vs"
  using assms
proof (induction ts arbitrary: vs)
  case Nil
  then show ?case using reads_return by (simp add: reads_def)
next
  case (Cons t ts)
  then obtain v vs' where vs: "vs = v # vs'" "has_ty t v" "have_tys ts vs'" by (auto split: list.splits)
  let ?ns = "list_all no_strings (t # ts)"
  have "reads (ReadTuple ops be ts r) (list_all no_strings ts) (encs be w vs') vs'"
    using Cons.IH [OF vs(3)] Cons.prems by simp
  then have "reads (ReadTuple ops be ts r) ?ns (encs be w vs') vs'" by (rule reads_weaken) simp
  then have "reads (\<lambda>s1. ebind (ReadTuple ops be ts r s1) (\<lambda>(xs, s2). Inr (v # xs, s2))) ?ns (encs be w vs') (v # vs')"
    by (rule reads_map)
  moreover have "reads (ReadObject ops be t r) ?ns (enc be w v) v"
    by (rule reads_weaken [OF Cons.prems(3)]) (use vs Cons.prems in auto)
  ultimately show ?case using reads_bind [of "ReadObject ops be t r" ?ns "enc be w v" v
      "\<lambda>x s1. ebind (ReadTuple ops be ts r s1) (\<lambda>(xs, s2). Inr (x # xs, s2))"] vs by simp
qed

lemma reads_pair:
  assumes "reads (ReadObject ops be k True) (no_strings k) (enc be True x) x"
    "reads (ReadObject ops be v True) (no_strings v) (enc be True y) y"
  shows "reads (\<lambda>s. ebind (ReadObject ops be k True s) (\<lambda>(x, s1). ebind (ReadObject ops be v True s1) (\<lambda>(y, s2). Inr (h x y, s2))))
    (no_strings k \<and> no_strings v) (enc be True x @ enc be True y) (h x y)"
  by (intro reads_bind [where v = x and g = "\<lambda>x s1. ebind (ReadObject ops be v True s1) (\<lambda>(y, s2). Inr (h x y, s2))"]
      reads_map [where h = "h x"]; rule reads_weaken [OF assms(1)] reads_weaken [OF assms(2)]; simp)

lemma reads_opt:
  assumes "\<And>v. y = Some v \<Longrightarrow> reads (ReadObject ops be t True) (no_strings t) (enc be w v) v"
  shows "reads (ReadObject ops be (G_Opt t) r) (no_strings t) (enc be w (V_Opt y)) (V_Opt y)"
proof -
  let ?g = "\<lambda>r s1. if (case r of None \<Rightarrow> False | Some bs \<Rightarrow> bs \<noteq> [0 :: u8]) then Inr (V_Opt None, s1)
     else ebind (ReadObject ops be t True s1) (\<lambda>(v, s2). Inr (V_Opt (Some v), s2))"
  have op: "reads (op_read ops 1) (no_strings t) [b] (Some [b])" for b :: u8
    using read_ok [of _ "[b]"] by (auto simp: reads_def)
  have f: "ReadObject ops be (G_Opt t) r = (\<lambda>s. ebind (op_read ops 1 s) (\<lambda>(r, s1). ?g r s1))" by (rule ext) simp
  show ?thesis
  proof (cases y)
    case None
    have "reads (?g (Some [1])) (no_strings t) [] (V_Opt None)" by (simp add: reads_return)
    from reads_bind [where g = ?g, OF op [of 1] this] show ?thesis unfolding f by (simp add: None)
  next
    case (Some v)
    have "reads (?g (Some [0])) (no_strings t) (enc be w v) (V_Opt (Some v))"
      using reads_map [OF assms [OF Some], of "\<lambda>v. V_Opt (Some v)"] by simp
    from reads_bind [where g = ?g, OF op [of 0] this] show ?thesis unfolding f by (simp add: Some)
  qed
qed

lemma reads_seq:
  assumes "length vs < 2 ^ 31" "list_all (\<lambda>v. reads f ns (e v) v) vs"
  shows "reads (\<lambda>s. ebind (read_array_size ops be s) (\<lambda>(n, s1). ebind (read_times n f s1) (\<lambda>(vs, s2). Inr (h vs, s2)))) ns
    (count_image be (length vs) @ concat (map e vs)) (h vs)"
  by (intro reads_bind [where v = "length vs" and g = "\<lambda>n s1. ebind (read_times n f s1) (\<lambda>(vs, s2). Inr (h vs, s2))"] reads_count
      reads_map [where h = h] reads_times assms)

lemma reads_object:
  "has_ty ty x \<Longrightarrow> agree ty w r \<Longrightarrow> reads (ReadObject ops be ty r) (no_strings ty) (enc be w x) x"
proof (induction ty arbitrary: x w r)
  case (G_Num n)
  then obtain bs where "x = V_Num bs" "n = length bs" by (auto split: gval.splits)
  then show ?case using reads_op [of bs "\<lambda>r. V_Num (case r of None \<Rightarrow> replicate (length bs) 0 | Some bs \<Rightarrow> bs)" True] by (simp add: reads_def)
next
  case G_Str
  then show ?case using read_string_ok by (fastforce simp: reads_def split: gval.splits)
next
  case (G_Opt t)
  then obtain y where y: "x = V_Opt y" "\<And>v. y = Some v \<Longrightarrow> has_ty t v" by (auto split: gval.splits option.splits)
  have "agree t w True" using G_Opt.prems by simp
  then have "reads (ReadObject ops be (G_Opt t) r) (no_strings t) (enc be w (V_Opt y)) (V_Opt y)"
    using G_Opt.IH y(2) by (intro reads_opt) blast
  then show ?case by (simp only: y no_strings.simps)
next
  case (G_Struct ts)
  then obtain vs where vs: "x = V_Struct vs" "have_tys ts vs" by (auto split: gval.splits)
  have "reads (ReadTuple ops be ts True) (list_all no_strings ts) (encs be True vs) vs"
    using G_Struct vs by (intro reads_tuple) auto
  from reads_map [OF this, of V_Struct] vs show ?case by (simp add: reads_def)
next
  case (G_Tuple ts)
  then obtain vs where vs: "x = V_Tuple vs" "have_tys ts vs" by (auto split: gval.splits)
  have "reads (ReadTuple ops be ts False) (list_all no_strings ts) (encs be w vs) vs"
    using G_Tuple vs by (intro reads_tuple) auto
  from reads_map [OF this, of V_Tuple] vs show ?case by (simp add: reads_def)
next
  case (G_Seq t)
  then obtain vs where vs: "x = V_Seq vs" "length vs < 2 ^ 31" "list_all (has_ty t) vs" by (auto split: gval.splits)
  have "list_all (\<lambda>v. reads (\<lambda>s. ReadObject ops be t False s) (no_strings t) (enc be False v) v) vs"
    using vs(3) G_Seq by (auto simp: list_all_iff)
  from reads_seq [OF vs(2) this, of be V_Seq] vs(1) show ?case by (simp add: reads_def encs_concat)
next
  case (G_Set t)
  then obtain vs where vs: "x = V_Set vs" "length vs < 2 ^ 31" "distinct vs" "list_all (has_ty t) vs" by (auto split: gval.splits)
  have "list_all (\<lambda>v. reads (\<lambda>s. ReadObject ops be t False s) (no_strings t) (enc be False v) v) vs"
    using vs(4) G_Set by (auto simp: list_all_iff)
  from reads_seq [OF vs(2) this, of be "\<lambda>vs. V_Set (foldl set_insert [] vs)"] vs(1) show ?case
    using foldl_set_insert [of "[]" vs] vs(3) by (simp add: reads_def encs_concat)
next
  case (G_Array n t)
  then obtain vs where vs: "x = V_Array vs" "length vs = n" "list_all (has_ty t) vs" by (auto split: gval.splits)
  have "list_all (\<lambda>v. reads (\<lambda>s. ReadObject ops be t False s) (no_strings t) (enc be False v) v) vs"
    using vs(3) G_Array by (auto simp: list_all_iff)
  from reads_map [OF reads_times [OF this], of V_Array] vs(1,2) show ?case by (simp add: reads_def encs_concat)
next
  case (G_Map k v)
  then obtain kvs where kvs: "x = V_Map kvs" "length kvs < 2 ^ 31" "distinct (map fst kvs)"
    "list_all (\<lambda>kv. has_ty k (fst kv) \<and> has_ty v (snd kv)) kvs" by (auto split: gval.splits)
  have "list_all (\<lambda>kv. reads (\<lambda>s. ebind (ReadObject ops be k True s) (\<lambda>(x, s1).
      ebind (ReadObject ops be v True s1) (\<lambda>(y, s2). Inr ((x, y), s2))))
      (no_strings k \<and> no_strings v) (enc be True (fst kv) @ enc be True (snd kv)) kv) kvs"
    using kvs(4) G_Map reads_pair [of be k _ v _ Pair] by (auto simp: list_all_iff)
  from reads_seq [OF kvs(2) this, of be "\<lambda>kvs. V_Map (foldl map_insert [] kvs)"] G_Map.prems(2) show ?case
    using foldl_map_insert [of "[]" kvs] kvs(1,3) by (simp add: reads_def enc_kvs_concat)
next
  case (G_Pair k v)
  then obtain y z where x: "x = V_Pair y z" "has_ty k y" "has_ty v z" by (auto split: gval.splits)
  have f: "w" "r" "agree k True True" "agree v True True" using G_Pair.prems by auto
  from reads_pair [OF G_Pair.IH(1) [OF x(2) f(3)] G_Pair.IH(2) [OF x(3) f(4)], of V_Pair] x(1) f(1,2)
  show ?case by (simp add: reads_def)
qed

lemma reads_args:
  "args_ok supplied ts vs \<Longrightarrow> reads (get_tuple_elems ops be supplied ts) (list_all (\<lambda>t. supplied t \<noteq> None \<or> no_strings t) ts)
    (encs be True (sent_args supplied ts vs)) vs"
proof (induction ts arbitrary: vs)
  case Nil
  then show ?case using reads_return by (cases vs) (simp_all add: reads_def)
next
  case (Cons t ts)
  let ?ns = "list_all (\<lambda>t. supplied t \<noteq> None \<or> no_strings t) (t # ts)"
  obtain v vs' where vs: "vs = v # vs'" "args_ok supplied ts vs'" using Cons.prems by (cases vs) auto
  let ?rest = "\<lambda>x s1. ebind (get_tuple_elems ops be supplied ts s1) (\<lambda>(xs, s2). Inr (x # xs, s2))"
  have "reads (get_tuple_elems ops be supplied ts) ?ns (encs be True (sent_args supplied ts vs')) vs'"
    by (rule reads_weaken [OF Cons.IH [OF vs(2)]]) simp
  then have rest: "reads (?rest v) ?ns (encs be True (sent_args supplied ts vs')) (v # vs')" by (rule reads_map)
  show ?case
  proof (cases "supplied t")
    case (Some x)
    then have "v = x" using Cons.prems vs(1) by simp
    then show ?thesis using rest Some vs(1) by (simp add: reads_def)
  next
    case None
    then have "has_ty t v" "agree t True True" using Cons.prems vs(1) by auto
    then have "reads (ReadObject ops be t True) ?ns (enc be True v) v" by (rule reads_weaken [OF reads_object]) (use None in simp)
    from reads_bind [where g = ?rest, OF this rest] show ?thesis using None vs(1) by (simp add: reads_def)
  qed
qed

lemma read_times_fixed: "f s = Inr (v, s) \<Longrightarrow> read_times n f s = Inr (replicate n v, s)"
  by (induction n) simp_all

lemma read_tuple_fixed:
  "(\<And>t. t \<in> set ts \<Longrightarrow> ReadObject ops be t r s = Inr (g t, s)) \<Longrightarrow> ReadTuple ops be ts r s = Inr (map g ts, s)"
  by (induction ts) auto

lemma read_object_absent:
  assumes "invar s" "content s = []"
  shows "ReadObject ops be ty r s = Inr (absent r ty, s)"
proof (induction ty arbitrary: r)
  case (G_Num n)
  show ?case
  proof (cases "n = 0")
    case True
    then show ?thesis using read_zero [OF assms(1)] by simp
  next
    case False
    then show ?thesis using read_short [OF assms(1), of n] assms(2) by simp
  qed
qed (use assms read_short [OF assms(1), of 4] read_short [OF assms(1), of 1] read_string_short [OF assms(1)] in
    \<open>auto simp: read_array_size_def gos_ntoh_zero read_times_fixed read_tuple_fixed\<close>)

end

section \<open>Over the memory stream\<close>

definition ms_room :: "mstream \<times> heap \<Rightarrow> nat \<Rightarrow> bool" where
  "ms_room sh n \<longleftrightarrow> (wr_pos (fst sh) + int n) * 2 < 2 ^ 31"

lemma ms_write_string_room:
  assumes "ms_wf s h" "(wr_pos s + (int (length str) + 2)) * 2 < 2 ^ 31"
  shows "\<exists>s' h'. ms_write_string junk str s h = Inr (s', h') \<and> ms_wf s' h' \<and>
    ms_content s' h' = ms_content s h @ short_image (int (length str)) @ str \<and> wr_pos s' = wr_pos s + (int (length str) + 2)"
proof -
  obtain s' h' where w: "ms_write_string junk str s h = Inr (s', h')" "ms_wf s' h'" "rd_pos s' = rd_pos s"
    "ms_content s' h' = ms_content s h @ short_image (int (length str)) @ str"
    using ms_write_string_ok [OF assms] by blast
  have "ms_length s' = ms_length s + (int (length str) + 2)"
    using length_ms_content [OF w(2)] length_ms_content [OF assms(1)] w(4) by simp
  then have "wr_pos s' = wr_pos s + (int (length str) + 2)"
    using w(2,3) assms(1) by (auto simp: ms_length_def ms_wf_def split: if_splits)
  with w show ?thesis by blast
qed

lemma ms_read_string_queue:
  assumes "ms_wf s h" "ms_content s h = short_image (int (length str)) @ str @ rest" "rest \<noteq> []"
    "length str < 32768" "0 \<notin> set str"
  shows "\<exists>s'. ms_read_string s h = Inr (Some str, s', h) \<and> ms_wf s' h \<and> ms_content s' h = rest"
proof -
  let ?n = "2 + length str" and ?s = "s\<lparr>rd_pos := rd_pos s + 2 + int (length str)\<rparr>"
  have len: "wr_pos s - rd_pos s = int (?n + length rest)" "wr_pos s \<le> data_size s"
    using length_ms_content [OF assms(1)] assms(1,2) by (auto simp: ms_length_def ms_wf_def split: if_splits)
  then have lt: "rd_pos s + 2 + int (length str) < wr_pos s" using assms(3) by (cases rest) auto
  have q: "ms_wf ?s h" "ms_content ?s h = rest"
    using ms_read_value_ok [OF assms(1), of "int ?n" ?n] assms(2) by (simp_all add: algebra_simps)
  show ?thesis
  proof (cases "str = []")
    case True
    have "mem_load (ptr_add (ms_data s) (rd_pos s)) 2 h = Inr (short_image 0)"
      using ms_read_value_ok [OF assms(1), of 2 2] assms(2) True lt
      by (auto simp: ms_read_value_def ebind_Inr_iff)
    then have "ms_read_string s h = Inr (Some [], s\<lparr>rd_pos := rd_pos s + 2\<rparr>, h)"
      using lt True sint_short_image [of 0] by (simp add: ms_read_string_def)
    then show ?thesis using q True by simp
  next
    case False
    then show ?thesis using ms_read_string_at [OF assms(1,2) False assms(4,5)] q lt len(2) by auto
  qed
qed

lemma alloc_type_frames:
  "ms_put xs s h = Inr (s', h') \<Longrightarrow> alloc_type s' = alloc_type s"
  "ms_check_space junk len s h = Inr (s', h') \<Longrightarrow> alloc_type s' = alloc_type s"
  "ms_read_value n s h = Inr (r, s') \<Longrightarrow> alloc_type s' = alloc_type s"
  "ms_read_string s h = Inr (q, s', h') \<Longrightarrow> alloc_type s' = alloc_type s"
  by (auto simp: ms_put_def ms_check_space_def MALLOC_MP_def ms_read_value_def ms_read_string_def Let_def ebind_Inr_iff
      split: if_splits)

lemma alloc_type_write:
  "ms_write_value junk xs s h = Inr (s', h') \<Longrightarrow> alloc_type s' = alloc_type s"
  "ms_write_string junk xs s h = Inr (s', h') \<Longrightarrow> alloc_type s' = alloc_type s"
  by (auto simp: ms_write_value_def ms_write_string_def Let_def ebind_Inr_iff dest!: alloc_type_frames)

definition ms_inv :: "int \<Rightarrow> mstream \<times> heap \<Rightarrow> bool" where
  "ms_inv a sh \<longleftrightarrow> ms_wf (fst sh) (snd sh) \<and> alloc_type (fst sh) = a"

interpretation msg: gos_stream "ms_ops junk" "ms_inv a" "\<lambda>(s, h). ms_content s h" ms_room for junk a
proof (unfold_locales, goal_cases)
  case (1 sh xs n)
  then show ?case using ms_write_value_ok [of "fst sh" "snd sh" xs junk]
    by (fastforce simp: ms_inv_def ms_ops_def ms_room_def dest: alloc_type_write split: prod.splits)
next
  case (2 sh str n)
  then show ?case using ms_write_string_room [of "fst sh" "snd sh" str junk]
    by (fastforce simp: ms_inv_def ms_ops_def ms_room_def dest: alloc_type_write split: prod.splits)
next
  case (3 sh xs rest)
  then show ?case using ms_read_value_ok [of "fst sh" "snd sh" "int (length xs)" "length xs"]
    by (auto simp: ms_inv_def ms_ops_def split: prod.splits)
next
  case (4 sh n)
  then show ?case using ms_read_value_ok [of "fst sh" "snd sh" "int n" n]
    by (auto simp: ms_inv_def ms_ops_def split: prod.splits)
next
  case (5 sh)
  then show ?case using ms_read_value_ok [of "fst sh" "snd sh" 0 0] by (auto simp: ms_inv_def ms_ops_def split: prod.splits)
next
  case (6 sh str rest)
  then show ?case using ms_read_string_queue [of "fst sh" "snd sh" str rest]
    by (auto simp: ms_inv_def ms_ops_def dest: alloc_type_frames split: prod.splits)
next
  case (7 sh)
  obtain s h where sh: "sh = (s, h)" by (cases sh)
  with 7 have "ms_length s \<le> 2" using length_ms_content [of s h] by (simp add: ms_inv_def)
  then have "wr_pos s \<le> rd_pos s + 2" by (simp add: ms_length_def split: if_splits)
  then show ?case by (simp add: sh ms_ops_def ms_read_string_def)
qed

text \<open>The facts of the library for the memory stream, with the pairs taken apart.\<close>

lemma ms_serialize:
  assumes "ms_wf s h" "(wr_pos s + int (length (enc be True v) + n)) * 2 < 2 ^ 31"
  shows "\<exists>s1 h1. Serialize (ms_ops junk) be v (s, h) = Inr (s1, h1) \<and> ms_wf s1 h1 \<and>
    ms_content s1 h1 = ms_content s h @ enc be True v \<and> ms_room (s1, h1) n"
proof -
  from assms have "ms_inv (alloc_type s) (s, h)" "ms_room (s, h) (length (enc be True v) + n)"
    by (simp_all add: ms_inv_def ms_room_def)
  from msg.appendsD [OF msg.appends_object(1) [of _ junk be True v] this] obtain sh1 where
    "WriteObject (ms_ops junk) be True v (s, h) = Inr sh1" "ms_inv (alloc_type s) sh1"
    "(case sh1 of (s, h) \<Rightarrow> ms_content s h) = ms_content s h @ enc be True v" "ms_room sh1 n" by auto
  then show ?thesis by (cases sh1) (simp add: ms_inv_def Serialize_def)
qed

lemma ms_deserialize:
  assumes "ms_wf s h" "ms_content s h = enc be True v @ rest" "has_ty ty v" "agree ty True True" "no_strings ty \<or> rest \<noteq> []"
  shows "\<exists>s1 h1. DeSerialize (ms_ops junk) be ty (s, h) = Inr (v, s1, h1) \<and> ms_wf s1 h1 \<and> ms_content s1 h1 = rest \<and>
    alloc_type s1 = alloc_type s"
proof -
  have "ms_inv (alloc_type s) (s, h)" "(case (s, h) of (s, h) \<Rightarrow> ms_content s h) = enc be True v @ rest"
    using assms by (simp_all add: ms_inv_def)
  from msg.readsD [OF msg.reads_object [OF assms(3,4), of _ junk be] this assms(5)] obtain sh1 where
    "ReadObject (ms_ops junk) be ty True (s, h) = Inr (v, sh1)" "ms_inv (alloc_type s) sh1"
    "(case sh1 of (s, h) \<Rightarrow> ms_content s h) = rest" .
  then show ?thesis by (cases sh1) (simp add: ms_inv_def DeSerialize_def)
qed

section \<open>Properties\<close>

text \<open>A value written to a stream is read back from it, for every type built from numbers, strings,
  optionals, structures, tuples, sequences, arrays, maps and pairs: the reader returns the value and
  leaves what was written after it. The value has to fit the format, the type must not hold a map or a pair whose
  keys one side leaves out, and, unless the type has no strings, something has to follow.\<close>

theorem serialize_roundtrip:
  assumes "ms_wf s h" "ms_content s h = []" "has_ty ty v" "agree ty True True" "no_strings ty \<or> rest \<noteq> []"
    "(wr_pos s + int (length (enc be True v) + length rest)) * 2 < 2 ^ 31"
  shows "\<exists>sh1 sh2 s3 h3. Serialize (ms_ops junk) be v (s, h) = Inr sh1 \<and> op_write (ms_ops junk) rest sh1 = Inr sh2 \<and>
    DeSerialize (ms_ops junk) be ty sh2 = Inr (v, s3, h3) \<and> ms_wf s3 h3 \<and> ms_content s3 h3 = rest"
proof -
  obtain s1 h1 where 1: "Serialize (ms_ops junk) be v (s, h) = Inr (s1, h1)" "ms_wf s1 h1"
    "ms_content s1 h1 = enc be True v" "ms_room (s1, h1) (length rest)"
    using ms_serialize [OF assms(1,6), of junk] assms(2) by auto
  obtain s2 h2 where 2: "op_write (ms_ops junk) rest (s1, h1) = Inr (s2, h2)" "ms_wf s2 h2" "ms_content s2 h2 = enc be True v @ rest"
    using ms_write_value_ok [OF 1(2), of rest junk] 1(3,4) by (auto simp: ms_room_def ms_ops_def)
  from ms_deserialize [OF 2(2,3) assms(3-5), of junk] 1(1) 2(1) show ?thesis by blast
qed

definition sample_ty :: gty where
  "sample_ty = G_Struct [G_Num 4, G_Str, G_Opt (G_Num 1), G_Map G_Str (G_Seq (G_Num 2))]"

definition sample_val :: gval where
  "sample_val = V_Struct [V_Num [1, 2, 3, 4], V_Str [104, 105], V_Opt (Some (V_Num [9])),
     V_Map [(V_Str [97], V_Seq [V_Num [1, 0], V_Num [2, 0]]), (V_Str [98], V_Seq [])]]"

lemma length_enc_sample: "length (enc be True sample_val) = 32"
  by (simp add: sample_val_def)

theorem serialize_roundtrip_witness:
  "\<exists>s h sh1 sh2 s3 h3. ms_new (\<lambda>_. 0) 16 empty_heap = (s, h) \<and>
     Serialize (ms_ops (\<lambda>_. 0)) True sample_val (s, h) = Inr sh1 \<and> op_write (ms_ops (\<lambda>_. 0)) [42] sh1 = Inr sh2 \<and>
     DeSerialize (ms_ops (\<lambda>_. 0)) True sample_ty sh2 = Inr (sample_val, s3, h3) \<and> ms_content s3 h3 = [42]"
proof -
  obtain s h where new: "ms_new (\<lambda>_. 0) 16 empty_heap = (s, h)" by fastforce
  from ms_new_ok [OF heap_ok_empty _ new] have s: "ms_wf s h" "ms_content s h = []" "wr_pos s = 0" by simp_all
  have t: "has_ty sample_ty sample_val" "agree sample_ty True True" by (simp_all add: sample_ty_def sample_val_def)
  from serialize_roundtrip [OF s(1,2) t, of "[42]" True "\<lambda>_. 0"] s(3) length_enc_sample [of True] new show ?thesis by auto
qed

lemma wrap_ok:
  assumes "heap_ok h" "blocks h b = Some bs"
  shows "\<exists>s. ms_wrap junk (Some (b, 0)) (int (length bs)) 0 h = Inr (s, h) \<and> ms_wf s h \<and> ms_content s h = bs"
  using assms by (simp add: ms_wrap_def ms_wf_def ms_content_def ms_block_def)

lemma wf_stream_load:
  assumes "ms_wf s h"
  shows "mem_load (ms_data_ptr s) (ms_length s) h = Inr (ms_content s h)"
proof -
  have "ms_read_value (ms_length s) s h = Inr (Some (ms_content s h), s\<lparr>rd_pos := rd_pos s + ms_length s\<rparr>)"
    using ms_read_value_ok [OF assms, of "ms_length s" "length (ms_content s h)"] length_ms_content [OF assms] by simp
  then show ?thesis using assms
    by (auto simp: ms_read_value_def ebind_Inr_iff ms_data_ptr_def ms_rd_ptr_def ms_wf_def split: if_splits)
qed

text \<open>(C18) Packing and unpacking. Take a value that fits its type as modelled here (numbers, strings, optionals, structures,
  tuples, sequences, sets, arrays, maps and pairs): strings are shorter than 32768 bytes and hold no zero byte, counts are below
  \<open>2 ^ 31\<close>, maps have each key and sets each element once, and the type holds no map or pair whose keys one of the two sides leaves out (\<open>agree\<close>),
  nor is it empty. If its encoding is shorter than \<open>2 ^ 30\<close> bytes, packing succeeds and yields a buffer with exactly the encoded bytes;
  and a receiver that unpacks a block that starts with these bytes, as the same type, gets the value back, if the type has no
  strings or the block holds at least one byte behind them. A block that ends with a string is excluded, and
  \<open>trailing_string_faults\<close> shows why.\<close>

theorem gos_pack_unpack:
  assumes "heap_ok h" "has_ty ty v" "agree ty True True" "tuple_total_size ty \<noteq> 0"
    "int (length (enc be True v)) * 2 < 2 ^ 31"
    "heap_ok h'" "blocks h' b = Some (enc be True v @ rest)" "no_strings ty \<or> rest \<noteq> []"
  shows "\<exists>buf h1 h2. gos_pack junk be ty v h = Inr (buf, h1) \<and>
    mem_load (buf_data buf) (buf_size buf) h1 = Inr (enc be True v) \<and>
    gos_unpack junk be ty (Some (b, 0)) (int (length (enc be True v @ rest))) h' = Inr (v, h2)"
proof -
  let ?n = "if tuple_total_size ty < 0 then ms_default_size else tuple_total_size ty"
  obtain s h0 where new: "ms_new junk ?n h = (s, h0)" by fastforce
  have "0 < ?n" using assms(4) by (simp add: ms_default_size_def)
  from ms_new_ok [OF assms(1) this new] have s: "ms_wf s h0" "ms_content s h0 = []" "wr_pos s = 0" by simp_all
  obtain s1 h1 where 1: "Serialize (ms_ops junk) be v (s, h0) = Inr (s1, h1)" "ms_wf s1 h1" "ms_content s1 h1 = enc be True v"
    using ms_serialize [OF s(1), of be v 0 junk] s(2,3) assms(5) by auto
  have pack: "gos_pack junk be ty v h = Inr (fst (gb_of_stream s1), h1)"
    using assms(4) new 1(1) by (simp add: gos_pack_def Let_def gb_of_stream_def ms_destroy_def ms_set_alloc_type_def)
  obtain s2 where 2: "ms_wrap junk (Some (b, 0)) (int (length (enc be True v @ rest))) 0 h' = Inr (s2, h')" "ms_wf s2 h'"
    "ms_content s2 h' = enc be True v @ rest" "alloc_type s2 = 0"
    using wrap_ok [OF assms(6,7)] by (auto simp: ms_wrap_def)
  obtain s3 h3 where "DeSerialize (ms_ops junk) be ty (s2, h') = Inr (v, s3, h3)" "alloc_type s3 = 0"
    using ms_deserialize [OF 2(2,3) assms(2,3,8), of junk] 2(4) by auto
  then have "gos_unpack junk be ty (Some (b, 0)) (int (length (enc be True v @ rest))) h' = Inr (v, h3)"
    using 2(1) by (simp add: gos_unpack_def ms_destroy_def)
  with pack show ?thesis using wf_stream_load [OF 1(2)] 1(3) by (auto simp: gb_of_stream_def)
qed

theorem gos_pack_unpack_witness:
  "\<exists>buf h1 h2. gos_pack (\<lambda>_. 0) True sample_ty sample_val empty_heap = Inr (buf, h1) \<and>
     mem_load (buf_data buf) (buf_size buf) h1 = Inr (enc True True sample_val) \<and>
     gos_unpack (\<lambda>_. 0) True sample_ty (Some (0, 0)) 33
       \<lparr>blocks = [0 \<mapsto> enc True True sample_val @ [42]], next_block = 1\<rparr> = Inr (sample_val, h2)"
proof -
  let ?h = "\<lparr>blocks = [0 \<mapsto> enc True True sample_val @ [42]], next_block = 1\<rparr>"
  have h: "heap_ok ?h" "blocks ?h 0 = Some (enc True True sample_val @ [42])" by (simp_all add: heap_ok_def)
  have t: "has_ty sample_ty sample_val" "agree sample_ty True True" "tuple_total_size sample_ty \<noteq> 0"
    by (simp_all add: sample_ty_def sample_val_def)
  from gos_pack_unpack [OF heap_ok_empty t _ h, of "\<lambda>_. 0"] show ?thesis by (simp add: length_enc_sample)
qed

text \<open>Unpacking a block that ends exactly with a string faults: \<open>read_string\<close> saves, overwrites and restores the byte
  behind the string, which is not in the block.\<close>

theorem trailing_string_faults:
  assumes "heap_ok h" "blocks h b = Some (enc be True (V_Str str))" "str \<noteq> []" "length str < 32768" "0 \<notin> set str"
  shows "gos_unpack junk be G_Str (Some (b, 0)) (int (length (enc be True (V_Str str)))) h = Inl Bad_Access"
proof -
  obtain s where w: "ms_wrap junk (Some (b, 0)) (int (length (enc be True (V_Str str)))) 0 h = Inr (s, h)" "ms_wf s h"
    "ms_content s h = enc be True (V_Str str)" using wrap_ok [OF assms(1,2)] by blast
  have d: "rd_pos s = 0" "data_size s = int (length (enc be True (V_Str str)))" using w(1) assms(2) by (auto simp: ms_wrap_def)
  have "ms_read_string s h = Inl Bad_Access"
    using ms_read_string_at [OF w(2) _ assms(3-5), of "[]"] w(3) d by simp
  then show ?thesis by (simp only: gos_unpack_def w(1)) (simp add: DeSerialize_def ms_ops_def)
qed

theorem trailing_string_faults_witness:
  "gos_unpack (\<lambda>_. 0) True G_Str (Some (0, 0)) 4 \<lparr>blocks = [0 \<mapsto> enc True True (V_Str [104, 105])], next_block = 1\<rparr> = Inl Bad_Access"
  using trailing_string_faults [of "\<lparr>blocks = [0 \<mapsto> enc True True (V_Str [104, 105])], next_block = 1\<rparr>" 0 True "[104, 105]" "\<lambda>_. 0"]
  by (simp add: heap_ok_def)

text \<open>(C22) The arguments of a call arrive: a receiver that unpacks a block which starts with the bytes of the arguments the sender
  transferred, with values of its own supplied for the others, gets the whole argument tuple, the supplied values in their
  places. The transferred arguments have to fit their types under the conditions of \<open>gos_pack_unpack\<close> (strings shorter than 32768
  bytes without a zero byte, no keys that one side leaves out), and unless none of them has strings, at least one byte has to follow
  them in the block.\<close>

theorem call_arguments_arrive:
  assumes "heap_ok h" "args_ok supplied ts vs" "blocks h b = Some (enc be True (V_Tuple (sent_args supplied ts vs)) @ rest)"
    "list_all (\<lambda>t. supplied t \<noteq> None \<or> no_strings t) ts \<or> rest \<noteq> []"
  shows "\<exists>h1. gos_unpack_args junk be supplied ts (Some (b, 0))
    (int (length (enc be True (V_Tuple (sent_args supplied ts vs)) @ rest))) h = Inr (V_Tuple vs, h1)"
proof -
  let ?bs = "enc be True (V_Tuple (sent_args supplied ts vs)) @ rest"
  obtain s where w: "ms_wrap junk (Some (b, 0)) (int (length ?bs)) 0 h = Inr (s, h)" "ms_inv 0 (s, h)" "ms_content s h = ?bs"
    using wrap_ok [OF assms(1,3)] by (auto simp: ms_wrap_def ms_inv_def)
  have "(case (s, h) of (s, h) \<Rightarrow> ms_content s h) = encs be True (sent_args supplied ts vs) @ rest" using w(3) by simp
  from msg.readsD [OF msg.reads_args [OF assms(2), of 0 junk be] w(2) this assms(4)] obtain sh1 where
    r: "get_tuple_elems (ms_ops junk) be supplied ts (s, h) = Inr (vs, sh1)" "ms_inv 0 sh1" .
  then show ?thesis using w(1) by (cases sh1) (simp add: gos_unpack_args_def GetTuple_def ms_inv_def ms_destroy_def)
qed

theorem call_arguments_arrive_witness:
  "\<exists>h1. gos_unpack_args (\<lambda>_. 0) True (\<lambda>t. if t = G_Str then Some (V_Str [7]) else None) [G_Str, G_Num 2] (Some (0, 0)) 2
     \<lparr>blocks = [0 \<mapsto> [1, 2]], next_block = 1\<rparr> = Inr (V_Tuple [V_Str [7], V_Num [1, 2]], h1)"
  using call_arguments_arrive [of "\<lparr>blocks = [0 \<mapsto> [1, 2]], next_block = 1\<rparr>" "\<lambda>t. if t = G_Str then Some (V_Str [7]) else None"
      "[G_Str, G_Num 2]" "[V_Str [7], V_Num [1, 2]]" 0 True "[]" "\<lambda>_. 0"]
  by (simp add: heap_ok_def)

text \<open>A message that is too short is not an error: from a stream with nothing in it every type is
  read, with zeros for numbers, empty strings and containers, and every optional present.\<close>

theorem empty_message_accepted:
  assumes "ms_wf s h" "ms_content s h = []"
  shows "DeSerialize (ms_ops junk) be ty (s, h) = Inr (absent True ty, s, h)"
  using msg.read_object_absent [of "alloc_type s" "(s, h)" junk be ty True] assms
  by (simp add: ms_inv_def DeSerialize_def)

theorem empty_message_accepted_witness:
  "\<exists>s h. ms_new (\<lambda>_. 0) 16 empty_heap = (s, h) \<and>
     DeSerialize (ms_ops (\<lambda>_. 0)) True sample_ty (s, h) =
       Inr (V_Struct [V_Num [0, 0, 0, 0], V_Str [], V_Opt (Some (V_Num [0])), V_Map []], s, h)"
proof -
  obtain s h where new: "ms_new (\<lambda>_. 0) 16 empty_heap = (s, h)" by fastforce
  from ms_new_ok [OF heap_ok_empty _ new] have s: "ms_wf s h" "ms_content s h = []" by simp_all
  have "absent True sample_ty = V_Struct [V_Num [0, 0, 0, 0], V_Str [], V_Opt (Some (V_Num [0])), V_Map []]"
    by (simp add: sample_ty_def numeral_eq_Suc)
  with empty_message_accepted [OF s, of "\<lambda>_. 0" True sample_ty] new show ?thesis by auto
qed

lemma WriteElements_append:
  "WriteElements ops be bo (xs @ ys) s = ebind (WriteElements ops be bo xs s) (\<lambda>s1. WriteElements ops be bo ys s1)"
  by (induction xs arbitrary: s) (auto simp: ebind_def split: sum.splits)

lemma WriteKVs_keys_lost: "map snd kvs = map snd lvs \<Longrightarrow> WriteKVs ops be False kvs = WriteKVs ops be False lvs"
proof (induction kvs arbitrary: lvs)
  case (Cons kv kvs)
  then obtain l lvs' where lvs: "lvs = (l, snd kv) # lvs'" "map snd kvs = map snd lvs'" by (cases lvs) auto
  then show ?case using Cons.IH [OF lvs(2)] by (cases kv) (intro ext, simp)
qed simp

text \<open>The keys of a map inside a sequence are not transferred: sequences that differ in them only are
  written as the same bytes, on every stream, so no reader can tell them apart.\<close>

theorem sequence_keys_lost:
  assumes "map snd kvs = map snd lvs"
  shows "WriteObject ops be bo (V_Seq (pre @ V_Map kvs # post)) s = WriteObject ops be bo (V_Seq (pre @ V_Map lvs # post)) s"
proof -
  have "length kvs = length lvs" using assms by (metis length_map)
  then have "WriteElements ops be False (V_Map kvs # post) = WriteElements ops be False (V_Map lvs # post)"
    using WriteKVs_keys_lost [OF assms, of ops be] by (intro ext) simp
  then have "WriteElements ops be False (pre @ V_Map kvs # post) = WriteElements ops be False (pre @ V_Map lvs # post)"
    by (intro ext) (simp only: WriteElements_append)
  then show ?thesis by simp
qed

theorem sequence_keys_lost_witness:
  "\<forall>s. WriteObject (ms_ops (\<lambda>_. 0)) False True (V_Seq [V_Map [(V_Str [97], V_Num [1])]]) s =
   WriteObject (ms_ops (\<lambda>_. 0)) False True (V_Seq [V_Map [(V_Str [98], V_Num [1])]]) s"
  using sequence_keys_lost [of "[(V_Str [97], V_Num [1])]" "[(V_Str [98], V_Num [1])]" "ms_ops (\<lambda>_. 0)" False True "[]" "[]"] by simp

lemma length_encs_sum:
  assumes "\<And>v. v \<in> set vs \<Longrightarrow> int (length (enc be w v)) = n"
  shows "int (length (encs be w vs)) = n * int (length vs)"
  using assms by (induction vs) (auto simp: algebra_simps)

text \<open>A type whose size is fixed is written in exactly that many bytes, so that the stream a message is
  packed into, created with that size, is filled and never grows.\<close>

theorem fixed_size_exact:
  assumes "has_ty ty v" "agree ty w r" "0 \<le> tuple_total_size ty"
  shows "int (length (enc be w v)) = tuple_total_size ty"
  using assms
proof (induction ty arbitrary: v w r)
  case (G_Struct ts)
  have "have_tys ts vs \<Longrightarrow> list_all (\<lambda>t. agree t True True) ts \<Longrightarrow> 0 \<le> total_sizes ts \<Longrightarrow>
      int (length (encs be True vs)) = total_sizes ts" for vs
    using G_Struct.IH by (induction ts arbitrary: vs) (auto split: list.splits if_splits)
  then show ?case using G_Struct.prems by (auto split: gval.splits)
next
  case (G_Tuple ts)
  have "have_tys ts vs \<Longrightarrow> list_all (\<lambda>t. agree t w False) ts \<Longrightarrow> 0 \<le> total_sizes ts \<Longrightarrow>
      int (length (encs be w vs)) = total_sizes ts" for vs
    using G_Tuple.IH by (induction ts arbitrary: vs) (auto split: list.splits if_splits)
  then show ?case using G_Tuple.prems by (auto split: gval.splits)
next
  case (G_Array n t)
  then show ?case using length_encs_sum [of _ be False "tuple_total_size t"] by (auto simp: list_all_iff split: gval.splits if_splits)
next
  case (G_Pair k v')
  then show ?case by (auto split: gval.splits if_splits)
qed (auto split: gval.splits)

theorem fixed_size_exact_witness:
  "int (length (enc False True (V_Struct [V_Num [1, 2, 3, 4], V_Array [V_Num [1, 0], V_Num [2, 0]]]))) = 8"
  using fixed_size_exact [of "G_Struct [G_Num 4, G_Array 2 (G_Num 2)]"
      "V_Struct [V_Num [1, 2, 3, 4], V_Array [V_Num [1, 0], V_Num [2, 0]]]" True True False] by simp

end
