(* ===== verification/Signals.thy ===== *)
theory Signals
  imports Prelude
begin

text \<open>
  The callback lists of the message bus, \<open>ProtoSignal\<close> of \<open>src/network/msgbus/msg_signal.hpp\<close>: a doubly
  linked ring of reference-counted links on a store of links. A pointer is an address or null; the address
  a new link gets is an argument (the store may use an address again once its link is deleted). Following a null
  pointer or one to a deleted link and a failing \<open>assert\<close> are errors. A callback is run by the
  parameter \<open>call\<close>, which may change the signal, as callbacks may connect and disconnect. The ring refines the list
  of its handlers.
\<close>

section \<open>Model\<close>

datatype sig_error = Null_Pointer | Dangling_Pointer | Assertion_Failed

record 'f link =
  lk_next :: "nat option"
  lk_prev :: "nat option"
  lk_function :: "'f option"
  ref_count :: int

record 'f signal =
  callback_ring :: "nat option"
  links :: "nat \<Rightarrow> 'f link option"

definition deref :: "nat option \<Rightarrow> 'f signal \<Rightarrow> sig_error + (nat \<times> 'f link)" where
  "deref p sg =
     (case p of None \<Rightarrow> Inl Null_Pointer
      | Some a \<Rightarrow> (case links sg a of None \<Rightarrow> Inl Dangling_Pointer | Some l \<Rightarrow> Inr (a, l)))"

definition put_link :: "nat \<Rightarrow> 'f link \<Rightarrow> 'f signal \<Rightarrow> 'f signal" where
  "put_link a l sg = sg\<lparr>links := (links sg)(a \<mapsto> l)\<rparr>"

definition delete_link :: "nat \<Rightarrow> 'f signal \<Rightarrow> 'f signal" where
  "delete_link a sg = sg\<lparr>links := (links sg)(a := None)\<rparr>"

subsection \<open>Links\<close>

definition new_link :: "'f option \<Rightarrow> 'f link" where
  "new_link cbf = \<lparr>lk_next = None, lk_prev = None, lk_function = cbf, ref_count = 1\<rparr>"

definition incref :: "nat option \<Rightarrow> 'f signal \<Rightarrow> sig_error + 'f signal" where
  "incref p sg =
     ebind (deref p sg) (\<lambda>(a, l).
     let n = ref_count l + 1
     in if n > 0 then Inr (put_link a (l\<lparr>ref_count := n\<rparr>) sg) else Inl Assertion_Failed)"

definition decref :: "nat option \<Rightarrow> 'f signal \<Rightarrow> sig_error + 'f signal" where
  "decref p sg =
     ebind (deref p sg) (\<lambda>(a, l).
     let n = ref_count l - 1
     in if n = 0 then Inr (delete_link a sg)
        else if n > 0 then Inr (put_link a (l\<lparr>ref_count := n\<rparr>) sg) else Inl Assertion_Failed)"

definition set_prev :: "nat option \<Rightarrow> nat option \<Rightarrow> 'f signal \<Rightarrow> sig_error + 'f signal" where
  "set_prev p v sg = ebind (deref p sg) (\<lambda>(a, l). Inr (put_link a (l\<lparr>lk_prev := v\<rparr>) sg))"

definition set_next :: "nat option \<Rightarrow> nat option \<Rightarrow> 'f signal \<Rightarrow> sig_error + 'f signal" where
  "set_next p v sg = ebind (deref p sg) (\<lambda>(a, l). Inr (put_link a (l\<lparr>lk_next := v\<rparr>) sg))"

definition unlink :: "nat option \<Rightarrow> 'f signal \<Rightarrow> sig_error + 'f signal" where
  "unlink p sg =
     ebind (deref p sg) (\<lambda>(a, l).
     ebind (let sg1 = put_link a (l\<lparr>lk_function := None\<rparr>) sg
            in if lk_next l \<noteq> None then set_prev (lk_next l) (lk_prev l) sg1 else Inr sg1) (\<lambda>sg2.
     ebind (if lk_prev l \<noteq> None then set_next (lk_prev l) (lk_next l) sg2 else Inr sg2) (\<lambda>sg3.
     decref (Some a) sg3)))"

definition add_before :: "nat \<Rightarrow> nat option \<Rightarrow> 'f \<Rightarrow> 'f signal \<Rightarrow> sig_error + (nat \<times> 'f signal)" where
  "add_before addr this cb sg =
     ebind (deref this sg) (\<lambda>(a, l).
     let sg1 = put_link addr ((new_link (Some cb))\<lparr>lk_prev := lk_prev l, lk_next := Some a\<rparr>) sg
     in ebind (set_next (lk_prev l) (Some addr) sg1) (\<lambda>sg2.
        ebind (set_prev (Some a) (Some addr) sg2) (\<lambda>sg3. Inr (addr, sg3))))"

partial_function (option) remove_loop :: "nat \<Rightarrow> nat \<Rightarrow> nat option \<Rightarrow> 'f signal \<Rightarrow> (sig_error + (bool \<times> 'f signal)) option" where
  "remove_loop this i link sg =
     (if link = Some this then Some (Inr (False, sg))
      else if link = Some i then Some (ebind (unlink link sg) (\<lambda>sg1. Inr (True, sg1)))
      else (case deref link sg of Inl e \<Rightarrow> Some (Inl e) | Inr (a, l) \<Rightarrow> remove_loop this i (lk_next l) sg))"

definition remove_sibling :: "nat \<Rightarrow> nat \<Rightarrow> 'f signal \<Rightarrow> (sig_error + (bool \<times> 'f signal)) option" where
  "remove_sibling this i sg =
     (case deref (Some this) sg of Inl e \<Rightarrow> Some (Inl e)
      | Inr (a, l) \<Rightarrow> remove_loop this i (if lk_next l \<noteq> None then lk_next l else Some this) sg)"

subsection \<open>Signals\<close>

definition ensure_ring :: "nat \<Rightarrow> 'f signal \<Rightarrow> 'f signal" where
  "ensure_ring addr sg =
     (if callback_ring sg = None
      then put_link addr ((new_link None)\<lparr>ref_count := 2, lk_next := Some addr, lk_prev := Some addr\<rparr>)
             (sg\<lparr>callback_ring := Some addr\<rparr>)
      else sg)"

definition sig_new :: "nat \<Rightarrow> 'f option \<Rightarrow> 'f signal" where
  "sig_new addr cbf =
     (let sg = \<lparr>callback_ring = None, links = (\<lambda>_. None)\<rparr>
      in case cbf of None \<Rightarrow> sg
         | Some f \<Rightarrow> sg\<lparr>callback_ring := Some addr,
             links := [addr \<mapsto> (new_link (Some f))\<lparr>ref_count := 2, lk_next := Some addr, lk_prev := Some addr\<rparr>]\<rparr>)"

definition connect :: "nat \<Rightarrow> nat \<Rightarrow> 'f \<Rightarrow> 'f signal \<Rightarrow> sig_error + (nat \<times> 'f signal)" where
  "connect ring_addr addr cb sg = (let sg1 = ensure_ring ring_addr sg in add_before addr (callback_ring sg1) cb sg1)"

definition disconnect :: "nat \<Rightarrow> 'f signal \<Rightarrow> (sig_error + (bool \<times> 'f signal)) option" where
  "disconnect i sg =
     (case callback_ring sg of None \<Rightarrow> Some (Inr (False, sg)) | Some r \<Rightarrow> remove_sibling r i sg)"

text \<open>An emission: \<open>call\<close> runs a callback and says whether to go on; \<open>'e\<close> is what the callbacks and the
  collector work on.\<close>

type_synonym ('f, 'e) caller = "'f \<Rightarrow> 'e \<Rightarrow> 'f signal \<Rightarrow> sig_error + (bool \<times> 'e \<times> 'f signal)"

definition visit :: "('f, 'e) caller \<Rightarrow> nat option \<Rightarrow> 'e \<Rightarrow> 'f signal \<Rightarrow> sig_error + (bool \<times> 'e \<times> 'f signal)" where
  "visit call link e sg =
     ebind (deref link sg) (\<lambda>(a, l).
     case lk_function l of None \<Rightarrow> Inr (True, e, sg) | Some f \<Rightarrow> call f e sg)"

definition advance :: "nat option \<Rightarrow> 'f signal \<Rightarrow> sig_error + (nat option \<times> 'f signal)" where
  "advance old sg =
     ebind (deref old sg) (\<lambda>(a, l).
     ebind (incref (lk_next l) sg) (\<lambda>sg1.
     ebind (decref old sg1) (\<lambda>sg2. Inr (lk_next l, sg2))))"

partial_function (option) emit_loop :: "('f, 'e) caller \<Rightarrow> nat option \<Rightarrow> 'e \<Rightarrow> 'f signal \<Rightarrow> (sig_error + ('e \<times> 'f signal)) option" where
  "emit_loop call link e sg =
     (case visit call link e sg of Inl err \<Rightarrow> Some (Inl err)
      | Inr (go, e1, sg1) \<Rightarrow>
          if \<not> go then Some (ebind (decref link sg1) (\<lambda>sg2. Inr (e1, sg2)))
          else (case advance link sg1 of Inl err \<Rightarrow> Some (Inl err)
                | Inr (link', sg2) \<Rightarrow>
                    if link' \<noteq> callback_ring sg2 then emit_loop call link' e1 sg2
                    else Some (ebind (decref link' sg2) (\<lambda>sg3. Inr (e1, sg3)))))"

definition emit :: "('f, 'e) caller \<Rightarrow> 'e \<Rightarrow> 'f signal \<Rightarrow> (sig_error + ('e \<times> 'f signal)) option" where
  "emit call e sg =
     (if callback_ring sg = None then Some (Inr (e, sg))
      else (case incref (callback_ring sg) sg of Inl err \<Rightarrow> Some (Inl err)
            | Inr sg1 \<Rightarrow> emit_loop call (callback_ring sg1) e sg1))"

partial_function (option) size_loop :: "nat option \<Rightarrow> nat \<Rightarrow> 'f signal \<Rightarrow> (sig_error + (nat \<times> 'f signal)) option" where
  "size_loop link n sg =
     (case deref link sg of Inl err \<Rightarrow> Some (Inl err)
      | Inr (a, l) \<Rightarrow>
          (let n1 = (if lk_function l \<noteq> None then n + 1 else n)
           in case advance link sg of Inl err \<Rightarrow> Some (Inl err)
              | Inr (link', sg1) \<Rightarrow> if link' \<noteq> callback_ring sg1 then size_loop link' n1 sg1 else Some (Inr (n1, sg1))))"

definition sig_size :: "'f signal \<Rightarrow> (sig_error + (nat \<times> 'f signal)) option" where
  "sig_size sg =
     (case incref (callback_ring sg) sg of Inl err \<Rightarrow> Some (Inl err) | Inr sg1 \<Rightarrow> size_loop (callback_ring sg1) 0 sg1)"

partial_function (option) empty_loop :: "nat option \<Rightarrow> 'f signal \<Rightarrow> (sig_error + (bool \<times> 'f signal)) option" where
  "empty_loop link sg =
     (case deref link sg of Inl err \<Rightarrow> Some (Inl err)
      | Inr (a, l) \<Rightarrow>
          if lk_function l \<noteq> None then Some (Inr (False, sg))
          else (case advance link sg of Inl err \<Rightarrow> Some (Inl err)
                | Inr (link', sg1) \<Rightarrow> if link' \<noteq> callback_ring sg1 then empty_loop link' sg1 else Some (Inr (True, sg1))))"

definition sig_empty :: "'f signal \<Rightarrow> (sig_error + (bool \<times> 'f signal)) option" where
  "sig_empty sg =
     (case incref (callback_ring sg) sg of Inl err \<Rightarrow> Some (Inl err) | Inr sg1 \<Rightarrow> empty_loop (callback_ring sg1) sg1)"

partial_function (option) destroy_loop :: "nat \<Rightarrow> 'f signal \<Rightarrow> (sig_error + 'f signal) option" where
  "destroy_loop r sg =
     (case deref (Some r) sg of Inl err \<Rightarrow> Some (Inl err)
      | Inr (a, l) \<Rightarrow>
          if lk_next l = Some r then
            Some (if ref_count l \<ge> 2 then ebind (decref (Some r) sg) (decref (Some r)) else Inl Assertion_Failed)
          else (case unlink (lk_next l) sg of Inl err \<Rightarrow> Some (Inl err) | Inr sg1 \<Rightarrow> destroy_loop r sg1))"

definition sig_destroy :: "'f signal \<Rightarrow> (sig_error + 'f signal) option" where
  "sig_destroy sg = (case callback_ring sg of None \<Rightarrow> Some (Inr sg) | Some r \<Rightarrow> destroy_loop r sg)"

declare remove_loop.simps [code] emit_loop.simps [code] size_loop.simps [code] empty_loop.simps [code] destroy_loop.simps [code]

section \<open>The ring\<close>

type_synonym 'f store = "nat \<Rightarrow> 'f link option"

definition nxt :: "'f store \<Rightarrow> nat \<Rightarrow> nat option" where "nxt L a = Option.bind (L a) lk_next"
definition prv :: "'f store \<Rightarrow> nat \<Rightarrow> nat option" where "prv L a = Option.bind (L a) lk_prev"
definition fn :: "'f store \<Rightarrow> nat \<Rightarrow> 'f option" where "fn L a = Option.bind (L a) lk_function"
definition refs :: "'f store \<Rightarrow> nat \<Rightarrow> int" where "refs L a = (case L a of None \<Rightarrow> 0 | Some l \<Rightarrow> ref_count l)"

definition linked :: "'f store \<Rightarrow> nat \<Rightarrow> nat \<Rightarrow> bool" where
  "linked L a b \<longleftrightarrow> nxt L a = Some b \<and> prv L b = Some a"

primrec chain :: "'f store \<Rightarrow> nat \<Rightarrow> nat list \<Rightarrow> nat \<Rightarrow> bool" where
  "chain L a [] c = linked L a c"
| "chain L a (b # bs) c = (linked L a b \<and> chain L b bs c)"

lemma chain_append: "chain L a (xs @ x # ys) c \<longleftrightarrow> chain L a xs x \<and> chain L x ys c"
  by (induction xs arbitrary: a) auto

lemma chain_cong:
  "(\<And>x. x \<in> set (a # bs) \<Longrightarrow> nxt L' x = nxt L x) \<Longrightarrow> (\<And>x. x \<in> set (bs @ [c]) \<Longrightarrow> prv L' x = prv L x) \<Longrightarrow>
    chain L' a bs c \<longleftrightarrow> chain L a bs c"
  by (induction bs arbitrary: a) (auto simp: linked_def)

lemma chain_ends:
  assumes "chain L a bs c"
  shows "nxt L a = Some (hd (bs @ [c]))" "prv L c = Some (last (a # bs))"
proof -
  show "nxt L a = Some (hd (bs @ [c]))" using assms by (cases bs) (auto simp: linked_def)
  show "prv L c = Some (last (a # bs))" using assms by (induction bs arbitrary: a) (auto simp: linked_def)
qed

text \<open>Joining the neighbours of a part that is left out.\<close>

lemma chain_last: "chain L a bs c \<Longrightarrow> (\<And>x. x \<in> set (a # bs) \<Longrightarrow> x \<noteq> last (a # bs) \<Longrightarrow> nxt L' x = nxt L x) \<Longrightarrow>
    (\<And>x. x \<in> set bs \<Longrightarrow> prv L' x = prv L x) \<Longrightarrow> distinct (a # bs) \<Longrightarrow> linked L' (last (a # bs)) d \<Longrightarrow> chain L' a bs d"
proof (induction bs arbitrary: a)
  case (Cons b bs)
  have "last (b # bs) \<noteq> a" using Cons.prems(4) last_in_set [of "b # bs"] by auto
  then have "linked L' a b" using Cons.prems by (auto simp: linked_def)
  moreover have "chain L' b bs d" using Cons.prems by (intro Cons.IH) auto
  ultimately show ?case by simp
qed simp

definition ring :: "'f signal \<Rightarrow> nat \<Rightarrow> 'f option \<Rightarrow> (nat \<times> 'f) list \<Rightarrow> (nat \<Rightarrow> int) \<Rightarrow> bool" where
  "ring sg r d hs rc \<longleftrightarrow> callback_ring sg = Some r \<and> distinct (r # map fst hs) \<and> chain (links sg) r (map fst hs) r \<and>
     fn (links sg) r = d \<and> (\<forall>(a, f) \<in> set hs. fn (links sg) a = Some f) \<and>
     (\<forall>a \<in> insert r (fst ` set hs). refs (links sg) a = rc a \<and> 0 < rc a)"

lemma ring_alive: "ring sg r d hs rc \<Longrightarrow> a \<in> insert r (fst ` set hs) \<Longrightarrow>
    \<exists>l. links sg a = Some l \<and> ref_count l = rc a \<and> 0 < rc a"
  by (fastforce simp: ring_def refs_def split: option.splits)

text \<open>A ring does not depend on the other links, and on its own only as far as their fields go.\<close>

lemma ring_cong:
  assumes "ring sg r d hs rc" "callback_ring sg' = Some r"
    "\<And>a. a \<in> insert r (fst ` set hs) \<Longrightarrow>
       nxt (links sg') a = nxt (links sg) a \<and> prv (links sg') a = prv (links sg) a \<and> fn (links sg') a = fn (links sg) a \<and>
       refs (links sg') a = rc' a \<and> 0 < rc' a"
  shows "ring sg' r d hs rc'"
proof -
  have "chain (links sg') r (map fst hs) r \<longleftrightarrow> chain (links sg) r (map fst hs) r"
    using assms(3) by (intro chain_cong) auto
  moreover have "fn (links sg') a = fn (links sg) a" if "(a, f) \<in> set hs" for a f
    using assms(3) [of a] that by force
  ultimately show ?thesis using assms unfolding ring_def by (auto 0 4)
qed

lemma ring_incref:
  assumes "ring sg r d hs rc" "a \<in> insert r (fst ` set hs)"
  shows "\<exists>sg'. incref (Some a) sg = Inr sg' \<and> ring sg' r d hs (rc(a := rc a + 1)) \<and> (\<forall>b. b \<noteq> a \<longrightarrow> links sg' b = links sg b)"
proof -
  obtain l where l: "links sg a = Some l" "ref_count l = rc a" "0 < rc a" using ring_alive [OF assms] by blast
  let ?sg = "put_link a (l\<lparr>ref_count := rc a + 1\<rparr>) sg"
  have "incref (Some a) sg = Inr ?sg" using l by (simp add: incref_def deref_def)
  moreover have "ring ?sg r d hs (rc(a := rc a + 1))"
    by (rule ring_cong [OF assms(1)])
      (use l assms(1) in \<open>auto simp: ring_def put_link_def nxt_def prv_def fn_def refs_def\<close>)
  ultimately show ?thesis by (auto simp: put_link_def)
qed

lemma ring_decref:
  assumes "ring sg r d hs rc" "a \<in> insert r (fst ` set hs)" "1 < rc a"
  shows "\<exists>sg'. decref (Some a) sg = Inr sg' \<and> ring sg' r d hs (rc(a := rc a - 1)) \<and> (\<forall>b. b \<noteq> a \<longrightarrow> links sg' b = links sg b)"
proof -
  obtain l where l: "links sg a = Some l" "ref_count l = rc a" using ring_alive [OF assms(1,2)] by blast
  let ?sg = "put_link a (l\<lparr>ref_count := rc a - 1\<rparr>) sg"
  have "decref (Some a) sg = Inr ?sg" using l assms(3) by (simp add: decref_def deref_def)
  moreover have "ring ?sg r d hs (rc(a := rc a - 1))"
    by (rule ring_cong [OF assms(1)])
      (use l assms in \<open>auto simp: ring_def put_link_def nxt_def prv_def fn_def refs_def\<close>)
  ultimately show ?thesis by (auto simp: put_link_def)
qed

subsection \<open>Taking a link out\<close>

text \<open>What the single assignments do to the fields.\<close>

lemmas field_defs = nxt_def prv_def fn_def refs_def fun_eq_iff put_link_def delete_link_def deref_def

lemma set_prev_fields:
  "links sg q \<noteq> None \<Longrightarrow> \<exists>sg'. set_prev (Some q) v sg = Inr sg' \<and> callback_ring sg' = callback_ring sg \<and>
     prv (links sg') = (prv (links sg))(q := v) \<and> nxt (links sg') = nxt (links sg) \<and> fn (links sg') = fn (links sg) \<and>
     refs (links sg') = refs (links sg) \<and> (\<forall>b. links sg' b = None \<longleftrightarrow> links sg b = None)"
  by (auto simp: set_prev_def field_defs)

lemma set_next_fields:
  "links sg q \<noteq> None \<Longrightarrow> \<exists>sg'. set_next (Some q) v sg = Inr sg' \<and> callback_ring sg' = callback_ring sg \<and>
     nxt (links sg') = (nxt (links sg))(q := v) \<and> prv (links sg') = prv (links sg) \<and> fn (links sg') = fn (links sg) \<and>
     refs (links sg') = refs (links sg) \<and> (\<forall>b. links sg' b = None \<longleftrightarrow> links sg b = None)"
  by (auto simp: set_next_def field_defs)

lemma decref_fields:
  assumes "links sg a \<noteq> None" "0 < refs (links sg) a"
  shows "\<exists>sg'. decref (Some a) sg = Inr sg' \<and> callback_ring sg' = callback_ring sg \<and> (\<forall>b. b \<noteq> a \<longrightarrow> links sg' b = links sg b) \<and>
    (if refs (links sg) a = 1 then links sg' a = None
     else nxt (links sg') a = nxt (links sg) a \<and> links sg' a \<noteq> None \<and> refs (links sg') a = refs (links sg) a - 1)"
  using assms by (cases "refs (links sg) a = 1") (auto simp: decref_def field_defs)

lemma unlink_fields:
  assumes "links sg a \<noteq> None" "0 < refs (links sg) a" "nxt (links sg) a = Some q" "prv (links sg) a = Some p"
    "links sg p \<noteq> None" "links sg q \<noteq> None" "a \<noteq> p" "a \<noteq> q"
  shows "\<exists>sg'. unlink (Some a) sg = Inr sg' \<and> callback_ring sg' = callback_ring sg \<and>
    (\<forall>b. b \<noteq> a \<longrightarrow> nxt (links sg') b = ((nxt (links sg))(p := Some q)) b \<and> prv (links sg') b = ((prv (links sg))(q := Some p)) b \<and>
      fn (links sg') b = fn (links sg) b \<and> refs (links sg') b = refs (links sg) b) \<and>
    (if refs (links sg) a = 1 then links sg' a = None
     else nxt (links sg') a = Some q \<and> links sg' a \<noteq> None \<and> refs (links sg') a = refs (links sg) a - 1)"
proof -
  obtain l where l: "links sg a = Some l" "lk_next l = Some q" "lk_prev l = Some p" using assms(1,3,4) by (auto simp: nxt_def prv_def)
  define sg1 where "sg1 = put_link a (l\<lparr>lk_function := None\<rparr>) sg"
  have 1: "callback_ring sg1 = callback_ring sg" "nxt (links sg1) = nxt (links sg)" "prv (links sg1) = prv (links sg)"
    "refs (links sg1) = refs (links sg)" "\<And>b. b \<noteq> a \<Longrightarrow> fn (links sg1) b = fn (links sg) b" "\<And>b. links sg1 b = None \<longleftrightarrow> links sg b = None"
    using l by (auto simp: sg1_def field_defs)
  obtain sg2 where 2: "set_prev (Some q) (Some p) sg1 = Inr sg2" "callback_ring sg2 = callback_ring sg1"
    "prv (links sg2) = (prv (links sg1))(q := Some p)" "nxt (links sg2) = nxt (links sg1)" "fn (links sg2) = fn (links sg1)"
    "refs (links sg2) = refs (links sg1)" "\<And>b. links sg2 b = None \<longleftrightarrow> links sg1 b = None"
    using set_prev_fields [of sg1 q "Some p"] 1(6) assms(6) by auto
  obtain sg3 where 3: "set_next (Some p) (Some q) sg2 = Inr sg3" "callback_ring sg3 = callback_ring sg2"
    "nxt (links sg3) = (nxt (links sg2))(p := Some q)" "prv (links sg3) = prv (links sg2)" "fn (links sg3) = fn (links sg2)"
    "refs (links sg3) = refs (links sg2)" "\<And>b. links sg3 b = None \<longleftrightarrow> links sg2 b = None"
    using set_next_fields [of sg2 p "Some q"] 1(6) 2(7) assms(5) by auto
  have a3: "links sg3 a \<noteq> None" "refs (links sg3) a = refs (links sg) a" "nxt (links sg3) a = Some q"
    using 1 2 3 assms by auto
  obtain sg4 where 4: "decref (Some a) sg3 = Inr sg4" "callback_ring sg4 = callback_ring sg3" "\<And>b. b \<noteq> a \<Longrightarrow> links sg4 b = links sg3 b"
    "if refs (links sg) a = 1 then links sg4 a = None
     else nxt (links sg4) a = Some q \<and> links sg4 a \<noteq> None \<and> refs (links sg4) a = refs (links sg) a - 1"
    using decref_fields [of sg3 a] a3 assms(2) by auto
  have "unlink (Some a) sg = Inr sg4"
    using l 2(1) 3(1) 4(1) by (simp add: unlink_def deref_def sg1_def Let_def)
  moreover have "nxt (links sg4) b = ((nxt (links sg))(p := Some q)) b \<and> prv (links sg4) b = ((prv (links sg))(q := Some p)) b \<and>
      fn (links sg4) b = fn (links sg) b \<and> refs (links sg4) b = refs (links sg) b" if "b \<noteq> a" for b
  proof -
    have "nxt (links sg4) b = nxt (links sg3) b" "prv (links sg4) b = prv (links sg3) b" "fn (links sg4) b = fn (links sg3) b"
      "refs (links sg4) b = refs (links sg3) b" using 4(3) [OF that] by (simp_all add: nxt_def prv_def fn_def refs_def)
    then show ?thesis using 1(2-5) 2(3-6) 3(3-6) that by simp
  qed
  ultimately show ?thesis using 1(1) 2(2) 3(2) 4(2,4) by auto
qed

lemma chain_remove:
  assumes "chain L r (xs @ a # ys) r" "distinct (r # xs @ a # ys)"
    "\<And>b. b \<noteq> a \<Longrightarrow> nxt L' b = ((nxt L)(last (r # xs) := Some (hd (ys @ [r])))) b"
    "\<And>b. b \<noteq> a \<Longrightarrow> prv L' b = ((prv L)(hd (ys @ [r]) := Some (last (r # xs)))) b"
  shows "chain L' r (xs @ ys) r"
proof -
  let ?p = "last (r # xs)" and ?q = "hd (ys @ [r])"
  have p: "?p \<in> set (r # xs)" "?p \<noteq> a" using assms(2) last_in_set [of "r # xs"] by (fastforce, fastforce)
  have q: "?q \<noteq> a" using assms(2) by (cases ys) auto
  have xs: "chain L r xs a" "chain L a ys r" using assms(1) by (simp_all add: chain_append)
  have lk: "linked L' ?p ?q" using assms(3) [OF p(2)] assms(4) [OF q] by (simp add: linked_def)
  have first: "chain L' r xs ?q"
  proof (rule chain_last [OF xs(1)])
    show "nxt L' x = nxt L x" if "x \<in> set (r # xs)" "x \<noteq> ?p" for x
    proof -
      have "x \<noteq> a" using that(1) assms(2) by auto
      then show ?thesis using assms(3) that(2) by simp
    qed
    show "prv L' x = prv L x" if "x \<in> set xs" for x
    proof -
      have "x \<noteq> a" "x \<noteq> ?q" using that assms(2) by (auto, cases ys, auto)
      then show ?thesis using assms(4) by simp
    qed
  qed (use assms(2) lk in auto)
  show ?thesis
  proof (cases ys)
    case Nil
    then show ?thesis using first by simp
  next
    case (Cons b zs)
    have "chain L' b zs r \<longleftrightarrow> chain L b zs r"
    proof (rule chain_cong)
      show "nxt L' x = nxt L x" if "x \<in> set (b # zs)" for x
      proof -
        have "x \<noteq> a" "x \<noteq> ?p" using that assms(2) p(1) Cons by auto
        then show ?thesis using assms(3) by simp
      qed
      show "prv L' x = prv L x" if "x \<in> set (zs @ [r])" for x
      proof -
        have "x \<noteq> a" "x \<noteq> ?q" using that assms(2) Cons by auto
        then show ?thesis using assms(4) by simp
      qed
    qed
    then show ?thesis using first xs(2) Cons by (simp add: chain_append)
  qed
qed

text \<open>A handler taken out: the ring is the ring of the others; a link that an emission holds stays in the
  store and still leads to its former successor.\<close>

lemma ring_unlink:
  assumes "ring sg r d (xs @ (a, f) # ys) rc"
  shows "\<exists>sg'. unlink (Some a) sg = Inr sg' \<and> ring sg' r d (xs @ ys) rc \<and>
    (if rc a = 1 then links sg' a = None
     else nxt (links sg') a = Some (hd (map fst ys @ [r])) \<and> links sg' a \<noteq> None \<and> refs (links sg') a = rc a - 1)"
proof -
  let ?L = "links sg" and ?xs = "map fst xs" and ?ys = "map fst ys"
  let ?p = "last (r # ?xs)" and ?q = "hd (?ys @ [r])"
  have ch: "chain ?L r (?xs @ a # ?ys) r" and dist: "distinct (r # ?xs @ a # ?ys)" and cr: "callback_ring sg = Some r"
    using assms by (simp_all add: ring_def)
  have "chain ?L r ?xs a" "chain ?L a ?ys r" using ch by (simp_all add: chain_append)
  then have ends: "nxt ?L a = Some ?q" "prv ?L a = Some ?p" using chain_ends(1) chain_ends(2) by blast+
  have p: "?p \<in> insert r (fst ` set xs)" using last_in_set [of "r # ?xs"] by auto
  have q: "?q \<in> insert r (fst ` set ys)" by (cases ys) auto
  have alive: "links sg b \<noteq> None \<and> refs ?L b = rc b \<and> 0 < rc b" if "b \<in> insert r (fst ` set (xs @ (a, f) # ys))" for b
    using ring_alive [OF assms that] by (auto simp: refs_def)
  have "a \<notin> insert r (fst ` set xs)" "a \<notin> insert r (fst ` set ys)" using dist by auto
  then have "a \<noteq> ?p" "a \<noteq> ?q" using p q by metis+
  moreover have "?p \<in> insert r (fst ` set (xs @ (a, f) # ys))" "?q \<in> insert r (fst ` set (xs @ (a, f) # ys))"
    by (rule subsetD [OF _ p], force, rule subsetD [OF _ q], force)
  then have "links sg ?p \<noteq> None" "links sg ?q \<noteq> None" using alive by blast+
  ultimately obtain sg' where u: "unlink (Some a) sg = Inr sg'" "callback_ring sg' = callback_ring sg"
    "\<And>b. b \<noteq> a \<Longrightarrow> nxt (links sg') b = ((nxt ?L)(?p := Some ?q)) b \<and> prv (links sg') b = ((prv ?L)(?q := Some ?p)) b \<and>
      fn (links sg') b = fn ?L b \<and> refs (links sg') b = refs ?L b"
    "if refs ?L a = 1 then links sg' a = None
     else nxt (links sg') a = Some ?q \<and> links sg' a \<noteq> None \<and> refs (links sg') a = refs ?L a - 1"
    using unlink_fields [of sg a ?q ?p] ends alive [of a] by auto
  have "chain (links sg') r (?xs @ ?ys) r" by (rule chain_remove [OF ch dist]) (use u(3) in blast)+
  moreover have same: "fn (links sg') b = fn ?L b \<and> refs (links sg') b = rc b \<and> 0 < rc b"
    if "b \<in> insert r (fst ` set (xs @ ys))" for b
  proof -
    have "b \<noteq> a" using that dist by auto
    moreover have "b \<in> insert r (fst ` set (xs @ (a, f) # ys))" using that by auto
    ultimately show ?thesis using u(3) [of b] alive [of b] by simp
  qed
  moreover have "fn (links sg') b = Some g" if "(b, g) \<in> set (xs @ ys)" for b g
  proof -
    have "fn ?L b = Some g" using assms that by (auto simp: ring_def)
    moreover have "b \<in> insert r (fst ` set (xs @ ys))" using that by (metis fst_conv image_eqI insertI2)
    ultimately show ?thesis using same by metis
  qed
  moreover have "fn (links sg') r = d" using same [of r] assms by (simp add: ring_def)
  ultimately have "ring sg' r d (xs @ ys) rc" unfolding ring_def using u(2) cr dist by auto
  then show ?thesis using u(1,4) alive [of a] by auto
qed

subsection \<open>Adding a link\<close>

lemma ring_add:
  assumes "ring sg r d hs rc" "links sg addr = None" "rc addr = 1"
  shows "\<exists>sg'. add_before addr (Some r) f sg = Inr (addr, sg') \<and> ring sg' r d (hs @ [(addr, f)]) rc"
proof -
  let ?hs = "map fst hs" and ?L = "links sg"
  let ?p = "last (r # ?hs)"
  have ch: "chain ?L r ?hs r" and dist: "distinct (r # ?hs)" and cr: "callback_ring sg = Some r" using assms(1) by (simp_all add: ring_def)
  have alive: "links sg b \<noteq> None" if "b \<in> insert r (fst ` set hs)" for b using ring_alive [OF assms(1) that] by auto
  have new: "addr \<notin> insert r (fst ` set hs)" using alive assms(2) by blast
  have p: "?p \<in> insert r (fst ` set hs)" "prv ?L r = Some ?p" using last_in_set [of "r # ?hs"] chain_ends(2) [OF ch] by auto
  obtain l where l: "links sg r = Some l" "lk_prev l = Some ?p" using alive [of r] p(2) by (auto simp: prv_def)
  define sg1 where "sg1 = put_link addr ((new_link (Some f))\<lparr>lk_prev := lk_prev l, lk_next := Some r\<rparr>) sg"
  have 1: "callback_ring sg1 = Some r" "nxt (links sg1) = (nxt ?L)(addr := Some r)" "prv (links sg1) = (prv ?L)(addr := Some ?p)"
    "fn (links sg1) = (fn ?L)(addr := Some f)" "refs (links sg1) = (refs ?L)(addr := 1)" "\<And>b. b \<noteq> addr \<Longrightarrow> links sg1 b = ?L b"
    using l cr by (auto simp: sg1_def new_link_def field_defs)
  have pn: "?p \<noteq> addr" "r \<noteq> addr" using p(1) new by (metis, blast)
  then have "links sg1 ?p \<noteq> None" using 1(6) [of ?p] alive [OF p(1)] by simp
  then obtain sg2 where 2: "set_next (Some ?p) (Some addr) sg1 = Inr sg2" "callback_ring sg2 = Some r"
    "nxt (links sg2) = (nxt (links sg1))(?p := Some addr)" "prv (links sg2) = prv (links sg1)" "fn (links sg2) = fn (links sg1)"
    "refs (links sg2) = refs (links sg1)" "\<And>b. links sg2 b = None \<longleftrightarrow> links sg1 b = None"
    using set_next_fields [of sg1 ?p "Some addr"] 1(1) by auto
  have "links sg2 r \<noteq> None" using 2(7) [of r] 1(6) [of r] alive [of r] new by auto
  then obtain sg3 where 3: "set_prev (Some r) (Some addr) sg2 = Inr sg3" "callback_ring sg3 = Some r"
    "prv (links sg3) = (prv (links sg2))(r := Some addr)" "nxt (links sg3) = nxt (links sg2)" "fn (links sg3) = fn (links sg2)"
    "refs (links sg3) = refs (links sg2)"
    using set_prev_fields [of sg2 r "Some addr"] 2(2) by auto
  have "add_before addr (Some r) f sg = Inr (addr, sg3)"
    using l 2(1) 3(1) by (simp add: add_before_def deref_def sg1_def Let_def)
  moreover have "chain (links sg3) r (?hs @ [addr]) r"
  proof -
    have "linked (links sg3) addr r" "linked (links sg3) ?p addr"
      using 1 2 3 pn by (auto simp: linked_def)
    moreover have "chain (links sg3) r ?hs addr"
      by (rule chain_last [OF ch]) (use 1 2 3 new p(1) dist calculation in auto)
    ultimately show ?thesis by (simp add: chain_append)
  qed
  moreover have "fn (links sg3) = (fn ?L)(addr := Some f)" "refs (links sg3) = (refs ?L)(addr := 1)" using 1 2 3 by auto
  ultimately show ?thesis using assms 3(2) new dist unfolding ring_def by (auto simp: rev_image_eqI)
qed

lemma ensure_ring_new:
  "callback_ring sg = None \<Longrightarrow> ring (ensure_ring r sg) r None [] (\<lambda>_. 2)"
  by (simp add: ensure_ring_def ring_def linked_def new_link_def field_defs)

subsection \<open>Finding a link\<close>

lemma remove_loop_ring:
  assumes "ring sg r d (xs @ ys) rc" "i \<notin> fst ` set xs"
  shows "i \<notin> fst ` set ys \<Longrightarrow> remove_loop r i (Some (hd (map fst ys @ [r]))) sg = Some (Inr (False, sg))"
    and "ys = us @ (i, f) # vs \<Longrightarrow> i \<notin> fst ` set us \<Longrightarrow>
      remove_loop r i (Some (hd (map fst ys @ [r]))) sg = Some (ebind (unlink (Some i) sg) (\<lambda>sg1. Inr (True, sg1)))"
proof -
  have nx: "links sg a \<noteq> None \<and> nxt (links sg) a = Some (hd (map fst zs @ [r])) \<and> a \<noteq> r" if "xs @ ys = ws @ (a, g) # zs" for ws a g zs
  proof -
    have "ring sg r d (ws @ (a, g) # zs) rc" using assms(1) that by simp
    then have "chain (links sg) a (map fst zs) r" "links sg a \<noteq> None" "a \<noteq> r"
      using ring_alive [of sg r d "ws @ (a, g) # zs" rc a] by (auto simp: ring_def chain_append)
    then show ?thesis using chain_ends(1) by blast
  qed
  have step: "remove_loop r i (Some a) sg = remove_loop r i (Some (hd (map fst zs @ [r]))) sg"
    if "xs @ ys = ws @ (a, g) # zs" "a \<noteq> i" for ws a g zs
    using nx [OF that(1)] that(2) by (subst remove_loop.simps) (auto simp: deref_def nxt_def)
  have "i \<notin> fst ` set zs \<Longrightarrow> xs @ ys = ws @ zs \<Longrightarrow> remove_loop r i (Some (hd (map fst zs @ [r]))) sg = Some (Inr (False, sg))" for ws zs
  proof (induction zs arbitrary: ws)
    case Nil
    then show ?case by (simp add: remove_loop.simps [of r])
  next
    case (Cons z zs)
    then show ?case using step [of ws "fst z" "snd z" zs] Cons.IH [of "ws @ [z]"] by auto
  qed
  then show "i \<notin> fst ` set ys \<Longrightarrow> remove_loop r i (Some (hd (map fst ys @ [r]))) sg = Some (Inr (False, sg))" by blast
  have "zs = us @ (i, f) # vs \<Longrightarrow> i \<notin> fst ` set us \<Longrightarrow> xs @ ys = ws @ zs \<Longrightarrow>
      remove_loop r i (Some (hd (map fst zs @ [r]))) sg = Some (ebind (unlink (Some i) sg) (\<lambda>sg1. Inr (True, sg1)))" for ws zs us
  proof (induction us arbitrary: ws zs)
    case Nil
    then show ?case using nx [of ws i f vs] by (simp add: remove_loop.simps [of r])
  next
    case (Cons u us)
    then show ?case using step [of ws "fst u" "snd u" "us @ (i, f) # vs"] Cons.IH [of "us @ (i, f) # vs" "ws @ [u]"] by auto
  qed
  then show "ys = us @ (i, f) # vs \<Longrightarrow> i \<notin> fst ` set us \<Longrightarrow>
      remove_loop r i (Some (hd (map fst ys @ [r]))) sg = Some (ebind (unlink (Some i) sg) (\<lambda>sg1. Inr (True, sg1)))" by blast
qed

section \<open>The signal as a list of handlers\<close>

definition base :: "nat \<Rightarrow> nat \<Rightarrow> int" where "base r = (\<lambda>_. 1)(r := 2)"

definition sig_rel :: "'f signal \<Rightarrow> 'f option \<Rightarrow> (nat \<times> 'f) list \<Rightarrow> bool" where
  "sig_rel sg d hs \<longleftrightarrow> (callback_ring sg = None \<and> d = None \<and> hs = []) \<or> (\<exists>r. ring sg r d hs (base r))"

lemma ring_rc: "ring sg r d hs rc \<Longrightarrow> (\<And>a. a \<in> insert r (fst ` set hs) \<Longrightarrow> rc' a = rc a) \<Longrightarrow> ring sg r d hs rc'"
  by (auto simp: ring_def)

lemma connect_rel:
  assumes "sig_rel sg d hs" "links sg addr = None" "callback_ring sg = None \<Longrightarrow> ring_addr \<noteq> addr"
  shows "\<exists>sg'. connect ring_addr addr f sg = Inr (addr, sg') \<and> sig_rel sg' d (hs @ [(addr, f)])"
proof -
  obtain r where r: "ring (ensure_ring ring_addr sg) r d hs (base r)" "links (ensure_ring ring_addr sg) addr = None"
  proof (cases "callback_ring sg")
    case None
    then have "hs = []" "d = None" using assms(1) by (auto simp: sig_rel_def ring_def)
    with ring_rc [OF ensure_ring_new [OF None]] assms(2,3) None show ?thesis
      by (intro that [of ring_addr]) (auto simp: base_def ensure_ring_def put_link_def)
  next
    case (Some r)
    then show ?thesis using assms that [of r] by (auto simp: sig_rel_def ensure_ring_def ring_def)
  qed
  have cr: "callback_ring (ensure_ring ring_addr sg) = Some r" and "addr \<noteq> r"
    using r ring_alive [OF r(1), of r] by (auto simp: ring_def)
  then have "base r addr = 1" by (simp add: base_def)
  from ring_add [OF r this, of f] show ?thesis by (auto simp: connect_def Let_def cr sig_rel_def)
qed

lemma filter_other: "i \<notin> fst ` set us \<Longrightarrow> filter (\<lambda>h. fst h \<noteq> i) us = us"
  by (induction us) auto

lemma disconnect_rel:
  assumes "sig_rel sg d hs"
  shows "\<exists>sg'. disconnect i sg = Some (Inr (i \<in> fst ` set hs, sg')) \<and> sig_rel sg' d (filter (\<lambda>h. fst h \<noteq> i) hs)"
proof (cases "callback_ring sg")
  case None
  then show ?thesis using assms by (auto simp: sig_rel_def disconnect_def ring_def)
next
  case (Some r)
  then have r: "ring sg r d hs (base r)" using assms by (auto simp: sig_rel_def ring_def)
  then have "chain (links sg) r (map fst hs) r" by (simp add: ring_def)
  then have "nxt (links sg) r = Some (hd (map fst hs @ [r]))" by (rule chain_ends)
  then have start: "disconnect i sg = remove_loop r i (Some (hd (map fst hs @ [r]))) sg"
    using ring_alive [OF r, of r] Some by (auto simp: disconnect_def remove_sibling_def deref_def nxt_def)
  show ?thesis
  proof (cases "i \<in> fst ` set hs")
    case False
    then have "filter (\<lambda>h. fst h \<noteq> i) hs = hs" by (rule filter_other)
    moreover have "disconnect i sg = Some (Inr (False, sg))" using remove_loop_ring(1) [of sg r d "[]" hs] r False start by simp
    ultimately show ?thesis using assms False by auto
  next
    case True
    then obtain us f vs where hs: "hs = us @ (i, f) # vs" by (metis (no_types, opaque_lifting) imageE prod.collapse split_list)
    have dist: "i \<noteq> r" "i \<notin> fst ` set us" "i \<notin> fst ` set vs" using r hs by (auto simp: ring_def)
    obtain sg' where u: "unlink (Some i) sg = Inr sg'" "ring sg' r d (us @ vs) (base r)" using ring_unlink [of sg r d us i f vs] r hs by auto
    have "disconnect i sg = Some (Inr (True, sg'))"
      using remove_loop_ring(2) [of sg r d "[]" hs "base r" i us f vs] r hs dist u(1) start by simp
    moreover have "filter (\<lambda>h. fst h \<noteq> i) hs = us @ vs" using dist by (simp add: hs filter_other)
    ultimately show ?thesis using u(2) True by (auto simp: sig_rel_def)
  qed
qed

subsection \<open>Emission\<close>

definition holding :: "nat \<Rightarrow> nat \<Rightarrow> nat \<Rightarrow> int" where
  "holding r c = (base r)(c := base r c + 1)"

lemma base_pos: "0 < base r c"
  by (simp add: base_def)

lemma advance_ring:
  assumes "ring sg r d hs (holding r c)" "c \<in> insert r (fst ` set hs)" "nxt (links sg) c = Some q" "q \<in> insert r (fst ` set hs)"
  shows "\<exists>sg'. advance (Some c) sg = Inr (Some q, sg') \<and> ring sg' r d hs (holding r q)"
proof -
  let ?rc = "(holding r c)(q := holding r c q + 1)"
  obtain l where l: "links sg c = Some l" "lk_next l = Some q" using assms(3) by (auto simp: nxt_def split: bind_splits)
  obtain sg1 where 1: "incref (Some q) sg = Inr sg1" "ring sg1 r d hs ?rc" using ring_incref [OF assms(1,4)] by blast
  have "1 < ?rc c" using base_pos [of r c] by (auto simp: holding_def)
  from ring_decref [OF 1(2) assms(2) this] obtain sg2 where 2: "decref (Some c) sg1 = Inr sg2" "ring sg2 r d hs (?rc(c := ?rc c - 1))" by blast
  have "?rc(c := ?rc c - 1) = holding r q" by (auto simp: holding_def fun_eq_iff)
  then show ?thesis using l 1(1) 2 by (auto simp: advance_def deref_def)
qed

lemma ring_delete:
  assumes "ring sg r d hs rc" "c \<notin> insert r (fst ` set hs)"
  shows "ring (delete_link c sg) r d hs rc"
proof (rule ring_cong [OF assms(1)])
  fix a
  assume a: "a \<in> insert r (fst ` set hs)"
  then have "links (delete_link c sg) a = links sg a" using assms(2) by (auto simp: delete_link_def)
  moreover have "refs (links sg) a = rc a \<and> 0 < rc a" using assms(1) a by (auto simp: ring_def)
  ultimately show "nxt (links (delete_link c sg)) a = nxt (links sg) a \<and> prv (links (delete_link c sg)) a = prv (links sg) a \<and>
      fn (links (delete_link c sg)) a = fn (links sg) a \<and> refs (links (delete_link c sg)) a = rc a \<and> 0 < rc a"
    by (simp add: nxt_def prv_def fn_def refs_def)
qed (use assms(1) in \<open>simp add: delete_link_def ring_def\<close>)

lemma ring_release:
  assumes "ring sg r d hs (holding r c)" "c \<in> insert r (fst ` set hs)"
  shows "\<exists>sg'. decref (Some c) sg = Inr sg' \<and> ring sg' r d hs (base r)"
proof -
  have "1 < holding r c c" using base_pos [of r c] by (simp add: holding_def)
  moreover have "(holding r c)(c := holding r c c - 1) = base r" by (auto simp: holding_def fun_eq_iff)
  ultimately show ?thesis using ring_decref [OF assms] by metis
qed

lemma advance_detached:
  assumes "ring sg r d hs (base r)" "c \<notin> insert r (fst ` set hs)" "nxt (links sg) c = Some q" "refs (links sg) c = 1" "q \<in> insert r (fst ` set hs)"
  shows "\<exists>sg'. advance (Some c) sg = Inr (Some q, sg') \<and> ring sg' r d hs (holding r q)"
proof -
  obtain l where l: "links sg c = Some l" "lk_next l = Some q" "ref_count l = 1"
    using assms(3,4) by (auto simp: nxt_def refs_def split: bind_splits)
  obtain sg1 where 1: "incref (Some q) sg = Inr sg1" "ring sg1 r d hs (holding r q)" "\<And>b. b \<noteq> q \<Longrightarrow> links sg1 b = links sg b"
    using ring_incref [OF assms(1,5)] by (auto simp: holding_def)
  have "c \<noteq> q" using assms(2,5) by blast
  then have "decref (Some c) sg1 = Inr (delete_link c sg1)" using 1(3) l by (simp add: decref_def deref_def)
  moreover have "ring (delete_link c sg1) r d hs (holding r q)" by (rule ring_delete [OF 1(2) assms(2)])
  ultimately show ?thesis using l 1(1) by (auto simp: advance_def deref_def)
qed

text \<open>What an emission over a list of handlers does when \<open>act\<close> is the effect of a handler and the ones in \<open>once\<close>
  disconnect themselves: the handlers run in order until one says stop.\<close>

primrec run :: "(nat \<times> 'f \<Rightarrow> 'e \<Rightarrow> bool \<times> 'e) \<Rightarrow> (nat \<times> 'f \<Rightarrow> bool) \<Rightarrow> (nat \<times> 'f) list \<Rightarrow> 'e \<Rightarrow> 'e \<times> (nat \<times> 'f) list" where
  "run act once [] e = (e, [])"
| "run act once (h # hs) e =
     (let keep = (if once h then [] else [h]); (go, e1) = act h e
      in if go then (let (e2, rest) = run act once hs e1 in (e2, keep @ rest)) else (e1, keep @ hs))"

definition behaves :: "('f, 'e) caller \<Rightarrow> (nat \<times> 'f \<Rightarrow> 'e \<Rightarrow> bool \<times> 'e) \<Rightarrow> (nat \<times> 'f \<Rightarrow> bool) \<Rightarrow> nat \<times> 'f \<Rightarrow> bool" where
  "behaves call act once h \<longleftrightarrow> (\<forall>e sg. call (snd h) e sg =
     (if once h then case disconnect (fst h) sg of
          Some (Inr (_, sg1)) \<Rightarrow> Inr (fst (act h e), snd (act h e), sg1) | Some (Inl err) \<Rightarrow> Inl err | None \<Rightarrow> Inl Assertion_Failed
      else Inr (fst (act h e), snd (act h e), sg)))"

text \<open>A handler disconnects itself while the emission holds its link.\<close>

lemma disconnect_held:
  assumes "ring sg r d (ks @ (a, f) # hs) (holding r a)"
  shows "\<exists>sg'. disconnect a sg = Some (Inr (True, sg')) \<and> ring sg' r d (ks @ hs) (base r) \<and> a \<notin> insert r (fst ` set (ks @ hs)) \<and>
    nxt (links sg') a = Some (hd (map fst hs @ [r])) \<and> refs (links sg') a = 1 \<and> links sg' a \<noteq> None"
proof -
  let ?all = "ks @ (a, f) # hs"
  have dist: "a \<noteq> r" "a \<notin> fst ` set ks" "a \<notin> fst ` set hs" and cr: "callback_ring sg = Some r"
    using assms by (auto simp: ring_def)
  then have rc: "holding r a a = 2" by (simp add: holding_def base_def)
  from ring_unlink [OF assms] obtain sg' where u: "unlink (Some a) sg = Inr sg'" "ring sg' r d (ks @ hs) (holding r a)"
    "nxt (links sg') a = Some (hd (map fst hs @ [r]))" "links sg' a \<noteq> None" "refs (links sg') a = 1" by (auto simp: rc)
  have "chain (links sg) r (map fst ?all) r" using assms by (simp add: ring_def)
  from chain_ends(1) [OF this] have "disconnect a sg = remove_loop r a (Some (hd (map fst ?all @ [r]))) sg"
    using ring_alive [OF assms, of r] cr by (auto simp: disconnect_def remove_sibling_def deref_def nxt_def)
  also have "\<dots> = Some (Inr (True, sg'))"
    using remove_loop_ring(2) [of sg r d "[]" ?all "holding r a" a ks f hs] assms dist u(1) by simp
  finally have "disconnect a sg = Some (Inr (True, sg'))" .
  moreover have "ring sg' r d (ks @ hs) (base r)" by (rule ring_rc [OF u(2)]) (use dist in \<open>auto simp: holding_def\<close>)
  ultimately show ?thesis using u dist by auto
qed

lemma emit_step:
  assumes "behaves call act once (a, f)" "ring sg r d (ks @ (a, f) # hs) (holding r a)"
  defines "q \<equiv> hd (map fst hs @ [r])" and "keep \<equiv> (if once (a, f) then [] else [(a, f)])"
  shows "\<exists>sg1. visit call (Some a) e sg = Inr (fst (act (a, f) e), snd (act (a, f) e), sg1) \<and>
    (\<exists>sg2. decref (Some a) sg1 = Inr sg2 \<and> ring sg2 r d (ks @ keep @ hs) (base r)) \<and>
    (\<exists>sg2. advance (Some a) sg1 = Inr (Some q, sg2) \<and> ring sg2 r d (ks @ keep @ hs) (holding r q))"
proof -
  have "fn (links sg) a = Some f" using assms(2) by (auto simp: ring_def)
  then obtain l where l: "links sg a = Some l" "lk_function l = Some f" by (auto simp: fn_def split: bind_splits)
  then have v: "visit call (Some a) e sg = call f e sg" by (simp add: visit_def deref_def)
  have q: "q \<in> insert r (fst ` set (ks @ keep @ hs))" unfolding q_def by (cases hs) auto
  show ?thesis
  proof (cases "once (a, f)")
    case False
    then have c: "call f e sg = Inr (fst (act (a, f) e), snd (act (a, f) e), sg)" using assms(1) by (auto simp: behaves_def)
    have rg: "ring sg r d (ks @ keep @ hs) (holding r a)" using assms(2) False by (simp add: keep_def)
    have a: "a \<in> insert r (fst ` set (ks @ keep @ hs))" using False by (simp add: keep_def)
    have "chain (links sg) a (map fst hs) r" using assms(2) by (simp add: ring_def chain_append)
    then have nx: "nxt (links sg) a = Some q" unfolding q_def by (rule chain_ends)
    show ?thesis using v c ring_release [OF rg a] advance_ring [OF rg a nx q] by auto
  next
    case True
    from disconnect_held [OF assms(2)] obtain sg1 where sg1: "disconnect a sg = Some (Inr (True, sg1))" "ring sg1 r d (ks @ hs) (base r)"
      "a \<notin> insert r (fst ` set (ks @ hs))" "nxt (links sg1) a = Some q" "refs (links sg1) a = 1" "links sg1 a \<noteq> None" unfolding q_def by blast
    then have c: "call f e sg = Inr (fst (act (a, f) e), snd (act (a, f) e), sg1)" using assms(1) True by (auto simp: behaves_def)
    have "decref (Some a) sg1 = Inr (delete_link a sg1)" using sg1(5,6) by (auto simp: decref_def deref_def refs_def)
    moreover have "ring (delete_link a sg1) r d (ks @ hs) (base r)" by (rule ring_delete [OF sg1(2,3)])
    moreover have "ks @ keep @ hs = ks @ hs" using True by (simp add: keep_def)
    ultimately show ?thesis using v c advance_detached [OF sg1(2,3,4,5)] q by auto
  qed
qed

lemma emit_loop_run:
  assumes "\<forall>h \<in> set (h # hs). behaves call act once h" "ring sg r d (ks @ h # hs) (holding r (fst h))"
  shows "\<exists>sg'. emit_loop call (Some (fst h)) e sg = Some (Inr (fst (run act once (h # hs) e), sg')) \<and>
    ring sg' r d (ks @ snd (run act once (h # hs) e)) (base r)"
  using assms
proof (induction hs arbitrary: h ks e sg)
  case Nil
  obtain a f where h: "h = (a, f)" by (cases h)
  obtain go e1 where act: "act h e = (go, e1)" by (cases "act h e")
  obtain sg1 sg2 sg3 where st: "visit call (Some a) e sg = Inr (go, e1, sg1)" "decref (Some a) sg1 = Inr sg2"
    "ring sg2 r d (ks @ (if once h then [] else [h])) (base r)" "advance (Some a) sg1 = Inr (Some r, sg3)"
    "ring sg3 r d (ks @ (if once h then [] else [h])) (holding r r)"
    using emit_step [of call act once a f sg r d ks "[]" e] Nil.prems h act by auto
  obtain sg4 where "decref (Some r) sg3 = Inr sg4" "ring sg4 r d (ks @ (if once h then [] else [h])) (base r)"
    using ring_release [OF st(5)] by auto
  moreover have "callback_ring sg3 = Some r" using st(5) by (simp add: ring_def)
  ultimately show ?case using st h act by (subst emit_loop.simps) (auto simp: Let_def)
next
  case (Cons h' hs)
  obtain a f where h: "h = (a, f)" by (cases h)
  obtain go e1 where act: "act h e = (go, e1)" by (cases "act h e")
  let ?keep = "if once h then [] else [h]"
  obtain sg1 sg2 sg3 where st: "visit call (Some a) e sg = Inr (go, e1, sg1)" "decref (Some a) sg1 = Inr sg2"
    "ring sg2 r d (ks @ ?keep @ h' # hs) (base r)" "advance (Some a) sg1 = Inr (Some (fst h'), sg3)"
    "ring sg3 r d ((ks @ ?keep) @ h' # hs) (holding r (fst h'))"
    using emit_step [of call act once a f sg r d ks "h' # hs" e] Cons.prems h act by auto
  have cr: "callback_ring sg3 = Some r" "fst h' \<noteq> r" using st(5) by (auto simp: ring_def)
  have "\<forall>h \<in> set (h' # hs). behaves call act once h" using Cons.prems(1) by auto
  from Cons.IH [OF this st(5), of e1] show ?case
    using st(1-4) cr h act by (subst emit_loop.simps) (auto simp: Let_def split: prod.splits)
qed

lemma emit_rel:
  assumes "sig_rel sg None hs" "\<forall>h \<in> set hs. behaves call act once h"
  shows "\<exists>sg'. emit call e sg = Some (Inr (fst (run act once hs e), sg')) \<and> sig_rel sg' None (snd (run act once hs e))"
proof (cases "callback_ring sg")
  case None
  then show ?thesis using assms(1) by (auto simp: emit_def sig_rel_def ring_def)
next
  case (Some r)
  then have rg: "ring sg r None hs (base r)" using assms(1) by (auto simp: sig_rel_def ring_def)
  let ?q = "hd (map fst hs @ [r])"
  obtain sg1 where 1: "incref (Some r) sg = Inr sg1" "ring sg1 r None hs (holding r r)"
    using ring_incref [OF rg, of r] by (auto simp: holding_def)
  have v: "visit call (Some r) e sg1 = Inr (True, e, sg1)"
    using 1(2) ring_alive [OF 1(2), of r] by (auto simp: ring_def visit_def deref_def fn_def)
  have "chain (links sg1) r (map fst hs) r" using 1(2) by (simp add: ring_def)
  from advance_ring [OF 1(2) _ chain_ends(1) [OF this]] obtain sg2 where
    2: "advance (Some r) sg1 = Inr (Some ?q, sg2)" "ring sg2 r None hs (holding r ?q)" by (cases hs) auto
  have cr: "callback_ring sg1 = Some r" "callback_ring sg2 = Some r" using 1(2) 2(2) by (auto simp: ring_def)
  have start: "emit call e sg = emit_loop call (Some r) e sg1" using Some 1(1) cr by (simp add: emit_def)
  show ?thesis
  proof (cases hs)
    case Nil
    then obtain sg3 where "decref (Some r) sg2 = Inr sg3" "ring sg3 r None hs (base r)" using ring_release [OF 2(2)] by auto
    then show ?thesis unfolding start using v 2(1) cr Nil by (subst emit_loop.simps) (auto simp: sig_rel_def)
  next
    case (Cons h hs')
    have "fst h \<noteq> r" using rg Cons by (auto simp: ring_def)
    then have "emit_loop call (Some r) e sg1 = emit_loop call (Some (fst h)) e sg2"
      using v 2(1) cr Cons by (subst emit_loop.simps) simp
    moreover from emit_loop_run [of h hs' call act once sg2 r None "[]" e] obtain sg3 where
      "emit_loop call (Some (fst h)) e sg2 = Some (Inr (fst (run act once hs e), sg3))" "ring sg3 r None (snd (run act once hs e)) (base r)"
      using assms(2) 2(2) Cons by auto
    ultimately show ?thesis unfolding start by (auto simp: sig_rel_def)
  qed
qed

subsection \<open>Size and destruction\<close>

lemma size_loop_ring:
  "ring sg r d (ks @ h # hs) (holding r (fst h)) \<Longrightarrow>
    \<exists>sg'. size_loop (Some (fst h)) n sg = Some (Inr (n + Suc (length hs), sg')) \<and> ring sg' r d (ks @ h # hs) (holding r r)"
proof (induction hs arbitrary: ks h n sg)
  case Nil
  obtain l where l: "links sg (fst h) = Some l" "lk_function l \<noteq> None"
    using Nil ring_alive [OF Nil, of "fst h"] by (cases h) (fastforce simp: ring_def fn_def)
  have "chain (links sg) (fst h) [] r" using Nil by (simp add: ring_def chain_append)
  from advance_ring [OF Nil _ chain_ends(1) [OF this]] obtain sg1 where
    1: "advance (Some (fst h)) sg = Inr (Some r, sg1)" "ring sg1 r d (ks @ [h]) (holding r r)" by auto
  moreover have "callback_ring sg1 = Some r" using 1(2) by (simp add: ring_def)
  ultimately show ?case using l by (subst size_loop.simps) (simp add: deref_def)
next
  case (Cons h' hs)
  let ?all = "ks @ h # h' # hs"
  obtain l where l: "links sg (fst h) = Some l" "lk_function l \<noteq> None"
    using Cons.prems ring_alive [OF Cons.prems, of "fst h"] by (cases h) (fastforce simp: ring_def fn_def)
  have "chain (links sg) (fst h) (map fst (h' # hs)) r" using Cons.prems by (simp add: ring_def chain_append)
  from advance_ring [OF Cons.prems _ chain_ends(1) [OF this]] obtain sg1 where
    1: "advance (Some (fst h)) sg = Inr (Some (fst h'), sg1)" "ring sg1 r d ((ks @ [h]) @ h' # hs) (holding r (fst h'))" by auto
  moreover have "callback_ring sg1 = Some r" "fst h' \<noteq> r" using 1(2) by (auto simp: ring_def)
  ultimately show ?case using l Cons.IH [OF 1(2), of "n + 1"] by (subst size_loop.simps) (auto simp: deref_def)
qed

lemma sig_size_ring:
  assumes "ring sg r None hs (base r)"
  shows "\<exists>sg'. sig_size sg = Some (Inr (length hs, sg')) \<and> ring sg' r None hs (holding r r)"
proof -
  let ?q = "hd (map fst hs @ [r])"
  obtain sg1 where 1: "incref (Some r) sg = Inr sg1" "ring sg1 r None hs (holding r r)"
    using ring_incref [OF assms, of r] by (auto simp: holding_def)
  obtain l where l: "links sg1 r = Some l" "lk_function l = None"
    using 1(2) ring_alive [OF 1(2), of r] by (auto simp: ring_def fn_def)
  have "chain (links sg1) r (map fst hs) r" using 1(2) by (simp add: ring_def)
  from advance_ring [OF 1(2) _ chain_ends(1) [OF this]] obtain sg2 where
    2: "advance (Some r) sg1 = Inr (Some ?q, sg2)" "ring sg2 r None hs (holding r ?q)" by (cases hs) auto
  have cr: "callback_ring sg = Some r" "callback_ring sg1 = Some r" "callback_ring sg2 = Some r"
    using assms 1(2) 2(2) by (auto simp: ring_def)
  have start: "sig_size sg = size_loop (Some r) 0 sg1" using 1(1) cr by (simp add: sig_size_def)
  show ?thesis
  proof (cases hs)
    case Nil
    then show ?thesis unfolding start using l 2 cr by (subst size_loop.simps) (simp add: deref_def)
  next
    case (Cons h hs')
    have "fst h \<noteq> r" using assms Cons by (auto simp: ring_def)
    then have "size_loop (Some r) 0 sg1 = size_loop (Some (fst h)) 0 sg2"
      using l 2(1) cr Cons by (subst size_loop.simps) (simp add: deref_def)
    then show ?thesis unfolding start using size_loop_ring [of sg2 r None "[]" h hs' 0] 2(2) Cons by auto
  qed
qed

lemma put_keeps_dead:
  "set_prev p v sg = Inr sg' \<Longrightarrow> links sg b = None \<Longrightarrow> links sg' b = None"
  "set_next p v sg = Inr sg' \<Longrightarrow> links sg b = None \<Longrightarrow> links sg' b = None"
  "decref p sg = Inr sg' \<Longrightarrow> links sg b = None \<Longrightarrow> links sg' b = None"
  by (auto simp: set_prev_def set_next_def decref_def deref_def put_link_def delete_link_def Let_def ebind_Inr_iff
      split: option.splits if_splits)

lemma unlink_keeps_dead: "unlink p sg = Inr sg' \<Longrightarrow> links sg b = None \<Longrightarrow> links sg' b = None"
  by (auto simp: unlink_def Let_def ebind_Inr_iff deref_def put_link_def split: option.splits if_splits dest!: put_keeps_dead)

lemma destroy_loop_ring:
  assumes "ring sg r d hs rc" "\<forall>h \<in> set hs. rc (fst h) = 1" "2 \<le> rc r"
  shows "\<exists>sg'. destroy_loop r sg = Some (Inr sg') \<and> (\<forall>h \<in> set hs. links sg' (fst h) = None) \<and>
    (links sg' r = None \<longleftrightarrow> rc r = 2) \<and> (\<forall>b. links sg b = None \<longrightarrow> links sg' b = None)"
  using assms
proof (induction hs arbitrary: sg)
  case Nil
  then obtain l where l: "links sg r = Some l" "ref_count l = rc r" using ring_alive [OF Nil(1), of r] by auto
  have "nxt (links sg) r = Some r" using Nil(1) by (simp add: ring_def linked_def)
  then have "lk_next l = Some r" using l by (simp add: nxt_def)
  then show ?case using l Nil.prems(3)
    by (subst destroy_loop.simps) (auto simp: deref_def decref_def Let_def put_link_def delete_link_def)
next
  case (Cons h hs)
  obtain a f where h: "h = (a, f)" by (cases h)
  then have rg: "ring sg r d ([] @ (a, f) # hs) rc" "rc a = 1" using Cons.prems by simp_all
  obtain sg1 where u: "unlink (Some a) sg = Inr sg1" "ring sg1 r d hs rc" "links sg1 a = None"
    using ring_unlink [OF rg(1)] rg(2) by auto
  obtain l where l: "links sg r = Some l" using ring_alive [OF rg(1), of r] by auto
  have "linked (links sg) r a" "a \<noteq> r" using rg(1) by (auto simp: ring_def)
  then have "lk_next l = Some a" using l by (simp add: linked_def nxt_def)
  then have "destroy_loop r sg = destroy_loop r sg1" using l u(1) \<open>a \<noteq> r\<close> by (subst destroy_loop.simps) (simp add: deref_def)
  moreover from Cons.IH [OF u(2)] Cons.prems obtain sg' where "destroy_loop r sg1 = Some (Inr sg')"
    "\<forall>h \<in> set hs. links sg' (fst h) = None" "links sg' r = None \<longleftrightarrow> rc r = 2" "\<forall>b. links sg1 b = None \<longrightarrow> links sg' b = None" by auto
  ultimately show ?case using u(3) h unlink_keeps_dead [OF u(1)] by auto
qed

section \<open>Properties\<close>

text \<open>(C19) A signal refines a list of handlers. Connecting a callback appends it under the address of its link, which
  is the connection id; disconnecting an id takes its handler out, wherever it is, and says whether it was there. The
  searches through the ring end, and no null or dangling pointer is followed.\<close>

theorem signal_refines_handler_list:
  assumes "sig_rel sg d hs" "links sg addr = None" "callback_ring sg = None \<Longrightarrow> ring_addr \<noteq> addr"
  shows "(\<exists>sg'. connect ring_addr addr f sg = Inr (addr, sg') \<and> sig_rel sg' d (hs @ [(addr, f)])) \<and>
    (\<exists>sg'. disconnect i sg = Some (Inr (i \<in> fst ` set hs, sg')) \<and> sig_rel sg' d (filter (\<lambda>h. fst h \<noteq> i) hs))"
  using connect_rel [OF assms] disconnect_rel [OF assms(1)] by blast

lemma sig_new_rel: "sig_rel (sig_new addr None) None []"
  by (simp add: sig_new_def sig_rel_def)

theorem signal_refines_handler_list_witness:
  "\<exists>sg. connect 10 11 (7::nat) (sig_new 10 None) = Inr (11, sg) \<and> sig_rel sg None [(11, 7)] \<and>
     disconnect 11 (sig_new 10 None :: nat signal) = Some (Inr (False, sig_new 10 None))"
proof -
  have "links (sig_new 10 None :: nat signal) 11 = None" by (simp add: sig_new_def)
  from signal_refines_handler_list [OF sig_new_rel this, of 10 7 11] show ?thesis
    by (auto simp: disconnect_def sig_new_def)
qed

text \<open>(C20) An emission runs the handlers in the order in which they were connected, each once, until one of them stops it,
  and it ends. Handlers may disconnect themselves while they run: the emission goes on with the next one, and
  afterwards the signal holds exactly the handlers that did not, with their reference counts as before.\<close>

theorem emission_runs_handlers_in_order:
  assumes "sig_rel sg None hs" "\<forall>h \<in> set hs. behaves call act once h" "run act once hs e = (e', hs')"
  shows "\<exists>sg'. emit call e sg = Some (Inr (e', sg')) \<and> sig_rel sg' None hs'"
  using emit_rel [OF assms(1,2), of e] assms(3) by simp

definition sample_call :: "(nat, nat list) caller" where
  "sample_call f e sg = (if f = 1 then case disconnect 11 sg of
     Some (Inr (_, sg1)) \<Rightarrow> Inr (True, e @ [f], sg1) | Some (Inl err) \<Rightarrow> Inl err | None \<Rightarrow> Inl Assertion_Failed
   else Inr (True, e @ [f], sg))"

lemma sample_signal:
  "\<exists>sg. sig_rel sg None [(11, 1 :: nat), (12, 2)]"
proof -
  have "links (sig_new 10 None :: nat signal) 11 = None" by (simp add: sig_new_def)
  from connect_rel [OF sig_new_rel this, of 10 1] obtain sg1 where
    1: "connect 10 11 (1 :: nat) (sig_new 10 None) = Inr (11, sg1)" "sig_rel sg1 None [(11, 1)]" by auto
  have "links sg1 12 = None" "callback_ring sg1 \<noteq> None"
    using 1(1) by (auto simp: connect_def ensure_ring_def sig_new_def add_before_def set_next_def set_prev_def deref_def put_link_def
        new_link_def Let_def)
  from connect_rel [OF 1(2) this(1), of 10 2] this(2) show ?thesis by auto
qed

theorem emission_runs_handlers_in_order_witness:
  "\<exists>sg sg'. sig_rel sg None [(11, 1 :: nat), (12, 2)] \<and> emit sample_call [] sg = Some (Inr ([1, 2], sg')) \<and> sig_rel sg' None [(12, 2)]"
proof -
  obtain sg where sg: "sig_rel sg None [(11, 1 :: nat), (12, 2)]" using sample_signal by blast
  have "\<forall>h \<in> set [(11, 1), (12, 2)]. behaves sample_call (\<lambda>h e. (True, e @ [snd h])) (\<lambda>h. snd h = 1) h"
    by (auto simp: behaves_def sample_call_def split: option.splits sum.splits)
  from emission_runs_handlers_in_order [OF sg this, of "[]" "[1, 2]" "[(12, 2)]"] sg show ?thesis by auto
qed

text \<open>Destroying a signal deletes every link of its ring, the head included, as long as only connections,
  disconnections and emissions happened. Asking for the number of handlers gives the right number but keeps a
  reference to the head: after it the destruction deletes the handlers and leaves the head behind.\<close>

theorem destroy_deletes_links:
  assumes "sig_rel sg None hs" "callback_ring sg = Some r"
  shows "(\<exists>sg'. sig_destroy sg = Some (Inr sg') \<and> (\<forall>a \<in> insert r (fst ` set hs). links sg' a = None)) \<and>
    (\<exists>sg1 sg2. sig_size sg = Some (Inr (length hs, sg1)) \<and> sig_destroy sg1 = Some (Inr sg2) \<and>
       (\<forall>a \<in> fst ` set hs. links sg2 a = None) \<and> links sg2 r \<noteq> None)"
proof -
  have rg: "ring sg r None hs (base r)" using assms by (auto simp: sig_rel_def ring_def)
  then have ne: "\<forall>h \<in> set hs. fst h \<noteq> r" by (force simp: ring_def)
  have "\<forall>h \<in> set hs. base r (fst h) = 1" "\<forall>h \<in> set hs. holding r r (fst h) = 1" "base r r = 2" "holding r r r = 3"
    using ne by (auto simp: base_def holding_def)
  note counts = this
  obtain sg1 where 1: "sig_size sg = Some (Inr (length hs, sg1))" "ring sg1 r None hs (holding r r)" using sig_size_ring [OF rg] by blast
  then have "callback_ring sg1 = Some r" by (simp add: ring_def)
  then show ?thesis
    using destroy_loop_ring [OF rg] destroy_loop_ring [OF 1(2)] counts 1(1) assms(2) by (auto simp: sig_destroy_def)
qed

theorem destroy_deletes_links_witness:
  "\<exists>sg r sg1 sg2. callback_ring sg = Some r \<and> sig_size sg = Some (Inr (2, sg1)) \<and> sig_destroy sg1 = Some (Inr sg2) \<and>
     links (sg2 :: nat signal) r \<noteq> None"
proof -
  obtain sg where sg: "sig_rel sg None [(11, 1 :: nat), (12, 2)]" using sample_signal by blast
  then obtain r where "callback_ring sg = Some r" by (auto simp: sig_rel_def ring_def)
  moreover from destroy_deletes_links [OF sg this] obtain sg1 sg2 where "sig_size sg = Some (Inr (2, sg1))"
    "sig_destroy sg1 = Some (Inr sg2)" "links sg2 r \<noteq> None" by (auto simp: numeral_2_eq_2)
  ultimately show ?thesis by blast
qed

text \<open>The size of a signal that never had a handler follows the null pointer.\<close>

lemma size_without_ring: "callback_ring sg = None \<Longrightarrow> sig_size sg = Some (Inl Null_Pointer) \<and> sig_empty sg = Some (Inl Null_Pointer)"
  by (simp add: sig_size_def sig_empty_def incref_def deref_def)

text \<open>A handler that disconnects itself and then its successor: the emission follows the pointer to the deleted successor.\<close>

definition rude_call :: "(nat, unit) caller" where
  "rude_call f e sg = (if f = 1 then case disconnect 11 sg of
       Some (Inr (_, sg1)) \<Rightarrow> (case disconnect 12 sg1 of Some (Inr (_, sg2)) \<Rightarrow> Inr (True, e, sg2) | _ \<Rightarrow> Inl Assertion_Failed)
     | _ \<Rightarrow> Inl Assertion_Failed
   else Inr (True, e, sg))"

lemma self_and_next_disconnect_dangles:
  "(case connect 10 11 1 (sig_new 10 None) of Inl _ \<Rightarrow> None | Inr (_, s1) \<Rightarrow>
     case connect 10 12 2 s1 of Inl _ \<Rightarrow> None | Inr (_, s2) \<Rightarrow> map_option (\<lambda>r. case r of Inl err \<Rightarrow> Some err | Inr _ \<Rightarrow> None) (emit rude_call () s2)) =
   Some (Some Dangling_Pointer)"
  by code_simp

end
