(* ===== verification/Event_Bus.thy ===== *)
theory Event_Bus
  imports Signals
begin

text \<open>
  The dispatcher of events, \<open>msg_dispatcher\<close> and \<open>BaseReceiver\<close> of \<open>src/network/msgbus/event.hpp\<close>: one
  signal per event family, created on first use, and in every receiver the connections it made. Receivers are
  numbered, a callback is the number of the receiver whose \<open>receive\<close> it calls, and the links of a new
  connection get their addresses as arguments. The connections of a receiver are the list of the entries of its
  \<open>unordered_map\<close>, in the order in which a loop meets them.
\<close>

section \<open>Model\<close>

record bus =
  handlers :: "nat signal option list"
  connections :: "nat \<Rightarrow> (nat \<times> nat) list"

type_synonym 'a run_result = "(sig_error + 'a) option"

definition rbind :: "'a run_result \<Rightarrow> ('a \<Rightarrow> 'b run_result) \<Rightarrow> 'b run_result" where
  "rbind m f = Option.bind m (\<lambda>r. case r of Inl e \<Rightarrow> Some (Inl e) | Inr x \<Rightarrow> f x)"

lemma rbind_simps [simp]: "rbind None f = None" "rbind (Some (Inl e)) f = Some (Inl e)" "rbind (Some (Inr x)) f = f x"
  by (simp_all add: rbind_def)

definition new_bus :: bus where
  "new_bus = \<lparr>handlers = [], connections = (\<lambda>_. [])\<rparr>"

definition get_handler :: "nat \<Rightarrow> bus \<Rightarrow> nat signal option" where
  "get_handler fam b = (if fam < length (handlers b) then handlers b ! fam else None)"

definition set_handler :: "nat \<Rightarrow> nat signal \<Rightarrow> bus \<Rightarrow> bus" where
  "set_handler fam sg b = b\<lparr>handlers := (handlers b)[fam := Some sg]\<rparr>"

definition signal_for :: "nat \<Rightarrow> bus \<Rightarrow> nat signal \<times> bus" where
  "signal_for fam b =
     (let hs = (if fam \<ge> length (handlers b) then handlers b @ replicate (fam + 1 - length (handlers b)) None else handlers b)
      in case hs ! fam of
           Some sg \<Rightarrow> (sg, b\<lparr>handlers := hs\<rparr>)
         | None \<Rightarrow> (let sg = sig_new 0 None in (sg, b\<lparr>handlers := hs[fam := Some sg]\<rparr>)))"

text \<open>\<open>insert\<close> into the map of connections keeps an entry that is there.\<close>

definition insert_connection :: "nat \<Rightarrow> nat \<Rightarrow> nat \<Rightarrow> bus \<Rightarrow> bus" where
  "insert_connection rcv fam conn b =
     (if fam \<in> fst ` set (connections b rcv) then b
      else b\<lparr>connections := (connections b)(rcv := (fam, conn) # connections b rcv)\<rparr>)"

definition subscribe :: "nat \<Rightarrow> nat \<Rightarrow> nat \<Rightarrow> nat \<Rightarrow> bus \<Rightarrow> sig_error + bus" where
  "subscribe ring_addr addr fam rcv b =
     (let (sg, b1) = signal_for fam b
      in ebind (connect ring_addr addr rcv sg) (\<lambda>(conn, sg1).
         Inr (insert_connection rcv fam conn (set_handler fam sg1 b1))))"

definition disconnect_from :: "nat \<Rightarrow> nat \<Rightarrow> bus \<Rightarrow> bus run_result" where
  "disconnect_from fam conn b =
     (case get_handler fam b of None \<Rightarrow> Some (Inr b)
      | Some sg \<Rightarrow> rbind (disconnect conn sg) (\<lambda>(_, sg1). Some (Inr (set_handler fam sg1 b))))"

definition erase_connection :: "nat \<Rightarrow> nat \<Rightarrow> bus \<Rightarrow> bus" where
  "erase_connection rcv fam b =
     b\<lparr>connections := (connections b)(rcv := filter (\<lambda>c. fst c \<noteq> fam) (connections b rcv))\<rparr>"

definition unsubscribe :: "nat \<Rightarrow> nat \<Rightarrow> bus \<Rightarrow> bus run_result" where
  "unsubscribe fam rcv b =
     (case map_of (connections b rcv) fam of None \<Rightarrow> Some (Inl Assertion_Failed)
      | Some conn \<Rightarrow> rbind (disconnect_from fam conn b) (\<lambda>b1. Some (Inr (erase_connection rcv fam b1))))"

primrec disconnect_all :: "(nat \<times> nat) list \<Rightarrow> bus \<Rightarrow> bus run_result" where
  "disconnect_all [] b = Some (Inr b)"
| "disconnect_all (c # cs) b = rbind (disconnect_from (fst c) (snd c) b) (disconnect_all cs)"

definition unsubscribe_all :: "nat \<Rightarrow> bus \<Rightarrow> bus run_result" where
  "unsubscribe_all rcv b =
     (if connections b rcv = [] then Some (Inl Assertion_Failed)
      else rbind (disconnect_all (connections b rcv) b) (\<lambda>b1. Some (Inr (b1\<lparr>connections := (connections b1)(rcv := [])\<rparr>))))"

text \<open>The destructor of a receiver; its connections go with it.\<close>

definition receiver_destroy :: "nat \<Rightarrow> bus \<Rightarrow> bus run_result" where
  "receiver_destroy rcv b =
     rbind (disconnect_all (connections b rcv) b) (\<lambda>b1. Some (Inr (b1\<lparr>connections := (connections b1)(rcv := [])\<rparr>)))"

definition connected_signals :: "nat \<Rightarrow> bus \<Rightarrow> nat" where
  "connected_signals rcv b = length (filter (\<lambda>c. get_handler (fst c) b \<noteq> None) (connections b rcv))"

definition bus_emit :: "(nat, 'e) caller \<Rightarrow> nat \<Rightarrow> 'e \<Rightarrow> bus \<Rightarrow> ('e \<times> bus) run_result" where
  "bus_emit call fam e b =
     (let (sg, b1) = signal_for fam b
      in rbind (emit call e sg) (\<lambda>(e1, sg1). Some (Inr (e1, set_handler fam sg1 b1))))"

primrec count_loop :: "nat list \<Rightarrow> nat \<Rightarrow> bus \<Rightarrow> (nat \<times> bus) run_result" where
  "count_loop [] n b = Some (Inr (n, b))"
| "count_loop (fam # fams) n b =
     (case get_handler fam b of None \<Rightarrow> count_loop fams n b
      | Some sg \<Rightarrow> rbind (sig_size sg) (\<lambda>(k, sg1). count_loop fams (n + k) (set_handler fam sg1 b)))"

definition connected_receivers :: "bus \<Rightarrow> (nat \<times> bus) run_result" where
  "connected_receivers b = count_loop [0..<length (handlers b)] 0 b"

definition has_subscribed :: "nat \<Rightarrow> bus \<Rightarrow> (bool \<times> bus) run_result" where
  "has_subscribed fam b =
     (case get_handler fam b of None \<Rightarrow> Some (Inr (False, b))
      | Some sg \<Rightarrow> rbind (sig_empty sg) (\<lambda>(em, sg1). Some (Inr (\<not> em, set_handler fam sg1 b))))"

section \<open>The contract of a callback list\<close>

text \<open>What the dispatcher needs of a signal: it holds a list of handlers, connecting appends, disconnecting takes out.\<close>

locale handler_list =
  fixes rel :: "'s \<Rightarrow> (nat \<times> 'f) list \<Rightarrow> bool"
    and fresh :: "nat \<Rightarrow> nat \<Rightarrow> 's \<Rightarrow> bool"
    and empty_list :: 's
    and add :: "nat \<Rightarrow> nat \<Rightarrow> 'f \<Rightarrow> 's \<Rightarrow> sig_error + (nat \<times> 's)"
    and remove :: "nat \<Rightarrow> 's \<Rightarrow> (sig_error + (bool \<times> 's)) option"
  assumes empty_ok: "rel empty_list []"
    and add_ok: "rel s hs \<Longrightarrow> fresh r a s \<Longrightarrow> \<exists>s'. add r a f s = Inr (a, s') \<and> rel s' (hs @ [(a, f)])"
    and fresh_new: "rel s hs \<Longrightarrow> fresh r a s \<Longrightarrow> a \<notin> fst ` set hs"
    and remove_ok: "rel s hs \<Longrightarrow> \<exists>s'. remove i s = Some (Inr (i \<in> fst ` set hs, s')) \<and> rel s' (filter (\<lambda>h. fst h \<noteq> i) hs)"
    and rel_distinct: "rel s hs \<Longrightarrow> distinct (map fst hs)"
begin

lemma remove_handler:
  assumes "rel s hs" "(i, f) \<in> set hs"
  shows "\<exists>s'. remove i s = Some (Inr (True, s')) \<and> rel s' (filter (\<lambda>h. h \<noteq> (i, f)) hs)"
proof -
  have d: "distinct (map fst hs)" by (rule rel_distinct [OF assms(1)])
  have "fst h \<noteq> i \<longleftrightarrow> h \<noteq> (i, f)" if "h \<in> set hs" for h
  proof (cases h)
    case (Pair j g)
    then show ?thesis using eq_key_imp_eq_value [OF d, of i f g] assms(2) that by auto
  qed
  then have "filter (\<lambda>h. fst h \<noteq> i) hs = filter (\<lambda>h. h \<noteq> (i, f)) hs" by (rule filter_cong [OF refl])
  moreover have "i \<in> fst ` set hs" using assms(2) by (metis fst_conv image_eqI)
  ultimately show ?thesis using remove_ok [OF assms(1), of i] by simp
qed

end

definition sig_fresh :: "nat \<Rightarrow> nat \<Rightarrow> 'f signal \<Rightarrow> bool" where
  "sig_fresh r a sg \<longleftrightarrow> links sg a = None \<and> (callback_ring sg = None \<longrightarrow> r \<noteq> a)"

interpretation sl: handler_list "\<lambda>sg. sig_rel sg None" sig_fresh "sig_new 0 None" connect disconnect
proof (unfold_locales, goal_cases)
  case 1
  then show ?case by (rule sig_new_rel)
next
  case (2 s hs r a f)
  then show ?case using connect_rel [of s None hs a r f] by (simp add: sig_fresh_def)
next
  case (3 s hs r a)
  show ?case
  proof
    assume a: "a \<in> fst ` set hs"
    then obtain q where "ring s q None hs (base q)" using 3(1) by (auto simp: sig_rel_def)
    from ring_alive [OF this, of a] a 3(2) show False by (auto simp: sig_fresh_def)
  qed
next
  case (4 s hs i)
  then show ?case by (rule disconnect_rel)
next
  case (5 s hs)
  then show ?case by (auto simp: sig_rel_def ring_def)
qed

section \<open>Subscriptions\<close>

text \<open>The handlers of every family, and that every handler is recorded in its receiver, which is so as long as no
  receiver subscribes twice to a family.\<close>

definition bus_rel :: "bus \<Rightarrow> (nat \<Rightarrow> (nat \<times> nat) list) \<Rightarrow> bool" where
  "bus_rel b subs \<longleftrightarrow>
     (\<forall>fam. case get_handler fam b of None \<Rightarrow> subs fam = [] | Some sg \<Rightarrow> sig_rel sg None (subs fam))"

definition recorded :: "bus \<Rightarrow> (nat \<Rightarrow> (nat \<times> nat) list) \<Rightarrow> bool" where
  "recorded b subs \<longleftrightarrow> (\<forall>rcv fam conn. (fam, conn) \<in> set (connections b rcv) \<longleftrightarrow> (conn, rcv) \<in> set (subs fam)) \<and>
     (\<forall>rcv. distinct (map fst (connections b rcv)))"

lemma get_set_handler: "fam < length (handlers b) \<Longrightarrow> get_handler fam' (set_handler fam sg b) = (if fam' = fam then Some sg else get_handler fam' b)"
  by (auto simp: get_handler_def set_handler_def)

lemma signal_for_rel:
  assumes "bus_rel b subs" "signal_for fam b = (sg, b1)"
  shows "bus_rel b1 subs \<and> get_handler fam b1 = Some sg \<and> connections b1 = connections b \<and> fam < length (handlers b1) \<and>
    (\<forall>sg0. get_handler fam b = Some sg0 \<longrightarrow> sg = sg0) \<and> (get_handler fam b = None \<longrightarrow> sg = sig_new 0 None)"
proof -
  let ?hs = "if fam \<ge> length (handlers b) then handlers b @ replicate (fam + 1 - length (handlers b)) None else handlers b"
  have len: "fam < length ?hs" by auto
  have get: "get_handler f b = (if f < length ?hs then ?hs ! f else None)" for f
    by (auto simp: get_handler_def nth_append)
  show ?thesis
  proof (cases "?hs ! fam")
    case (Some sg0)
    then have "sg = sg0" "b1 = b\<lparr>handlers := ?hs\<rparr>" using assms(2) unfolding signal_for_def Let_def by auto
    moreover have "get_handler f (b\<lparr>handlers := ?hs\<rparr>) = get_handler f b" for f using get [of f] by (simp add: get_handler_def)
    ultimately show ?thesis using assms(1) len Some get [of fam] by (simp add: bus_rel_def)
  next
    case None
    then have b1: "sg = sig_new 0 None" "b1 = b\<lparr>handlers := ?hs[fam := Some (sig_new 0 None)]\<rparr>"
      using assms(2) unfolding signal_for_def Let_def by auto
    moreover have gf: "get_handler f b1 = (if f = fam then Some (sig_new 0 None) else get_handler f b)" for f
      using get [of f] len by (auto simp: b1(2) get_handler_def)
    moreover have "subs fam = []" using assms(1) None get [of fam] len unfolding bus_rel_def by (metis option.simps(4))
    ultimately show ?thesis using assms(1) len None get [of fam] sig_new_rel unfolding bus_rel_def by (auto split: option.splits)
  qed
qed

lemma bus_relD: "bus_rel b subs \<Longrightarrow> get_handler fam b = Some sg \<Longrightarrow> sig_rel sg None (subs fam)"
  "bus_rel b subs \<Longrightarrow> get_handler fam b = None \<Longrightarrow> subs fam = []"
  unfolding bus_rel_def by (metis option.simps(5), metis option.simps(4))

lemma bus_rel_update:
  assumes "bus_rel b subs" "fam < length (handlers b)" "sig_rel sg None hs"
  shows "bus_rel (set_handler fam sg b) (subs(fam := hs))"
  unfolding bus_rel_def
proof
  fix fam'
  show "case get_handler fam' (set_handler fam sg b) of None \<Rightarrow> (subs(fam := hs)) fam' = [] | Some sg \<Rightarrow> sig_rel sg None ((subs(fam := hs)) fam')"
    using assms(2,3) bus_relD [OF assms(1), of fam']
    by (cases "fam' = fam"; cases "get_handler fam' b") (simp_all add: get_set_handler)
qed

lemma bus_rel_connections [simp]: "bus_rel (b\<lparr>connections := c\<rparr>) subs \<longleftrightarrow> bus_rel b subs"
  by (simp add: bus_rel_def get_handler_def)

lemma bus_distinct: "bus_rel b subs \<Longrightarrow> distinct (map fst (subs fam))"
  by (cases "get_handler fam b") (auto dest: bus_relD sl.rel_distinct)

lemma subscribe_rel:
  assumes "bus_rel b subs" "sig_fresh ra a (fst (signal_for fam b))"
  shows "\<exists>b'. subscribe ra a fam rcv b = Inr b' \<and> bus_rel b' (subs(fam := subs fam @ [(a, rcv)])) \<and> a \<notin> fst ` set (subs fam) \<and>
    connections b' = (if fam \<in> fst ` set (connections b rcv) then connections b
                      else (connections b)(rcv := (fam, a) # connections b rcv))"
proof -
  obtain sg b1 where sf: "signal_for fam b = (sg, b1)" by fastforce
  note f = signal_for_rel [OF assms(1) sf]
  then have sg: "sig_rel sg None (subs fam)" using bus_relD(1) by blast
  have fr: "sig_fresh ra a sg" using assms(2) sf by simp
  obtain sg1 where c: "connect ra a rcv sg = Inr (a, sg1)" "sig_rel sg1 None (subs fam @ [(a, rcv)])" using sl.add_ok [OF sg fr] by blast
  have "bus_rel (set_handler fam sg1 b1) (subs(fam := subs fam @ [(a, rcv)]))" using f c(2) by (intro bus_rel_update) auto
  moreover have "connections (set_handler fam sg1 b1) = connections b" using f by (simp add: set_handler_def)
  ultimately show ?thesis using c(1) sf sl.fresh_new [OF sg fr] by (simp add: subscribe_def insert_connection_def)
qed

lemma disconnect_from_rel:
  assumes "bus_rel b subs"
  shows "\<exists>b'. disconnect_from fam conn b = Some (Inr b') \<and> connections b' = connections b \<and>
    bus_rel b' (subs(fam := filter (\<lambda>h. fst h \<noteq> conn) (subs fam)))"
proof (cases "get_handler fam b")
  case None
  then have "subs fam = []" using bus_relD(2) [OF assms] by blast
  then have "subs(fam := filter (\<lambda>h. fst h \<noteq> conn) (subs fam)) = subs" by auto
  then show ?thesis using None assms by (simp add: disconnect_from_def)
next
  case (Some sg)
  then have "fam < length (handlers b)" by (auto simp: get_handler_def split: if_splits)
  moreover obtain sg1 where "disconnect conn sg = Some (Inr (conn \<in> fst ` set (subs fam), sg1))"
    "sig_rel sg1 None (filter (\<lambda>h. fst h \<noteq> conn) (subs fam))" using sl.remove_ok [OF bus_relD(1) [OF assms Some]] by blast
  ultimately show ?thesis using bus_rel_update [OF assms] Some by (simp add: disconnect_from_def set_handler_def)
qed

lemma disconnect_all_rel:
  "bus_rel b subs \<Longrightarrow> \<exists>b'. disconnect_all cs b = Some (Inr b') \<and> connections b' = connections b \<and>
    bus_rel b' (\<lambda>fam. filter (\<lambda>h. (fam, fst h) \<notin> set cs) (subs fam))"
proof (induction cs arbitrary: b subs)
  case (Cons c cs)
  let ?subs = "subs(fst c := filter (\<lambda>h. fst h \<noteq> snd c) (subs (fst c)))"
  obtain b1 where b1: "disconnect_from (fst c) (snd c) b = Some (Inr b1)" "connections b1 = connections b" "bus_rel b1 ?subs"
    using disconnect_from_rel [OF Cons.prems] by blast
  have "(\<lambda>fam. filter (\<lambda>h. (fam, fst h) \<notin> set cs) (?subs fam)) = (\<lambda>fam. filter (\<lambda>h. (fam, fst h) \<notin> set (c # cs)) (subs fam))"
    by (rule ext) (cases c, auto intro: filter_cong)
  then show ?case using Cons.IH [OF b1(3)] b1(1,2) by auto
qed simp

lemma recorded_handlers:
  assumes "bus_rel b subs" "recorded b subs" "h \<in> set (subs fam)"
  shows "(fam, fst h) \<in> set (connections b rcv) \<longleftrightarrow> snd h = rcv"
proof -
  obtain i r where h: "h = (i, r)" by (cases h)
  have "(fam, i) \<in> set (connections b rcv) \<longleftrightarrow> (i, rcv) \<in> set (subs fam)" using assms(2) by (simp add: recorded_def)
  then show ?thesis using h assms(3) eq_key_imp_eq_value [OF bus_distinct [OF assms(1), of fam], of i r rcv] by auto
qed

section \<open>Properties\<close>

text \<open>A subscription reaches the receiver: it appends one handler to the family, under a connection id no other
  handler of it has, and changes no other family; an event of a family then runs its handlers in the order
  of subscription.\<close>

theorem events_reach_subscribers:
  assumes "bus_rel b subs" "sig_fresh ra a (fst (signal_for fam b))" "\<forall>h \<in> set (subs fam @ [(a, rcv)]). behaves call act (\<lambda>_. False) h"
  shows "\<exists>b1 b2. subscribe ra a fam rcv b = Inr b1 \<and> bus_rel b1 (subs(fam := subs fam @ [(a, rcv)])) \<and>
    bus_emit call fam e b1 = Some (Inr (fst (run act (\<lambda>_. False) (subs fam @ [(a, rcv)]) e), b2)) \<and>
    bus_rel b2 (subs(fam := snd (run act (\<lambda>_. False) (subs fam @ [(a, rcv)]) e)))"
proof -
  let ?hs = "subs fam @ [(a, rcv)]"
  obtain b1 where 1: "subscribe ra a fam rcv b = Inr b1" "bus_rel b1 (subs(fam := ?hs))" using subscribe_rel [OF assms(1,2)] by blast
  obtain sg b2 where sf: "signal_for fam b1 = (sg, b2)" by fastforce
  note f = signal_for_rel [OF 1(2) sf]
  then have "sig_rel sg None ?hs" using bus_relD(1) [of b2 "subs(fam := ?hs)" fam sg] by simp
  from emit_rel [OF this assms(3), of e] obtain sg1 where
    2: "emit call e sg = Some (Inr (fst (run act (\<lambda>_. False) ?hs e), sg1))" "sig_rel sg1 None (snd (run act (\<lambda>_. False) ?hs e))" by blast
  have "bus_rel (set_handler fam sg1 b2) (subs(fam := snd (run act (\<lambda>_. False) ?hs e)))"
    using bus_rel_update [OF _ _ 2(2), of b2 "subs(fam := ?hs)" fam] f by simp
  then show ?thesis using 1 sf 2(1) by (simp add: bus_emit_def)
qed

lemma new_bus_rel: "bus_rel new_bus (\<lambda>_. [])"
  by (simp add: bus_rel_def new_bus_def get_handler_def)

lemma new_bus_recorded: "recorded new_bus (\<lambda>_. [])"
  by (simp add: recorded_def new_bus_def)

lemma new_bus_fresh: "r \<noteq> a \<Longrightarrow> sig_fresh r a (fst (signal_for fam new_bus))"
proof -
  assume "r \<noteq> a"
  have "get_handler fam new_bus = None" by (simp add: new_bus_def get_handler_def)
  then have "fst (signal_for fam new_bus) = sig_new 0 None"
    using signal_for_rel [OF new_bus_rel, of fam] by (metis prod.collapse)
  with \<open>r \<noteq> a\<close> show ?thesis by (simp add: sig_fresh_def sig_new_def)
qed

theorem events_reach_subscribers_witness:
  "\<exists>b1 b2. subscribe 10 11 3 7 new_bus = Inr b1 \<and> bus_emit (\<lambda>f e sg. Inr (True, e @ [f], sg)) 3 [] b1 = Some (Inr ([7], b2))"
proof -
  have "\<forall>h \<in> set ((\<lambda>_. []) 3 @ [(11, 7)]). behaves (\<lambda>f e sg. Inr (True, e @ [f], sg)) (\<lambda>h e. (True, e @ [snd h])) (\<lambda>_. False) h"
    by (simp add: behaves_def)
  from events_reach_subscribers [OF new_bus_rel new_bus_fresh [of 10 11] this, of 3 "[]"] show ?thesis by auto
qed

text \<open>Destroying a receiver takes all its handlers out of all families and leaves those of the others, if every handler
  is recorded in its receiver, as it is when no receiver subscribes twice to a family. Subscribing keeps that
  for a receiver that is not yet subscribed to the family.\<close>

theorem destroyed_receiver_leaves_no_handler:
  assumes "bus_rel b subs" "recorded b subs"
  shows "(\<exists>b'. receiver_destroy rcv b = Some (Inr b') \<and> bus_rel b' (\<lambda>fam. filter (\<lambda>h. snd h \<noteq> rcv) (subs fam)) \<and>
      recorded b' (\<lambda>fam. filter (\<lambda>h. snd h \<noteq> rcv) (subs fam))) \<and>
    (sig_fresh ra a (fst (signal_for fam b)) \<and> fam \<notin> fst ` set (connections b rcv) \<longrightarrow>
      (\<exists>b'. subscribe ra a fam rcv b = Inr b' \<and> recorded b' (subs(fam := subs fam @ [(a, rcv)]))))"
proof (intro conjI impI; (elim conjE)?)
  obtain b1 where 1: "disconnect_all (connections b rcv) b = Some (Inr b1)" "connections b1 = connections b"
    "bus_rel b1 (\<lambda>fam. filter (\<lambda>h. (fam, fst h) \<notin> set (connections b rcv)) (subs fam))"
    using disconnect_all_rel [OF assms(1)] by blast
  have "(\<lambda>fam. filter (\<lambda>h. (fam, fst h) \<notin> set (connections b rcv)) (subs fam)) = (\<lambda>fam. filter (\<lambda>h. snd h \<noteq> rcv) (subs fam))"
    by (intro ext filter_cong refl) (simp add: recorded_handlers [OF assms])
  then show "\<exists>b'. receiver_destroy rcv b = Some (Inr b') \<and> bus_rel b' (\<lambda>fam. filter (\<lambda>h. snd h \<noteq> rcv) (subs fam)) \<and>
      recorded b' (\<lambda>fam. filter (\<lambda>h. snd h \<noteq> rcv) (subs fam))"
    using 1 assms(2) by (auto simp: receiver_destroy_def recorded_def)
next
  assume fr: "sig_fresh ra a (fst (signal_for fam b))" and new: "fam \<notin> fst ` set (connections b rcv)"
  obtain b' where b': "subscribe ra a fam rcv b = Inr b'" "connections b' = (connections b)(rcv := (fam, a) # connections b rcv)"
    using subscribe_rel [OF assms(1) fr, of rcv] new by auto
  then show "\<exists>b'. subscribe ra a fam rcv b = Inr b' \<and> recorded b' (subs(fam := subs fam @ [(a, rcv)]))"
    using assms(2) new by (auto simp: recorded_def)
qed

theorem destroyed_receiver_leaves_no_handler_witness:
  "\<exists>b1 b2. subscribe 10 11 3 7 new_bus = Inr b1 \<and> receiver_destroy 7 b1 = Some (Inr b2) \<and> bus_rel b2 (\<lambda>_. [])"
proof -
  have fr: "sig_fresh 10 11 (fst (signal_for 3 new_bus))" by (rule new_bus_fresh) simp
  obtain b1 where 1: "subscribe 10 11 3 7 new_bus = Inr b1" "recorded b1 ((\<lambda>_. [])(3 := [(11, 7)]))"
    using destroyed_receiver_leaves_no_handler [OF new_bus_rel new_bus_recorded, of 7 10 11 3] fr by (auto simp: new_bus_def)
  have "bus_rel b1 ((\<lambda>_. [])(3 := [(11, 7)]))" using subscribe_rel [OF new_bus_rel fr, of 7] 1(1) by simp
  from destroyed_receiver_leaves_no_handler [OF this 1(2), of 7] obtain b2 where
    "receiver_destroy 7 b1 = Some (Inr b2)" "bus_rel b2 (\<lambda>fam. filter (\<lambda>h. snd h \<noteq> 7) (((\<lambda>_. [])(3 := [(11, 7)])) fam))" by blast
  moreover have "(\<lambda>fam. filter (\<lambda>h. snd h \<noteq> 7) (((\<lambda>_. [])(3 := [(11, 7)])) fam)) = (\<lambda>_. [])" by auto
  ultimately show ?thesis using 1(1) by auto
qed

text \<open>A receiver that subscribes twice to a family and is destroyed leaves the second handler behind, because
  only the first connection is recorded: the next event of the family calls a receiver that no longer exists.\<close>

theorem double_subscription_dangles:
  assumes "bus_rel b subs" "connections b rcv = []" "sig_fresh ra1 a1 (fst (signal_for fam b))"
    "subscribe ra1 a1 fam rcv b = Inr b1" "sig_fresh ra2 a2 (fst (signal_for fam b1))"
  shows "\<exists>b2 b3. subscribe ra2 a2 fam rcv b1 = Inr b2 \<and> receiver_destroy rcv b2 = Some (Inr b3) \<and>
    bus_rel b3 (subs(fam := subs fam @ [(a2, rcv)]))"
proof -
  let ?s1 = "subs(fam := subs fam @ [(a1, rcv)])"
  have b1: "bus_rel b1 ?s1" "connections b1 rcv = [(fam, a1)]" "a1 \<notin> fst ` set (subs fam)"
    using subscribe_rel [OF assms(1,3), of rcv] assms(2,4) by auto
  let ?s2 = "subs(fam := subs fam @ [(a1, rcv), (a2, rcv)])"
  obtain b2 where b2: "subscribe ra2 a2 fam rcv b1 = Inr b2" "bus_rel b2 ?s2" "connections b2 rcv = [(fam, a1)]" "a2 \<noteq> a1"
    using subscribe_rel [OF b1(1) assms(5), of rcv] b1(2) by auto
  obtain b3 where b3: "disconnect_all [(fam, a1)] b2 = Some (Inr b3)"
    "bus_rel b3 (\<lambda>f. filter (\<lambda>h. (f, fst h) \<notin> set [(fam, a1)]) (?s2 f))" using disconnect_all_rel [OF b2(2)] by blast
  have "(\<lambda>f. filter (\<lambda>h. (f, fst h) \<notin> set [(fam, a1)]) (?s2 f)) = subs(fam := subs fam @ [(a2, rcv)])"
    using b2(4) filter_other [OF b1(3)] by (auto simp: fun_eq_iff)
  with b3 have "receiver_destroy rcv b2 = Some (Inr (b3\<lparr>connections := (connections b3)(rcv := [])\<rparr>))"
    "bus_rel (b3\<lparr>connections := (connections b3)(rcv := [])\<rparr>) (subs(fam := subs fam @ [(a2, rcv)]))"
    using b2(3) by (simp_all add: receiver_destroy_def)
  with b2(1) show ?thesis by blast
qed

theorem double_subscription_dangles_witness:
  "\<exists>b1 b2 b3. subscribe 10 11 3 7 new_bus = Inr b1 \<and> subscribe 10 12 3 7 b1 = Inr b2 \<and> receiver_destroy 7 b2 = Some (Inr b3) \<and>
     bus_rel b3 ((\<lambda>_. [])(3 := [(12, 7)]))"
proof -
  have fr: "sig_fresh 10 11 (fst (signal_for 3 new_bus))" by (rule new_bus_fresh) simp
  obtain b1 where 1: "subscribe 10 11 3 7 new_bus = Inr b1" using subscribe_rel [OF new_bus_rel fr] by blast
  have "map_option (\<lambda>sg. (links sg 12, callback_ring sg)) (get_handler 3 b1) = Some (None, Some 10)"
    using 1 by (auto simp: subscribe_def signal_for_def new_bus_def connect_def ensure_ring_def sig_new_def add_before_def set_next_def
        set_prev_def deref_def put_link_def new_link_def insert_connection_def set_handler_def get_handler_def Let_def nth_append)
  then obtain sg where sg: "get_handler 3 b1 = Some sg" "links sg 12 = None" "callback_ring sg = Some 10" by auto
  have rel1: "\<exists>subs. bus_rel b1 subs" using subscribe_rel [OF new_bus_rel fr, of 7] 1 by auto
  then have "fst (signal_for 3 b1) = sg" using signal_for_rel [of b1 _ 3] sg(1) by (metis prod.collapse)
  then have "sig_fresh 10 12 (fst (signal_for 3 b1))" using sg by (simp add: sig_fresh_def)
  moreover have "connections new_bus 7 = []" by (simp add: new_bus_def)
  ultimately show ?thesis using double_subscription_dangles [OF new_bus_rel _ fr 1, of 10 12] 1 by auto
qed

text \<open>Asking whether a family has subscribers after an event was emitted that had none follows a null pointer: the
  emission created the signal, and only a subscription gives it a ring. The number of connected receivers fails in the same way.\<close>

theorem query_after_unheard_event_faults:
  assumes "get_handler fam b = None" "bus_rel b subs"
  shows "\<exists>b1. bus_emit call fam e b = Some (Inr (e, b1)) \<and> has_subscribed fam b = Some (Inr (False, b)) \<and>
    has_subscribed fam b1 = Some (Inl Null_Pointer)"
proof -
  obtain sg b1 where sf: "signal_for fam b = (sg, b1)" by fastforce
  note f = signal_for_rel [OF assms(2) sf]
  then have sg: "callback_ring sg = None" using assms(1) by (simp add: sig_new_def)
  then have "bus_emit call fam e b = Some (Inr (e, set_handler fam sg b1))" using sf by (simp add: bus_emit_def emit_def)
  moreover have "has_subscribed fam (set_handler fam sg b1) = Some (Inl Null_Pointer)"
    using f size_without_ring [OF sg] by (simp add: has_subscribed_def get_set_handler)
  ultimately show ?thesis using assms(1) by (simp add: has_subscribed_def)
qed

theorem query_after_unheard_event_faults_witness:
  "\<exists>b1. bus_emit (\<lambda>f e sg. Inr (True, e, sg)) 3 () new_bus = Some (Inr ((), b1)) \<and> has_subscribed 3 b1 = Some (Inl Null_Pointer)"
proof -
  have "get_handler 3 new_bus = None" by (simp add: new_bus_def get_handler_def)
  from query_after_unheard_event_faults [OF this new_bus_rel, of "\<lambda>f e sg. Inr (True, e, sg)" "()"] show ?thesis by blast
qed

end
