(* ===== verification/Go_Channel.thy ===== *)
theory Go_Channel
  imports Prelude
begin

text \<open>
  Channels between threads in the style of Go (\<open>src/network/base/channel.h\<close>): \<open>_channel\<close> with its
  blocking and nonblocking operations, and \<open>select\<close>. A thread is a number. What a thread does while it
  holds the mutex is one function on the channel; between such sections a thread notifies or waits on one of
  the three condition variables. \<open>gc_call\<close> is what the environment does (a thread calls an
  operation, a waiting thread wakes up spuriously), \<open>gc_run\<close> one section or notification of a thread. A failing
  \<open>assert\<close> is an error value and ends the program. Moving an element is taken not to throw.
\<close>

section \<open>Model\<close>

datatype assertion = Not_Try_Ready | Full_Has_Sender | One_Kind_Of_Send | Not_Own_Element | Queue_Not_Full
  | Send_Is_Done | Try_Send_Is_Done | Receiver_Waits

datatype cond_var = Send_Begin_CV | Send_End_CV | Recv_CV

record 'v chan =
  m_queue :: "(nat \<times> 'v) list"
  m_is_send_done :: bool
  m_is_try_send_done :: bool
  m_is_recv_ready :: bool
  m_is_try_send_ready :: bool
  m_is_try_recv_ready :: bool

definition chan_new :: "'v chan" where
  "chan_new = \<lparr>m_queue = [], m_is_send_done = True, m_is_try_send_done = True, m_is_recv_ready = False,
     m_is_try_send_ready = False, m_is_try_recv_ready = False\<rparr>"

definition is_full :: "nat \<Rightarrow> 'v chan \<Rightarrow> bool" where
  "is_full N c \<longleftrightarrow> length (m_queue c) > N"

definition is_try_ready :: "'v chan \<Rightarrow> bool" where
  "is_try_ready c \<longleftrightarrow> m_is_try_recv_ready c \<and> m_is_try_send_ready c"

definition assert_that :: "assertion \<Rightarrow> bool \<Rightarrow> (unit \<Rightarrow> assertion + 'a) \<Rightarrow> assertion + 'a" where
  "assert_that a b k = (if b then k () else Inl a)"

subsection \<open>Receiving\<close>

text \<open>\<open>_pre_blocking_recv\<close> announces the receiver and waits until the queue is not empty.\<close>

definition pre_blocking_recv :: "'v chan \<Rightarrow> 'v chan" where
  "pre_blocking_recv c = c\<lparr>m_is_recv_ready := True\<rparr>"

definition recv_awaited :: "'v chan \<Rightarrow> bool" where
  "recv_awaited c \<longleftrightarrow> m_queue c \<noteq> []"

text \<open>The second component is the condition variable that is notified after unlocking.\<close>

definition post_blocking_recv :: "nat \<Rightarrow> 'v chan \<Rightarrow> assertion + 'v chan \<times> cond_var" where
  "post_blocking_recv N c =
     assert_that Full_Has_Sender (\<not> is_full N c \<or> \<not> m_is_send_done c \<or> \<not> m_is_try_send_done c) (\<lambda>_.
     assert_that One_Kind_Of_Send (m_is_try_send_done c \<or> m_is_send_done c) (\<lambda>_.
     let c1 = c\<lparr>m_queue := tl (m_queue c)\<rparr> in
     assert_that Queue_Not_Full (\<not> is_full N c1) (\<lambda>_.
     let c2 = c1\<lparr>m_is_try_send_done := True, m_is_recv_ready := False, m_is_try_recv_ready := False, m_is_try_send_ready := False\<rparr>
     in Inr (c2, if m_is_send_done c2 then Send_Begin_CV else Send_End_CV))))"

text \<open>The rest of \<open>recv\<close> once the queue is not empty; the other two forms of \<open>recv\<close> differ in where the value goes.\<close>

definition recv_front :: "nat \<Rightarrow> nat \<Rightarrow> 'v chan \<Rightarrow> assertion + 'v \<times> 'v chan \<times> cond_var" where
  "recv_front N tid c =
     assert_that Not_Try_Ready (\<not> is_try_ready c) (\<lambda>_.
     let (sender, v) = hd (m_queue c) in
     assert_that Not_Own_Element (\<not> is_full N c \<or> tid \<noteq> sender) (\<lambda>_.
     ebind (post_blocking_recv N c) (\<lambda>(c', cv). Inr (v, c', cv))))"

definition try_recv_ptr :: "nat \<Rightarrow> nat \<Rightarrow> 'v chan \<Rightarrow> assertion + ('v \<times> cond_var) option \<times> 'v chan" where
  "try_recv_ptr N tid c0 =
     (let c = c0\<lparr>m_is_try_recv_ready := True\<rparr> in
      if m_queue c = [] then Inr (None, c)
      else
        assert_that Full_Has_Sender (\<not> is_full N c \<or> \<not> m_is_send_done c \<or> \<not> m_is_try_send_done c) (\<lambda>_.
        assert_that One_Kind_Of_Send (m_is_try_send_done c \<or> m_is_send_done c) (\<lambda>_.
        let (sender, v) = hd (m_queue c) in
        assert_that Not_Own_Element (\<not> is_full N c \<or> tid \<noteq> sender) (\<lambda>_.
        let c1 = c\<lparr>m_queue := tl (m_queue c)\<rparr> in
        assert_that Queue_Not_Full (\<not> is_full N c1) (\<lambda>_.
        let c2 = c1\<lparr>m_is_try_send_done := True, m_is_try_recv_ready := False, m_is_try_send_ready := False\<rparr>
        in Inr (Some (v, if m_is_send_done c2 then Send_Begin_CV else Send_End_CV), c2))))))"

subsection \<open>Sending\<close>

definition send_ready :: "nat \<Rightarrow> 'v chan \<Rightarrow> bool" where
  "send_ready N c \<longleftrightarrow> m_is_send_done c \<and> m_is_try_send_done c \<and> \<not> is_full N c"

definition send_enqueue :: "nat \<Rightarrow> nat \<Rightarrow> 'v \<Rightarrow> 'v chan \<Rightarrow> assertion + 'v chan" where
  "send_enqueue N tid u c =
     assert_that Send_Is_Done (m_is_send_done c) (\<lambda>_.
     assert_that Try_Send_Is_Done (m_is_try_send_done c) (\<lambda>_.
     assert_that Queue_Not_Full (\<not> is_full N c) (\<lambda>_.
     assert_that Not_Try_Ready (\<not> is_try_ready c) (\<lambda>_.
     Inr (c\<lparr>m_queue := m_queue c @ [(tid, u)], m_is_send_done := False\<rparr>)))))"

definition send_finish :: "'v chan \<Rightarrow> 'v chan" where
  "send_finish c = c\<lparr>m_is_send_done := True\<rparr>"

definition try_send :: "nat \<Rightarrow> nat \<Rightarrow> 'v \<Rightarrow> 'v chan \<Rightarrow> assertion + bool \<times> 'v chan" where
  "try_send N tid u c0 =
     (let c = c0\<lparr>m_is_try_send_ready := True\<rparr> in
      assert_that Not_Try_Ready (\<not> is_try_ready c) (\<lambda>_.
      if \<not> m_is_send_done c \<or> \<not> m_is_try_send_done c \<or> is_full N c \<or> (0 = N - length (m_queue c) \<and> \<not> m_is_recv_ready c)
      then Inr (False, c)
      else
        assert_that Send_Is_Done (m_is_send_done c) (\<lambda>_.
        assert_that Try_Send_Is_Done (m_is_try_send_done c) (\<lambda>_.
        assert_that Queue_Not_Full (\<not> is_full N c) (\<lambda>_.
        let c1 = c\<lparr>m_is_try_send_done := (0 < N - length (m_queue c))\<rparr> in
        assert_that Receiver_Waits (m_is_try_send_done c1 \<or> m_is_recv_ready c1) (\<lambda>_.
        Inr (True, c1\<lparr>m_queue := m_queue c1 @ [(tid, u)]\<rparr>)))))))"

subsection \<open>Select\<close>

text \<open>A case of a \<open>select\<close> works on the state \<open>'s\<close> of the program, in which \<open>get\<close> and \<open>put\<close> reach the channel
  and \<open>try_lock\<close> says whether its mutex is free.\<close>

type_synonym 's try_function = "'s \<Rightarrow> assertion + bool \<times> 's"

definition try_send_nullary :: "('s \<Rightarrow> 'v chan) \<Rightarrow> ('v chan \<Rightarrow> 's \<Rightarrow> 's) \<Rightarrow> ('s \<Rightarrow> bool) \<Rightarrow> nat \<Rightarrow> nat \<Rightarrow> 'v \<Rightarrow> ('s \<Rightarrow> 's) \<Rightarrow> 's try_function" where
  "try_send_nullary get put try_lock N tid u f s =
     (if try_lock s
      then ebind (try_send N tid u (get s)) (\<lambda>(ok, c). Inr (ok, if ok then f (put c s) else put c s))
      else Inr (False, s))"

definition try_recv_unary :: "('s \<Rightarrow> 'v chan) \<Rightarrow> ('v chan \<Rightarrow> 's \<Rightarrow> 's) \<Rightarrow> ('s \<Rightarrow> bool) \<Rightarrow> nat \<Rightarrow> nat \<Rightarrow> ('v \<Rightarrow> 's \<Rightarrow> 's) \<Rightarrow> 's try_function" where
  "try_recv_unary get put try_lock N tid f s =
     (if try_lock s
      then ebind (try_recv_ptr N tid (get s)) (\<lambda>(r, c).
             case r of None \<Rightarrow> Inr (False, put c s) | Some (v, _) \<Rightarrow> Inr (True, f v (put c s)))
      else Inr (False, s))"

definition try_recv_nullary :: "('s \<Rightarrow> 'v chan) \<Rightarrow> ('v chan \<Rightarrow> 's \<Rightarrow> 's) \<Rightarrow> ('s \<Rightarrow> bool) \<Rightarrow> nat \<Rightarrow> nat \<Rightarrow> ('v \<Rightarrow> 's \<Rightarrow> 's) \<Rightarrow> ('s \<Rightarrow> 's) \<Rightarrow> 's try_function" where
  "try_recv_nullary get put try_lock N tid assign f s =
     (if try_lock s
      then ebind (try_recv_ptr N tid (get s)) (\<lambda>(r, c).
             case r of None \<Rightarrow> Inr (False, put c s) | Some (v, _) \<Rightarrow> Inr (True, f (assign v (put c s))))
      else Inr (False, s))"

text \<open>The cases are tried in a circle from the drawn number \<open>i\<close>.\<close>

function try_from :: "'s try_function list \<Rightarrow> nat \<Rightarrow> nat \<Rightarrow> 's try_function" where
  "try_from fs i j s =
     (if j < length fs
      then ebind ((fs ! ((i + j) mod length fs)) s) (\<lambda>(ok, t). if ok then Inr (True, t) else try_from fs i (j + 1) t)
      else Inr (False, s))"
  by pat_completeness auto
termination by (relation "measure (\<lambda>(fs, i, j, s). length fs - j)") auto

definition try_once :: "nat \<Rightarrow> 's try_function list \<Rightarrow> 's try_function" where
  "try_once i fs s = try_from fs i 0 s"

text \<open>\<open>wait\<close> loops until a case succeeds; with no case the remainder by zero is an error (\<open>None\<close> inside).\<close>

partial_function (option) wait_loop :: "'s try_function list \<Rightarrow> nat \<Rightarrow> 's \<Rightarrow> (assertion + 's) option" where
  "wait_loop fs i s =
     (let k = (i + 1) mod length fs
      in case (fs ! k) s of
           Inl a \<Rightarrow> Some (Inl a)
         | Inr (ok, t) \<Rightarrow> if ok then Some (Inr t) else wait_loop fs k t)"

definition select_wait :: "nat \<Rightarrow> 's try_function list \<Rightarrow> 's \<Rightarrow> (assertion + 's) option option" where
  "select_wait i fs s = (if fs = [] then None else Some (wait_loop fs i s))"

subsection \<open>Threads\<close>

text \<open>Where a thread stands. A thread that has enqueued an element carries its position among all elements sent.\<close>

datatype 'v pc = Idle | Begin_Check 'v | Begin_Wait 'v | Send_Notify nat | End_Check nat | End_Wait nat | Send_Done nat
  | Recv_Call | Recv_Check | Recv_Wait | Recv_Notify cond_var | Try_Notify

fun waits_on :: "'v pc \<Rightarrow> cond_var option" where
  "waits_on (Begin_Wait v) = Some Send_Begin_CV"
| "waits_on (End_Wait p) = Some Send_End_CV"
| "waits_on Recv_Wait = Some Recv_CV"
| "waits_on _ = None"

fun woken :: "'v pc \<Rightarrow> 'v pc" where
  "woken (Begin_Wait v) = Begin_Check v"
| "woken (End_Wait p) = End_Check p"
| "woken Recv_Wait = Recv_Check"
| "woken p = p"

fun notifies :: "'v pc \<Rightarrow> (cond_var \<times> 'v pc) option" where
  "notifies (Send_Notify p) = Some (Recv_CV, End_Check p)"
| "notifies (Send_Done p) = Some (Send_Begin_CV, Idle)"
| "notifies (Recv_Notify cv) = Some (cv, Idle)"
| "notifies Try_Notify = Some (Recv_CV, Idle)"
| "notifies _ = None"

record 'v gst =
  chn :: "'v chan"
  pcs :: "'v pc list"
  sent :: "(nat \<times> 'v) list"
  received :: "(nat \<times> 'v) list"
  failed :: "assertion option"

definition gc_init :: "nat \<Rightarrow> 'v gst" where
  "gc_init threads = \<lparr>chn = chan_new, pcs = replicate threads Idle, sent = [], received = [], failed = None\<rparr>"

definition at_pc :: "nat \<Rightarrow> 'v pc \<Rightarrow> 'v gst \<Rightarrow> bool" where
  "at_pc i p s \<longleftrightarrow> failed s = None \<and> i < length (pcs s) \<and> pcs s ! i = p"

definition goto :: "nat \<Rightarrow> 'v pc \<Rightarrow> 'v gst \<Rightarrow> 'v gst" where
  "goto i p s = s\<lparr>pcs := (pcs s)[i := p]\<rparr>"

definition abort :: "assertion \<Rightarrow> 'v gst \<Rightarrow> 'v gst" where
  "abort a s = s\<lparr>failed := Some a\<rparr>"

definition took :: "'v chan \<Rightarrow> 'v gst \<Rightarrow> 'v gst" where
  "took c s = s\<lparr>received := received s @ [hd (m_queue (chn s))], chn := c\<rparr>"

definition put_in :: "nat \<Rightarrow> 'v \<Rightarrow> 'v chan \<Rightarrow> 'v gst \<Rightarrow> 'v gst" where
  "put_in i v c s = s\<lparr>sent := sent s @ [(i, v)], chn := c\<rparr>"

text \<open>What a receiver finds when it gets the mutex: on its first entry it announces itself.\<close>

fun recv_view :: "'v pc \<Rightarrow> 'v chan \<Rightarrow> 'v chan option" where
  "recv_view Recv_Call c = Some (pre_blocking_recv c)"
| "recv_view Recv_Check c = Some c"
| "recv_view _ c = None"

datatype op = Op_Send | Op_Recv | Op_Try_Send | Op_Try_Recv

text \<open>\<open>may i op\<close> says which operations thread \<open>i\<close> of the program uses.\<close>

inductive gc_call :: "nat \<Rightarrow> (nat \<Rightarrow> op \<Rightarrow> bool) \<Rightarrow> 'v gst \<Rightarrow> 'v gst \<Rightarrow> bool" for N may where
  call_send: "may i Op_Send \<Longrightarrow> at_pc i Idle s \<Longrightarrow> gc_call N may s (goto i (Begin_Check v) s)"
| call_recv: "may i Op_Recv \<Longrightarrow> at_pc i Idle s \<Longrightarrow> gc_call N may s (goto i Recv_Call s)"
| try_send_fail: "may i Op_Try_Send \<Longrightarrow> at_pc i Idle s \<Longrightarrow> try_send N i v (chn s) = Inr (False, c) \<Longrightarrow>
    gc_call N may s (s\<lparr>chn := c\<rparr>)"
| try_send_ok: "may i Op_Try_Send \<Longrightarrow> at_pc i Idle s \<Longrightarrow> try_send N i v (chn s) = Inr (True, c) \<Longrightarrow>
    gc_call N may s (goto i Try_Notify (put_in i v c s))"
| try_send_abort: "may i Op_Try_Send \<Longrightarrow> at_pc i Idle s \<Longrightarrow> try_send N i v (chn s) = Inl a \<Longrightarrow>
    gc_call N may s (abort a s)"
| try_recv_fail: "may i Op_Try_Recv \<Longrightarrow> at_pc i Idle s \<Longrightarrow> try_recv_ptr N i (chn s) = Inr (None, c) \<Longrightarrow>
    gc_call N may s (s\<lparr>chn := c\<rparr>)"
| try_recv_ok: "may i Op_Try_Recv \<Longrightarrow> at_pc i Idle s \<Longrightarrow> try_recv_ptr N i (chn s) = Inr (Some (v, cv), c) \<Longrightarrow>
    gc_call N may s (goto i (Recv_Notify cv) (took c s))"
| try_recv_abort: "may i Op_Try_Recv \<Longrightarrow> at_pc i Idle s \<Longrightarrow> try_recv_ptr N i (chn s) = Inl a \<Longrightarrow>
    gc_call N may s (abort a s)"
| spurious: "at_pc i p s \<Longrightarrow> waits_on p \<noteq> None \<Longrightarrow> gc_call N may s (goto i (woken p) s)"

inductive gc_run :: "nat \<Rightarrow> 'v gst \<Rightarrow> 'v gst \<Rightarrow> bool" for N where
  begin_wait: "at_pc i (Begin_Check v) s \<Longrightarrow> \<not> send_ready N (chn s) \<Longrightarrow> gc_run N s (goto i (Begin_Wait v) s)"
| begin_go: "at_pc i (Begin_Check v) s \<Longrightarrow> send_ready N (chn s) \<Longrightarrow> send_enqueue N i v (chn s) = Inr c \<Longrightarrow>
    gc_run N s (goto i (Send_Notify (length (sent s))) (put_in i v c s))"
| begin_abort: "at_pc i (Begin_Check v) s \<Longrightarrow> send_ready N (chn s) \<Longrightarrow> send_enqueue N i v (chn s) = Inl a \<Longrightarrow>
    gc_run N s (abort a s)"
| end_wait: "at_pc i (End_Check p) s \<Longrightarrow> is_full N (chn s) \<Longrightarrow> gc_run N s (goto i (End_Wait p) s)"
| end_go: "at_pc i (End_Check p) s \<Longrightarrow> \<not> is_full N (chn s) \<Longrightarrow>
    gc_run N s (goto i (Send_Done p) (s\<lparr>chn := send_finish (chn s)\<rparr>))"
| recv_wait: "at_pc i p s \<Longrightarrow> recv_view p (chn s) = Some c \<Longrightarrow> \<not> recv_awaited c \<Longrightarrow>
    gc_run N s (goto i Recv_Wait (s\<lparr>chn := c\<rparr>))"
| recv_go: "at_pc i p s \<Longrightarrow> recv_view p (chn s) = Some c \<Longrightarrow> recv_awaited c \<Longrightarrow> recv_front N i c = Inr (v, c', cv) \<Longrightarrow>
    gc_run N s (goto i (Recv_Notify cv) (took c' s))"
| recv_abort: "at_pc i p s \<Longrightarrow> recv_view p (chn s) = Some c \<Longrightarrow> recv_awaited c \<Longrightarrow> recv_front N i c = Inl a \<Longrightarrow>
    gc_run N s (abort a s)"
| notify_one: "at_pc i p s \<Longrightarrow> notifies p = Some (cv, p') \<Longrightarrow> at_pc j q s \<Longrightarrow> waits_on q = Some cv \<Longrightarrow>
    gc_run N s (goto i p' (goto j (woken q) s))"
| notify_none: "at_pc i p s \<Longrightarrow> notifies p = Some (cv, p') \<Longrightarrow> \<forall>q\<in>set (pcs s). waits_on q \<noteq> Some cv \<Longrightarrow>
    gc_run N s (goto i p' s)"

definition gc_step :: "nat \<Rightarrow> (nat \<Rightarrow> op \<Rightarrow> bool) \<Rightarrow> 'v gst \<Rightarrow> 'v gst \<Rightarrow> bool" where
  "gc_step N may s t \<longleftrightarrow> gc_call N may s t \<or> gc_run N s t"

section \<open>Counting threads\<close>

definition cnt :: "('v pc \<Rightarrow> bool) \<Rightarrow> 'v gst \<Rightarrow> int" where
  "cnt P s = int (length (filter P (pcs s)))"

lemma length_filter_update:
  "i < length xs \<Longrightarrow> int (length (filter P (xs[i := x]))) = int (length (filter P xs)) - of_bool (P (xs ! i)) + of_bool (P x)"
proof (induction xs arbitrary: i)
  case (Cons y ys)
  then show ?case by (cases i) auto
qed simp

lemma cnt_goto [simp]:
  "at_pc i q s \<Longrightarrow> cnt P (goto i p s) = cnt P s - of_bool (P q) + of_bool (P p)"
  by (auto simp: cnt_def goto_def at_pc_def length_filter_update)

lemma cnt_frame [simp]:
  "cnt P (s\<lparr>chn := c\<rparr>) = cnt P s" "cnt P (took c s) = cnt P s" "cnt P (put_in i v c s) = cnt P s" "cnt P (abort a s) = cnt P s"
  by (simp_all add: cnt_def took_def put_in_def abort_def)

lemma cnt_nonneg: "0 \<le> cnt P s"
  by (simp add: cnt_def)

lemma cnt_pos: "at_pc i p s \<Longrightarrow> P p \<Longrightarrow> 1 \<le> cnt P s"
proof -
  assume "at_pc i p s" "P p"
  then have "p \<in> set (filter P (pcs s))" by (auto simp: at_pc_def)
  then have "filter P (pcs s) \<noteq> []" by (metis empty_iff empty_set)
  then show ?thesis by (cases "filter P (pcs s)") (simp_all add: cnt_def)
qed

lemma cnt_zero_iff: "cnt P s = 0 \<longleftrightarrow> (\<forall>p\<in>set (pcs s). \<not> P p)"
  by (auto simp: cnt_def filter_empty_conv)

lemma at_pc_frame [simp]:
  "at_pc i p (s\<lparr>chn := c\<rparr>) = at_pc i p s" "at_pc i p (took c s) = at_pc i p s" "at_pc i p (put_in j v c s) = at_pc i p s"
  by (simp_all add: at_pc_def took_def put_in_def)

lemma at_pc_goto: "at_pc i p s \<Longrightarrow> i \<noteq> j \<Longrightarrow> at_pc i p (goto j q s)"
  by (simp add: at_pc_def goto_def)

lemma gst_simps [simp]:
  "chn (goto i p s) = chn s" "sent (goto i p s) = sent s" "received (goto i p s) = received s" "failed (goto i p s) = failed s"
  "chn (took c s) = c" "sent (took c s) = sent s" "received (took c s) = received s @ [hd (m_queue (chn s))]" "failed (took c s) = failed s"
  "chn (put_in i v c s) = c" "sent (put_in i v c s) = sent s @ [(i, v)]" "received (put_in i v c s) = received s"
  "failed (put_in i v c s) = failed s" "chn (abort a s) = chn s" "sent (abort a s) = sent s" "received (abort a s) = received s"
  "failed (abort a s) = Some a" "pcs (abort a s) = pcs s" "pcs (took c s) = pcs s" "pcs (put_in i v c s) = pcs s"
  "pcs (goto i p s) = (pcs s)[i := p]"
  by (simp_all add: goto_def took_def put_in_def abort_def)

section \<open>What the sections do\<close>

lemmas section_defs = assert_that_def is_full_def is_try_ready_def Let_def

lemma recv_front_Inr:
  assumes "recv_front N tid c = Inr (v, c', cv)" "m_queue c \<noteq> []"
  shows "length (m_queue c) \<le> Suc N" "m_queue c' = tl (m_queue c)" "m_is_send_done c' = m_is_send_done c"
    "m_is_try_send_done c'" "\<not> m_is_recv_ready c'" "\<not> m_is_try_send_ready c'" "\<not> m_is_try_recv_ready c'"
    "cv = (if m_is_send_done c then Send_Begin_CV else Send_End_CV)" "v = snd (hd (m_queue c))"
  using assms by (auto simp: recv_front_def post_blocking_recv_def section_defs split: if_splits prod.splits)

lemma try_recv_Some:
  assumes "try_recv_ptr N tid c = Inr (Some (v, cv), c')"
  shows "m_queue c \<noteq> []" "length (m_queue c) \<le> Suc N" "m_queue c' = tl (m_queue c)"
    "m_is_send_done c' = m_is_send_done c" "m_is_try_send_done c'" "m_is_recv_ready c' = m_is_recv_ready c"
    "\<not> m_is_try_send_ready c'" "\<not> m_is_try_recv_ready c'"
    "cv = (if m_is_send_done c then Send_Begin_CV else Send_End_CV)" "v = snd (hd (m_queue c))"
  using assms by (auto simp: try_recv_ptr_def section_defs split: if_splits prod.splits)

lemma try_recv_None: "try_recv_ptr N tid c = Inr (None, c') \<Longrightarrow> m_queue c = [] \<and> c' = c\<lparr>m_is_try_recv_ready := True\<rparr>"
  by (auto simp: try_recv_ptr_def section_defs split: if_splits prod.splits)

lemma send_enqueue_Inr:
  "send_enqueue N tid u c = Inr c' \<Longrightarrow> c' = c\<lparr>m_queue := m_queue c @ [(tid, u)], m_is_send_done := False\<rparr> \<and> send_ready N c"
  by (auto simp: send_enqueue_def send_ready_def section_defs split: if_splits)

lemma try_send_False: "try_send N tid u c = Inr (False, c') \<Longrightarrow> c' = c\<lparr>m_is_try_send_ready := True\<rparr>"
  by (auto simp: try_send_def section_defs split: if_splits)

lemma try_send_True:
  assumes "try_send N tid u c = Inr (True, c')"
  shows "send_ready N c" "m_queue c' = m_queue c @ [(tid, u)]" "m_is_send_done c'"
    "m_is_try_send_done c' \<longleftrightarrow> length (m_queue c) < N" "m_is_recv_ready c' = m_is_recv_ready c" "length (m_queue c) < N \<or> m_is_recv_ready c"
    "m_is_try_send_ready c'" "m_is_try_recv_ready c' = m_is_try_recv_ready c"
  using assms by (auto simp: try_send_def send_ready_def section_defs split: if_splits)

section \<open>The queue\<close>

fun is_sending :: "'v pc \<Rightarrow> bool" where
  "is_sending (Send_Notify p) = True"
| "is_sending (End_Check p) = True"
| "is_sending (End_Wait p) = True"
| "is_sending _ = False"

definition notifying :: "cond_var \<Rightarrow> 'v pc \<Rightarrow> bool" where
  "notifying cv p \<longleftrightarrow> map_option fst (notifies p) = Some cv"

text \<open>The queue holds what was sent and not yet received, one element more than the capacity at most, and then a
  sender, blocking or not, is responsible for the surplus.\<close>

definition queue_inv :: "nat \<Rightarrow> 'v gst \<Rightarrow> bool" where
  "queue_inv N s \<longleftrightarrow> (let c = chn s in
     length (m_queue c) \<le> Suc N \<and> sent s = received s @ m_queue c \<and>
     (is_full N c \<longrightarrow> \<not> m_is_send_done c \<or> \<not> m_is_try_send_done c) \<and> (m_is_try_send_done c \<or> m_is_send_done c) \<and>
     (\<not> m_is_try_send_done c \<longrightarrow> is_full N c) \<and> cnt is_sending s = of_bool (\<not> m_is_send_done c))"

lemma waits_on_cases:
  assumes "waits_on p = Some cv"
  obtains v where "p = Begin_Wait v" "cv = Send_Begin_CV" | k where "p = End_Wait k" "cv = Send_End_CV"
    | "p = Recv_Wait" "cv = Recv_CV"
  using assms by (cases p) auto

lemma notifies_cases:
  assumes "notifies p = Some (cv, p')"
  obtains k where "p = Send_Notify k" "cv = Recv_CV" "p' = End_Check k" | k where "p = Send_Done k" "cv = Send_Begin_CV" "p' = Idle"
    | "p = Recv_Notify cv" "p' = Idle" | "p = Try_Notify" "cv = Recv_CV" "p' = Idle"
  using assms by (cases p) auto

lemma recv_view_cases:
  assumes "recv_view p c = Some c'"
  obtains "p = Recv_Call" "c' = c\<lparr>m_is_recv_ready := True\<rparr>" | "p = Recv_Check" "c' = c"
  using assms by (cases p) (auto simp: pre_blocking_recv_def)

lemma cnt_notify:
  assumes "at_pc i p s" "notifies p = Some (cv, p')" "at_pc j q s" "waits_on q = Some cv'"
  shows "cnt P (goto i p' (goto j (woken q) s)) = cnt P s - of_bool (P q) + of_bool (P (woken q)) - of_bool (P p) + of_bool (P p')"
proof -
  have "i \<noteq> j" using assms by (auto simp: at_pc_def elim: notifies_cases)
  note at = at_pc_goto [OF assms(1) this, of "woken q"]
  show ?thesis unfolding cnt_goto [OF at] cnt_goto [OF assms(3)] by (rule refl)
qed

lemma is_sending_woken [simp]: "is_sending (woken p) = is_sending p"
  by (cases p) auto

lemma is_sending_notifies: "notifies p = Some (cv, p') \<Longrightarrow> is_sending p' = is_sending p"
  by (cases p) auto

lemma recv_view_frame:
  assumes "recv_view p c = Some c'"
  shows "\<not> is_sending p" "m_queue c' = m_queue c" "m_is_send_done c' = m_is_send_done c" "m_is_try_send_done c' = m_is_try_send_done c"
    "m_is_try_send_ready c' = m_is_try_send_ready c" "m_is_try_recv_ready c' = m_is_try_recv_ready c"
  using assms by (auto elim: recv_view_cases)

lemma queue_inv_call:
  assumes "gc_call N may s t" "queue_inv N s"
  shows "queue_inv N t"
  using assms
proof (cases rule: gc_call.cases)
  case (try_send_fail i v c)
  then show ?thesis using assms(2) by (auto simp: queue_inv_def Let_def is_full_def dest!: try_send_False)
next
  case (try_send_ok i v c)
  then show ?thesis using assms(2) try_send_True [OF try_send_ok(4)] by (auto simp: queue_inv_def Let_def is_full_def send_ready_def)
next
  case (try_recv_fail i c)
  then show ?thesis using assms(2) by (auto simp: queue_inv_def Let_def is_full_def dest!: try_recv_None)
next
  case (try_recv_ok i v cv c)
  then show ?thesis using assms(2) try_recv_Some [OF try_recv_ok(4)] by (auto simp: queue_inv_def Let_def is_full_def)
qed (use assms(2) in \<open>auto simp: queue_inv_def Let_def\<close>)

lemma queue_inv_run:
  assumes "gc_run N s t" "queue_inv N s"
  shows "queue_inv N t"
  using assms
proof (cases rule: gc_run.cases)
  case (begin_go i v c)
  then show ?thesis using assms(2) send_enqueue_Inr [OF begin_go(4)]
    by (auto simp: queue_inv_def Let_def is_full_def send_ready_def)
next
  case (end_go i p)
  then show ?thesis using assms(2) cnt_pos [OF end_go(2), of is_sending]
    by (auto simp: queue_inv_def Let_def is_full_def send_finish_def split: if_splits)
next
  case (recv_wait i p c)
  then show ?thesis using assms(2) recv_view_frame [OF recv_wait(3)] by (auto simp: queue_inv_def Let_def is_full_def)
next
  case (recv_go i p c v c' cv)
  then show ?thesis using assms(2) recv_view_frame [OF recv_go(3)] recv_front_Inr [OF recv_go(5)]
    by (auto simp: queue_inv_def Let_def is_full_def recv_awaited_def)
next
  case (notify_one i p cv p' j q)
  then show ?thesis using assms(2)
    by (simp add: queue_inv_def cnt_notify is_sending_notifies Let_def)
next
  case (notify_none i p cv p')
  then show ?thesis using assms(2) by (simp add: queue_inv_def is_sending_notifies Let_def)
qed (use assms(2) in \<open>auto simp: queue_inv_def Let_def\<close>)

section \<open>Wakeups\<close>

fun checks :: "'v pc \<Rightarrow> cond_var option" where
  "checks (Begin_Check v) = Some Send_Begin_CV"
| "checks (End_Check p) = Some Send_End_CV"
| "checks Recv_Check = Some Recv_CV"
| "checks _ = None"

abbreviation waiting :: "cond_var \<Rightarrow> 'v gst \<Rightarrow> int" where
  "waiting cv \<equiv> cnt (\<lambda>p. waits_on p = Some cv)"

abbreviation rechecking :: "cond_var \<Rightarrow> 'v gst \<Rightarrow> int" where
  "rechecking cv \<equiv> cnt (\<lambda>p. checks p = Some cv)"

abbreviation pending :: "cond_var \<Rightarrow> 'v gst \<Rightarrow> int" where
  "pending cv \<equiv> cnt (notifying cv)"

text \<open>No wakeup is lost: while a thread waits for something that has become true, another thread is on its way that
  was woken for it or is about to notify.\<close>

definition recv_wake :: "'v gst \<Rightarrow> bool" where
  "recv_wake s \<longleftrightarrow> waiting Recv_CV s = 0 \<or> int (length (m_queue (chn s))) \<le> rechecking Recv_CV s + pending Recv_CV s"

definition begin_wake :: "nat \<Rightarrow> 'v gst \<Rightarrow> bool" where
  "begin_wake N s \<longleftrightarrow> waiting Send_Begin_CV s = 0 \<or> \<not> send_ready N (chn s) \<or> 0 < rechecking Send_Begin_CV s + pending Send_Begin_CV s"

definition end_wake :: "nat \<Rightarrow> 'v gst \<Rightarrow> bool" where
  "end_wake N s \<longleftrightarrow> waiting Send_End_CV s = 0 \<or> is_full N (chn s) \<or> 0 < pending Send_End_CV s"

lemma length_filter_mono: "(\<And>x. P x \<Longrightarrow> Q x) \<Longrightarrow> length (filter P xs) \<le> length (filter Q xs)"
  by (induction xs) (auto intro: le_SucI)

lemma cnt_mono: "(\<And>p. P p \<Longrightarrow> Q p) \<Longrightarrow> cnt P s \<le> cnt Q s"
  by (simp add: cnt_def length_filter_mono)

lemma waiting_end_le: "waiting Send_End_CV s \<le> cnt is_sending s"
  by (rule cnt_mono) (auto elim: waits_on_cases)

lemma notifying_simps [simp]:
  "notifying cv (Send_Notify k) \<longleftrightarrow> cv = Recv_CV" "notifying cv (Send_Done k) \<longleftrightarrow> cv = Send_Begin_CV"
  "notifying cv (Recv_Notify cv') \<longleftrightarrow> cv' = cv" "notifying cv Try_Notify \<longleftrightarrow> cv = Recv_CV"
  "\<not> notifying cv Idle" "\<not> notifying cv (Begin_Check v)" "\<not> notifying cv (Begin_Wait v)" "\<not> notifying cv (End_Check k)"
  "\<not> notifying cv (End_Wait k)" "\<not> notifying cv Recv_Call" "\<not> notifying cv Recv_Check" "\<not> notifying cv Recv_Wait"
  by (auto simp: notifying_def)

lemma waiting_end_idle: "queue_inv N s \<Longrightarrow> m_is_send_done (chn s) \<Longrightarrow> waiting Send_End_CV s = 0"
  using waiting_end_le [of s] cnt_nonneg [of "\<lambda>p. waits_on p = Some Send_End_CV" s] by (simp add: queue_inv_def Let_def)

lemma waiting_end_le_1: "queue_inv N s \<Longrightarrow> waiting Send_End_CV s \<le> 1"
  using waiting_end_le [of s] by (auto simp: queue_inv_def Let_def of_bool_def split: if_splits)

lemma nonneg_counts: "0 \<le> waiting cv s" "0 \<le> rechecking cv s" "0 \<le> pending cv s"
  by (simp_all add: cnt_nonneg)

lemma notifies_facts:
  assumes "notifies p = Some (cv, p')"
  shows "waits_on p = None" "checks p = None" "notifying c p \<longleftrightarrow> c = cv" "waits_on p' = None" "\<not> notifying c p'"
    "checks p' \<noteq> Some Recv_CV" "checks p' \<noteq> Some Send_Begin_CV"
  using assms by (cases p; force)+

lemma waits_on_facts:
  assumes "waits_on q = Some cv"
  shows "checks q = None" "\<not> notifying c q" "waits_on (woken q) = None" "checks (woken q) = Some cv" "\<not> notifying c (woken q)"
  using assms by (cases q; force)+

lemma recv_wake_call:
  assumes "gc_call N may s t" "recv_wake s"
  shows "recv_wake t"
  using assms(1)
proof (cases rule: gc_call.cases)
  case (try_send_fail i v c)
  then show ?thesis using assms(2) by (auto simp: recv_wake_def dest!: try_send_False)
next
  case (try_send_ok i v c)
  then show ?thesis using assms(2) try_send_True(2) [OF try_send_ok(4)] by (auto simp: recv_wake_def)
next
  case (try_recv_fail i c)
  then show ?thesis using assms(2) by (auto simp: recv_wake_def dest!: try_recv_None)
next
  case (try_recv_ok i v cv c)
  then show ?thesis using assms(2) try_recv_Some(3,9) [OF try_recv_ok(4)] by (auto simp: recv_wake_def)
next
  case (spurious i p)
  then show ?thesis using assms(2) cnt_pos [OF spurious(2), of "\<lambda>p. waits_on p = Some Recv_CV"]
    by (cases p) (auto simp: recv_wake_def)
qed (use assms(2) in \<open>auto simp: recv_wake_def\<close>)

lemma recv_wake_run:
  assumes "gc_run N s t" "recv_wake s"
  shows "recv_wake t"
  using assms(1)
proof (cases rule: gc_run.cases)
  case (begin_go i v c)
  then show ?thesis using assms(2) send_enqueue_Inr [OF begin_go(4)] by (auto simp: recv_wake_def)
next
  case (recv_wait i p c)
  from recv_wait(3) show ?thesis
    using recv_wait cnt_pos [OF recv_wait(2), of "\<lambda>p. checks p = Some Recv_CV"] nonneg_counts [of Recv_CV s]
    by (cases rule: recv_view_cases) (auto simp: recv_wake_def recv_awaited_def)
next
  case (recv_go i p c v c' cv)
  from recv_go(3) show ?thesis
    using recv_front_Inr [OF recv_go(5)] assms(2) recv_go
    by (cases rule: recv_view_cases) (auto simp: recv_wake_def recv_awaited_def neq_Nil_conv)
next
  case (notify_one i p cv p' j q)
  then show ?thesis using assms(2) cnt_pos [OF notify_one(4), of "\<lambda>p. waits_on p = Some Recv_CV"]
    by (auto simp: recv_wake_def cnt_notify notifies_facts [OF notify_one(3)] waits_on_facts [OF notify_one(5)])
next
  case (notify_none i p cv p')
  have "waiting cv s = 0" using notify_none(4) by (simp add: cnt_zero_iff)
  then show ?thesis using assms(2) notify_none by (auto simp: recv_wake_def notifies_facts [OF notify_none(3)])
qed (use assms(2) in \<open>auto simp: recv_wake_def send_finish_def\<close>)

lemma begin_wake_call:
  assumes "gc_call N may s t" "begin_wake N s"
  shows "begin_wake N t"
  using assms(1)
proof (cases rule: gc_call.cases)
  case (try_send_fail i v c)
  then show ?thesis using assms(2) by (auto simp: begin_wake_def send_ready_def is_full_def dest!: try_send_False)
next
  case (try_send_ok i v c)
  then show ?thesis using assms(2) try_send_True [OF try_send_ok(4)] by (auto simp: begin_wake_def send_ready_def)
next
  case (try_recv_fail i c)
  then show ?thesis using assms(2) by (auto simp: begin_wake_def send_ready_def is_full_def dest!: try_recv_None)
next
  case (try_recv_ok i v cv c)
  then show ?thesis using nonneg_counts [of Send_Begin_CV s] try_recv_Some [OF try_recv_ok(4)]
    by (auto simp: begin_wake_def send_ready_def)
next
  case (spurious i p)
  then show ?thesis using assms(2) nonneg_counts [of Send_Begin_CV s] by (cases p) (auto simp: begin_wake_def)
qed (use assms(2) in \<open>auto simp: begin_wake_def\<close>)

lemma begin_wake_run:
  assumes "gc_run N s t" "begin_wake N s"
  shows "begin_wake N t"
  using assms(1)
proof (cases rule: gc_run.cases)
  case (begin_go i v c)
  then show ?thesis using send_enqueue_Inr [OF begin_go(4)] by (auto simp: begin_wake_def send_ready_def)
next
  case (end_go i p)
  then show ?thesis using nonneg_counts [of Send_Begin_CV s] by (auto simp: begin_wake_def)
next
  case (recv_wait i p c)
  from recv_wait(3) show ?thesis
    using recv_wait assms(2) by (cases rule: recv_view_cases) (auto simp: begin_wake_def send_ready_def is_full_def)
next
  case (recv_go i p c v c' cv)
  from recv_go(3) show ?thesis
    using recv_front_Inr [OF recv_go(5)] nonneg_counts [of Send_Begin_CV s] recv_go
    by (cases rule: recv_view_cases) (auto simp: begin_wake_def send_ready_def recv_awaited_def)
next
  case (notify_one i p cv p' j q)
  then show ?thesis using assms(2) cnt_pos [OF notify_one(4), of "\<lambda>p. waits_on p = Some Send_Begin_CV"]
    by (auto simp: begin_wake_def cnt_notify notifies_facts [OF notify_one(3)] waits_on_facts [OF notify_one(5)])
next
  case (notify_none i p cv p')
  have "waiting cv s = 0" using notify_none(4) by (simp add: cnt_zero_iff)
  then show ?thesis using assms(2) notify_none by (auto simp: begin_wake_def notifies_facts [OF notify_none(3)])
qed (use assms(2) in \<open>auto simp: begin_wake_def\<close>)

lemma end_wake_call:
  assumes "gc_call N may s t" "queue_inv N s" "end_wake N s"
  shows "end_wake N t"
  using assms(1)
proof (cases rule: gc_call.cases)
  case (try_send_fail i v c)
  then show ?thesis using assms(3) by (auto simp: end_wake_def is_full_def dest!: try_send_False)
next
  case (try_send_ok i v c)
  then show ?thesis using waiting_end_idle [OF assms(2)] try_send_True(1) [OF try_send_ok(4)] by (simp add: end_wake_def send_ready_def)
next
  case (try_recv_fail i c)
  then show ?thesis using assms(3) by (auto simp: end_wake_def is_full_def dest!: try_recv_None)
next
  case (try_recv_ok i v cv c)
  then show ?thesis using waiting_end_idle [OF assms(2)] try_recv_Some(9) [OF try_recv_ok(4)] nonneg_counts [of Send_End_CV s]
    by (auto simp: end_wake_def)
next
  case (spurious i p)
  then show ?thesis using assms(3) waiting_end_le_1 [OF assms(2)] cnt_pos [OF spurious(2), of "\<lambda>p. waits_on p = Some Send_End_CV"]
    by (cases p) (auto simp: end_wake_def)
qed (use assms(3) in \<open>auto simp: end_wake_def\<close>)

lemma end_wake_run:
  assumes "gc_run N s t" "queue_inv N s" "end_wake N s"
  shows "end_wake N t"
  using assms(1)
proof (cases rule: gc_run.cases)
  case (begin_go i v c)
  then show ?thesis using waiting_end_idle [OF assms(2)] by (simp add: end_wake_def send_ready_def)
next
  case (recv_wait i p c)
  from recv_wait(3) show ?thesis
    using recv_wait assms(3) by (cases rule: recv_view_cases) (auto simp: end_wake_def is_full_def)
next
  case (recv_go i p c v c' cv)
  from recv_go(3) show ?thesis
    using recv_front_Inr(8) [OF recv_go(5)] nonneg_counts [of Send_End_CV s] recv_go waiting_end_idle [OF assms(2)]
    by (cases rule: recv_view_cases) (auto simp: end_wake_def recv_awaited_def)
next
  case (notify_one i p cv p' j q)
  then show ?thesis using assms(3) waiting_end_le_1 [OF assms(2)] cnt_pos [OF notify_one(4), of "\<lambda>p. waits_on p = Some Send_End_CV"]
    by (auto simp: end_wake_def cnt_notify notifies_facts [OF notify_one(3)] waits_on_facts [OF notify_one(5)])
next
  case (notify_none i p cv p')
  have "waiting cv s = 0" using notify_none(4) by (simp add: cnt_zero_iff)
  then show ?thesis using assms(3) notify_none by (auto simp: end_wake_def notifies_facts [OF notify_none(3)])
qed (use assms(3) in \<open>auto simp: end_wake_def send_finish_def is_full_def\<close>)

section \<open>Positions\<close>

text \<open>A sender knows the position of its element; once it may return, no more than the capacity is in front of being received.\<close>

fun pos_ok :: "nat \<Rightarrow> 'v gst \<Rightarrow> nat \<Rightarrow> 'v pc \<Rightarrow> bool" where
  "pos_ok N s i (Send_Notify k) \<longleftrightarrow> k < length (sent s) \<and> fst (sent s ! k) = i"
| "pos_ok N s i (End_Check k) \<longleftrightarrow> k < length (sent s) \<and> fst (sent s ! k) = i"
| "pos_ok N s i (End_Wait k) \<longleftrightarrow> k < length (sent s) \<and> fst (sent s ! k) = i"
| "pos_ok N s i (Send_Done k) \<longleftrightarrow> k < length (sent s) \<and> fst (sent s ! k) = i \<and> k < length (received s) + N"
| "pos_ok N s i _ \<longleftrightarrow> True"

definition pos_inv :: "nat \<Rightarrow> 'v gst \<Rightarrow> bool" where
  "pos_inv N s \<longleftrightarrow> (\<forall>i<length (pcs s). pos_ok N s i (pcs s ! i))"

lemma pos_ok_mono:
  "pos_ok N s i p \<Longrightarrow> sent t = sent s @ xs \<Longrightarrow> length (received s) \<le> length (received t) \<Longrightarrow> pos_ok N t i p"
  by (cases p) (auto simp: nth_append)

lemma pos_inv_goto:
  assumes "pos_inv N s" "pcs t = (pcs s)[i := p]" "sent t = sent s @ xs" "length (received s) \<le> length (received t)"
    "i < length (pcs s) \<Longrightarrow> pos_ok N t i p"
  shows "pos_inv N t"
  unfolding pos_inv_def
proof (intro allI impI)
  fix j
  assume "j < length (pcs t)"
  with assms show "pos_ok N t j (pcs t ! j)" by (cases "j = i") (auto simp: pos_inv_def intro: pos_ok_mono)
qed

lemma pos_inv_same:
  assumes "pos_inv N s" "pcs t = pcs s" "sent t = sent s" "received t = received s"
  shows "pos_inv N t"
  using assms by (auto simp: pos_inv_def intro: pos_ok_mono)

lemma at_pos: "pos_inv N s \<Longrightarrow> at_pc i p s \<Longrightarrow> pos_ok N s i p"
  by (auto simp: pos_inv_def at_pc_def)

lemma pos_inv_call:
  assumes "gc_call N may s t" "pos_inv N s"
  shows "pos_inv N t"
  using assms(1)
proof (cases rule: gc_call.cases)
  case (spurious i p)
  have "pos_ok N s i (woken p)" using at_pos [OF assms(2) spurious(2)] by (cases p) auto
  then have "pos_ok N (goto i (woken p) s) i (woken p)" by (rule pos_ok_mono) auto
  then show ?thesis unfolding spurious(1) by (intro pos_inv_goto [OF assms(2), of _ i _ "[]"]) auto
qed (use assms(2) in \<open>auto intro: pos_inv_goto pos_inv_same\<close>)

lemma pos_inv_run:
  assumes "gc_run N s t" "queue_inv N s" "pos_inv N s"
  shows "pos_inv N t"
  using assms(1)
proof (cases rule: gc_run.cases)
  case (end_wait i k)
  then show ?thesis using at_pos [OF assms(3) end_wait(2)] by (intro pos_inv_goto [OF assms(3), of _ i _ "[]"]) auto
next
  case (end_go i k)
  have "length (sent s) \<le> length (received s) + N" using assms(2) end_go(3) by (auto simp: queue_inv_def Let_def is_full_def)
  with end_go show ?thesis using at_pos [OF assms(3) end_go(2)] by (intro pos_inv_goto [OF assms(3), of _ i _ "[]"]) auto
next
  case (notify_one i p cv p' j q)
  have "pos_ok N s i p'" "pos_ok N s j (woken q)"
    using at_pos [OF assms(3) notify_one(2)] at_pos [OF assms(3) notify_one(4)] notify_one(3,5)
    by (auto elim!: notifies_cases waits_on_cases)
  then have "pos_ok N t i p'" "pos_ok N (goto j (woken q) s) j (woken q)" by (auto intro: pos_ok_mono simp: notify_one(1))
  then have "pos_inv N (goto j (woken q) s)" by (intro pos_inv_goto [OF assms(3), of _ j _ "[]"]) auto
  from pos_inv_goto [OF this, of t i p' "[]"] show ?thesis using \<open>pos_ok N t i p'\<close> by (simp add: notify_one(1))
next
  case (notify_none i p cv p')
  have "pos_ok N s i p'" using at_pos [OF assms(3) notify_none(2)] notify_none(3) by (auto elim!: notifies_cases)
  then have "pos_ok N t i p'" by (rule pos_ok_mono) (auto simp: notify_none(1))
  then show ?thesis by (intro pos_inv_goto [OF assms(3), of t i p' "[]"]) (auto simp: notify_none(1))
qed (use assms(3) in \<open>auto intro: pos_inv_goto pos_inv_same\<close>)

section \<open>Reachable states\<close>

definition chan_inv :: "nat \<Rightarrow> 'v gst \<Rightarrow> bool" where
  "chan_inv N s \<longleftrightarrow> queue_inv N s \<and> recv_wake s \<and> begin_wake N s \<and> end_wake N s \<and> pos_inv N s"

lemma chan_inv_step: "gc_step N may s t \<Longrightarrow> chan_inv N s \<Longrightarrow> chan_inv N t"
  unfolding gc_step_def chan_inv_def
  by (blast intro: queue_inv_call queue_inv_run recv_wake_call recv_wake_run begin_wake_call begin_wake_run end_wake_call
      end_wake_run pos_inv_call pos_inv_run)

lemma init_simps [simp]:
  "chn (gc_init n) = chan_new" "pcs (gc_init n) = replicate n Idle" "sent (gc_init n) = []" "received (gc_init n) = []"
  "failed (gc_init n) = None"
  by (simp_all add: gc_init_def)

lemma cnt_init [simp]: "\<not> P Idle \<Longrightarrow> cnt P (gc_init n) = 0"
  by (simp add: cnt_zero_iff)

lemma chan_inv_init: "chan_inv N (gc_init n)"
  by (simp add: chan_inv_def queue_inv_def recv_wake_def begin_wake_def end_wake_def pos_inv_def chan_new_def is_full_def)

lemma chan_inv_reach: "(gc_step N may)\<^sup>*\<^sup>* (gc_init n) s \<Longrightarrow> chan_inv N s"
  by (induction rule: rtranclp_induct) (auto intro: chan_inv_init chan_inv_step)

section \<open>Assertions\<close>

text \<open>The use the assertions allow: no thread both sends and receives, and only one end is used in a \<open>select\<close>.\<close>

definition disciplined :: "(nat \<Rightarrow> op \<Rightarrow> bool) \<Rightarrow> bool" where
  "disciplined may \<longleftrightarrow>
     (\<forall>i. \<not> ((may i Op_Send \<or> may i Op_Try_Send) \<and> (may i Op_Recv \<or> may i Op_Try_Recv))) \<and>
     ((\<forall>i. \<not> may i Op_Try_Send) \<or> (\<forall>i. \<not> may i Op_Try_Recv))"

fun perm_ok :: "(nat \<Rightarrow> op \<Rightarrow> bool) \<Rightarrow> nat \<Rightarrow> 'v pc \<Rightarrow> bool" where
  "perm_ok may i (Begin_Check v) \<longleftrightarrow> may i Op_Send"
| "perm_ok may i (Begin_Wait v) \<longleftrightarrow> may i Op_Send"
| "perm_ok may i Recv_Call \<longleftrightarrow> may i Op_Recv"
| "perm_ok may i Recv_Check \<longleftrightarrow> may i Op_Recv"
| "perm_ok may i Recv_Wait \<longleftrightarrow> may i Op_Recv"
| "perm_ok may i _ \<longleftrightarrow> True"

definition perm_inv :: "(nat \<Rightarrow> op \<Rightarrow> bool) \<Rightarrow> 'v gst \<Rightarrow> bool" where
  "perm_inv may s \<longleftrightarrow> failed s = None \<and> (\<forall>i<length (pcs s). perm_ok may i (pcs s ! i)) \<and>
     (\<forall>x\<in>set (m_queue (chn s)). may (fst x) Op_Send \<or> may (fst x) Op_Try_Send) \<and>
     (m_is_try_send_ready (chn s) \<longrightarrow> (\<exists>j. may j Op_Try_Send)) \<and> (m_is_try_recv_ready (chn s) \<longrightarrow> (\<exists>j. may j Op_Try_Recv))"

lemma perm_goto:
  "(\<forall>j<length (pcs s). perm_ok may j (pcs s ! j)) \<Longrightarrow> perm_ok may i p \<Longrightarrow> j < length (pcs s) \<Longrightarrow> perm_ok may j ((pcs s)[i := p] ! j)"
  by (cases "j = i") auto

lemma at_perm: "perm_inv may s \<Longrightarrow> at_pc i p s \<Longrightarrow> perm_ok may i p"
  by (auto simp: perm_inv_def at_pc_def)

lemma perm_not_try_ready: "disciplined may \<Longrightarrow> perm_inv may s \<Longrightarrow> \<not> is_try_ready (chn s)"
  by (auto simp: perm_inv_def disciplined_def is_try_ready_def)

lemma perm_not_own:
  "disciplined may \<Longrightarrow> perm_inv may s \<Longrightarrow> may i Op_Recv \<or> may i Op_Try_Recv \<Longrightarrow> m_queue (chn s) \<noteq> [] \<Longrightarrow>
    fst (hd (m_queue (chn s))) \<noteq> i"
  unfolding perm_inv_def disciplined_def by (metis hd_in_set)

lemma perm_inv_call:
  assumes "gc_call N may s t" "disciplined may" "queue_inv N s" "perm_inv may s"
  shows "perm_inv may t"
  using assms(1)
proof (cases rule: gc_call.cases)
  case (try_send_fail i v c)
  then show ?thesis using assms(4) by (auto simp: perm_inv_def dest!: try_send_False)
next
  case (try_send_ok i v c)
  then show ?thesis using assms(4) try_send_True [OF try_send_ok(4)] by (auto simp: perm_inv_def intro: perm_goto)
next
  case (try_send_abort i v a)
  then have "m_is_try_recv_ready (chn s)" by (auto simp: try_send_def section_defs split: if_splits)
  then show ?thesis using try_send_abort(2) assms(2,4) by (auto simp: perm_inv_def disciplined_def)
next
  case (try_recv_fail i c)
  then show ?thesis using assms(4) by (auto simp: perm_inv_def dest!: try_recv_None)
next
  case (try_recv_ok i v cv c)
  then show ?thesis using assms(4) try_recv_Some [OF try_recv_ok(4)]
    by (auto simp: perm_inv_def intro: perm_goto dest: list.set_sel(2))
next
  case (try_recv_abort i a)
  have "m_queue (chn s) \<noteq> []" using try_recv_abort(4) by (auto simp: try_recv_ptr_def section_defs)
  from perm_not_own [OF assms(2,4) _ this] try_recv_abort(2) have "fst (hd (m_queue (chn s))) \<noteq> i" by blast
  then have False using try_recv_abort(4) assms(3)
    by (auto simp: try_recv_ptr_def queue_inv_def section_defs split: if_splits prod.splits)
  then show ?thesis ..
next
  case (spurious i p)
  then have "perm_ok may i (woken p)" using at_perm [OF assms(4) spurious(2)] by (cases p) auto
  then show ?thesis unfolding spurious(1) using assms(4) by (auto simp: perm_inv_def intro: perm_goto)
qed (use assms(4) in \<open>auto simp: perm_inv_def intro: perm_goto\<close>)

lemma recv_front_passes:
  assumes "queue_inv N s" "recv_view p (chn s) = Some c" "m_queue c \<noteq> []" "\<not> is_try_ready (chn s)" "fst (hd (m_queue (chn s))) \<noteq> i"
  shows "recv_front N i c \<noteq> Inl a"
  using assms recv_view_frame [OF assms(2)]
  by (auto simp: recv_front_def post_blocking_recv_def queue_inv_def section_defs split: if_splits prod.splits)

lemma perm_inv_run:
  assumes "gc_run N s t" "disciplined may" "queue_inv N s" "perm_inv may s"
  shows "perm_inv may t"
  using assms(1)
proof (cases rule: gc_run.cases)
  case (begin_wait i v)
  then show ?thesis using assms(4) at_perm [OF assms(4) begin_wait(2)] by (auto simp: perm_inv_def intro: perm_goto)
next
  case (begin_go i v c)
  then show ?thesis using assms(4) at_perm [OF assms(4) begin_go(2)] send_enqueue_Inr [OF begin_go(4)]
    by (auto simp: perm_inv_def intro: perm_goto)
next
  case (begin_abort i v a)
  then show ?thesis using perm_not_try_ready [OF assms(2,4)] by (auto simp: send_enqueue_def send_ready_def assert_that_def)
next
  case (end_go i k)
  then show ?thesis using assms(4) by (auto simp: perm_inv_def send_finish_def intro: perm_goto)
next
  case (recv_wait i p c)
  have "may i Op_Recv" using at_perm [OF assms(4) recv_wait(2)] recv_wait(3) by (auto elim: recv_view_cases)
  then show ?thesis using assms(4) recv_view_frame [OF recv_wait(3)] by (auto simp: perm_inv_def recv_wait(1) intro: perm_goto)
next
  case (recv_go i p c v c' cv)
  note recv_front_Inr [OF recv_go(5)] recv_view_frame [OF recv_go(3)]
  then show ?thesis using assms(4) recv_go(1,4) by (auto simp: perm_inv_def recv_awaited_def intro: perm_goto dest: list.set_sel(2))
next
  case (recv_abort i p c a)
  have "may i Op_Recv" using at_perm [OF assms(4) recv_abort(2)] recv_abort(3) by (auto elim: recv_view_cases)
  moreover have ne: "m_queue c \<noteq> []" using recv_abort(4) by (simp add: recv_awaited_def)
  ultimately have "fst (hd (m_queue (chn s))) \<noteq> i"
    using perm_not_own [OF assms(2,4), of i] recv_view_frame [OF recv_abort(3)] by auto
  from recv_front_passes [OF assms(3) recv_abort(3) ne perm_not_try_ready [OF assms(2,4)] this] show ?thesis using recv_abort(5) by blast
next
  case (notify_one i p cv p' j q)
  have q: "perm_ok may j (woken q)" using at_perm [OF assms(4) notify_one(4)] notify_one(5) by (auto elim!: waits_on_cases)
  have "perm_ok may i p'" using notify_one(3) by (auto elim!: notifies_cases)
  then show ?thesis using assms(4) q perm_goto [of "goto j (woken q) s" may i p'] by (auto simp: perm_inv_def notify_one(1) intro: perm_goto)
next
  case (notify_none i p cv p')
  have "perm_ok may i p'" using notify_none(3) by (auto elim!: notifies_cases)
  then show ?thesis using assms(4) by (auto simp: perm_inv_def notify_none(1) intro: perm_goto)
qed (use assms(4) in \<open>auto simp: perm_inv_def intro: perm_goto\<close>)

lemma perm_inv_reach:
  assumes "(gc_step N may)\<^sup>*\<^sup>* (gc_init n) s" "disciplined may"
  shows "perm_inv may s"
  using assms(1)
proof (induction rule: rtranclp_induct)
  case base
  then show ?case by (simp add: perm_inv_def chan_new_def)
next
  case (step s t)
  have "queue_inv N s" using chan_inv_reach [OF step(1)] by (simp add: chan_inv_def)
  with step(2,3) show ?case unfolding gc_step_def by (blast intro: perm_inv_call perm_inv_run assms(2))
qed

section \<open>Progress\<close>

fun rank :: "'v pc \<Rightarrow> nat" where
  "rank Idle = 0"
| "rank (Send_Done k) = 2"
| "rank (Recv_Notify cv) = 2"
| "rank Try_Notify = 2"
| "rank (End_Wait k) = 3"
| "rank Recv_Wait = 3"
| "rank (End_Check k) = 4"
| "rank Recv_Check = 4"
| "rank Recv_Call = 4"
| "rank (Send_Notify k) = 6"
| "rank (Begin_Wait v) = 7"
| "rank (Begin_Check v) = 8"

definition gc_rank :: "'v gst \<Rightarrow> nat" where
  "gc_rank s = sum_list (map rank (pcs s)) + of_bool (failed s = None)"

lemma rank_goto: "at_pc i q s \<Longrightarrow> sum_list (map rank (pcs (goto i p s))) + rank q = sum_list (map rank (pcs s)) + rank p"
  using elem_le_sum_list [of i "map rank (pcs s)"] by (auto simp: at_pc_def map_update sum_list_update)

lemma rank_lower:
  assumes "at_pc i q s" "rank p < rank q" "pcs t = pcs (goto i p s)" "failed t = failed s"
  shows "gc_rank t < gc_rank s"
  using rank_goto [OF assms(1), of p] assms by (simp add: gc_rank_def)

lemma rank_abort: "at_pc i q s \<Longrightarrow> gc_rank (abort a s) < gc_rank s"
  by (simp add: gc_rank_def at_pc_def)

lemma rank_woken: "waits_on q = Some cv \<Longrightarrow> rank (woken q) = Suc (rank q)"
  by (cases q) auto

lemma rank_notifies: "notifies p = Some (cv, p') \<Longrightarrow> rank p = rank p' + 2"
  by (cases p) auto

lemma gc_run_rank:
  assumes "gc_run N s t"
  shows "gc_rank t < gc_rank s"
  using assms
proof (cases rule: gc_run.cases)
  case (recv_wait i p c)
  then show ?thesis by (auto elim!: recv_view_cases intro: rank_lower [OF recv_wait(2), of Recv_Wait])
next
  case (recv_go i p c v c' cv)
  then show ?thesis by (auto elim!: recv_view_cases intro: rank_lower [OF recv_go(2), of "Recv_Notify cv"])
next
  case (notify_one i p cv p' j q)
  have "i \<noteq> j" using notify_one by (auto simp: at_pc_def elim: notifies_cases)
  note at = at_pc_goto [OF notify_one(2) this, of "woken q"]
  show ?thesis using rank_goto [OF at, of p'] rank_goto [OF notify_one(4), of "woken q"] rank_woken [OF notify_one(5)]
      rank_notifies [OF notify_one(3)] by (simp add: gc_rank_def notify_one(1))
next
  case (notify_none i p cv p')
  then show ?thesis using rank_notifies [OF notify_none(3)] by (auto intro: rank_lower [OF notify_none(2), of p'])
next
  case (begin_wait i v)
  then show ?thesis by (intro rank_lower [OF begin_wait(2), of "Begin_Wait v"]) auto
next
  case (begin_go i v c)
  then show ?thesis by (intro rank_lower [OF begin_go(2), of "Send_Notify (length (sent s))"]) auto
next
  case (end_wait i k)
  then show ?thesis by (intro rank_lower [OF end_wait(2), of "End_Wait k"]) auto
next
  case (end_go i k)
  then show ?thesis by (intro rank_lower [OF end_go(2), of "Send_Done k"]) auto
qed (auto intro: rank_abort)

lemma gc_run_bound: "(gc_run N ^^ n) s t \<Longrightarrow> n + gc_rank t \<le> gc_rank s"
proof (induction n arbitrary: t)
  case (Suc n)
  then obtain u where "(gc_run N ^^ n) s u" "gc_run N u t" by auto
  then show ?case using Suc.IH gc_run_rank by fastforce
qed simp

lemma rank_le: "rank p \<le> 8"
  by (cases p) auto

lemma gc_rank_le: "gc_rank s \<le> 8 * length (pcs s) + 1"
proof -
  have "sum_list (map rank xs) \<le> 8 * length xs" for xs :: "'v pc list"
    by (induction xs) (auto intro: add_mono rank_le)
  from this [of "pcs s"] show ?thesis by (simp add: gc_rank_def)
qed

text \<open>A thread that neither is idle nor waits can go on.\<close>

lemma gc_run_enabled:
  assumes "at_pc i p s" "p \<noteq> Idle" "waits_on p = None"
  shows "\<exists>t. gc_run N s t"
proof -
  consider v where "p = Begin_Check v" | k where "p = End_Check k" | c where "recv_view p (chn s) = Some c"
    | cv p' where "notifies p = Some (cv, p')"
    using assms(2,3) by (cases p) auto
  then show ?thesis
  proof cases
    case 1
    then show ?thesis using begin_wait [of i _ s N] begin_go [of i _ s N] begin_abort [of i _ s N] assms(1)
      by (cases "send_enqueue N i v (chn s)") blast+
  next
    case 2
    then show ?thesis using end_wait [of i _ s N] end_go [of i _ s N] assms(1) by blast
  next
    case 3
    show ?thesis
    proof (cases "recv_awaited c")
      case True
      show ?thesis
      proof (cases "recv_front N i c")
        case (Inl a)
        then show ?thesis using recv_abort [OF assms(1) 3 True] by blast
      next
        case (Inr r)
        then show ?thesis using recv_go [OF assms(1) 3 True, of N "fst r" "fst (snd r)" "snd (snd r)"] by auto
      qed
    next
      case False
      then show ?thesis using recv_wait [OF assms(1) 3] by blast
    qed
  next
    case 4
    show ?thesis
    proof (cases "\<forall>q\<in>set (pcs s). waits_on q \<noteq> Some cv")
      case True
      then show ?thesis using notify_none [OF assms(1) 4] by blast
    next
      case False
      then obtain j where "at_pc j (pcs s ! j) s" "waits_on (pcs s ! j) = Some cv"
        using assms(1) by (auto simp: at_pc_def in_set_conv_nth)
      then show ?thesis using notify_one [OF assms(1) 4] by blast
    qed
  qed
qed

lemma stuck_threads:
  assumes "\<nexists>t. gc_run N s t" "failed s = None" "p \<in> set (pcs s)"
  shows "p = Idle \<or> waits_on p \<noteq> None"
proof -
  obtain i where "at_pc i p s" using assms(2,3) by (auto simp: in_set_conv_nth at_pc_def)
  then show ?thesis using gc_run_enabled assms(1) by blast
qed

lemma stuck_counts:
  assumes "\<nexists>t. gc_run N s t" "failed s = None"
  shows "rechecking cv s = 0" "pending cv s = 0" "cnt is_sending s = waiting Send_End_CV s"
proof -
  note st = stuck_threads [OF assms]
  show "rechecking cv s = 0" "pending cv s = 0"
    unfolding cnt_zero_iff using st by (auto, metis waits_on_facts(1) checks.simps(4) option.distinct(1) option.exhaust,
      metis notifying_simps(5) waits_on_facts(2) option.exhaust)
  have "is_sending p = (waits_on p = Some Send_End_CV)" if "p \<in> set (pcs s)" for p
    using st [OF that] by (cases p) auto
  then have "filter is_sending (pcs s) = filter (\<lambda>p. waits_on p = Some Send_End_CV) (pcs s)"
    by (intro filter_cong [OF refl])
  then show "cnt is_sending s = waiting Send_End_CV s" by (simp add: cnt_def)
qed

section \<open>Schedules\<close>

text \<open>A run given by the choices of the scheduler: which thread calls, goes on, or wakes which other.\<close>

datatype 'v choice = Do_Send nat 'v | Do_Recv nat | Do_Run nat | Do_Wake nat nat

definition run_section :: "nat \<Rightarrow> nat \<Rightarrow> 'v gst \<Rightarrow> 'v gst option" where
  "run_section N i s =
     (case pcs s ! i of
        Begin_Check v \<Rightarrow> Some (if send_ready N (chn s)
          then (case send_enqueue N i v (chn s) of Inl a \<Rightarrow> abort a s | Inr c \<Rightarrow> goto i (Send_Notify (length (sent s))) (put_in i v c s))
          else goto i (Begin_Wait v) s)
      | End_Check k \<Rightarrow> Some (if is_full N (chn s) then goto i (End_Wait k) s else goto i (Send_Done k) (s\<lparr>chn := send_finish (chn s)\<rparr>))
      | p \<Rightarrow> (case recv_view p (chn s) of
          Some c \<Rightarrow> Some (if recv_awaited c
            then (case recv_front N i c of Inl a \<Rightarrow> abort a s | Inr (_, c', cv) \<Rightarrow> goto i (Recv_Notify cv) (took c' s))
            else goto i Recv_Wait (s\<lparr>chn := c\<rparr>))
        | None \<Rightarrow> (case notifies p of
            Some (cv, p') \<Rightarrow> if list_all (\<lambda>q. waits_on q \<noteq> Some cv) (pcs s) then Some (goto i p' s) else None
          | None \<Rightarrow> None)))"

fun pick :: "nat \<Rightarrow> (nat \<Rightarrow> op \<Rightarrow> bool) \<Rightarrow> 'v choice \<Rightarrow> 'v gst \<Rightarrow> 'v gst option" where
  "pick N may (Do_Send i v) s = (if may i Op_Send \<and> at_pc i Idle s then Some (goto i (Begin_Check v) s) else None)"
| "pick N may (Do_Recv i) s = (if may i Op_Recv \<and> at_pc i Idle s then Some (goto i Recv_Call s) else None)"
| "pick N may (Do_Run i) s = (if failed s = None \<and> i < length (pcs s) then run_section N i s else None)"
| "pick N may (Do_Wake i j) s =
     (if failed s = None \<and> i < length (pcs s) \<and> j < length (pcs s)
      then (case notifies (pcs s ! i) of
              Some (cv, p') \<Rightarrow> if waits_on (pcs s ! j) = Some cv then Some (goto i p' (goto j (woken (pcs s ! j)) s)) else None
            | None \<Rightarrow> None)
      else None)"

primrec schedule :: "nat \<Rightarrow> (nat \<Rightarrow> op \<Rightarrow> bool) \<Rightarrow> 'v choice list \<Rightarrow> 'v gst \<Rightarrow> 'v gst option" where
  "schedule N may [] s = Some s"
| "schedule N may (c # cs) s = Option.bind (pick N may c s) (schedule N may cs)"

lemma run_section_step:
  assumes "run_section N i s = Some t" "at_pc i p s"
  shows "gc_run N s t"
proof -
  have p: "pcs s ! i = p" using assms(2) by (simp add: at_pc_def)
  consider v where "p = Begin_Check v" | k where "p = End_Check k" | c where "recv_view p (chn s) = Some c"
    | cv p' where "notifies p = Some (cv, p')" "list_all (\<lambda>q. waits_on q \<noteq> Some cv) (pcs s)" "t = goto i p' s"
    using assms(1) p by (cases p) (auto simp: run_section_def split: if_splits)
  then show ?thesis
  proof cases
    case 1
    then show ?thesis using assms by (auto simp: run_section_def p split: if_splits sum.splits intro: begin_wait begin_go begin_abort)
  next
    case 2
    then show ?thesis using assms by (auto simp: run_section_def p split: if_splits intro: end_wait end_go)
  next
    case 3
    then have "t = (if recv_awaited c
        then (case recv_front N i c of Inl a \<Rightarrow> abort a s | Inr (_, c', cv) \<Rightarrow> goto i (Recv_Notify cv) (took c' s))
        else goto i Recv_Wait (s\<lparr>chn := c\<rparr>))"
      using assms(1) p by (cases p) (auto simp: run_section_def)
    then show ?thesis using recv_wait [OF assms(2) 3] recv_go [OF assms(2) 3] recv_abort [OF assms(2) 3] by (auto split: sum.splits)
  next
    case 4
    then show ?thesis using notify_none [OF assms(2)] by (auto simp: list_all_iff)
  qed
qed

lemma pick_step: "pick N may c s = Some t \<Longrightarrow> gc_step N may s t"
  unfolding gc_step_def
proof (induction N may c s rule: pick.induct)
  case (3 N may i s)
  then show ?case using run_section_step [of N i s t] by (auto simp: at_pc_def split: if_splits)
next
  case (4 N may i j s)
  then show ?case using notify_one [of i "pcs s ! i" s _ _ j "pcs s ! j"] by (auto simp: at_pc_def split: if_splits option.splits)
qed (auto split: if_splits intro: call_send call_recv)

lemma schedule_reach: "schedule N may cs s = Some t \<Longrightarrow> (gc_step N may)\<^sup>*\<^sup>* s t"
proof (induction cs arbitrary: s)
  case (Cons c cs)
  then obtain u where "pick N may c s = Some u" "schedule N may cs u = Some t" by (auto simp: bind_eq_Some_conv)
  then show ?case using Cons.IH pick_step by (meson converse_rtranclp_into_rtranclp)
qed simp

section \<open>Properties\<close>

text \<open>(C16) A channel is a bounded queue between threads: in every state a program of any number of threads can reach,
  what was sent is what was received followed by what is in the queue, in this order; the queue never
  holds more than one element beyond the capacity; and when a blocking \<open>send\<close> is about to return, all elements up to its own, apart from
  at most the capacity, have been received: on an unbuffered channel also its own.\<close>

theorem channel_is_fifo:
  assumes "(gc_step N may)\<^sup>*\<^sup>* (gc_init n) s"
  shows "sent s = received s @ m_queue (chn s) \<and> length (m_queue (chn s)) \<le> N + 1 \<and>
    (\<forall>i k. at_pc i (Send_Done k) s \<longrightarrow> k < length (sent s) \<and> fst (sent s ! k) = i \<and> k < length (received s) + N)"
proof -
  have "queue_inv N s" and pos: "pos_inv N s" using chan_inv_reach [OF assms] by (auto simp: chan_inv_def)
  then show ?thesis using at_pos [OF pos] by (fastforce simp: queue_inv_def Let_def)
qed

definition one_way :: "nat \<Rightarrow> op \<Rightarrow> bool" where
  "one_way i x = (if i = 0 then x = Op_Send else x = Op_Recv)"

definition rendezvous :: "nat choice list" where
  "rendezvous = [Do_Recv 1, Do_Run 1, Do_Send 0 7, Do_Run 0, Do_Wake 0 1, Do_Run 1, Do_Run 1, Do_Run 0]"

lemma rendezvous_run:
  "schedule 0 one_way rendezvous (gc_init 2) =
     Some \<lparr>chn = chan_new, pcs = [Send_Done 0, Idle], sent = [(0, 7)], received = [(0, 7)], failed = None\<rparr>"
  by (simp add: rendezvous_def one_way_def gc_init_def chan_new_def at_pc_def run_section_def goto_def put_in_def took_def send_ready_def
      send_enqueue_def send_finish_def recv_awaited_def recv_front_def post_blocking_recv_def pre_blocking_recv_def section_defs numeral_2_eq_2)

theorem channel_is_fifo_witness:
  "\<exists>s :: nat gst. at_pc 0 (Send_Done 0) s \<and> sent s = received s @ m_queue (chn s) \<and> 0 < length (received s)"
proof -
  let ?s = "\<lparr>chn = chan_new, pcs = [Send_Done 0, Idle], sent = [(0, 7)], received = [(0, 7)], failed = None\<rparr> :: nat gst"
  have at: "at_pc 0 (Send_Done 0) ?s" by (simp add: at_pc_def)
  from channel_is_fifo [OF schedule_reach [OF rendezvous_run]] at
  have "sent ?s = received ?s @ m_queue (chn ?s) \<and> 0 < length (received ?s)" by fastforce
  with at show ?thesis by (intro exI [of _ ?s]) blast
qed

text \<open>(C38) The assertions of the channel never fail, whatever the threads send, receive and select and however they are scheduled, spurious
  wakeups included, as long as no thread both sends and receives on the channel and only one of its two ends is used by a \<open>select\<close>.\<close>

theorem disciplined_use_never_aborts:
  assumes "(gc_step N may)\<^sup>*\<^sup>* (gc_init n) s" "disciplined may"
  shows "failed s = None"
  using perm_inv_reach [OF assms] by (simp add: perm_inv_def)

theorem disciplined_use_never_aborts_witness:
  "\<exists>s :: nat gst. (gc_step 0 one_way)\<^sup>*\<^sup>* (gc_init 2) s \<and> received s = [(0, 7)] \<and> failed s = None"
proof -
  note reach = schedule_reach [OF rendezvous_run]
  have "disciplined one_way" by (auto simp: disciplined_def one_way_def)
  note disciplined_use_never_aborts [OF reach this]
  with reach show ?thesis by force
qed

text \<open>(C17) No wakeup is lost. From every state a program can reach, the threads come to rest after at most eight steps each, if
  no operation is called any more; and when they have come to rest, every thread is idle or waits, a
  waiting receiver waits because the queue is empty, and a waiting sender because it is full. So a sender and a
  receiver never wait for each other.\<close>

theorem blocked_threads_have_a_reason:
  assumes "(gc_step N may)\<^sup>*\<^sup>* (gc_init n) s" "(gc_run N ^^ m) s t"
  shows "m \<le> 8 * length (pcs s) + 1 \<and> ((\<nexists>u. gc_run N t u) \<and> failed t = None \<longrightarrow>
    (\<forall>p\<in>set (pcs t). p = Idle \<or> waits_on p \<noteq> None) \<and> (Recv_Wait \<in> set (pcs t) \<longrightarrow> m_queue (chn t) = []) \<and>
    (\<forall>v. Begin_Wait v \<in> set (pcs t) \<longrightarrow> is_full N (chn t)) \<and> (\<forall>k. End_Wait k \<in> set (pcs t) \<longrightarrow> is_full N (chn t)))"
proof -
  have "(gc_step N may)\<^sup>*\<^sup>* s t" using assms(2) unfolding rtranclp_power
    by (intro exI [of _ m]) (erule relpowp_mono [rotated], simp add: gc_step_def)
  with assms(1) have inv: "chan_inv N t" by (meson chan_inv_reach rtranclp_trans)
  have "m \<le> 8 * length (pcs s) + 1" using gc_run_bound [OF assms(2)] gc_rank_le [of s] by linarith
  moreover have "?thesis" if "\<nexists>u. gc_run N t u" "failed t = None" "m \<le> 8 * length (pcs s) + 1"
  proof -
    note rest = stuck_counts [OF that(1,2)]
    have wait: "waiting cv t \<noteq> 0" if "p \<in> set (pcs t)" "waits_on p = Some cv" for p cv using that by (auto simp: cnt_zero_iff)
    have "Recv_Wait \<in> set (pcs t) \<longrightarrow> m_queue (chn t) = []" using inv wait [of Recv_Wait Recv_CV] by (auto simp: chan_inv_def recv_wake_def rest)
    moreover have e: "waiting Send_End_CV t \<noteq> 0 \<Longrightarrow> is_full N (chn t)" using inv by (auto simp: chan_inv_def end_wake_def rest)
    moreover have "is_full N (chn t)" if "Begin_Wait v \<in> set (pcs t)" for v
    proof -
      have "\<not> send_ready N (chn t)" using inv wait [OF that, of Send_Begin_CV] by (simp add: chan_inv_def begin_wake_def rest)
      moreover have "is_full N (chn t)" if "\<not> m_is_send_done (chn t)" using inv e rest(3) that by (simp add: chan_inv_def queue_inv_def Let_def)
      moreover have "is_full N (chn t)" if "\<not> m_is_try_send_done (chn t)" using inv that by (simp add: chan_inv_def queue_inv_def Let_def)
      ultimately show ?thesis by (auto simp: send_ready_def)
    qed
    ultimately show ?thesis using that stuck_threads [OF that(1,2)] wait [of _ Send_End_CV] by auto
  qed
  ultimately show ?thesis by blast
qed

definition early_send :: "nat choice list" where
  "early_send = [Do_Send 0 7, Do_Run 0, Do_Run 0, Do_Run 0]"

lemmas run_defs = gc_init_def chan_new_def at_pc_def run_section_def goto_def put_in_def took_def abort_def send_ready_def
  send_enqueue_def send_finish_def recv_awaited_def recv_front_def post_blocking_recv_def pre_blocking_recv_def section_defs numeral_2_eq_2

lemma early_send_run:
  "schedule 0 one_way early_send (gc_init 2) =
     Some \<lparr>chn = chan_new\<lparr>m_queue := [(0, 7)], m_is_send_done := False\<rparr>, pcs = [End_Wait 0, Idle], sent = [(0, 7)],
       received = [], failed = None\<rparr>"
  by (simp add: early_send_def one_way_def run_defs)

theorem blocked_threads_have_a_reason_witness:
  "\<exists>s :: nat gst. pcs s = [End_Wait 0, Idle] \<and> is_full 0 (chn s)"
proof -
  let ?s = "\<lparr>chn = chan_new\<lparr>m_queue := [(0, 7)], m_is_send_done := False\<rparr>, pcs = [End_Wait 0, Idle], sent = [(0, 7)],
       received = [], failed = None\<rparr> :: nat gst"
  have "\<nexists>u. gc_run 0 ?s u"
  proof
    assume "\<exists>u. gc_run 0 ?s u"
    then obtain u where "gc_run 0 ?s u" ..
    then show False
      by (cases rule: gc_run.cases) (auto simp: at_pc_def less_Suc_eq numeral_2_eq_2 elim!: notifies_cases recv_view_cases)
  qed
  then have "is_full 0 (chn ?s)"
    using blocked_threads_have_a_reason [OF schedule_reach [OF early_send_run], of 0 ?s] by auto
  then show ?thesis by (intro exI [of _ ?s]) simp
qed

text \<open>A buffered channel aborts a correct program: a thread that has put an element into a channel of capacity
  one and, after another thread has filled the queue, receives, finds its own element in front of a
  full queue and fails an assertion that is only right for unbuffered channels.\<close>

theorem buffered_receive_aborts:
  "\<exists>s :: nat gst. (gc_step 1 (\<lambda>i x. x = Op_Send \<or> x = Op_Recv))\<^sup>*\<^sup>* (gc_init 2) s \<and>
     sent s = [(0, 7), (1, 8)] \<and> received s = [] \<and> failed s = Some Not_Own_Element"
proof -
  let ?run = "[Do_Send 0 7, Do_Run 0, Do_Run 0, Do_Run 0, Do_Run 0, Do_Send 1 8, Do_Run 1, Do_Recv 0, Do_Run 0] :: nat choice list"
  have "\<exists>s. schedule 1 (\<lambda>i x. x = Op_Send \<or> x = Op_Recv) ?run (gc_init 2) = Some s \<and>
      sent s = [(0, 7), (1, 8)] \<and> received s = [] \<and> failed s = Some Not_Own_Element"
    by (simp add: run_defs)
  then show ?thesis using schedule_reach by blast
qed

section \<open>Select\<close>

primrec try_all :: "'s try_function list \<Rightarrow> 's try_function" where
  "try_all [] s = Inr (False, s)"
| "try_all (f # fs) s = ebind (f s) (\<lambda>(ok, t). if ok then Inr (True, t) else try_all fs t)"

declare try_from.simps [simp del]

lemma try_from_rotate: "j \<le> length fs \<Longrightarrow> try_from fs i j s = try_all (drop j (rotate i fs)) s"
proof (induction "length fs - j" arbitrary: j s)
  case 0
  then show ?case by (simp add: try_from.simps)
next
  case (Suc n)
  then have j: "j < length fs" by simp
  have "drop j (rotate i fs) = fs ! ((i + j) mod length fs) # drop (Suc j) (rotate i fs)"
    using j by (simp add: Cons_nth_drop_Suc [symmetric] nth_rotate add.commute)
  moreover have "try_from fs i (j + 1) = try_all (drop (Suc j) (rotate i fs))"
    using Suc.hyps(1) [of "Suc j"] Suc.hyps(2) j by (intro ext) simp
  ultimately show ?case using j by (simp add: try_from.simps [of fs i j] cong: if_cong)
qed

lemma wait_loop_mod: "fs \<noteq> [] \<Longrightarrow> wait_loop fs (i mod length fs) s = wait_loop fs i s"
  by (simp add: wait_loop.simps [of fs _ s] mod_Suc_eq)

lemma wait_loop_from:
  assumes "fs \<noteq> []" "j \<le> length fs"
  shows "wait_loop fs (i + j) s =
    (case try_from fs (Suc i) j s of Inl a \<Rightarrow> Some (Inl a) | Inr (ok, t) \<Rightarrow> if ok then Some (Inr t) else wait_loop fs i t)"
  using assms(2)
proof (induction "length fs - j" arbitrary: j s)
  case 0
  then have "j = length fs" by simp
  then show ?case using wait_loop_mod [OF assms(1), of i s] wait_loop_mod [OF assms(1), of "i + j" s] by (simp add: try_from.simps)
next
  case (Suc n)
  then have j: "j < length fs" "n = length fs - Suc j" by simp_all
  then have "wait_loop fs (Suc (i + j) mod length fs) = (\<lambda>t.
      case try_from fs (Suc i) (Suc j) t of Inl a \<Rightarrow> Some (Inl a) | Inr (ok, t) \<Rightarrow> if ok then Some (Inr t) else wait_loop fs i t)"
    using Suc.hyps(1) [OF j(2)] wait_loop_mod [OF assms(1), of "Suc (i + j)"] by (intro ext) simp
  then show ?case using j(1)
    by (cases "(fs ! (Suc (i + j) mod length fs)) s") (auto simp: try_from.simps [of fs _ j] wait_loop.simps [of fs "i + j"] Let_def)
qed

text \<open>A \<open>select\<close> tries its cases one after the other in a circle from the drawn number, each at most once, until one succeeds,
  and \<open>wait\<close> is \<open>try_once\<close> repeated from the state the failed attempts have left.\<close>

theorem select_tries_in_a_circle:
  "try_once i fs s = try_all (rotate i fs) s \<and>
   select_wait i fs s =
     (if fs = [] then None
      else Some (case try_once (i + 1) fs s of Inl a \<Rightarrow> Some (Inl a) | Inr (ok, t) \<Rightarrow> if ok then Some (Inr t) else wait_loop fs i t))"
  using wait_loop_from [of fs 0 i s] by (auto simp: try_once_def try_from_rotate select_wait_def)

lemma wait_loop_diverges:
  assumes "P s" "\<And>s. P s \<Longrightarrow> \<exists>t. f s = Inr (False, t) \<and> P t"
  shows "wait_loop [f] i s = None"
proof (rule ccontr)
  assume "wait_loop [f] i s \<noteq> None"
  then obtain y where "wait_loop [f] i s = Some y" by auto
  then have "[f] = [f] \<longrightarrow> \<not> P s"
  proof (rule wait_loop.raw_induct [where P = "\<lambda>fs i s y. fs = [f] \<longrightarrow> \<not> P s", rotated], intro impI notI)
    fix g :: "'a try_function list \<Rightarrow> nat \<Rightarrow> 'a \<Rightarrow> (assertion + 'a) option" and fs i s y
    assume hyp: "\<And>fs i s y. g fs i s = Some y \<Longrightarrow> fs = [f] \<longrightarrow> \<not> P s" and fs: "fs = [f]" and "P s"
      and body: "(let k = (i + 1) mod length fs
        in case (fs ! k) s of Inl a \<Rightarrow> Some (Inl a) | Inr (ok, t) \<Rightarrow> if ok then Some (Inr t) else g fs k t) = Some y"
    from assms(2) [OF \<open>P s\<close>] obtain t where "f s = Inr (False, t)" and t: "P t" by blast
    then have "g fs 0 t = Some y" using body fs by simp
    from hyp [OF this] fs t show False by blast
  qed
  then show False using assms(1) by blast
qed

definition select_send :: "'v \<Rightarrow> 'v chan try_function" where
  "select_send v = try_send_nullary (\<lambda>c. c) (\<lambda>c _. c) (\<lambda>_. True) 0 0 v (\<lambda>c. c)"

text \<open>A \<open>select\<close> that wants to send can miss a receiver for ever: on an unbuffered channel two threads wait to receive, a
  blocking send serves the first and clears the flag that announces receivers, and a \<open>select\<close> with a send then
  loops without end although the second thread still waits.\<close>

theorem select_misses_waiting_receiver:
  "\<exists>s :: nat gst. (gc_step 0 (\<lambda>i x. x = (if i = 0 then Op_Send else Op_Recv)))\<^sup>*\<^sup>* (gc_init 3) s \<and>
     failed s = None \<and> pcs s = [Idle, Idle, Recv_Wait] \<and> select_wait i [select_send v] (chn s) = Some None"
proof -
  let ?may = "\<lambda>i x. x = (if i = 0 then Op_Send else Op_Recv)"
  let ?run = "[Do_Recv 1, Do_Run 1, Do_Recv 2, Do_Run 2, Do_Send 0 7, Do_Run 0, Do_Wake 0 1, Do_Run 1, Do_Run 1, Do_Run 0, Do_Run 0]"
  let ?P = "\<lambda>c :: nat chan. m_is_send_done c \<and> m_is_try_send_done c \<and> m_queue c = [] \<and> \<not> m_is_recv_ready c \<and> \<not> m_is_try_recv_ready c"
  have run: "\<exists>s :: nat gst. schedule 0 ?may ?run (gc_init 3) = Some s \<and> failed s = None \<and> pcs s = [Idle, Idle, Recv_Wait] \<and> ?P (chn s)"
    by (simp add: run_defs numeral_3_eq_3)
  have "\<exists>t. select_send v c = Inr (False, t) \<and> ?P t" if "?P c" for c
    using that by (simp add: select_send_def try_send_nullary_def try_send_def section_defs)
  then have "select_wait i [select_send v] c = Some None" if "?P c" for c
    using wait_loop_diverges [of ?P c "select_send v" i] that by (simp add: select_wait_def)
  with run schedule_reach show ?thesis by blast
qed

text \<open>A nonblocking receive that finds nothing leaves a mark that only a later receive clears: the next nonblocking send aborts
  the program, even if the receiver has given up in the meantime.\<close>

theorem failed_try_recv_poisons_try_send:
  assumes "m_queue c = []"
  shows "\<exists>c'. try_recv_ptr N i c = Inr (None, c') \<and> try_send N j v c' = Inl Not_Try_Ready"
  using assms by (simp add: try_recv_ptr_def try_send_def section_defs)

theorem failed_try_recv_poisons_try_send_witness:
  "\<exists>c'. try_recv_ptr 1 0 (chan_new :: nat chan) = Inr (None, c') \<and> try_send 1 1 (5 :: nat) c' = Inl Not_Try_Ready"
  using failed_try_recv_poisons_try_send [of chan_new 1 0 1 5] by (simp add: chan_new_def)

end
