(* ===== verification/Services.thy ===== *)
theory Services
  imports Prelude
begin

text \<open>
  The services of a server and the modules that own them: \<open>service_helper\<close> and \<open>service_factory\<close>
  (\<open>src/network/service/service_meta.hpp\<close>), \<open>service_manager\<close> (\<open>service_manager.hpp\<close>), \<open>base_module\<close> and
  \<open>module_manager\<close> (\<open>src/network/module/\<close>). A type is its id, a positive number (\<open>base/type_id.hpp\<close>); an object is
  a number. Which hooks the class of a service has is the compile-time parameter \<open>has\<close>; what a hook
  returns is the parameter \<open>run\<close>, which may depend on all calls made so far. A \<open>std::map\<close> that is iterated is an
  association list in ascending order of its keys.
\<close>

section \<open>Model\<close>

datatype hook = H_Init | H_Start | H_Stop | H_Reset | H_Reload

text \<open>What the services see: calls of their hooks, and the world with the manager they find in it.\<close>

datatype svc_event = Called nat hook | Got_World nat "nat option"

record service =
  sv_type :: nat
  sv_name :: string
  sv_ptr :: nat

record traits =
  has_hook :: "nat \<Rightarrow> hook \<Rightarrow> bool"
  has_set_world :: "nat \<Rightarrow> bool"
  run_hook :: "nat \<Rightarrow> hook \<Rightarrow> svc_event list \<Rightarrow> bool"

subsection \<open>Ordered maps\<close>

primrec emplace :: "'k::linorder \<Rightarrow> 'v \<Rightarrow> ('k \<times> 'v) list \<Rightarrow> ('k \<times> 'v) list" where
  "emplace k v [] = [(k, v)]"
| "emplace k v (p # ps) = (if k < fst p then (k, v) # p # ps else if k = fst p then p # ps else p # emplace k v ps)"

subsection \<open>A service behind its interface\<close>

definition hook_bool :: "traits \<Rightarrow> hook \<Rightarrow> service \<Rightarrow> svc_event list \<Rightarrow> bool \<times> svc_event list" where
  "hook_bool tr h s ev =
     (if has_hook tr (sv_type s) h then (run_hook tr (sv_ptr s) h ev, ev @ [Called (sv_ptr s) h]) else (True, ev))"

definition hook_void :: "traits \<Rightarrow> hook \<Rightarrow> service \<Rightarrow> svc_event list \<Rightarrow> svc_event list" where
  "hook_void tr h s ev = (if has_hook tr (sv_type s) h then ev @ [Called (sv_ptr s) h] else ev)"

definition svc_set_world :: "traits \<Rightarrow> nat option \<Rightarrow> service \<Rightarrow> svc_event list \<Rightarrow> svc_event list" where
  "svc_set_world tr mgr s ev = (if has_set_world tr (sv_type s) then ev @ [Got_World (sv_ptr s) mgr] else ev)"

subsection \<open>The factory\<close>

record factory =
  service_map :: "(nat \<times> service) list"
  name_map :: "string \<Rightarrow> nat option"
  derived_service_map :: "nat \<Rightarrow> nat list"

definition factory_new :: factory where
  "factory_new = \<lparr>service_map = [], name_map = (\<lambda>_. None), derived_service_map = (\<lambda>_. [])\<rparr>"

definition name_emplace :: "string \<Rightarrow> nat \<Rightarrow> (string \<Rightarrow> nat option) \<Rightarrow> string \<Rightarrow> nat option" where
  "name_emplace n t m = (case m n of None \<Rightarrow> m(n \<mapsto> t) | Some _ \<Rightarrow> m)"

text \<open>\<open>ptr\<close> is the object \<open>new T()\<close>.\<close>

definition add_service :: "nat \<Rightarrow> string \<Rightarrow> nat \<Rightarrow> factory \<Rightarrow> factory" where
  "add_service tid name ptr f =
     f\<lparr>service_map := emplace tid \<lparr>sv_type = tid, sv_name = name, sv_ptr = ptr\<rparr> (service_map f),
       name_map := name_emplace name tid (name_map f)\<rparr>"

definition f_register_service :: "nat \<Rightarrow> string \<Rightarrow> nat \<Rightarrow> factory \<Rightarrow> factory" where
  "f_register_service tid name ptr f =
     (case map_of (service_map f) tid of Some _ \<Rightarrow> f | None \<Rightarrow> add_service tid name ptr f)"

definition f_register_derived :: "nat \<Rightarrow> nat \<Rightarrow> string \<Rightarrow> nat \<Rightarrow> factory \<Rightarrow> factory" where
  "f_register_derived tid base_tid name ptr f =
     (case map_of (service_map f) tid of Some _ \<Rightarrow> f
      | None \<Rightarrow> (let g = add_service tid name ptr f
                 in g\<lparr>derived_service_map := (derived_service_map g)(base_tid := derived_service_map g base_tid @ [tid])\<rparr>))"

definition f_get_service_id :: "nat \<Rightarrow> factory \<Rightarrow> service option" where
  "f_get_service_id tid f = map_of (service_map f) tid"

definition get_service_typeid :: "string \<Rightarrow> factory \<Rightarrow> nat" where
  "get_service_typeid name f = (case name_map f name of None \<Rightarrow> 0 | Some t \<Rightarrow> t)"

definition f_get_service_name :: "string \<Rightarrow> factory \<Rightarrow> service option" where
  "f_get_service_name name f = f_get_service_id (get_service_typeid name f) f"

definition get_derived_typeid_list :: "nat \<Rightarrow> factory \<Rightarrow> nat list" where
  "get_derived_typeid_list base_tid f = derived_service_map f base_tid"

primrec derived_ptrs :: "factory \<Rightarrow> nat list \<Rightarrow> nat list" where
  "derived_ptrs f [] = []"
| "derived_ptrs f (t # ts) = (case f_get_service_id t f of Some s \<Rightarrow> sv_ptr s # derived_ptrs f ts | None \<Rightarrow> derived_ptrs f ts)"

definition get_derived_services :: "nat \<Rightarrow> factory \<Rightarrow> nat list" where
  "get_derived_services base_tid f = derived_ptrs f (derived_service_map f base_tid)"

definition f_get_service :: "nat \<Rightarrow> factory \<Rightarrow> nat option" where
  "f_get_service tid f =
     (case map_of (service_map f) tid of
        Some s \<Rightarrow> Some (sv_ptr s)
      | None \<Rightarrow> (case get_derived_services tid f of [] \<Rightarrow> None | p # _ \<Rightarrow> Some p))"

definition f_get_all_service :: "nat \<Rightarrow> factory \<Rightarrow> nat list" where
  "f_get_all_service tid f =
     (case map_of (service_map f) tid of Some s \<Rightarrow> [sv_ptr s] | None \<Rightarrow> []) @ get_derived_services tid f"

definition reg_inter_service :: "nat \<Rightarrow> nat \<Rightarrow> string \<Rightarrow> factory \<Rightarrow> service \<times> factory" where
  "reg_inter_service tid ptr name f =
     (case map_of (service_map f) tid of
        Some s \<Rightarrow> (s, f)
      | None \<Rightarrow> (\<lparr>sv_type = tid, sv_name = name, sv_ptr = ptr\<rparr>, add_service tid name ptr f))"

subsection \<open>The manager\<close>

text \<open>The manager of a server: the services it has taken from the factory.\<close>

type_synonym manager = "(nat \<times> service) list"

definition service_set_world :: "traits \<Rightarrow> nat option \<Rightarrow> manager \<Rightarrow> svc_event list \<Rightarrow> svc_event list" where
  "service_set_world tr mgr m ev = fold (svc_set_world tr mgr) (map snd m) ev"

primrec all_of :: "(service \<Rightarrow> svc_event list \<Rightarrow> bool \<times> svc_event list) \<Rightarrow> service list \<Rightarrow> svc_event list \<Rightarrow> bool \<times> svc_event list" where
  "all_of f [] ev = (True, ev)"
| "all_of f (s # ss) ev = (case f s ev of (ok, ev') \<Rightarrow> if ok then all_of f ss ev' else (False, ev'))"

definition init_service :: "traits \<Rightarrow> manager \<Rightarrow> svc_event list \<Rightarrow> bool \<times> svc_event list" where
  "init_service tr m = all_of (hook_bool tr H_Init) (map snd m)"

definition start_service :: "traits \<Rightarrow> manager \<Rightarrow> svc_event list \<Rightarrow> bool \<times> svc_event list" where
  "start_service tr m = all_of (hook_bool tr H_Start) (map snd m)"

definition stop_service :: "traits \<Rightarrow> manager \<Rightarrow> svc_event list \<Rightarrow> svc_event list" where
  "stop_service tr m ev = fold (hook_void tr H_Stop) (map snd m) ev"

definition reset_service :: "traits \<Rightarrow> manager \<Rightarrow> svc_event list \<Rightarrow> svc_event list" where
  "reset_service tr m ev = fold (hook_void tr H_Reset) (map snd m) ev"

definition reload_service :: "traits \<Rightarrow> manager \<Rightarrow> svc_event list \<Rightarrow> bool \<times> svc_event list" where
  "reload_service tr m = all_of (hook_bool tr H_Reload) (map snd m)"

definition internal_get_service :: "nat \<Rightarrow> manager \<Rightarrow> nat option" where
  "internal_get_service tid m = map_option sv_ptr (map_of m tid)"

primrec first_of :: "nat list \<Rightarrow> manager \<Rightarrow> nat option" where
  "first_of [] m = None"
| "first_of (t # ts) m = (case internal_get_service t m of Some p \<Rightarrow> Some p | None \<Rightarrow> first_of ts m)"

definition get_service :: "nat \<Rightarrow> factory \<Rightarrow> manager \<Rightarrow> nat option" where
  "get_service tid f m =
     (if m = [] then None
      else case internal_get_service tid m of
             Some p \<Rightarrow> Some p
           | None \<Rightarrow> first_of (get_derived_typeid_list tid f) m)"

primrec ptrs_of :: "nat list \<Rightarrow> manager \<Rightarrow> nat list" where
  "ptrs_of [] m = []"
| "ptrs_of (t # ts) m = (case internal_get_service t m of Some p \<Rightarrow> p # ptrs_of ts m | None \<Rightarrow> ptrs_of ts m)"

definition get_all_service :: "nat \<Rightarrow> factory \<Rightarrow> manager \<Rightarrow> nat list" where
  "get_all_service tid f m = (if m = [] then [] else ptrs_of (tid # get_derived_typeid_list tid f) m)"

definition find_service_name :: "string \<Rightarrow> factory \<Rightarrow> manager \<Rightarrow> bool" where
  "find_service_name name f m =
     (if m = [] then False
      else case f_get_service_name name f of None \<Rightarrow> False | Some s \<Rightarrow> map_of m (sv_type s) \<noteq> None)"

definition take_service :: "service option \<Rightarrow> manager \<Rightarrow> manager" where
  "take_service s m = (case s of None \<Rightarrow> m | Some s \<Rightarrow> emplace (sv_type s) s m)"

definition reg_impl :: "nat \<Rightarrow> factory \<Rightarrow> manager \<Rightarrow> manager" where
  "reg_impl tid f m = take_service (f_get_service_id tid f) m"

definition m_register_service :: "string \<Rightarrow> factory \<Rightarrow> manager \<Rightarrow> manager" where
  "m_register_service name f m = take_service (f_get_service_name name f) m"

definition m_register_services :: "string list \<Rightarrow> factory \<Rightarrow> manager \<Rightarrow> manager" where
  "m_register_services names f m = fold (\<lambda>n. m_register_service n f) names m"

definition register_all_service :: "factory \<Rightarrow> manager \<Rightarrow> manager" where
  "register_all_service f m = service_map f"

definition m_reg_inter_service :: "nat \<Rightarrow> nat \<Rightarrow> string \<Rightarrow> factory \<Rightarrow> manager \<Rightarrow> factory \<times> manager" where
  "m_reg_inter_service tid ptr name f m = (case reg_inter_service tid ptr name f of (s, g) \<Rightarrow> (g, take_service (Some s) m))"

subsection \<open>Modules\<close>

text \<open>A module owns a manager, the object \<open>bm_mgr_ptr\<close>. The world of a process keeps named objects; storing the manager
  there hands the world to all its services.\<close>

record base_module =
  bm_service_mgr :: manager
  bm_mgr_ptr :: nat
  bm_auto_register :: bool

type_synonym world = "string \<Rightarrow> nat option"

definition bm_init :: "traits \<Rightarrow> factory \<Rightarrow> base_module \<Rightarrow> world \<Rightarrow> svc_event list \<Rightarrow> bool \<times> base_module \<times> world \<times> svc_event list" where
  "bm_init tr f b w ev =
     (let b1 = (if bm_auto_register b then b\<lparr>bm_service_mgr := register_all_service f (bm_service_mgr b)\<rparr> else b);
          w1 = w(''service_mgr'' \<mapsto> bm_mgr_ptr b1);
          ev1 = service_set_world tr (w1 ''service_mgr'') (bm_service_mgr b1) ev;
          (ok, ev2) = init_service tr (bm_service_mgr b1) ev1
      in (ok, b1, w1, ev2))"

record module_mgr =
  reg_modules :: "string \<Rightarrow> base_module option"
  modules :: "(string \<times> base_module) list"
  mm_world :: world
  mm_events :: "svc_event list"

text \<open>\<open>register_module\<close>: the function that makes the module is represented by the module it makes.\<close>

definition register_module :: "string \<Rightarrow> base_module \<Rightarrow> module_mgr \<Rightarrow> module_mgr" where
  "register_module name b mm = mm\<lparr>reg_modules := (reg_modules mm)(name \<mapsto> b)\<rparr>"

primrec put_module :: "string \<Rightarrow> base_module \<Rightarrow> (string \<times> base_module) list \<Rightarrow> (string \<times> base_module) list" where
  "put_module n b [] = [(n, b)]"
| "put_module n b (p # ps) = (if fst p = n then (n, b) # ps else p # put_module n b ps)"

definition init_module :: "traits \<Rightarrow> factory \<Rightarrow> string \<Rightarrow> module_mgr \<Rightarrow> bool \<times> module_mgr" where
  "init_module tr f name mm =
     (case reg_modules mm name of
        None \<Rightarrow> (False, mm)
      | Some b \<Rightarrow> (case bm_init tr f b (mm_world mm) (mm_events mm) of
          (ok, b1, w1, ev1) \<Rightarrow> (ok, mm\<lparr>modules := put_module name b1 (modules mm), mm_world := w1, mm_events := ev1\<rparr>)))"

primrec mods_all_of :: "(manager \<Rightarrow> svc_event list \<Rightarrow> bool \<times> svc_event list) \<Rightarrow> (string \<times> base_module) list \<Rightarrow> svc_event list \<Rightarrow> bool \<times> svc_event list" where
  "mods_all_of f [] ev = (True, ev)"
| "mods_all_of f (p # ps) ev = (case f (bm_service_mgr (snd p)) ev of (ok, ev') \<Rightarrow> if ok then mods_all_of f ps ev' else (False, ev'))"

definition mm_start :: "traits \<Rightarrow> module_mgr \<Rightarrow> bool \<times> module_mgr" where
  "mm_start tr mm = (case mods_all_of (start_service tr) (modules mm) (mm_events mm) of (ok, ev) \<Rightarrow> (ok, mm\<lparr>mm_events := ev\<rparr>))"

definition mm_reload :: "traits \<Rightarrow> module_mgr \<Rightarrow> bool \<times> module_mgr" where
  "mm_reload tr mm = (case mods_all_of (reload_service tr) (modules mm) (mm_events mm) of (ok, ev) \<Rightarrow> (ok, mm\<lparr>mm_events := ev\<rparr>))"

definition mm_stop :: "traits \<Rightarrow> module_mgr \<Rightarrow> module_mgr" where
  "mm_stop tr mm = mm\<lparr>mm_events := fold (\<lambda>p. stop_service tr (bm_service_mgr (snd p))) (modules mm) (mm_events mm)\<rparr>"

text \<open>\<open>modules_.begin()->second\<close>; without modules this is undefined.\<close>

definition mm_get_service_mgr :: "module_mgr \<Rightarrow> nat option" where
  "mm_get_service_mgr mm = (case modules mm of [] \<Rightarrow> None | p # _ \<Rightarrow> Some (bm_mgr_ptr (snd p)))"

section \<open>Maps in which the first entry stays\<close>

locale first_wins =
  fixes put :: "'k \<Rightarrow> 'v \<Rightarrow> 'm \<Rightarrow> 'm" and look :: "'m \<Rightarrow> 'k \<Rightarrow> 'v option" and ok :: "'m \<Rightarrow> bool"
  assumes look_put: "ok m \<Longrightarrow> look (put k v m) k' = (if k' = k \<and> look m k = None then Some v else look m k')"
    and ok_put: "ok m \<Longrightarrow> ok (put k v m)"
begin

lemma fold_ok: "ok m \<Longrightarrow> ok (fold (\<lambda>x. put (key x) (val x)) xs m)"
  by (induction xs arbitrary: m) (auto intro: ok_put)

lemma fold_look:
  "ok m \<Longrightarrow> look (fold (\<lambda>x. put (key x) (val x)) xs m) k =
     (case look m k of Some v \<Rightarrow> Some v | None \<Rightarrow> map_option val (find (\<lambda>x. key x = k) xs))"
  by (induction xs arbitrary: m) (auto simp: ok_put look_put split: option.splits)

end

definition ordered :: "('k::linorder \<times> 'v) list \<Rightarrow> bool" where
  "ordered xs \<longleftrightarrow> sorted_wrt (<) (map fst xs)"

lemma emplace_keys: "fst ` set (emplace k v xs) = insert k (fst ` set xs)"
  by (induction xs) auto

lemma emplace_ordered: "ordered xs \<Longrightarrow> ordered (emplace k v xs)"
proof (induction xs)
  case (Cons p ps)
  then have "ordered (emplace k v ps)" "\<forall>x\<in>set ps. fst p < fst x" by (auto simp: ordered_def)
  then show ?case using Cons.prems emplace_keys [of k v ps] by (fastforce simp: ordered_def)
qed (simp add: ordered_def)

lemma ordered_not_before: "ordered xs \<Longrightarrow> xs \<noteq> [] \<Longrightarrow> k < fst (hd xs) \<Longrightarrow> map_of xs k = None"
  by (cases xs) (auto simp: ordered_def map_of_eq_None_iff)

lemma emplace_lookup:
  "ordered xs \<Longrightarrow> map_of (emplace k v xs) k' = (if k' = k \<and> map_of xs k = None then Some v else map_of xs k')"
proof (induction xs)
  case (Cons p ps)
  then have "map_of (emplace k v ps) k' = (if k' = k \<and> map_of ps k = None then Some v else map_of ps k')" by (simp add: ordered_def)
  then show ?case using ordered_not_before [OF Cons.prems, of k] by (cases p) auto
qed simp

interpretation ord_map: first_wins "emplace :: nat \<Rightarrow> 'v \<Rightarrow> (nat \<times> 'v) list \<Rightarrow> (nat \<times> 'v) list" map_of ordered
  by unfold_locales (simp_all add: emplace_lookup emplace_ordered)

interpretation names: first_wins name_emplace "\<lambda>m. m" "\<lambda>_. True"
  by unfold_locales (auto simp: name_emplace_def split: option.splits)

section \<open>Registrations\<close>

text \<open>The registrations the static initialisers of a program make, in their order.\<close>

record registration =
  rg_type :: nat
  rg_base :: "nat option"
  rg_name :: string
  rg_ptr :: nat

definition register :: "registration \<Rightarrow> factory \<Rightarrow> factory" where
  "register r f = (case rg_base r of
     None \<Rightarrow> f_register_service (rg_type r) (rg_name r) (rg_ptr r) f
   | Some b \<Rightarrow> f_register_derived (rg_type r) b (rg_name r) (rg_ptr r) f)"

definition factory_of :: "registration list \<Rightarrow> factory" where
  "factory_of rs = fold register rs factory_new"

text \<open>What remains of them: only the first registration of a type counts.\<close>

definition accept :: "registration \<Rightarrow> registration list \<Rightarrow> registration list" where
  "accept r acc = (if rg_type r \<in> set (map rg_type acc) then acc else acc @ [r])"

definition accepted :: "registration list \<Rightarrow> registration list" where
  "accepted rs = fold accept rs []"

definition service_of :: "registration \<Rightarrow> service" where
  "service_of r = \<lparr>sv_type = rg_type r, sv_name = rg_name r, sv_ptr = rg_ptr r\<rparr>"

definition factory_abs :: "registration list \<Rightarrow> factory \<Rightarrow> bool" where
  "factory_abs acc f \<longleftrightarrow> ordered (service_map f) \<and> distinct (map rg_type acc) \<and>
     (\<forall>t. map_of (service_map f) t = map_option service_of (find (\<lambda>r. rg_type r = t) acc)) \<and>
     (\<forall>n. name_map f n = map_option rg_type (find (\<lambda>r. rg_name r = n) acc)) \<and>
     (\<forall>b. derived_service_map f b = map rg_type (filter (\<lambda>r. rg_base r = Some b) acc))"

lemma find_snoc: "find P (xs @ [x]) = (case find P xs of Some y \<Rightarrow> Some y | None \<Rightarrow> if P x then Some x else None)"
  by (induction xs) auto

lemma factory_abs_add:
  assumes "factory_abs acc f" "rg_type r \<notin> set (map rg_type acc)"
  shows "ordered (service_map (add_service (rg_type r) (rg_name r) (rg_ptr r) f))"
    "map_of (service_map (add_service (rg_type r) (rg_name r) (rg_ptr r) f)) t = map_option service_of (find (\<lambda>r. rg_type r = t) (acc @ [r]))"
    "name_map (add_service (rg_type r) (rg_name r) (rg_ptr r) f) n = map_option rg_type (find (\<lambda>r. rg_name r = n) (acc @ [r]))"
    "derived_service_map (add_service (rg_type r) (rg_name r) (rg_ptr r) f) b = map rg_type (filter (\<lambda>r. rg_base r = Some b) acc)"
proof -
  have "find (\<lambda>r'. rg_type r' = rg_type r) acc = None" using assms(2) by (auto simp: find_None_iff image_iff)
  then show "ordered (service_map (add_service (rg_type r) (rg_name r) (rg_ptr r) f))"
    "map_of (service_map (add_service (rg_type r) (rg_name r) (rg_ptr r) f)) t = map_option service_of (find (\<lambda>r. rg_type r = t) (acc @ [r]))"
    using assms(1)
    by (auto simp: add_service_def factory_abs_def emplace_ordered emplace_lookup find_snoc service_of_def split: option.splits)
  show "name_map (add_service (rg_type r) (rg_name r) (rg_ptr r) f) n = map_option rg_type (find (\<lambda>r. rg_name r = n) (acc @ [r]))"
    using assms(1) names.look_put [OF TrueI, of "rg_name r" "rg_type r" "name_map f" n]
    by (auto simp: add_service_def factory_abs_def find_snoc split: option.splits)
  show "derived_service_map (add_service (rg_type r) (rg_name r) (rg_ptr r) f) b = map rg_type (filter (\<lambda>r. rg_base r = Some b) acc)"
    using assms(1) by (simp add: add_service_def factory_abs_def)
qed

lemma factory_abs_step:
  assumes "factory_abs acc f"
  shows "factory_abs (accept r acc) (register r f)"
proof (cases "rg_type r \<in> set (map rg_type acc)")
  case True
  then have "map_of (service_map f) (rg_type r) \<noteq> None" using assms by (auto simp: factory_abs_def find_None_iff)
  then show ?thesis using True assms
    by (auto simp: accept_def register_def f_register_service_def f_register_derived_def split: option.splits)
next
  case False
  then have n: "map_of (service_map f) (rg_type r) = None" using assms by (auto simp: factory_abs_def find_None_iff image_iff)
  note add = factory_abs_add [OF assms False]
  have "distinct (map rg_type (acc @ [r]))" using False assms by (simp add: factory_abs_def)
  with add n False show ?thesis
    by (cases "rg_base r")
      (auto simp: factory_abs_def accept_def register_def f_register_service_def f_register_derived_def Let_def)
qed

lemma factory_of_abs: "factory_abs (accepted rs) (factory_of rs)"
proof -
  have "factory_abs acc f \<Longrightarrow> factory_abs (fold accept rs acc) (fold register rs f)" for acc f
    by (induction rs arbitrary: acc f) (auto intro: factory_abs_step)
  moreover have "factory_abs [] factory_new" by (simp add: factory_abs_def factory_new_def ordered_def)
  ultimately show ?thesis by (simp add: accepted_def factory_of_def)
qed

lemma find_unique:
  assumes "distinct (map h xs)" "r \<in> set xs" "P r" "\<And>q. P q \<Longrightarrow> h q = h r"
  shows "find P xs = Some r"
  using assms
proof (induction xs)
  case (Cons x xs)
  show ?case
  proof (cases "x = r")
    case False
    then have "r \<in> set xs" using Cons.prems(2) by simp
    moreover have "\<not> P x" using Cons.prems(1,4) \<open>r \<in> set xs\<close> by (auto simp: image_iff)
    ultimately show ?thesis using Cons.IH [OF _ _ Cons.prems(3,4)] Cons.prems(1) by simp
  qed (simp add: Cons.prems(3))
qed simp

lemma accepted_distinct: "distinct (map rg_type (accepted rs))"
  using factory_of_abs [of rs] by (simp add: factory_abs_def)

lemma accepted_find_type: "r \<in> set (accepted rs) \<Longrightarrow> find (\<lambda>q. rg_type q = rg_type r) (accepted rs) = Some r"
  by (rule find_unique [OF accepted_distinct]) auto

lemma accepted_type_inj: "q \<in> set (accepted rs) \<Longrightarrow> r \<in> set (accepted rs) \<Longrightarrow> rg_type q = rg_type r \<Longrightarrow> q = r"
  by (metis accepted_find_type option.inject)

lemma accepted_subset: "set (accepted rs) \<subseteq> set rs"
proof -
  have "set (accept r acc) \<subseteq> insert r (set acc)" for r acc by (auto simp: accept_def)
  then have "set (fold accept rs acc) \<subseteq> set acc \<union> set rs" for acc by (induction rs arbitrary: acc) (simp, fastforce)
  from this [of "[]"] show ?thesis by (simp add: accepted_def)
qed

lemma f_get_service_id_of: "f_get_service_id t (factory_of rs) = map_option service_of (find (\<lambda>r. rg_type r = t) (accepted rs))"
  using factory_of_abs [of rs] by (simp add: f_get_service_id_def factory_abs_def)

lemma find_SomeD: "find P xs = Some x \<Longrightarrow> x \<in> set xs \<and> P x"
  by (induction xs) (auto split: if_splits)

lemma name_map_of: "name_map (factory_of rs) n = map_option rg_type (find (\<lambda>r. rg_name r = n) (accepted rs))"
  using factory_of_abs [of rs] by (simp add: factory_abs_def)

lemma f_get_service_name_of:
  assumes "\<forall>r\<in>set rs. 0 < rg_type r"
  shows "f_get_service_name n (factory_of rs) = map_option service_of (find (\<lambda>r. rg_name r = n) (accepted rs))"
proof (cases "find (\<lambda>r. rg_name r = n) (accepted rs)")
  case None
  have "find (\<lambda>r. rg_type r = 0) (accepted rs) = None" using assms accepted_subset [of rs] by (auto simp: find_None_iff)
  then show ?thesis using None by (simp add: f_get_service_name_def f_get_service_id_of get_service_typeid_def name_map_of)
next
  case (Some r)
  then have "r \<in> set (accepted rs)" by (blast dest: find_SomeD)
  then show ?thesis using Some accepted_find_type [of r rs]
    by (simp add: f_get_service_name_def f_get_service_id_of get_service_typeid_def name_map_of)
qed

section \<open>Taking services by name\<close>

text \<open>A registration can be had by name when no accepted one before it has the same name.\<close>

definition chosen :: "registration list \<Rightarrow> string list \<Rightarrow> registration \<Rightarrow> bool" where
  "chosen rs names r \<longleftrightarrow> rg_name r \<in> set names \<and> find (\<lambda>q. rg_name q = rg_name r) (accepted rs) = Some r"

lemma fold_take_service: "fold (\<lambda>n. take_service (g n)) ns m = fold (\<lambda>s. emplace (sv_type s) s) (List.map_filter g ns) m"
  by (induction ns arbitrary: m) (auto simp: take_service_def map_filter_simps split: option.splits)

lemma set_map_filter: "set (List.map_filter g xs) = {y. \<exists>x\<in>set xs. g x = Some y}"
  by (force simp: List.map_filter_def)

lemma m_register_services_fold:
  "m_register_services names f m = fold (\<lambda>s. emplace (sv_type s) s) (List.map_filter (\<lambda>n. f_get_service_name n f) names) m"
proof -
  have "(\<lambda>n. m_register_service n f) = (\<lambda>n. take_service (f_get_service_name n f))" by (intro ext) (simp add: m_register_service_def)
  then show ?thesis by (simp add: m_register_services_def fold_take_service)
qed

lemma registered_lookup:
  assumes "\<forall>r\<in>set rs. 0 < rg_type r"
  shows "map_of (m_register_services names (factory_of rs) []) t =
    map_option service_of (find (\<lambda>r. rg_type r = t \<and> chosen rs names r) (accepted rs))"
proof -
  let ?g = "\<lambda>n. map_option service_of (find (\<lambda>r. rg_name r = n) (accepted rs))"
  have "map_of (m_register_services names (factory_of rs) []) t = find (\<lambda>s. sv_type s = t) (List.map_filter ?g names)"
    using ord_map.fold_look [of "[]" sv_type "\<lambda>s. s" "List.map_filter ?g names" t]
    by (simp add: m_register_services_fold f_get_service_name_of [OF assms] ordered_def option.map_ident)
  also have "\<dots> = map_option service_of (find (\<lambda>r. rg_type r = t \<and> chosen rs names r) (accepted rs))"
  proof (cases "\<exists>r\<in>set (accepted rs). rg_type r = t \<and> chosen rs names r")
    case True
    then obtain r where r: "r \<in> set (accepted rs)" "rg_type r = t" "chosen rs names r" by blast
    have mem: "s = service_of r" if "s \<in> set (List.map_filter ?g names)" "sv_type s = t" for s
    proof -
      from that(1) obtain n q where q: "find (\<lambda>r. rg_name r = n) (accepted rs) = Some q" "s = service_of q"
        by (auto simp: set_map_filter)
      then have "q \<in> set (accepted rs)" by (blast dest: find_SomeD)
      moreover have "rg_type q = rg_type r" using that(2) q(2) r(2) by (simp add: service_of_def)
      ultimately show ?thesis using accepted_type_inj [OF _ r(1)] q(2) by blast
    qed
    have "service_of r \<in> set (List.map_filter ?g names)" using r(3) unfolding set_map_filter chosen_def by force
    then have "find (\<lambda>s. sv_type s = t) (List.map_filter ?g names) \<noteq> None" using r(2) by (auto simp: find_None_iff service_of_def)
    then have "find (\<lambda>s. sv_type s = t) (List.map_filter ?g names) = Some (service_of r)"
      using mem find_SomeD [of "\<lambda>s. sv_type s = t" "List.map_filter ?g names"] by blast
    moreover have "find (\<lambda>r. rg_type r = t \<and> chosen rs names r) (accepted rs) = Some r"
      by (rule find_unique [OF accepted_distinct]) (use r in auto)
    ultimately show ?thesis by simp
  next
    case False
    then have "find (\<lambda>r. rg_type r = t \<and> chosen rs names r) (accepted rs) = None" by (auto simp: find_None_iff)
    moreover have "find (\<lambda>s. sv_type s = t) (List.map_filter ?g names) = None"
    proof -
      have "sv_type s \<noteq> t" if "s \<in> set (List.map_filter ?g names)" for s
      proof -
        from that obtain n q where q: "n \<in> set names" "find (\<lambda>r. rg_name r = n) (accepted rs) = Some q" "s = service_of q"
          by (auto simp: set_map_filter)
        then have "q \<in> set (accepted rs)" "rg_name q = n" by (auto dest: find_SomeD)
        then show ?thesis using False q by (auto simp: chosen_def service_of_def)
      qed
      then show ?thesis by (auto simp: find_None_iff)
    qed
    ultimately show ?thesis by simp
  qed
  finally show ?thesis .
qed

lemma internal_get_registered:
  assumes "\<forall>r\<in>set rs. 0 < rg_type r" "r \<in> set (accepted rs)"
  shows "internal_get_service (rg_type r) (m_register_services names (factory_of rs) []) = (if chosen rs names r then Some (rg_ptr r) else None)"
proof (cases "chosen rs names r")
  case True
  then have "find (\<lambda>q. rg_type q = rg_type r \<and> chosen rs names q) (accepted rs) = Some r"
    using assms(2) by (intro find_unique [OF accepted_distinct]) auto
  then show ?thesis using True by (simp add: internal_get_service_def registered_lookup [OF assms(1)] service_of_def)
next
  case False
  then have "find (\<lambda>q. rg_type q = rg_type r \<and> chosen rs names q) (accepted rs) = None"
    using accepted_type_inj [OF _ assms(2)] by (auto simp: find_None_iff)
  then show ?thesis using False by (simp add: internal_get_service_def registered_lookup [OF assms(1)])
qed

lemma ptrs_of_registered:
  assumes "\<forall>r\<in>set rs. 0 < rg_type r" "set qs \<subseteq> set (accepted rs)"
  shows "ptrs_of (map rg_type qs) (m_register_services names (factory_of rs) []) = map rg_ptr (filter (chosen rs names) qs)"
  using assms(2) by (induction qs) (auto simp: internal_get_registered [OF assms(1)])

lemma first_of_ptrs: "first_of ts m = (case ptrs_of ts m of [] \<Rightarrow> None | p # _ \<Rightarrow> Some p)"
  by (induction ts) (auto split: option.splits)

lemma ptrs_of_own:
  assumes "\<forall>r\<in>set rs. 0 < rg_type r"
  shows "ptrs_of [t] (m_register_services names (factory_of rs) []) =
    map rg_ptr (filter (\<lambda>r. rg_type r = t \<and> chosen rs names r) (accepted rs))"
proof -
  have f: "filter P xs = (case find P xs of None \<Rightarrow> [] | Some r \<Rightarrow> [r])" if "distinct (map rg_type xs)" "\<And>r. P r \<Longrightarrow> rg_type r = t" for P xs
    using that by (induction xs) (auto simp: filter_empty_conv find_None_iff image_iff split: option.splits dest!: find_SomeD)
  show ?thesis
    using f [OF accepted_distinct, of "\<lambda>r. rg_type r = t \<and> chosen rs names r" rs]
    by (auto simp: internal_get_service_def registered_lookup [OF assms] service_of_def split: option.splits)
qed

lemma ptrs_of_append: "ptrs_of (ts @ us) m = ptrs_of ts m @ ptrs_of us m"
  by (induction ts) (auto split: option.splits)

lemma ptrs_of_Nil [simp]: "ptrs_of ts [] = []"
  by (induction ts) (auto simp: internal_get_service_def)

section \<open>Properties\<close>

text \<open>(C28) Services are found by type and through their base. A manager that has taken services by name from the factory of a
  program answers a request for a type with the service of that type, if it was accepted and can be had under one of the names, followed by
  those of the accepted derived types, in the order of their registration; a request for one service gets the
  first of them, and a request by name succeeds exactly for the names that lead to a taken service.\<close>

theorem services_found_by_type_and_base:
  assumes "\<forall>r\<in>set rs. 0 < rg_type r" and "f = factory_of rs" and "m = m_register_services names f []"
  shows "get_all_service t f m =
      map rg_ptr (filter (\<lambda>r. rg_type r = t \<and> chosen rs names r) (accepted rs) @
                  filter (\<lambda>r. rg_base r = Some t \<and> chosen rs names r) (accepted rs)) \<and>
    get_service t f m = (case get_all_service t f m of [] \<Rightarrow> None | p # _ \<Rightarrow> Some p) \<and>
    (find_service_name n f m \<longleftrightarrow> (\<exists>r\<in>set (accepted rs). chosen rs names r \<and> rg_name r = n))"
proof (intro conjI)
  let ?derived = "filter (\<lambda>r. rg_base r = Some t) (accepted rs)"
  have d: "get_derived_typeid_list t f = map rg_type ?derived"
    using factory_of_abs [of rs] assms(2) by (simp add: factory_abs_def get_derived_typeid_list_def)
  have "ptrs_of (map rg_type ?derived) m = map rg_ptr (filter (chosen rs names) ?derived)"
    unfolding assms(2,3) by (rule ptrs_of_registered [OF assms(1)]) auto
  then have all: "ptrs_of (t # get_derived_typeid_list t f) m =
      map rg_ptr (filter (\<lambda>r. rg_type r = t \<and> chosen rs names r) (accepted rs) @
                  filter (\<lambda>r. rg_base r = Some t \<and> chosen rs names r) (accepted rs))"
    using ptrs_of_own [OF assms(1), of t names] ptrs_of_append [of "[t]" "get_derived_typeid_list t f" m] d
    by (simp add: assms(2,3) conj_commute del: ptrs_of.simps)
  have "ptrs_of (t # get_derived_typeid_list t f) m = get_all_service t f m" by (simp add: get_all_service_def del: ptrs_of.simps)
  with all show "get_all_service t f m =
      map rg_ptr (filter (\<lambda>r. rg_type r = t \<and> chosen rs names r) (accepted rs) @
                  filter (\<lambda>r. rg_base r = Some t \<and> chosen rs names r) (accepted rs))" by simp
  show "get_service t f m = (case get_all_service t f m of [] \<Rightarrow> None | p # _ \<Rightarrow> Some p)"
    by (auto simp: get_service_def get_all_service_def first_of_ptrs split: option.splits)
  have "find_service_name n f m \<longleftrightarrow> (\<exists>q. find (\<lambda>r. rg_name r = n) (accepted rs) = Some q \<and> map_of m (rg_type q) \<noteq> None)"
    by (auto simp: find_service_name_def assms(2) f_get_service_name_of [OF assms(1)] service_of_def split: option.splits)
  also have "\<dots> \<longleftrightarrow> (\<exists>q. find (\<lambda>r. rg_name r = n) (accepted rs) = Some q \<and> chosen rs names q)"
  proof -
    have "map_of m (rg_type q) \<noteq> None \<longleftrightarrow> chosen rs names q" if "q \<in> set (accepted rs)" for q
      using internal_get_registered [OF assms(1) that, of names] by (auto simp: assms(2,3) internal_get_service_def split: if_splits)
    then show ?thesis using find_SomeD by metis
  qed
  also have "\<dots> \<longleftrightarrow> (\<exists>r\<in>set (accepted rs). chosen rs names r \<and> rg_name r = n)"
    by (auto simp: chosen_def dest: find_SomeD)
  finally show "find_service_name n f m \<longleftrightarrow> (\<exists>r\<in>set (accepted rs). chosen rs names r \<and> rg_name r = n)" .
qed

definition sample_regs :: "registration list" where
  "sample_regs =
     [\<lparr>rg_type = 1, rg_base = None, rg_name = ''bag'', rg_ptr = 10\<rparr>,
      \<lparr>rg_type = 2, rg_base = Some 1, rg_name = ''shop'', rg_ptr = 20\<rparr>,
      \<lparr>rg_type = 3, rg_base = Some 1, rg_name = ''mail'', rg_ptr = 30\<rparr>]"

theorem services_found_by_type_and_base_witness:
  "get_all_service 1 (factory_of sample_regs) (m_register_services [''mail'', ''shop''] (factory_of sample_regs) []) = [20, 30] \<and>
   get_service 1 (factory_of sample_regs) (m_register_services [''mail'', ''shop''] (factory_of sample_regs) []) = Some 20"
proof -
  have "\<forall>r\<in>set sample_regs. 0 < rg_type r" by (simp add: sample_regs_def)
  note found = services_found_by_type_and_base [OF this refl refl, of 1 "[''mail'', ''shop'']"]
  have "filter (\<lambda>r. rg_type r = 1 \<and> chosen sample_regs [''mail'', ''shop''] r) (accepted sample_regs) = []"
    "map rg_ptr (filter (\<lambda>r. rg_base r = Some 1 \<and> chosen sample_regs [''mail'', ''shop''] r) (accepted sample_regs)) = [20, 30]"
    by (simp_all add: sample_regs_def accepted_def accept_def chosen_def)
  with found show ?thesis by simp
qed

text \<open>All hooks of a sequence of calls returned true, apart from the last if the whole did not.\<close>

primrec returned_true :: "traits \<Rightarrow> hook \<Rightarrow> bool \<Rightarrow> service list \<Rightarrow> svc_event list \<Rightarrow> bool" where
  "returned_true tr h ok [] ev \<longleftrightarrow> True"
| "returned_true tr h ok (c # cs) ev \<longleftrightarrow>
     (run_hook tr (sv_ptr c) h ev \<longleftrightarrow> ok \<or> cs \<noteq> []) \<and> returned_true tr h ok cs (ev @ [Called (sv_ptr c) h])"

lemma all_of_calls:
  assumes "all_of (hook_bool tr h) ss ev = (ok, ev')"
  shows "\<exists>k\<le>length ss. let cs = filter (\<lambda>s. has_hook tr (sv_type s) h) (take k ss) in
    ev' = ev @ map (\<lambda>s. Called (sv_ptr s) h) cs \<and> (ok \<longrightarrow> k = length ss) \<and> (\<not> ok \<longrightarrow> cs \<noteq> []) \<and> returned_true tr h ok cs ev"
  using assms
proof (induction ss arbitrary: ev)
  case Nil
  then show ?case by simp
next
  case (Cons s ss)
  consider "\<not> has_hook tr (sv_type s) h" "all_of (hook_bool tr h) ss ev = (ok, ev')"
    | "has_hook tr (sv_type s) h" "\<not> run_hook tr (sv_ptr s) h ev" "\<not> ok" "ev' = ev @ [Called (sv_ptr s) h]"
    | "has_hook tr (sv_type s) h" "run_hook tr (sv_ptr s) h ev" "all_of (hook_bool tr h) ss (ev @ [Called (sv_ptr s) h]) = (ok, ev')"
    using Cons.prems by (auto simp: hook_bool_def [of tr h s] split: if_splits)
  then show ?case
  proof cases
    case 1
    with Cons.IH [OF 1(2)] obtain k where "k \<le> length ss" "let cs = filter (\<lambda>s. has_hook tr (sv_type s) h) (take k ss) in
        ev' = ev @ map (\<lambda>s. Called (sv_ptr s) h) cs \<and> (ok \<longrightarrow> k = length ss) \<and> (\<not> ok \<longrightarrow> cs \<noteq> []) \<and> returned_true tr h ok cs ev" by blast
    with 1 show ?thesis by (intro exI [of _ "Suc k"]) (simp add: Let_def)
  next
    case 2
    then show ?thesis by (intro exI [of _ 1]) (simp add: Let_def)
  next
    case 3
    with Cons.IH [OF 3(3)] obtain k where "k \<le> length ss" "let cs = filter (\<lambda>s. has_hook tr (sv_type s) h) (take k ss) in
        ev' = (ev @ [Called (sv_ptr s) h]) @ map (\<lambda>s. Called (sv_ptr s) h) cs \<and> (ok \<longrightarrow> k = length ss) \<and> (\<not> ok \<longrightarrow> cs \<noteq> []) \<and>
        returned_true tr h ok cs (ev @ [Called (sv_ptr s) h])" by blast
    with 3 show ?thesis by (intro exI [of _ "Suc k"]) (auto simp: Let_def)
  qed
qed

lemma set_world_events:
  "service_set_world tr mgr m ev = ev @ map (\<lambda>s. Got_World (sv_ptr s) mgr) (filter (\<lambda>s. has_set_world tr (sv_type s)) (map snd m))"
  unfolding service_set_world_def by (induction m arbitrary: ev) (auto simp: svc_set_world_def)

text \<open>A module starts up in order: all its services that want the world get it, with the manager of the module in it, before any is
  initialised; then they are initialised in the order of their types, until one fails; the module reports success exactly
  if none failed, and then every service with an \<open>init\<close> has been initialised once.\<close>

theorem module_start_up:
  assumes "bm_init tr f b w ev = (ok, b1, w1, ev1)"
  shows "\<exists>k\<le>length (bm_service_mgr b1).
    let ss = map snd (bm_service_mgr b1); cs = filter (\<lambda>s. has_hook tr (sv_type s) H_Init) (take k ss);
        worlds = map (\<lambda>s. Got_World (sv_ptr s) (Some (bm_mgr_ptr b))) (filter (\<lambda>s. has_set_world tr (sv_type s)) ss)
    in ev1 = ev @ worlds @ map (\<lambda>s. Called (sv_ptr s) H_Init) cs \<and> (ok \<longrightarrow> k = length ss) \<and> (\<not> ok \<longrightarrow> cs \<noteq> []) \<and>
      returned_true tr H_Init ok cs (ev @ worlds)"
proof -
  let ?worlds = "map (\<lambda>s. Got_World (sv_ptr s) (Some (bm_mgr_ptr b))) (filter (\<lambda>s. has_set_world tr (sv_type s)) (map snd (bm_service_mgr b1)))"
  have "bm_mgr_ptr b1 = bm_mgr_ptr b" "init_service tr (bm_service_mgr b1) (ev @ ?worlds) = (ok, ev1)"
    using assms by (auto simp: bm_init_def Let_def set_world_events split: if_splits prod.splits)
  from all_of_calls [OF this(2) [unfolded init_service_def]] show ?thesis by (simp add: Let_def)
qed

definition sample_traits :: traits where
  "sample_traits = \<lparr>has_hook = (\<lambda>t h. h = H_Init), has_set_world = (\<lambda>t. t = 2), run_hook = (\<lambda>p h ev. p \<noteq> 20)\<rparr>"

theorem module_start_up_witness:
  "\<exists>ok b1 w1 ev1. bm_init sample_traits (factory_of sample_regs) \<lparr>bm_service_mgr = [], bm_mgr_ptr = 5, bm_auto_register = True\<rparr> (\<lambda>_. None) [] =
     (ok, b1, w1, ev1) \<and> \<not> ok \<and> ev1 = [Got_World 20 (Some 5), Called 10 H_Init, Called 20 H_Init] \<and> (\<exists>k\<le>length (bm_service_mgr b1). 0 < k)"
proof -
  let ?b = "\<lparr>bm_service_mgr = [], bm_mgr_ptr = 5, bm_auto_register = True\<rparr>"
  obtain ok b1 w1 ev1 where run: "bm_init sample_traits (factory_of sample_regs) ?b (\<lambda>_. None) [] = (ok, b1, w1, ev1)"
    by (metis prod_cases4)
  then have r: "\<not> ok" "ev1 = [Got_World 20 (Some 5), Called 10 H_Init, Called 20 H_Init]"
    by (auto simp: bm_init_def factory_of_def sample_regs_def register_def f_register_service_def f_register_derived_def add_service_def
        factory_new_def register_all_service_def service_set_world_def svc_set_world_def init_service_def hook_bool_def sample_traits_def)
  from module_start_up [OF run] r(1) obtain k where "k \<le> length (bm_service_mgr b1)" "0 < k" by (auto simp: Let_def) fastforce
  with run r show ?thesis by blast
qed

text \<open>A second object of a type that is registered already is dropped: the caller is given the first one.\<close>

lemma second_inter_service_ignored:
  assumes "map_of (service_map f) tid = Some s"
  shows "reg_inter_service tid ptr name f = (s, f)"
  using assms by (simp add: reg_inter_service_def)

end
