(* ===== verification/Game_Server.thy ===== *)
theory Game_Server
  imports Services
begin

text \<open>
  The servers of a game (\<open>src/network/gameserver/\<close>): \<open>game_server_base\<close>, the center (\<open>server_manager\<close>), which knows which server is
  reachable over which connection and forwards messages, and \<open>game_server\<close>, which registers at the center, learns the
  address of the database server from it and keeps both connections up. A connection is a number; whether it runs, the
  \<open>unique_id\<close> in its world and what has been written to it are kept in \<open>net\<close>. The connection itself is \<open>Tcp_Connection\<close>,
  a timer is \<open>Timer_Manager\<close>: here a handler records what it asks of them. The body of a message is the value
  that was packed (\<open>Gos_Serializer\<close> shows that it is unpacked again); what unpacking a body as something else gives
  is the parameter \<open>junk\<close>. The length that the send functions return is represented by the message written,
  their 0 by \<open>None\<close>. \<open>nt_written\<close> lists the calls of \<open>write\<close> with the message at that time. Messages are values here, which is right
  as long as headers stay in host order, the default of \<open>msg_header::big_endian\<close>: then no connection changes a message that it
  sends. \<open>forward_msg\<close> hands one object to all connections of the receiver, and with headers in network order the second
  of them may send it in host order (\<open>shared_message_on_two_connections\<close> of \<open>Tcp_Connection\<close>). The observers of \<open>add_before_invoke_func\<close> and \<open>add_before_send_func\<close> see headers only and are left out.
\<close>

section \<open>Model\<close>

type_synonym uid = int

definition db_server :: uid where "db_server = 4"
definition gateway_server :: uid where "gateway_server = 10"
definition center_server :: uid where "center_server = 17"

definition SimpleRegisterServer :: u32 where "SimpleRegisterServer = 0x40a0009"
definition BroadcastMsg :: u32 where "BroadcastMsg = 0x60a001a"
definition BroadcastServerMsg :: u32 where "BroadcastServerMsg = 170000"
definition CS_RegisterServer :: u32 where "CS_RegisterServer = 170001"
definition SC_RegisterServer :: u32 where "SC_RegisterServer = 170002"
definition CS_GetServerInfo :: u32 where "CS_GetServerInfo = 170003"
definition SC_GetServerInfo :: u32 where "SC_GetServerInfo = 170004"
definition SC_ServerEvent :: u32 where "SC_ServerEvent = 170006"

lemmas protocol_ids = SimpleRegisterServer_def BroadcastMsg_def BroadcastServerMsg_def CS_RegisterServer_def SC_RegisterServer_def
  CS_GetServerInfo_def SC_GetServerInfo_def SC_ServerEvent_def

datatype server_event = EServerConnected | EServerDisconnected

record server_info =
  si_unique_id :: uid
  si_ip :: string
  si_port :: u16
  si_connect_interval :: int

record cs_register =
  cs_unique_id :: uid
  cs_ip :: string
  cs_port :: u16

datatype payload = P_Register cs_register | P_Registered u16 | P_Get "uid list" | P_Infos "(uid \<times> server_info) list"
  | P_Event server_event server_info | P_Uid uid | P_Broadcast u32 "uid list" bytes | P_Clients u32 "int list" bytes | P_Data bytes

record gmsg =
  g_from :: u16
  g_to :: u16
  g_user :: u32
  g_call :: u32
  g_protocol :: u32
  g_body :: payload

record junk =
  j_register :: "payload \<Rightarrow> cs_register"
  j_get :: "payload \<Rightarrow> uid list"
  j_infos :: "payload \<Rightarrow> (uid \<times> server_info) list"
  j_event :: "payload \<Rightarrow> server_event \<times> server_info"
  j_uid :: "payload \<Rightarrow> uid"
  j_broadcast :: "payload \<Rightarrow> uid list"

definition unpack_register :: "junk \<Rightarrow> gmsg \<Rightarrow> cs_register" where
  "unpack_register j m = (case g_body m of P_Register r \<Rightarrow> r | p \<Rightarrow> j_register j p)"

definition unpack_get :: "junk \<Rightarrow> gmsg \<Rightarrow> uid list" where
  "unpack_get j m = (case g_body m of P_Get us \<Rightarrow> us | p \<Rightarrow> j_get j p)"

definition unpack_infos :: "junk \<Rightarrow> gmsg \<Rightarrow> (uid \<times> server_info) list" where
  "unpack_infos j m = (case g_body m of P_Infos xs \<Rightarrow> xs | p \<Rightarrow> j_infos j p)"

definition unpack_event :: "junk \<Rightarrow> gmsg \<Rightarrow> server_event \<times> server_info" where
  "unpack_event j m = (case g_body m of P_Event e i \<Rightarrow> (e, i) | p \<Rightarrow> j_event j p)"

definition unpack_uid :: "junk \<Rightarrow> gmsg \<Rightarrow> uid" where
  "unpack_uid j m = (case g_body m of P_Uid u \<Rightarrow> u | p \<Rightarrow> j_uid j p)"

definition unpack_broadcast :: "junk \<Rightarrow> gmsg \<Rightarrow> uid list" where
  "unpack_broadcast j m = (case g_body m of P_Broadcast _ us _ \<Rightarrow> us | p \<Rightarrow> j_broadcast j p)"

subsection \<open>Connections\<close>

record net =
  nt_running :: "nat \<Rightarrow> bool"
  nt_uid :: "nat \<Rightarrow> uid"
  nt_written :: "(nat \<times> gmsg) list"

definition get_running_conn :: "net \<Rightarrow> nat option \<Rightarrow> nat option" where
  "get_running_conn n c = (case c of None \<Rightarrow> None | Some i \<Rightarrow> if nt_running n i then Some i else None)"

definition send_raw_msg :: "nat \<Rightarrow> gmsg \<Rightarrow> net \<Rightarrow> net" where
  "send_raw_msg c m n = n\<lparr>nt_written := nt_written n @ [(c, m)]\<rparr>"

definition server_pack_msg :: "uid \<Rightarrow> u32 \<Rightarrow> uid \<Rightarrow> payload \<Rightarrow> gmsg" where
  "server_pack_msg self msg_id to_uid p =
     \<lparr>g_from = word_of_int self, g_to = word_of_int to_uid, g_user = 0, g_call = 0, g_protocol = msg_id, g_body = p\<rparr>"

text \<open>\<open>send_server_msg\<close> to a connection: the receiver's id is taken from its world.\<close>

definition send_conn_msg :: "uid \<Rightarrow> nat option \<Rightarrow> u32 \<Rightarrow> payload \<Rightarrow> u32 option \<Rightarrow> net \<Rightarrow> gmsg option \<times> net" where
  "send_conn_msg self conn msg_id p request n =
     (case get_running_conn n conn of
        None \<Rightarrow> (None, n)
      | Some c \<Rightarrow> (let m = server_pack_msg self msg_id (nt_uid n c) p;
                       m1 = (case request of None \<Rightarrow> m | Some call \<Rightarrow> m\<lparr>g_call := call\<rparr>)
                   in (Some m1, send_raw_msg c m1 n)))"

subsection \<open>The base of all servers\<close>

record base =
  gb_unique_id :: uid
  gb_gate_conn :: "nat option"
  gb_net :: net

definition base_connection_ptr :: "uid \<Rightarrow> base \<Rightarrow> nat option" where
  "base_connection_ptr u b = (if u = gateway_server then get_running_conn (gb_net b) (gb_gate_conn b) else None)"

definition base_on_disconnect :: "nat \<Rightarrow> base \<Rightarrow> base" where
  "base_on_disconnect c b = (if gb_gate_conn b = Some c then b\<lparr>gb_gate_conn := None\<rparr> else b)"

text \<open>\<open>on_receive\<close>; the messages handed to the virtual \<open>handle_msg\<close>, which does nothing here, are dropped.\<close>

definition base_on_receive :: "junk \<Rightarrow> nat \<Rightarrow> gmsg \<Rightarrow> base \<Rightarrow> base" where
  "base_on_receive j c m b =
     (if g_protocol m = SimpleRegisterServer \<and> gb_gate_conn b = None
      then let u = unpack_uid j m
           in if u = gateway_server
              then b\<lparr>gb_gate_conn := Some c, gb_net := (gb_net b)\<lparr>nt_uid := (nt_uid (gb_net b))(c := u)\<rparr>\<rparr>
              else b
      else b)"

text \<open>The send functions over the connection that \<open>get_connection_ptr\<close> gives for a server.\<close>

definition send_over :: "nat option \<Rightarrow> gmsg \<Rightarrow> net \<Rightarrow> gmsg option \<times> net" where
  "send_over conn m n = (case conn of None \<Rightarrow> (None, n) | Some c \<Rightarrow> (Some m, send_raw_msg c m n))"

definition send_server_msg :: "(uid \<Rightarrow> base \<Rightarrow> nat option) \<Rightarrow> uid \<Rightarrow> u32 \<Rightarrow> payload \<Rightarrow> u32 option \<Rightarrow> base \<Rightarrow> gmsg option \<times> base" where
  "send_server_msg get_conn u msg_id p request b =
     (let m = server_pack_msg (gb_unique_id b) msg_id u p;
          m1 = (case request of None \<Rightarrow> m | Some call \<Rightarrow> m\<lparr>g_call := call\<rparr>);
          (r, n) = send_over (get_conn u b) m1 (gb_net b)
      in (r, b\<lparr>gb_net := n\<rparr>))"

definition send_client_msg :: "(uid \<Rightarrow> base \<Rightarrow> nat option) \<Rightarrow> u32 \<Rightarrow> u32 \<Rightarrow> payload \<Rightarrow> base \<Rightarrow> gmsg option \<times> base" where
  "send_client_msg get_conn user_id msg_id p b =
     (let m = (server_pack_msg (gb_unique_id b) msg_id gateway_server p)\<lparr>g_user := user_id\<rparr>;
          (r, n) = send_over (get_conn gateway_server b) m (gb_net b)
      in (r, b\<lparr>gb_net := n\<rparr>))"

definition broadcast_client_msg :: "(uid \<Rightarrow> base \<Rightarrow> nat option) \<Rightarrow> int list \<Rightarrow> u32 \<Rightarrow> bytes \<Rightarrow> base \<Rightarrow> gmsg option \<times> base" where
  "broadcast_client_msg get_conn users msg_id d b =
     (let m = server_pack_msg (gb_unique_id b) BroadcastMsg gateway_server (P_Clients msg_id users d);
          (r, n) = send_over (get_conn gateway_server b) m (gb_net b)
      in (r, b\<lparr>gb_net := n\<rparr>))"

text \<open>The overload for a message that exists already writes that object with a new sender and receiver.\<close>

definition resend_server_msg :: "(uid \<Rightarrow> base \<Rightarrow> nat option) \<Rightarrow> uid \<Rightarrow> gmsg \<Rightarrow> u32 option \<Rightarrow> base \<Rightarrow> gmsg option \<times> base" where
  "resend_server_msg get_conn u m request b =
     (let m0 = m\<lparr>g_from := word_of_int (gb_unique_id b), g_to := word_of_int u\<rparr>;
          m1 = (case request of None \<Rightarrow> m0 | Some call \<Rightarrow> m0\<lparr>g_call := call\<rparr>);
          (r, n) = send_over (get_conn u b) m1 (gb_net b)
      in (r, b\<lparr>gb_net := n\<rparr>))"

definition resend_client_msg :: "(uid \<Rightarrow> base \<Rightarrow> nat option) \<Rightarrow> u32 \<Rightarrow> gmsg \<Rightarrow> base \<Rightarrow> gmsg option \<times> base" where
  "resend_client_msg get_conn user_id m b =
     (let (r, n) = send_over (get_conn gateway_server b) (m\<lparr>g_user := user_id\<rparr>) (gb_net b) in (r, b\<lparr>gb_net := n\<rparr>))"

text \<open>\<open>on_receive_msgs\<close>, for the \<open>on_receive\<close> of any server.\<close>

definition on_receive_msgs :: "(nat \<Rightarrow> gmsg \<Rightarrow> 's \<Rightarrow> 's) \<Rightarrow> nat \<Rightarrow> gmsg list \<Rightarrow> 's \<Rightarrow> 's" where
  "on_receive_msgs receive c ms s = fold (receive c) ms s"

text \<open>The services of a server: a configuration service, and the configured ones or all. Neither \<open>init\<close> nor \<open>start\<close> looks
  at what the services return.\<close>

definition base_register :: "nat \<Rightarrow> nat \<Rightarrow> string list option \<Rightarrow> factory \<Rightarrow> manager \<Rightarrow> factory \<times> manager" where
  "base_register config_type config_ptr services f m =
     (case m_reg_inter_service config_type config_ptr ''config'' f m of
        (f1, m1) \<Rightarrow> (f1, case services of Some names \<Rightarrow> m_register_services names f1 m1 | None \<Rightarrow> register_all_service f1 m1))"

definition server_init_start :: "traits \<Rightarrow> manager \<Rightarrow> svc_event list \<Rightarrow> svc_event list" where
  "server_init_start tr m ev = snd (start_service tr m (snd (init_service tr m ev)))"

subsection \<open>The center\<close>

record center =
  sm_base :: base
  sm_servers :: "(uid \<times> (nat \<times> server_info) list) list"

definition center_new :: "uid \<Rightarrow> net \<Rightarrow> center" where
  "center_new u n = \<lparr>sm_base = \<lparr>gb_unique_id = u, gb_gate_conn = None, gb_net = n\<rparr>, sm_servers = []\<rparr>"

definition infos_of :: "uid \<Rightarrow> center \<Rightarrow> (nat \<times> server_info) list" where
  "infos_of u s = (case map_of (sm_servers s) u of None \<Rightarrow> [] | Some l \<Rightarrow> l)"

text \<open>\<open>servers_[u]\<close> as a reference that is then changed.\<close>

primrec upd_servers :: "uid \<Rightarrow> ('a list \<Rightarrow> 'a list) \<Rightarrow> (uid \<times> 'a list) list \<Rightarrow> (uid \<times> 'a list) list" where
  "upd_servers u f [] = [(u, f [])]"
| "upd_servers u f (p # ps) =
     (if u < fst p then (u, f []) # p # ps else if u = fst p then (u, f (snd p)) # ps else p # upd_servers u f ps)"

definition sm_net_upd :: "(net \<Rightarrow> net) \<Rightarrow> center \<Rightarrow> center" where
  "sm_net_upd f s = s\<lparr>sm_base := (sm_base s)\<lparr>gb_net := f (gb_net (sm_base s))\<rparr>\<rparr>"

definition sm_send :: "nat \<Rightarrow> u32 \<Rightarrow> payload \<Rightarrow> center \<Rightarrow> center" where
  "sm_send c msg_id p s = sm_net_upd (\<lambda>n. snd (send_conn_msg (gb_unique_id (sm_base s)) (Some c) msg_id p None n)) s"

definition broadcast_msg :: "uid \<Rightarrow> u32 \<Rightarrow> payload \<Rightarrow> center \<Rightarrow> center" where
  "broadcast_msg exclude msg_id p s =
     fold (\<lambda>(u, l) s. if u = exclude then s else fold (\<lambda>(c, _) s. sm_send c msg_id p s) l s) (sm_servers s) s"

text \<open>The one message object is handed to every running connection of the receiver.\<close>

definition forward_msg :: "uid \<Rightarrow> gmsg \<Rightarrow> center \<Rightarrow> center" where
  "forward_msg to_uid m s =
     (case map_of (sm_servers s) to_uid of
        None \<Rightarrow> s
      | Some l \<Rightarrow> fold (\<lambda>(c, _). sm_net_upd (\<lambda>n. case get_running_conn n (Some c) of None \<Rightarrow> n | Some i \<Rightarrow> send_raw_msg i m n)) l s)"

definition broadcast_server_msg :: "uid list \<Rightarrow> gmsg \<Rightarrow> center \<Rightarrow> center" where
  "broadcast_server_msg us m s = fold (\<lambda>u. forward_msg u m) us s"

definition sm_broadcast_new :: "uid list \<Rightarrow> u32 \<Rightarrow> payload \<Rightarrow> center \<Rightarrow> center" where
  "sm_broadcast_new us msg_id p s =
     broadcast_server_msg us (server_pack_msg (gb_unique_id (sm_base s)) msg_id (gb_unique_id (sm_base s)) p) s"

definition on_cs_register_server :: "junk \<Rightarrow> nat \<Rightarrow> gmsg \<Rightarrow> center \<Rightarrow> center" where
  "on_cs_register_server j c m s =
     (let data = unpack_register j m;
          info = \<lparr>si_unique_id = cs_unique_id data, si_ip = cs_ip data, si_port = cs_port data, si_connect_interval = 5000\<rparr>;
          s1 = s\<lparr>sm_servers := upd_servers (cs_unique_id data) (\<lambda>l. l @ [(c, info)]) (sm_servers s)\<rparr>;
          s2 = sm_net_upd (\<lambda>n. n\<lparr>nt_uid := (nt_uid n)(c := cs_unique_id data)\<rparr>) s1;
          s3 = sm_send c SC_RegisterServer (P_Registered (word_of_int (cs_unique_id data))) s2
      in broadcast_msg (cs_unique_id data) SC_ServerEvent (P_Event EServerConnected info) s3)"

primrec collect_infos :: "uid list \<Rightarrow> center \<Rightarrow> (uid \<times> server_info) list \<Rightarrow> (uid \<times> server_info) list" where
  "collect_infos [] s acc = acc"
| "collect_infos (u # us) s acc =
     (case infos_of u s of
        [] \<Rightarrow> collect_infos us s acc
      | (_, info) # _ \<Rightarrow> collect_infos us s (emplace (si_unique_id info) info acc))"

definition on_cs_get_server_info :: "junk \<Rightarrow> nat \<Rightarrow> gmsg \<Rightarrow> center \<Rightarrow> center" where
  "on_cs_get_server_info j c m s = sm_send c SC_GetServerInfo (P_Infos (collect_infos (unpack_get j m) s [])) s"

definition on_broadcast_server_msg :: "junk \<Rightarrow> gmsg \<Rightarrow> center \<Rightarrow> center" where
  "on_broadcast_server_msg j m s = (let us = unpack_broadcast j m in if us = [] then s else broadcast_server_msg us m s)"

definition on_forward_msg :: "gmsg \<Rightarrow> center \<Rightarrow> center" where
  "on_forward_msg m s = forward_msg (uint (g_to m)) m s"

primrec erase_conn :: "nat \<Rightarrow> (nat \<times> 'i) list \<Rightarrow> (nat \<times> 'i) list" where
  "erase_conn c [] = []"
| "erase_conn c (p # ps) = (if fst p = c then ps else p # erase_conn c ps)"

text \<open>The info of a disconnect event carries the id only; the other fields are whatever \<open>ServerInfo\<close> starts with.\<close>

definition sm_on_disconnect :: "server_info \<Rightarrow> nat \<Rightarrow> center \<Rightarrow> center" where
  "sm_on_disconnect blank c s =
     (let u = nt_uid (gb_net (sm_base s)) c
      in if infos_of u s = [] then s\<lparr>sm_base := base_on_disconnect c (sm_base s)\<rparr>
         else broadcast_msg u SC_ServerEvent (P_Event EServerDisconnected (blank\<lparr>si_unique_id := u\<rparr>))
                (s\<lparr>sm_servers := upd_servers u (erase_conn c) (sm_servers s)\<rparr>))"

definition sm_on_receive :: "junk \<Rightarrow> nat \<Rightarrow> gmsg \<Rightarrow> center \<Rightarrow> center" where
  "sm_on_receive j c m s =
     (if g_protocol m = CS_RegisterServer then on_cs_register_server j c m s
      else if g_protocol m = CS_GetServerInfo then on_cs_get_server_info j c m s
      else if g_protocol m = BroadcastServerMsg then on_broadcast_server_msg j m s
      else if g_protocol m \<noteq> SimpleRegisterServer then on_forward_msg m s
      else s\<lparr>sm_base := base_on_receive j c m (sm_base s)\<rparr>)"

subsection \<open>Protocols of the application\<close>

text \<open>A \<open>Proto\<close> knows its id, whether its \<open>process\<close> takes a coroutine context, and whether its class overrides \<open>clone\<close>. The map of
  protocols keeps the first for an id.\<close>

record proto =
  pr_id :: u32
  pr_ctx :: bool
  pr_clones :: bool

definition GetProto :: "(u32 \<times> proto) list \<Rightarrow> u32 \<Rightarrow> proto option" where
  "GetProto protocols pid = map_of protocols pid"

definition RegisterProto :: "proto \<Rightarrow> (u32 \<times> proto) list \<Rightarrow> (u32 \<times> proto) list" where
  "RegisterProto p protocols = (if GetProto protocols (pr_id p) = None then emplace (pr_id p) p protocols else protocols)"

definition Create :: "(u32 \<times> proto) list \<Rightarrow> u32 \<Rightarrow> proto option" where
  "Create protocols pid = (case GetProto protocols pid of None \<Rightarrow> None | Some p \<Rightarrow> if pr_clones p then Some p else None)"

text \<open>\<open>Decode\<close>; unpacking fills the copy with the body of the message.\<close>

definition Decode :: "(u32 \<times> proto) list \<Rightarrow> gmsg \<Rightarrow> proto option" where
  "Decode protocols m = Create protocols (g_protocol m)"

text \<open>\<open>do_process\<close> runs the handler at once or in a new coroutine.\<close>

datatype processing = Directly nat gmsg | In_Coroutine nat gmsg

definition do_process :: "proto \<Rightarrow> nat \<Rightarrow> gmsg \<Rightarrow> processing" where
  "do_process p c m = (if \<not> pr_ctx p then Directly c m else In_Coroutine c m)"

subsection \<open>The configuration\<close>

text \<open>\<open>server_config_manager\<close> after its file has been read: the servers in their order, and the map from ids to them, as indices.
  \<open>operator[]\<close> with an id that is not there follows a null pointer, \<open>None\<close>.\<close>

record server_cfg =
  sc_unique_id :: uid
  sc_ip :: string
  sc_port :: u16
  sc_host_ip :: string
  sc_depends :: "uid list"

record config_manager =
  cm_server :: "server_cfg list"
  cm_map :: "(uid \<times> nat) list"

definition cm_init :: "server_cfg list \<Rightarrow> config_manager" where
  "cm_init cfg = \<lparr>cm_server = cfg, cm_map = fold (\<lambda>i. emplace (sc_unique_id (cfg ! i)) i) [0..<length cfg] []\<rparr>"

definition cm_at :: "uid \<Rightarrow> config_manager \<Rightarrow> server_cfg option" where
  "cm_at u cm = (case map_of (cm_map cm) u of None \<Rightarrow> None | Some i \<Rightarrow> Some (cm_server cm ! i))"

definition parse_real_ip :: "(string \<Rightarrow> u16 \<Rightarrow> string) \<Rightarrow> config_manager \<Rightarrow> config_manager" where
  "parse_real_ip f cm = cm\<lparr>cm_server := map (\<lambda>c. c\<lparr>sc_host_ip := sc_ip c, sc_ip := f (sc_ip c) (sc_port c)\<rparr>) (cm_server cm)\<rparr>"

subsection \<open>A game server\<close>

datatype gtimer = Center_Timer | Db_Timer | Db_Info_Timer

datatype effect = Timer_Started gtimer | Timer_Stopped gtimer | Connect nat string u16 | Conn_Started nat

text \<open>\<open>gm_start_ok\<close> says whether starting a connection finds its socket connected; \<open>gm_config\<close> is the address of a server
  in the configuration. \<open>gm_protos\<close> are the registered protocols; what was processed is recorded.\<close>

record game =
  gm_base :: base
  gm_depend_center :: bool
  gm_depend_db :: bool
  gm_center_conn :: "nat option"
  gm_db_conn :: "nat option"
  gm_db_info :: server_info
  gm_config :: "uid \<Rightarrow> string \<times> u16"
  gm_start_ok :: "nat \<Rightarrow> bool"
  gm_protos :: "(u32 \<times> proto) list"
  gm_processed :: "processing list"
  gm_effects :: "effect list"

definition gm_note :: "effect \<Rightarrow> game \<Rightarrow> game" where
  "gm_note e g = g\<lparr>gm_effects := gm_effects g @ [e]\<rparr>"

definition gm_get_connection_ptr :: "uid \<Rightarrow> game \<Rightarrow> nat option" where
  "gm_get_connection_ptr u g =
     (let n = gb_net (gm_base g)
      in if u = center_server then get_running_conn n (gm_center_conn g)
         else if u = db_server then get_running_conn n (gm_db_conn g)
         else if u \<noteq> gateway_server then get_running_conn n (gm_center_conn g)
         else base_connection_ptr u (gm_base g))"

definition gm_send_server_msg :: "uid \<Rightarrow> u32 \<Rightarrow> payload \<Rightarrow> u32 option \<Rightarrow> game \<Rightarrow> gmsg option \<times> game" where
  "gm_send_server_msg u msg_id p request g =
     (case send_server_msg (\<lambda>v _. gm_get_connection_ptr v g) u msg_id p request (gm_base g) of (r, b) \<Rightarrow> (r, g\<lparr>gm_base := b\<rparr>))"

definition gm_broadcast_server_msg :: "uid list \<Rightarrow> u32 \<Rightarrow> bytes \<Rightarrow> game \<Rightarrow> gmsg option \<times> game" where
  "gm_broadcast_server_msg us msg_id d g = gm_send_server_msg center_server BroadcastServerMsg (P_Broadcast msg_id us d) None g"

text \<open>\<open>async_connect\<close> does nothing on a running connection.\<close>

definition gm_async_connect :: "nat option \<Rightarrow> string \<Rightarrow> u16 \<Rightarrow> game \<Rightarrow> game" where
  "gm_async_connect c ip port g =
     (case c of None \<Rightarrow> g | Some i \<Rightarrow> if nt_running (gb_net (gm_base g)) i then g else gm_note (Connect i ip port) g)"

definition gm_conn_start :: "nat \<Rightarrow> game \<Rightarrow> game" where
  "gm_conn_start c g =
     (if gm_start_ok g c
      then gm_note (Conn_Started c) (g\<lparr>gm_base := (gm_base g)\<lparr>gb_net := (gb_net (gm_base g))\<lparr>nt_running := (nt_running (gb_net (gm_base g)))(c := True)\<rparr>\<rparr>\<rparr>)
      else g)"

text \<open>A timer that was never set is a default proxy, which ignores \<open>start\<close> and \<open>stop\<close>.\<close>

definition has_timer :: "gtimer \<Rightarrow> game \<Rightarrow> bool" where
  "has_timer t g = (case t of Center_Timer \<Rightarrow> gm_depend_center g | _ \<Rightarrow> gm_depend_db g)"

definition timer_stop :: "gtimer \<Rightarrow> game \<Rightarrow> game" where
  "timer_stop t g = (if has_timer t g then gm_note (Timer_Stopped t) g else g)"

definition register_to_center :: "game \<Rightarrow> game" where
  "register_to_center g =
     (let (ip, port) = gm_config g (gb_unique_id (gm_base g))
      in snd (gm_send_server_msg center_server CS_RegisterServer
           (P_Register \<lparr>cs_unique_id = gb_unique_id (gm_base g), cs_ip = ip, cs_port = port\<rparr>) None g))"

definition get_server_info :: "game \<Rightarrow> game" where
  "get_server_info g =
     (if gm_depend_db g then snd (gm_send_server_msg center_server CS_GetServerInfo (P_Get [db_server]) None g) else g)"

definition connect_func :: "game \<Rightarrow> game" where
  "connect_func g = (let (ip, port) = gm_config g center_server in gm_async_connect (gm_center_conn g) ip port g)"

definition connect_db_func :: "game \<Rightarrow> game" where
  "connect_db_func g = gm_async_connect (gm_db_conn g) (si_ip (gm_db_info g)) (si_port (gm_db_info g)) g"

definition get_db_info_func :: "game \<Rightarrow> game" where
  "get_db_info_func g =
     (if get_running_conn (gb_net (gm_base g)) (gm_db_conn g) \<noteq> None then g else get_server_info (timer_stop Db_Timer g))"

text \<open>What a timer runs when it fires, and at once when it is started with \<open>invoke_first\<close>.\<close>

definition run_timer :: "gtimer \<Rightarrow> game \<Rightarrow> game" where
  "run_timer t g = (case t of Center_Timer \<Rightarrow> connect_func g | Db_Timer \<Rightarrow> connect_db_func g | Db_Info_Timer \<Rightarrow> get_db_info_func g)"

definition timer_start :: "bool \<Rightarrow> gtimer \<Rightarrow> game \<Rightarrow> game" where
  "timer_start invoke_first t g =
     (if has_timer t g then gm_note (Timer_Started t) (if invoke_first then run_timer t g else g) else g)"

text \<open>\<open>init\<close>, apart from the services and the objects of the other theories. \<open>c\<close> and \<open>d\<close> are the connections made for
  the center and the database.\<close>

definition gm_init :: "uid list \<Rightarrow> nat \<Rightarrow> nat \<Rightarrow> game \<Rightarrow> game" where
  "gm_init depends c d g =
     (let g1 = g\<lparr>gm_depend_db := gb_unique_id (gm_base g) \<noteq> db_server \<and> db_server \<in> set depends,
                 gm_depend_center := gm_depend_center g \<and> center_server \<in> set depends\<rparr>;
          g2 = (if gm_depend_center g1 then timer_start True Center_Timer (g1\<lparr>gm_center_conn := Some c\<rparr>) else g1)
      in if gm_depend_db g2 then g2\<lparr>gm_db_conn := Some d\<rparr> else g2)"

definition reconnect_db :: "game \<Rightarrow> game" where
  "reconnect_db g = (if gm_depend_db g then timer_start True Db_Info_Timer g else g)"

definition on_get_db_info :: "server_info \<Rightarrow> game \<Rightarrow> game" where
  "on_get_db_info info g = timer_start True Db_Timer (g\<lparr>gm_db_info := info\<rparr>)"

definition on_sc_register_server :: "gmsg \<Rightarrow> game \<Rightarrow> game" where
  "on_sc_register_server m g = reconnect_db g"

definition on_sc_get_server_info :: "junk \<Rightarrow> gmsg \<Rightarrow> game \<Rightarrow> game" where
  "on_sc_get_server_info j m g =
     (if gm_depend_db g
      then (case map_of (unpack_infos j m) db_server of Some info \<Rightarrow> on_get_db_info info g | None \<Rightarrow> g)
      else g)"

definition on_sc_server_event :: "junk \<Rightarrow> gmsg \<Rightarrow> game \<Rightarrow> game" where
  "on_sc_server_event j m g =
     (case unpack_event j m of
        (EServerConnected, info) \<Rightarrow> if si_unique_id info = db_server then on_get_db_info info g else g
      | (EServerDisconnected, info) \<Rightarrow> g)"

definition gm_on_connect :: "nat \<Rightarrow> bool \<Rightarrow> game \<Rightarrow> game" where
  "gm_on_connect c err g =
     (if gm_depend_center g \<and> gm_center_conn g = Some c
      then if err then g else register_to_center (gm_conn_start c (timer_stop Center_Timer g))
      else if gm_depend_db g \<and> gm_db_conn g = Some c
      then if err then g else gm_conn_start c (timer_stop Db_Info_Timer (timer_stop Db_Timer g))
      else g)"

text \<open>What happens on the connection when the dialling ends: it starts itself before it tells the server, which starts it again.\<close>

definition gm_handle_connect :: "nat \<Rightarrow> bool \<Rightarrow> game \<Rightarrow> game" where
  "gm_handle_connect c err g = gm_on_connect c err (gm_conn_start c g)"

definition gm_on_disconnect :: "nat \<Rightarrow> game \<Rightarrow> game" where
  "gm_on_disconnect c g =
     (if gm_depend_center g \<and> gm_center_conn g = Some c then timer_start False Center_Timer g
      else if gm_depend_db g \<and> gm_db_conn g = Some c then reconnect_db g
      else g\<lparr>gm_base := base_on_disconnect c (gm_base g)\<rparr>)"

definition gm_on_receive :: "junk \<Rightarrow> nat \<Rightarrow> gmsg \<Rightarrow> game \<Rightarrow> game" where
  "gm_on_receive j c m g =
     (case Decode (gm_protos g) m of
        Some p \<Rightarrow> g\<lparr>gm_processed := gm_processed g @ [do_process p c m]\<rparr>
      | None \<Rightarrow>
          if g_protocol m = SC_RegisterServer then on_sc_register_server m g
          else if g_protocol m = SC_GetServerInfo then on_sc_get_server_info j m g
          else if g_protocol m = SC_ServerEvent then on_sc_server_event j m g
          else g\<lparr>gm_base := base_on_receive j c m (gm_base g)\<rparr>)"

text \<open>Both servers receive several messages at once through the base.\<close>

definition gm_on_receive_msgs :: "junk \<Rightarrow> nat \<Rightarrow> gmsg list \<Rightarrow> game \<Rightarrow> game" where
  "gm_on_receive_msgs j c ms g = on_receive_msgs (gm_on_receive j) c ms g"

definition sm_on_receive_msgs :: "junk \<Rightarrow> nat \<Rightarrow> gmsg list \<Rightarrow> center \<Rightarrow> center" where
  "sm_on_receive_msgs j c ms s = on_receive_msgs (sm_on_receive j) c ms s"

section \<open>Configuration and protocols\<close>

interpretation config_map: first_wins "emplace :: uid \<Rightarrow> nat \<Rightarrow> (uid \<times> nat) list \<Rightarrow> (uid \<times> nat) list" map_of ordered
  by unfold_locales (simp_all add: emplace_lookup emplace_ordered)

interpretation proto_map: first_wins "emplace :: u32 \<Rightarrow> proto \<Rightarrow> (u32 \<times> proto) list \<Rightarrow> (u32 \<times> proto) list" map_of ordered
  by unfold_locales (simp_all add: emplace_lookup emplace_ordered)

lemma emplace_known: "ordered xs \<Longrightarrow> map_of xs k = Some w \<Longrightarrow> emplace k v xs = xs"
proof (induction xs)
  case (Cons p ps)
  then show ?case using ordered_not_before [OF Cons.prems(1), of k] by (cases p) (auto simp: ordered_def split: if_splits)
qed simp

lemma find_map: "find P (map f xs) = map_option f (find (\<lambda>x. P (f x)) xs)"
  by (induction xs) auto

lemma find_nth: "map_option (\<lambda>i. xs ! i) (find (\<lambda>i. P (xs ! i)) [0..<length xs]) = find P xs"
  using find_map [of P "\<lambda>i. xs ! i" "[0..<length xs]"] by (simp add: map_nth)

text \<open>The configuration of a server is the first with its id, with its host name resolved.\<close>

lemma config_finds_first:
  "cm_at u (parse_real_ip f (cm_init cfg)) =
     map_option (\<lambda>c. c\<lparr>sc_host_ip := sc_ip c, sc_ip := f (sc_ip c) (sc_port c)\<rparr>) (find (\<lambda>c. sc_unique_id c = u) cfg)"
proof -
  have "ordered ([] :: (uid \<times> nat) list)" by (simp add: ordered_def)
  from config_map.fold_look [OF this, of "\<lambda>i. sc_unique_id (cfg ! i)" "\<lambda>i. i" "[0..<length cfg]" u]
  have l: "map_of (cm_map (cm_init cfg)) u = find (\<lambda>i. sc_unique_id (cfg ! i) = u) [0..<length cfg]"
    by (simp add: cm_init_def option.map_ident)
  show ?thesis
  proof (cases "find (\<lambda>i. sc_unique_id (cfg ! i) = u) [0..<length cfg]")
    case None
    then show ?thesis using l find_nth [of cfg "\<lambda>c. sc_unique_id c = u"] by (simp add: cm_at_def parse_real_ip_def)
  next
    case (Some i)
    then have i: "i < length cfg" by (auto simp: find_Some_iff)
    have "find (\<lambda>c. sc_unique_id c = u) cfg = Some (cfg ! i)" using find_nth [of cfg "\<lambda>c. sc_unique_id c = u"] Some by simp
    then show ?thesis using Some l i by (simp add: cm_at_def parse_real_ip_def cm_init_def)
  qed
qed

text \<open>A message is processed by the first protocol that was registered for its id.\<close>

lemma first_proto_decodes:
  "Decode (fold RegisterProto ps []) m =
     (case find (\<lambda>p. pr_id p = g_protocol m) ps of None \<Rightarrow> None | Some p \<Rightarrow> if pr_clones p then Some p else None)"
proof -
  have reg: "fold RegisterProto ps t = fold (\<lambda>p. emplace (pr_id p) p) ps t" if "ordered t" for t
    using that
  proof (induction ps arbitrary: t)
    case (Cons p ps)
    have "RegisterProto p t = emplace (pr_id p) p t" if "GetProto t (pr_id p) = Some q" for q
      using that emplace_known [of t "pr_id p" q p] Cons.prems by (simp add: RegisterProto_def GetProto_def)
    then have "RegisterProto p t = emplace (pr_id p) p t" by (cases "GetProto t (pr_id p)") (auto simp: RegisterProto_def)
    then show ?case using Cons by (simp add: emplace_ordered)
  qed simp
  have o: "ordered ([] :: (u32 \<times> proto) list)" by (simp add: ordered_def)
  from proto_map.fold_look [OF this, of pr_id "\<lambda>p. p" ps "g_protocol m"] show ?thesis
    by (simp add: Decode_def Create_def GetProto_def reg [OF o] option.map_ident)
qed

section \<open>What the center writes\<close>

definition writes :: "(nat \<times> gmsg) list \<Rightarrow> net \<Rightarrow> net" where
  "writes ms n = n\<lparr>nt_written := nt_written n @ ms\<rparr>"

abbreviation sm_net :: "center \<Rightarrow> net" where
  "sm_net s \<equiv> gb_net (sm_base s)"

lemma writes_simps [simp]:
  "nt_running (writes ms n) = nt_running n" "nt_uid (writes ms n) = nt_uid n" "nt_written (writes ms n) = nt_written n @ ms"
  "writes [] n = n" "writes ms (writes ms' n) = writes (ms' @ ms) n"
  by (simp_all add: writes_def)

lemma sm_net_upd_simps [simp]:
  "sm_net (sm_net_upd f s) = f (sm_net s)" "sm_servers (sm_net_upd f s) = sm_servers s"
  "gb_unique_id (sm_base (sm_net_upd f s)) = gb_unique_id (sm_base s)" "gb_gate_conn (sm_base (sm_net_upd f s)) = gb_gate_conn (sm_base s)"
  "infos_of u (sm_net_upd f s) = infos_of u s" "sm_net_upd f (sm_net_upd g s) = sm_net_upd (\<lambda>n. f (g n)) s"
  by (simp_all add: sm_net_upd_def infos_of_def)

lemma sm_net_upd_id [simp]: "sm_net_upd (\<lambda>n. n) s = s"
  by (simp add: sm_net_upd_def)

lemma sm_net_upd_cong: "f (sm_net s) = g (sm_net s) \<Longrightarrow> sm_net_upd f s = sm_net_upd g s"
  by (simp add: sm_net_upd_def)

lemma send_raw_writes: "send_raw_msg c m n = writes [(c, m)] n"
  by (simp add: send_raw_msg_def writes_def)

text \<open>The message a connection gets from a server: its id stands in the world of the connection.\<close>

definition to_conn :: "uid \<Rightarrow> u32 \<Rightarrow> payload \<Rightarrow> net \<Rightarrow> nat \<Rightarrow> nat \<times> gmsg" where
  "to_conn self msg_id p n c = (c, server_pack_msg self msg_id (nt_uid n c) p)"

lemma sm_send_writes:
  "sm_send c msg_id p s =
     sm_net_upd (writes (map (to_conn (gb_unique_id (sm_base s)) msg_id p (sm_net s)) (filter (nt_running (sm_net s)) [c]))) s"
  unfolding sm_send_def
  by (rule sm_net_upd_cong) (simp add: send_conn_msg_def get_running_conn_def to_conn_def send_raw_writes Let_def)

lemma to_conn_writes [simp]: "to_conn self msg_id p (writes ms n) = to_conn self msg_id p n"
  by (simp add: to_conn_def fun_eq_iff)

lemma fold_send_writes:
  "fold (\<lambda>(c, _) s. sm_send c msg_id p s) l s =
     sm_net_upd (writes (map (to_conn (gb_unique_id (sm_base s)) msg_id p (sm_net s)) (filter (nt_running (sm_net s)) (map fst l)))) s"
proof (induction l arbitrary: s)
  case Nil
  then show ?case by (simp add: sm_net_upd_cong [where g = "\<lambda>n. n"])
next
  case (Cons x l)
  then show ?case by (cases x) (auto simp: sm_send_writes intro!: sm_net_upd_cong)
qed

lemma fold_groups_writes:
  "fold (\<lambda>(u, l) s. if u = exclude then s else fold (\<lambda>(c, _) s. sm_send c msg_id p s) l s) gs s =
     sm_net_upd (writes (map (to_conn (gb_unique_id (sm_base s)) msg_id p (sm_net s))
       (filter (nt_running (sm_net s)) (concat (map (\<lambda>(u, l). if u = exclude then [] else map fst l) gs))))) s"
proof (induction gs arbitrary: s)
  case Nil
  then show ?case by (simp add: sm_net_upd_cong [where g = "\<lambda>n. n"])
next
  case (Cons x gs)
  then show ?case by (cases x) (auto simp: fold_send_writes intro!: sm_net_upd_cong)
qed

lemma broadcast_writes:
  "broadcast_msg exclude msg_id p s =
     sm_net_upd (writes (map (to_conn (gb_unique_id (sm_base s)) msg_id p (sm_net s))
       (filter (nt_running (sm_net s)) (concat (map (\<lambda>(u, l). if u = exclude then [] else map fst l) (sm_servers s)))))) s"
  by (simp add: broadcast_msg_def fold_groups_writes)

lemma forward_writes:
  "forward_msg u m s = sm_net_upd (writes (map (\<lambda>c. (c, m)) (filter (nt_running (sm_net s)) (map fst (infos_of u s))))) s"
proof -
  have "fold (\<lambda>(c, _). sm_net_upd (\<lambda>n. case get_running_conn n (Some c) of None \<Rightarrow> n | Some i \<Rightarrow> send_raw_msg i m n)) l s =
      sm_net_upd (writes (map (\<lambda>c. (c, m)) (filter (nt_running (sm_net s)) (map fst l)))) s" for l :: "(nat \<times> server_info) list"
  proof (induction l arbitrary: s)
    case Nil
    then show ?case by (simp add: sm_net_upd_cong [where g = "\<lambda>n. n"])
  next
    case (Cons x l)
    then show ?case by (cases x) (auto simp: get_running_conn_def send_raw_writes intro!: sm_net_upd_cong)
  qed
  from this [of "infos_of u s"] show ?thesis
    by (auto simp: forward_msg_def infos_of_def sm_net_upd_cong [where g = "\<lambda>n. n"] split: option.splits)
qed

section \<open>The registry\<close>

lemma upd_keys: "fst ` set (upd_servers u f ps) = insert u (fst ` set ps)"
  by (induction ps) auto

lemma upd_ordered: "ordered ps \<Longrightarrow> ordered (upd_servers u f ps)"
proof (induction ps)
  case (Cons p ps)
  then have "ordered (upd_servers u f ps)" "\<forall>x\<in>set ps. fst p < fst x" by (auto simp: ordered_def)
  then show ?case using Cons.prems upd_keys [of u f ps] by (fastforce simp: ordered_def)
qed (simp add: ordered_def)

lemma upd_lookup:
  "ordered ps \<Longrightarrow> map_of (upd_servers u f ps) v =
     (if v = u then Some (f (case map_of ps u of None \<Rightarrow> [] | Some l \<Rightarrow> l)) else map_of ps v)"
proof (induction ps)
  case (Cons p ps)
  then have "map_of (upd_servers u f ps) v = (if v = u then Some (f (case map_of ps u of None \<Rightarrow> [] | Some l \<Rightarrow> l)) else map_of ps v)"
    by (simp add: ordered_def)
  then show ?case using ordered_not_before [OF Cons.prems, of u] by (cases p) auto
qed simp

lemma infos_of_upd:
  "ordered (sm_servers s) \<Longrightarrow> infos_of v (s\<lparr>sm_servers := upd_servers u f (sm_servers s)\<rparr>) = (if v = u then f (infos_of u s) else infos_of v s)"
  by (simp add: infos_of_def upd_lookup)

datatype sm_event = Got nat gmsg | Lost nat | Runs "nat \<Rightarrow> bool"

definition sm_handle :: "junk \<Rightarrow> server_info \<Rightarrow> sm_event \<Rightarrow> center \<Rightarrow> center" where
  "sm_handle j blank e s = (case e of
     Got c m \<Rightarrow> sm_on_receive j c m s
   | Lost c \<Rightarrow> sm_on_disconnect blank c s
   | Runs r \<Rightarrow> sm_net_upd (\<lambda>n. n\<lparr>nt_running := r\<rparr>) s)"

definition info_of :: "junk \<Rightarrow> gmsg \<Rightarrow> server_info" where
  "info_of j m = (let r = unpack_register j m in
     \<lparr>si_unique_id = cs_unique_id r, si_ip = cs_ip r, si_port = cs_port r, si_connect_interval = 5000\<rparr>)"

text \<open>The registrations that are in force: those made, less those whose connection was lost since.\<close>

fun active_step :: "junk \<Rightarrow> sm_event \<Rightarrow> (nat \<times> server_info) list \<Rightarrow> (nat \<times> server_info) list" where
  "active_step j (Got c m) acc = (if g_protocol m = CS_RegisterServer then acc @ [(c, info_of j m)] else acc)"
| "active_step j (Lost c) acc = filter (\<lambda>x. fst x \<noteq> c) acc"
| "active_step j (Runs r) acc = acc"

definition active :: "junk \<Rightarrow> sm_event list \<Rightarrow> (nat \<times> server_info) list" where
  "active j evs = fold (active_step j) evs []"

text \<open>The connections that say who they are, and how often.\<close>

fun identified :: "sm_event \<Rightarrow> nat list" where
  "identified (Got c m) = (if g_protocol m = CS_RegisterServer \<or> g_protocol m = SimpleRegisterServer then [c] else [])"
| "identified _ = []"

definition center_after :: "junk \<Rightarrow> server_info \<Rightarrow> uid \<Rightarrow> net \<Rightarrow> sm_event list \<Rightarrow> center" where
  "center_after j blank u n evs = fold (sm_handle j blank) evs (center_new u n)"

definition registry_inv :: "nat list \<Rightarrow> (nat \<times> server_info) list \<Rightarrow> center \<Rightarrow> bool" where
  "registry_inv ids acc s \<longleftrightarrow> ordered (sm_servers s) \<and> (\<forall>u. infos_of u s = filter (\<lambda>x. si_unique_id (snd x) = u) acc) \<and>
     (\<forall>x\<in>set acc. nt_uid (sm_net s) (fst x) = si_unique_id (snd x)) \<and> set (map fst acc) \<subseteq> set ids \<and> distinct (map fst acc)"

lemma registry_inv_frame:
  assumes "registry_inv ids acc s" "sm_servers t = sm_servers s" "\<forall>c\<in>set ids. nt_uid (sm_net t) c = nt_uid (sm_net s) c" "set ids \<subseteq> set ids'"
  shows "registry_inv ids' acc t"
  using assms by (fastforce simp: registry_inv_def infos_of_def)

lemma erase_conn_filter: "distinct (map fst l) \<Longrightarrow> erase_conn c l = filter (\<lambda>x. fst x \<noteq> c) l"
proof (induction l)
  case (Cons p l)
  from Cons.prems have "fst p = c \<Longrightarrow> filter (\<lambda>x. fst x \<noteq> c) l = l" by (intro filter_True) (auto simp: image_iff)
  with Cons show ?case by auto
qed simp

lemma registry_register:
  assumes "registry_inv ids acc s" "c \<notin> set ids"
  shows "registry_inv (c # ids) (acc @ [(c, info_of j m)]) (on_cs_register_server j c m s)"
proof -
  let ?u = "cs_unique_id (unpack_register j m)"
  let ?s1 = "s\<lparr>sm_servers := upd_servers ?u (\<lambda>l. l @ [(c, info_of j m)]) (sm_servers s)\<rparr>"
  let ?s2 = "sm_net_upd (\<lambda>n. n\<lparr>nt_uid := (nt_uid n)(c := ?u)\<rparr>) ?s1"
  have o: "ordered (sm_servers s)" and c: "c \<notin> fst ` set acc" using assms by (auto simp: registry_inv_def)
  have u: "si_unique_id (info_of j m) = ?u" by (simp add: info_of_def Let_def)
  have "registry_inv (c # ids) (acc @ [(c, info_of j m)]) ?s2"
    unfolding registry_inv_def sm_net_upd_simps infos_of_upd [OF o]
    using assms(1) c by (auto simp: registry_inv_def u upd_ordered sm_net_upd_def)
  then show ?thesis
    by (rule registry_inv_frame) (auto simp: on_cs_register_server_def Let_def info_of_def sm_send_writes broadcast_writes)
qed

lemma registry_lost:
  assumes "registry_inv ids acc s"
  shows "registry_inv ids (filter (\<lambda>x. fst x \<noteq> c) acc) (sm_on_disconnect blank c s)"
proof -
  let ?u = "nt_uid (sm_net s) c"
  have o: "ordered (sm_servers s)" and d: "distinct (map fst acc)" and i: "\<And>u. infos_of u s = filter (\<lambda>x. si_unique_id (snd x) = u) acc"
    using assms by (auto simp: registry_inv_def)
  have other: "filter (\<lambda>x. fst x \<noteq> c \<and> si_unique_id (snd x) = v) acc = filter (\<lambda>x. si_unique_id (snd x) = v) acc" if "v \<noteq> ?u" for v
    using that assms by (intro filter_cong) (auto simp: registry_inv_def)
  show ?thesis
  proof (cases "infos_of ?u s = []")
    case True
    then have "fst x \<noteq> c" if "x \<in> set acc" for x using that assms by (auto simp: i filter_empty_conv registry_inv_def)
    then have "filter (\<lambda>x. fst x \<noteq> c) acc = acc" by (intro filter_True) blast
    then show ?thesis using True assms
      by (auto simp: sm_on_disconnect_def base_on_disconnect_def registry_inv_def infos_of_def)
  next
    case False
    let ?s1 = "s\<lparr>sm_servers := upd_servers ?u (erase_conn c) (sm_servers s)\<rparr>"
    have "erase_conn c (infos_of ?u s) = filter (\<lambda>x. fst x \<noteq> c \<and> si_unique_id (snd x) = ?u) acc"
      using d by (simp add: i erase_conn_filter distinct_map_filter conj_commute)
    then have "registry_inv ids (filter (\<lambda>x. fst x \<noteq> c) acc) ?s1"
      unfolding registry_inv_def infos_of_upd [OF o] using assms other
      by (auto simp: registry_inv_def upd_ordered i conj_commute distinct_map_filter)
    then show ?thesis by (rule registry_inv_frame) (use False in \<open>auto simp: sm_on_disconnect_def Let_def broadcast_writes\<close>)
  qed
qed

lemma broadcast_server_frame:
  "sm_servers (broadcast_server_msg us m s) = sm_servers s \<and> nt_uid (sm_net (broadcast_server_msg us m s)) = nt_uid (sm_net s)"
  unfolding broadcast_server_msg_def by (induction us arbitrary: s) (auto simp: forward_writes)

lemma registry_step:
  assumes "registry_inv ids acc s" "set (identified e) \<inter> set ids = {}"
  shows "registry_inv (identified e @ ids) (active_step j e acc) (sm_handle j blank e s)"
proof (cases e)
  case (Got c m)
  consider "g_protocol m = CS_RegisterServer" | "g_protocol m = SimpleRegisterServer" "g_protocol m \<noteq> CS_RegisterServer"
    | "g_protocol m \<noteq> CS_RegisterServer" "g_protocol m \<noteq> SimpleRegisterServer" by blast
  then show ?thesis
  proof cases
    case 1
    then show ?thesis using registry_register [OF assms(1), of c j m] assms(2) by (simp add: Got sm_handle_def sm_on_receive_def)
  next
    case 2
    then have "c \<notin> set ids" using assms(2) by (simp add: Got)
    with 2 show ?thesis
      by (simp add: Got sm_handle_def sm_on_receive_def protocol_ids)
        (rule registry_inv_frame [OF assms(1)], auto simp: base_on_receive_def Let_def)
  next
    case 3
    then show ?thesis using broadcast_server_frame [of "unpack_broadcast j m" m s]
      by (simp add: Got sm_handle_def)
        (rule registry_inv_frame [OF assms(1)], auto simp: sm_on_receive_def on_cs_get_server_info_def sm_send_writes
          on_broadcast_server_msg_def on_forward_msg_def forward_writes Let_def)
  qed
next
  case (Lost c)
  then show ?thesis using registry_lost [OF assms(1), of c blank] by (simp add: sm_handle_def)
next
  case (Runs r)
  then show ?thesis by (simp add: sm_handle_def) (rule registry_inv_frame [OF assms(1)], auto)
qed

lemma center_after_registry:
  assumes "distinct (concat (map identified evs))"
  shows "registry_inv (concat (map identified evs)) (active j evs) (center_after j blank u n evs)"
  using assms
proof (induction evs rule: rev_induct)
  case Nil
  then show ?case by (simp add: registry_inv_def active_def center_after_def center_new_def infos_of_def ordered_def)
next
  case (snoc e evs)
  then have "registry_inv (identified e @ concat (map identified evs)) (active_step j e (active j evs)) (sm_handle j blank e (center_after j blank u n evs))"
    by (intro registry_step) auto
  then have "registry_inv (concat (map identified (evs @ [e]))) (active_step j e (active j evs)) (sm_handle j blank e (center_after j blank u n evs))"
    by (rule registry_inv_frame) auto
  then show ?case by (simp add: active_def center_after_def)
qed

section \<open>Properties of the center\<close>

text \<open>(C13) The center forwards a message to exactly the servers it is for. After a history of messages, lost connections and
  changes of what runs, in which no connection says twice who it is (\<open>double_registration_stays\<close> shows what happens otherwise), the
  registered connections are those that registered and were not lost since, and \<open>write\<close> is called with a message that has none of the four
  protocol ids the center handles itself, once for each of them that registered under the receiver's id and runs, in the order of
  registration, and for no other.\<close>

theorem center_forwards_to_registered:
  assumes "distinct (concat (map identified evs))" and "s = center_after j blank u n evs"
    and "g_protocol m \<notin> {CS_RegisterServer, CS_GetServerInfo, BroadcastServerMsg, SimpleRegisterServer}"
  shows "(\<forall>v. infos_of v s = filter (\<lambda>x. si_unique_id (snd x) = v) (active j evs)) \<and> distinct (map fst (active j evs)) \<and>
    sm_net (sm_on_receive j c m s) =
      writes (map (\<lambda>k. (k, m)) (filter (nt_running (sm_net s))
        (map fst (filter (\<lambda>x. si_unique_id (snd x) = uint (g_to m)) (active j evs))))) (sm_net s)"
proof -
  have "registry_inv (concat (map identified evs)) (active j evs) s" unfolding assms(2) by (rule center_after_registry [OF assms(1)])
  then show ?thesis using assms(3) by (auto simp: registry_inv_def sm_on_receive_def on_forward_msg_def forward_writes)
qed

definition sample_junk :: junk where
  "sample_junk = \<lparr>j_register = (\<lambda>_. \<lparr>cs_unique_id = 0, cs_ip = [], cs_port = 0\<rparr>), j_get = (\<lambda>_. []), j_infos = (\<lambda>_. []),
     j_event = (\<lambda>_. (EServerDisconnected, \<lparr>si_unique_id = 0, si_ip = [], si_port = 0, si_connect_interval = 0\<rparr>)), j_uid = (\<lambda>_. 0),
     j_broadcast = (\<lambda>_. [])\<rparr>"

definition blank_info :: server_info where
  "blank_info = \<lparr>si_unique_id = 0, si_ip = [], si_port = 0, si_connect_interval = 0\<rparr>"

definition sample_net :: net where
  "sample_net = \<lparr>nt_running = (\<lambda>_. True), nt_uid = (\<lambda>_. 0), nt_written = []\<rparr>"

definition register_msg :: "uid \<Rightarrow> string \<Rightarrow> u16 \<Rightarrow> gmsg" where
  "register_msg u ip port = server_pack_msg u CS_RegisterServer center_server (P_Register \<lparr>cs_unique_id = u, cs_ip = ip, cs_port = port\<rparr>)"

lemma register_msg_simps [simp]: "g_protocol (register_msg u ip port) = CS_RegisterServer"
  "unpack_register j (register_msg u ip port) = \<lparr>cs_unique_id = u, cs_ip = ip, cs_port = port\<rparr>"
  by (simp_all add: register_msg_def server_pack_msg_def unpack_register_def)

definition sample_history :: "sm_event list" where
  "sample_history = [Got 1 (register_msg 7 ''lobby'' 80), Got 2 (register_msg 8 ''room'' 81), Got 3 (register_msg 8 ''room'' 82), Lost 2]"

theorem center_forwards_to_registered_witness:
  "\<exists>s. s = center_after sample_junk blank_info center_server sample_net sample_history \<and>
     map fst (infos_of 8 s) = [3] \<and>
     (let m = server_pack_msg 7 5000 8 (P_Data [1]) in (3, m) \<in> set (nt_written (sm_net (sm_on_receive sample_junk 1 m s))))"
proof -
  let ?m = "server_pack_msg 7 5000 8 (P_Data [1])" and ?s = "center_after sample_junk blank_info center_server sample_net sample_history"
  have d: "distinct (concat (map identified sample_history))" by (simp add: sample_history_def)
  have p: "g_protocol ?m \<notin> {CS_RegisterServer, CS_GetServerInfo, BroadcastServerMsg, SimpleRegisterServer}"
    by (simp add: server_pack_msg_def protocol_ids)
  note fwd = center_forwards_to_registered [OF d refl p, of sample_junk blank_info center_server sample_net 1]
  have act: "active sample_junk sample_history = [(1, info_of sample_junk (register_msg 7 ''lobby'' 80)), (3, info_of sample_junk (register_msg 8 ''room'' 82))]"
    by (simp add: active_def sample_history_def)
  have run: "nt_running (sm_net ?s) 3"
    by (simp add: center_after_def sample_history_def sm_handle_def sm_on_receive_def on_cs_register_server_def Let_def broadcast_writes sm_send_writes
        sm_on_disconnect_def base_on_disconnect_def center_new_def sample_net_def sm_net_upd_def)
  have "map fst (infos_of 8 ?s) = [3]" using fwd by (simp add: act info_of_def Let_def)
  moreover have "(3, ?m) \<in> set (nt_written (sm_net (sm_on_receive sample_junk 1 ?m ?s)))"
    using fwd run by (simp add: act info_of_def Let_def server_pack_msg_def)
  ultimately show ?thesis by (simp add: Let_def)
qed

text \<open>A connection that registers twice leaves an entry behind: when it is lost only one of its entries is removed, the
  other keeps its address in the answers of the center although the connection is gone.\<close>

theorem double_registration_stays:
  assumes "ordered (sm_servers s)" "infos_of u s = []" and "m = register_msg u ip port"
  shows "infos_of u (sm_on_disconnect blank c (sm_on_receive j c m (sm_on_receive j c m s))) =
    [(c, \<lparr>si_unique_id = u, si_ip = ip, si_port = port, si_connect_interval = 5000\<rparr>)]"
proof -
  let ?i = "\<lparr>si_unique_id = u, si_ip = ip, si_port = port, si_connect_interval = 5000\<rparr>"
  have reg: "infos_of u (sm_on_receive j c m t) = infos_of u t @ [(c, ?i)]" "ordered (sm_servers (sm_on_receive j c m t))"
    "nt_uid (sm_net (sm_on_receive j c m t)) c = u" if "ordered (sm_servers t)" for t
    using that infos_of_upd [OF that, of u u "\<lambda>l. l @ [(c, ?i)]"]
    by (simp_all add: assms(3) sm_on_receive_def on_cs_register_server_def Let_def broadcast_writes sm_send_writes upd_ordered infos_of_def)
  let ?t = "sm_on_receive j c m (sm_on_receive j c m s)"
  have t: "infos_of u ?t = [(c, ?i), (c, ?i)]" "ordered (sm_servers ?t)" "nt_uid (sm_net ?t) c = u"
    using reg [OF assms(1)] reg [OF reg(2) [OF assms(1)]] assms(2) by simp_all
  then have "infos_of u (sm_on_disconnect blank c ?t) = erase_conn c (infos_of u ?t)"
    using infos_of_upd [OF t(2), of u u "erase_conn c"] by (simp add: sm_on_disconnect_def Let_def broadcast_writes)
  then show ?thesis by (simp add: t(1))
qed

theorem double_registration_stays_witness:
  "infos_of 8 (sm_on_disconnect blank_info 2 (sm_on_receive sample_junk 2 (register_msg 8 ''room'' 81)
     (sm_on_receive sample_junk 2 (register_msg 8 ''room'' 81) (center_new 17 sample_net)))) =
   [(2, \<lparr>si_unique_id = 8, si_ip = ''room'', si_port = 81, si_connect_interval = 5000\<rparr>)]"
  by (rule double_registration_stays) (simp_all add: center_new_def ordered_def infos_of_def)

section \<open>Servers and center together\<close>

abbreviation gm_net :: "game \<Rightarrow> net" where
  "gm_net g \<equiv> gb_net (gm_base g)"

lemma uint_word_of_uid: "0 \<le> u \<Longrightarrow> u < 65536 \<Longrightarrow> uint (word_of_int u :: u16) = u"
  by (simp add: unsigned_of_int take_bit_int_eq_self)

lemma gm_send_center:
  assumes "gm_center_conn g = Some c" "nt_running (gm_net g) c" "u \<notin> {db_server, gateway_server}"
  shows "gm_send_server_msg u msg_id p request g =
    (let m = server_pack_msg (gb_unique_id (gm_base g)) msg_id u p; m1 = (case request of None \<Rightarrow> m | Some call \<Rightarrow> m\<lparr>g_call := call\<rparr>)
     in (Some m1, g\<lparr>gm_base := (gm_base g)\<lparr>gb_net := writes [(c, m1)] (gm_net g)\<rparr>\<rparr>))"
  using assms by (auto simp: gm_send_server_msg_def send_server_msg_def gm_get_connection_ptr_def get_running_conn_def send_over_def
      send_raw_writes Let_def)

text \<open>(C15) A message for another server goes over the center and arrives. The receiver is not the database, the gateway or the
  center, which are reached directly, and the protocol id is none of the four that the center handles itself. In a center to which no
  connection said twice who it is, and in which exactly one running connection is registered under the receiver's id, a server that
  runs a connection to the center sends the message there, the center writes it once, to that connection and to no other, and a
  receiver that has a protocol for it processes it once, with the body, the sender's id and the call id of the request it answers.\<close>

theorem message_reaches_server:
  assumes "gm_center_conn g = Some c" "nt_running (gm_net g) c" "to \<notin> {db_server, gateway_server, center_server}" "0 \<le> to" "to < 65536"
    and "mid \<notin> {CS_RegisterServer, CS_GetServerInfo, BroadcastServerMsg, SimpleRegisterServer}"
    and "distinct (concat (map identified evs))" "s = center_after j blank u n evs"
    and "filter (\<lambda>x. si_unique_id (snd x) = to \<and> nt_running (sm_net s) (fst x)) (active j evs) = [(k, info)]" and "Create (gm_protos h) mid = Some pr"
  shows "\<exists>m g'. gm_send_server_msg to mid p request g = (Some m, g') \<and> nt_written (gm_net g') = nt_written (gm_net g) @ [(c, m)] \<and>
    g_body m = p \<and> g_from m = word_of_int (gb_unique_id (gm_base g)) \<and> g_to m = word_of_int to \<and> g_protocol m = mid \<and>
    g_call m = (case request of None \<Rightarrow> 0 | Some call \<Rightarrow> call) \<and>
    nt_written (sm_net (sm_on_receive j c' m s)) = nt_written (sm_net s) @ [(k, m)] \<and>
    gm_processed (gm_on_receive j c'' m h) = gm_processed h @ [if pr_ctx pr then In_Coroutine c'' m else Directly c'' m]"
proof -
  let ?m0 = "server_pack_msg (gb_unique_id (gm_base g)) mid to p"
  define m where "m = (case request of None \<Rightarrow> ?m0 | Some call \<Rightarrow> ?m0\<lparr>g_call := call\<rparr>)"
  have f: "g_protocol m = mid" "g_to m = word_of_int to" "g_body m = p" "g_from m = word_of_int (gb_unique_id (gm_base g))"
    "g_call m = (case request of None \<Rightarrow> 0 | Some call \<Rightarrow> call)"
    by (auto simp: m_def server_pack_msg_def split: option.splits)
  have "registry_inv (concat (map identified evs)) (active j evs) s" unfolding assms(8) by (rule center_after_registry [OF assms(7)])
  then have i: "infos_of to s = filter (\<lambda>x. si_unique_id (snd x) = to) (active j evs)" by (simp add: registry_inv_def)
  have k: "filter (nt_running (sm_net s)) (map fst (infos_of to s)) = [k]"
    using arg_cong [OF assms(9), of "map fst"] by (simp add: i filter_map comp_def conj_commute)
  have "sm_on_receive j c' m s = forward_msg to m s"
    using assms(4-6) by (simp add: sm_on_receive_def on_forward_msg_def f uint_word_of_uid)
  then have "nt_written (sm_net (sm_on_receive j c' m s)) = nt_written (sm_net s) @ [(k, m)]" by (simp add: forward_writes k)
  then show ?thesis using f gm_send_center [OF assms(1,2), of to mid p request] assms(3,10)
    by (auto simp: m_def [symmetric] Let_def gm_on_receive_def Decode_def do_process_def)
qed

definition sample_game :: "uid \<Rightarrow> game" where
  "sample_game u = \<lparr>gm_base = \<lparr>gb_unique_id = u, gb_gate_conn = None, gb_net = sample_net\<rparr>, gm_depend_center = True, gm_depend_db = False,
     gm_center_conn = Some 1, gm_db_conn = None, gm_db_info = blank_info, gm_config = (\<lambda>_. ([], 0)), gm_start_ok = (\<lambda>_. True),
     gm_protos = [(5000, \<lparr>pr_id = 5000, pr_ctx = False, pr_clones = True\<rparr>)], gm_processed = [], gm_effects = []\<rparr>"

theorem message_reaches_server_witness:
  "\<exists>m g' s. s = center_after sample_junk blank_info center_server sample_net sample_history \<and>
     gm_send_server_msg 8 5000 (P_Data [1]) None (sample_game 7) = (Some m, g') \<and> g_body m = P_Data [1] \<and>
     nt_written (sm_net (sm_on_receive sample_junk 1 m s)) = nt_written (sm_net s) @ [(3, m)] \<and>
     gm_processed (gm_on_receive sample_junk 1 m (sample_game 8)) = [Directly 1 m]"
proof -
  let ?s = "center_after sample_junk blank_info center_server sample_net sample_history" and ?i = "info_of sample_junk (register_msg 8 ''room'' 82)"
  have act: "active sample_junk sample_history = [(1, info_of sample_junk (register_msg 7 ''lobby'' 80)), (3, ?i)]"
    by (simp add: active_def sample_history_def)
  have "nt_running (sm_net ?s) 3"
    by (simp add: center_after_def sample_history_def sm_handle_def sm_on_receive_def on_cs_register_server_def Let_def broadcast_writes sm_send_writes
        sm_on_disconnect_def base_on_disconnect_def center_new_def sample_net_def sm_net_upd_def)
  then have k: "filter (\<lambda>x. si_unique_id (snd x) = 8 \<and> nt_running (sm_net ?s) (fst x)) (active sample_junk sample_history) = [(3, ?i)]"
    by (simp add: act info_of_def Let_def)
  have d: "distinct (concat (map identified sample_history))" by (simp add: sample_history_def)
  have g: "gm_center_conn (sample_game 7) = Some 1" "nt_running (gm_net (sample_game 7)) 1" "gm_processed (sample_game 8) = []"
    "Create (gm_protos (sample_game 8)) 5000 = Some \<lparr>pr_id = 5000, pr_ctx = False, pr_clones = True\<rparr>"
    by (simp_all add: sample_game_def sample_net_def Create_def GetProto_def)
  have ids: "(8 :: uid) \<notin> {db_server, gateway_server, center_server}" "(0 :: uid) \<le> 8" "(8 :: uid) < 65536"
    "(5000 :: u32) \<notin> {CS_RegisterServer, CS_GetServerInfo, BroadcastServerMsg, SimpleRegisterServer}"
    by (simp_all add: db_server_def gateway_server_def center_server_def protocol_ids)
  show ?thesis
    using message_reaches_server [OF g(1,2) ids d refl k g(4), of "P_Data [1]" None 1 1] by (fastforce simp: g(3))
qed

section \<open>Starting up\<close>

definition msgs_to :: "nat \<Rightarrow> net \<Rightarrow> gmsg list" where
  "msgs_to k n = map snd (filter (\<lambda>x. fst x = k) (nt_written n))"

lemma msgs_to_writes: "msgs_to k (writes ms n) = msgs_to k n @ map snd (filter (\<lambda>x. fst x = k) ms)"
  by (simp add: msgs_to_def)

lemma ordered_lookup: "ordered xs \<Longrightarrow> (v, l) \<in> set xs \<Longrightarrow> map_of xs v = Some l"
  by (auto simp: ordered_def strict_sorted_iff intro!: map_of_is_SomeI)

lemma group_conns:
  assumes "registry_inv ids acc s" "(v, l) \<in> set (sm_servers s)" "x \<in> set l"
  shows "x \<in> set acc \<and> si_unique_id (snd x) = v"
proof -
  have "infos_of v s = l" using assms(1,2) ordered_lookup by (fastforce simp: infos_of_def registry_inv_def)
  then show ?thesis using assms(1,3) by (auto simp: registry_inv_def)
qed

text \<open>A new connection that registers gets one answer, its id; the events go to others.\<close>

lemma register_answer:
  assumes "registry_inv ids acc s" "k \<notin> set ids" "nt_running (sm_net s) k"
  shows "msgs_to k (sm_net (sm_on_receive j k (register_msg a ip port) s)) =
    msgs_to k (sm_net s) @ [server_pack_msg (gb_unique_id (sm_base s)) SC_RegisterServer a (P_Registered (word_of_int a))]"
proof -
  let ?m = "register_msg a ip port"
  have inv: "registry_inv (k # ids) (acc @ [(k, info_of j ?m)]) (on_cs_register_server j k ?m s)" by (rule registry_register [OF assms(1,2)])
  have "k \<notin> set (concat (map (\<lambda>(u, l). if u = a then [] else map fst l) (sm_servers (on_cs_register_server j k ?m s))))"
  proof -
    have "k \<noteq> fst x" if "(v, l) \<in> set (sm_servers (on_cs_register_server j k ?m s))" "v \<noteq> a" "x \<in> set l" for v l x
    proof -
      have "si_unique_id (info_of j ?m) = a" by (simp add: info_of_def)
      then have "x \<in> set acc" using group_conns [OF inv that(1,3)] that(2) by auto
      then show ?thesis using assms(1,2) by (auto simp: registry_inv_def)
    qed
    then show ?thesis by (fastforce split: if_splits)
  qed
  moreover have "sm_servers (on_cs_register_server j k ?m s) = upd_servers a (\<lambda>l. l @ [(k, info_of j ?m)]) (sm_servers s)"
    by (simp add: on_cs_register_server_def Let_def broadcast_writes sm_send_writes info_of_def)
  ultimately have none: "filter (\<lambda>c. P c \<and> c = k) (concat (map (\<lambda>(u, l). if u = a then [] else map fst l)
      (upd_servers a (\<lambda>l. l @ [(k, info_of j ?m)]) (sm_servers s)))) = []" for P
    unfolding filter_empty_conv by metis
  show ?thesis using assms(3) none [of "nt_running (sm_net s)"]
    by (simp add: sm_on_receive_def on_cs_register_server_def Let_def broadcast_writes sm_send_writes msgs_to_writes filter_map comp_def to_conn_def
        info_of_def msgs_to_def)
qed

lemma get_info_answer:
  assumes "nt_running (sm_net s) k" "infos_of db_server s = (kd, info) # rest" "si_unique_id info = db_server"
    "m = server_pack_msg a CS_GetServerInfo center_server (P_Get [db_server])"
  shows "msgs_to k (sm_net (sm_on_receive j k m s)) =
    msgs_to k (sm_net s) @ [server_pack_msg (gb_unique_id (sm_base s)) SC_GetServerInfo (nt_uid (sm_net s) k) (P_Infos [(db_server, info)])]"
  using assms
  by (simp add: sm_on_receive_def server_pack_msg_def protocol_ids on_cs_get_server_info_def sm_send_writes msgs_to_writes to_conn_def unpack_get_def)

lemma register_frame:
  assumes "registry_inv ids acc s"
  shows "nt_running (sm_net (sm_on_receive j k (register_msg a ip port) s)) = nt_running (sm_net s)"
    "nt_uid (sm_net (sm_on_receive j k (register_msg a ip port) s)) k = a"
    "gb_unique_id (sm_base (sm_on_receive j k (register_msg a ip port) s)) = gb_unique_id (sm_base s)"
    "v \<noteq> a \<Longrightarrow> infos_of v (sm_on_receive j k (register_msg a ip port) s) = infos_of v s"
proof -
  have o: "ordered (sm_servers s)" using assms by (simp add: registry_inv_def)
  show "nt_running (sm_net (sm_on_receive j k (register_msg a ip port) s)) = nt_running (sm_net s)"
    "nt_uid (sm_net (sm_on_receive j k (register_msg a ip port) s)) k = a"
    "gb_unique_id (sm_base (sm_on_receive j k (register_msg a ip port) s)) = gb_unique_id (sm_base s)"
    by (simp_all add: sm_on_receive_def on_cs_register_server_def Let_def broadcast_writes sm_send_writes)
  show "infos_of v (sm_on_receive j k (register_msg a ip port) s) = infos_of v s" if "v \<noteq> a"
    using that upd_lookup [OF o]
    by (simp add: sm_on_receive_def on_cs_register_server_def Let_def broadcast_writes sm_send_writes infos_of_def)
qed

text \<open>The steps of a starting server: connecting, registering, asking for the database, connecting to it.\<close>

lemma boot_steps:
  assumes "gm_depend_center g" "gb_unique_id (gm_base g) = a" "a \<noteq> db_server" "{center_server, db_server} \<subseteq> set depends" "c \<noteq> d"
    "\<not> nt_running (gm_net g) c" "\<not> nt_running (gm_net g) d" "gm_start_ok g c" "gm_start_ok g d"
    "\<forall>p\<in>{SC_RegisterServer, SC_GetServerInfo}. Create (gm_protos g) p = None" "gm_config g a = (ip, port)" "gm_config g center_server = (cip, cport)"
    and "g1 = gm_on_connect c False (gm_init depends c d g)"
    and "g2 = gm_on_receive j c (server_pack_msg u SC_RegisterServer a (P_Registered x)) g1"
    and "g3 = gm_on_receive j c (server_pack_msg u SC_GetServerInfo a (P_Infos [(db_server, info)])) g2"
    and "g4 = gm_on_connect d False g3"
  shows "nt_written (gm_net g1) = nt_written (gm_net g) @ [(c, register_msg a ip port)]"
    "nt_written (gm_net g2) = nt_written (gm_net g1) @ [(c, server_pack_msg a CS_GetServerInfo center_server (P_Get [db_server]))]"
    "gm_effects g3 = gm_effects g @ [Connect c cip cport, Timer_Started Center_Timer, Timer_Stopped Center_Timer, Conn_Started c,
       Timer_Stopped Db_Timer, Timer_Started Db_Info_Timer, Connect d (si_ip info) (si_port info), Timer_Started Db_Timer]"
    "gm_effects g4 = gm_effects g3 @ [Timer_Stopped Db_Timer, Timer_Stopped Db_Info_Timer, Conn_Started d]"
    "gm_get_connection_ptr db_server g4 = Some d" "gm_get_connection_ptr center_server g4 = Some c"
proof -
  let ?run = "(nt_running (gm_net g))(c := True)"
  have g1: "g1 = g\<lparr>gm_depend_db := True, gm_center_conn := Some c, gm_db_conn := Some d,
      gm_base := (gm_base g)\<lparr>gb_net := writes [(c, register_msg a ip port)] ((gm_net g)\<lparr>nt_running := ?run\<rparr>)\<rparr>,
      gm_effects := gm_effects g @ [Connect c cip cport, Timer_Started Center_Timer, Timer_Stopped Center_Timer, Conn_Started c]\<rparr>"
    using assms(1-6,8,11,12) unfolding assms(13)
    by (simp add: gm_init_def Let_def timer_start_def has_timer_def run_timer_def connect_func_def gm_async_connect_def gm_note_def gm_on_connect_def
        timer_stop_def gm_conn_start_def register_to_center_def gm_send_center db_server_def center_server_def gateway_server_def register_msg_def)
  have g2: "g2 = g1\<lparr>gm_base := (gm_base g1)\<lparr>gb_net := writes [(c, server_pack_msg a CS_GetServerInfo center_server (P_Get [db_server]))] (gm_net g1)\<rparr>,
      gm_effects := gm_effects g1 @ [Timer_Stopped Db_Timer, Timer_Started Db_Info_Timer]\<rparr>"
    using assms(2,5,7,10) unfolding assms(14) g1
    by (simp add: gm_on_receive_def Decode_def server_pack_msg_def on_sc_register_server_def reconnect_db_def timer_start_def has_timer_def run_timer_def
        get_db_info_func_def get_running_conn_def timer_stop_def gm_note_def get_server_info_def gm_send_center center_server_def db_server_def
        gateway_server_def Let_def)
  have g3: "g3 = g2\<lparr>gm_db_info := info, gm_effects := gm_effects g2 @ [Connect d (si_ip info) (si_port info), Timer_Started Db_Timer]\<rparr>"
    using assms(5,7,10) unfolding assms(15) g2 g1
    by (simp add: gm_on_receive_def Decode_def server_pack_msg_def protocol_ids on_sc_get_server_info_def unpack_infos_def on_get_db_info_def timer_start_def
        has_timer_def run_timer_def connect_db_func_def gm_async_connect_def gm_note_def)
  have g4: "g4 = g3\<lparr>gm_base := (gm_base g3)\<lparr>gb_net := (gm_net g3)\<lparr>nt_running := (nt_running (gm_net g3))(d := True)\<rparr>\<rparr>,
      gm_effects := gm_effects g3 @ [Timer_Stopped Db_Timer, Timer_Stopped Db_Info_Timer, Conn_Started d]\<rparr>"
    using assms(1,5,9) unfolding assms(16) g3 g2 g1
    by (simp add: gm_on_connect_def timer_stop_def has_timer_def gm_note_def gm_conn_start_def)
  show "nt_written (gm_net g1) = nt_written (gm_net g) @ [(c, register_msg a ip port)]" by (simp add: g1)
  show "nt_written (gm_net g2) = nt_written (gm_net g1) @ [(c, server_pack_msg a CS_GetServerInfo center_server (P_Get [db_server]))]" by (simp add: g2)
  show "gm_effects g3 = gm_effects g @ [Connect c cip cport, Timer_Started Center_Timer, Timer_Stopped Center_Timer, Conn_Started c,
       Timer_Stopped Db_Timer, Timer_Started Db_Info_Timer, Connect d (si_ip info) (si_port info), Timer_Started Db_Timer]"
    by (simp add: g3 g2 g1)
  show "gm_effects g4 = gm_effects g3 @ [Timer_Stopped Db_Timer, Timer_Stopped Db_Info_Timer, Conn_Started d]" by (simp add: g4)
  show "gm_get_connection_ptr db_server g4 = Some d" "gm_get_connection_ptr center_server g4 = Some c"
    using assms(5) by (simp_all add: g4 g3 g2 g1 gm_get_connection_ptr_def get_running_conn_def db_server_def center_server_def Let_def)
qed

text \<open>(C14) A server that starts finds the database through the center. When its connection to the center comes up it registers,
  the center answers, it asks for the database, the center answers with the address of the first database server that
  registered and was not lost since, and the server connects there; after that messages to the database go over the
  new connection and the timers that repeat the attempts are stopped.\<close>

theorem server_finds_database:
  assumes "gm_depend_center g" "gb_unique_id (gm_base g) = a" "a \<noteq> db_server" "{center_server, db_server} \<subseteq> set depends" "c \<noteq> d"
    "\<not> nt_running (gm_net g) c" "\<not> nt_running (gm_net g) d" "gm_start_ok g c" "gm_start_ok g d"
    "\<forall>p\<in>{SC_RegisterServer, SC_GetServerInfo}. Create (gm_protos g) p = None" "gm_config g a = (ip, port)" "gm_config g center_server = (cip, cport)"
    and "distinct (concat (map identified evs))" "s = center_after j blank u n evs" "k \<notin> set (concat (map identified evs))" "nt_running (sm_net s) k"
    "filter (\<lambda>x. si_unique_id (snd x) = db_server) (active j evs) = (kd, info) # rest"
  shows "\<exists>m1 r1 m2 r2 g1 g2 g3 g4 s1 s2.
    g1 = gm_on_connect c False (gm_init depends c d g) \<and> nt_written (gm_net g1) = nt_written (gm_net g) @ [(c, m1)] \<and>
    s1 = sm_on_receive j k m1 s \<and> msgs_to k (sm_net s1) = msgs_to k (sm_net s) @ [r1] \<and>
    g2 = gm_on_receive j c r1 g1 \<and> nt_written (gm_net g2) = nt_written (gm_net g1) @ [(c, m2)] \<and>
    s2 = sm_on_receive j k m2 s1 \<and> msgs_to k (sm_net s2) = msgs_to k (sm_net s1) @ [r2] \<and>
    g3 = gm_on_receive j c r2 g2 \<and> last (butlast (gm_effects g3)) = Connect d (si_ip info) (si_port info) \<and>
    g4 = gm_on_connect d False g3 \<and> gm_effects g4 = gm_effects g3 @ [Timer_Stopped Db_Timer, Timer_Stopped Db_Info_Timer, Conn_Started d] \<and>
    gm_get_connection_ptr db_server g4 = Some d \<and> gm_get_connection_ptr center_server g4 = Some c"
proof -
  let ?u = "gb_unique_id (sm_base s)" and ?m1 = "register_msg a ip port"
  let ?r1 = "server_pack_msg ?u SC_RegisterServer a (P_Registered (word_of_int a))"
  let ?m2 = "server_pack_msg a CS_GetServerInfo center_server (P_Get [db_server])"
  let ?r2 = "server_pack_msg ?u SC_GetServerInfo a (P_Infos [(db_server, info)])"
  let ?s1 = "sm_on_receive j k ?m1 s"
  have inv: "registry_inv (concat (map identified evs)) (active j evs) s" unfolding assms(14) by (rule center_after_registry [OF assms(13)])
  then have db: "infos_of db_server s = (kd, info) # rest" using assms(17) by (simp add: registry_inv_def)
  have i: "si_unique_id info = db_server" using filter_eq_ConsD [OF assms(17)] by auto
  note fr = register_frame [OF inv, where j = j and k = k and a = a and ip = ip and port = port]
  have s1: "msgs_to k (sm_net ?s1) = msgs_to k (sm_net s) @ [?r1]" by (rule register_answer [OF inv assms(15,16)])
  have s2: "msgs_to k (sm_net (sm_on_receive j k ?m2 ?s1)) = msgs_to k (sm_net ?s1) @ [?r2]"
    using get_info_answer [of ?s1 k kd info rest ?m2 a j] assms(3,16) fr db i by simp
  define g1 where "g1 = gm_on_connect c False (gm_init depends c d g)"
  define g2 where "g2 = gm_on_receive j c ?r1 g1"
  define g3 where "g3 = gm_on_receive j c ?r2 g2"
  define g4 where "g4 = gm_on_connect d False g3"
  note bs = boot_steps [OF assms(1-12) g1_def g2_def g3_def g4_def]
  show ?thesis unfolding g1_def [symmetric]
    by (rule exI [where x = ?m1], rule exI [where x = ?r1], rule exI [where x = ?m2], rule exI [where x = ?r2])
      (simp add: s1 s2 bs butlast_append flip: g2_def g3_def g4_def)
qed

definition starting_game :: game where
  "starting_game = (sample_game 7)\<lparr>gm_base := \<lparr>gb_unique_id = 7, gb_gate_conn = None, gb_net = sample_net\<lparr>nt_running := (\<lambda>_. False)\<rparr>\<rparr>,
     gm_center_conn := None\<rparr>"

definition db_history :: "sm_event list" where
  "db_history = [Got 1 (register_msg 4 ''db'' 33)]"

theorem server_finds_database_witness:
  "\<exists>s. s = center_after sample_junk blank_info center_server sample_net db_history \<and> (\<exists>m1 r1 m2 r2 g1 g2 g3 g4 s1 s2.
    g1 = gm_on_connect 1 False (gm_init [center_server, db_server] 1 2 starting_game) \<and> nt_written (gm_net g1) = nt_written (gm_net starting_game) @ [(1, m1)] \<and>
    s1 = sm_on_receive sample_junk 2 m1 s \<and> msgs_to 2 (sm_net s1) = msgs_to 2 (sm_net s) @ [r1] \<and>
    g2 = gm_on_receive sample_junk 1 r1 g1 \<and> nt_written (gm_net g2) = nt_written (gm_net g1) @ [(1, m2)] \<and>
    s2 = sm_on_receive sample_junk 2 m2 s1 \<and> msgs_to 2 (sm_net s2) = msgs_to 2 (sm_net s1) @ [r2] \<and>
    g3 = gm_on_receive sample_junk 1 r2 g2 \<and> last (butlast (gm_effects g3)) = Connect 2 ''db'' 33 \<and>
    g4 = gm_on_connect 2 False g3 \<and> gm_effects g4 = gm_effects g3 @ [Timer_Stopped Db_Timer, Timer_Stopped Db_Info_Timer, Conn_Started 2] \<and>
    gm_get_connection_ptr db_server g4 = Some 2 \<and> gm_get_connection_ptr center_server g4 = Some 1)"
proof -
  let ?s = "center_after sample_junk blank_info center_server sample_net db_history"
  have g: "gm_depend_center starting_game" "gb_unique_id (gm_base starting_game) = 7" "7 \<noteq> db_server"
    "{center_server, db_server} \<subseteq> set [center_server, db_server]" "(1::nat) \<noteq> 2" "\<not> nt_running (gm_net starting_game) 1"
    "\<not> nt_running (gm_net starting_game) 2" "gm_start_ok starting_game 1" "gm_start_ok starting_game 2"
    "\<forall>p\<in>{SC_RegisterServer, SC_GetServerInfo}. Create (gm_protos starting_game) p = None" "gm_config starting_game 7 = ([], 0)"
    "gm_config starting_game center_server = ([], 0)"
    by (simp_all add: starting_game_def sample_game_def sample_net_def db_server_def protocol_ids Create_def GetProto_def)
  have h: "distinct (concat (map identified db_history))" "2 \<notin> set (concat (map identified db_history))" by (simp_all add: db_history_def)
  have run: "nt_running (sm_net ?s) 2"
    by (simp add: center_after_def db_history_def sm_handle_def sm_on_receive_def on_cs_register_server_def Let_def broadcast_writes sm_send_writes
        center_new_def sample_net_def sm_net_upd_def)
  have "filter (\<lambda>x. si_unique_id (snd x) = db_server) (active sample_junk db_history) =
      [(1, info_of sample_junk (register_msg 4 ''db'' 33))]"
    by (simp add: active_def db_history_def info_of_def Let_def db_server_def)
  moreover have "si_ip (info_of sample_junk (register_msg 4 ''db'' 33)) = ''db''" "si_port (info_of sample_junk (register_msg 4 ''db'' 33)) = 33"
    by (simp_all add: info_of_def)
  ultimately show ?thesis using server_finds_database [OF g h(1) refl h(2) run] by (intro exI [where x = ?s] conjI refl) metis
qed

section \<open>What goes wrong\<close>

text \<open>A message that is sent to several servers at once does not reach their handlers: the center passes on the envelope, whose protocol
  id no receiver knows.\<close>

lemma broadcast_is_dropped:
  assumes "gm_broadcast_server_msg us mid d g = (Some m, g')" "Create (gm_protos h) BroadcastServerMsg = None"
  shows "gm_processed (gm_on_receive j c m h) = gm_processed h \<and> gm_net (gm_on_receive j c m h) = gm_net h \<and>
    gm_effects (gm_on_receive j c m h) = gm_effects h"
proof -
  have "g_protocol m = BroadcastServerMsg" using assms(1)
    by (auto simp: gm_broadcast_server_msg_def gm_send_server_msg_def send_server_msg_def send_over_def server_pack_msg_def Let_def split: option.splits)
  then show ?thesis using assms(2) by (simp add: gm_on_receive_def Decode_def protocol_ids base_on_receive_def)
qed

text \<open>The connection to the center is started twice when it comes up, once by itself and once by the server, so that two reads and two
  timers run on it; the property above of a starting server is of the handler \<open>on_connect\<close>.\<close>

theorem center_connection_started_twice:
  assumes "gm_depend_center g" "gm_center_conn g = Some c" "gm_start_ok g c"
  shows "filter (\<lambda>e. e = Conn_Started c) (gm_effects (gm_handle_connect c False g)) =
    filter (\<lambda>e. e = Conn_Started c) (gm_effects g) @ [Conn_Started c, Conn_Started c]"
proof -
  have "gm_effects (register_to_center x) = gm_effects x" for x
    by (simp add: register_to_center_def gm_send_server_msg_def split: prod.splits)
  then show ?thesis using assms by (simp add: gm_handle_connect_def gm_on_connect_def gm_conn_start_def timer_stop_def has_timer_def gm_note_def)
qed

theorem center_connection_started_twice_witness:
  "filter (\<lambda>e. e = Conn_Started 1) (gm_effects (gm_handle_connect 1 False (sample_game 7))) = [Conn_Started 1, Conn_Started 1]"
  using center_connection_started_twice [of "sample_game 7" 1] by (simp add: sample_game_def)

text \<open>A service whose \<open>init\<close> fails is started all the same, and the services behind it are started without having been initialised.\<close>

lemma failed_init_is_ignored:
  assumes "has_hook tr (sv_type s) H_Init" "\<not> run_hook tr (sv_ptr s) H_Init ev" "\<forall>x\<in>set (s # map snd rest). has_hook tr (sv_type x) H_Start"
    "\<forall>x ev. run_hook tr x H_Start ev"
  shows "server_init_start tr ((t, s) # rest) ev = ev @ Called (sv_ptr s) H_Init # map (\<lambda>x. Called (sv_ptr x) H_Start) (s # map snd rest)"
proof -
  have "all_of (hook_bool tr H_Start) xs e = (True, e @ map (\<lambda>x. Called (sv_ptr x) H_Start) xs)"
    if "\<forall>x\<in>set xs. has_hook tr (sv_type x) H_Start" for xs e
    using that assms(4) by (induction xs arbitrary: e) (auto simp: hook_bool_def)
  from this [OF assms(3)] show ?thesis using assms(1,2)
    by (simp add: server_init_start_def init_service_def start_service_def hook_bool_def)
qed

end
