(* ===== verification/Strings.thy ===== *)
theory Strings
  imports Prelude
begin

text \<open>
  The string helpers of \<open>src/network/util/string.hpp\<close> (\<open>string_util\<close>): splitting at a piece of text, joining,
  cutting at a mark, and the replacement of marked names (\<open>extend\<close>, \<open>extend_all\<close>, \<open>extend_any\<close>), which
  the XML reader uses for \<open>$(name)\<close>. \<open>std::string\<close> is a list of characters; \<open>npos\<close> is \<open>None\<close>. The
  algorithms of Boost (\<open>boost::split\<close>, \<open>boost::trim_copy\<close>) are parameters, except \<open>find_first\<close> and \<open>find_last\<close>,
  which are only used for an ordinary search. The two loops that replace names need not end; they are written
  as such, and it is shown that they end when the closing mark is not empty.
\<close>

section \<open>Model\<close>

subsection \<open>Searching in std::string\<close>

fun search :: "string \<Rightarrow> string \<Rightarrow> nat option" where
  "search pat [] = (if pat = [] then Some 0 else None)"
| "search pat (c # s) = (if take (length pat) (c # s) = pat then Some 0 else map_option Suc (search pat s))"

definition str_find :: "string \<Rightarrow> string \<Rightarrow> nat \<Rightarrow> nat option" where
  "str_find s pat pos = (if pos \<le> length s then map_option (\<lambda>i. pos + i) (search pat (drop pos s)) else None)"

fun search_last :: "string \<Rightarrow> string \<Rightarrow> nat option" where
  "search_last pat [] = (if pat = [] then Some 0 else None)"
| "search_last pat (c # s) =
     (case search_last pat s of Some i \<Rightarrow> Some (Suc i)
      | None \<Rightarrow> if take (length pat) (c # s) = pat then Some 0 else None)"

definition str_replace :: "string \<Rightarrow> nat \<Rightarrow> nat \<Rightarrow> string \<Rightarrow> string" where
  "str_replace s pos n r = take pos s @ r @ drop (pos + n) s"

subsection \<open>Splitting, joining, cutting\<close>

type_synonym split_fn = "string \<Rightarrow> string \<Rightarrow> string list"

fun split_to_map :: "split_fn \<Rightarrow> string \<Rightarrow> (string \<rightharpoonup> string)" where
  "split_to_map split input =
     foldl (\<lambda>m str. case split str ''='' of [k, v] \<Rightarrow> m(k \<mapsto> v) | _ \<Rightarrow> m) Map.empty (split input '';|'')"

definition split_by_string :: "string \<Rightarrow> string \<Rightarrow> (string \<times> string) option" where
  "split_by_string str split_field =
     (case str_find str split_field 0 of
        Some pos \<Rightarrow> Some (take pos str, drop (pos + length split_field) str)
      | None \<Rightarrow> None)"

fun split_by_strings :: "string \<Rightarrow> string list \<Rightarrow> (string \<times> string) option" where
  "split_by_strings str [] = None"
| "split_by_strings str (s # splits) =
     (case split_by_string str s of Some r \<Rightarrow> Some r | None \<Rightarrow> split_by_strings str splits)"

fun join_parts :: "char \<Rightarrow> string \<Rightarrow> string list \<Rightarrow> string" where
  "join_parts j p1 [] = p1"
| "join_parts j p1 (p2 # args) =
     (if (p1 \<noteq> [] \<and> last p1 = j) \<or> (p2 \<noteq> [] \<and> hd p2 = j) then join_parts j (p1 @ p2) args
      else join_parts j (p1 @ [j] @ p2) args)"

fun join_loop :: "char \<Rightarrow> string list \<Rightarrow> string" where
  "join_loop j [] = []"
| "join_loop j (s # ss) = s @ (if ss \<noteq> [] then [j] else []) @ join_loop j ss"

definition trim_first :: "string \<Rightarrow> string \<Rightarrow> string" where
  "trim_first str first_str =
     (if first_str = [] then str else case search first_str str of Some i \<Rightarrow> take i str | None \<Rightarrow> str)"

definition trim_last :: "string \<Rightarrow> string \<Rightarrow> string" where
  "trim_last str last_str =
     (if last_str = [] then str else case search_last last_str str of Some i \<Rightarrow> take i str | None \<Rightarrow> str)"

definition contains_chars :: "string \<Rightarrow> string \<Rightarrow> bool" where
  "contains_chars str chars \<longleftrightarrow> list_ex (\<lambda>c. str_find chars [c] 0 \<noteq> None) str"

definition contains :: "string \<Rightarrow> string \<Rightarrow> bool" where
  "contains str other \<longleftrightarrow> str_find str other 0 \<noteq> None"

definition is_empty_or_white_spate :: "(string \<Rightarrow> string) \<Rightarrow> string \<Rightarrow> bool" where
  "is_empty_or_white_spate trim str \<longleftrightarrow> str = [] \<or> trim str = []"

subsection \<open>Replacing marked names\<close>

type_synonym extend_func = "string \<Rightarrow> string option"

text \<open>The result, the string, and the offset at which the next search starts. The length of the name is computed
  in \<open>size_t\<close>, where the closing mark may lie inside the opening one.\<close>

definition internal_extend :: "string \<Rightarrow> nat \<Rightarrow> string \<Rightarrow> string \<Rightarrow> extend_func \<Rightarrow> bool \<times> string \<times> nat option" where
  "internal_extend str offset begin_extend end_extend extend_func =
     (case str_find str begin_extend offset of
        None \<Rightarrow> (False, str, None)
      | Some pos \<Rightarrow>
          (case str_find str end_extend pos of
             None \<Rightarrow> (False, str, None)
           | Some end_pos \<Rightarrow>
               (let b = pos + length begin_extend;
                    str_val = take (nat ((int end_pos - int b) mod 2 ^ 64)) (drop b str)
                in case extend_func str_val of
                     None \<Rightarrow> (False, str, Some (end_pos + length end_extend))
                   | Some str_prop \<Rightarrow>
                       (True, str_replace str pos (end_pos - pos + length end_extend) str_prop,
                        Some (pos + length str_prop)))))"

partial_function (option) extend_all_loop ::
  "string \<Rightarrow> nat \<Rightarrow> int \<Rightarrow> string \<Rightarrow> string \<Rightarrow> extend_func \<Rightarrow> (bool \<times> string) option" where
  "extend_all_loop str offset count b e f =
     (case internal_extend str offset b e f of (result, str', off) \<Rightarrow>
        (case off of
           Some offset' \<Rightarrow>
             if result then extend_all_loop str' offset' (count + 1) b e f
             else Some (False, str')
         | None \<Rightarrow> Some (count > 0 \<and> (if count > 0 \<and> \<not> result then True else result), str')))"

definition extend_all :: "string \<Rightarrow> string \<Rightarrow> string \<Rightarrow> extend_func \<Rightarrow> (bool \<times> string) option" where
  "extend_all str b e f = extend_all_loop str 0 0 b e f"

partial_function (option) extend_any_loop ::
  "string \<Rightarrow> nat \<Rightarrow> int \<Rightarrow> string \<Rightarrow> string \<Rightarrow> extend_func \<Rightarrow> (bool \<times> string) option" where
  "extend_any_loop str offset count b e f =
     (case internal_extend str offset b e f of (result, str', off) \<Rightarrow>
        (case off of
           Some offset' \<Rightarrow> extend_any_loop str' offset' (if result then count + 1 else count) b e f
         | None \<Rightarrow> Some (count > 0, str')))"

definition extend_any :: "string \<Rightarrow> string \<Rightarrow> string \<Rightarrow> extend_func \<Rightarrow> (bool \<times> string) option" where
  "extend_any str b e f = extend_any_loop str 0 0 b e f"

definition extend :: "string \<Rightarrow> string \<Rightarrow> string \<Rightarrow> extend_func \<Rightarrow> bool \<times> string" where
  "extend str b e f = (case internal_extend str 0 b e f of (result, str', _) \<Rightarrow> (result, str'))"

section \<open>The search\<close>

text \<open>\<open>search\<close> finds the first occurrence.\<close>

lemma search_Some:
  "search pat s = Some i \<Longrightarrow> i + length pat \<le> length s \<and> take (length pat) (drop i s) = pat"
proof (induction pat s arbitrary: i rule: search.induct)
  case (2 pat c s)
  show ?case
  proof (cases "take (length pat) (c # s) = pat")
    case True
    then have "i = 0" using 2(2) by simp
    moreover have "length pat \<le> length (c # s)" using True by (metis length_take min.absorb_iff2)
    ultimately show ?thesis using True by simp
  next
    case False
    then show ?thesis using 2 by auto
  qed
qed (auto split: if_splits)

lemma search_first:
  "search pat s = Some i \<Longrightarrow> j < i \<Longrightarrow> take (length pat) (drop j s) \<noteq> pat"
proof (induction pat s arbitrary: i j rule: search.induct)
  case (2 pat c s)
  then show ?case by (cases j) (auto split: if_splits)
qed (auto split: if_splits)

lemma search_None:
  "search pat s = None \<Longrightarrow> take (length pat) (drop j s) \<noteq> pat"
proof (induction pat s arbitrary: j rule: search.induct)
  case (2 pat c s)
  then show ?case by (cases j) (auto split: if_splits)
qed (auto split: if_splits)

text \<open>A text without the first character of the pattern is skipped.\<close>

lemma search_skip:
  assumes "p \<notin> set t"
  shows "search (p # ps) (t @ p # ps @ s) = Some (length t)"
  using assms by (induction t) auto

lemma search_absent:
  assumes "p \<notin> set t"
  shows "search (p # ps) t = None"
  using assms by (induction t) auto

lemma str_find_bounds:
  assumes "str_find s pat pos = Some i"
  shows "pos \<le> i" "i + length pat \<le> length s" "take (length pat) (drop i s) = pat"
  using assms search_Some [of pat "drop pos s"]
  by (auto simp: str_find_def add.commute split: if_splits)

lemma str_find_skip:
  assumes "p \<notin> set t"
  shows "str_find (u @ t @ p # ps @ s) (p # ps) (length u) = Some (length u + length t)"
  using search_skip [OF assms] by (simp add: str_find_def)

lemma str_find_absent:
  assumes "p \<notin> set t"
  shows "str_find (u @ t) (p # ps) (length u) = None"
  using search_absent [OF assms] by (simp add: str_find_def)

section \<open>Splitting at a text\<close>

text \<open>What is split off is what surrounds the first occurrence, and nothing is split off only where there is none.\<close>

lemma split_by_string_parts:
  assumes "split_by_string str fld = Some (a, b)"
  shows "str = a @ fld @ b"
proof -
  obtain pos where pos: "str_find str fld 0 = Some pos" "a = take pos str" "b = drop (pos + length fld) str"
    using assms by (auto simp: split_by_string_def split: option.splits)
  have "drop pos str = fld @ drop (length fld) (drop pos str)"
    using str_find_bounds(3) [OF pos(1)] append_take_drop_id [of "length fld" "drop pos str"] by simp
  then show ?thesis using pos(2,3) append_take_drop_id [of pos str] by (simp add: add.commute)
qed

lemma split_by_string_none:
  "split_by_string str fld = None \<longleftrightarrow> (\<forall>a b. str \<noteq> a @ fld @ b)"
proof
  assume *: "split_by_string str fld = None"
  show "\<forall>a b. str \<noteq> a @ fld @ b"
  proof (intro allI notI)
    fix a b assume "str = a @ fld @ b"
    then have "take (length fld) (drop (length a) str) = fld" by simp
    moreover have "search fld str = None" using * by (auto simp: split_by_string_def str_find_def split: option.splits)
    ultimately show False using search_None by blast
  qed
next
  assume "\<forall>a b. str \<noteq> a @ fld @ b"
  then show "split_by_string str fld = None"
    using split_by_string_parts [of str fld] by (cases "split_by_string str fld") force+
qed

lemma split_by_string_first:
  assumes "p \<notin> set a"
  shows "split_by_string (a @ (p # ps) @ b) (p # ps) = Some (a, b)"
  using str_find_skip [OF assms, of "[]" ps b] by (simp add: split_by_string_def)

text \<open>Splitting at a set of characters, runs of them taken as one, as the calls of \<open>boost::split\<close> ask for.\<close>

function split_compress :: "string \<Rightarrow> string \<Rightarrow> string list" where
  "split_compress [] seps = [[]]"
| "split_compress (c # s) seps =
     (if c \<in> set seps then [] # split_compress (dropWhile (\<lambda>x. x \<in> set seps) s) seps
      else (case split_compress s seps of w # ws \<Rightarrow> (c # w) # ws | [] \<Rightarrow> [[c]]))"
  by pat_completeness auto
termination split_compress
  by (relation "measure (\<lambda>(s, seps). length s)") (auto simp: le_imp_less_Suc length_dropWhile_le)

text \<open>A value that contains the character of the assignment is dropped from the map without a word.\<close>

lemma split_to_map_drops_value:
  "split_to_map split_compress ''user=me;pwd=a=b;host=h'' = [''user'' \<mapsto> ''me'', ''host'' \<mapsto> ''h'']"
  by simp

section \<open>Replacing marked names\<close>

lemma internal_extend_progress:
  assumes "internal_extend str off b e f = (r, str', Some off')" and "e \<noteq> []"
  shows "length str' - off' < length str - off"
proof -
  obtain pos end_pos where
    pos: "str_find str b off = Some pos" and fin: "str_find str e pos = Some end_pos"
    using assms(1) by (auto simp: internal_extend_def split: option.splits)
  note B = str_find_bounds(1,2) [OF pos] str_find_bounds(1,2) [OF fin]
  have lt: "length str - (end_pos + length e) < length str - off"
  proof (rule diff_less_mono2)
    have "0 < length e" using assms(2) by simp
    then show "off < end_pos + length e" "off < length str" using B by linarith+
  qed
  show ?thesis
  proof (cases r)
    case False
    then have "str' = str \<and> off' = end_pos + length e"
      using assms(1) pos fin by (auto simp: internal_extend_def Let_def split: option.splits)
    then show ?thesis using lt by simp
  next
    case True
    then obtain v where "str' = str_replace str pos (end_pos - pos + length e) v" "off' = pos + length v"
      using assms(1) pos fin by (auto simp: internal_extend_def Let_def split: option.splits)
    then have "length str' - off' = length str - (end_pos + length e)" using B by (simp add: str_replace_def)
    then show ?thesis using lt by simp
  qed
qed

text \<open>The loop of \<open>extend_all\<close> ends on every string, whatever the function gives for a name, also a text that
  contains the marks again: with a closing mark that is not empty, what is left behind the offset becomes shorter.\<close>

theorem extend_all_returns:
  assumes "e \<noteq> []"
  shows "\<exists>r. extend_all str b e f = Some r"
proof -
  have "\<exists>r. extend_all_loop str off count b e f = Some r" for str off count
  proof (induction "length str - off" arbitrary: str off count rule: less_induct)
    case less
    obtain r str' o' where i: "internal_extend str off b e f = (r, str', o')" by (cases "internal_extend str off b e f") auto
    show ?case
    proof (cases o')
      case None
      then show ?thesis using i by (subst extend_all_loop.simps) simp
    next
      case (Some off')
      then have "\<exists>x. extend_all_loop str' off' (count + 1) b e f = Some x"
        using less internal_extend_progress [OF i [unfolded Some] assms] by blast
      then show ?thesis using i Some by (subst extend_all_loop.simps) (cases r; auto)
    qed
  qed
  then show ?thesis by (simp add: extend_all_def)
qed

theorem extend_all_returns_witness:
  "(\<exists>r. extend_all ''$(a)'' ''$('' '')'' (\<lambda>n. Some ''$(a)'') = Some r)"
  using extend_all_returns [of "'')''" "''$(a)''" "''$(''" "\<lambda>n. Some ''$(a)''"] by simp

lemma extend_any_returns:
  assumes "e \<noteq> []"
  shows "\<exists>r. extend_any str b e f = Some r"
proof -
  have "\<exists>r. extend_any_loop str off count b e f = Some r" for str off count
  proof (induction "length str - off" arbitrary: str off count rule: less_induct)
    case less
    obtain r str' o' where i: "internal_extend str off b e f = (r, str', o')" by (cases "internal_extend str off b e f") auto
    show ?case
    proof (cases o')
      case None
      then show ?thesis using i by (subst extend_any_loop.simps) simp
    next
      case (Some off')
      then have "\<exists>x. extend_any_loop str' off' (if r then count + 1 else count) b e f = Some x"
        using less internal_extend_progress [OF i [unfolded Some] assms] by blast
      then show ?thesis using i Some by (subst extend_any_loop.simps) simp
    qed
  qed
  then show ?thesis by (simp add: extend_any_def flip: not_Some_eq)
qed

text \<open>With an empty closing mark a name that is refused is found again and again: the call does not return.\<close>

lemma extend_any_diverges: "extend_any ''x'' ''x'' [] (\<lambda>n. None) = None"
proof -
  have step: "internal_extend ''x'' 0 ''x'' [] (\<lambda>n. None) = (False, ''x'', Some 0)"
    by (simp add: internal_extend_def str_find_def)
  have "(str, off, b, e, f) \<noteq> (''x'', 0, ''x'', [], (\<lambda>n. None))"
    if "extend_any_loop str off count b e f = Some y" for str off count b e f y
    using that
  proof (rule extend_any_loop.raw_induct
      [where P = "\<lambda>str off count b e f y. (str, off, b, e, f) \<noteq> (''x'', 0, ''x'', [], (\<lambda>n. None))", rotated], intro notI)
    fix g :: "string \<Rightarrow> nat \<Rightarrow> int \<Rightarrow> string \<Rightarrow> string \<Rightarrow> extend_func \<Rightarrow> (bool \<times> string) option"
      and str off count b e f y
    assume hyp: "\<And>str off count b e f y. g str off count b e f = Some y \<Longrightarrow>
        (str, off, b, e, f) \<noteq> (''x'', 0, ''x'', [], (\<lambda>n. None))"
      and body: "(case internal_extend str off b e f of (result, str', off) \<Rightarrow>
        (case off of
           Some offset' \<Rightarrow> g str' offset' (if result then count + 1 else count) b e f
         | None \<Rightarrow> Some (count > 0, str'))) = Some y"
      and eq: "(str, off, b, e, f) = (''x'', 0, ''x'', [], (\<lambda>n. None))"
    have "g ''x'' 0 count ''x'' [] (\<lambda>n. None) = Some y" using body eq step by simp
    from hyp [OF this] show False by simp
  qed
  then have "extend_any_loop ''x'' 0 0 ''x'' [] (\<lambda>n. None) \<noteq> Some y" for y by blast
  then show ?thesis by (simp add: extend_any_def flip: not_Some_eq)
qed

text \<open>One round on a text whose name is known.\<close>

lemma internal_extend_step:
  assumes t: "p \<notin> set t" and n: "q \<notin> set n" and m: "q \<notin> set (p # ps)"
    and small: "length n < 2 ^ 64"
  shows "internal_extend (u @ t @ (p # ps) @ n @ (q # qs) @ rest) (length u) (p # ps) (q # qs) f =
    (case f n of
       Some v \<Rightarrow> (True, u @ t @ v @ rest, Some (length (u @ t @ v)))
     | None \<Rightarrow> (False, u @ t @ (p # ps) @ n @ (q # qs) @ rest, Some (length (u @ t @ (p # ps) @ n @ (q # qs)))))"
proof -
  let ?s = "u @ t @ (p # ps) @ n @ (q # qs) @ rest"
  have 1: "str_find ?s (p # ps) (length u) = Some (length u + length t)"
    using str_find_skip [OF t, of u ps "n @ (q # qs) @ rest"] by simp
  have "q \<notin> set ((p # ps) @ n)" using n m by auto
  then have 2: "str_find ?s (q # qs) (length u + length t) = Some (length u + length t + Suc (length ps) + length n)"
    using str_find_skip [of q "(p # ps) @ n" "u @ t" qs rest] by (simp add: add.assoc)
  have 3: "take (nat ((int (length u + length t + Suc (length ps) + length n) - int (length u + length t + length (p # ps))) mod 2 ^ 64))
      (drop (length u + length t + length (p # ps)) ?s) = n"
  proof -
    have "int (length n) mod 2 ^ 64 = int (length n)" using small by (simp add: zmod_trivial_iff)
    then show ?thesis by simp
  qed
  show ?thesis
    unfolding internal_extend_def Let_def using 1 2 3
    by (simp add: str_replace_def split: option.split)
qed

text \<open>A string with marked names: each entry is the text before the opening mark and the name between the marks.\<close>

definition marked :: "string \<Rightarrow> string \<Rightarrow> (string \<times> string) list \<Rightarrow> string" where
  "marked b e items = concat (map (\<lambda>(t, n). t @ b @ n @ e) items)"

definition replaced :: "extend_func \<Rightarrow> (string \<times> string) list \<Rightarrow> string" where
  "replaced f items = concat (map (\<lambda>(t, n). t @ the (f n)) items)"

lemma extend_all_loop_marked:
  assumes "\<And>t n. (t, n) \<in> set items \<Longrightarrow> p \<notin> set t \<and> q \<notin> set n \<and> length n < 2 ^ 64 \<and> f n \<noteq> None"
    and "q \<notin> set (p # ps)" and "p \<notin> set rest" and "0 \<le> count"
  shows "extend_all_loop (u @ marked (p # ps) (q # qs) items @ rest) (length u) count (p # ps) (q # qs) f =
    Some (0 < count + int (length items), u @ replaced f items @ rest)"
  using assms
proof (induction items arbitrary: u count)
  case Nil
  have "internal_extend (u @ rest) (length u) (p # ps) (q # qs) f = (False, u @ rest, None)"
    using str_find_absent [OF Nil(3), of u ps] by (simp add: internal_extend_def)
  then show ?case by (subst extend_all_loop.simps) (simp add: marked_def replaced_def)
next
  case (Cons a items)
  obtain t n where a: "a = (t, n)" by (cases a)
  obtain v where v: "f n = Some v" and tn: "p \<notin> set t" "q \<notin> set n" "length n < 2 ^ 64"
    using Cons.prems(1) [of t n] a by auto
  let ?rest = "marked (p # ps) (q # qs) items @ rest"
  have str: "u @ marked (p # ps) (q # qs) (a # items) @ rest = u @ t @ (p # ps) @ n @ (q # qs) @ ?rest"
    by (simp add: marked_def a)
  have step: "internal_extend (u @ t @ (p # ps) @ n @ (q # qs) @ ?rest) (length u) (p # ps) (q # qs) f =
      (True, (u @ t @ v) @ ?rest, Some (length (u @ t @ v)))"
    using internal_extend_step [OF tn(1,2) Cons.prems(2) tn(3), of u qs ?rest f] v by simp
  have "extend_all_loop ((u @ t @ v) @ ?rest) (length (u @ t @ v)) (count + 1) (p # ps) (q # qs) f =
      Some (0 < count + 1 + int (length items), (u @ t @ v) @ replaced f items @ rest)"
    using Cons.prems by (intro Cons.IH) auto
  then show ?case
    unfolding str using step v by (subst extend_all_loop.simps) (simp add: replaced_def a ac_simps)
qed

text \<open>\<open>extend_all\<close> replaces every marked name by the text the function has for it and leaves the rest as it is,
  where the text between the names does not contain the first character of the opening mark, and neither the opening
  mark nor the names contain the first character of the closing one; it returns true exactly when there was a name.\<close>

theorem extend_all_replaces:
  assumes "\<And>t n. (t, n) \<in> set items \<Longrightarrow> p \<notin> set t \<and> q \<notin> set n \<and> length n < 2 ^ 64 \<and> f n \<noteq> None"
    and "q \<notin> set (p # ps)" and "p \<notin> set rest"
  shows "extend_all (marked (p # ps) (q # qs) items @ rest) (p # ps) (q # qs) f =
    Some (items \<noteq> [], replaced f items @ rest)"
  using extend_all_loop_marked [where u = "[]" and count = 0 and items = items and qs = qs, OF assms]
  by (simp add: extend_all_def)

theorem extend_all_replaces_witness:
  "extend_all (marked ''$('' '')'' [(''http://'', ''host''), ('':'', ''port'')] @ ''/x'') ''$('' '')''
     (\<lambda>n. Some (if n = ''host'' then ''a$(b'' else ''80'')) = Some (True, ''http://a$(b:80/x'')"
proof -
  have *: "\<And>t n. (t, n) \<in> set [(''http://'', ''host''), ('':'', ''port'')] \<Longrightarrow> CHR ''$'' \<notin> set t \<and> CHR '')'' \<notin> set n \<and>
      length n < 2 ^ 64 \<and> Some (if n = ''host'' then ''a$(b'' else ''80'') \<noteq> None" by auto
  show ?thesis
    using extend_all_replaces [where items = "[(''http://'', ''host''), ('':'', ''port'')]" and ps = "''(''" and qs = "[]"
        and rest = "''/x''", OF *] by (simp add: replaced_def)
qed

text \<open>A name without a closing mark is left without being reported once a name before it has been replaced.\<close>

lemma unclosed_name_accepted:
  "extend_all ''$(a)$(b'' ''$('' '')'' (\<lambda>n. Some n) = Some (True, ''a$(b'')"
  "extend_all ''$(b'' ''$('' '')'' (\<lambda>n. Some n) = Some (False, ''$(b'')"
proof -
  have 1: "internal_extend ''$(a)$(b'' 0 ''$('' '')'' (\<lambda>n. Some n) = (True, ''a$(b'', Some 1)"
    and 2: "internal_extend ''a$(b'' 1 ''$('' '')'' (\<lambda>n. Some n) = (False, ''a$(b'', None)"
    and 3: "internal_extend ''$(b'' 0 ''$('' '')'' (\<lambda>n. Some n) = (False, ''$(b'', None)" by code_simp+
  show "extend_all ''$(a)$(b'' ''$('' '')'' (\<lambda>n. Some n) = Some (True, ''a$(b'')"
    unfolding extend_all_def using 1 2 by (subst extend_all_loop.simps, simp, subst extend_all_loop.simps, simp)
  show "extend_all ''$(b'' ''$('' '')'' (\<lambda>n. Some n) = Some (False, ''$(b'')"
    unfolding extend_all_def using 3 by (subst extend_all_loop.simps) simp
qed

end
