(* ===== verification/Wildcard.thy ===== *)
theory Wildcard
  imports Prelude
begin

text \<open>
  Wildcard matching of names, the private part of \<open>src/network/util/string.hpp\<close>: the search for a
  piece of a pattern (\<open>finding_string\<close>, Knuth-Morris-Pratt with \<open>?\<close> as a joker), the matcher itself
  (\<open>matching_string\<close>), and matching against several patterns (\<open>multi_matching\<close>). A C string is the
  list of its characters before the terminator, and reading at the end gives the terminator. The
  loops are written as in the source; that they end is proved. In the case-sensitive branch the loop
  \<open>*(tmp_src + i) = *(source + i++)\<close> that copies the source string evaluates its right side first, as C++17 says,
  so it writes each character one place too far: the first one is never set and the terminator goes behind the
  end of the block. That is undefined behaviour for every source, and the result is \<open>None\<close>, as for a loop that does not end.
  \<open>glob\<close> is the reference: \<open>*\<close> stands for any characters and \<open>?\<close> for exactly one.
\<close>

section \<open>Model\<close>

definition NUL :: char where "NUL = CHR 0x00"
definition STAR :: char where "STAR = CHR 0x2A"
definition JOKER :: char where "JOKER = CHR 0x3F"

definition ch :: "string \<Rightarrow> nat \<Rightarrow> char" where
  "ch s i = (if i < length s then s ! i else NUL)"

subsection \<open>Searching\<close>

partial_function (option) next_loop :: "string \<Rightarrow> nat \<Rightarrow> nat \<Rightarrow> int \<Rightarrow> int list \<Rightarrow> int list option" where
  "next_loop f n j k nxt =
     (if j < n then
        if k = -1 \<or> ch f (nat k) = JOKER \<or> ch f j = ch f (nat k)
        then next_loop f n (j + 1) (k + 1) (nxt[j + 1 := k + 1])
        else next_loop f n j (nxt ! nat k) nxt
      else Some nxt)"

partial_function (option) search_loop :: "string \<Rightarrow> string \<Rightarrow> int list \<Rightarrow> nat \<Rightarrow> int \<Rightarrow> (nat \<times> int) option" where
  "search_loop src f nxt i j =
     (if i < length src \<and> j < int (length f) then
        if j = -1 \<or> ch f (nat j) = JOKER \<or> ch src i = ch f (nat j)
        then search_loop src f nxt (i + 1) (j + 1)
        else search_loop src f nxt i (nxt ! nat j)
      else Some (i, j))"

definition finding_string :: "string \<Rightarrow> string \<Rightarrow> nat \<Rightarrow> int option" where
  "finding_string src f start =
     (let m = length src; n = length f
      in if start + n > m then Some (-1)
         else if n = 0 then Some (int start)
         else Option.bind (next_loop f (n - 1) 0 (-1) ((replicate n 0)[0 := -1])) (\<lambda>nxt.
              Option.bind (search_loop src f nxt start 0) (\<lambda>(i, j).
              Some (if j \<ge> int n then int i - int n else -1))))"

subsection \<open>Matching\<close>

definition lower :: "char \<Rightarrow> char" where
  "lower c = (if 65 \<le> (of_char c :: nat) \<and> (of_char c :: nat) \<le> 90 then char_of ((of_char c :: nat) - 65 + 97) else c)"

definition fold_case :: "string \<Rightarrow> string" where
  "fold_case s = map lower s"

text \<open>A run of stars is copied as one.\<close>

function merge_stars :: "string \<Rightarrow> string" where
  "merge_stars [] = []"
| "merge_stars (c # cs) = c # merge_stars (if c = STAR then dropWhile (\<lambda>x. x = STAR) cs else cs)"
  by pat_completeness auto
termination merge_stars
  by (relation "measure length") (auto simp: le_imp_less_Suc length_dropWhile_le)

text \<open>Comparing the end of the pattern with the end of the source, backwards to the star.\<close>

primrec tail_loop :: "string \<Rightarrow> string \<Rightarrow> nat \<Rightarrow> nat \<Rightarrow> bool" where
  "tail_loop mat src 0 t = (ch mat 0 = STAR \<or> ch mat 0 = JOKER \<or> ch mat 0 = ch src t)"
| "tail_loop mat src (Suc sub) t =
     (if ch mat (Suc sub) = STAR then True
      else if ch mat (Suc sub) \<noteq> JOKER \<and> ch mat (Suc sub) \<noteq> ch src t then False
      else tail_loop mat src sub (t - 1))"

partial_function (option) match_loop :: "string \<Rightarrow> string \<Rightarrow> nat \<Rightarrow> nat \<Rightarrow> bool option" where
  "match_loop mat src mo so =
     (if ch mat mo = NUL then Some True
      else if ch mat mo = STAR then
        if ch mat (mo + 1) = NUL then Some True
        else
          (let sub = mo + 1 + length (takeWhile (\<lambda>c. c \<noteq> NUL \<and> c \<noteq> STAR) (drop (mo + 1) mat))
           in if length src - so < sub - mo - 1 then Some False
              else if ch mat sub = NUL then Some (tail_loop mat src (sub - 1) (length src - 1))
              else
                (let len = sub - mo - 1
                 in Option.bind (finding_string (drop so src) (take len (drop (mo + 1) mat)) 0) (\<lambda>pos.
                    if pos \<noteq> -1 then match_loop mat src (mo + len) (so + nat pos + len - 1) else Some False)))
      else if ch mat mo = JOKER then
        if ch src so = NUL then Some False
        else if ch mat (mo + 1) = NUL \<and> ch src (so + 1) \<noteq> NUL then Some False
        else match_loop mat src (mo + 1) (so + 1)
      else
        if ch src so \<noteq> ch mat mo then Some False
        else if ch mat (mo + 1) = NUL \<and> ch src (so + 1) \<noteq> NUL then Some False
        else match_loop mat src (mo + 1) (so + 1))"

definition matching_string :: "string \<Rightarrow> string \<Rightarrow> bool \<Rightarrow> bool option" where
  "matching_string src mat matchcase =
     (if mat = [] then Some (src = [])
      else if matchcase then None
      else match_loop (merge_stars (fold_case mat)) (fold_case src) 0 0)"

definition c_str :: "string \<Rightarrow> string" where
  "c_str s = takeWhile (\<lambda>c. c \<noteq> NUL) s"

definition match :: "string \<Rightarrow> string \<Rightarrow> bool \<Rightarrow> bool option" where
  "match src mat matchcase = matching_string (c_str src) (c_str mat) matchcase"

text \<open>Several patterns: with \<open>match_logic\<close> 0 one of those separated by \<open>split_char\<close> has to match, empty
  ones left out; otherwise all of those separated by a comma.\<close>

fun any_loop :: "string \<Rightarrow> char \<Rightarrow> bool \<Rightarrow> string \<Rightarrow> string \<Rightarrow> bool option" where
  "any_loop src sep matchcase sub [] =
     (if sub \<noteq> [] then matching_string src sub matchcase else Some False)"
| "any_loop src sep matchcase sub (c # cs) =
     (if c \<noteq> sep then any_loop src sep matchcase (sub @ [c]) cs
      else if sub \<noteq> [] then
        Option.bind (matching_string src sub matchcase) (\<lambda>b. if b then Some True else any_loop src sep matchcase [] cs)
      else any_loop src sep matchcase [] cs)"

fun all_loop :: "string \<Rightarrow> bool \<Rightarrow> string \<Rightarrow> string \<Rightarrow> bool option" where
  "all_loop src matchcase sub [] = matching_string src sub matchcase"
| "all_loop src matchcase sub (c # cs) =
     (if c \<noteq> CHR 0x2C then all_loop src matchcase (sub @ [c]) cs
      else Option.bind (matching_string src sub matchcase) (\<lambda>b. if b then all_loop src matchcase [] cs else Some False))"

definition multi_matching :: "string \<Rightarrow> string \<Rightarrow> int \<Rightarrow> bool \<Rightarrow> bool \<Rightarrow> char \<Rightarrow> bool option" where
  "multi_matching src mat match_logic ret_reversed matchcase split_char =
     map_option (\<lambda>b. if ret_reversed then \<not> b else b)
       (if match_logic = 0 then any_loop src split_char matchcase [] mat else all_loop src matchcase [] mat)"

section \<open>The reference\<close>

fun glob :: "string \<Rightarrow> string \<Rightarrow> bool" where
  "glob [] s = (s = [])"
| "glob (c # p) [] = (c = STAR \<and> glob p [])"
| "glob (c # p) (x # s) =
     (if c = STAR then glob p (x # s) \<or> glob (c # p) s else (c = JOKER \<or> c = x) \<and> glob p s)"

section \<open>The search\<close>

text \<open>A pattern character accepts a character, or a pattern character that accepts no more than it.\<close>

definition accepts :: "char \<Rightarrow> char \<Rightarrow> bool" where
  "accepts a b \<longleftrightarrow> a = JOKER \<or> b = a"

lemma accepts_trans: "accepts a b \<Longrightarrow> accepts b c \<Longrightarrow> accepts a c"
  by (auto simp: accepts_def)

lemma accepts_plain: "a \<noteq> JOKER \<Longrightarrow> accepts a b \<longleftrightarrow> b = a"
  by (simp add: accepts_def)

lemma plain_nth: "JOKER \<notin> set f \<Longrightarrow> i < length f \<Longrightarrow> f ! i \<noteq> JOKER"
  by (metis nth_mem)

text \<open>The first \<open>k\<close> characters of \<open>f\<close> fit at position \<open>p\<close> of \<open>s\<close>.\<close>

definition fits :: "string \<Rightarrow> nat \<Rightarrow> string \<Rightarrow> nat \<Rightarrow> bool" where
  "fits f k s p \<longleftrightarrow> k \<le> length f \<and> p + k \<le> length s \<and> (\<forall>t < k. accepts (f ! t) (s ! (p + t)))"

lemma fits_0 [simp]: "fits f 0 s p \<longleftrightarrow> p \<le> length s"
  by (simp add: fits_def)

lemma fits_Suc: "fits f (Suc k) s p \<longleftrightarrow> fits f k s p \<and> k < length f \<and> p + k < length s \<and> accepts (f ! k) (s ! (p + k))"
  by (auto simp: fits_def less_Suc_eq)

lemma fitsD: "fits f k s p \<Longrightarrow> t < k \<Longrightarrow> accepts (f ! t) (s ! (p + t))"
  by (simp add: fits_def)

lemma fits_mono: "fits f k s p \<Longrightarrow> k' \<le> k \<Longrightarrow> fits f k' s p"
  by (auto simp: fits_def)

text \<open>A border of length \<open>k\<close> of the first \<open>j\<close> characters, and what the search may conclude from it.\<close>

definition border :: "string \<Rightarrow> nat \<Rightarrow> nat \<Rightarrow> bool" where
  "border f j k \<longleftrightarrow> k < j \<and> fits f k (take j f) (j - k)"

lemma border_add: "border f (d + k) k \<longleftrightarrow> 0 < d \<and> fits f k (take (d + k) f) d"
  by (simp add: border_def)

lemma border_fits:
  assumes "border f j k" "fits f j s p"
  shows "fits f k s (p + (j - k))"
proof -
  obtain d where j: "j = d + k" using assms(1) by (auto simp: border_def dest: less_imp_add_positive)
  have "accepts (f ! t) (s ! (p + d + t))" if "t < k" for t
  proof -
    have "accepts (f ! t) (f ! (d + t))" using assms(1) that by (simp add: j border_add fits_def)
    moreover have "accepts (f ! (d + t)) (s ! (p + (d + t)))" using fitsD [OF assms(2), of "d + t"] that by (simp add: j)
    ultimately show ?thesis using accepts_trans by (simp add: add.assoc)
  qed
  with assms show ?thesis by (auto simp: j border_add fits_def)
qed

lemma fits_border:
  assumes "JOKER \<notin> set f" "fits f j s p" "fits f k s (p + (j - k))" "k < j"
  shows "border f j k"
proof -
  obtain d where j: "j = d + k" "0 < d" using less_imp_add_positive [OF assms(4)] by (metis add.commute)
  have len: "d + k \<le> length f" using assms(2) by (simp add: j fits_def)
  have "accepts (f ! t) (f ! (d + t))" if "t < k" for t
  proof -
    have ne: "f ! t \<noteq> JOKER" "f ! (d + t) \<noteq> JOKER"
      by (rule plain_nth [OF assms(1)]; use that len in simp)+
    have "s ! (p + d + t) = f ! t" using assms(3) that ne(1) by (auto simp: j fits_def accepts_def)
    moreover have "s ! (p + (d + t)) = f ! (d + t)" using fitsD [OF assms(2), of "d + t"] that ne(2) by (simp add: j accepts_def)
    ultimately show ?thesis by (simp add: accepts_def add.assoc)
  qed
  then show ?thesis using j(2) len by (simp add: j(1) border_add fits_def)
qed

lemma border_border:
  assumes "border f j k" "border f k l"
  shows "border f j l"
proof -
  obtain d where j: "j = d + k" "0 < d" using assms(1) by (auto simp: border_def dest: less_imp_add_positive)
  obtain e where k: "k = e + l" "0 < e" using assms(2) by (auto simp: border_def dest: less_imp_add_positive)
  have "fits f k (take j f) d" using assms(1) by (simp add: j border_add)
  from border_fits [OF assms(2) this] show ?thesis using j k by (simp add: border_def add.assoc)
qed

lemma border_Suc:
  assumes "j < length f"
  shows "border f (Suc j) (Suc k) \<longleftrightarrow> border f j k \<and> accepts (f ! k) (f ! j)"
proof (cases "k < j")
  case True
  then have "fits f k (take (Suc j) f) (j - k) \<longleftrightarrow> fits f k (take j f) (j - k)"
    using assms by (auto simp: fits_def nth_take)
  then show ?thesis using True assms by (auto simp: border_def fits_Suc)
qed (auto simp: border_def)

text \<open>What the table says up to position \<open>j\<close>, and what is known when the loop stands at \<open>j\<close> and \<open>k\<close>. Without
  jokers the borders in the table are the longest.\<close>

definition next_ok :: "string \<Rightarrow> nat \<Rightarrow> int list \<Rightarrow> bool" where
  "next_ok f j nxt \<longleftrightarrow> length nxt = length f \<and> nxt ! 0 = -1 \<and>
     (\<forall>q. 0 < q \<and> q \<le> j \<longrightarrow> (\<exists>k. nxt ! q = int k \<and> border f q k \<and>
        (JOKER \<notin> set f \<longrightarrow> (\<forall>l. border f q l \<longrightarrow> l \<le> k))))"

definition next_inv :: "string \<Rightarrow> nat \<Rightarrow> int \<Rightarrow> int list \<Rightarrow> bool" where
  "next_inv f j k nxt \<longleftrightarrow> j < length f \<and> next_ok f j nxt \<and> (k = -1 \<or> 0 \<le> k \<and> border f j (nat k)) \<and>
     (JOKER \<notin> set f \<longrightarrow> (\<forall>l. border f (Suc j) (Suc l) \<longrightarrow> int l \<le> k))"

lemma border_0 [simp]: "border f j 0 \<longleftrightarrow> 0 < j \<and> j \<le> length f"
  by (auto simp: border_def)

lemma next_ok_entry:
  assumes "next_ok f j nxt" "0 < q" "q \<le> j"
  obtains k where "nxt ! q = int k" "border f q k" "JOKER \<notin> set f \<Longrightarrow> border f q l \<Longrightarrow> l \<le> k"
  using assms unfolding next_ok_def by blast

lemma next_ok_extend:
  assumes "next_ok f j nxt" "Suc j < length f" "border f (Suc j) k"
    "JOKER \<notin> set f \<Longrightarrow> (\<And>l. border f (Suc j) l \<Longrightarrow> l \<le> k)"
  shows "next_ok f (Suc j) (nxt[Suc j := int k])"
  using assms unfolding next_ok_def by (auto simp: nth_list_update le_Suc_eq)

lemma next_inv_match:
  assumes inv: "next_inv f j k nxt" and j: "Suc j < length f"
    and m: "k = -1 \<or> ch f (nat k) = JOKER \<or> ch f j = ch f (nat k)"
  shows "next_inv f (Suc j) (k + 1) (nxt[Suc j := k + 1])"
proof -
  have kj: "nat k < length f" if "k \<noteq> -1" using inv that by (auto simp: next_inv_def border_def)
  have b: "border f (Suc j) (nat (k + 1))"
  proof (cases "k = -1")
    case False
    then have "0 \<le> k" "border f j (nat k)" using inv by (auto simp: next_inv_def)
    moreover have "accepts (f ! nat k) (f ! j)" using m False kj j by (auto simp: ch_def accepts_def)
    ultimately show ?thesis using border_Suc [of j f "nat k"] j by (simp add: nat_add_distrib)
  qed (use j in simp)
  have mx: "l \<le> nat (k + 1)" if "JOKER \<notin> set f" "border f (Suc j) l" for l
    using inv that by (cases l) (auto simp: next_inv_def)
  have k0: "0 \<le> k + 1" using inv by (auto simp: next_inv_def)
  then have k1: "k + 1 = int (nat (k + 1))" by simp
  have "next_ok f (Suc j) (nxt[Suc j := k + 1])"
    using next_ok_extend [of f j nxt "nat (k + 1)"] inv j b mx k1 by (simp add: next_inv_def)
  moreover have "int l \<le> k + 1" if "JOKER \<notin> set f" "border f (Suc (Suc j)) (Suc l)" for l
    using mx [OF that(1), of l] border_Suc [OF j, of l] that(2) k0 by auto
  ultimately show ?thesis using j b k1 by (auto simp: next_inv_def)
qed

lemma next_inv_shift:
  assumes inv: "next_inv f j k nxt" and m: "\<not> (k = -1 \<or> ch f (nat k) = JOKER \<or> ch f j = ch f (nat k))"
  shows "next_inv f j (nxt ! nat k) nxt \<and> nxt ! nat k < k \<and> -1 \<le> nxt ! nat k"
proof -
  from m inv have k: "0 \<le> k" "border f j (nat k)" "j < length f" by (auto simp: next_inv_def)
  then have kj: "nat k < j" by (simp add: border_def)
  have no: "\<not> accepts (f ! nat k) (f ! j)" using m kj k(3) by (auto simp: ch_def accepts_def)
  have lt: "l < nat k \<and> border f j l" if "JOKER \<notin> set f" "border f (Suc j) (Suc l)" for l
  proof -
    have "border f j l" "accepts (f ! l) (f ! j)" using that(2) border_Suc [OF k(3)] by auto
    moreover have "int l \<le> k" using inv that by (auto simp: next_inv_def)
    moreover have "l \<noteq> nat k" using no calculation(2) by auto
    ultimately show ?thesis using k(1) by linarith
  qed
  show ?thesis
  proof (cases "nat k")
    case 0
    then show ?thesis using inv k lt by (auto simp: next_inv_def next_ok_def)
  next
    case (Suc k')
    then obtain q where q: "nxt ! nat k = int q" "border f (nat k) q"
      "\<And>l. JOKER \<notin> set f \<Longrightarrow> border f (nat k) l \<Longrightarrow> l \<le> q"
      using inv kj unfolding next_inv_def next_ok_def by (metis less_imp_le zero_less_Suc)
    have "l \<le> q" if n: "JOKER \<notin> set f" and "border f (Suc j) (Suc l)" for l
    proof -
      have l: "l < nat k" "border f j l" using lt [OF that] by auto
      have "fits f (nat k) (take j f) (j - nat k)" "fits f l (take j f) (j - nat k + (nat k - l))"
        using k(2) l kj by (auto simp: border_def)
      from fits_border [OF n this l(1)] show ?thesis by (rule q(3) [OF n])
    qed
    then show ?thesis
      using inv q(1,2) border_border [OF k(2) q(2)] k(1) by (auto simp: next_inv_def border_def)
  qed
qed

lemma next_loop_ok:
  "next_inv f j k nxt \<Longrightarrow> n = length f - 1 \<Longrightarrow> \<exists>nxt'. next_loop f n j k nxt = Some nxt' \<and> next_ok f n nxt'"
proof (induction "nat (2 * (int n - int j) + k + 1)" arbitrary: j k nxt rule: less_induct)
  case less
  have k: "-1 \<le> k" and j: "j \<le> n" using less.prems by (auto simp: next_inv_def)
  show ?case
  proof (cases "j < n")
    case False
    then show ?thesis using less.prems j next_loop.simps [of f n j k nxt] by (auto simp: next_inv_def)
  next
    case True
    show ?thesis
    proof (cases "k = -1 \<or> ch f (nat k) = JOKER \<or> ch f j = ch f (nat k)")
      case m: True
      have "next_inv f (Suc j) (k + 1) (nxt[Suc j := k + 1])"
        using next_inv_match [OF less.prems(1) _ m] True less.prems(2) by simp
      from less.hyps [OF _ this less.prems(2)] True k show ?thesis
        using next_loop.simps [of f n j k nxt] m by simp
    next
      case m: False
      note sh = next_inv_shift [OF less.prems(1) m]
      have "nat (2 * (int n - int j) + nxt ! nat k + 1) < nat (2 * (int n - int j) + k + 1)"
        using sh True by (auto simp: zless_nat_conj)
      from less.hyps [OF this] sh less.prems(2) show ?thesis
        using next_loop.simps [of f n j k nxt] m True by simp
    qed
  qed
qed

text \<open>The search at \<open>i\<close> and \<open>j\<close>: the last \<open>j\<close> characters read fit, and without jokers nothing that starts before them does.\<close>

definition search_inv :: "string \<Rightarrow> string \<Rightarrow> nat \<Rightarrow> nat \<Rightarrow> int \<Rightarrow> bool" where
  "search_inv src f start i j \<longleftrightarrow> -1 \<le> j \<and> j \<le> int (length f) \<and> int start + j \<le> int i \<and> i \<le> length src \<and>
     (0 \<le> j \<longrightarrow> fits f (nat j) src (i - nat j)) \<and>
     (JOKER \<notin> set f \<longrightarrow> (\<forall>p. start \<le> p \<and> int p < int i - j \<longrightarrow> \<not> fits f (length f) src p))"

lemma search_inv_match:
  assumes inv: "search_inv src f start i j" and i: "i < length src" "j < int (length f)"
    and m: "j = -1 \<or> ch f (nat j) = JOKER \<or> ch src i = ch f (nat j)"
  shows "search_inv src f start (Suc i) (j + 1)"
proof (cases "j = -1")
  case True
  then show ?thesis using inv i by (auto simp: search_inv_def)
next
  case False
  then have j: "0 \<le> j" using inv by (simp add: search_inv_def)
  then have "nat j < length f" using i(2) by simp
  then have "accepts (f ! nat j) (src ! i)" using m False i by (auto simp: ch_def accepts_def)
  moreover have "nat j \<le> i" using inv j by (auto simp: search_inv_def)
  ultimately have "fits f (Suc (nat j)) src (i - nat j)" using inv i j by (simp add: fits_Suc search_inv_def)
  then show ?thesis using inv i j by (simp add: search_inv_def nat_add_distrib)
qed

lemma search_inv_shift:
  assumes inv: "search_inv src f start i j" and i: "i < length src" "j < int (length f)"
    and m: "\<not> (j = -1 \<or> ch f (nat j) = JOKER \<or> ch src i = ch f (nat j))"
    and nxt: "next_ok f (length f - 1) nxt"
  shows "search_inv src f start i (nxt ! nat j) \<and> nxt ! nat j < j \<and> -1 \<le> nxt ! nat j"
proof -
  from m inv have j: "0 \<le> j" "int start + j \<le> int i" by (auto simp: search_inv_def)
  define q where "q = nat j"
  have q: "j = int q" "q < length f" "start + q \<le> i" "fits f q src (i - q)" using j i inv by (auto simp: q_def search_inv_def)
  have no: "\<not> accepts (f ! q) (src ! i)" using m i q by (auto simp: ch_def accepts_def)
  have here: "\<not> fits f (length f) src (i - q)"
  proof
    assume "fits f (length f) src (i - q)"
    from fitsD [OF this q(2)] no q(3) show False by simp
  qed
  have old: "\<not> fits f (length f) src p" if "JOKER \<notin> set f" "start \<le> p" "p < i - q" for p
    using inv that q by (auto simp: search_inv_def)
  show ?thesis
  proof (cases q)
    case 0
    then have "\<not> fits f (length f) src p" if "JOKER \<notin> set f" "start \<le> p" "p \<le> i" for p
      using old [OF that(1,2)] here that(3) by (cases "p = i") auto
    then show ?thesis using inv nxt q 0 by (auto simp: search_inv_def next_ok_def)
  next
    case (Suc q')
    then obtain k where k: "nxt ! q = int k" "border f q k" "\<And>l. JOKER \<notin> set f \<Longrightarrow> border f q l \<Longrightarrow> l \<le> k"
      using nxt q(2) unfolding next_ok_def by (metis One_nat_def Suc_leI Suc_le_mono Suc_pred zero_less_Suc less_nat_zero_code not_gr_zero)
    have kq: "k < q" using k(2) by (simp add: border_def)
    have fit: "fits f k src (i - k)"
      using border_fits [OF k(2) q(4)] kq q(3) by (simp add: add_diff_assoc2)
    have "\<not> fits f (length f) src p" if n: "JOKER \<notin> set f" and p: "start \<le> p" "p < i - k" for p
    proof (rule ccontr)
      assume f: "\<not> \<not> fits f (length f) src p"
      then have "\<not> p < i - q" "p \<noteq> i - q" using old [OF n p(1)] here by auto
      then have "i - q < p" by simp
      define l where "l = i - p"
      have l: "k < l" "l < q" "p = i - q + (q - l)" using p \<open>i - q < p\<close> q(3) by (auto simp: l_def)
      have "fits f l src (i - q + (q - l))" using fits_mono [of f "length f" src p l] f l q(2) by auto
      from fits_border [OF n q(4) this l(2)] k(3) [OF n] l(1) show False by fastforce
    qed
    then show ?thesis using inv k(1) kq fit q by (auto simp: search_inv_def)
  qed
qed

lemma search_loop_ok:
  assumes "next_ok f (length f - 1) nxt"
  shows "search_inv src f start i j \<Longrightarrow>
    \<exists>i' j'. search_loop src f nxt i j = Some (i', j') \<and> search_inv src f start i' j' \<and>
      \<not> (i' < length src \<and> j' < int (length f))"
proof (induction "nat (2 * (int (length src) - int i) + j + 1)" arbitrary: i j rule: less_induct)
  case less
  have j: "-1 \<le> j" "i \<le> length src" using less.prems by (auto simp: search_inv_def)
  show ?case
  proof (cases "i < length src \<and> j < int (length f)")
    case False
    then show ?thesis using less.prems search_loop.simps [of src f nxt i j] by auto
  next
    case c: True
    show ?thesis
    proof (cases "j = -1 \<or> ch f (nat j) = JOKER \<or> ch src i = ch f (nat j)")
      case m: True
      have "nat (2 * (int (length src) - int (Suc i)) + (j + 1) + 1) < nat (2 * (int (length src) - int i) + j + 1)"
        using c j by (auto simp: zless_nat_conj)
      from less.hyps [OF this search_inv_match [OF less.prems conjunct1 [OF c] conjunct2 [OF c] m]] show ?thesis
        using search_loop.simps [of src f nxt i j] c m by simp
    next
      case m: False
      have sh: "search_inv src f start i (nxt ! nat j)" "nxt ! nat j < j" "-1 \<le> nxt ! nat j"
        using search_inv_shift [OF less.prems conjunct1 [OF c] conjunct2 [OF c] m assms] by auto
      have "nat (2 * (int (length src) - int i) + nxt ! nat j + 1) < nat (2 * (int (length src) - int i) + j + 1)"
        using sh(2,3) c by (auto simp: zless_nat_conj)
      from less.hyps [OF this sh(1)] show ?thesis
        using search_loop.simps [of src f nxt i j] c m by simp
    qed
  qed
qed

text \<open>The search always ends; what it finds fits, and without jokers it finds the first place that fits.\<close>

lemma finding_string_ok:
  assumes "start \<le> length src"
  shows "\<exists>r. finding_string src f start = Some r \<and>
    (r = -1 \<or> (\<exists>p. r = int p \<and> start \<le> p \<and> fits f (length f) src p)) \<and>
    (JOKER \<notin> set f \<longrightarrow>
       (if r = -1 then (\<forall>p\<ge>start. \<not> fits f (length f) src p)
        else (\<forall>p. start \<le> p \<and> int p < r \<longrightarrow> \<not> fits f (length f) src p)))"
proof -
  consider (long) "start + length f > length src" | (empty) "start + length f \<le> length src" "f = []"
    | (search) "start + length f \<le> length src" "f \<noteq> []" by linarith
  then show ?thesis
  proof cases
    case long
    then show ?thesis by (auto simp: finding_string_def fits_def)
  next
    case empty
    then show ?thesis using assms by (auto simp: finding_string_def)
  next
    case search
    let ?n = "length f - 1"
    have "next_inv f 0 (-1) ((replicate (length f) 0)[0 := -1])"
      using search by (auto simp: next_inv_def next_ok_def border_def)
    then obtain nxt where nxt: "next_loop f ?n 0 (-1) ((replicate (length f) 0)[0 := -1]) = Some nxt" "next_ok f ?n nxt"
      using next_loop_ok by blast
    have "search_inv src f start start 0" using assms by (auto simp: search_inv_def)
    from search_loop_ok [OF nxt(2) this] obtain i j where
      s: "search_loop src f nxt start 0 = Some (i, j)" "search_inv src f start i j"
        "\<not> (i < length src \<and> j < int (length f))" by blast
    have r: "finding_string src f start = Some (if j \<ge> int (length f) then int i - int (length f) else -1)"
      using search nxt(1) s(1) by (simp add: finding_string_def Let_def)
    show ?thesis
    proof (cases "j \<ge> int (length f)")
      case True
      then have j: "j = int (length f)" using s(2) by (simp add: search_inv_def)
      then have i: "start + length f \<le> i" "fits f (length f) src (i - length f)" using s(2) by (auto simp: search_inv_def)
      have "\<exists>p. int i - int (length f) = int p \<and> start \<le> p \<and> fits f (length f) src p"
        using i by (intro exI [of _ "i - length f"]) auto
      moreover have "\<not> fits f (length f) src p" if "JOKER \<notin> set f" "start \<le> p" "int p < int i - int (length f)" for p
        using s(2) that by (auto simp: search_inv_def j)
      ultimately show ?thesis using r True i by auto
    next
      case False
      then have i: "i = length src" "j < int (length f)" using s(2,3) by (auto simp: search_inv_def)
      have "\<not> fits f (length f) src p" if "JOKER \<notin> set f" "start \<le> p" for p
      proof (cases "int p < int i - j")
        case True
        then show ?thesis using s(2) that by (auto simp: search_inv_def)
      next
        case False
        then show ?thesis using i by (auto simp: fits_def)
      qed
      then show ?thesis using r False by auto
    qed
  qed
qed

section \<open>Matching against the reference\<close>

lemma glob_star: "glob (STAR # p) s \<longleftrightarrow> (\<exists>n \<le> length s. glob p (drop n s))"
proof (induction s)
  case (Cons x s)
  have "(\<exists>n \<le> length (x # s). glob p (drop n (x # s))) \<longleftrightarrow> glob p (x # s) \<or> (\<exists>n \<le> length s. glob p (drop n s))"
    by (metis Suc_le_mono drop0 drop_Suc_Cons le0 length_Cons not0_implies_Suc)
  with Cons show ?case by simp
qed simp

lemma glob_star_mono:
  assumes "glob (STAR # p) (drop n s)" "m \<le> n"
  shows "glob (STAR # p) (drop m s)"
proof -
  obtain k where k: "k \<le> length s - n" "glob p (drop (k + n) s)" using assms(1) by (auto simp: glob_star)
  show ?thesis
  proof (cases "n \<le> length s")
    case True
    then show ?thesis unfolding glob_star using k assms(2) by (intro exI [of _ "k + n - m"]) auto
  next
    case False
    then show ?thesis unfolding glob_star using k by (intro exI [of _ "length s - m"]) auto
  qed
qed

lemma glob_plain: "c \<noteq> STAR \<Longrightarrow> glob (c # p) s \<longleftrightarrow> (\<exists>x t. s = x # t \<and> accepts c x \<and> glob p t)"
  by (cases s) (auto simp: accepts_def)

lemma fits_Cons: "fits (c # f) (Suc k) s 0 \<longleftrightarrow> (\<exists>x t. s = x # t \<and> accepts c x \<and> fits f k t 0)"
proof (cases s)
  case (Cons x t)
  have "(\<forall>i < Suc k. accepts ((c # f) ! i) ((x # t) ! i)) \<longleftrightarrow> accepts c x \<and> (\<forall>i < k. accepts (f ! i) (t ! i))"
    by (auto simp: less_Suc_eq_0_disj)
  with Cons show ?thesis by (auto simp: fits_def)
qed (simp add: fits_def)

lemma glob_seg:
  "STAR \<notin> set seg \<Longrightarrow> glob (seg @ p) s \<longleftrightarrow> fits seg (length seg) s 0 \<and> glob p (drop (length seg) s)"
proof (induction seg arbitrary: s)
  case (Cons c seg)
  then have "c \<noteq> STAR" "STAR \<notin> set seg" by auto
  then have "glob ((c # seg) @ p) s \<longleftrightarrow>
      (\<exists>x t. s = x # t \<and> accepts c x \<and> fits seg (length seg) t 0 \<and> glob p (drop (length seg) t))"
    by (simp add: glob_plain Cons.IH)
  then show ?case by (auto simp: fits_Cons)
qed simp

lemma fits_drop: "n \<le> length s \<Longrightarrow> fits f k (drop n s) p \<longleftrightarrow> fits f k s (n + p)"
  by (auto simp: fits_def add.assoc)

lemma glob_star_seg:
  assumes "STAR \<notin> set seg"
  shows "glob (STAR # seg @ p) s \<longleftrightarrow>
    (\<exists>n. fits seg (length seg) s n \<and> glob p (drop (n + length seg) s))"
  unfolding glob_star glob_seg [OF assms]
proof (intro iffI; elim exE conjE)
  fix n
  assume "n \<le> length s" "fits seg (length seg) (drop n s) 0" "glob p (drop (length seg) (drop n s))"
  then show "\<exists>n. fits seg (length seg) s n \<and> glob p (drop (n + length seg) s)"
    by (intro exI [of _ n]) (simp add: fits_drop add.commute)
next
  fix n
  assume f: "fits seg (length seg) s n" "glob p (drop (n + length seg) s)"
  then have "n \<le> length s" by (simp add: fits_def)
  with f show "\<exists>n \<le> length s. fits seg (length seg) (drop n s) 0 \<and> glob p (drop (length seg) (drop n s))"
    by (intro exI [of _ n]) (simp add: fits_drop add.commute)
qed

lemma tail_loop_iff:
  assumes "mo \<le> sub" "sub < length mat" "mat ! mo = STAR" "\<forall>i. mo < i \<and> i \<le> sub \<longrightarrow> mat ! i \<noteq> STAR"
    "t < length src" "sub - mo \<le> t + 1"
  shows "tail_loop mat src sub t \<longleftrightarrow> (\<forall>d < sub - mo. accepts (mat ! (sub - d)) (src ! (t - d)))"
  using assms
proof (induction sub arbitrary: t)
  case 0
  then show ?case by (simp add: ch_def)
next
  case (Suc sub)
  show ?case
  proof (cases "mo = Suc sub")
    case True
    then show ?thesis using Suc.prems by (simp add: ch_def)
  next
    case False
    then have m: "mo \<le> sub" "mat ! Suc sub \<noteq> STAR" using Suc.prems by auto
    have "tail_loop mat src sub (t - 1) \<longleftrightarrow> (\<forall>d < sub - mo. accepts (mat ! (sub - d)) (src ! (t - 1 - d)))"
      using Suc.prems m by (intro Suc.IH) auto
    moreover have "(\<forall>d < Suc sub - mo. accepts (mat ! (Suc sub - d)) (src ! (t - d))) \<longleftrightarrow>
        accepts (mat ! Suc sub) (src ! t) \<and> (\<forall>d < sub - mo. accepts (mat ! (sub - d)) (src ! (t - 1 - d)))"
      using m(1) by (auto simp: Suc_diff_le less_Suc_eq_0_disj)
    ultimately show ?thesis using Suc.prems m by (auto simp: ch_def accepts_def)
  qed
qed

lemma ch_NUL: "NUL \<notin> set s \<Longrightarrow> ch s i = NUL \<longleftrightarrow> length s \<le> i"
  by (auto simp: ch_def) (metis nth_mem)

lemma drop_ch: "i < length s \<Longrightarrow> drop i s = ch s i # drop (Suc i) s"
  by (simp add: ch_def Cons_nth_drop_Suc)

text \<open>The answer a match owes the reference: it ends, it accepts only what the pattern means, and without
  jokers it accepts all of it.\<close>

definition agrees :: "bool option \<Rightarrow> bool \<Rightarrow> bool \<Rightarrow> bool" where
  "agrees r joker g \<longleftrightarrow> (\<exists>b. r = Some b \<and> (b \<longrightarrow> g) \<and> (\<not> joker \<longrightarrow> b = g))"

lemma agrees_Some [simp]: "agrees (Some b) joker g \<longleftrightarrow> (b \<longrightarrow> g) \<and> (\<not> joker \<longrightarrow> b = g)"
  by (simp add: agrees_def)

lemma agrees_same: "b = g \<Longrightarrow> agrees (Some b) joker g"
  by simp

definition merged :: "string \<Rightarrow> bool" where
  "merged p \<longleftrightarrow> (\<forall>i. Suc i < length p \<longrightarrow> p ! i = STAR \<longrightarrow> p ! Suc i \<noteq> STAR)"

text \<open>The end of the pattern after the last star.\<close>

lemma all_less_backwards: "(\<forall>d < n. P (n - Suc d)) \<longleftrightarrow> (\<forall>t < (n::nat). P t)"
proof (intro iffI allI impI)
  fix t
  assume "\<forall>d < n. P (n - Suc d)" "t < n"
  then have "P (n - Suc (n - Suc t))" by (metis diff_less zero_less_Suc gr_implies_not0 not_gr_zero)
  then show "P t" using \<open>t < n\<close> by (simp add: Suc_diff_Suc)
qed simp

lemma tail_loop_glob:
  assumes "drop mo mat = STAR # seg" "STAR \<notin> set seg" "so + length seg \<le> length src" "seg \<noteq> []"
  shows "tail_loop mat src (mo + length seg) (length src - 1) \<longleftrightarrow> glob (STAR # seg) (drop so src)"
proof -
  let ?n = "length seg" and ?e = "length src - length seg"
  have len: "length mat = mo + Suc ?n" using assms(1) by (metis length_Cons length_drop le_add_diff_inverse drop_all list.distinct(1) nat_le_linear)
  have nth: "mat ! (mo + Suc i) = seg ! i" if "i < ?n" for i
    using assms(1) that len by (metis add_diff_cancel_left' drop_Suc_Cons drop_drop leI le_add1 less_imp_le nth_drop add_Suc_shift drop0 length_drop diff_Suc_1 add.commute)
  have "mat ! mo = STAR" using assms(1) len by (metis Cons_nth_drop_Suc less_add_same_cancel1 list.inject zero_less_Suc)
  moreover have "\<forall>i. mo < i \<and> i \<le> mo + ?n \<longrightarrow> mat ! i \<noteq> STAR"
  proof (intro allI impI)
    fix i
    assume "mo < i \<and> i \<le> mo + ?n"
    then obtain j where "i = mo + Suc j" "j < ?n" by (metis add_Suc_right less_imp_Suc_add Suc_le_lessD nat_add_left_cancel_le)
    then show "mat ! i \<noteq> STAR" using nth assms(2) by (metis nth_mem)
  qed
  ultimately have "tail_loop mat src (mo + ?n) (length src - 1) \<longleftrightarrow>
      (\<forall>d < ?n. accepts (mat ! (mo + ?n - d)) (src ! (length src - 1 - d)))"
    using tail_loop_iff [of mo "mo + ?n" mat "length src - 1" src] len assms(3,4) by (auto simp: length_greater_0_conv [symmetric] simp del: length_greater_0_conv)
  also have "\<dots> \<longleftrightarrow> (\<forall>d < ?n. accepts (seg ! (?n - Suc d)) (src ! (?e + (?n - Suc d))))"
  proof (intro all_cong)
    fix d
    assume d: "d < ?n"
    then have "mo + ?n - d = mo + Suc (?n - Suc d)" "length src - 1 - d = ?e + (?n - Suc d)" using assms(3) by auto
    then show "accepts (mat ! (mo + ?n - d)) (src ! (length src - 1 - d)) \<longleftrightarrow>
        accepts (seg ! (?n - Suc d)) (src ! (?e + (?n - Suc d)))" using nth [of "?n - Suc d"] d by simp
  qed
  also have "\<dots> \<longleftrightarrow> (\<forall>t < ?n. accepts (seg ! t) (src ! (?e + t)))" by (rule all_less_backwards)
  also have "\<dots> \<longleftrightarrow> fits seg ?n src ?e" using assms(3) by (simp add: fits_def)
  also have "\<dots> \<longleftrightarrow> (\<exists>n. fits seg ?n (drop so src) n \<and> glob [] (drop (n + ?n) (drop so src)))"
  proof
    assume "fits seg ?n src ?e"
    then show "\<exists>n. fits seg ?n (drop so src) n \<and> glob [] (drop (n + ?n) (drop so src))"
      using assms(3) by (intro exI [of _ "?e - so"]) (simp add: fits_drop)
  next
    assume "\<exists>n. fits seg ?n (drop so src) n \<and> glob [] (drop (n + ?n) (drop so src))"
    then obtain n where "fits seg ?n src (so + n)" "length src \<le> so + (n + ?n)" using assms(3) by (auto simp: fits_drop add.commute)
    moreover from this have "so + n = ?e" by (auto simp: fits_def)
    ultimately show "fits seg ?n src ?e" by simp
  qed
  also have "\<dots> \<longleftrightarrow> glob (STAR # seg) (drop so src)" using glob_star_seg [OF assms(2), of "[]" "drop so src"] by (simp only: append_Nil2)
  finally show ?thesis .
qed

text \<open>A piece between two stars: after the first place where it fits, the rest of the pattern starts with a star again.\<close>

lemma glob_star_piece:
  assumes "STAR \<notin> set seg" "seg \<noteq> []" "fits seg (length seg) s p"
  shows "glob (last seg # STAR # q) (drop (p + length seg - 1) s) \<Longrightarrow> glob (STAR # seg @ STAR # q) s"
    and "(\<And>n. n < p \<Longrightarrow> \<not> fits seg (length seg) s n) \<Longrightarrow> glob (STAR # seg @ STAR # q) s \<Longrightarrow>
      glob (last seg # STAR # q) (drop (p + length seg - 1) s)"
proof -
  let ?n = "length seg"
  have st: "last seg \<noteq> STAR" using assms(1,2) by (metis last_in_set)
  have "p + ?n - 1 < length s" using assms(2,3) by (cases seg) (auto simp: fits_def)
  then have d: "drop (p + ?n - 1) s = s ! (p + ?n - 1) # drop (p + ?n) s"
    using assms(2) by (metis Cons_nth_drop_Suc Suc_pred' add_gr_0 length_greater_0_conv diff_Suc_1)
  have "accepts (seg ! (?n - 1)) (s ! (p + (?n - 1)))" using fitsD [OF assms(3), of "?n - 1"] assms(2) by (simp add: Suc_leI)
  then have acc: "accepts (last seg) (s ! (p + ?n - 1))" using assms(2) by (simp add: last_conv_nth Suc_leI)
  have eq: "glob (last seg # STAR # q) (drop (p + ?n - 1) s) \<longleftrightarrow> glob (STAR # q) (drop (p + ?n) s)"
    unfolding d glob_plain [OF st] using acc by auto
  show "glob (STAR # seg @ STAR # q) s" if "glob (last seg # STAR # q) (drop (p + ?n - 1) s)"
    using that assms(3) unfolding eq glob_star_seg [OF assms(1)] by blast
  show "glob (last seg # STAR # q) (drop (p + ?n - 1) s)"
    if first: "\<And>n. n < p \<Longrightarrow> \<not> fits seg ?n s n" and g: "glob (STAR # seg @ STAR # q) s"
  proof -
    obtain n where n: "fits seg ?n s n" "glob (STAR # q) (drop (n + ?n) s)"
      using g unfolding glob_star_seg [OF assms(1)] by blast
    then have "p \<le> n" using first leI by blast
    then show ?thesis unfolding eq by (intro glob_star_mono [OF n(2)]) simp
  qed
qed

lemma pattern_split:
  assumes "NUL \<notin> set mat" "mo < length mat" "ch mat mo = STAR"
  obtains seg rest where "drop mo mat = STAR # seg @ rest" "STAR \<notin> set seg"
    "takeWhile (\<lambda>c. c \<noteq> NUL \<and> c \<noteq> STAR) (drop (mo + 1) mat) = seg" "rest = [] \<or> hd rest = STAR"
proof -
  let ?P = "\<lambda>c. c \<noteq> NUL \<and> c \<noteq> STAR"
  let ?r = "dropWhile ?P (drop (mo + 1) mat)"
  have "\<not> ?P (hd ?r)" if "?r \<noteq> []" using that by (rule hd_dropWhile)
  moreover have "hd ?r \<noteq> NUL" if "?r \<noteq> []"
    using that assms(1) by (metis hd_in_set in_set_dropD set_dropWhileD)
  ultimately have "?r = [] \<or> hd ?r = STAR" by blast
  moreover have "STAR \<notin> set (takeWhile ?P (drop (mo + 1) mat))" using set_takeWhileD by fastforce
  ultimately show ?thesis using that [of "takeWhile ?P (drop (mo + 1) mat)" ?r] drop_ch [OF assms(2)] assms(3) by simp
qed

lemma mergedD: "merged p \<Longrightarrow> drop i p = STAR # t \<Longrightarrow> t \<noteq> [] \<Longrightarrow> hd t \<noteq> STAR"
proof -
  assume m: "merged p" and d: "drop i p = STAR # t" and t: "t \<noteq> []"
  have len: "i + Suc (length t) = length p" using d by (metis length_Cons length_drop drop_all le_add_diff_inverse list.distinct(1) nat_le_linear)
  have "p ! i = STAR" "p ! Suc i = hd t" using d t len
    by (metis Cons_nth_drop_Suc less_add_same_cancel1 list.inject zero_less_Suc, metis add_Suc_shift d drop_Suc hd_drop_conv_nth length_greater_0_conv less_add_same_cancel1 list.sel(3) tl_drop t)
  moreover have "Suc i < length p" using len t by (cases t) auto
  ultimately show ?thesis using m unfolding merged_def by metis
qed

lemma match_loop_piece:
  assumes nul: "NUL \<notin> set mat" and d: "drop mo mat = STAR # seg @ STAR # q" "takeWhile (\<lambda>c. c \<noteq> NUL \<and> c \<noteq> STAR) (drop (mo + 1) mat) = seg"
    and len: "length mat = mo + Suc (length seg + Suc (length q))"
    and seg: "seg \<noteq> []" "STAR \<notin> set seg" "so + length seg \<le> length src"
    and star: "STAR \<noteq> NUL" "ch mat mo \<noteq> NUL" "ch mat mo = STAR"
    and IH: "\<And>mo' so'. mo < mo' \<Longrightarrow> mo' < length mat \<Longrightarrow> so' \<le> length src \<Longrightarrow>
      agrees (match_loop mat src mo' so') (JOKER \<in> set mat) (glob (drop mo' mat) (drop so' src))"
  shows "agrees (match_loop mat src mo so) (JOKER \<in> set mat) (glob (drop mo mat) (drop so src))"
proof -
  let ?n = "length seg" and ?s = "drop so src"
  note loop = match_loop.simps [of mat src mo so]
  have ch: "ch mat (mo + 1) \<noteq> NUL" "ch mat (mo + 1 + ?n) \<noteq> NUL" using len ch_NUL [OF nul] seg(1) by (cases seg; auto)+
  have seg_eq: "take ?n (drop (mo + 1) mat) = seg"
    using arg_cong [OF d(1), of "drop 1"] by (simp add: add.commute)
  have rest: "drop (mo + ?n) mat = last seg # STAR # q"
  proof -
    have "drop (mo + ?n) mat = drop ?n (STAR # seg @ STAR # q)" using d(1) by (metis add.commute drop_drop)
    also have "\<dots> = drop (?n - 1) (seg @ STAR # q)" using seg(1) by (cases ?n) auto
    also have "\<dots> = last seg # STAR # q" using seg(1) by (cases seg rule: rev_cases) auto
    finally show ?thesis .
  qed
  have jok: "JOKER \<notin> set mat \<Longrightarrow> JOKER \<notin> set seg" using seg_eq by (metis in_set_dropD in_set_takeD)
  obtain r where r: "finding_string ?s seg 0 = Some r" "r = -1 \<or> (\<exists>p. r = int p \<and> fits seg ?n ?s p)"
    "JOKER \<notin> set mat \<Longrightarrow> r = -1 \<Longrightarrow> (\<forall>p. \<not> fits seg ?n ?s p)"
    "JOKER \<notin> set mat \<Longrightarrow> r \<noteq> -1 \<Longrightarrow> (\<forall>p. int p < r \<longrightarrow> \<not> fits seg ?n ?s p)"
    using finding_string_ok [of 0 ?s seg] jok by (auto split: if_splits)
  have "\<not> length src - so < ?n" using seg(3) by simp
  then have step: "match_loop mat src mo so =
      (if r \<noteq> -1 then match_loop mat src (mo + ?n) (so + nat r + ?n - 1) else Some False)"
    unfolding loop using star seg ch d(2) seg_eq r(1) by (simp add: Let_def)
  show ?thesis
  proof (cases "r = -1")
    case True
    then show ?thesis unfolding step using r(3) d(1) seg(2) by (simp add: glob_star_seg)
  next
    case False
    then obtain p where p: "r = int p" "fits seg ?n ?s p" using r(2) by blast
    have bound: "so + p + ?n \<le> length src" using p(2) seg(3) by (auto simp: fits_def)
    have n: "0 < ?n" using seg(1) by simp
    have "agrees (match_loop mat src (mo + ?n) (so + p + ?n - 1)) (JOKER \<in> set mat)
        (glob (drop (mo + ?n) mat) (drop (so + p + ?n - 1) src))"
      using bound n len by (intro IH) auto
    moreover have "drop (so + p + ?n - 1) src = drop (p + ?n - 1) ?s" using n by (cases ?n) (simp_all add: ac_simps)
    ultimately have ag: "agrees (match_loop mat src mo so) (JOKER \<in> set mat) (glob (last seg # STAR # q) (drop (p + ?n - 1) ?s))"
      unfolding step rest using False p(1) by simp
    note gp = glob_star_piece [OF seg(2,1) p(2)]
    have "JOKER \<notin> set mat \<Longrightarrow> glob (STAR # seg @ STAR # q) ?s \<Longrightarrow> glob (last seg # STAR # q) (drop (p + ?n - 1) ?s)"
      using gp(2) r(4) False p(1) by simp
    then show ?thesis using ag gp(1) d(1) by (auto simp: agrees_def)
  qed
qed

lemma match_loop_star:
  assumes "merged mat" "NUL \<notin> set mat" "NUL \<notin> set src" "mo < length mat" "so \<le> length src" "ch mat mo = STAR"
    and IH: "\<And>mo' so'. mo < mo' \<Longrightarrow> mo' < length mat \<Longrightarrow> so' \<le> length src \<Longrightarrow>
      agrees (match_loop mat src mo' so') (JOKER \<in> set mat) (glob (drop mo' mat) (drop so' src))"
  shows "agrees (match_loop mat src mo so) (JOKER \<in> set mat) (glob (drop mo mat) (drop so src))"
proof -
  obtain seg rest where d: "drop mo mat = STAR # seg @ rest" "STAR \<notin> set seg"
    "takeWhile (\<lambda>c. c \<noteq> NUL \<and> c \<noteq> STAR) (drop (mo + 1) mat) = seg" "rest = [] \<or> hd rest = STAR"
    using pattern_split [OF assms(2,4,6)] .
  have len: "length mat = mo + Suc (length seg + length rest)"
    using arg_cong [OF d(1), of length] assms(4) by simp
  have seg: "seg = [] \<Longrightarrow> rest = []" using mergedD [OF assms(1) d(1)] d(4) by auto
  have star: "STAR \<noteq> NUL" "ch mat mo \<noteq> NUL" using assms(6) by (auto simp: STAR_def NUL_def)
  let ?n = "length seg" and ?s = "drop so src"
  note loop = match_loop.simps [of mat src mo so]
  consider (last) "seg = []" | (short) "seg \<noteq> []" "length src < so + ?n" | (tail) "seg \<noteq> []" "so + ?n \<le> length src" "rest = []"
    | (piece) "seg \<noteq> []" "so + ?n \<le> length src" "rest \<noteq> []" by linarith
  then show ?thesis
  proof cases
    case last
    then have "ch mat (mo + 1) = NUL" using seg len by (simp add: ch_def)
    moreover have "glob (drop mo mat) ?s" using d(1) last seg by (auto simp: glob_star intro: exI [of _ "length src - so"])
    ultimately show ?thesis unfolding loop using star assms(6) by simp
  next
    case short
    then have "ch mat (mo + 1) \<noteq> NUL" using len ch_NUL [OF assms(2)] by (cases seg) auto
    moreover have "\<not> glob (drop mo mat) ?s"
      unfolding d(1) glob_star_seg [OF d(2)] using short by (cases seg) (auto simp: fits_def)
    moreover have "length src - so < ?n" using short assms(5) by simp
    ultimately show ?thesis unfolding loop using star assms(6) d(3) by (simp add: Let_def)
  next
    case tail
    then have "ch mat (mo + 1) \<noteq> NUL" "ch mat (mo + 1 + ?n) = NUL" using len ch_NUL [OF assms(2)] by (cases seg; auto)+
    moreover have "tail_loop mat src (mo + ?n) (length src - 1) \<longleftrightarrow> glob (drop mo mat) ?s"
      using tail_loop_glob [of mo mat seg so src] d(1,2) tail by simp
    moreover have "\<not> length src - so < ?n" using tail by simp
    ultimately show ?thesis unfolding loop using star assms(6) d(3) by (simp add: Let_def)
  next
    case piece
    then obtain q where q: "rest = STAR # q" using d(4) by (cases rest) auto
    show ?thesis
      by (rule match_loop_piece [OF assms(2) _ d(3) _ piece(1) d(2) piece(2) star assms(6) IH]) (use d(1) len q in simp_all)
  qed
qed

lemma match_loop_glob:
  assumes "merged mat" "NUL \<notin> set mat" "NUL \<notin> set src"
  shows "mo \<le> length mat \<Longrightarrow> so \<le> length src \<Longrightarrow> (mo = length mat \<Longrightarrow> so = length src) \<Longrightarrow>
    agrees (match_loop mat src mo so) (JOKER \<in> set mat) (glob (drop mo mat) (drop so src))"
proof (induction "length mat - mo" arbitrary: mo so rule: less_induct)
  case less
  note nul = ch_NUL [OF assms(2)] ch_NUL [OF assms(3)]
  show ?case
  proof (cases "mo < length mat")
    case False
    then show ?thesis using less.prems nul match_loop.simps [of mat src mo so] by simp
  next
    case mo: True
    show ?thesis
    proof (cases "ch mat mo = STAR")
      case True
      show ?thesis by (rule match_loop_star [OF assms mo less.prems(2) True], rule less.hyps) auto
    next
      case False
      let ?c = "ch mat mo"
      let ?stop = "ch mat (mo + 1) = NUL \<and> ch src (so + 1) \<noteq> NUL"
      have g: "glob (drop mo mat) (drop so src) \<longleftrightarrow>
          so < length src \<and> accepts ?c (ch src so) \<and> glob (drop (mo + 1) mat) (drop (so + 1) src)"
        unfolding drop_ch [OF mo] glob_plain [OF False] using drop_ch [of so src] by (cases "so < length src") auto
      have c: "?c \<noteq> NUL" "ch src so = NUL \<longleftrightarrow> \<not> so < length src" using mo nul by auto
      have "match_loop mat src mo so =
          (if \<not> (so < length src \<and> accepts ?c (ch src so)) \<or> ?stop then Some False else match_loop mat src (mo + 1) (so + 1))"
        unfolding match_loop.simps [of mat src mo so] using False c by (auto simp: accepts_def JOKER_def NUL_def)
      moreover have "\<not> glob (drop (mo + 1) mat) (drop (so + 1) src)" if ?stop using that nul mo by simp
      moreover have "agrees (match_loop mat src (mo + 1) (so + 1)) (JOKER \<in> set mat) (glob (drop (mo + 1) mat) (drop (so + 1) src))"
        if "so < length src" "\<not> ?stop" using that mo nul by (intro less.hyps) auto
      ultimately show ?thesis using g by auto
    qed
  qed
qed

text \<open>Folding the case and merging stars keep the meaning.\<close>

lemma glob_star_star: "glob (STAR # STAR # p) s \<longleftrightarrow> glob (STAR # p) s"
  using glob_star_mono [of p _ s 0] by (auto simp: glob_star [of "STAR # p"])

lemma glob_dropWhile: "glob (STAR # dropWhile (\<lambda>x. x = STAR) p) s \<longleftrightarrow> glob (STAR # p) s"
  by (induction p) (auto simp: glob_star_star)

lemma glob_Cons_cong: "(\<And>s. glob p s \<longleftrightarrow> glob q s) \<Longrightarrow> glob (c # p) s \<longleftrightarrow> glob (c # q) s"
  by (induction s) auto

lemma glob_merge_stars: "glob (merge_stars p) s \<longleftrightarrow> glob p s"
proof (induction p arbitrary: s rule: merge_stars.induct)
  case (2 c cs)
  then show ?case
    using glob_Cons_cong [of "merge_stars (dropWhile (\<lambda>x. x = STAR) cs)" "dropWhile (\<lambda>x. x = STAR) cs" c s]
      glob_Cons_cong [of "merge_stars cs" cs c s] glob_dropWhile by auto
qed simp

lemma merge_stars_eq_Nil [simp]: "merge_stars p = [] \<longleftrightarrow> p = []"
  by (cases p) auto

lemma set_merge_stars: "set (merge_stars p) \<subseteq> set p"
  by (induction p rule: merge_stars.induct) (auto dest!: subsetD set_dropWhileD split: if_splits)

lemma hd_merge_stars: "p \<noteq> [] \<Longrightarrow> hd (merge_stars p) = hd p"
  by (cases p) auto

lemma merged_Cons: "merged (c # p) \<longleftrightarrow> merged p \<and> (c = STAR \<longrightarrow> p \<noteq> [] \<longrightarrow> hd p \<noteq> STAR)"
  unfolding merged_def by (auto simp: hd_conv_nth nth_Cons split: nat.splits)

lemma merged_merge_stars: "merged (merge_stars p)"
proof (induction p rule: merge_stars.induct)
  case (2 c cs)
  then show ?case using hd_dropWhile [of "\<lambda>x. x = STAR" cs] by (auto simp: merged_Cons hd_merge_stars)
qed (simp add: merged_def)

lemma joker_merge_stars: "JOKER \<in> set (merge_stars p) \<longleftrightarrow> JOKER \<in> set p"
proof (induction p rule: merge_stars.induct)
  case (2 c cs)
  have "JOKER \<in> set (dropWhile (\<lambda>x. x = STAR) cs) \<longleftrightarrow> JOKER \<in> set cs"
    by (induction cs) (auto simp: JOKER_def STAR_def)
  with 2 show ?case by auto
qed simp

lemma lower_upper: "65 \<le> (of_char c :: nat) \<Longrightarrow> (of_char c :: nat) \<le> 90 \<Longrightarrow> 97 \<le> (of_char (lower c) :: nat)"
  by (simp add: lower_def)

lemma lower_special: "lower c = NUL \<longleftrightarrow> c = NUL" "lower c = JOKER \<longleftrightarrow> c = JOKER"
proof (atomize (full), cases "65 \<le> (of_char c :: nat) \<and> (of_char c :: nat) \<le> 90")
  case True
  then have "97 \<le> (of_char (lower c) :: nat)" by (simp add: lower_upper)
  then have "lower c \<noteq> NUL" "lower c \<noteq> JOKER" by (auto simp: NUL_def JOKER_def)
  with True show "(lower c = NUL \<longleftrightarrow> c = NUL) \<and> (lower c = JOKER \<longleftrightarrow> c = JOKER)" by (auto simp: NUL_def JOKER_def)
qed (auto simp: lower_def)

lemma fold_case_special: "NUL \<in> set (fold_case s) \<longleftrightarrow> NUL \<in> set s" "JOKER \<in> set (fold_case s) \<longleftrightarrow> JOKER \<in> set s"
  by (auto simp: fold_case_def lower_special image_iff) (metis lower_special)+

lemma matching_string_glob:
  assumes "NUL \<notin> set src" "NUL \<notin> set mat"
  shows "agrees (matching_string src mat False) (JOKER \<in> set mat) (glob (fold_case mat) (fold_case src))"
proof (cases "mat = []")
  case True
  then show ?thesis by (simp add: matching_string_def fold_case_def)
next
  case False
  let ?p = "fold_case mat" and ?s = "fold_case src"
  have "NUL \<notin> set (merge_stars ?p)" "NUL \<notin> set ?s" using assms set_merge_stars [of ?p] by (auto simp: fold_case_special)
  moreover have "merge_stars ?p \<noteq> []" using False by (simp add: fold_case_def)
  ultimately have "agrees (match_loop (merge_stars ?p) ?s 0 0) (JOKER \<in> set (merge_stars ?p)) (glob (merge_stars ?p) ?s)"
    using match_loop_glob [OF merged_merge_stars, of ?p ?s 0 0] by simp
  then show ?thesis using False by (simp add: matching_string_def joker_merge_stars fold_case_special glob_merge_stars)
qed

lemma c_str_NUL: "NUL \<notin> set (c_str s)"
  unfolding c_str_def using set_takeWhileD by fastforce

text \<open>(C21) Matching a name against a wildcard pattern without regard to case, which is the default, always ends, for every
  two strings. It answers true only when the pattern, read up to its terminator, means the name (\<open>*\<close> for any
  characters, \<open>?\<close> for one, letters compared without case), and for a pattern without \<open>?\<close> it answers true
  whenever it does.\<close>

theorem match_is_glob:
  "\<exists>b. match src mat False = Some b \<and>
     (b \<longrightarrow> glob (fold_case (c_str mat)) (fold_case (c_str src))) \<and>
     (JOKER \<notin> set (c_str mat) \<longrightarrow> b = glob (fold_case (c_str mat)) (fold_case (c_str src)))"
  using matching_string_glob [OF c_str_NUL c_str_NUL, of src mat] unfolding agrees_def match_def .

theorem match_is_glob_witness:
  "match ''Report-2024.TXT'' ''rep*-*.txt'' False = Some True \<and> match ''Report-2024.TXT'' ''rep*-*.log'' False = Some False"
  using match_is_glob [of "''Report-2024.TXT''" "''rep*-*.txt''"] match_is_glob [of "''Report-2024.TXT''" "''rep*-*.log''"]
  by (auto simp: c_str_def fold_case_def lower_def NUL_def JOKER_def STAR_def char_of_def bit_0)

text \<open>With regard to case the behaviour of the match is undefined, whatever the name and the pattern, unless the pattern is empty.\<close>

lemma case_sensitive_match_undefined: "c_str mat \<noteq> [] \<Longrightarrow> match src mat True = None"
  by (simp add: match_def matching_string_def)

declare next_loop.simps [code] search_loop.simps [code] match_loop.simps [code]

text \<open>With jokers a match can be missed: the table of the search takes a joker for any character of the pattern
  but not any character of the pattern for a joker.\<close>

lemma match_misses_joker: "match ''aaba'' ''*a?a*'' False = Some False \<and> glob ''*a?a*'' ''aaba''"
  by code_simp

section \<open>Several patterns\<close>

fun pieces :: "char \<Rightarrow> string \<Rightarrow> string \<Rightarrow> string list" where
  "pieces sep sub [] = [sub]"
| "pieces sep sub (c # cs) = (if c \<noteq> sep then pieces sep (sub @ [c]) cs else sub # pieces sep [] cs)"

lemma agrees_any:
  "agrees r j g \<Longrightarrow> agrees r' j g' \<Longrightarrow> agrees (Option.bind r (\<lambda>b. if b then Some True else r')) j (g \<or> g')"
  "agrees r j g \<Longrightarrow> agrees r' j g' \<Longrightarrow> agrees (Option.bind r (\<lambda>b. if b then r' else Some False)) j (g \<and> g')"
  by (auto simp: agrees_def split: if_splits)

lemma any_loop_glob:
  assumes "NUL \<notin> set src"
  shows "NUL \<notin> set sub \<Longrightarrow> NUL \<notin> set mat \<Longrightarrow> (JOKER \<in> set (sub @ mat) \<longrightarrow> j) \<Longrightarrow>
    agrees (any_loop src sep False sub mat) j
      (\<exists>p \<in> set (pieces sep sub mat). p \<noteq> [] \<and> glob (fold_case p) (fold_case src))"
proof (induction mat arbitrary: sub)
  case Nil
  then show ?case using matching_string_glob [OF assms, of sub] by (auto simp: agrees_def)
next
  case (Cons c mat)
  show ?case
  proof (cases "c = sep \<and> sub \<noteq> []")
    case False
    then show ?thesis using Cons.IH [of "sub @ [c]"] Cons.IH [of "[]"] Cons.prems by auto
  next
    case True
    have "agrees (matching_string src sub False) j (glob (fold_case sub) (fold_case src))"
      using matching_string_glob [OF assms, of sub] Cons.prems by (auto simp: agrees_def)
    moreover have "agrees (any_loop src sep False [] mat) j
        (\<exists>p \<in> set (pieces sep [] mat). p \<noteq> [] \<and> glob (fold_case p) (fold_case src))"
      using Cons.IH [of "[]"] Cons.prems by auto
    ultimately show ?thesis using agrees_any(1) True by simp
  qed
qed

lemma all_loop_glob:
  assumes "NUL \<notin> set src"
  shows "NUL \<notin> set sub \<Longrightarrow> NUL \<notin> set mat \<Longrightarrow> (JOKER \<in> set (sub @ mat) \<longrightarrow> j) \<Longrightarrow>
    agrees (all_loop src False sub mat) j (\<forall>p \<in> set (pieces CHR 0x2C sub mat). glob (fold_case p) (fold_case src))"
proof (induction mat arbitrary: sub)
  case Nil
  then show ?case using matching_string_glob [OF assms, of sub] by (auto simp: agrees_def)
next
  case (Cons c mat)
  have "agrees (matching_string src sub False) j (glob (fold_case sub) (fold_case src))"
    using matching_string_glob [OF assms, of sub] Cons.prems by (auto simp: agrees_def)
  from agrees_any(2) [OF this Cons.IH [of "[]"]] show ?case using Cons.IH [of "sub @ [c]"] Cons.prems by auto
qed

text \<open>Matching against a list of patterns without \<open>?\<close>, without regard to case, always ends with the answer the list means: one
  of the non-empty pieces between the separators matches, or, for the other logic, all the pieces between
  commas do; the reversed answer is its negation.\<close>

theorem multi_match_is_any_or_all:
  assumes "NUL \<notin> set src" "NUL \<notin> set mat" "JOKER \<notin> set mat"
  shows "multi_matching src mat logic reversed False sep = Some (reversed \<noteq>
    (if logic = 0 then \<exists>p \<in> set (pieces sep [] mat). p \<noteq> [] \<and> glob (fold_case p) (fold_case src)
     else \<forall>p \<in> set (pieces CHR 0x2C [] mat). glob (fold_case p) (fold_case src)))"
  using any_loop_glob [OF assms(1), of "[]" mat False sep] all_loop_glob [OF assms(1), of "[]" mat False] assms
  by (auto simp: multi_matching_def agrees_def)

theorem multi_match_is_any_or_all_witness:
  "multi_matching ''main.cpp'' ''*.h *.cpp'' 0 False False CHR 0x20 = Some True"
  using multi_match_is_any_or_all [of "''main.cpp''" "''*.h *.cpp''" 0 False "CHR 0x20"]
  by (auto simp: fold_case_def lower_def NUL_def JOKER_def STAR_def char_of_def bit_0)

end
