(* ===== verification/Paths.thy ===== *)
theory Paths
  imports Strings Wildcard "HOL-Library.Char_ord" "HOL-Library.List_Lexorder"
begin

text \<open>
  Path patterns, \<open>src/network/util/path.hpp\<close> (\<open>path_util\<close>): listing the files and directories below a directory, and
  collecting the paths that match a pattern with \<open>*\<close>, \<open>?\<close> and \<open>**\<close>. A directory is the list of its entries in the
  order in which the iterator of Boost visits them, each with the path string it reports; \<open>bfs::relative\<close> and
  \<open>boost::split\<close> are parameters. The matcher is a loop with a stack of the places of the stars, which need not end; \<open>None\<close> is a
  call that does not return or whose behaviour is undefined, as a match with regard to case is. Indexing an empty vector is the error \<open>bad_index\<close>.
\<close>

section \<open>Model\<close>

datatype path_error = bad_index

type_synonym 'a outcome = "(path_error + 'a) option"

fun obind :: "'a outcome \<Rightarrow> ('a \<Rightarrow> 'b outcome) \<Rightarrow> 'b outcome" where
  "obind None f = None"
| "obind (Some (Inl e)) f = Some (Inl e)"
| "obind (Some (Inr x)) f = f x"

datatype fs_node = regular | directory "(string \<times> fs_node) list" | other

subsection \<open>Listing\<close>

fun get_files :: "bool \<Rightarrow> int \<Rightarrow> (string \<times> fs_node) list \<Rightarrow> string list" where
  "get_files include_sub_dir sub_dir_depth [] = []"
| "get_files include_sub_dir sub_dir_depth ((cur_path, directory es) # rest) =
     (if include_sub_dir \<and> sub_dir_depth > 0 then get_files include_sub_dir (sub_dir_depth - 1) es else [])
     @ get_files include_sub_dir sub_dir_depth rest"
| "get_files include_sub_dir sub_dir_depth ((cur_path, regular) # rest) =
     cur_path # get_files include_sub_dir sub_dir_depth rest"
| "get_files include_sub_dir sub_dir_depth ((cur_path, other) # rest) =
     get_files include_sub_dir sub_dir_depth rest"

fun get_dirs :: "bool \<Rightarrow> int \<Rightarrow> (string \<times> fs_node) list \<Rightarrow> string list" where
  "get_dirs include_sub_dir sub_dir_depth [] = []"
| "get_dirs include_sub_dir sub_dir_depth ((cur_path, directory es) # rest) =
     cur_path # (if include_sub_dir \<and> sub_dir_depth > 0 then get_dirs include_sub_dir (sub_dir_depth - 1) es else [])
     @ get_dirs include_sub_dir sub_dir_depth rest"
| "get_dirs include_sub_dir sub_dir_depth ((cur_path, regular) # rest) =
     get_dirs include_sub_dir sub_dir_depth rest"
| "get_dirs include_sub_dir sub_dir_depth ((cur_path, other) # rest) =
     get_dirs include_sub_dir sub_dir_depth rest"

text \<open>The overloads that return a vector call the others without the depth, which is then the default -1.\<close>

definition get_files_of :: "bool \<Rightarrow> int \<Rightarrow> (string \<times> fs_node) list \<Rightarrow> string list" where
  "get_files_of include_sub_dir sub_dir_depth es = get_files include_sub_dir (-1) es"

definition get_dirs_of :: "bool \<Rightarrow> int \<Rightarrow> (string \<times> fs_node) list \<Rightarrow> string list" where
  "get_dirs_of include_sub_dir sub_dir_depth es = get_dirs include_sub_dir (-1) es"

subsection \<open>Matching\<close>

partial_function (option) match_path_loop ::
  "string list \<Rightarrow> string list \<Rightarrow> bool \<Rightarrow> bool \<Rightarrow> nat \<Rightarrow> nat \<Rightarrow> bool \<Rightarrow> (nat \<times> nat) list \<Rightarrow> bool outcome" where
  "match_path_loop sp sg is_dir ignore_case path_index glob_index is_match globs =
     (if path_index < length sp \<or> glob_index < length sg then
        if (path_index \<ge> length sp \<or> glob_index \<ge> length sg) \<and> ((is_dir \<and> globs \<noteq> []) \<or> \<not> is_match)
        then Some (Inr is_match)
        else if sp = [] \<or> sg = [] then Some (Inl bad_index)
        else
          (let pi = (if path_index \<ge> length sp then length sp - 1 else path_index);
               gi = (if glob_index \<ge> length sg then length sg - 1 else glob_index);
               p = sp ! pi; g = sg ! gi
           in if p = ''.'' \<or> g = ''.'' then
                match_path_loop sp sg is_dir ignore_case
                  (if p = ''.'' then pi + 1 else pi) (if g = ''.'' then gi + 1 else gi) True globs
              else if g = ''**'' then
                (case globs of
                   [] \<Rightarrow> match_path_loop sp sg is_dir ignore_case (pi + 1) (gi + 1) True [(pi, gi)]
                 | (qi, hi) # gs \<Rightarrow>
                     if hi + 1 = gi
                     then match_path_loop sp sg is_dir ignore_case pi (gi + 1) True ((qi, gi) # gs)
                     else match_path_loop sp sg is_dir ignore_case (pi + 1) (gi + 1) True ((pi, gi) # globs))
              else Option.bind (if p = g then Some True else match p g (\<not> ignore_case)) (\<lambda>m.
                if m then match_path_loop sp sg is_dir ignore_case (pi + 1) (gi + 1) True globs
                else (case globs of
                   (qi, hi) # gs \<Rightarrow> match_path_loop sp sg is_dir ignore_case (qi + 1) hi False gs
                 | [] \<Rightarrow> Some (Inr False))))
      else Some (Inr is_match))"

definition match_path :: "split_fn \<Rightarrow> string \<Rightarrow> string \<Rightarrow> bool \<Rightarrow> bool \<Rightarrow> bool outcome" where
  "match_path split path_str glob_str is_dir ignore_case =
     (if glob_str = [] \<and> path_str \<noteq> [] then Some (Inr False)
      else if path_str = [] \<and> glob_str \<noteq> [] then Some (Inr False)
      else if glob_str = path_str then Some (Inr True)
      else
        (let sp = split path_str [CHR 0x5C, CHR 0x2F]; sg = split glob_str [CHR 0x5C, CHR 0x2F]
         in if sp = [] \<and> sg \<noteq> [] then Some (Inr False)
            else if sp = [] \<and> sg = [] then Some (Inr True)
            else match_path_loop sp sg is_dir ignore_case 0 0 True []))"

subsection \<open>Collecting\<close>

fun internal_glob_paths ::
  "split_fn \<Rightarrow> (string \<Rightarrow> string) \<Rightarrow> string list \<Rightarrow> (string \<times> fs_node) list \<Rightarrow> string \<Rightarrow> bool \<Rightarrow> string list outcome" where
  "internal_glob_paths split rel paths [] pattern incl = Some (Inr paths)"
| "internal_glob_paths split rel paths ((cur_path, regular) # rest) pattern incl =
     obind (match_path split (rel cur_path) pattern False True) (\<lambda>m.
       internal_glob_paths split rel (if m then paths @ [cur_path] else paths) rest pattern incl)"
| "internal_glob_paths split rel paths ((cur_path, directory es) # rest) pattern incl =
     obind (match_path split (rel cur_path) pattern True True) (\<lambda>m.
       if m then obind (internal_glob_paths split rel (if incl then paths @ [cur_path] else paths) es pattern incl)
                  (\<lambda>paths'. internal_glob_paths split rel paths' rest pattern incl)
       else internal_glob_paths split rel paths rest pattern incl)"
| "internal_glob_paths split rel paths ((cur_path, other) # rest) pattern incl =
     internal_glob_paths split rel paths rest pattern incl"

definition glob_paths :: "split_fn \<Rightarrow> (string \<Rightarrow> string) \<Rightarrow> (string \<times> fs_node) list \<Rightarrow> string \<Rightarrow> bool \<Rightarrow> string list outcome" where
  "glob_paths split rel dir pattern incl =
     obind (internal_glob_paths split rel [] dir pattern incl) (\<lambda>paths. Some (Inr (sort paths)))"

definition glob_paths_into ::
  "split_fn \<Rightarrow> (string \<Rightarrow> string) \<Rightarrow> string list \<Rightarrow> (string \<times> fs_node) list \<Rightarrow> string \<Rightarrow> bool \<Rightarrow> string list outcome" where
  "glob_paths_into split rel paths dir pattern incl =
     (if paths = [] then obind (internal_glob_paths split rel paths dir pattern incl) (\<lambda>paths. Some (Inr (sort paths)))
      else obind (internal_glob_paths split rel [] dir pattern incl) (\<lambda>tmp_paths. Some (Inr (paths @ sort tmp_paths))))"

section \<open>One element\<close>

text \<open>What an element of the pattern accepts.\<close>

definition elem_match :: "string \<Rightarrow> string \<Rightarrow> bool" where
  "elem_match p g \<longleftrightarrow> p = g \<or> match p g False = Some True"

lemma match_returns: "\<exists>b. match src mat False = Some b"
  using matching_string_glob [OF c_str_NUL c_str_NUL, of src mat] unfolding agrees_def match_def by blast

lemma elem_test:
  "(if p = g then Some True else match p g (\<not> True)) = Some (elem_match p g)"
  using match_returns [of p g] by (auto simp: elem_match_def)

section \<open>Patterns without a double star\<close>

text \<open>The shorter of the two lists is continued with its last element.\<close>

definition clamped :: "'a list \<Rightarrow> nat \<Rightarrow> 'a" where
  "clamped xs i = xs ! min i (length xs - 1)"

definition elementwise :: "string list \<Rightarrow> string list \<Rightarrow> bool" where
  "elementwise sp sg \<longleftrightarrow> (\<forall>i \<in> {..<max (length sp) (length sg)}. elem_match (clamped sp i) (clamped sg i))"

lemma clamped_in: "xs \<noteq> [] \<Longrightarrow> clamped xs i \<in> set xs"
  unfolding clamped_def by (rule nth_mem, cases xs) (auto simp: less_Suc_eq_le)

lemma clamp_index: "(if length xs \<le> i then length xs - 1 else i) = min i (length xs - 1)"
  by auto

lemma clamp_next: "xs \<noteq> [] \<Longrightarrow> min i (length xs - 1) + 1 = min (Suc i) (length xs)"
  by (cases xs) (auto simp: min_def)

lemma plain_step:
  assumes "sp \<noteq> []" "sg \<noteq> []" "i < length sp \<or> j < length sg"
    and "clamped sp i \<noteq> ''.''" "clamped sg j \<noteq> ''.''" "clamped sg j \<noteq> ''**''"
    and "i < length sp \<and> j < length sg \<or> \<not> d \<or> globs = []"
  shows "match_path_loop sp sg d True i j True globs =
    (if elem_match (clamped sp i) (clamped sg j)
     then match_path_loop sp sg d True (min (Suc i) (length sp)) (min (Suc j) (length sg)) True globs
     else case globs of (qi, hi) # gs \<Rightarrow> match_path_loop sp sg d True (qi + 1) hi False gs | [] \<Rightarrow> Some (Inr False))"
  unfolding match_path_loop.simps [of sp sg d True i j True globs] Let_def clamp_index
    clamp_next [OF assms(1)] clamp_next [OF assms(2)]
  unfolding clamped_def [symmetric] elem_test
  using assms by auto

lemma match_loop_elementwise:
  assumes "sp \<noteq> []" "sg \<noteq> []" "''.'' \<notin> set sp" "''.'' \<notin> set sg" "''**'' \<notin> set sg"
    and "k \<le> max (length sp) (length sg)"
  shows "match_path_loop sp sg is_dir True (min k (length sp)) (min k (length sg)) True [] =
    Some (Inr (\<forall>i \<in> {k..<max (length sp) (length sg)}. elem_match (clamped sp i) (clamped sg i)))"
  using assms(6)
proof (induction "max (length sp) (length sg) - k" arbitrary: k)
  case 0
  then show ?case by (subst match_path_loop.simps) auto
next
  case (Suc d)
  let ?M = "max (length sp) (length sg)"
  have k: "k < ?M" using Suc by linarith
  have IH: "match_path_loop sp sg is_dir True (min (Suc k) (length sp)) (min (Suc k) (length sg)) True [] =
      Some (Inr (\<forall>i \<in> {Suc k..<?M}. elem_match (clamped sp i) (clamped sg i)))"
    using Suc.hyps(2) k by (intro Suc.hyps(1)) auto
  have cl: "clamped xs (min k (length xs)) = clamped xs k" "min (Suc (min k (length xs))) (length xs) = min (Suc k) (length xs)"
    if "xs \<noteq> []" for xs :: "string list"
    using that by (cases xs; simp add: clamped_def min_def)+
  have nodot: "clamped sp k \<noteq> ''.''" "clamped sg k \<noteq> ''.''" "clamped sg k \<noteq> ''**''"
    using clamped_in assms(1-5) by metis+
  have "{k..<?M} = insert k {Suc k..<?M}" using k by auto
  moreover have "min k (length sp) < length sp \<or> min k (length sg) < length sg" using k by auto
  ultimately show ?case
    using IH nodot assms(1,2) by (simp add: plain_step cl)
qed

text \<open>A pattern without \<open>**\<close> is matched element by element, each element as a wildcard pattern, and the call ends; where
  path and pattern differ in length, the last element of the shorter one is repeated.\<close>

lemma match_path_elementwise:
  assumes "path_str \<noteq> []" "glob_str \<noteq> []" "path_str \<noteq> glob_str"
    and "split path_str [CHR 0x5C, CHR 0x2F] = sp" "split glob_str [CHR 0x5C, CHR 0x2F] = sg" "sp \<noteq> []" "sg \<noteq> []"
    and "''.'' \<notin> set sp" "''.'' \<notin> set sg" "''**'' \<notin> set sg"
  shows "match_path split path_str glob_str is_dir True = Some (Inr (elementwise sp sg))"
  using match_loop_elementwise [OF assms(6-10), of 0 is_dir] assms(1-7)
  by (simp add: match_path_def elementwise_def atLeast0LessThan)

text \<open>A pattern that ends earlier accepts what lies deeper, and a directory on the way to a file is not accepted by
  the pattern for the file, so that \<open>glob_paths\<close> does not enter it.\<close>

lemma shorter_pattern_repeats: "elementwise [''src'', ''a'', ''b''] [''src'', ''*'']"
proof -
  have "match ''a'' ''*'' False = Some True" "match ''b'' ''*'' False = Some True" by code_simp+
  then show ?thesis by (auto simp: elementwise_def elem_match_def clamped_def less_Suc_eq numeral_3_eq_3)
qed

lemma glob_misses_files_below:
  "glob_paths split_compress (\<lambda>p. p) [(''src'', directory [(''src/a.h'', regular)])] ''src/*.h'' False = Some (Inr [])"
proof -
  have "\<not> elementwise [''src''] [''src'', ''*.h'']"
  proof -
    have "match ''src'' ''*.h'' False = Some False" by code_simp
    then show ?thesis by (auto simp: elementwise_def elem_match_def clamped_def intro!: bexI [where x = 1])
  qed
  then have "match_path split_compress ''src'' ''src/*.h'' True True = Some (Inr False)"
    using match_path_elementwise [of "''src''" "''src/*.h''" split_compress "[''src'']" "[''src'', ''*.h'']" True] by simp
  then show ?thesis by (simp add: glob_paths_def)
qed

section \<open>Patterns that start with a double star\<close>

lemma star_step:
  assumes "k < length sp" "sp ! k \<noteq> ''.''"
  shows "match_path_loop sp [''**'', g] d True k 0 b [] = match_path_loop sp [''**'', g] d True (k + 1) 1 True [(k, 0)]"
  using assms by (subst match_path_loop.simps) (auto simp: Let_def)

text \<open>A directory is accepted, so that it is entered; a file is accepted when its last element is.\<close>

definition star_result :: "bool \<Rightarrow> string list \<Rightarrow> string \<Rightarrow> bool" where
  "star_result is_dir sp g \<longleftrightarrow> is_dir \<or> elem_match (last sp) g"

lemma star_inner:
  assumes sp: "''.'' \<notin> set sp" and g: "g \<noteq> ''.''" "g \<noteq> ''**''"
    and again: "k + 1 < length sp \<Longrightarrow> match_path_loop sp [''**'', g] d True (k + 1) 0 False [] = Some (Inr (star_result d sp g))"
    and i: "k < i" "i \<le> length sp" "j = 1 \<or> j = 2" "i = length sp \<Longrightarrow> j = 2 \<Longrightarrow> star_result d sp g"
  shows "match_path_loop sp [''**'', g] d True i j True [(k, 0)] = Some (Inr (star_result d sp g))"
  using i
proof (induction "length sp - i" arbitrary: i j rule: less_induct)
  case less
  have ne: "sp \<noteq> []" using less.prems by auto
  consider (broken) "d" "i = length sp \<or> j = 2" | (over) "\<not> d" "i = length sp" "j = 2" | (tail) "\<not> d" "i = length sp" "j = 1"
    | (inside) "i < length sp" "d \<Longrightarrow> j = 1" using less.prems by force
  then show ?case
  proof cases
    case broken
    then show ?thesis using less.prems by (subst match_path_loop.simps) (auto simp: star_result_def)
  next
    case over
    then show ?thesis using less.prems by (subst match_path_loop.simps) auto
  next
    case tail
    have last: "clamped sp (length sp) = last sp" "clamped [''**'', g] (Suc 0) = g"
      using ne by (auto simp: clamped_def last_conv_nth)
    have out: "match_path_loop sp [''**'', g] d True (length sp) 2 True gs = Some (Inr True)" for gs
      by (subst match_path_loop.simps) simp
    have fin: "match_path_loop sp [''**'', g] d True (length sp) 0 False [] = Some (Inr False)"
      by (subst match_path_loop.simps) simp
    have "last sp \<noteq> ''.''" using ne sp last_in_set by metis
    then have "match_path_loop sp [''**'', g] d True i j True [(k, 0)] =
        (if elem_match (last sp) g then Some (Inr True) else match_path_loop sp [''**'', g] d True (k + 1) 0 False [])"
      using tail ne g out by (subst plain_step) (auto simp: last min_def numeral_2_eq_2)
    then show ?thesis
    proof (cases "k + 1 < length sp")
      case False
      then have "k + 1 = length sp" using tail less.prems(1) by simp
      then show ?thesis using \<open>match_path_loop sp [''**'', g] d True i j True [(k, 0)] = _\<close> fin tail by (simp add: star_result_def)
    qed (use again tail in \<open>auto simp: star_result_def\<close>)
  next
    case inside
    have el: "clamped sp i = sp ! i" "clamped [''**'', g] j = g" using inside less.prems(3) by (auto simp: clamped_def min_def)
    have "sp ! i \<noteq> ''.''" using inside sp nth_mem by metis
    then have step: "match_path_loop sp [''**'', g] d True i j True [(k, 0)] =
        (if elem_match (sp ! i) g then match_path_loop sp [''**'', g] d True (i + 1) 2 True [(k, 0)]
         else match_path_loop sp [''**'', g] d True (k + 1) 0 False [])"
      using inside ne g less.prems(3) by (subst plain_step) (auto simp: el min_def numeral_2_eq_2)
    show ?thesis
    proof (cases "elem_match (sp ! i) g")
      case True
      have "i + 1 = length sp \<Longrightarrow> star_result d sp g"
        using True ne by (metis add_diff_cancel_right' last_conv_nth star_result_def)
      then have "match_path_loop sp [''**'', g] d True (i + 1) 2 True [(k, 0)] = Some (Inr (star_result d sp g))"
        using inside less.prems by (intro less.hyps) auto
      then show ?thesis using step True by simp
    next
      case False
      then show ?thesis using step again inside less.prems(1) by simp
    qed
  qed
qed

lemma star_outer:
  assumes sp: "''.'' \<notin> set sp" and g: "g \<noteq> ''.''" "g \<noteq> ''**''"
  shows "k < length sp \<Longrightarrow> match_path_loop sp [''**'', g] d True k 0 b [] = Some (Inr (star_result d sp g))"
proof (induction "length sp - k" arbitrary: k b rule: less_induct)
  case less
  have dot: "sp ! k \<noteq> ''.''" using less.prems sp nth_mem by metis
  have "match_path_loop sp [''**'', g] d True (k + 1) 1 True [(k, 0)] = Some (Inr (star_result d sp g))"
    using less.prems by (intro star_inner [OF sp g] less.hyps) auto
  then show ?case using star_step [of k sp g d b] less.prems dot by simp
qed

text \<open>A pattern \<open>**/g\<close> accepts every directory, so that it is searched, and a file exactly when the last element of its
  path matches \<open>g\<close>; the loop over the stack of stars ends.\<close>

lemma match_path_double_star:
  assumes "path_str \<noteq> []" "pattern \<noteq> []"
    and "split path_str [CHR 0x5C, CHR 0x2F] \<noteq> []" "split pattern [CHR 0x5C, CHR 0x2F] = [''**'', g]"
    and "''.'' \<notin> set (split path_str [CHR 0x5C, CHR 0x2F])" "g \<noteq> ''.''" "g \<noteq> ''**''"
  shows "match_path split path_str pattern is_dir True =
    Some (Inr (is_dir \<or> elem_match (last (split path_str [CHR 0x5C, CHR 0x2F])) g))"
proof (cases "pattern = path_str")
  case True
  then show ?thesis using assms by (auto simp: match_path_def elem_match_def)
next
  case False
  then show ?thesis
    using assms star_outer [OF assms(5-7), of 0 is_dir True] by (simp add: match_path_def star_result_def)
qed

text \<open>The paths of the regular files of a tree in the order of the visit, and all paths.\<close>

fun tree_files :: "(string \<times> fs_node) list \<Rightarrow> string list" where
  "tree_files [] = []"
| "tree_files ((p, regular) # rest) = p # tree_files rest"
| "tree_files ((p, directory es) # rest) = tree_files es @ tree_files rest"
| "tree_files ((p, other) # rest) = tree_files rest"

fun tree_paths :: "(string \<times> fs_node) list \<Rightarrow> string list" where
  "tree_paths [] = []"
| "tree_paths ((p, directory es) # rest) = p # tree_paths es @ tree_paths rest"
| "tree_paths ((p, x) # rest) = p # tree_paths rest"

lemma internal_glob_double_star:
  assumes pattern: "pattern \<noteq> []" "split pattern [CHR 0x5C, CHR 0x2F] = [''**'', g]" "g \<noteq> ''.''" "g \<noteq> ''**''"
  shows "(\<And>p. p \<in> set (tree_paths dir) \<Longrightarrow>
      rel p \<noteq> [] \<and> split (rel p) [CHR 0x5C, CHR 0x2F] \<noteq> [] \<and> ''.'' \<notin> set (split (rel p) [CHR 0x5C, CHR 0x2F])) \<Longrightarrow>
    internal_glob_paths split rel paths dir pattern False =
      Some (Inr (paths @ filter (\<lambda>p. elem_match (last (split (rel p) [CHR 0x5C, CHR 0x2F])) g) (tree_files dir)))"
proof (induction dir arbitrary: paths rule: tree_files.induct)
  case 1
  then show ?case by simp
next
  case (2 p rest)
  have "match_path split (rel p) pattern False True =
      Some (Inr (elem_match (last (split (rel p) [CHR 0x5C, CHR 0x2F])) g))"
    using match_path_double_star [of "rel p" pattern split g False] pattern 2(2) [of p] by simp
  then show ?case using 2 by auto
next
  case (3 p es rest)
  have "match_path split (rel p) pattern True True = Some (Inr True)"
    using match_path_double_star [of "rel p" pattern split g True] pattern 3(3) [of p] by simp
  then show ?case using 3 by auto
next
  case (4 p rest)
  then show ?case by auto
qed

text \<open>(C40) \<open>glob_paths\<close>, not asked for directories, with a pattern of exactly two elements \<open>**/g\<close>, where \<open>g\<close> is neither
  \<open>.\<close> nor \<open>**\<close>, on a tree none of whose paths relative to its root is empty or has an element \<open>.\<close>, ends
  and returns, sorted, exactly the regular files of the whole tree, at any depth, whose last element matches \<open>g\<close> without regard
  to case. \<open>bfs::relative\<close> and \<open>boost::split\<close> are parameters.\<close>

theorem glob_finds_files:
  assumes "pattern \<noteq> []" "split pattern [CHR 0x5C, CHR 0x2F] = [''**'', g]" "g \<noteq> ''.''" "g \<noteq> ''**''"
    and "\<And>p. p \<in> set (tree_paths dir) \<Longrightarrow>
      rel p \<noteq> [] \<and> split (rel p) [CHR 0x5C, CHR 0x2F] \<noteq> [] \<and> ''.'' \<notin> set (split (rel p) [CHR 0x5C, CHR 0x2F])"
  shows "glob_paths split rel dir pattern False =
    Some (Inr (sort (filter (\<lambda>p. elem_match (last (split (rel p) [CHR 0x5C, CHR 0x2F])) g) (tree_files dir))))"
  using internal_glob_double_star [where paths = "[]" and dir = dir and rel = rel and split = split and pattern = pattern and g = g, OF assms(1-4) assms(5)]
  by (simp add: glob_paths_def)

theorem glob_finds_files_witness:
  "glob_paths split_compress (\<lambda>p. p) [(''src'', directory [(''src/b.cpp'', regular), (''src/a.h'', regular)]), (''x.h'', regular)]
     ''**/*.h'' False = Some (Inr [''src/a.h'', ''x.h''])"
proof -
  let ?dir = "[(''src'', directory [(''src/b.cpp'', regular), (''src/a.h'', regular)]), (''x.h'', regular)]"
  have names: "elem_match ''a.h'' ''*.h''" "elem_match ''x.h'' ''*.h''" "\<not> elem_match ''b.cpp'' ''*.h''"
    unfolding elem_match_def by code_simp+
  have sorted: "sort [''src/a.h'', ''x.h''] = [''src/a.h'', ''x.h'']" by code_simp
  have *: "\<And>p. p \<in> set (tree_paths ?dir) \<Longrightarrow> p \<noteq> [] \<and> split_compress p [CHR 0x5C, CHR 0x2F] \<noteq> [] \<and>
      ''.'' \<notin> set (split_compress p [CHR 0x5C, CHR 0x2F])" by auto
  show ?thesis
    using glob_finds_files [where split = split_compress and rel = "\<lambda>p. p" and dir = ?dir and pattern = "''**/*.h''" and g = "''*.h''", OF _ _ _ _ *]
    by (simp add: names sorted)
qed

text \<open>A pattern whose last element is a dot is never left behind by a longer path: the call does not return.\<close>

lemma match_path_diverges: "match_path split_compress ''a/b'' ''a/.'' False True = None"
proof -
  let ?P = "\<lambda>sp sg d pi gi m globs. sp = [''a'', ''b''] \<and> sg = [''a'', ''.''] \<and> \<not> d \<and> pi = 1 \<and> gi \<in> {1, 2} \<and> m \<and> globs = []"
  have "\<not> ?P sp sg d pi gi m globs" if "match_path_loop sp sg d ic pi gi m globs = Some y" for sp sg d ic pi gi m globs y
    using that
  proof (rule match_path_loop.raw_induct
      [where P = "\<lambda>sp sg d ic pi gi m globs y. \<not> ?P sp sg d pi gi m globs", rotated], goal_cases)
    case (1 loop sp sg d ic pi gi m globs y)
    show ?case
    proof
      assume *: "?P sp sg d pi gi m globs"
      then have "loop sp sg d ic 1 2 True [] = Some y" using 1(2) by (auto simp: Let_def numeral_2_eq_2)
      from 1(1) [OF this] * show False by simp
    qed
  qed
  then have "match_path_loop [''a'', ''b''] [''a'', ''.''] False True 1 1 True [] \<noteq> Some y" for y by blast
  then have "match_path_loop [''a'', ''b''] [''a'', ''.''] False True 1 1 True [] = None" by (simp flip: not_Some_eq)
  moreover have "match_path split_compress ''a/b'' ''a/.'' False True = match_path_loop [''a'', ''b''] [''a'', ''.''] False True 0 0 True []"
    by (simp add: match_path_def)
  moreover have "\<dots> = match_path_loop [''a'', ''b''] [''a'', ''.''] False True 1 1 True []"
    by (subst match_path_loop.simps) (simp add: Let_def)
  ultimately show ?thesis by simp
qed

text \<open>Asked for the files of all levels with a depth of three, the listing stays on the first level.\<close>

lemma get_files_of_ignores_depth:
  "get_files_of b depth es = get_files_of False 0 es"
  unfolding get_files_of_def
  by (induction b "- 1 :: int" es rule: get_files.induct) simp_all

end
