(* ===== verification/Cmder.thy ===== *)
theory Cmder
  imports Strings
begin

text \<open>
  The command line, \<open>src/network/cmder\<close>: the manager that finds a command by its name or its alias
  (\<open>icmder_manager.hpp\<close>), the base classes of the commands (\<open>base_cmder.hpp\<close>, \<open>base_repeat_cmder.hpp\<close>,
  \<open>base_waitable_cmder.hpp\<close>), the commands of \<open>subcmd\<close>, and the service that runs a script of command nodes with jumps
  (\<open>execute_cmder_service.hpp\<close>). Commands act on a world \<open>'w\<close> and return a code, 0 for success, or throw. Sleeping
  records the time. Splitting a command line into arguments, splitting lines and trimming are done by Boost, and are
  parameters; so is reading the options of a command.
\<close>

section \<open>Model\<close>

datatype cmd_error = format_error | bad_arguments | cmd_exception string

record 'w run_state =
  user :: 'w
  slept :: "int list"

type_synonym 'w result = "(cmd_error + int) \<times> 'w run_state"

definition sleep :: "int \<Rightarrow> 'w run_state \<Rightarrow> 'w run_state" where
  "sleep millisecond s = s\<lparr>slept := slept s @ [millisecond]\<rparr>"

subsection \<open>The manager\<close>

record 'w base_cmder =
  bc_name :: string
  bc_desc :: string
  bc_handle :: "string list \<Rightarrow> 'w run_state \<Rightarrow> 'w result"

record 'w icmder_manager =
  cmders :: "string \<rightharpoonup> 'w base_cmder"
  cmder_max_length :: int
  aliases :: "string \<rightharpoonup> string"

record cmd_lib =
  lib_trim :: "string \<Rightarrow> string"
  lib_split :: split_fn
  lib_args :: "string \<Rightarrow> string list option"

definition register_cmder :: "string \<Rightarrow> 'w base_cmder \<Rightarrow> 'w icmder_manager \<Rightarrow> 'w icmder_manager" where
  "register_cmder cmd_name c m =
     m\<lparr>cmders := (cmders m)(cmd_name \<mapsto> c),
       cmder_max_length := (if cmder_max_length m < int (length cmd_name) then int (length cmd_name) else cmder_max_length m)\<rparr>"

definition register_cmder_own :: "'w base_cmder \<Rightarrow> 'w icmder_manager \<Rightarrow> 'w icmder_manager" where
  "register_cmder_own c m = register_cmder (bc_name c) c m"

definition register_alias :: "(string \<rightharpoonup> string) \<Rightarrow> 'w icmder_manager \<Rightarrow> 'w icmder_manager" where
  "register_alias a m = m\<lparr>aliases := a\<rparr>"

definition get_cmder :: "string \<Rightarrow> 'w icmder_manager \<Rightarrow> 'w base_cmder option" where
  "get_cmder cmd_name m = cmders m cmd_name"

text \<open>The arguments with the alias put in for the first one, \<open>None\<close> when the text of the alias cannot be split.\<close>

definition process_alias :: "cmd_lib \<Rightarrow> string list \<Rightarrow> 'w icmder_manager \<Rightarrow> string list option" where
  "process_alias lib args m =
     (if args = [] then Some []
      else case aliases m (args ! 0) of
        None \<Rightarrow> Some args
      | Some alias_str \<Rightarrow> map_option (\<lambda>alias_args. alias_args @ tl args) (lib_args lib (trim_first alias_str ''#'')))"

text \<open>The message for a name that is not found is formatted without the argument it needs.\<close>

definition internal_handle_input :: "string list \<Rightarrow> 'w icmder_manager \<Rightarrow> 'w run_state \<Rightarrow> 'w result" where
  "internal_handle_input args m s =
     (if args = [] then (Inr 1, s)
      else case cmders m (args ! 0) of
        None \<Rightarrow> (Inl format_error, s)
      | Some c \<Rightarrow> bc_handle c (tl args) s)"

definition handle_args :: "cmd_lib \<Rightarrow> string list \<Rightarrow> 'w icmder_manager \<Rightarrow> 'w run_state \<Rightarrow> 'w result" where
  "handle_args lib args m s =
     (case process_alias lib args m of
        None \<Rightarrow> (Inl bad_arguments, s)
      | Some new_args \<Rightarrow> internal_handle_input new_args m s)"

definition handle_input :: "cmd_lib \<Rightarrow> string \<Rightarrow> 'w icmder_manager \<Rightarrow> 'w run_state \<Rightarrow> 'w result" where
  "handle_input lib input m s =
     (case lib_args lib input of
        None \<Rightarrow> (Inl bad_arguments, s)
      | Some strs \<Rightarrow>
          if strs = [] \<or> (length strs = 1 \<and> strs ! 0 = []) then (Inr 1, s)
          else handle_args lib strs m s)"

subsection \<open>Commands\<close>

text \<open>\<open>handle_input\<close> and \<open>execute\<close> of \<open>base_cmder\<close>: the values are reset, the options read, and the command is run between
  \<open>before_process\<close> and \<open>after_process\<close> unless help is asked for.\<close>

record ('v, 'w) cmder_class =
  reset_value :: 'v
  parse_args :: "string list \<Rightarrow> 'v \<Rightarrow> (bool \<times> 'v) option"
  before_process :: "'v \<Rightarrow> 'w run_state \<Rightarrow> 'w run_state"
  process :: "'v \<Rightarrow> 'w run_state \<Rightarrow> 'w result"
  after_process :: "'v \<Rightarrow> 'w run_state \<Rightarrow> 'w run_state"

definition execute_cmder :: "('v, 'w) cmder_class \<Rightarrow> bool \<Rightarrow> 'v \<Rightarrow> 'w run_state \<Rightarrow> 'w result" where
  "execute_cmder c need_help v s =
     (if need_help then (Inr 0, s)
      else (case process c v (before_process c v s) of
        (Inl e, s') \<Rightarrow> (Inl e, s')
      | (Inr ret, s') \<Rightarrow> (Inr ret, after_process c v s')))"

definition cmder_handle_input ::
  "(('v, 'w) cmder_class \<Rightarrow> bool \<Rightarrow> 'v \<Rightarrow> 'w run_state \<Rightarrow> 'w result) \<Rightarrow> ('v, 'w) cmder_class \<Rightarrow> string list \<Rightarrow> 'w run_state \<Rightarrow> 'w result" where
  "cmder_handle_input exec c args s =
     (case parse_args c args (reset_value c) of
        None \<Rightarrow> (Inl bad_arguments, s)
      | Some (need_help, v) \<Rightarrow> exec c need_help v s)"

record repeat_values =
  delay :: int
  interval :: int
  times :: int
  retryWhenFailed :: bool
  retryInterval :: int
  retryTimes :: int

definition repeat_reset_value :: repeat_values where
  "repeat_reset_value = \<lparr>delay = 0, interval = 0, times = 1, retryWhenFailed = False, retryInterval = 1000, retryTimes = 1\<rparr>"

function retry_loop :: "('w run_state \<Rightarrow> 'w result) \<Rightarrow> repeat_values \<Rightarrow> int \<Rightarrow> int \<Rightarrow> 'w run_state \<Rightarrow> 'w result" where
  "retry_loop proc v ret current_times s =
     (if retryWhenFailed v \<and> ret \<noteq> 0 \<and> current_times < retryTimes v then
        (case proc (if retryInterval v > 0 then sleep (retryInterval v) s else s) of
           (Inl e, s') \<Rightarrow> (Inl e, s')
         | (Inr ret', s') \<Rightarrow> retry_loop proc v ret' (current_times + 1) s')
      else (Inr ret, s))"
  by pat_completeness auto
termination retry_loop
  by (relation "measure (\<lambda>(proc, v, ret, n, s). nat (retryTimes v - n))") auto

definition retry_execute :: "('w run_state \<Rightarrow> 'w result) \<Rightarrow> repeat_values \<Rightarrow> 'w run_state \<Rightarrow> 'w result" where
  "retry_execute proc v s =
     (case proc s of (Inl e, s') \<Rightarrow> (Inl e, s') | (Inr ret, s') \<Rightarrow> retry_loop proc v ret 1 s')"

function times_loop :: "('w run_state \<Rightarrow> 'w result) \<Rightarrow> int \<Rightarrow> int \<Rightarrow> int \<Rightarrow> 'w run_state \<Rightarrow> 'w result" where
  "times_loop run n intv current_times s =
     (if current_times < n then
        (case run s of
           (Inl e, s') \<Rightarrow> (Inl e, s')
         | (Inr ret, s') \<Rightarrow>
             if ret \<noteq> 0 then (Inr ret, s')
             else times_loop run n intv (current_times + 1)
               (if current_times + 1 < n \<and> intv > 0 then sleep intv s' else s'))
      else (Inr 0, s))"
  by pat_completeness auto
termination times_loop
  by (relation "measure (\<lambda>(run, n, intv, k, s). nat (n - k))") auto

definition repeat_execute :: "('w run_state \<Rightarrow> 'w result) \<Rightarrow> repeat_values \<Rightarrow> 'w run_state \<Rightarrow> 'w result" where
  "repeat_execute proc v s =
     times_loop (retry_execute proc v) (times v) (interval v) 0 (if delay v > 0 then sleep (delay v) s else s)"

declare retry_loop.simps [simp del] times_loop.simps [simp del]

text \<open>\<open>execute\<close> of \<open>base_repeat_cmder\<close> replaces that of \<open>base_cmder\<close> and leaves out what surrounds \<open>process\<close>.\<close>

definition execute_repeat_cmder ::
  "('v \<Rightarrow> repeat_values) \<Rightarrow> ('v, 'w) cmder_class \<Rightarrow> bool \<Rightarrow> 'v \<Rightarrow> 'w run_state \<Rightarrow> 'w result" where
  "execute_repeat_cmder vals c need_help v s =
     (if need_help then (Inr 0, s) else repeat_execute (process c v) (vals v) s)"

text \<open>Waiting for a result: the command puts itself into the manager, blocks until it is notified or the time is over (a time
  that is not positive means for ever), and takes itself out. The notifier takes the command out of the manager under
  the lock and delivers the result after it; a result on its way is in \<open>w_taken\<close>.\<close>

record wait_state =
  w_waiting :: bool
  w_over :: bool
  w_result :: "int option"
  w_taken :: "int list"

definition set_waiting_cmder :: "wait_state \<Rightarrow> wait_state" where
  "set_waiting_cmder w = w\<lparr>w_waiting := True\<rparr>"

definition clear_waiting_cmder :: "wait_state \<Rightarrow> wait_state" where
  "clear_waiting_cmder w = w\<lparr>w_waiting := False\<rparr>"

definition waitable_reset :: "wait_state \<Rightarrow> wait_state" where
  "waitable_reset w = (if w_over w then w\<lparr>w_result := None, w_over := False\<rparr> else w)"

definition may_return :: "int \<Rightarrow> bool \<Rightarrow> wait_state \<Rightarrow> bool" where
  "may_return milliseconds elapsed w \<longleftrightarrow> w_over w \<or> (milliseconds > 0 \<and> elapsed)"

definition wait_finish :: "wait_state \<Rightarrow> int \<times> wait_state" where
  "wait_finish w =
     (case w_result w of Some r \<Rightarrow> r | None \<Rightarrow> -1, clear_waiting_cmder (waitable_reset w))"

definition notify_waiting_cmder :: "int \<Rightarrow> wait_state \<Rightarrow> wait_state" where
  "notify_waiting_cmder result w =
     (if w_waiting w then w\<lparr>w_waiting := False, w_taken := w_taken w @ [result]\<rparr> else w)"

definition notify_deliver :: "wait_state \<Rightarrow> wait_state" where
  "notify_deliver w =
     (case w_taken w of [] \<Rightarrow> w | r # rs \<Rightarrow> w\<lparr>w_taken := rs, w_result := Some r, w_over := True\<rparr>)"

subsection \<open>The commands of \<open>subcmd\<close>\<close>

definition sleep_process :: "int \<Rightarrow> 'w run_state \<Rightarrow> 'w result" where
  "sleep_process millisecond s = (Inr 0, sleep millisecond s)"

definition wait_process :: "(string \<Rightarrow> string) \<Rightarrow> string \<Rightarrow> string \<Rightarrow> int" where
  "wait_process trim input input_str =
     (if trim input_str = [] \<or> trim input = [] \<or> trim input_str = trim input then 0 else 1)"

text \<open>What \<open>alias\<close> prints for the names it is given.\<close>

definition alias_process :: "string list \<Rightarrow> (string \<rightharpoonup> string) \<Rightarrow> string list" where
  "alias_process commands a =
     map (\<lambda>cmd. case a cmd of None \<Rightarrow> ''not find alias: '' @ cmd | Some v \<Rightarrow> cmd @ '' = '' @ v) commands"

text \<open>Standard input: complete lines, what follows the last of them, and whether its end was reached. At the end
  \<open>std::getline\<close> leaves the string as it is.\<close>

record stdin =
  in_lines :: "string list"
  in_tail :: string
  in_eof :: bool

definition read_input :: "string \<Rightarrow> stdin \<Rightarrow> string \<times> stdin" where
  "read_input input i =
     (case in_lines i of
        l # ls \<Rightarrow> (l, i\<lparr>in_lines := ls\<rparr>)
      | [] \<Rightarrow> if in_eof i then (input, i) else (in_tail i, i\<lparr>in_eof := True\<rparr>))"

partial_function (option) interactive_loop ::
  "(string \<Rightarrow> string) \<Rightarrow> (string \<Rightarrow> 'w run_state \<Rightarrow> 'w result) \<Rightarrow> string \<Rightarrow> string \<Rightarrow> stdin \<Rightarrow> 'w run_state \<Rightarrow> (stdin \<times> 'w run_state) option" where
  "interactive_loop trim handle quit input i s =
     (case read_input input i of (line, i') \<Rightarrow>
        (let input' = trim line
         in if input' = [] then interactive_loop trim handle quit input' i' s
            else if input' = quit then Some (i', s)
            else interactive_loop trim handle quit input' i' (snd (handle input' s))))"

definition interactive_process ::
  "(string \<Rightarrow> string) \<Rightarrow> (string \<Rightarrow> 'w run_state \<Rightarrow> 'w result) \<Rightarrow> string \<Rightarrow> stdin \<Rightarrow> 'w run_state \<Rightarrow> (int \<times> stdin \<times> 'w run_state) option" where
  "interactive_process trim handle quit i s =
     map_option (\<lambda>(i', s'). (0, i', s')) (interactive_loop trim handle quit [] i s)"

subsection \<open>The script\<close>

record cmd_node =
  cmdStr :: string
  nd_retryWhenFailed :: bool
  nd_retryInterval :: int
  nd_retryTimes :: int
  nd_delay :: int
  nd_interval :: int
  nd_times :: int
  nd_name :: string
  nextCmdWhenFailed :: string
  nextCmd :: string

record cmder_config =
  profile :: string
  cfg_alias :: "string \<rightharpoonup> string"
  cfg_cmds :: "string \<rightharpoonup> cmd_node list"

record 'w execute_service =
  es_manager :: "'w icmder_manager"
  es_cmds :: "cmd_node list"
  cur_cmd_index :: int
  cmd_map :: "string \<rightharpoonup> int"

definition index_nodes :: "cmd_node list \<Rightarrow> (string \<rightharpoonup> int)" where
  "index_nodes cmds =
     foldl (\<lambda>m (i, n). if nd_name n \<noteq> [] then m(nd_name n \<mapsto> int i) else m) Map.empty (enumerate 0 cmds)"

text \<open>\<open>init\<close> with the configuration read; the profile of the world has precedence over that of the file.\<close>

definition es_init :: "cmder_config \<Rightarrow> string option \<Rightarrow> 'w execute_service \<Rightarrow> bool \<times> 'w execute_service" where
  "es_init cfg world_profile es =
     (let prof = (case world_profile of Some p \<Rightarrow> p | None \<Rightarrow> profile cfg)
      in case cfg_cmds cfg prof of
           None \<Rightarrow> (False, es)
         | Some cmds \<Rightarrow>
             (True, es\<lparr>es_manager := register_alias (cfg_alias cfg) (es_manager es), es_cmds := cmds,
                       cmd_map := index_nodes cmds\<rparr>))"

definition execute_cmd_one_line :: "cmd_lib \<Rightarrow> 'w icmder_manager \<Rightarrow> string \<Rightarrow> 'w run_state \<Rightarrow> 'w result" where
  "execute_cmd_one_line lib m cmd_str s =
     (let str = lib_trim lib (trim_first cmd_str ''#'')
      in if str = [] then (Inr 0, s)
         else if take 1 str = ''#'' then (Inr 0, s)
         else handle_input lib str m s)"

fun execute_lines :: "cmd_lib \<Rightarrow> 'w icmder_manager \<Rightarrow> string list \<Rightarrow> 'w run_state \<Rightarrow> 'w result" where
  "execute_lines lib m [] s = (Inr 0, s)"
| "execute_lines lib m (str # strs) s =
     (case execute_cmd_one_line lib m str s of
        (Inl e, s') \<Rightarrow> (Inl e, s')
      | (Inr ret, s') \<Rightarrow> if ret \<noteq> 0 then (Inr ret, s') else execute_lines lib m strs s')"

definition execute_cmd_string :: "cmd_lib \<Rightarrow> 'w icmder_manager \<Rightarrow> string \<Rightarrow> 'w run_state \<Rightarrow> 'w result" where
  "execute_cmd_string lib m cmd_str s = execute_lines lib m (lib_split lib (lib_trim lib cmd_str) [CHR 0x0D, CHR 0x0A]) s"

definition repeat_execute_cmd_node :: "cmd_lib \<Rightarrow> 'w icmder_manager \<Rightarrow> cmd_node \<Rightarrow> 'w run_state \<Rightarrow> 'w result" where
  "repeat_execute_cmd_node lib m node s =
     times_loop (execute_cmd_string lib m (cmdStr node)) (nd_times node) (nd_interval node) 0
       (if nd_delay node > 0 then sleep (nd_delay node) s else s)"

definition get_next_cmd_node_index :: "'w execute_service \<Rightarrow> cmd_node \<Rightarrow> bool \<Rightarrow> int" where
  "get_next_cmd_node_index es node is_success =
     (let next_cmd_name = (if is_success then nextCmd node else nextCmdWhenFailed node)
      in if next_cmd_name = [] \<and> is_success then cur_cmd_index es + 1
         else if next_cmd_name \<noteq> [] then (case cmd_map es next_cmd_name of Some i \<Rightarrow> i | None \<Rightarrow> -1)
         else -1)"

definition execute_node :: "cmd_lib \<Rightarrow> cmd_node \<Rightarrow> 'w execute_service \<Rightarrow> 'w run_state \<Rightarrow> (cmd_error + int) \<times> 'w execute_service \<times> 'w run_state" where
  "execute_node lib node es s =
     (case (if \<not> is_empty_or_white_spate (lib_trim lib) (cmdStr node) \<and> nd_times node > 0
            then repeat_execute_cmd_node lib (es_manager es) node s else (Inr 0, s)) of
        (Inl e, s') \<Rightarrow> (Inl e, es, s')
      | (Inr ret, s') \<Rightarrow> (Inr ret, es\<lparr>cur_cmd_index := get_next_cmd_node_index es node (ret = 0)\<rparr>, s'))"

definition execute_one :: "cmd_lib \<Rightarrow> 'w execute_service \<Rightarrow> 'w run_state \<Rightarrow> (cmd_error + int) \<times> 'w execute_service \<times> 'w run_state" where
  "execute_one lib es s = execute_node lib (es_cmds es ! nat (cur_cmd_index es)) es s"

partial_function (option) execute_loop ::
  "cmd_lib \<Rightarrow> int \<Rightarrow> 'w execute_service \<Rightarrow> 'w run_state \<Rightarrow> ((cmd_error + int) \<times> 'w execute_service \<times> 'w run_state) option" where
  "execute_loop lib ret es s =
     (if 0 \<le> cur_cmd_index es \<and> cur_cmd_index es < int (length (es_cmds es)) then
        (case execute_one lib es s of
           (Inl e, es', s') \<Rightarrow> Some (Inl e, es', s')
         | (Inr ret', es', s') \<Rightarrow> execute_loop lib ret' es' s')
      else Some (Inr ret, es, s))"

definition execute :: "cmd_lib \<Rightarrow> 'w execute_service \<Rightarrow> 'w run_state \<Rightarrow> ((cmd_error + int) \<times> 'w execute_service \<times> 'w run_state) option" where
  "execute lib es s = execute_loop lib 0 es s"

section \<open>Finding a command\<close>

text \<open>An alias is put in once: the first word of its text is looked up as a command, also where it is an alias itself. The
  command gets the words of the alias and then the remaining arguments.\<close>

lemma alias_is_expanded_once:
  assumes "lib_args lib input = Some (name # args)" "name \<noteq> [] \<or> args \<noteq> []"
    and "aliases m name = Some text" "lib_args lib (trim_first text ''#'') = Some (cmd # words)" "cmders m cmd = Some c"
  shows "handle_input lib input m s = bc_handle c (words @ args) s"
  using assms by (auto simp: handle_input_def handle_args_def process_alias_def internal_handle_input_def)

text \<open>A command that is not registered is reported by a message that cannot be formatted: the caller gets an exception, which ends
  a script.\<close>

lemma unknown_command_throws:
  assumes "lib_args lib input = Some (name # args)" "name \<noteq> [] \<or> args \<noteq> []" "aliases m name = None" "cmders m name = None"
  shows "handle_input lib input m s = (Inl format_error, s)"
  using assms by (auto simp: handle_input_def handle_args_def process_alias_def internal_handle_input_def)

lemma registered_is_found:
  "get_cmder n (register_cmder cmd_name c m) = (if n = cmd_name then Some c else get_cmder n m)"
  "int (length cmd_name) \<le> cmder_max_length (register_cmder cmd_name c m)"
  "cmder_max_length m \<le> cmder_max_length (register_cmder cmd_name c m)"
  by (auto simp: get_cmder_def register_cmder_def)

section \<open>Repeating\<close>

text \<open>A process whose runs have the results \<open>f 0\<close>, \<open>f 1\<close> and so on, counted in the world.\<close>

definition scripted :: "(nat \<Rightarrow> int) \<Rightarrow> nat run_state \<Rightarrow> nat result" where
  "scripted f s = (Inr (f (user s)), s\<lparr>user := Suc (user s)\<rparr>)"

definition pause :: "repeat_values \<Rightarrow> int list" where
  "pause v = (if retryInterval v > 0 then [retryInterval v] else [])"

definition runs_at_most :: "repeat_values \<Rightarrow> nat" where
  "runs_at_most v = (if retryWhenFailed v then max 1 (nat (retryTimes v)) else 1)"

lemma retry_loop_runs:
  assumes "j < runs_at_most v" "n \<le> j" "\<And>k. n \<le> k \<Longrightarrow> k < j \<Longrightarrow> f k \<noteq> 0" "f j = 0 \<or> j + 1 = runs_at_most v"
  shows "retry_loop (scripted f) v (f n) (int n + 1) \<lparr>user = Suc n, slept = ts\<rparr> =
    (Inr (f j), \<lparr>user = Suc j, slept = ts @ concat (replicate (j - n) (pause v))\<rparr>)"
  using assms
proof (induction "j - n" arbitrary: n ts)
  case 0
  then have "n = j" by simp
  moreover have "f j = 0 \<or> \<not> (retryWhenFailed v \<and> int j + 1 < retryTimes v)"
    using 0(5) by (auto simp: runs_at_most_def split: if_splits)
  ultimately show ?case by (subst retry_loop.simps) auto
next
  case (Suc d)
  have *: "retryWhenFailed v" "f n \<noteq> 0" "int n + 1 < retryTimes v"
    using Suc.hyps(2) Suc.prems by (auto simp: runs_at_most_def split: if_splits)
  have n: "j - n = Suc (j - Suc n)" using Suc.hyps(2) by simp
  have "retry_loop (scripted f) v (f (Suc n)) (int (Suc n) + 1) \<lparr>user = Suc (Suc n), slept = ts @ pause v\<rparr> =
      (Inr (f j), \<lparr>user = Suc j, slept = (ts @ pause v) @ concat (replicate (j - Suc n) (pause v))\<rparr>)"
    using Suc.hyps(2) Suc.prems by (intro Suc.hyps(1)) auto
  then show ?case
    using * by (subst retry_loop.simps)
      (cases "0 < retryInterval v"; simp add: scripted_def sleep_def pause_def n add.commute)
qed

text \<open>A command that fails is run again until it succeeds or the number of runs is used up, with the pause before each further run;
  the result is that of the last run.\<close>

lemma retry_until_success:
  assumes "j < runs_at_most v" "\<And>k. k < j \<Longrightarrow> f k \<noteq> 0" "f j = 0 \<or> j + 1 = runs_at_most v"
  shows "retry_execute (scripted f) v \<lparr>user = 0, slept = ts\<rparr> =
    (Inr (f j), \<lparr>user = Suc j, slept = ts @ concat (replicate j (pause v))\<rparr>)"
  using retry_loop_runs [of j v 0 f ts] assms by (simp add: retry_execute_def scripted_def)

text \<open>Without failures a command is run as often as asked, with the interval between two runs.\<close>

lemma times_loop_runs:
  assumes "\<And>s. run s = (Inr 0, s\<lparr>user := Suc (user s)\<rparr>)"
  shows "int k \<le> n \<Longrightarrow> times_loop run n intv (n - int k) s =
    (Inr 0, s\<lparr>user := user s + k, slept := slept s @ (if intv > 0 then replicate (k - 1) intv else [])\<rparr>)"
proof (induction k arbitrary: s)
  case 0
  then show ?case by (subst times_loop.simps) simp
next
  case (Suc k)
  have [simp]: "n - int (Suc k) + 1 = n - int k" by simp
  let ?s = "s\<lparr>user := Suc (user s)\<rparr>"
  let ?t = "if n - int k < n \<and> 0 < intv then sleep intv ?s else ?s"
  have "times_loop run n intv (n - int (Suc k)) s =
      times_loop run n intv (n - int k) (if n - int k < n \<and> 0 < intv then sleep intv ?s else ?s)"
    using Suc.prems by (subst times_loop.simps) (simp add: assms [of s])
  also have "\<dots> = (Inr 0, ?t\<lparr>user := user ?t + k, slept := slept ?t @ (if intv > 0 then replicate (k - 1) intv else [])\<rparr>)"
    using Suc.prems by (intro Suc.IH) simp
  finally show ?case by (cases k) (simp_all add: sleep_def)
qed

lemma repeat_count:
  assumes "0 \<le> times v" "\<And>k. f k = 0"
  shows "repeat_execute (scripted f) v \<lparr>user = 0, slept = []\<rparr> =
    (Inr 0, \<lparr>user = nat (times v), slept = (if delay v > 0 then [delay v] else []) @
       (if interval v > 0 then replicate (nat (times v) - 1) (interval v) else [])\<rparr>)"
proof -
  have "retry_execute (scripted f) v s = (Inr 0, s\<lparr>user := Suc (user s)\<rparr>)" for s
    using assms(2) by (simp add: retry_execute_def scripted_def) (subst retry_loop.simps, simp)
  from times_loop_runs [of "retry_execute (scripted f) v", OF this, of "nat (times v)" "times v" "interval v"]
  show ?thesis using assms(1) by (simp add: repeat_execute_def sleep_def)
qed

section \<open>Waiting\<close>

definition wait_idle :: wait_state where
  "wait_idle = \<lparr>w_waiting = False, w_over = False, w_result = None, w_taken = []\<rparr>"

lemma wait_gets_notified_result:
  "may_return t False (notify_deliver (notify_waiting_cmder r (set_waiting_cmder wait_idle)))"
  "wait_finish (notify_deliver (notify_waiting_cmder r (set_waiting_cmder wait_idle))) = (r, wait_idle)"
  by (simp_all add: wait_idle_def set_waiting_cmder_def notify_waiting_cmder_def notify_deliver_def may_return_def
      wait_finish_def waitable_reset_def clear_waiting_cmder_def)

text \<open>A result that is delivered after the wait has timed out stays behind: the next wait returns it at once, although nobody has
  notified it.\<close>

lemma late_result_ends_next_wait:
  assumes "0 < t" "w = notify_waiting_cmder r (set_waiting_cmder wait_idle)" "(ret, w') = wait_finish w"
  shows "may_return t True w" "ret = -1"
    "may_return t' False (set_waiting_cmder (notify_deliver w'))"
    "fst (wait_finish (set_waiting_cmder (notify_deliver w'))) = r"
  using assms
  by (simp_all add: wait_idle_def set_waiting_cmder_def notify_waiting_cmder_def notify_deliver_def may_return_def
      wait_finish_def waitable_reset_def clear_waiting_cmder_def)

section \<open>The interactive loop\<close>

lemma interactive_loop_line:
  assumes "in_lines i = l # ls"
  shows "interactive_loop trim handle quit input i s =
    (if trim l = [] then interactive_loop trim handle quit (trim l) (i\<lparr>in_lines := ls\<rparr>) s
     else if trim l = quit then Some (i\<lparr>in_lines := ls\<rparr>, s)
     else interactive_loop trim handle quit (trim l) (i\<lparr>in_lines := ls\<rparr>) (snd (handle (trim l) s)))"
  using assms by (subst interactive_loop.simps) (simp add: read_input_def Let_def)

text \<open>The lines up to the word that ends the loop are handled in order, empty ones left out, errors notwithstanding; what follows stays
  in the input.\<close>

lemma interactive_handles_lines:
  assumes "\<forall>l \<in> set ls. trim l \<noteq> quit" "trim q = quit" "quit \<noteq> []"
  shows "interactive_process trim handle quit \<lparr>in_lines = ls @ q # rest, in_tail = tail, in_eof = eof\<rparr> s =
    Some (0, \<lparr>in_lines = rest, in_tail = tail, in_eof = eof\<rparr>,
      foldl (\<lambda>s l. snd (handle l s)) s (filter (\<lambda>l. l \<noteq> []) (map trim ls)))"
proof -
  have "interactive_loop trim handle quit input \<lparr>in_lines = ls @ q # rest, in_tail = tail, in_eof = eof\<rparr> s =
      Some (\<lparr>in_lines = rest, in_tail = tail, in_eof = eof\<rparr>, foldl (\<lambda>s l. snd (handle l s)) s (filter (\<lambda>l. l \<noteq> []) (map trim ls)))"
    for input
    using assms by (induction ls arbitrary: input s) (auto simp: interactive_loop_line)
  then show ?thesis by (simp add: interactive_process_def)
qed

text \<open>At the end of the input the loop goes on with the last line it has read and never returns.\<close>

lemma interactive_never_ends:
  assumes "\<And>x. trim (trim x) = trim x" "trim input \<noteq> quit" "quit \<noteq> []"
  shows "interactive_loop trim handle quit input \<lparr>in_lines = [], in_tail = tail, in_eof = True\<rparr> s = None"
proof -
  let ?P = "\<lambda>tr qu inp (i :: stdin). tr = trim \<and> qu = quit \<and> trim inp \<noteq> quit \<and> i = \<lparr>in_lines = [], in_tail = tail, in_eof = True\<rparr>"
  have "\<not> ?P tr qu inp i" if "interactive_loop tr h qu inp i s = Some y"
    for tr qu inp i and h :: "string \<Rightarrow> 'a run_state \<Rightarrow> 'a result" and s y
    using that
  proof (rule interactive_loop.raw_induct [where P = "\<lambda>tr h qu inp i s y. \<not> ?P tr qu inp i", rotated], goal_cases)
    case (1 loop tr h qu inp i s y)
    show ?case
    proof
      assume *: "?P tr qu inp i"
      have read: "read_input inp i = (inp, i)" using * by (simp add: read_input_def)
      have body: "(if tr inp = [] then loop tr h qu (tr inp) i s else if tr inp = qu then Some (i, s)
          else loop tr h qu (tr inp) i (snd (h (tr inp) s))) = Some y"
        using 1(2) read by (simp add: Let_def)
      have next_no: "\<not> ?P tr qu (tr inp) i" if "loop tr h qu (tr inp) i s' = Some y" for s'
        using 1(1) [OF that] .
      have "?P tr qu (tr inp) i" using * assms(1) by simp
      then show False using body next_no * by (cases "tr inp = []") auto
    qed
  qed
  then have "interactive_loop trim handle quit input \<lparr>in_lines = [], in_tail = tail, in_eof = True\<rparr> s \<noteq> Some y" for y
    using assms(2) by blast
  then show ?thesis by (simp flip: not_Some_eq)
qed

section \<open>The script\<close>

text \<open>What one node does to the world, without the choice of the next one.\<close>

definition node_result :: "cmd_lib \<Rightarrow> 'w icmder_manager \<Rightarrow> cmd_node \<Rightarrow> 'w run_state \<Rightarrow> 'w result" where
  "node_result lib m node s =
     (if is_empty_or_white_spate (lib_trim lib) (cmdStr node) \<or> nd_times node \<le> 0 then (Inr 0, s)
      else repeat_execute_cmd_node lib m node s)"

lemma execute_node_result:
  "execute_node lib node es s =
    (case node_result lib (es_manager es) node s of
       (Inl e, s') \<Rightarrow> (Inl e, es, s')
     | (Inr ret, s') \<Rightarrow> (Inr ret, es\<lparr>cur_cmd_index := get_next_cmd_node_index es node (ret = 0)\<rparr>, s'))"
  unfolding execute_node_def node_result_def by (auto simp: not_less)

lemma execute_loop_step:
  assumes "cur_cmd_index es = int i" "i < length (es_cmds es)"
  shows "execute_loop lib ret es s =
    (case node_result lib (es_manager es) (es_cmds es ! i) s of
       (Inl e, s') \<Rightarrow> Some (Inl e, es, s')
     | (Inr r, s') \<Rightarrow>
         execute_loop lib r (es\<lparr>cur_cmd_index := get_next_cmd_node_index es (es_cmds es ! i) (r = 0)\<rparr>) s')"
  using assms
  by (subst execute_loop.simps) (simp add: execute_one_def execute_node_result split: prod.split sum.split)

lemma execute_loop_stop:
  assumes "\<not> (0 \<le> cur_cmd_index es \<and> cur_cmd_index es < int (length (es_cmds es)))"
  shows "execute_loop lib ret es s = Some (Inr ret, es, s)"
  using assms by (subst execute_loop.simps) auto

text \<open>The nodes one after the other, up to the first that fails or throws.\<close>

fun run_nodes :: "cmd_lib \<Rightarrow> 'w icmder_manager \<Rightarrow> cmd_node list \<Rightarrow> 'w run_state \<Rightarrow> 'w result" where
  "run_nodes lib m [] s = (Inr 0, s)"
| "run_nodes lib m (n # ns) s =
     (case node_result lib m n s of
        (Inl e, s') \<Rightarrow> (Inl e, s')
      | (Inr r, s') \<Rightarrow> if r = 0 then run_nodes lib m ns s' else (Inr r, s'))"

lemma execute_loop_in_order:
  assumes "\<forall>n \<in> set (es_cmds es). nextCmd n = [] \<and> nextCmdWhenFailed n = []"
    and "i \<le> length (es_cmds es)" "cur_cmd_index es = int i"
  shows "\<exists>es'. execute_loop lib 0 es s =
    Some (fst (run_nodes lib (es_manager es) (drop i (es_cmds es)) s), es', snd (run_nodes lib (es_manager es) (drop i (es_cmds es)) s))"
  using assms
proof (induction "length (es_cmds es) - i" arbitrary: i es s)
  case 0
  then show ?case by (subst execute_loop_stop) auto
next
  case (Suc d)
  have i: "i < length (es_cmds es)" using Suc.hyps(2) by simp
  let ?n = "es_cmds es ! i"
  have n: "nextCmd ?n = []" "nextCmdWhenFailed ?n = []" using Suc.prems(1) i by auto
  have next_ix: "get_next_cmd_node_index es ?n b = (if b then int (Suc i) else -1)" for b
    using n Suc.prems(3) by (simp add: get_next_cmd_node_index_def)
  have drop: "drop i (es_cmds es) = ?n # drop (Suc i) (es_cmds es)" using i by (simp add: Cons_nth_drop_Suc)
  obtain res s' where r: "node_result lib (es_manager es) ?n s = (res, s')" by (cases "node_result lib (es_manager es) ?n s")
  note step = execute_loop_step [OF Suc.prems(3) i, of lib 0 s, unfolded r next_ix]
  show ?case
  proof (cases res)
    case (Inl e)
    then show ?thesis using step r drop by simp
  next
    case (Inr ret)
    show ?thesis
    proof (cases "ret = 0")
      case True
      let ?es = "es\<lparr>cur_cmd_index := int (Suc i)\<rparr>"
      have "\<exists>es'. execute_loop lib 0 ?es s' = Some (fst (run_nodes lib (es_manager ?es) (drop (Suc i) (es_cmds ?es)) s'), es',
          snd (run_nodes lib (es_manager ?es) (drop (Suc i) (es_cmds ?es)) s'))"
        using Suc.hyps(2) Suc.prems(1) i by (intro Suc.hyps(1)) auto
      then show ?thesis using step r drop Inr True by simp
    next
      case False
      then show ?thesis using step r drop Inr by (simp add: execute_loop_stop)
    qed
  qed
qed

text \<open>
  What a script means, without the loops of the program: a list of pauses and command lines. The lines of a node are those of its
  text, each up to the first \<open>#\<close> and trimmed, the empty ones left out. The node waits for its delay, then its lines come
  as many times as it says, with its interval between two times. A line is split into words, the first word is replaced by the
  words of its alias if it has one, and the command named by the first word gets the others.
\<close>

datatype action = Pause int | Line string

definition node_lines :: "cmd_lib \<Rightarrow> string \<Rightarrow> action list" where
  "node_lines lib cmd =
     map Line (filter (\<lambda>l. l \<noteq> []) (map (\<lambda>l. lib_trim lib (takeWhile (\<lambda>c. c \<noteq> CHR 0x23) l)) (lib_split lib (lib_trim lib cmd) [CHR 0x0D, CHR 0x0A])))"

definition node_actions :: "cmd_lib \<Rightarrow> cmd_node \<Rightarrow> action list" where
  "node_actions lib n =
     (if lib_trim lib (cmdStr n) = [] \<or> nd_times n \<le> 0 then []
      else (if nd_delay n > 0 then [Pause (nd_delay n)] else []) @ node_lines lib (cmdStr n) @
        concat (replicate (nat (nd_times n) - 1) ((if nd_interval n > 0 then [Pause (nd_interval n)] else []) @ node_lines lib (cmdStr n))))"

definition line_words :: "cmd_lib \<Rightarrow> 'w icmder_manager \<Rightarrow> string \<Rightarrow> string list option" where
  "line_words lib m l =
     (case lib_args lib l of
        None \<Rightarrow> None | Some [] \<Rightarrow> Some [] | Some [[]] \<Rightarrow> Some []
      | Some (w # ws) \<Rightarrow> (case aliases m w of None \<Rightarrow> Some (w # ws)
          | Some a \<Rightarrow> map_option (\<lambda>as. as @ ws) (lib_args lib (takeWhile (\<lambda>c. c \<noteq> CHR 0x23) a))))"

definition run_line :: "cmd_lib \<Rightarrow> 'w icmder_manager \<Rightarrow> string \<Rightarrow> 'w run_state \<Rightarrow> 'w result" where
  "run_line lib m l s =
     (case line_words lib m l of
        None \<Rightarrow> (Inl bad_arguments, s) | Some [] \<Rightarrow> (Inr 1, s)
      | Some (w # ws) \<Rightarrow> (case cmders m w of None \<Rightarrow> (Inl format_error, s) | Some c \<Rightarrow> bc_handle c ws s))"

fun run_actions :: "(string \<Rightarrow> 'w run_state \<Rightarrow> 'w result) \<Rightarrow> action list \<Rightarrow> 'w run_state \<Rightarrow> 'w result" where
  "run_actions run [] s = (Inr 0, s)"
| "run_actions run (Pause d # as) s = run_actions run as (s\<lparr>slept := slept s @ [d]\<rparr>)"
| "run_actions run (Line l # as) s =
     (case run l s of (Inl e, s') \<Rightarrow> (Inl e, s') | (Inr r, s') \<Rightarrow> if r = 0 then run_actions run as s' else (Inr r, s'))"

lemma run_actions_append:
  "run_actions run (as @ bs) s =
     (case run_actions run as s of (Inl e, s') \<Rightarrow> (Inl e, s') | (Inr r, s') \<Rightarrow> if r = 0 then run_actions run bs s' else (Inr r, s'))"
  by (induction run as s rule: run_actions.induct) (auto split: prod.split sum.split)

lemma search_hash: "search [CHR 0x23] s = (if CHR 0x23 \<in> set s then Some (length (takeWhile (\<lambda>c. c \<noteq> CHR 0x23) s)) else None)"
  by (induction s) auto

lemma trim_first_hash: "trim_first s ''#'' = takeWhile (\<lambda>c. c \<noteq> CHR 0x23) s"
proof (cases "CHR 0x23 \<in> set s")
  case True
  then show ?thesis by (simp add: trim_first_def search_hash flip: takeWhile_eq_take)
next
  case False
  then have "takeWhile (\<lambda>c. c \<noteq> CHR 0x23) s = s" by (auto simp: takeWhile_eq_all_conv)
  with False show ?thesis by (metis trim_first_def search_hash list.distinct(1) option.case(1))
qed

lemma handle_input_line: "handle_input lib l m s = run_line lib m l s"
proof (cases "lib_args lib l")
  case (Some strs)
  consider "strs = []" | "strs = [[]]" | w ws where "strs = w # ws" "\<not> (w = [] \<and> ws = [])" by (cases strs) auto
  then show ?thesis
  proof cases
    case 3
    then have "line_words lib m l = process_alias lib strs m"
      using Some by (cases "aliases m w"; cases w; cases ws) (simp_all add: line_words_def process_alias_def trim_first_hash)
    moreover have "handle_input lib l m s = handle_args lib strs m s" using 3 Some by (auto simp: handle_input_def)
    ultimately show ?thesis
      by (cases "process_alias lib strs m"; cases "the (process_alias lib strs m)")
        (auto simp: handle_args_def run_line_def internal_handle_input_def split: option.split)
  qed (simp_all add: Some handle_input_def run_line_def line_words_def)
qed (simp add: handle_input_def run_line_def line_words_def)

lemma execute_lines_actions:
  assumes "\<And>s. set (lib_trim lib s) \<subseteq> set s"
  shows "execute_lines lib m ls s = run_actions (run_line lib m)
    (map Line (filter (\<lambda>l. l \<noteq> []) (map (\<lambda>l. lib_trim lib (takeWhile (\<lambda>c. c \<noteq> CHR 0x23) l)) ls))) s"
proof (induction ls arbitrary: s)
  case (Cons l ls)
  let ?t = "lib_trim lib (takeWhile (\<lambda>c. c \<noteq> CHR 0x23) l)"
  have "CHR 0x23 \<notin> set ?t" using assms [of "takeWhile (\<lambda>c. c \<noteq> CHR 0x23) l"] by (auto dest: set_takeWhileD)
  then have "take 1 ?t \<noteq> ''#''" by (cases ?t) auto
  then show ?case
    using Cons.IH by (auto simp: execute_cmd_one_line_def trim_first_hash handle_input_line Let_def split: prod.split sum.split)
qed simp

lemma times_loop_actions:
  assumes "\<And>s. body s = run_actions run as s"
  shows "int k \<le> n \<Longrightarrow> times_loop body n intv (n - int k) s =
    (case k of 0 \<Rightarrow> (Inr 0, s)
     | Suc j \<Rightarrow> run_actions run (as @ concat (replicate j ((if intv > 0 then [Pause intv] else []) @ as))) s)"
proof (induction k arbitrary: s)
  case 0
  then show ?case by (subst times_loop.simps) simp
next
  case (Suc k)
  let ?p = "if intv > 0 then [Pause intv] else []"
  have ix: "n - int (Suc k) + 1 = n - int k" "n - int (Suc k) < n" "n - int k < n \<longleftrightarrow> 0 < k" by auto
  have "times_loop body n intv (n - int k) t =
      (case k of 0 \<Rightarrow> (Inr 0, t) | Suc j \<Rightarrow> run_actions run (as @ concat (replicate j (?p @ as))) t)" for t
    using Suc.prems by (intro Suc.IH) simp
  then have rest: "times_loop body n intv (n - int k) (if 0 < k \<and> 0 < intv then sleep intv t else t) =
      run_actions run (concat (replicate k (?p @ as))) t" for t
    by (cases k) (simp_all add: sleep_def)
  obtain res t where r: "run_actions run as s = (res, t)" by force
  have "times_loop body n intv (n - int (Suc k)) s =
      (case res of Inl e \<Rightarrow> (Inl e, t) | Inr ret \<Rightarrow> if ret \<noteq> 0 then (Inr ret, t) else run_actions run (concat (replicate k (?p @ as))) t)"
    using times_loop.simps [of body n intv "n - int (Suc k)" s] rest [of t] by (simp only: ix assms r prod.case if_True cong: sum.case_cong)
  then show ?case by (cases res) (simp_all add: run_actions_append r)
qed

lemma node_result_actions:
  assumes "\<And>s. set (lib_trim lib s) \<subseteq> set s"
  shows "node_result lib m n s = run_actions (run_line lib m) (node_actions lib n) s"
proof (cases "is_empty_or_white_spate (lib_trim lib) (cmdStr n) \<or> nd_times n \<le> 0")
  case True
  then show ?thesis using assms [of "[]"] by (auto simp: node_result_def node_actions_def is_empty_or_white_spate_def)
next
  case False
  then obtain j where j: "nat (nd_times n) = Suc j" by (metis gr0_implies_Suc not_le zero_less_nat_eq)
  have "execute_cmd_string lib m (cmdStr n) s = run_actions (run_line lib m) (node_lines lib (cmdStr n)) s" for s
    by (simp add: execute_cmd_string_def node_lines_def execute_lines_actions [OF assms])
  note * = times_loop_actions [where k = "Suc j" and n = "nd_times n", OF this, of "nd_interval n"]
  have "times_loop (execute_cmd_string lib m (cmdStr n)) (nd_times n) (nd_interval n) 0 t =
      run_actions (run_line lib m) (node_lines lib (cmdStr n) @
        concat (replicate j ((if nd_interval n > 0 then [Pause (nd_interval n)] else []) @ node_lines lib (cmdStr n)))) t" for t
  proof -
    have "nd_times n = int (Suc j)" using j by linarith
    with *[of t] show ?thesis by (simp del: of_nat_Suc)
  qed
  with False j show ?thesis by (simp add: node_result_def node_actions_def is_empty_or_white_spate_def repeat_execute_cmd_node_def sleep_def)
qed

lemma run_nodes_actions:
  assumes "\<And>s. set (lib_trim lib s) \<subseteq> set s"
  shows "run_nodes lib m ns s = run_actions (run_line lib m) (concat (map (node_actions lib) ns)) s"
  by (induction ns arbitrary: s) (auto simp: run_actions_append node_result_actions [OF assms] split: prod.split sum.split)

text \<open>(C36) A script without jumps, started at its first node, ends and does exactly what it means: the nodes in order, each after
  its delay and as often as it says with its interval in between, the lines of each one after the other without comments and empty
  lines, each line by the command its first word names, directly or by an alias, with the other words as arguments; up to the first line
  that fails, whose code is the result, or throws, and nothing behind it. Assumed of trimming is that it adds no characters.\<close>

theorem script_runs_in_order:
  assumes "\<forall>n \<in> set (es_cmds es). nextCmd n = [] \<and> nextCmdWhenFailed n = []" "cur_cmd_index es = 0"
    and "\<And>s. set (lib_trim lib s) \<subseteq> set s"
    and "run_actions (run_line lib (es_manager es)) (concat (map (node_actions lib) (es_cmds es))) s = (r, s')"
  shows "\<exists>es'. execute lib es s = Some (r, es', s')"
  using execute_loop_in_order [OF assms(1), of 0 lib s] assms(2,4)
  by (simp add: execute_def run_nodes_actions [OF assms(3)])

text \<open>A small set-up: words are separated by blanks, and the command \<open>ok\<close> counts its calls while \<open>bad\<close> fails.\<close>

definition small_lib :: cmd_lib where
  "small_lib = \<lparr>lib_trim = (\<lambda>s. s), lib_split = split_compress, lib_args = (\<lambda>s. Some (split_compress s '' ''))\<rparr>"

definition small_manager :: "nat icmder_manager" where
  "small_manager = \<lparr>cmders = [''ok'' \<mapsto> \<lparr>bc_name = ''ok'', bc_desc = [], bc_handle = (\<lambda>args s. (Inr 0, s\<lparr>user := Suc (user s)\<rparr>))\<rparr>,
     ''bad'' \<mapsto> \<lparr>bc_name = ''bad'', bc_desc = [], bc_handle = (\<lambda>args s. (Inr 7, s))\<rparr>],
     cmder_max_length = 3, aliases = Map.empty\<rparr>"

definition small_node :: "string \<Rightarrow> int \<Rightarrow> string \<Rightarrow> string \<Rightarrow> cmd_node" where
  "small_node cmd n name nxt = \<lparr>cmdStr = cmd, nd_retryWhenFailed = False, nd_retryInterval = 1000, nd_retryTimes = 1,
     nd_delay = 0, nd_interval = 0, nd_times = n, nd_name = name, nextCmdWhenFailed = [], nextCmd = nxt\<rparr>"

definition small_service :: "cmd_node list \<Rightarrow> nat execute_service" where
  "small_service cmds = \<lparr>es_manager = small_manager, es_cmds = cmds, cur_cmd_index = 0, cmd_map = index_nodes cmds\<rparr>"

theorem script_runs_in_order_witness:
  "\<exists>es'. execute small_lib (small_service [small_node ''ok'' 3 [] [], small_node ''bad'' 1 [] [], small_node ''ok'' 1 [] []])
     \<lparr>user = 0, slept = []\<rparr> = Some (Inr 7, es', \<lparr>user = 3, slept = []\<rparr>)"
proof -
  let ?cmds = "[small_node ''ok'' 3 [] [], small_node ''bad'' 1 [] [], small_node ''ok'' 1 [] []]"
  have run: "run_actions (run_line small_lib (es_manager (small_service ?cmds)))
      (concat (map (node_actions small_lib) (es_cmds (small_service ?cmds)))) \<lparr>user = 0, slept = []\<rparr> = (Inr 7, \<lparr>user = 3, slept = []\<rparr>)"
    by code_simp
  show ?thesis
    by (rule script_runs_in_order [OF _ _ _ run]) (simp_all add: small_service_def small_node_def small_lib_def)
qed

text \<open>A name stands for the last node that bears it.\<close>

lemma index_nodes_snoc:
  "index_nodes (cmds @ [n]) = (if nd_name n \<noteq> [] then (index_nodes cmds)(nd_name n \<mapsto> int (length cmds)) else index_nodes cmds)"
  by (simp add: index_nodes_def enumerate_append_eq)

lemma index_nodes_unnamed: "index_nodes cmds [] = None"
  by (induction cmds rule: rev_induct) (auto simp: index_nodes_snoc, simp add: index_nodes_def)

lemma index_nodes_last:
  "index_nodes cmds name = Some i \<longleftrightarrow>
    name \<noteq> [] \<and> 0 \<le> i \<and> nat i < length cmds \<and> nd_name (cmds ! nat i) = name \<and>
    (\<forall>j < length cmds. nat i < j \<longrightarrow> nd_name (cmds ! j) \<noteq> name)"
proof (induction cmds rule: rev_induct)
  case Nil
  then show ?case by (simp add: index_nodes_def)
next
  case (snoc n cmds)
  show ?case
  proof (cases "nd_name n = name")
    case True
    then show ?thesis
      by (auto simp: index_nodes_snoc snoc nth_append nat_less_iff less_Suc_eq index_nodes_unnamed split: if_splits)
  next
    case False
    then show ?thesis
      by (auto simp: index_nodes_snoc snoc nth_append less_Suc_eq split: if_splits)
  qed
qed

text \<open>A jump that leads behind node \<open>i\<close>, or ends the script.\<close>

definition forward :: "'w execute_service \<Rightarrow> nat \<Rightarrow> string \<Rightarrow> bool" where
  "forward es i name \<longleftrightarrow> name = [] \<or> (case cmd_map es name of None \<Rightarrow> True | Some j \<Rightarrow> int i < j)"

definition jumps_forward :: "'w execute_service \<Rightarrow> bool" where
  "jumps_forward es \<longleftrightarrow> list_all (\<lambda>i. forward es i (nextCmd (es_cmds es ! i)) \<and> forward es i (nextCmdWhenFailed (es_cmds es ! i)))
     [0..<length (es_cmds es)]"

lemma forward_next:
  assumes "jumps_forward es" "cur_cmd_index es = int i" "i < length (es_cmds es)"
  shows "get_next_cmd_node_index es (es_cmds es ! i) b = -1 \<or> int i < get_next_cmd_node_index es (es_cmds es ! i) b"
proof -
  have "forward es i (nextCmd (es_cmds es ! i))" "forward es i (nextCmdWhenFailed (es_cmds es ! i))"
    using assms(1,3) by (auto simp: jumps_forward_def list_all_iff)
  then show ?thesis
    using assms(2) by (cases b) (auto simp: get_next_cmd_node_index_def forward_def Let_def split: option.splits)
qed

lemma forward_keep: "jumps_forward (es\<lparr>cur_cmd_index := i\<rparr>) = jumps_forward es"
  by (simp add: jumps_forward_def forward_def)

lemma execute_loop_forward:
  assumes "jumps_forward es"
  shows "\<exists>r. execute_loop lib ret es s = Some r"
  using assms
proof (induction "nat (int (length (es_cmds es)) - cur_cmd_index es)" arbitrary: es s ret rule: less_induct)
  case less
  show ?case
  proof (cases "0 \<le> cur_cmd_index es \<and> cur_cmd_index es < int (length (es_cmds es))")
    case False
    then show ?thesis by (simp add: execute_loop_stop)
  next
    case True
    then obtain i where i: "cur_cmd_index es = int i" "i < length (es_cmds es)" by (metis nat_0_le of_nat_less_iff)
    obtain res s' where r: "node_result lib (es_manager es) (es_cmds es ! i) s = (res, s')" by (meson surj_pair)
    have go: "\<exists>r. execute_loop lib ret' (es\<lparr>cur_cmd_index := get_next_cmd_node_index es (es_cmds es ! i) b\<rparr>) s' = Some r" for ret' b
    proof -
      let ?j = "get_next_cmd_node_index es (es_cmds es ! i) b"
      consider "?j = -1" | "int i < ?j" using forward_next [OF less.prems i] by blast
      then show ?thesis
      proof cases
        case 1
        then show ?thesis by (simp add: execute_loop_stop)
      next
        case 2
        then show ?thesis using less.prems i by (intro less.hyps) (auto simp: forward_keep)
      qed
    qed
    show ?thesis
      using go execute_loop_step [OF i, of lib ret s] r by (cases res) auto
  qed
qed

text \<open>A script whose jumps, after success or failure, all lead to later nodes comes to an end, whatever its commands do.\<close>

theorem script_ends:
  assumes "jumps_forward es"
  shows "\<exists>r. execute lib es s = Some r"
  using execute_loop_forward [OF assms, of lib 0 s] by (simp add: execute_def)

theorem script_ends_witness:
  "\<exists>r. execute small_lib (small_service [small_node ''ok'' 1 [] ''z'', small_node ''bad'' 1 [] [], small_node ''ok'' 1 ''z'' []])
     \<lparr>user = 0, slept = []\<rparr> = Some r"
proof -
  have "jumps_forward (small_service [small_node ''ok'' 1 [] ''z'', small_node ''bad'' 1 [] [], small_node ''ok'' 1 ''z'' []])"
    by code_simp
  from script_ends [OF this, of small_lib "\<lparr>user = 0, slept = []\<rparr>"] show ?thesis .
qed

text \<open>A node that names itself as its successor is run for ever; there is no bound on the number of rounds.\<close>

lemma script_may_loop:
  "execute small_lib (small_service [small_node [] 1 ''a'' ''a'']) s = None"
proof -
  let ?es = "small_service [small_node [] 1 ''a'' ''a'']"
  have step: "execute_one small_lib ?es s = (Inr 0, ?es, s)" for s :: "nat run_state"
    by (simp add: execute_one_def execute_node_def get_next_cmd_node_index_def small_service_def small_node_def
        index_nodes_def is_empty_or_white_spate_def)
  have "(lib, es) \<noteq> (small_lib, ?es)" if "execute_loop lib ret es s = Some y" for lib ret es s y
    using that
  proof (rule execute_loop.raw_induct [where P = "\<lambda>lib ret es s y. (lib, es) \<noteq> (small_lib, ?es)", rotated], goal_cases)
    case (1 loop lib ret es s y)
    show ?case
    proof
      assume *: "(lib, es) = (small_lib, ?es)"
      then have "0 \<le> cur_cmd_index es \<and> cur_cmd_index es < int (length (es_cmds es))" by (simp add: small_service_def)
      then have "loop small_lib 0 ?es s = Some y" using 1(2) * step by simp
      from 1(1) [OF this] show False by simp
    qed
  qed
  then have "execute_loop small_lib 0 ?es s \<noteq> Some y" for y by blast
  then show ?thesis by (simp add: execute_def flip: not_Some_eq)
qed

end
