(* ===== verification/Orm.thy ===== *)
theory Orm
  imports Strings
begin

text \<open>
  The object mapper, \<open>src/network/orm\<close>: conditions and assignments built from fields and printed as SQL (\<open>expr.hpp\<close>),
  the statements for inserting, updating, deleting and querying (\<open>smart_db.hpp\<close>), and the connection that sends them and
  connects again when it was lost (\<open>mysql_db.hpp\<close>, \<open>db_common.hpp\<close>). The client library of MySQL is a parameter that
  acts on a server state \<open>'s\<close>; a connection handle is a number, and closing it makes it unusable: using it again is
  the fault \<open>use_after_free\<close>. The texts of numbers and dates are made by the formatting library and are parameters.
\<close>

section \<open>Model\<close>

subsection \<open>Values and fields\<close>

datatype 'n sql_value = num_value 'n | text_value string | date_value string | null_value

fun cast_string :: "('n \<Rightarrow> string) \<Rightarrow> 'n sql_value \<Rightarrow> string" where
  "cast_string num (date_value t) = [CHR 0x27] @ t @ [CHR 0x27]"
| "cast_string num null_value = ''null''"
| "cast_string num (num_value n) = num n"
| "cast_string num (text_value t) = [CHR 0x27] @ t @ [CHR 0x27]"

text \<open>A field that can be selected: an aggregate has no table.\<close>

record select_able =
  field_name :: string
  table_name :: "string option"

record 'n field_proxy = select_able +
  fp_expr :: string
  fp_value :: "'n sql_value"
  is_init :: bool

definition of_table :: "('n, 'm) field_proxy_scheme \<Rightarrow> string" where
  "of_table f = (case table_name f of Some t \<Rightarrow> t | None \<Rightarrow> [])"

definition fp_new :: "string \<Rightarrow> string \<Rightarrow> 'n sql_value \<Rightarrow> 'n field_proxy" where
  "fp_new table name v = \<lparr>field_name = name, table_name = Some table, fp_expr = [], fp_value = v, is_init = False\<rparr>"

definition fp_set_value :: "'n sql_value \<Rightarrow> 'n field_proxy \<Rightarrow> 'n field_proxy" where
  "fp_set_value v f = f\<lparr>is_init := True, fp_value := v\<rparr>"

definition fp_copy_assign :: "'n field_proxy \<Rightarrow> 'n field_proxy \<Rightarrow> 'n field_proxy" where
  "fp_copy_assign other f = f\<lparr>fp_value := fp_value other, is_init := is_init other\<rparr>"

definition fp_assign :: "('n \<Rightarrow> string) \<Rightarrow> 'n sql_value \<Rightarrow> 'n field_proxy \<Rightarrow> 'n field_proxy" where
  "fp_assign num v f =
     (fp_set_value v f)\<lparr>fp_expr := of_table f @ ''.'' @ field_name f @ ''='' @ cast_string num v\<rparr>"

definition fp_assign_expr :: "string \<Rightarrow> 'n field_proxy \<Rightarrow> 'n field_proxy" where
  "fp_assign_expr v f = f\<lparr>fp_expr := of_table f @ ''.'' @ field_name f @ ''='' @ v\<rparr>"

definition add_operator :: "('n \<Rightarrow> string) \<Rightarrow> string \<Rightarrow> 'n sql_value \<Rightarrow> 'n field_proxy \<Rightarrow> string" where
  "add_operator num oper v f = of_table f @ ''.'' @ field_name f @ oper @ cast_string num v"

definition add_oper_with_equal :: "('n \<Rightarrow> string) \<Rightarrow> string \<Rightarrow> 'n sql_value \<Rightarrow> 'n field_proxy \<Rightarrow> 'n field_proxy" where
  "add_oper_with_equal num oper v f =
     f\<lparr>fp_expr := of_table f @ ''.'' @ field_name f @ ''='' @ of_table f @ ''.'' @ field_name f @ oper @ cast_string num v\<rparr>"

definition set_and :: "string \<Rightarrow> string \<Rightarrow> string" where
  "set_and left right = left @ '','' @ right"

definition aggregate :: "string \<Rightarrow> select_able" where
  "aggregate str_func = \<lparr>field_name = str_func, table_name = None\<rparr>"

definition aggregate_of :: "string \<Rightarrow> ('n, 'm) field_proxy_scheme \<Rightarrow> select_able" where
  "aggregate_of str_func f = \<lparr>field_name = str_func @ ''('' @ of_table f @ ''.'' @ field_name f @ '')'', table_name = None\<rparr>"

subsection \<open>Conditions\<close>

type_synonym token = "string \<times> string option"

definition expr_op :: "'m select_able_scheme \<Rightarrow> string \<Rightarrow> token list" where
  "expr_op f op_val = [(field_name f @ op_val, table_name f)]"

definition expr_value :: "('n \<Rightarrow> string) \<Rightarrow> 'm select_able_scheme \<Rightarrow> string \<Rightarrow> 'n sql_value \<Rightarrow> token list" where
  "expr_value num f oper v = [(field_name f @ oper @ cast_string num v, table_name f)]"

definition expr_fields :: "'m select_able_scheme \<Rightarrow> string \<Rightarrow> 'm select_able_scheme \<Rightarrow> token list" where
  "expr_fields f1 oper f2 = [(field_name f1, table_name f1), (oper, None), (field_name f2, table_name f2)]"

definition and_or :: "token list \<Rightarrow> token list \<Rightarrow> string \<Rightarrow> token list" where
  "and_or left right log_op = (''('', None) # left @ [(log_op, None)] @ right @ [('')'', None)]"

text \<open>A text used as a format without arguments: doubled braces stand for one, every other brace is an error.\<close>

fun fmt_write :: "string \<Rightarrow> string option" where
  "fmt_write [] = Some []"
| "fmt_write (c # s) =
     (if c = CHR 0x7B \<or> c = CHR 0x7D then
        (case s of d # s' \<Rightarrow> if d = c then map_option (Cons c) (fmt_write s') else None | [] \<Rightarrow> None)
      else map_option (Cons c) (fmt_write s))"

fun expr_str :: "bool \<Rightarrow> token list \<Rightarrow> string option" where
  "expr_str with_table_name [] = Some []"
| "expr_str with_table_name ((text, table) # ts) =
     (case fmt_write text of
        None \<Rightarrow> None
      | Some t \<Rightarrow> map_option (\<lambda>r. (case table of Some n \<Rightarrow> if with_table_name then n @ ''.'' else [] | None \<Rightarrow> []) @ t @ r)
          (expr_str with_table_name ts))"

subsection \<open>Statements\<close>

record db_proxy =
  sql :: string
  sql_where :: string

definition add_where :: "token list \<Rightarrow> string \<Rightarrow> string option" where
  "add_where where_expr w =
     map_option (\<lambda>e. if w = [] then ''WHERE ('' @ e @ '')'' else w @ '' or ('' @ e @ '')'') (expr_str True where_expr)"

definition dp_where :: "token list \<Rightarrow> db_proxy \<Rightarrow> db_proxy option" where
  "dp_where e p = map_option (\<lambda>w. p\<lparr>sql_where := w\<rparr>) (add_where e (sql_where p))"

definition dp_to_sql :: "db_proxy \<Rightarrow> string" where
  "dp_to_sql p = sql p @ '' '' @ sql_where p"

record query_proxy =
  q_from :: string
  q_select :: string
  q_target :: string
  q_where :: string
  q_groupby :: string
  q_having :: string
  q_orderby :: string
  q_limit :: string
  q_offset :: string

definition query :: "string \<Rightarrow> query_proxy" where
  "query name = \<lparr>q_from = '' from '' @ name @ '' '', q_select = ''SELECT '', q_target = ''*'', q_where = [], q_groupby = [],
     q_having = [], q_orderby = [], q_limit = [], q_offset = []\<rparr>"

definition q_distinct :: "query_proxy \<Rightarrow> query_proxy" where
  "q_distinct q = q\<lparr>q_select := ''SELECT DISTINCT''\<rparr>"

definition q_add_where :: "token list \<Rightarrow> query_proxy \<Rightarrow> query_proxy option" where
  "q_add_where e q = map_option (\<lambda>w. q\<lparr>q_where := w\<rparr>) (add_where e (q_where q))"

definition q_group :: "('n, 'm) field_proxy_scheme \<Rightarrow> query_proxy \<Rightarrow> query_proxy" where
  "q_group f q = q\<lparr>q_groupby := '' group by '' @ of_table f @ ''.'' @ field_name f\<rparr>"

definition q_add_having :: "token list \<Rightarrow> query_proxy \<Rightarrow> query_proxy option" where
  "q_add_having e q = map_option (\<lambda>t. q\<lparr>q_having := '' having '' @ t\<rparr>) (expr_str True e)"

definition q_take :: "(nat \<Rightarrow> string) \<Rightarrow> nat \<Rightarrow> query_proxy \<Rightarrow> query_proxy" where
  "q_take size_str count q = q\<lparr>q_limit := '' limit '' @ size_str count\<rparr>"

definition q_skip :: "(nat \<Rightarrow> string) \<Rightarrow> nat \<Rightarrow> query_proxy \<Rightarrow> query_proxy" where
  "q_skip size_str count q =
     q\<lparr>q_limit := (if q_limit q = [] then '' limit ~0'' else q_limit q), q_offset := '' offset '' @ size_str count\<rparr>"

definition q_order :: "bool \<Rightarrow> ('n, 'm) field_proxy_scheme \<Rightarrow> query_proxy \<Rightarrow> query_proxy" where
  "q_order desc f q =
     q\<lparr>q_orderby := (if q_orderby q = [] then '' order by '' else q_orderby q @ '', '') @ of_table f @ ''.'' @ field_name f @
        (if desc then '' desc'' else [])\<rparr>"

definition get_from_sql :: "query_proxy \<Rightarrow> string" where
  "get_from_sql q = q_from q @ q_where q @ q_groupby q @ q_having q"

definition get_limit :: "query_proxy \<Rightarrow> string" where
  "get_limit q = q_orderby q @ q_limit q @ q_offset q"

definition q_to_sql :: "query_proxy \<Rightarrow> string" where
  "q_to_sql q = q_select q @ q_target q @ get_from_sql q @ get_limit q @ '';''"

fun list_fields :: "('f \<Rightarrow> bool) \<Rightarrow> ('f \<Rightarrow> string) \<Rightarrow> bool \<Rightarrow> 'f list \<Rightarrow> string" where
  "list_fields wanted print is_first [] = []"
| "list_fields wanted print is_first (f # fs) =
     (if \<not> wanted f then list_fields wanted print is_first fs
      else (if is_first then [] else '','') @ print f @ list_fields wanted print False fs)"

definition insert_sql :: "('n \<Rightarrow> string) \<Rightarrow> string \<Rightarrow> 'n field_proxy list \<Rightarrow> string" where
  "insert_sql num table fs =
     ''INSERT INTO `'' @ table @ ''`('' @ list_fields is_init field_name True fs @ '') values('' @
     list_fields is_init (\<lambda>f. cast_string num (fp_value f)) True fs @ '')''"

definition update_item :: "('n \<Rightarrow> string) \<Rightarrow> string \<Rightarrow> 'n field_proxy list \<Rightarrow> db_proxy" where
  "update_item num table fs =
     \<lparr>sql = ''UPDATE `'' @ table @ ''` SET '' @
        list_fields is_init (\<lambda>f. field_name f @ ''='' @ cast_string num (fp_value f)) True fs, sql_where = []\<rparr>"

definition update_fields :: "string \<Rightarrow> 'n field_proxy list \<Rightarrow> db_proxy" where
  "update_fields table fs =
     \<lparr>sql = ''UPDATE `'' @ table @ ''` SET '' @ list_fields (\<lambda>f. True) fp_expr True fs, sql_where = []\<rparr>"

definition delete_item :: "string \<Rightarrow> db_proxy" where
  "delete_item table = \<lparr>sql = ''DELETE FROM `'' @ table @ ''`'', sql_where = []\<rparr>"

subsection \<open>The connection\<close>

datatype db_fault = use_after_free | null_log

text \<open>The calls of the client library: each gives an error number, 0 for success, and changes the server.\<close>

record 's mysql_lib =
  real_connect :: "string \<Rightarrow> string \<Rightarrow> string \<Rightarrow> nat \<Rightarrow> string option \<Rightarrow> 's \<Rightarrow> int \<times> 's"
  lib_select_db :: "string \<Rightarrow> 's \<Rightarrow> int \<times> 's"
  lib_query :: "string \<Rightarrow> 's \<Rightarrow> int \<times> 's"

definition CR_SERVER_GONE_ERROR :: int where "CR_SERVER_GONE_ERROR = 2006"
definition CR_SERVER_LOST :: int where "CR_SERVER_LOST = 2013"

record 's mysql_db =
  conn :: nat
  closed :: "nat list"
  last_errno :: int
  is_connected :: bool
  has_log :: bool
  ip :: string
  port :: nat
  unix_socket :: string
  db_user :: string
  pwd :: string
  db_name :: string
  query_id :: int
  server :: 's

text \<open>The address and the names are taken from the connect string; a port that is not a number throws.\<close>

definition db_new :: "split_fn \<Rightarrow> (string \<Rightarrow> nat option) \<Rightarrow> string \<Rightarrow> bool \<Rightarrow> 's \<Rightarrow> 's mysql_db option" where
  "db_new split cast connect_str log srv =
     (let args = split_to_map split connect_str; arg = (\<lambda>k. case args k of Some v \<Rightarrow> v | None \<Rightarrow> [])
      in map_option (\<lambda>p. \<lparr>conn = 1, closed = [], last_errno = 0, is_connected = False, has_log = log, ip = arg ''ip'', port = p,
          unix_socket = arg ''unix_socket'', db_user = arg ''user'', pwd = arg ''pwd'', db_name = arg ''db'', query_id = 0,
          server = srv\<rparr>) (cast (arg ''port'')))"

definition db_select :: "'s mysql_lib \<Rightarrow> string \<Rightarrow> 's mysql_db \<Rightarrow> int \<times> 's mysql_db" where
  "db_select lib name d =
     (case lib_select_db lib name (server d) of
        (ec, srv) \<Rightarrow> (ec, d\<lparr>db_name := name, server := srv, last_errno := ec\<rparr>))"

definition db_connect :: "'s mysql_lib \<Rightarrow> 's mysql_db \<Rightarrow> int \<times> 's mysql_db" where
  "db_connect lib d =
     (if is_connected d then (0, d)
      else (case real_connect lib (ip d) (db_user d) (pwd d) (port d)
          (if unix_socket d = [] then None else Some (unix_socket d)) (server d) of
        (ec, srv) \<Rightarrow>
          (let d' = d\<lparr>server := srv, last_errno := ec\<rparr>
           in if ec \<noteq> 0 then (ec, d')
              else if db_name d \<noteq> [] then db_select lib (db_name d) (d'\<lparr>is_connected := True\<rparr>)
              else (0, d'\<lparr>is_connected := True\<rparr>))))"

text \<open>A query on a handle of the library: the handle may have been closed.\<close>

definition mysql_query :: "'s mysql_lib \<Rightarrow> nat \<Rightarrow> string \<Rightarrow> 's mysql_db \<Rightarrow> db_fault + int \<times> 's mysql_db" where
  "mysql_query lib h q d =
     (if h \<in> set (closed d) then Inl use_after_free
      else (case lib_query lib q (server d) of (ec, srv) \<Rightarrow> Inr (ec, d\<lparr>server := srv, last_errno := ec\<rparr>)))"

definition mysql_reopen :: "'s mysql_db \<Rightarrow> 's mysql_db" where
  "mysql_reopen d = d\<lparr>is_connected := False, closed := conn d # closed d, conn := Suc (conn d), last_errno := 0\<rparr>"

definition inter_query :: "'s mysql_lib \<Rightarrow> nat \<Rightarrow> string \<Rightarrow> 's mysql_db \<Rightarrow> db_fault + int \<times> 's mysql_db" where
  "inter_query lib mysql q d =
     (case mysql_query lib mysql q (d\<lparr>query_id := query_id d + 1\<rparr>) of
        Inl f \<Rightarrow> Inl f
      | Inr (err, d1) \<Rightarrow>
          if err = 0 then Inr (0, d1)
          else if err = CR_SERVER_GONE_ERROR \<or> err = CR_SERVER_LOST then
            (case db_connect lib (mysql_reopen d1) of
               (mr, d2) \<Rightarrow>
                 if mr \<noteq> 0 then (if has_log d2 \<and> mysql \<in> set (closed d2) then Inl use_after_free else Inr (mr, d2))
                 else (case mysql_query lib mysql q d2 of
                   Inl f \<Rightarrow> Inl f
                 | Inr (second_query, d3) \<Rightarrow>
                     if second_query = 0 \<and> \<not> has_log d3 then Inl null_log else Inr (second_query, d3)))
          else Inr (err, d1))"

definition db_execute :: "'s mysql_lib \<Rightarrow> string \<Rightarrow> 's mysql_db \<Rightarrow> db_fault + int \<times> 's mysql_db" where
  "db_execute lib sql_str d =
     (case inter_query lib (conn d) sql_str d of
        Inl f \<Rightarrow> Inl f
      | Inr (r, d') \<Rightarrow> Inr (if r \<noteq> 0 then last_errno d' else 0, d'))"

text \<open>The version that throws: \<open>Inl\<close> inside is the exception with its code.\<close>

definition db_execute_throw :: "'s mysql_lib \<Rightarrow> string \<Rightarrow> 's mysql_db \<Rightarrow> db_fault + (int + unit) \<times> 's mysql_db" where
  "db_execute_throw lib sql_str d =
     (case db_execute lib sql_str d of
        Inl f \<Rightarrow> Inl f
      | Inr (mr, d') \<Rightarrow> Inr (if mr \<noteq> 0 then Inl mr else Inr (), d'))"

fun execute_batch_loop :: "'s mysql_lib \<Rightarrow> string list \<Rightarrow> 's mysql_db \<Rightarrow> db_fault + (int + unit) \<times> 's mysql_db" where
  "execute_batch_loop lib [] d = Inr (Inr (), d)"
| "execute_batch_loop lib (s # ss) d =
     (if s = [] then execute_batch_loop lib ss d
      else (case db_execute_throw lib s d of
        Inl f \<Rightarrow> Inl f
      | Inr (Inl mr, d') \<Rightarrow> Inr (Inl mr, d')
      | Inr (Inr (), d') \<Rightarrow> execute_batch_loop lib ss d'))"

definition execute_batch :: "split_fn \<Rightarrow> 's mysql_lib \<Rightarrow> string \<Rightarrow> 's mysql_db \<Rightarrow> db_fault + (int + unit) \<times> 's mysql_db" where
  "execute_batch split lib sql_str d = execute_batch_loop lib (split sql_str '';'') d"

definition create_db :: "'s mysql_lib \<Rightarrow> string \<Rightarrow> bool \<Rightarrow> 's mysql_db \<Rightarrow> db_fault + int \<times> 's mysql_db" where
  "create_db lib name use_new_db d =
     (case db_execute lib (''CREATE DATABASE IF NOT EXISTS '' @ name @ '' DEFAULT CHARSET utf8 COLLATE utf8_general_ci;'') d of
        Inl f \<Rightarrow> Inl f
      | Inr (mr, d') \<Rightarrow> if mr \<noteq> 0 then Inr (mr, d') else if use_new_db then Inr (db_select lib name d') else Inr (0, d'))"

definition drop_table :: "'s mysql_lib \<Rightarrow> string \<Rightarrow> 's mysql_db \<Rightarrow> db_fault + (int + unit) \<times> 's mysql_db" where
  "drop_table lib name d = db_execute_throw lib (''DROP TABLE IF EXISTS '' @ name) d"

subsection \<open>Reading rows\<close>

datatype row_fault = no_such_column | bad_cast

definition fields_map :: "string list \<Rightarrow> (string \<rightharpoonup> nat)" where
  "fields_map names = foldl (\<lambda>m (i, n). m(n \<mapsto> i)) Map.empty (enumerate 0 names)"

definition row_get :: "(string \<rightharpoonup> nat) \<Rightarrow> string option list \<Rightarrow> string \<Rightarrow> row_fault + string option" where
  "row_get m row key = (case m key of None \<Rightarrow> Inl no_such_column | Some i \<Rightarrow> Inr (row ! i))"

fun read_row :: "(string option \<Rightarrow> 'v option) \<Rightarrow> (string \<rightharpoonup> nat) \<Rightarrow> string option list \<Rightarrow> string list \<Rightarrow> row_fault + 'v list" where
  "read_row cast m row [] = Inr []"
| "read_row cast m row (n # ns) =
     (case row_get m row n of
        Inl f \<Rightarrow> Inl f
      | Inr str \<Rightarrow> (case cast str of None \<Rightarrow> Inl bad_cast
          | Some v \<Rightarrow> (case read_row cast m row ns of Inl f \<Rightarrow> Inl f | Inr vs \<Rightarrow> Inr (v # vs))))"

fun to_vector :: "(string option \<Rightarrow> 'v option) \<Rightarrow> string list \<Rightarrow> string list \<Rightarrow> string option list list \<Rightarrow> row_fault + 'v list list" where
  "to_vector cast columns names [] = Inr []"
| "to_vector cast columns names (row # rows) =
     (case read_row cast (fields_map columns) row names of
        Inl f \<Rightarrow> Inl f
      | Inr v \<Rightarrow> (case to_vector cast columns names rows of Inl f \<Rightarrow> Inl f | Inr vs \<Rightarrow> Inr (v # vs)))"

section \<open>Conditions\<close>

text \<open>The text of a value is put between quotes as it is, so that a quote in it ends the literal; and it is used as a format, so that
  a brace in it makes the printing fail.\<close>

lemma quote_in_value_ends_literal:
  "expr_str True (expr_value num (fp_new ''user'' ''name'' v) ''='' (text_value [CHR 0x78, CHR 0x27, CHR 0x20, CHR 0x6F, CHR 0x72, CHR 0x20, CHR 0x27, CHR 0x31])) =
    Some (''user.name='' @ [CHR 0x27, CHR 0x78, CHR 0x27] @ '' or '' @ [CHR 0x27, CHR 0x31, CHR 0x27])"
  by (simp add: expr_value_def fp_new_def)

lemma brace_in_value_fails:
  "expr_str True (expr_value num (fp_new ''user'' ''name'' v) ''='' (text_value ''{x}'')) = None"
  by (simp add: expr_value_def fp_new_def)

lemma fmt_write_plain: "CHR 0x7B \<notin> set s \<Longrightarrow> CHR 0x7D \<notin> set s \<Longrightarrow> fmt_write s = Some s"
  by (induction s) auto

text \<open>Conditions added one after the other are alternatives.\<close>

lemma where_chain:
  assumes "expr_str True e1 = Some t1" "expr_str True e2 = Some t2"
  shows "Option.bind (dp_where e1 (delete_item table)) (dp_where e2) =
    Some \<lparr>sql = ''DELETE FROM `'' @ table @ ''`'', sql_where = ''WHERE ('' @ t1 @ '') or ('' @ t2 @ '')''\<rparr>"
  using assms by (simp add: dp_where_def add_where_def delete_item_def)

section \<open>Statements\<close>

lemma list_fields_join:
  "list_fields wanted print first fs =
    (let xs = map print (filter wanted fs)
     in if xs = [] then [] else (if first then [] else '','') @ join_loop CHR '','' xs)"
  by (induction fs arbitrary: first) (auto simp: Let_def)

text \<open>An insert names exactly the fields that were given a value, and lists their values in the same order.\<close>

lemma insert_columns_match_values:
  "insert_sql num table fs =
    ''INSERT INTO `'' @ table @ ''`('' @ join_loop CHR '','' (map field_name (filter is_init fs)) @ '') values('' @
    join_loop CHR '','' (map (\<lambda>f. cast_string num (fp_value f)) (filter is_init fs)) @ '')''"
  by (auto simp: insert_sql_def list_fields_join Let_def)

text \<open>A field assigned from another one keeps the assignment it had before: an update by fields does not see the new value.\<close>

lemma copied_field_not_updated:
  "fp_expr (fp_copy_assign other f) = fp_expr f" "fp_value (fp_copy_assign other f) = fp_value other"
  by (simp_all add: fp_copy_assign_def)

text \<open>Skipping without taking asks for all rows, and the order of the two calls does not matter.\<close>

lemma take_skip_commute:
  "get_limit (q_skip ss n (q_take ss m q)) = get_limit (q_take ss m (q_skip ss n q))"
  by (simp add: get_limit_def q_skip_def q_take_def)

section \<open>Rows\<close>

lemma fields_map_snoc: "fields_map (xs @ [n]) = (fields_map xs)(n \<mapsto> length xs)"
  by (simp add: fields_map_def enumerate_append_eq)

lemma fields_map_nth:
  "distinct names \<Longrightarrow> i < length names \<Longrightarrow> fields_map names (names ! i) = Some i"
proof (induction names rule: rev_induct)
  case (snoc n names)
  then show ?case by (cases "i = length names") (auto simp: fields_map_snoc nth_append)
qed simp

text \<open>An object is filled from the columns of its field names, wherever the answer has them.\<close>

lemma read_row_by_name:
  assumes "distinct columns" "length row = length columns" "set names \<subseteq> set columns" "\<And>x. cast x \<noteq> None"
  shows "read_row cast (fields_map columns) row names =
    Inr (map (\<lambda>n. the (cast (the (map_of (zip columns row) n)))) names)"
  using assms(3)
proof (induction names)
  case (Cons n names)
  then obtain i where i: "i < length columns" "n = columns ! i" by (auto simp: in_set_conv_nth)
  have "map_of (zip columns row) n = Some (row ! i)"
    using i assms(1,2) map_of_zip_nth [of columns row i] by simp
  moreover have "fields_map columns n = Some i" using fields_map_nth assms(1) i by simp
  moreover obtain v where "cast (row ! i) = Some v" using assms(4) by blast
  ultimately show ?case using Cons by (simp add: row_get_def)
qed simp

section \<open>The connection\<close>

text \<open>A statement that does not meet a lost connection is sent once, on the open handle, and its error is reported.\<close>

lemma execute_reports:
  assumes "conn d \<notin> set (closed d)" "lib_query lib q (server d) = (err, srv)" "err \<noteq> CR_SERVER_GONE_ERROR" "err \<noteq> CR_SERVER_LOST"
  shows "\<exists>d'. db_execute lib q d = Inr (err, d') \<and> server d' = srv \<and> conn d' = conn d \<and> query_id d' = query_id d + 1"
  using assms by (auto simp: db_execute_def inter_query_def mysql_query_def)

text \<open>(C39) When the connection was lost and connecting again succeeds, the statement is repeated on the handle that was closed: the
  call does not report a result but uses freed memory.\<close>

theorem reconnect_uses_closed_handle:
  assumes "conn d \<notin> set (closed d)" "lib_query lib q (server d) = (err, srv)"
    and "err = CR_SERVER_GONE_ERROR \<or> err = CR_SERVER_LOST"
    and "fst (db_connect lib (mysql_reopen (d\<lparr>query_id := query_id d + 1, server := srv, last_errno := err\<rparr>))) = 0"
  shows "db_execute lib q d = Inl use_after_free"
proof -
  have closed: "closed (snd (db_connect lib e)) = closed e" for e
    by (auto simp: db_connect_def db_select_def Let_def split: prod.split)
  let ?e = "mysql_reopen (d\<lparr>query_id := query_id d + 1, server := srv, last_errno := err\<rparr>)"
  obtain d2 where d2: "db_connect lib ?e = (0, d2)" using assms(4) by (cases "db_connect lib ?e") auto
  then have "conn d \<in> set (closed d2)" using closed [of ?e] by (simp add: mysql_reopen_def)
  moreover have "err \<noteq> 0" using assms(3) by (auto simp: CR_SERVER_GONE_ERROR_def CR_SERVER_LOST_def)
  ultimately show ?thesis
    using assms(1-3) d2 by (auto simp: db_execute_def inter_query_def mysql_query_def)
qed

text \<open>A server that has been restarted: the first query of a handle is lost, connecting works.\<close>

definition restarted_lib :: "nat mysql_lib" where
  "restarted_lib = \<lparr>real_connect = (\<lambda>h u p n s srv. (0, srv)), lib_select_db = (\<lambda>n srv. (0, srv)),
     lib_query = (\<lambda>q srv. if srv = 0 then (2006, 1) else (0, srv))\<rparr>"

definition restarted_db :: "nat mysql_db" where
  "restarted_db = \<lparr>conn = 1, closed = [], last_errno = 0, is_connected = True, has_log = True, ip = ''h'', port = 3306,
     unix_socket = [], db_user = ''u'', pwd = ''p'', db_name = [], query_id = 0, server = 0\<rparr>"

theorem reconnect_uses_closed_handle_witness:
  "db_execute restarted_lib ''SELECT 1'' restarted_db = Inl use_after_free"
proof (rule reconnect_uses_closed_handle)
  show "lib_query restarted_lib ''SELECT 1'' (server restarted_db) = (2006, 1)" by (simp add: restarted_lib_def restarted_db_def)
qed (simp_all add: restarted_lib_def restarted_db_def CR_SERVER_GONE_ERROR_def mysql_reopen_def db_connect_def)

end
