(* ===== verification/Thrift.thy ===== *)
theory Thrift
  imports Wire_Header
begin

text \<open>
  The adapters to Thrift, \<open>src/network/rpc/thrift\<close>: a header with only a length (\<open>msg.hpp\<close>), the transport through which the
  protocol of Thrift reads one message and writes one message (\<open>transport.hpp\<close>), the client with the thread of its
  connection (\<open>client.hpp\<close>) and the server (\<open>server.hpp\<close>). The streams of the transport are the bytes they hold, as
  \<open>Memory_Stream\<close> shows memory streams to be; reading behind the end is the fault \<open>out_of_bounds\<close>, since
  \<open>read_binary\<close> has no check. The processor generated by Thrift is a parameter.
\<close>

section \<open>Model\<close>

subsection \<open>The header\<close>

record thrift_header =
  th_length :: u32

definition th_init :: "u32 \<Rightarrow> thrift_header" where
  "th_init len = \<lparr>th_length = len\<rparr>"

definition th_ntoh :: "bool \<Rightarrow> thrift_header \<Rightarrow> thrift_header" where
  "th_ntoh be h = (if \<not> be then h else h\<lparr>th_length := ntoh32 (th_length h)\<rparr>)"

definition th_hton :: "bool \<Rightarrow> thrift_header \<Rightarrow> thrift_header" where
  "th_hton be h = (if \<not> be then h else h\<lparr>th_length := hton32 (th_length h)\<rparr>)"

definition th_to_buffer :: "thrift_header \<Rightarrow> bytes" where
  "th_to_buffer h = le_bytes 4 (th_length h)"

definition th_of_bytes :: "bytes \<Rightarrow> thrift_header" where
  "th_of_bytes bs = \<lparr>th_length = le_word (take 4 bs)\<rparr>"

subsection \<open>The transport\<close>

datatype transport_fault = out_of_bounds | null_connection

text \<open>The connection as the transport sees it: open or not, and the bodies of the messages given to it.\<close>

record connection =
  c_open :: bool
  c_written :: "bytes list"

record transport =
  t_conn :: "connection option"
  t_current :: "bytes option"
  t_reader :: bytes
  t_writer :: bytes

definition transport_new :: "connection option \<Rightarrow> transport" where
  "transport_new c = \<lparr>t_conn = c, t_current = None, t_reader = [], t_writer = []\<rparr>"

definition read_virt :: "u32 \<Rightarrow> 'm transport_scheme \<Rightarrow> transport_fault + u32 \<times> bytes \<times> 'm transport_scheme" where
  "read_virt len t =
     (if unat len \<le> length (t_reader t)
      then Inr (len, take (unat len) (t_reader t), t\<lparr>t_reader := drop (unat len) (t_reader t)\<rparr>)
      else Inl out_of_bounds)"

definition write_virt :: "bytes \<Rightarrow> 'm transport_scheme \<Rightarrow> 'm transport_scheme" where
  "write_virt buf t = t\<lparr>t_writer := t_writer t @ buf\<rparr>"

text \<open>\<open>borrow\<close> gives the unread bytes whatever length was asked for; \<open>consume\<close> does nothing when there are fewer.\<close>

definition borrow_virt :: "u32 \<Rightarrow> 'm transport_scheme \<Rightarrow> bytes" where
  "borrow_virt len t = t_reader t"

definition consume_virt :: "u32 \<Rightarrow> 'm transport_scheme \<Rightarrow> 'm transport_scheme" where
  "consume_virt len t =
     (if unat len \<le> length (t_reader t) then t\<lparr>t_reader := drop (unat len) (t_reader t)\<rparr> else t)"

definition read_end :: "'m transport_scheme \<Rightarrow> u32 \<times> 'm transport_scheme" where
  "read_end t = (0, t\<lparr>t_current := None\<rparr>)"

definition write_end :: "'m transport_scheme \<Rightarrow> transport_fault + u32 \<times> 'm transport_scheme" where
  "write_end t =
     (case t_conn t of
        None \<Rightarrow> Inl null_connection
      | Some c \<Rightarrow> Inr (0, t\<lparr>t_conn := Some (c\<lparr>c_written := c_written c @ [t_writer t]\<rparr>), t_writer := []\<rparr>))"

definition is_open :: "'m transport_scheme \<Rightarrow> transport_fault + bool" where
  "is_open t = (case t_conn t of None \<Rightarrow> Inl null_connection | Some c \<Rightarrow> Inr (c_open c))"

definition set_current_msg :: "bytes \<Rightarrow> 'm transport_scheme \<Rightarrow> 'm transport_scheme" where
  "set_current_msg msg t = t\<lparr>t_current := Some msg, t_reader := msg\<rparr>"

subsection \<open>The client\<close>

text \<open>Where the user's thread is in \<open>read_virt\<close>: not in it, blocked in \<open>waiter_.wait()\<close>, or past it and before the second
  look at the current message; the connection's thread may act at each of these points.\<close>

datatype read_phase = No_Read | In_Wait u32 | Past_Wait u32

record thrift_client = transport +
  waiter_over :: bool
  tc_phase :: read_phase

definition tc_new :: thrift_client where
  "tc_new = \<lparr>t_conn = Some \<lparr>c_open = False, c_written = []\<rparr>, t_current = None, t_reader = [], t_writer = [], waiter_over = False, tc_phase = No_Read\<rparr>"

text \<open>The thread of the connection.\<close>

definition tc_on_receive :: "bytes \<Rightarrow> thrift_client \<Rightarrow> thrift_client" where
  "tc_on_receive msg t = (set_current_msg msg t)\<lparr>waiter_over := True\<rparr>"

definition tc_on_disconnect :: "thrift_client \<Rightarrow> thrift_client" where
  "tc_on_disconnect t = t\<lparr>waiter_over := True\<rparr>"

definition tc_socket :: "bool \<Rightarrow> thrift_client \<Rightarrow> thrift_client" where
  "tc_socket b t = t\<lparr>t_conn := map_option (\<lambda>c. c\<lparr>c_open := b\<rparr>) (t_conn t)\<rparr>"

text \<open>The three parts of \<open>read_virt\<close>: the first look at the current message, the wait, which is \<open>None\<close> while it blocks, and
  the second look with the read.\<close>

definition tc_read_begin :: "u32 \<Rightarrow> thrift_client \<Rightarrow> thrift_client" where
  "tc_read_begin len t = t\<lparr>tc_phase := (if t_current t = None then In_Wait len else Past_Wait len)\<rparr>"

definition tc_wait :: "thrift_client \<Rightarrow> thrift_client option" where
  "tc_wait t = (case tc_phase t of
     In_Wait len \<Rightarrow> if waiter_over t then Some (t\<lparr>tc_phase := Past_Wait len\<rparr>) else None
   | _ \<Rightarrow> None)"

definition tc_read :: "thrift_client \<Rightarrow> (transport_fault + u32 \<times> bytes \<times> thrift_client) option" where
  "tc_read t = (case tc_phase t of
     Past_Wait len \<Rightarrow>
       (let t' = t\<lparr>tc_phase := No_Read\<rparr>
        in Some (if t_current t' = None then Inr (-1, [], t') else read_virt len t'))
   | _ \<Rightarrow> None)"

text \<open>\<open>writeEnd\<close> connects first when the socket is not open; \<open>connected\<close> says whether that succeeds.\<close>

definition tc_write_end :: "bool \<Rightarrow> thrift_client \<Rightarrow> transport_fault + u32 \<times> thrift_client" where
  "tc_write_end connected t =
     (case t_conn t of
        None \<Rightarrow> Inl null_connection
      | Some c \<Rightarrow>
          (let c' = (if c_open c then c else c\<lparr>c_open := connected\<rparr>)
           in if \<not> c_open c' then Inr (-1, t\<lparr>t_conn := Some c'\<rparr>)
              else write_end (t\<lparr>t_conn := Some c'\<rparr>)))"

subsection \<open>The server\<close>

text \<open>The world of a connection holds the protocol and the transport it owns; deleting the protocol leaves the pointer to the transport.\<close>

record server_conn =
  sv_proto :: "transport option"
  sv_closed :: bool

definition sv_on_connect :: "bool \<Rightarrow> connection \<Rightarrow> server_conn \<Rightarrow> server_conn" where
  "sv_on_connect err c s = (if err then s else s\<lparr>sv_proto := Some (transport_new (Some c))\<rparr>)"

definition sv_on_disconnect :: "server_conn \<Rightarrow> server_conn" where
  "sv_on_disconnect s = s\<lparr>sv_proto := None\<rparr>"

definition sv_on_receive :: "(transport \<Rightarrow> bool \<times> transport) \<Rightarrow> bytes \<Rightarrow> server_conn \<Rightarrow> server_conn" where
  "sv_on_receive process msg s =
     (case sv_proto s of
        None \<Rightarrow> s
      | Some t \<Rightarrow>
          (case process (set_current_msg msg t) of
             (valid, t') \<Rightarrow> s\<lparr>sv_proto := Some t', sv_closed := sv_closed s \<or> \<not> valid\<rparr>))"

section \<open>The header on the wire\<close>

interpretation th: wire_header th_to_buffer th_of_bytes 4 th_hton th_ntoh "\<lambda>_. True"
  by unfold_locales (simp_all add: th_to_buffer_def th_of_bytes_def th_hton_def th_ntoh_def)

text \<open>The length of a message arrives unchanged in front of its body.\<close>

lemma thrift_header_arrives:
  "th_ntoh be (th_of_bytes (th.wire_image be (th_init len) @ body)) = th_init len"
  by (rule th.received_header) simp

section \<open>Calls\<close>

text \<open>What was written to a transport is one message; what was received is read in pieces of any size.\<close>

lemma write_pieces:
  fixes t :: transport
  assumes "t_conn t = Some c" "t_writer t = []"
  shows "\<exists>t'. write_end (foldl (\<lambda>t b. write_virt b t) t bufs) = Inr (0, t') \<and>
    t_conn t' = Some (c\<lparr>c_written := c_written c @ [concat bufs]\<rparr>) \<and> t_writer t' = []"
proof -
  have "foldl (\<lambda>t b. write_virt b t) t bufs = t\<lparr>t_writer := t_writer t @ concat bufs\<rparr>" for t :: transport
    by (induction bufs arbitrary: t) (auto simp: write_virt_def)
  then show ?thesis using assms by (simp add: write_end_def)
qed

fun read_pieces :: "u32 list \<Rightarrow> transport \<Rightarrow> transport_fault + bytes list \<times> transport" where
  "read_pieces [] t = Inr ([], t)"
| "read_pieces (n # ns) t =
     (case read_virt n t of
        Inl f \<Rightarrow> Inl f
      | Inr (r, bs, t') \<Rightarrow> (case read_pieces ns t' of Inl f \<Rightarrow> Inl f | Inr (bss, t'') \<Rightarrow> Inr (bs # bss, t'')))"

lemma read_pieces_concat:
  assumes "sum_list (map unat ns) = length (t_reader t)"
  shows "\<exists>bss t'. read_pieces ns t = Inr (bss, t') \<and> concat bss = t_reader t \<and> t_reader t' = [] \<and> map length bss = map unat ns"
  using assms
proof (induction ns arbitrary: t)
  case (Cons n ns)
  let ?t = "t\<lparr>t_reader := drop (unat n) (t_reader t)\<rparr>"
  have n: "unat n \<le> length (t_reader t)" using Cons.prems by simp
  have "sum_list (map unat ns) = length (t_reader ?t)" using Cons.prems by simp
  from Cons.IH [OF this] obtain bss t' where
    *: "read_pieces ns ?t = Inr (bss, t')" "concat bss = drop (unat n) (t_reader t)" "t_reader t' = []" "map length bss = map unat ns"
    by auto
  then show ?case using n by (auto simp: read_virt_def)
qed simp

text \<open>A server answers with what the processor wrote, and the next message finds the transport ready.\<close>

lemma server_reads_message:
  assumes "sv_proto s = Some t" "process (set_current_msg msg t) = (ok, t')"
  shows "sv_proto (sv_on_receive process msg s) = Some t'" "t_reader (set_current_msg msg t) = msg"
    "sv_closed (sv_on_receive process msg s) = (sv_closed s \<or> \<not> ok)"
  using assms by (simp_all add: sv_on_receive_def set_current_msg_def)

text \<open>The first call of a client waits for its answer and reads it.\<close>

lemma first_answer_is_read:
  assumes "t_current t = None" "\<not> waiter_over t" "unat len \<le> length msg"
  shows "tc_wait (tc_read_begin len t) = None"
    "\<exists>w. tc_wait (tc_on_receive msg (tc_read_begin len t)) = Some w \<and>
       tc_read w = Some (Inr (len, take (unat len) msg, (tc_on_receive msg t)\<lparr>tc_phase := No_Read, t_reader := drop (unat len) msg\<rparr>))"
  using assms by (simp_all add: tc_read_begin_def tc_wait_def tc_read_def tc_on_receive_def set_current_msg_def read_virt_def)

text \<open>What the user does, one call after the other, and opening or closing of the socket; with it, what the thread of the
  connection does.\<close>

inductive tc_user :: "thrift_client \<Rightarrow> thrift_client \<Rightarrow> bool" where
  u_write: "tc_phase t = No_Read \<Longrightarrow> tc_user t (write_virt buf t)"
| u_write_end: "tc_phase t = No_Read \<Longrightarrow> tc_write_end ok t = Inr (r, t') \<Longrightarrow> tc_user t t'"
| u_read_begin: "tc_phase t = No_Read \<Longrightarrow> tc_user t (tc_read_begin len t)"
| u_wait: "tc_wait t = Some t' \<Longrightarrow> tc_user t t'"
| u_read: "tc_read t = Some (Inr (r, bs, t')) \<Longrightarrow> tc_user t t'"
| u_read_end: "tc_phase t = No_Read \<Longrightarrow> tc_user t (snd (read_end t))"
| u_socket: "tc_user t (tc_socket b t)"

inductive tc_step :: "thrift_client \<Rightarrow> thrift_client \<Rightarrow> bool" where
  s_user: "tc_user t u \<Longrightarrow> tc_step t u"
| s_receive: "tc_step t (tc_on_receive msg t)"
| s_disconnect: "tc_step t (tc_on_disconnect t)"

inductive_cases tc_userE: "tc_user s t"

lemma read_virt_keeps: "read_virt len t = Inr (r, bs, u) \<Longrightarrow> t_current u = t_current t \<and> waiter_over u = waiter_over t"
  by (auto simp: read_virt_def split: if_splits)

lemma tc_user_keeps:
  assumes "tc_user s t"
  shows "waiter_over t = waiter_over s" "t_current s = None \<Longrightarrow> t_current t = None"
  using assms
  by (auto elim!: tc_userE dest!: read_virt_keeps simp: write_virt_def tc_write_end_def write_end_def tc_read_begin_def tc_wait_def
      tc_read_def read_end_def tc_socket_def Let_def split: option.splits if_splits read_phase.splits)

lemma tc_step_keeps: "tc_step s t \<Longrightarrow> waiter_over s \<Longrightarrow> waiter_over t"
  by (induction rule: tc_step.induct) (auto simp: tc_user_keeps tc_on_receive_def tc_on_disconnect_def)

text \<open>(C33) The waiter of a client is never reset. Before the first answer and the first disconnect, a read blocks. But in every state
  \<open>u\<close> that a client reaches after it has received an answer, whatever was written and read and however answers and disconnects
  followed, when that answer has been read to its end a read that begins does not block: the wait is over at once, and
  unless the next answer arrives before the second look, the read returns \<open>-1\<close>.\<close>

theorem later_answers_not_awaited:
  assumes "tc_user\<^sup>*\<^sup>* tc_new s" "tc_phase s = No_Read"
    and "tc_step\<^sup>*\<^sup>* (tc_on_receive msg t) u" "t_current u = None" "tc_phase u = No_Read"
  shows "tc_wait (tc_read_begin len s) = None \<and>
    (\<exists>w. tc_wait (tc_read_begin len u) = Some w \<and> tc_read w = Some (Inr (-1, [], u)) \<and>
       tc_read (tc_on_receive next w) = Some (read_virt len (tc_on_receive next u)))"
proof -
  from assms(1) have "t_current s = None \<and> \<not> waiter_over s"
    by (induction rule: rtranclp_induct) (auto simp: tc_new_def tc_user_keeps)
  then have "tc_wait (tc_read_begin len s) = None" by (simp add: tc_read_begin_def tc_wait_def)
  moreover from assms(3) have "waiter_over u"
    by (induction rule: rtranclp_induct) (auto simp: tc_on_receive_def dest: tc_step_keeps)
  moreover have "v\<lparr>tc_phase := No_Read\<rparr> = v" if "tc_phase v = No_Read" for v :: thrift_client using that by (cases v) simp
  from this [of u] this [of "tc_on_receive next u"]
  have "u\<lparr>tc_phase := No_Read\<rparr> = u" "(tc_on_receive next u)\<lparr>tc_phase := No_Read\<rparr> = tc_on_receive next u"
    using assms(5) by (simp_all add: tc_on_receive_def set_current_msg_def)
  ultimately show ?thesis
    using assms(4) by (intro conjI exI [of _ "u\<lparr>tc_phase := Past_Wait len\<rparr>"])
      (simp_all add: tc_read_begin_def tc_wait_def tc_read_def tc_on_receive_def set_current_msg_def Let_def)
qed

theorem later_answers_not_awaited_witness:
  "\<exists>u w. t_writer u = [7, 8] \<and> tc_wait (tc_read_begin 4 u) = Some w \<and> tc_read w = Some (Inr (-1, [], u))"
proof -
  let ?r = "tc_on_receive [1, 2] tc_new"
  let ?t = "snd (read_end ?r)"
  have p: "tc_phase tc_new = No_Read" "tc_phase ?r = No_Read" "tc_phase ?t = No_Read" "t_current ?t = None" "t_writer ?t = []"
    by (simp_all add: read_end_def tc_on_receive_def set_current_msg_def tc_new_def)
  have "tc_step ?r ?t" "tc_step ?t (write_virt [7, 8] ?t)"
    using u_read_end [OF p(2)] u_write [OF p(3)] by (auto intro: s_user)
  then have "tc_step\<^sup>*\<^sup>* ?r (write_virt [7, 8] ?t)"
    by (meson converse_rtranclp_into_rtranclp rtranclp.rtrancl_refl)
  moreover have "t_current (write_virt [7, 8] ?t) = None" "tc_phase (write_virt [7, 8] ?t) = No_Read"
    "t_writer (write_virt [7, 8] ?t) = [7, 8]" using p by (simp_all add: write_virt_def)
  ultimately show ?thesis
    using later_answers_not_awaited [OF rtranclp.rtrancl_refl p(1), of "[1, 2]" tc_new "write_virt [7, 8] ?t" 4 "[]"] by blast
qed

text \<open>A call that could not be written stays in the stream and is sent in front of the next one.\<close>

lemma refused_call_sent_with_next:
  assumes "t_conn t = Some c" "\<not> c_open c" "t_writer t = a"
  shows "\<exists>t'. tc_write_end False t = Inr (-1, t') \<and>
    (\<exists>t''. tc_write_end True (write_virt b t') = Inr (0, t'') \<and>
      (\<exists>c''. t_conn t'' = Some c'' \<and> c_written c'' = c_written c @ [a @ b]))"
  using assms by (auto simp: tc_write_end_def write_end_def write_virt_def Let_def)

text \<open>A read behind the end of a message leaves the block of the stream.\<close>

lemma short_message_faults: "length msg < unat len \<Longrightarrow> read_virt len (set_current_msg msg t) = Inl out_of_bounds"
  by (simp add: read_virt_def set_current_msg_def)

end
