(* ===== verification/Enum_Meta.thy ===== *)
theory Enum_Meta
  imports Strings Services
begin

text \<open>
  The names of enumerations, \<open>src/network/meta/enum_meta.hpp\<close>: an \<open>enum_helper\<close> keeps the names and numbers of one
  enumeration, the \<open>enum_factory\<close> finds the helpers of a type or of a name. Enumerations registered with the same alias share
  one list of helpers; the lists are numbered, as the shared pointers to them are. \<open>emplace\<close> into a map keeps what is there.
\<close>

section \<open>Model\<close>

type_synonym enum_vec = "(string \<times> u32) list"

record enum_helper =
  eh_name :: string
  eh_vec :: enum_vec
  eh_map :: "string \<rightharpoonup> u32"

definition map_emplace :: "'k \<Rightarrow> 'v \<Rightarrow> ('k \<rightharpoonup> 'v) \<Rightarrow> ('k \<rightharpoonup> 'v)" where
  "map_emplace k v m = (case m k of None \<Rightarrow> m(k \<mapsto> v) | Some _ \<Rightarrow> m)"

definition eh_init :: "string \<Rightarrow> enum_vec \<Rightarrow> enum_helper" where
  "eh_init name vec =
     \<lparr>eh_name = name, eh_vec = vec, eh_map = fold (\<lambda>p. map_emplace (fst p) (snd p)) vec Map.empty\<rparr>"

fun find_value :: "enum_vec \<Rightarrow> u32 \<Rightarrow> string option" where
  "find_value [] t = None"
| "find_value ((n, v) # ps) t = (if t = v then Some n else find_value ps t)"

definition eh_to_string :: "u32 \<Rightarrow> bool \<Rightarrow> enum_helper \<Rightarrow> string option" where
  "eh_to_string t has_enum_name h =
     map_option (\<lambda>n. if \<not> has_enum_name then n else eh_name h @ ''::'' @ n) (find_value (eh_vec h) t)"

definition to_enum_value :: "string \<Rightarrow> enum_helper \<Rightarrow> u32 option" where
  "to_enum_value str h = eh_map h str"

text \<open>After the name of the enumeration was recognised, the whole text is looked up again, not the part behind it.\<close>

definition eh_to_enum :: "string \<Rightarrow> bool \<Rightarrow> enum_helper \<Rightarrow> u32 option" where
  "eh_to_enum str has_enum_name h =
     (case to_enum_value str h of
        Some v \<Rightarrow> Some v
      | None \<Rightarrow>
          if has_enum_name then
            (case split_by_string str ''::'' of
               Some (first, second) \<Rightarrow> if first = eh_name h then to_enum_value str h else None
             | None \<Rightarrow> None)
          else None)"

record enum_factory =
  ef_values :: "enum_helper list list"
  ef_enums :: "string \<rightharpoonup> nat"
  ef_typeids :: "nat \<rightharpoonup> nat"

definition ef_new :: enum_factory where
  "ef_new = \<lparr>ef_values = [], ef_enums = Map.empty, ef_typeids = Map.empty\<rparr>"

definition inter_reg :: "nat \<Rightarrow> string \<Rightarrow> string option \<Rightarrow> enum_vec \<Rightarrow> enum_factory \<Rightarrow> enum_factory" where
  "inter_reg tid enum_name alias_name vec f =
     (let found = (case alias_name of None \<Rightarrow> None | Some a \<Rightarrow> ef_enums f a);
          vals = (case found of Some k \<Rightarrow> ef_values f | None \<Rightarrow> ef_values f @ [[]]);
          k = (case found of Some k \<Rightarrow> k | None \<Rightarrow> length (ef_values f));
          enums = map_emplace enum_name k (ef_enums f)
      in f\<lparr>ef_values := vals[k := vals ! k @ [eh_init enum_name vec]],
           ef_typeids := map_emplace tid k (ef_typeids f),
           ef_enums := (case alias_name of Some a \<Rightarrow> map_emplace a k enums | None \<Rightarrow> enums)\<rparr>)"

definition ef_reg :: "nat \<Rightarrow> string \<Rightarrow> string option \<Rightarrow> enum_vec \<Rightarrow> enum_factory \<Rightarrow> enum_factory" where
  "ef_reg tid enum_name alias_name vec f =
     (if ef_typeids f tid \<noteq> None then f else inter_reg tid enum_name alias_name vec f)"

fun first_some :: "('a \<Rightarrow> 'b option) \<Rightarrow> 'a list \<Rightarrow> 'b option" where
  "first_some g [] = None"
| "first_some g (x # xs) = (case g x of Some r \<Rightarrow> Some r | None \<Rightarrow> first_some g xs)"

definition helpers :: "nat option \<Rightarrow> enum_factory \<Rightarrow> enum_helper list" where
  "helpers k f = (case k of None \<Rightarrow> [] | Some i \<Rightarrow> ef_values f ! i)"

definition ef_to_string :: "nat \<Rightarrow> u32 \<Rightarrow> bool \<Rightarrow> enum_factory \<Rightarrow> string option" where
  "ef_to_string tid t has_enum_name f = first_some (eh_to_string t has_enum_name) (helpers (ef_typeids f tid) f)"

definition ef_to_string_named :: "string \<Rightarrow> u32 \<Rightarrow> bool \<Rightarrow> enum_factory \<Rightarrow> string option" where
  "ef_to_string_named enum_name t has_enum_name f =
     first_some (eh_to_string t has_enum_name) (helpers (ef_enums f enum_name) f)"

definition ef_to_enum :: "nat \<Rightarrow> string \<Rightarrow> bool \<Rightarrow> enum_factory \<Rightarrow> u32 option" where
  "ef_to_enum tid str has_enum_name f = first_some (eh_to_enum str has_enum_name) (helpers (ef_typeids f tid) f)"

definition get_enum_info_list :: "nat \<Rightarrow> enum_factory \<Rightarrow> enum_vec" where
  "get_enum_info_list tid f = (case helpers (ef_typeids f tid) f of [] \<Rightarrow> [] | h # _ \<Rightarrow> eh_vec h)"

section \<open>One enumeration\<close>

interpretation enum_names: first_wins map_emplace "\<lambda>m. m" "\<lambda>_. True"
  by unfold_locales (auto simp: map_emplace_def split: option.splits)

lemma find_map_of: "map_option snd (find (\<lambda>p. fst p = k) vec) = map_of vec k"
  by (induction vec) auto

lemma eh_map_init: "eh_map (eh_init name vec) = map_of vec"
proof
  fix k
  show "eh_map (eh_init name vec) k = map_of vec k"
    using enum_names.fold_look [where m = Map.empty and key = fst and val = snd and xs = vec and k = k] by (simp add: eh_init_def find_map_of)
qed

lemma find_value_mem: "find_value vec t = Some n \<Longrightarrow> (n, t) \<in> set vec"
  by (induction vec t rule: find_value.induct) (auto split: if_splits)

lemma find_value_distinct:
  "distinct (map snd vec) \<Longrightarrow> (n, t) \<in> set vec \<Longrightarrow> find_value vec t = Some n"
  by (induction vec t rule: find_value.induct) (auto simp: image_iff split: if_splits)

lemma find_value_None: "find_value vec t = None \<longleftrightarrow> t \<notin> snd ` set vec"
  by (induction vec t rule: find_value.induct) auto

section \<open>The factory\<close>

text \<open>Every number refers to a list of helpers, and every helper was made by \<open>eh_init\<close>.\<close>

definition ef_inv :: "enum_factory \<Rightarrow> bool" where
  "ef_inv f \<longleftrightarrow> (\<forall>k \<in> ran (ef_enums f) \<union> ran (ef_typeids f). k < length (ef_values f)) \<and>
     (\<forall>hs \<in> set (ef_values f). \<forall>h \<in> set hs. eh_map h = map_of (eh_vec h))"

lemma ran_emplace: "x \<in> ran (map_emplace k v m) \<Longrightarrow> x = v \<or> x \<in> ran m"
  by (auto simp: map_emplace_def ran_def split: option.splits if_splits)

lemma ef_new_inv: "ef_inv ef_new"
  by (simp add: ef_inv_def ef_new_def)

lemma ef_reg_inv:
  assumes "ef_inv f"
  shows "ef_inv (ef_reg tid n al vec f)"
proof (cases "ef_typeids f tid")
  case (Some k)
  then show ?thesis using assms by (simp add: ef_reg_def)
next
  case None
  let ?found = "case al of None \<Rightarrow> None | Some a \<Rightarrow> ef_enums f a"
  let ?vals = "case ?found of Some k \<Rightarrow> ef_values f | None \<Rightarrow> ef_values f @ [[]]"
  let ?k = "case ?found of Some k \<Rightarrow> k | None \<Rightarrow> length (ef_values f)"
  let ?f = "inter_reg tid n al vec f"
  have known: "x < length (ef_values f)" if "x \<in> ran (ef_enums f) \<union> ran (ef_typeids f)" for x
    using assms that by (auto simp: ef_inv_def)
  have k: "?k < length ?vals" "length (ef_values f) \<le> length ?vals"
    using known by (auto split: option.splits intro: ranI)
  have vals: "ef_values ?f = ?vals[?k := ?vals ! ?k @ [eh_init n vec]]"
    by (simp add: inter_reg_def Let_def)
  have "x = ?k \<or> x \<in> ran (ef_enums f) \<union> ran (ef_typeids f)" if "x \<in> ran (ef_enums ?f) \<union> ran (ef_typeids ?f)" for x
    using that by (auto simp: inter_reg_def Let_def dest!: ran_emplace split: option.splits)
  then have 1: "\<forall>x \<in> ran (ef_enums ?f) \<union> ran (ef_typeids ?f). x < length (ef_values ?f)"
    using k known unfolding vals by (fastforce dest: less_le_trans)
  have old: "eh_map h = map_of (eh_vec h)" if "hs \<in> set ?vals" "h \<in> set hs" for hs h
    using assms that by (auto simp: ef_inv_def split: option.splits)
  have "eh_map h = map_of (eh_vec h)" if "hs \<in> set (ef_values ?f)" "h \<in> set hs" for hs h
  proof -
    from that(1) consider "hs \<in> set ?vals" | "hs = ?vals ! ?k @ [eh_init n vec]"
      unfolding vals using set_update_subset_insert [of ?vals ?k "?vals ! ?k @ [eh_init n vec]"] by blast
    then show ?thesis
    proof cases
      case 2
      have "?vals ! ?k \<in> set ?vals" using k(1) by simp
      then show ?thesis using 2 that(2) old by (auto simp: eh_map_init) (simp add: eh_init_def)
    qed (use that old in blast)
  qed
  with 1 None show ?thesis by (simp add: ef_inv_def ef_reg_def)
qed

section \<open>Names and numbers\<close>

text \<open>The list of helpers of a type whose enumerations together give each number one name and each name one number.\<close>

definition unambiguous :: "enum_helper list \<Rightarrow> bool" where
  "unambiguous hs \<longleftrightarrow> distinct (map fst (concat (map eh_vec hs))) \<and> distinct (map snd (concat (map eh_vec hs)))"

lemma first_some_None: "first_some g xs = None \<longleftrightarrow> (\<forall>x \<in> set xs. g x = None)"
  by (induction xs) (auto split: option.splits)

lemma first_some_find:
  "first_some (eh_to_string t False) hs = find_value (concat (map eh_vec hs)) t"
proof -
  have app: "find_value (xs @ ys) t = (case find_value xs t of Some n \<Rightarrow> Some n | None \<Rightarrow> find_value ys t)" for xs ys
    by (induction xs t rule: find_value.induct) auto
  show ?thesis by (induction hs) (auto simp: eh_to_string_def app option.map_ident split: option.split)
qed

lemma first_some_lookup:
  assumes "\<forall>h \<in> set hs. eh_map h = map_of (eh_vec h)"
  shows "first_some (eh_to_enum str False) hs = map_of (concat (map eh_vec hs)) str"
  using assms
  by (induction hs) (auto simp: eh_to_enum_def to_enum_value_def map_add_def split: option.splits)

lemma helpers_made:
  assumes "ef_inv f" "ef_typeids f tid = Some k"
  shows "\<forall>h \<in> set (helpers (Some k) f). eh_map h = map_of (eh_vec h)"
  using assms by (auto simp: ef_inv_def helpers_def ranI)

text \<open>(C32) In every factory reached by registrations, a number that has a name is found again under this name, and a name that stands for a
  number is the name printed for it, where the enumerations of the type do not give a name or a number twice.\<close>

theorem enum_round_trip:
  assumes "ef_inv f" "ef_typeids f tid = Some k" "unambiguous (helpers (Some k) f)"
  shows "ef_to_string tid v False f = Some n \<longleftrightarrow> ef_to_enum tid n False f = Some v"
proof -
  let ?ps = "concat (map eh_vec (helpers (Some k) f))"
  have str: "ef_to_string tid v False f = find_value ?ps v" by (simp add: ef_to_string_def assms(2) first_some_find)
  have enum: "ef_to_enum tid n False f = map_of ?ps n"
    by (simp add: ef_to_enum_def assms(2) first_some_lookup [OF helpers_made [OF assms(1,2)]])
  have d: "distinct (map fst ?ps)" "distinct (map snd ?ps)" using assms(3) by (simp_all add: unambiguous_def)
  have "find_value ?ps v = Some n \<longleftrightarrow> (n, v) \<in> set ?ps"
    using find_value_mem find_value_distinct [OF d(2)] by blast
  moreover have "map_of ?ps n = Some v \<longleftrightarrow> (n, v) \<in> set ?ps"
    using map_of_eq_Some_iff [OF d(1)] by blast
  ultimately show ?thesis by (simp add: str enum)
qed

definition sample_factory :: enum_factory where
  "sample_factory = ef_reg 2 ''more'' (Some ''colors'') [(''blue'', 5)]
     (ef_reg 1 ''color'' (Some ''colors'') [(''red'', 1), (''green'', 2)] ef_new)"

theorem enum_round_trip_witness:
  "ef_to_string 2 1 False sample_factory = Some ''red'' \<and> ef_to_enum 2 ''red'' False sample_factory = Some 1"
proof -
  have inv: "ef_inv sample_factory" unfolding sample_factory_def by (intro ef_reg_inv ef_new_inv)
  have k: "ef_typeids sample_factory 2 = Some 0" and u: "unambiguous (helpers (Some 0) sample_factory)"
    and s: "ef_to_string 2 1 False sample_factory = Some ''red''"
    by code_simp+
  from enum_round_trip [OF inv k u] s show ?thesis by blast
qed

text \<open>With the name of the enumeration in front, the printed text is not understood again.\<close>

lemma qualified_name_not_read:
  "ef_to_string 1 1 True sample_factory = Some ''color::red'' \<and> ef_to_enum 1 ''color::red'' True sample_factory = None"
  by code_simp

text \<open>In a list shared by an alias the first helper that has the number wins, also for another type.\<close>

lemma shared_number_named_by_first:
  "ef_to_string 2 1 False (ef_reg 2 ''b'' (Some ''g'') [(''y'', 1)] (ef_reg 1 ''a'' (Some ''g'') [(''x'', 1)] ef_new)) = Some ''x''"
  by code_simp

end
