(* ===== verification/Date_Time.thy ===== *)
theory Date_Time
  imports Prelude
begin

text \<open>
  Times of day and dates, \<open>src/network/base/date_time.hpp\<close>: construction from seconds, arithmetic, comparison, days of a month and
  formatting. A \<open>ptime\<close> of Boost is the number of milliseconds of the wall clock since 1970; the calendar fields it has,
  the reading of the local clock and the zone are parameters. Padding writes the digits of a number with zeros in front.
\<close>

section \<open>Model\<close>

subsection \<open>Points in time\<close>

type_synonym ptime = int

text \<open>Division and remainder of C++, which round towards zero.\<close>

definition c_div :: "int \<Rightarrow> int \<Rightarrow> int" where
  "c_div a b = sgn a * sgn b * (\<bar>a\<bar> div \<bar>b\<bar>)"

definition c_mod :: "int \<Rightarrow> int \<Rightarrow> int" where
  "c_mod a b = a - c_div a b * b"

definition date_time_of :: "(int \<Rightarrow> int) \<Rightarrow> int \<Rightarrow> int \<Rightarrow> bool \<Rightarrow> ptime" where
  "date_time_of localtime second ms is_utc =
     (let neg_val = (if second < 0 then -1 else 0); second = (if second < 0 then 0 else second)
      in (if is_utc then localtime second else second) * 1000 + ms + neg_val * 1000)"

definition from_local :: "(int \<Rightarrow> int) \<Rightarrow> int \<Rightarrow> int \<Rightarrow> ptime" where
  "from_local lt second ms = date_time_of lt second ms False"

definition from_utc :: "(int \<Rightarrow> int) \<Rightarrow> int \<Rightarrow> int \<Rightarrow> ptime" where
  "from_utc lt second ms = date_time_of lt second ms True"

definition from_local_milliseconds :: "(int \<Rightarrow> int) \<Rightarrow> int \<Rightarrow> ptime" where
  "from_local_milliseconds lt milliseconds = date_time_of lt (c_div milliseconds 1000) (c_mod milliseconds 1000) False"

definition from_utc_milliseconds :: "(int \<Rightarrow> int) \<Rightarrow> int \<Rightarrow> ptime" where
  "from_utc_milliseconds lt milliseconds = date_time_of lt (c_div milliseconds 1000) (c_mod milliseconds 1000) True"

definition add_ms :: "int \<Rightarrow> ptime \<Rightarrow> ptime" where "add_ms n t = t + n"
definition add_seconds :: "int \<Rightarrow> ptime \<Rightarrow> ptime" where "add_seconds n t = t + 1000 * n"
definition add_minutes :: "int \<Rightarrow> ptime \<Rightarrow> ptime" where "add_minutes n t = t + 60000 * n"
definition add_hours :: "int \<Rightarrow> ptime \<Rightarrow> ptime" where "add_hours n t = t + 3600000 * n"
definition add_days :: "int \<Rightarrow> ptime \<Rightarrow> ptime" where "add_days n t = t + 86400000 * n"
definition add_weeks :: "int \<Rightarrow> ptime \<Rightarrow> ptime" where "add_weeks n t = t + 7 * 86400000 * n"

definition to_utc :: "int \<Rightarrow> ptime \<Rightarrow> ptime" where
  "to_utc zone_seconds t = t - zone_seconds * 1000"

definition compare_to :: "ptime \<Rightarrow> ptime \<Rightarrow> int" where
  "compare_to t u = (if t > u then 1 else if t = u then 0 else -1)"

text \<open>The seconds since 1970 as an \<open>int\<close> of 32 bits.\<close>

definition total_seconds :: "ptime \<Rightarrow> int" where
  "total_seconds t = sint (word_of_int (c_div t 1000) :: 32 word)"

definition total_milliseconds :: "ptime \<Rightarrow> int" where "total_milliseconds t = t"

definition utc_seconds :: "int \<Rightarrow> ptime \<Rightarrow> int" where
  "utc_seconds zone_seconds t = total_seconds t - zone_seconds"

definition utc_milliseconds :: "int \<Rightarrow> ptime \<Rightarrow> int" where
  "utc_milliseconds zone_seconds t = total_milliseconds t - zone_seconds * 1000"

definition utc_nanoseconds :: "int \<Rightarrow> ptime \<Rightarrow> int" where
  "utc_nanoseconds zone_seconds t = t * 1000000 - zone_seconds * 1000 * 1000"

definition zone_hours :: "int \<Rightarrow> int" where
  "zone_hours zone_seconds = c_div zone_seconds 3600"

definition day_in_month :: "int \<Rightarrow> int \<Rightarrow> int" where
  "day_in_month year month =
     (let day_of_month = [31, 31, 28, 31, 30, 31, 30, 31, 31, 30, 31, 30, 31] :: int list;
          m = (if month < 1 \<or> month > 12 then 0 else month)
      in if m = 2 \<and> ((c_mod year 4 = 0 \<and> c_mod year 100 \<noteq> 0) \<or> c_mod year 400 = 0) then 29
         else day_of_month ! nat m)"

subsection \<open>Formatting\<close>

record fields =
  year :: nat
  month :: nat
  day :: nat
  hour :: nat
  minute :: nat
  second :: nat
  millis :: nat
  zone :: int

fun digits :: "nat \<Rightarrow> string" where
  "digits n = (if n < 10 then [char_of (48 + n)] else digits (n div 10) @ [char_of (48 + n mod 10)])"

declare digits.simps [simp del]

definition pad :: "nat \<Rightarrow> nat \<Rightarrow> string" where
  "pad n w = replicate (w - length (digits n)) (CHR ''0'') @ digits n"

definition signed_pad :: "int \<Rightarrow> string" where
  "signed_pad n = (if n < 0 then ''-'' else ''+'') @ pad (nat \<bar>n\<bar>) 2"

definition to_string :: "fields \<Rightarrow> string" where
  "to_string t = digits (year t) @ ''-'' @ pad (month t) 2 @ ''-'' @ pad (day t) 2 @ '' '' @
     pad (hour t) 2 @ '':'' @ pad (minute t) 2 @ '':'' @ pad (second t) 2"

text \<open>One letter of the format; \<open>ms\<close> is taken before.\<close>

definition format_letter :: "fields \<Rightarrow> char \<Rightarrow> string" where
  "format_letter t c =
     (if c = CHR ''Y'' then pad (year t) 4
      else if c = CHR ''y'' then pad (year t mod 100) 4
      else if c = CHR ''m'' then pad (month t) 2
      else if c = CHR ''d'' \<or> c = CHR ''D'' then pad (day t) 2
      else if c = CHR ''h'' then pad (if hour t > 12 then hour t - 12 else hour t) 2
      else if c = CHR ''H'' then pad (hour t) 2
      else if c = CHR ''M'' then pad (minute t) 2
      else if c = CHR ''s'' \<or> c = CHR ''S'' then pad (second t) 2
      else if c = CHR ''z'' \<or> c = CHR ''Z'' then signed_pad (zone t)
      else [c])"

text \<open>The text and what is left of the format, from the closing brace or the terminator on.\<close>

fun format_loop :: "fields \<Rightarrow> string \<Rightarrow> string \<times> string" where
  "format_loop t [] = ([], [])"
| "format_loop t (c # s) =
     (if c = CHR ''}'' \<or> c = CHR 0x00 then ([], c # s)
      else if c = CHR ''m'' \<and> s \<noteq> [] \<and> hd s = CHR ''s''
      then (case format_loop t (tl s) of (out, rest) \<Rightarrow> (pad (millis t) 3 @ out, rest))
      else (case format_loop t s of (out, rest) \<Rightarrow> (format_letter t c @ out, rest)))"

definition format :: "fields \<Rightarrow> bool \<Rightarrow> string \<Rightarrow> string \<times> string" where
  "format t self_to_string s =
     (if self_to_string \<or> (s \<noteq> [] \<and> hd s = CHR '':'') then
        (case format_loop t (if s \<noteq> [] \<and> hd s = CHR '':'' then tl s else s) of
           (out, rest) \<Rightarrow> (out, if rest \<noteq> [] \<and> hd rest = CHR ''}'' then tl rest else rest))
      else (to_string t, s))"

definition to_string_fmt :: "fields \<Rightarrow> string \<Rightarrow> string" where
  "to_string_fmt t format_str = fst (format t True format_str)"

section \<open>Properties\<close>

lemma c_div_mod: "c_div a b * b + c_mod a b = a"
  by (simp add: c_mod_def)

text \<open>Milliseconds that are not negative are taken over exactly; before 1970 all but the last second is lost.\<close>

lemma from_local_milliseconds_exact:
  assumes "0 \<le> n"
  shows "from_local_milliseconds lt n = n"
proof -
  have "c_div n 1000 = n div 1000" using assms by (cases "n = 0") (auto simp: c_div_def)
  then show ?thesis using assms c_div_mod [of n 1000]
    by (simp add: from_local_milliseconds_def date_time_of_def Let_def pos_imp_zdiv_neg_iff)
qed

lemma negative_time_is_clamped: "from_local_milliseconds lt (-2500) = -1500"
  by (simp add: from_local_milliseconds_def date_time_of_def Let_def c_div_def c_mod_def)

text \<open>The nanoseconds of UTC are wrong by almost the whole zone.\<close>

lemma utc_nanoseconds_off:
  "utc_nanoseconds z t = utc_milliseconds z t * 1000000 + z * 999000000"
  by (simp add: utc_nanoseconds_def utc_milliseconds_def total_milliseconds_def algebra_simps)

lemma c_mod_zero: "0 < b \<Longrightarrow> c_mod a b = 0 \<longleftrightarrow> a mod b = 0"
proof -
  assume b: "0 < b"
  have "c_mod a b = 0 \<longleftrightarrow> b dvd a"
  proof
    assume "c_mod a b = 0"
    then show "b dvd a" using c_div_mod [of a b] by (metis add.right_neutral dvd_triv_right)
  next
    assume "b dvd a"
    then obtain k where k: "a = b * k" by blast
    then have "c_div a b = k" using b by (simp add: c_div_def abs_mult sgn_mult sgn_mult_abs)
    then show "c_mod a b = 0" using k by (simp add: c_mod_def)
  qed
  then show ?thesis by (simp add: dvd_eq_mod_eq_0)
qed

text \<open>The months of a year add up to its days, with the rule of the Gregorian calendar.\<close>

lemma days_of_year:
  "sum_list (map (day_in_month y) [1, 2, 3, 4, 5, 6, 7, 8, 9, 10, 11, 12]) =
    (if (y mod 4 = 0 \<and> y mod 100 \<noteq> 0) \<or> y mod 400 = 0 then 366 else 365)"
  by (simp add: day_in_month_def Let_def c_mod_zero)

lemma length_digits: "10 ^ k \<le> n \<Longrightarrow> k < length (digits n)"
proof (induction k arbitrary: n)
  case 0
  then show ?case by (subst digits.simps) simp
next
  case (Suc k)
  have "10 ^ k \<le> n div 10" using Suc.prems by (simp add: less_eq_div_iff_mult_less_eq mult.commute)
  moreover have "1 \<le> (10 :: nat) ^ k" by simp
  ultimately have "10 ^ k \<le> n div 10" "\<not> n < 10" by (auto dest: order_trans)
  then show ?case using Suc.IH [of "n div 10"] by (subst digits.simps) simp
qed

text \<open>The default text is the one of the format \<open>Y-m-d H:M:S\<close> for years of four digits.\<close>

lemma default_format:
  assumes "1000 \<le> year t"
  shows "to_string t = to_string_fmt t ''Y-m-d H:M:S''"
proof -
  have "pad (year t) 4 = digits (year t)" using length_digits [of 3 "year t"] assms by (simp add: pad_def)
  then show ?thesis by (simp add: to_string_def to_string_fmt_def format_def format_letter_def)
qed

text \<open>The short year takes four places, and the hour after midnight is 00 on the clock of twelve hours.\<close>

lemma short_year_padded:
  assumes "year t = 2024"
  shows "to_string_fmt t ''y'' = ''0024''"
proof -
  have "pad 24 4 = ''0024''" by code_simp
  then show ?thesis using assms by (simp add: to_string_fmt_def format_def format_letter_def)
qed

lemma midnight_is_zero:
  assumes "hour t = 0"
  shows "to_string_fmt t ''h'' = ''00''"
proof -
  have "pad 0 2 = ''00''" by code_simp
  then show ?thesis using assms by (simp add: to_string_fmt_def format_def format_letter_def)
qed

end
