(* ===== verification/World.thy ===== *)
theory World
  imports Prelude
begin

text \<open>
  The world, \<open>src/network/base/world.hpp\<close>: the objects, texts, numbers and functions a server keeps under names, and its objects by
  type; with the factory of single instances (\<open>base/instance_factory.hpp\<close>), the map between types and ids
  (\<open>base/type_map.hpp\<close>), type ids (\<open>base/type_id.hpp\<close>) and the chances of \<open>util/random.hpp\<close>. An object is a number; its type is kept
  beside it, because the code casts it to whatever type is asked for: a wrong one is the fault \<open>wrong_object\<close>. Numbers and
  functions know their type and throw. The locale \<open>slots\<close> is what all these maps promise.
\<close>

section \<open>Model\<close>

datatype world_fault = wrong_object | bad_get | bad_any_cast

datatype num_type = t_bool | t_int8 | t_uint8 | t_int16 | t_uint16 | t_int32 | t_uint32 | t_int64 | t_uint64 | t_float | t_double

type_synonym type_id = int

text \<open>A number with its type; the value is the bit image.\<close>

type_synonym basic_value = "num_type \<times> nat"

record 'f world_map =
  type_obj_map :: "type_id \<rightharpoonup> nat"
  obj_map :: "string \<rightharpoonup> type_id \<times> nat"
  str_map :: "string \<rightharpoonup> string"
  basic_map :: "string \<rightharpoonup> basic_value"
  func_map :: "string \<rightharpoonup> type_id \<times> 'f"
  told :: "nat list"

definition world_new :: "'f world_map" where
  "world_new = \<lparr>type_obj_map = Map.empty, obj_map = Map.empty, str_map = Map.empty, basic_map = Map.empty, func_map = Map.empty, told = []\<rparr>"

text \<open>Setting an object by its type tells it the world when it has \<open>set_world\<close>.\<close>

definition set_obj_type :: "type_id \<Rightarrow> bool \<Rightarrow> nat \<Rightarrow> 'f world_map \<Rightarrow> 'f world_map" where
  "set_obj_type tid has_set_world obj w =
     w\<lparr>type_obj_map := (type_obj_map w)(tid \<mapsto> obj), told := (if has_set_world then told w @ [obj] else told w)\<rparr>"

definition set_obj :: "string \<Rightarrow> type_id \<Rightarrow> bool \<Rightarrow> nat \<Rightarrow> 'f world_map \<Rightarrow> 'f world_map" where
  "set_obj name tid has_set_world obj w =
     set_obj_type tid has_set_world obj (w\<lparr>obj_map := (obj_map w)(name \<mapsto> (tid, obj))\<rparr>)"

definition get_obj_type :: "type_id \<Rightarrow> 'f world_map \<Rightarrow> nat option" where
  "get_obj_type tid w = type_obj_map w tid"

definition get_obj :: "string \<Rightarrow> type_id \<Rightarrow> 'f world_map \<Rightarrow> world_fault + nat option" where
  "get_obj name tid w =
     (case obj_map w name of
        None \<Rightarrow> Inr None
      | Some (t, obj) \<Rightarrow> if t = tid then Inr (Some obj) else Inl wrong_object)"

definition set_string :: "string \<Rightarrow> string \<Rightarrow> 'f world_map \<Rightarrow> 'f world_map" where
  "set_string name v w = w\<lparr>str_map := (str_map w)(name \<mapsto> v)\<rparr>"

definition get_string_or :: "string \<Rightarrow> string \<Rightarrow> 'f world_map \<Rightarrow> string" where
  "get_string_or name or_value w = (case str_map w name of Some v \<Rightarrow> v | None \<Rightarrow> or_value)"

definition get_string :: "string \<Rightarrow> 'f world_map \<Rightarrow> string" where
  "get_string name w = (case str_map w name of Some v \<Rightarrow> v | None \<Rightarrow> [])"

definition set_basic :: "string \<Rightarrow> basic_value \<Rightarrow> 'f world_map \<Rightarrow> 'f world_map" where
  "set_basic name v w = w\<lparr>basic_map := (basic_map w)(name \<mapsto> v)\<rparr>"

definition get_basic_or :: "string \<Rightarrow> num_type \<Rightarrow> nat \<Rightarrow> 'f world_map \<Rightarrow> world_fault + nat" where
  "get_basic_or name t or_value w =
     (case basic_map w name of
        None \<Rightarrow> Inr or_value
      | Some (t', v) \<Rightarrow> if t' = t then Inr v else Inl bad_get)"

definition get_basic :: "string \<Rightarrow> num_type \<Rightarrow> 'f world_map \<Rightarrow> world_fault + nat" where
  "get_basic name t w = get_basic_or name t 0 w"

definition set_function :: "string \<Rightarrow> type_id \<Rightarrow> 'f \<Rightarrow> 'f world_map \<Rightarrow> 'f world_map" where
  "set_function key sig f w = w\<lparr>func_map := (func_map w)(key \<mapsto> (sig, f))\<rparr>"

definition get_function :: "string \<Rightarrow> type_id \<Rightarrow> 'f world_map \<Rightarrow> world_fault + 'f option" where
  "get_function key sig w =
     (case func_map w key of
        None \<Rightarrow> Inr None
      | Some (s, f) \<Rightarrow> if s = sig then Inr (Some f) else Inl bad_any_cast)"

subsection \<open>Instances, ids and chances\<close>

record instance_factory =
  type_to_objs :: "type_id \<rightharpoonup> nat"
  made :: nat

definition if_get :: "type_id \<Rightarrow> instance_factory \<Rightarrow> nat \<times> instance_factory" where
  "if_get tid f =
     (case type_to_objs f tid of
        Some obj \<Rightarrow> (obj, f)
      | None \<Rightarrow> (made f, f\<lparr>type_to_objs := (type_to_objs f)(tid \<mapsto> made f), made := Suc (made f)\<rparr>))"

record 'i base_type_map =
  id_to_type :: "'i \<rightharpoonup> type_id"
  type_to_id :: "type_id \<rightharpoonup> 'i"
  default_id :: 'i

definition tm_set :: "type_id \<Rightarrow> 'i \<Rightarrow> 'i base_type_map \<Rightarrow> 'i base_type_map" where
  "tm_set tid i m = m\<lparr>id_to_type := (id_to_type m)(i \<mapsto> tid), type_to_id := (type_to_id m)(tid \<mapsto> i)\<rparr>"

definition tm_get_or :: "type_id \<Rightarrow> 'i \<Rightarrow> 'i base_type_map \<Rightarrow> 'i" where
  "tm_get_or tid i m = (case type_to_id m tid of Some j \<Rightarrow> j | None \<Rightarrow> i)"

definition tm_get :: "type_id \<Rightarrow> 'i base_type_map \<Rightarrow> 'i" where
  "tm_get tid m = tm_get_or tid (default_id m) m"

definition tm_has :: "type_id \<Rightarrow> 'i base_type_map \<Rightarrow> bool" where
  "tm_has tid m \<longleftrightarrow> type_to_id m tid \<noteq> None"

text \<open>The number drawn lies between 0 and the total, both included.\<close>

definition hit :: "int \<Rightarrow> int \<Rightarrow> bool" where "hit chance drawn \<longleftrightarrow> chance > drawn"
definition miss :: "int \<Rightarrow> int \<Rightarrow> bool" where "miss chance drawn \<longleftrightarrow> chance < drawn"

section \<open>Maps of slots\<close>

locale slots =
  fixes put :: "'k \<Rightarrow> 'v \<Rightarrow> 's \<Rightarrow> 's" and look :: "'k \<Rightarrow> 's \<Rightarrow> 'v option"
  assumes look_put: "look k (put k' v s) = (if k = k' then Some v else look k s)"
begin

text \<open>What is found under a key is what was put there last.\<close>

lemma look_last:
  "look k (fold (\<lambda>(k, v). put k v) kvs s) =
     (case map_of (rev kvs) k of Some v \<Rightarrow> Some v | None \<Rightarrow> look k s)"
  by (induction kvs arbitrary: s) (auto simp: look_put map_add_def split: option.splits)

end

interpretation strings: slots set_string "\<lambda>k w. str_map w k"
  by unfold_locales (simp add: set_string_def)

interpretation basics: slots set_basic "\<lambda>k w. basic_map w k"
  by unfold_locales (simp add: set_basic_def)

interpretation funcs: slots "\<lambda>k (s, f). set_function k s f" "\<lambda>k w. func_map w k"
  by unfold_locales (auto simp: set_function_def)

interpretation ids: slots tm_set "\<lambda>k m. type_to_id m k"
  by unfold_locales (simp add: tm_set_def)

section \<open>Properties\<close>

text \<open>The last text set under a name is returned, whatever objects, numbers and functions were set in between under the same name.\<close>

lemma maps_are_apart:
  "str_map (set_basic n v w) = str_map w" "str_map (set_obj n t b obj w) = str_map w" "str_map (set_function n s f w) = str_map w"
  "basic_map (set_string n t' w) = basic_map w" "basic_map (set_obj n t b obj w) = basic_map w"
  "obj_map (set_string n t' w) = obj_map w" "obj_map (set_basic n v w) = obj_map w"
  by (simp_all add: set_basic_def set_obj_def set_obj_type_def set_function_def set_string_def)

lemma string_configured:
  "get_string_or n d (fold (\<lambda>(k, v). set_string k v) kvs world_new) = (case map_of (rev kvs) n of Some v \<Rightarrow> v | None \<Rightarrow> d)"
  unfolding get_string_or_def strings.look_last by (simp add: world_new_def split: option.split)

text \<open>A number is returned only under the type it was set with; under any other the call throws.\<close>

lemma number_needs_its_type:
  "get_basic n t (set_basic n (t, v) w) = Inr v"
  "t \<noteq> t' \<Longrightarrow> get_basic n t' (set_basic n (t, v) w) = Inl bad_get"
  by (simp_all add: get_basic_def get_basic_or_def set_basic_def)

text \<open>An object is found by its name and by its type, and knows the world; the object set last replaces others of its type, while their names
  still lead to them.\<close>

lemma object_found:
  "get_obj n t (set_obj n t b obj w) = Inr (Some obj)"
  "get_obj_type t (set_obj n t b obj w) = Some obj"
  "b \<Longrightarrow> obj \<in> set (told (set_obj n t b obj w))"
  "n \<noteq> m \<Longrightarrow> get_obj n t (set_obj m t b obj' (set_obj n t b obj w)) = Inr (Some obj)"
  "get_obj_type t (set_obj m t b obj' (set_obj n t b obj w)) = Some obj'"
  by (simp_all add: get_obj_def get_obj_type_def set_obj_def set_obj_type_def)

text \<open>Every type has one instance, different types have different ones.\<close>

definition if_inv :: "instance_factory \<Rightarrow> bool" where
  "if_inv f \<longleftrightarrow> (\<forall>t o'. type_to_objs f t = Some o' \<longrightarrow> o' < made f) \<and>
     (\<forall>s t o'. type_to_objs f s = Some o' \<longrightarrow> type_to_objs f t = Some o' \<longrightarrow> s = t)"

lemma if_get_inv: "if_inv f \<Longrightarrow> if_inv (snd (if_get tid f))"
proof (cases "type_to_objs f tid")
  case None
  assume "if_inv f"
  with None show ?thesis by (auto simp: if_inv_def if_get_def less_Suc_eq)
qed (simp add: if_get_def)

lemma instances_are_single:
  assumes "if_inv f" "if_get s f = (a, f1)" "if_get t f1 = (b, f2)"
  shows "a = b \<longleftrightarrow> s = t"
proof -
  have inv: "if_inv f1" "if_inv f2" using if_get_inv [OF assms(1), of s] if_get_inv [of f1 t] assms(2,3) by auto
  have a: "type_to_objs f1 s = Some a" using assms(2) by (auto simp: if_get_def split: option.splits)
  then have a2: "type_to_objs f2 s = Some a" using assms(3) by (auto simp: if_get_def split: option.splits)
  have b: "type_to_objs f2 t = Some b" using assms(3) by (auto simp: if_get_def split: option.splits)
  show ?thesis using a2 b inv(2) by (auto simp: if_inv_def)
qed

text \<open>A draw that equals the chance neither hits nor misses; and since the total can be drawn, a chance of the total can fail.\<close>

lemma hit_or_miss_gap: "\<not> hit c c \<and> \<not> miss c c"
  by (simp add: hit_def miss_def)

end
