(* ===== verification/Room_Server.thy ===== *)
theory Room_Server
  imports Services
begin

text \<open>
  The room server of \<open>src/example/room_server\<close>, a game server built on the library: players (\<open>service/game_player.cpp\<close>,
  \<open>service/player_service.cpp\<close>), rooms with their seats (\<open>service/game_room.cpp\<close>, \<open>service/room_service.cpp\<close>), the checks of the
  requests (\<open>service/common_check.cpp\<close>), and the handlers of the messages (\<open>new_proto\<close>). A player is known by the user id
  under which the player service keeps it, a room by its number in the list of all rooms made; pointers to players and rooms are these.
  Following a null pointer, taking the first of no seats and making a room of negative size are faults. What is sent is recorded.
  Times are not kept in the messages; both services are registered, as \<open>REG_SERVICE\<close> arranges. The invariant \<open>game_ok\<close>, which every
  handler keeps, says that each room and its players agree about who sits where.
\<close>

section \<open>Model\<close>

datatype room_fault = null_pointer | no_seat | bad_size

datatype room_mode = moba | tripartite | free

datatype room_status = st_open | st_ready | st_prepare | st_battle | st_close

datatype player_type = DRIVER | SHOOTER

record player =
  p_room :: "nat option"
  p_login :: bool
  p_type :: player_type
  p_team :: int
  p_hero :: int
  p_pos :: int
  p_player_id :: int
  p_ship :: int
  p_slots :: int
  p_bullets :: int
  p_skills :: "int list"
  p_ready :: bool

definition update_to_none_status :: "player \<Rightarrow> player" where
  "update_to_none_status p =
     \<lparr>p_room = None, p_login = False, p_type = DRIVER, p_team = -1, p_hero = 0, p_pos = 0, p_player_id = 0, p_ship = 1,
      p_slots = 0, p_bullets = 0, p_skills = [], p_ready = False\<rparr>"

definition update_to_login_status :: "player \<Rightarrow> player" where
  "update_to_login_status p = (update_to_none_status p)\<lparr>p_login := True\<rparr>"

definition player_new :: player where
  "player_new = \<lparr>p_room = None, p_login = False, p_type = DRIVER, p_team = -1, p_hero = 0, p_pos = 0, p_player_id = 0, p_ship = 1,
     p_slots = 0, p_bullets = 0, p_skills = [], p_ready = False\<rparr>"

definition update_info :: "player \<Rightarrow> player \<Rightarrow> player" where
  "update_info other p = p\<lparr>p_ship := p_ship other, p_slots := p_slots other, p_bullets := p_bullets other, p_skills := p_skills other\<rparr>"

record room =
  r_id :: int
  r_status :: room_status
  r_mode :: room_mode
  r_master :: "int option"
  r_max :: nat
  r_players :: "int list"
  r_pos :: "int list"

record room_info =
  ri_id :: int
  ri_master :: int
  ri_size :: nat
  ri_mode :: room_mode
  ri_players :: "(int \<times> player) list"

datatype sc_msg =
    sc_create_room int | sc_join_room int | sc_exit_room int | sc_switch_seat int | sc_switch_ship int | sc_end_battle int
  | sc_room_info room_info | sc_room_destroyed | sc_begin_load_resource | sc_start_battle int | sc_server_info
  | sc_room_list int int "(int \<times> room_mode \<times> nat \<times> nat) list"

datatype sent = to_client int sc_msg | to_battle room_info

record game =
  g_players :: "int \<rightharpoonup> player"
  g_objs :: "room list"
  g_rooms :: "(int \<times> nat) list"
  g_cur_room_id :: int
  g_end_when_disconnect :: bool
  g_sent :: "sent list"

abbreviation the_player :: "game \<Rightarrow> int \<Rightarrow> player" where
  "the_player g uid \<equiv> the (g_players g uid)"

definition upd_player :: "int \<Rightarrow> (player \<Rightarrow> player) \<Rightarrow> game \<Rightarrow> game" where
  "upd_player uid f g = g\<lparr>g_players := (g_players g)(uid \<mapsto> f (the_player g uid))\<rparr>"

definition upd_room :: "nat \<Rightarrow> (room \<Rightarrow> room) \<Rightarrow> game \<Rightarrow> game" where
  "upd_room h f g = g\<lparr>g_objs := (g_objs g)[h := f (g_objs g ! h)]\<rparr>"

definition send_client_msg :: "int \<Rightarrow> sc_msg \<Rightarrow> game \<Rightarrow> game" where
  "send_client_msg uid m g = g\<lparr>g_sent := g_sent g @ [to_client uid m]\<rparr>"

definition broadcast_msg :: "nat \<Rightarrow> sc_msg \<Rightarrow> game \<Rightarrow> game" where
  "broadcast_msg h m g = g\<lparr>g_sent := g_sent g @ map (\<lambda>uid. to_client uid m) (r_players (g_objs g ! h))\<rparr>"

subsection \<open>A room\<close>

definition room_full :: "room \<Rightarrow> bool" where
  "room_full r \<longleftrightarrow> length (r_players r) = r_max r"

definition room_new :: "int \<Rightarrow> nat \<Rightarrow> room_mode \<Rightarrow> room" where
  "room_new rid max_size mode =
     \<lparr>r_id = rid, r_status = st_open, r_mode = mode, r_master = None, r_max = max_size, r_players = [],
      r_pos = map (\<lambda>i. int i + 1) [0..<max_size]\<rparr>"

definition all_ready :: "nat \<Rightarrow> game \<Rightarrow> bool" where
  "all_ready h g \<longleftrightarrow> list_all (\<lambda>uid. p_ready (the_player g uid)) (r_players (g_objs g ! h))"

definition get_pos_list :: "room \<Rightarrow> int list" where
  "get_pos_list r =
     (case r_mode r of
        moba \<Rightarrow>
          (let team_size = int (r_max r) div 2;
               l1 = filter (\<lambda>p. p \<le> team_size) (r_pos r); l2 = filter (\<lambda>p. \<not> p \<le> team_size) (r_pos r)
           in if length l1 < length l2 then l2 else l1)
      | tripartite \<Rightarrow>
          (let team_size = int (r_max r) div 3;
               l1 = filter (\<lambda>p. p \<le> team_size) (r_pos r);
               l2 = filter (\<lambda>p. \<not> p \<le> team_size \<and> p > team_size \<and> p \<le> team_size * 2) (r_pos r);
               l3 = filter (\<lambda>p. \<not> p \<le> team_size \<and> \<not> (p > team_size \<and> p \<le> team_size * 2)) (r_pos r);
               l = (if length l1 < length l2 then l2 else l1)
           in if length l < length l3 then l3 else l)
      | free \<Rightarrow> r_pos r)"

definition get_pos :: "room \<Rightarrow> room_fault + int \<times> room" where
  "get_pos r =
     (case get_pos_list r of
        [] \<Rightarrow> Inl no_seat
      | pos # _ \<Rightarrow> Inr (pos, r\<lparr>r_pos := removeAll pos (r_pos r)\<rparr>))"

definition set_player_pos :: "room \<Rightarrow> int \<Rightarrow> player \<Rightarrow> player" where
  "set_player_pos r pos p =
     (let half = int (r_max r) div 2; third = int (r_max r) div 3;
          kind = (if pos mod 2 > 0 then DRIVER else SHOOTER);
          p' = p\<lparr>p_pos := pos, p_player_id := 10000 + pos\<rparr>
      in if r_max r = 2 \<and> r_mode r \<noteq> free
         then p'\<lparr>p_team := (if pos \<le> half then 1 else 2), p_type := DRIVER, p_hero := 20000 + pos\<rparr>
         else (case r_mode r of
             moba \<Rightarrow> p'\<lparr>p_team := (if pos \<le> half then 1 else 2), p_type := kind, p_hero := 20000 + (pos + 1) div 2\<rparr>
           | tripartite \<Rightarrow>
               p'\<lparr>p_team := (if pos \<le> third then 1 else if pos > third \<and> pos \<le> third * 2 then 2 else 3),
                  p_type := kind, p_hero := 20000 + (pos + 1) div 2\<rparr>
           | free \<Rightarrow> p'\<lparr>p_team := -1, p_type := kind, p_hero := 20000 + (pos + 1) div 2\<rparr>))"

text \<open>The driver of a ship shares its equipment with the shooter; of several the last one counts.\<close>

definition last_of :: "game \<Rightarrow> nat \<Rightarrow> (player \<Rightarrow> bool) \<Rightarrow> int option" where
  "last_of g h P = (case filter (\<lambda>uid. P (the_player g uid)) (r_players (g_objs g ! h)) of [] \<Rightarrow> None | us \<Rightarrow> Some (last us))"

definition update_ship :: "nat \<Rightarrow> int \<Rightarrow> game \<Rightarrow> game" where
  "update_ship h ship g =
     (case (last_of g h (\<lambda>p. p_hero p = ship \<and> p_type p = DRIVER), last_of g h (\<lambda>p. p_hero p = ship \<and> p_type p \<noteq> DRIVER)) of
        (Some mover, Some shooter) \<Rightarrow> upd_player shooter (update_info (the_player g mover)) g
      | _ \<Rightarrow> g)"

definition update_player_info :: "nat \<Rightarrow> game \<Rightarrow> game" where
  "update_player_info h g =
     fold (update_ship h) (remdups (map (\<lambda>uid. p_hero (the_player g uid)) (r_players (g_objs g ! h)))) g"

definition room_join :: "nat \<Rightarrow> int \<Rightarrow> game \<Rightarrow> room_fault + game" where
  "room_join h uid g =
     (let g1 = upd_room h (\<lambda>r. r\<lparr>r_master := (if r_players r = [] then Some uid else r_master r),
                                  r_players := insort_insert uid (r_players r)\<rparr>) g;
          g2 = upd_player uid (\<lambda>p. p\<lparr>p_room := Some h\<rparr>) g1
      in case get_pos (g_objs g2 ! h) of
           Inl f \<Rightarrow> Inl f
         | Inr (pos, r) \<Rightarrow>
             Inr (update_player_info h (upd_player uid (set_player_pos r pos) (upd_room h (\<lambda>_. r) g2))))"

definition room_remove :: "nat \<Rightarrow> int \<Rightarrow> game \<Rightarrow> game" where
  "room_remove h uid g =
     (if uid \<in> set (r_players (g_objs g ! h))
      then upd_player uid update_to_login_status
        (upd_room h (\<lambda>r. r\<lparr>r_players := removeAll uid (r_players r),
                           r_pos := insort_insert (p_pos (the_player g uid)) (r_pos r)\<rparr>) g)
      else g)"

definition player_at :: "nat \<Rightarrow> int \<Rightarrow> game \<Rightarrow> int option" where
  "player_at h pos g = find (\<lambda>uid. p_pos (the_player g uid) = pos) (r_players (g_objs g ! h))"

definition take_seat :: "player \<Rightarrow> player \<Rightarrow> player" where
  "take_seat other p =
     p\<lparr>p_team := p_team other, p_type := p_type other, p_hero := p_hero other, p_pos := p_pos other, p_player_id := p_player_id other\<rparr>"

definition switch_seat :: "nat \<Rightarrow> int \<Rightarrow> int \<Rightarrow> game \<Rightarrow> room_fault + game" where
  "switch_seat h uid target_pos g =
     (let r = g_objs g ! h; p = the_player g uid
      in if target_pos = p_pos p then Inr g
         else if target_pos \<in> set (r_pos r) then
           Inr (upd_room h (\<lambda>r. r\<lparr>r_pos := insort_insert (p_pos p) (removeAll target_pos (r_pos r))\<rparr>)
                 (upd_player uid (set_player_pos r target_pos) g))
         else (case player_at h target_pos g of
             None \<Rightarrow> Inl null_pointer
           | Some other \<Rightarrow>
               Inr (upd_player other (take_seat p) (upd_player uid (take_seat (the_player g other)) g))))"

definition room_destroy :: "nat \<Rightarrow> game \<Rightarrow> game" where
  "room_destroy h g =
     upd_room h (\<lambda>r. r\<lparr>r_id := 0, r_status := st_open, r_master := None, r_max := 0, r_players := [], r_pos := []\<rparr>)
       (fold (\<lambda>uid. upd_player uid update_to_login_status) (r_players (g_objs g ! h)) g)"

definition get_room_info :: "nat \<Rightarrow> game \<Rightarrow> room_fault + room_info" where
  "get_room_info h g =
     (let r = g_objs g ! h
      in case r_master r of
           None \<Rightarrow> Inl null_pointer
         | Some m \<Rightarrow>
             Inr \<lparr>ri_id = r_id r, ri_master = m, ri_size = r_max r, ri_mode = r_mode r,
                  ri_players = sort_key (\<lambda>(uid, p). p_player_id p) (map (\<lambda>uid. (uid, the_player g uid)) (r_players r))\<rparr>)"

definition broadcast_room_info :: "nat \<Rightarrow> game \<Rightarrow> room_fault + game" where
  "broadcast_room_info h g = (case get_room_info h g of Inl f \<Rightarrow> Inl f | Inr i \<Rightarrow> Inr (broadcast_msg h (sc_room_info i) g))"

subsection \<open>The services\<close>

definition get_room_id :: "game \<Rightarrow> int \<times> game" where
  "get_room_id g = (let i = (if g_cur_room_id g \<ge> 65535 then 0 else g_cur_room_id g) + 1 in (i, g\<lparr>g_cur_room_id := i\<rparr>))"

definition create_room :: "int \<Rightarrow> int \<Rightarrow> room_mode \<Rightarrow> game \<Rightarrow> room_fault + nat \<times> game" where
  "create_room uid max_size mode g =
     (if max_size < 0 then Inl bad_size
      else (case get_room_id g of
        (rid, g1) \<Rightarrow>
          (let h = length (g_objs g1)
           in case room_join h uid (g1\<lparr>g_objs := g_objs g1 @ [room_new rid (nat max_size) mode]\<rparr>) of
                Inl f \<Rightarrow> Inl f
              | Inr g2 \<Rightarrow> Inr (h, g2\<lparr>g_rooms := emplace rid h (g_rooms g2)\<rparr>))))"

definition find_room :: "int \<Rightarrow> game \<Rightarrow> nat option" where
  "find_room room_id g =
     (if room_id = -1
      then map_option snd (find (\<lambda>(i, h). r_status (g_objs g ! h) = st_open \<and> \<not> room_full (g_objs g ! h)) (g_rooms g))
      else map_of (g_rooms g) room_id)"

definition destroy_room :: "nat \<Rightarrow> game \<Rightarrow> game" where
  "destroy_room h g =
     (let rid = r_id (g_objs g ! h); g1 = room_destroy h g in g1\<lparr>g_rooms := filter (\<lambda>(i, h). i \<noteq> rid) (g_rooms g1)\<rparr>)"

definition deal_destroy_room :: "nat \<Rightarrow> game \<Rightarrow> game" where
  "deal_destroy_room h g = destroy_room h (broadcast_msg h sc_room_destroyed g)"

text \<open>The player passed may be a null pointer.\<close>

definition exit_room :: "int option \<Rightarrow> game \<Rightarrow> room_fault + game" where
  "exit_room player g =
     (case player of
        None \<Rightarrow> Inl null_pointer
      | Some uid \<Rightarrow>
          (case p_room (the_player g uid) of
             None \<Rightarrow> Inr g
           | Some h \<Rightarrow>
               if g_end_when_disconnect g then Inr (deal_destroy_room h g)
               else
                 (let g1 = room_remove h uid g
                  in Inr (if r_status (g_objs g1 ! h) \<noteq> st_battle then deal_destroy_room h g1
                          else if r_players (g_objs g1 ! h) = [] then destroy_room h g1 else g1))))"

definition get_room_list :: "room_mode option \<Rightarrow> game \<Rightarrow> nat list" where
  "get_room_list mode g =
     map snd (filter (\<lambda>(i, h). (mode = None \<or> mode = Some (r_mode (g_objs g ! h))) \<and> r_status (g_objs g ! h) = st_open) (g_rooms g))"

definition find_player :: "int \<Rightarrow> bool \<Rightarrow> game \<Rightarrow> int option" where
  "find_player uid is_login g =
     (case g_players g uid of
        None \<Rightarrow> None
      | Some p \<Rightarrow> if is_login \<and> \<not> p_login p then None else Some uid)"

definition get_player :: "int \<Rightarrow> game \<Rightarrow> game" where
  "get_player uid g = (if find_player uid False g = None then g\<lparr>g_players := (g_players g)(uid \<mapsto> player_new)\<rparr> else g)"

definition handle_player_disconnect :: "int \<Rightarrow> game \<Rightarrow> room_fault + game" where
  "handle_player_disconnect uid g =
     (case find_player uid True g of
        None \<Rightarrow> Inr g
      | Some u \<Rightarrow> (case exit_room (Some u) g of Inl f \<Rightarrow> Inl f | Inr g1 \<Rightarrow> Inr (upd_player u update_to_none_status g1)))"

subsection \<open>The checks\<close>

definition check_player :: "int option \<Rightarrow> int" where
  "check_player player = (if player = None then 1 else 0)"

definition check_not_matched :: "int \<Rightarrow> game \<Rightarrow> int" where
  "check_not_matched uid g = (if p_room (the_player g uid) \<noteq> None then 2 else 0)"

definition check_matched :: "int \<Rightarrow> game \<Rightarrow> int" where
  "check_matched uid g = (if p_room (the_player g uid) = None then 4 else 0)"

definition check_room :: "nat option \<Rightarrow> game \<Rightarrow> int" where
  "check_room room g =
     (case room of
        None \<Rightarrow> 3
      | Some h \<Rightarrow> if room_full (g_objs g ! h) then 10 else if r_status (g_objs g ! h) = st_open then 0 else 11)"

definition check_master :: "int \<Rightarrow> nat \<Rightarrow> game \<Rightarrow> int" where
  "check_master uid h g = (if r_master (g_objs g ! h) \<noteq> Some uid then 5 else 0)"

definition check_room_ready :: "nat \<Rightarrow> game \<Rightarrow> int" where
  "check_room_ready h g =
     (let r = g_objs g ! h;
          team_size = (\<lambda>team. length (filter (\<lambda>uid. p_team (the_player g uid) = team) (r_players r)))
      in if r_mode r = free \<and> r_players r \<noteq> [] then 0
         else if (team_size 1 = team_size 2 \<and> team_size 1 > 0 \<and> (r_mode r = moba \<or> team_size 2 = team_size 3)) \<or> room_full r then 0 else 6)"

definition check_room_battle :: "nat \<Rightarrow> game \<Rightarrow> int" where
  "check_room_battle h g = (if r_status (g_objs g ! h) = st_battle then 0 else 7)"

definition mode_of :: "int \<Rightarrow> room_mode option" where
  "mode_of m = (if m = 0 then Some moba else if m = 1 then Some tripartite else if m = 2 then Some free else None)"

definition check_room_mode :: "int \<Rightarrow> int" where
  "check_room_mode m = (if m \<ge> 0 \<and> m \<le> 2 then 0 else 8)"

definition check_search_room_mode :: "int \<Rightarrow> int" where
  "check_search_room_mode m = (if m = -1 then 0 else check_room_mode m)"

definition check_room_size :: "int \<Rightarrow> int \<Rightarrow> int" where
  "check_room_size sz m =
     (if m = 0 then (if sz mod 2 = 0 \<or> sz = 1 then 0 else 9)
      else if m = 1 then (if sz mod 3 = 0 then 0 else 9) else 0)"

text \<open>Checks one after the other: the code of the first that fails.\<close>

fun first_code :: "int list \<Rightarrow> int" where
  "first_code [] = 0"
| "first_code (c # cs) = (if c \<noteq> 0 then c else first_code cs)"

subsection \<open>The handlers\<close>

definition login_game :: "int \<Rightarrow> game \<Rightarrow> room_fault + game" where
  "login_game uid g =
     (let g1 = get_player uid g
      in case (if p_room (the_player g1 uid) \<noteq> None then handle_player_disconnect uid g1 else Inr g1) of
           Inl f \<Rightarrow> Inl f
         | Inr g2 \<Rightarrow>
             Inr (if \<not> p_login (the_player g2 uid)
                  then send_client_msg uid sc_server_info (upd_player uid update_to_login_status g2) else g2))"

definition cs_create_room :: "int \<Rightarrow> int \<Rightarrow> int \<Rightarrow> game \<Rightarrow> room_fault + game" where
  "cs_create_room uid pattern count g =
     (let player = find_player uid True g;
          ret = (if player = None then 1
                 else first_code [check_not_matched uid g, check_room_mode pattern, check_room_size count pattern])
      in if ret \<noteq> 0 then Inr (send_client_msg uid (sc_create_room ret) g)
         else (case create_room uid count (the (mode_of pattern)) g of
             Inl f \<Rightarrow> Inl f
           | Inr (h, g1) \<Rightarrow> broadcast_room_info h (send_client_msg uid (sc_create_room 0) g1)))"

definition cs_join_room :: "int \<Rightarrow> int \<Rightarrow> game \<Rightarrow> room_fault + game" where
  "cs_join_room uid room_id g =
     (let player = find_player uid True g; room = find_room room_id g;
          ret = (if player = None then 1 else first_code [check_not_matched uid g, check_room room g])
      in if ret \<noteq> 0 then Inr (send_client_msg uid (sc_join_room ret) g)
         else (case room_join (the room) uid g of
             Inl f \<Rightarrow> Inl f
           | Inr g1 \<Rightarrow> broadcast_room_info (the room) (send_client_msg uid (sc_join_room 0) g1)))"

definition cs_exit_room :: "int \<Rightarrow> game \<Rightarrow> room_fault + game" where
  "cs_exit_room uid g =
     (let player = find_player uid True g;
          ret = (if player = None then 1 else check_matched uid g)
      in if ret \<noteq> 0 then Inr (send_client_msg uid (sc_exit_room ret) g)
         else exit_room player (send_client_msg uid (sc_exit_room 0) g))"

definition cs_switch_seat :: "int \<Rightarrow> int \<Rightarrow> int \<Rightarrow> game \<Rightarrow> room_fault + game" where
  "cs_switch_seat uid player_id target_pos g =
     (let player = find_player uid True g; player1 = find_player player_id True g;
          ret = (if player = None \<or> player1 = None then 1 else first_code [check_matched uid g, check_matched player_id g])
      in if ret \<noteq> 0 then Inr (send_client_msg uid (sc_switch_seat ret) g)
         else
           (let h = the (p_room (the_player g uid))
            in if p_room (the_player g uid) \<noteq> p_room (the_player g player_id) \<or> target_pos > int (r_max (g_objs g ! h)) \<or> target_pos \<le> 0
               then Inr (send_client_msg uid (sc_switch_seat 11) g)
               else (case switch_seat h player_id target_pos g of
                   Inl f \<Rightarrow> Inl f
                 | Inr g1 \<Rightarrow> broadcast_room_info h (send_client_msg uid (sc_switch_seat 0) g1))))"

definition switch_equipment :: "int \<Rightarrow> (player \<Rightarrow> player) \<Rightarrow> game \<Rightarrow> room_fault + game" where
  "switch_equipment uid f g =
     (let player = find_player uid True g;
          ret = (if player = None then 1 else check_matched uid g)
      in if ret \<noteq> 0 then Inr (send_client_msg uid (sc_switch_ship ret) g)
         else
           (let g1 = upd_player uid f g; h = the (p_room (the_player g1 uid))
            in broadcast_room_info h (update_player_info h g1)))"

definition cs_switch_ship :: "int \<Rightarrow> int \<Rightarrow> game \<Rightarrow> room_fault + game" where
  "cs_switch_ship uid ship = switch_equipment uid (\<lambda>p. p\<lparr>p_ship := ship\<rparr>)"

definition cs_switch_slot :: "int \<Rightarrow> int \<Rightarrow> int list \<Rightarrow> int \<Rightarrow> game \<Rightarrow> room_fault + game" where
  "cs_switch_slot uid slots skills bullets =
     switch_equipment uid (\<lambda>p. p\<lparr>p_slots := slots, p_skills := skills, p_bullets := bullets\<rparr>)"

definition cs_start_battle :: "int \<Rightarrow> game \<Rightarrow> room_fault + game" where
  "cs_start_battle uid g =
     (let player = find_player uid True g; h = the (p_room (the_player g uid));
          ret = (if player = None then 1
                 else if check_matched uid g \<noteq> 0 then check_matched uid g
                 else first_code [check_master uid h g, check_room_ready h g])
      in if ret \<noteq> 0 then Inr g
         else Inr (broadcast_msg h sc_begin_load_resource (upd_room h (\<lambda>r. r\<lparr>r_status := st_prepare\<rparr>) g)))"

definition cs_end_load_resource :: "int \<Rightarrow> game \<Rightarrow> room_fault + game" where
  "cs_end_load_resource uid g =
     (let player = find_player uid True g; h = the (p_room (the_player g uid));
          ret = (if player = None then 1
                 else if check_matched uid g \<noteq> 0 then check_matched uid g else check_room_ready h g)
      in if ret \<noteq> 0 then Inr g
         else
           (let g1 = upd_player uid (\<lambda>p. p\<lparr>p_ready := True\<rparr>) g
            in if all_ready h g1
               then (case get_room_info h g1 of Inl f \<Rightarrow> Inl f | Inr i \<Rightarrow> Inr (g1\<lparr>g_sent := g_sent g1 @ [to_battle i]\<rparr>))
               else Inr g1))"

text \<open>After a failed check the handler goes on.\<close>

definition cs_end_battle :: "int \<Rightarrow> game \<Rightarrow> room_fault + game" where
  "cs_end_battle uid g =
     (let player = find_player uid True g; h = the (p_room (the_player g uid));
          ret = (if player = None then 1
                 else if check_matched uid g \<noteq> 0 then check_matched uid g else check_room_battle h g);
          g1 = (if ret \<noteq> 0 then send_client_msg uid (sc_end_battle ret) g else g)
      in case exit_room player g1 of Inl f \<Rightarrow> Inl f | Inr g2 \<Rightarrow> Inr (send_client_msg uid (sc_end_battle ret) g2))"

definition br_start_battle :: "int \<Rightarrow> bool \<Rightarrow> game \<Rightarrow> room_fault + game" where
  "br_start_battle master_id result g =
     (let player = find_player master_id True g; h = the (p_room (the_player g master_id));
          ret = (if player = None then 1 else check_matched master_id g)
      in if ret \<noteq> 0 then Inr g
         else Inr (broadcast_msg h (sc_start_battle (if result then 0 else 1))
                     (upd_room h (\<lambda>r. r\<lparr>r_status := (if result then st_battle else st_open)\<rparr>) g)))"

definition cs_request_room_list :: "int \<Rightarrow> int \<Rightarrow> int \<Rightarrow> int \<Rightarrow> game \<Rightarrow> room_fault + game" where
  "cs_request_room_list uid pattern count_per_page page_num g =
     (let player = find_player uid True g;
          ret = (if player = None then 1 else first_code [check_not_matched uid g, check_search_room_mode pattern])
      in if ret \<noteq> 0 then Inr (send_client_msg uid (sc_room_list ret 0 []) g)
         else if count_per_page \<le> 0 \<or> page_num \<le> 0 then Inr (send_client_msg uid (sc_room_list 0 0 []) g)
         else
           (let rooms = get_room_list (mode_of pattern) g; n = int (length rooms);
                total = n div count_per_page + (if n mod count_per_page > 0 then 1 else 0)
            in if rooms = [] \<or> page_num > total then Inr (send_client_msg uid (sc_room_list 0 n []) g)
               else Inr (send_client_msg uid (sc_room_list 0 n
                      (map (\<lambda>h. let r = g_objs g ! h in (r_id r, r_mode r, length (r_players r), r_max r))
                        (take (nat count_per_page) (drop (nat ((page_num - 1) * count_per_page)) rooms)))) g)))"

datatype request =
    Login | Create_room int int | Join_room int | Exit_room | Switch_seat int int | Switch_ship int | Switch_slot int "int list" int
  | Start_battle | End_load_resource | End_battle | Battle_started bool | Request_room_list int int int

fun handle :: "int \<Rightarrow> request \<Rightarrow> game \<Rightarrow> room_fault + game" where
  "handle uid Login g = login_game uid g"
| "handle uid (Create_room pattern count) g = cs_create_room uid pattern count g"
| "handle uid (Join_room room_id) g = cs_join_room uid room_id g"
| "handle uid Exit_room g = cs_exit_room uid g"
| "handle uid (Switch_seat player_id pos) g = cs_switch_seat uid player_id pos g"
| "handle uid (Switch_ship ship) g = cs_switch_ship uid ship g"
| "handle uid (Switch_slot slots skills bullets) g = cs_switch_slot uid slots skills bullets g"
| "handle uid Start_battle g = cs_start_battle uid g"
| "handle uid End_load_resource g = cs_end_load_resource uid g"
| "handle uid End_battle g = cs_end_battle uid g"
| "handle uid (Battle_started result) g = br_start_battle uid result g"
| "handle uid (Request_room_list pattern per_page page) g = cs_request_room_list uid pattern per_page page g"

definition game_new :: "bool \<Rightarrow> game" where
  "game_new end_when_disconnect =
     \<lparr>g_players = Map.empty, g_objs = [], g_rooms = [], g_cur_room_id = 0, g_end_when_disconnect = end_when_disconnect, g_sent = []\<rparr>"

text \<open>The states of the server: it handles any message of any user.\<close>

inductive reached :: "bool \<Rightarrow> game \<Rightarrow> bool" for e where
  start: "reached e (game_new e)"
| message: "reached e g \<Longrightarrow> handle uid req g = Inr g' \<Longrightarrow> reached e g'"

section \<open>The invariant\<close>

text \<open>What a room says of players: only their room and their seat matter.\<close>

definition seat :: "(int \<rightharpoonup> player) \<Rightarrow> int \<Rightarrow> int" where
  "seat tab uid = p_pos (the (tab uid))"

definition room_ok :: "(int \<rightharpoonup> player) \<Rightarrow> nat \<Rightarrow> room \<Rightarrow> bool" where
  "room_ok tab h r \<longleftrightarrow>
     distinct (r_players r) \<and> (\<forall>uid. uid \<in> set (r_players r) \<longleftrightarrow> (\<exists>p. tab uid = Some p \<and> p_room p = Some h)) \<and>
     inj_on (seat tab) (set (r_players r)) \<and> seat tab ` set (r_players r) \<inter> set (r_pos r) = {} \<and>
     seat tab ` set (r_players r) \<union> set (r_pos r) = {1..int (r_max r)} \<and> distinct (r_pos r) \<and>
     (r_players r = [] \<or> r_master r \<noteq> None)"

definition game_ok :: "game \<Rightarrow> bool" where
  "game_ok g \<longleftrightarrow>
     (\<forall>h < length (g_objs g). room_ok (g_players g) h (g_objs g ! h)) \<and>
     (\<forall>uid p h. g_players g uid = Some p \<longrightarrow> p_room p = Some h \<longrightarrow> h < length (g_objs g) \<and> p_login p) \<and>
     (\<forall>(i, h) \<in> set (g_rooms g). h < length (g_objs g))"

lemma game_new_ok: "game_ok (game_new e)"
  by (simp add: game_ok_def game_new_def)

subsection \<open>Updates\<close>

lemma upd_player_simps [simp]:
  "g_players (upd_player uid f g) = (g_players g)(uid \<mapsto> f (the_player g uid))"
  "g_objs (upd_player uid f g) = g_objs g" "g_rooms (upd_player uid f g) = g_rooms g"
  "g_end_when_disconnect (upd_player uid f g) = g_end_when_disconnect g"
  by (simp_all add: upd_player_def)

lemma upd_room_simps [simp]:
  "g_players (upd_room h f g) = g_players g" "g_rooms (upd_room h f g) = g_rooms g"
  "g_objs (upd_room h f g) = (g_objs g)[h := f (g_objs g ! h)]"
  "g_end_when_disconnect (upd_room h f g) = g_end_when_disconnect g"
  by (simp_all add: upd_room_def)

lemma sent_simps [simp]:
  "g_players (send_client_msg uid m g) = g_players g" "g_objs (send_client_msg uid m g) = g_objs g"
  "g_rooms (send_client_msg uid m g) = g_rooms g" "g_end_when_disconnect (send_client_msg uid m g) = g_end_when_disconnect g"
  "g_players (broadcast_msg h m g) = g_players g" "g_objs (broadcast_msg h m g) = g_objs g"
  "g_rooms (broadcast_msg h m g) = g_rooms g" "g_end_when_disconnect (broadcast_msg h m g) = g_end_when_disconnect g"
  by (simp_all add: send_client_msg_def broadcast_msg_def)

text \<open>States that differ only in what the invariant does not look at.\<close>

definition same_seats :: "game \<Rightarrow> game \<Rightarrow> bool" where
  "same_seats g g' \<longleftrightarrow> g_objs g' = g_objs g \<and> g_rooms g' = g_rooms g \<and>
     (\<forall>uid. map_option (\<lambda>p. (p_room p, p_pos p, p_login p)) (g_players g' uid) =
            map_option (\<lambda>p. (p_room p, p_pos p, p_login p)) (g_players g uid))"

lemma same_seats_refl [simp]: "same_seats g g"
  by (simp add: same_seats_def)

lemma same_seats_trans: "same_seats f g \<Longrightarrow> same_seats g h \<Longrightarrow> same_seats f h"
  by (simp add: same_seats_def)

lemma room_ok_cong:
  assumes "\<And>uid. map_option (\<lambda>p. (p_room p, p_pos p)) (tab' uid) = map_option (\<lambda>p. (p_room p, p_pos p)) (tab uid)"
  shows "room_ok tab' h r = room_ok tab h r"
proof -
  have "seat tab' uid = seat tab uid \<and> (\<exists>p. tab' uid = Some p \<and> p_room p = Some h) = (\<exists>p. tab uid = Some p \<and> p_room p = Some h)" for uid
    using assms [of uid] by (cases "tab uid"; cases "tab' uid") (auto simp: seat_def)
  then have "seat tab' = seat tab" "\<And>uid. (\<exists>p. tab' uid = Some p \<and> p_room p = Some h) = (\<exists>p. tab uid = Some p \<and> p_room p = Some h)"
    by blast+
  then show ?thesis by (simp add: room_ok_def)
qed

lemma game_ok_same_seats:
  assumes "game_ok g" "same_seats g g'"
  shows "game_ok g'"
proof -
  have view: "map_option (\<lambda>p. (p_room p, p_pos p, p_login p)) (g_players g' uid) =
      map_option (\<lambda>p. (p_room p, p_pos p, p_login p)) (g_players g uid)" for uid
    using assms(2) by (simp add: same_seats_def)
  have "map_option (\<lambda>p. (p_room p, p_pos p)) (g_players g' uid) = map_option (\<lambda>p. (p_room p, p_pos p)) (g_players g uid)" for uid
    using view [of uid] by (cases "g_players g uid"; cases "g_players g' uid") auto
  then have "room_ok (g_players g') h r = room_ok (g_players g) h r" for h r by (rule room_ok_cong)
  moreover have "\<exists>q. g_players g uid = Some q \<and> p_room q = p_room p \<and> p_login q = p_login p" if "g_players g' uid = Some p" for uid p
    using view [of uid] that by (cases "g_players g uid") auto
  ultimately show ?thesis using assms unfolding game_ok_def same_seats_def by metis
qed

lemma same_seats_sent: "same_seats g (send_client_msg uid m g)" "same_seats g (broadcast_msg h m g)"
  by (simp_all add: same_seats_def)

lemma same_seats_player:
  assumes "g_players g uid = Some p" "p_room (f p) = p_room p" "p_pos (f p) = p_pos p" "p_login (f p) = p_login p"
  shows "same_seats g (upd_player uid f g)"
  using assms by (simp add: same_seats_def)

lemma last_of_member: "last_of g h P = Some u \<Longrightarrow> u \<in> set (r_players (g_objs g ! h))"
proof -
  assume *: "last_of g h P = Some u"
  let ?us = "filter (\<lambda>uid. P (the_player g uid)) (r_players (g_objs g ! h))"
  have "?us \<noteq> []" "u = last ?us" using * by (auto simp: last_of_def split: list.splits)
  then have "u \<in> set ?us" by (metis last_in_set)
  then show ?thesis by simp
qed

lemma room_member: "game_ok g \<Longrightarrow> h < length (g_objs g) \<Longrightarrow> u \<in> set (r_players (g_objs g ! h)) \<Longrightarrow>
    \<exists>p. g_players g u = Some p \<and> p_room p = Some h"
  by (auto simp: game_ok_def room_ok_def)

lemma same_seats_update_ship:
  assumes "game_ok g" "h < length (g_objs g)"
  shows "same_seats g (update_ship h ship g)"
proof -
  have "same_seats g (upd_player s (update_info p) g)" if "last_of g h P = Some s" for s p P
    using room_member [OF assms last_of_member [OF that]] by (auto intro!: same_seats_player simp: update_info_def)
  then show ?thesis by (auto simp: update_ship_def split: option.split)
qed

lemma same_seats_update_info:
  assumes "game_ok g" "h < length (g_objs g)"
  shows "same_seats g (update_player_info h g)"
proof -
  have "same_seats g (fold (update_ship h) ships g')" if "same_seats g g'" for ships g'
    using that
  proof (induction ships arbitrary: g')
    case (Cons s ships)
    have "game_ok g'" "h < length (g_objs g')" using Cons.prems game_ok_same_seats [OF assms(1)] assms(2) by (auto simp: same_seats_def)
    then have "same_seats g (update_ship h s g')" using same_seats_trans [OF Cons.prems same_seats_update_ship] by blast
    then show ?case using Cons.IH by simp
  qed simp
  then show ?thesis by (simp add: update_player_info_def)
qed

lemma room_ok_other:
  assumes "room_ok tab h r" "\<And>p. tab uid = Some p \<Longrightarrow> p_room p \<noteq> Some h" "p_room q \<noteq> Some h"
  shows "room_ok (tab(uid \<mapsto> q)) h r"
proof -
  have u: "uid \<notin> set (r_players r)" using assms(1,2) by (auto simp: room_ok_def)
  then have s: "seat (tab(uid \<mapsto> q)) v = seat tab v" if "v \<in> set (r_players r)" for v using that by (auto simp: seat_def)
  then have "seat (tab(uid \<mapsto> q)) ` set (r_players r) = seat tab ` set (r_players r)"
    "inj_on (seat (tab(uid \<mapsto> q))) (set (r_players r)) = inj_on (seat tab) (set (r_players r))"
    by (auto simp: image_iff inj_on_def)
  then show ?thesis using assms u by (auto simp: room_ok_def)
qed

lemma free_seats:
  assumes "room_ok tab h r"
  shows "length (r_players r) + length (r_pos r) = r_max r"
proof -
  have "card (seat tab ` set (r_players r) \<union> set (r_pos r)) = card (seat tab ` set (r_players r)) + card (set (r_pos r))"
    using assms by (intro card_Un_disjoint) (auto simp: room_ok_def)
  moreover have "card (seat tab ` set (r_players r)) = length (r_players r)" "card (set (r_pos r)) = length (r_pos r)"
    using assms by (auto simp: room_ok_def card_image distinct_card)
  ultimately show ?thesis using assms by (simp add: room_ok_def)
qed

subsection \<open>Rooms\<close>

lemma get_pos_list_sub: "set (get_pos_list r) \<subseteq> set (r_pos r)"
  by (auto simp: get_pos_list_def Let_def split: room_mode.splits)

lemma longest_nonempty: "xs \<noteq> [] \<or> ys \<noteq> [] \<Longrightarrow> (if length xs < length ys then ys else xs) \<noteq> []"
  by auto

lemma get_pos_list_nonempty:
  assumes "r_pos r \<noteq> []"
  shows "get_pos_list r \<noteq> []"
proof -
  obtain x where x: "x \<in> set (r_pos r)" using assms by (cases "r_pos r") auto
  show ?thesis
  proof (cases "r_mode r")
    case moba
    have "filter (\<lambda>p. p \<le> t) (r_pos r) \<noteq> [] \<or> filter (\<lambda>p. \<not> p \<le> t) (r_pos r) \<noteq> []" for t
      using x unfolding filter_empty_conv by blast
    from longest_nonempty [OF this] show ?thesis unfolding get_pos_list_def Let_def moba room_mode.case .
  next
    case tripartite
    have "(filter (\<lambda>p. p \<le> t) (r_pos r) \<noteq> [] \<or> filter (\<lambda>p. \<not> p \<le> t \<and> p > t \<and> p \<le> t * 2) (r_pos r) \<noteq> []) \<or>
        filter (\<lambda>p. \<not> p \<le> t \<and> \<not> (p > t \<and> p \<le> t * 2)) (r_pos r) \<noteq> []" for t
      using x unfolding filter_empty_conv by blast
    from longest_nonempty [OF disj_forward [OF this longest_nonempty]]
    show ?thesis unfolding get_pos_list_def Let_def tripartite room_mode.case .
  next
    case free
    then show ?thesis using assms by (simp add: get_pos_list_def)
  qed
qed

lemma set_player_pos_simps [simp]:
  "p_pos (set_player_pos r pos p) = pos" "p_room (set_player_pos r pos p) = p_room p" "p_login (set_player_pos r pos p) = p_login p"
  by (auto simp: set_player_pos_def Let_def split: room_mode.split)

lemma room_ok_join:
  assumes ok: "room_ok tab h r" and p: "tab uid = Some p" "p_room p = None" and q: "p_room q = Some h" "p_pos q \<in> set (r_pos r)"
  shows "room_ok (tab(uid \<mapsto> q)) h
    (r\<lparr>r_master := (if r_players r = [] then Some uid else r_master r), r_players := insort_insert uid (r_players r),
       r_pos := removeAll (p_pos q) (r_pos r)\<rparr>)"
proof -
  have u: "uid \<notin> set (r_players r)" using ok p by (auto simp: room_ok_def)
  let ?tab = "tab(uid \<mapsto> q)"
  have s: "seat ?tab v = seat tab v" if "v \<in> set (r_players r)" for v using that u by (auto simp: seat_def)
  have su: "seat ?tab uid = p_pos q" by (simp add: seat_def)
  have img: "seat ?tab ` set (r_players r) = seat tab ` set (r_players r)" using s by (auto simp: image_iff)
  have set: "set (insort_insert uid (r_players r)) = insert uid (set (r_players r))" by (simp add: set_insort_insert)
  have fresh: "p_pos q \<notin> seat tab ` set (r_players r)" using ok q(2) by (auto simp: room_ok_def)
  have "inj_on (seat ?tab) (set (r_players r)) = inj_on (seat tab) (set (r_players r))" using s by (auto simp: inj_on_def)
  then have "inj_on (seat ?tab) (insert uid (set (r_players r)))" using ok fresh img su u by (auto simp: room_ok_def)
  moreover have "insort_insert uid (r_players r) \<noteq> []" using set by force
  moreover have "distinct (insort_insert uid (r_players r))" using ok by (simp add: room_ok_def distinct_insort_insert)
  moreover have "seat ?tab ` insert uid (set (r_players r)) \<inter> (set (r_pos r) - {p_pos q}) = {}"
    using ok su img by (auto simp: room_ok_def)
  moreover have "seat ?tab ` insert uid (set (r_players r)) \<union> (set (r_pos r) - {p_pos q}) = {1..int (r_max r)}"
    using ok su img q(2) by (auto simp: room_ok_def)
  ultimately show ?thesis using ok p q by (auto simp: room_ok_def set distinct_removeAll)
qed

lemma seat_upd: "seat (tab(uid \<mapsto> q)) = (seat tab)(uid := p_pos q)"
  by (simp add: seat_def fun_eq_iff)

lemma inj_image_upd:
  assumes "inj_on f A" "a \<in> A" "y \<notin> f ` A"
  shows "inj_on (f(a := y)) A" "f(a := y) ` A = insert y (f ` A - {f a})"
proof -
  show "inj_on (f(a := y)) A" using assms(1,3) by (rule inj_on_fun_updI)
  have "A = insert a (A - {a})" using assms(2) by blast
  then have "f(a := y) ` A = insert y (f(a := y) ` (A - {a}))" by (metis fun_upd_same image_insert)
  also have "f(a := y) ` (A - {a}) = f ` (A - {a})" by (rule image_cong) auto
  finally have "f(a := y) ` A = insert y (f ` (A - {a}))" .
  moreover have "f ` (A - {a}) = f ` A - {f a}" using inj_on_image_set_diff [OF assms(1), of A "{a}"] assms(2) by simp
  ultimately show "f(a := y) ` A = insert y (f ` A - {f a})" by simp
qed

lemma room_okD:
  assumes "room_ok tab h r"
  shows "distinct (r_players r)" "inj_on (seat tab) (set (r_players r))" "seat tab ` set (r_players r) \<inter> set (r_pos r) = {}"
    "seat tab ` set (r_players r) \<union> set (r_pos r) = {1..int (r_max r)}" "distinct (r_pos r)"
    "uid \<in> set (r_players r) \<longleftrightarrow> (\<exists>p. tab uid = Some p \<and> p_room p = Some h)" "r_players r \<noteq> [] \<Longrightarrow> r_master r \<noteq> None"
  using assms by (auto simp: room_ok_def)

lemma room_ok_leave:
  assumes ok: "room_ok tab h r" and p: "tab uid = Some p" "p_room p = Some h" and q: "p_room q = None"
  shows "room_ok (tab(uid \<mapsto> q)) h (r\<lparr>r_players := removeAll uid (r_players r), r_pos := insort_insert (p_pos p) (r_pos r)\<rparr>)"
proof -
  let ?tab = "tab(uid \<mapsto> q)" let ?P = "set (r_players r)"
  note D = room_okD [OF ok]
  have u: "uid \<in> ?P" using D(6) p by blast
  have su: "seat tab uid = p_pos p" using p by (simp add: seat_def)
  have "seat ?tab ` (?P - {uid}) = seat tab ` (?P - {uid})" by (rule image_cong) (auto simp: seat_def)
  also have "\<dots> = seat tab ` ?P - {p_pos p}" using inj_on_image_set_diff [OF D(2), of ?P "{uid}"] u su by simp
  finally have img: "seat ?tab ` (?P - {uid}) = seat tab ` ?P - {p_pos p}" .
  have inj: "inj_on (seat ?tab) (?P - {uid})"
    using inj_on_diff [OF D(2), of "{uid}"] by (rule inj_on_cong [THEN iffD1, rotated]) (auto simp: seat_def)
  have pm: "p_pos p \<in> seat tab ` ?P" using u su by force
  have "seat tab ` ?P - {p_pos p} \<union> insert (p_pos p) (set (r_pos r)) = {1..int (r_max r)}" using D(4) pm by blast
  moreover have "(seat tab ` ?P - {p_pos p}) \<inter> insert (p_pos p) (set (r_pos r)) = {}" using D(3) by blast
  moreover have "v \<in> ?P - {uid} \<longleftrightarrow> (\<exists>x. ?tab v = Some x \<and> p_room x = Some h)" for v using D(6) [of v] q by auto
  ultimately show ?thesis using inj D(1,5,7) unfolding room_ok_def
    by (simp add: img set_insort_insert distinct_insort_insert distinct_removeAll) (metis removeAll.simps(1))
qed

lemma room_ok_move:
  assumes ok: "room_ok tab h r" and p: "tab uid = Some p" "p_room p = Some h" and q: "p_room q = Some h" "p_pos q \<in> set (r_pos r)"
  shows "room_ok (tab(uid \<mapsto> q)) h (r\<lparr>r_pos := insort_insert (p_pos p) (removeAll (p_pos q) (r_pos r))\<rparr>)"
proof -
  let ?tab = "tab(uid \<mapsto> q)" let ?P = "set (r_players r)"
  note D = room_okD [OF ok]
  have u: "uid \<in> ?P" using D(6) p by blast
  have su: "seat tab uid = p_pos p" using p by (simp add: seat_def)
  have fresh: "p_pos q \<notin> seat tab ` ?P" using D(3) q(2) by blast
  note upd = inj_image_upd [OF D(2) u fresh, folded seat_upd, unfolded su]
  have pm: "p_pos p \<in> seat tab ` ?P" using u su by force
  have "insert (p_pos q) (seat tab ` ?P - {p_pos p}) \<union> insert (p_pos p) (set (r_pos r) - {p_pos q}) = {1..int (r_max r)}"
    using D(4) pm q(2) by (auto simp: set_eq_iff)
  moreover have "insert (p_pos q) (seat tab ` ?P - {p_pos p}) \<inter> insert (p_pos p) (set (r_pos r) - {p_pos q}) = {}"
    using D(3) q(2) pm by (auto simp: set_eq_iff)
  moreover have "v \<in> ?P \<longleftrightarrow> (\<exists>x. ?tab v = Some x \<and> p_room x = Some h)" for v using D(6) [of v] q u by auto
  ultimately show ?thesis using upd D(1,5,7) unfolding room_ok_def
    by (simp add: set_insort_insert distinct_insort_insert distinct_removeAll) metis
qed

lemma room_ok_swap:
  assumes ok: "room_ok tab h r" and p: "tab u = Some p" "p_room p = Some h" and q: "tab v = Some q" "p_room q = Some h" and uv: "u \<noteq> v"
  shows "room_ok (tab(u \<mapsto> take_seat q p, v \<mapsto> take_seat p q)) h r"
proof -
  let ?tab = "tab(u \<mapsto> take_seat q p, v \<mapsto> take_seat p q)" let ?P = "set (r_players r)"
  note D = room_okD [OF ok]
  have mem: "u \<in> ?P" "v \<in> ?P" using D(6) p q by blast+
  let ?s = "id(u := v, v := u)"
  have s: "seat ?tab = seat tab \<circ> ?s"
    using p q uv by (auto simp: fun_eq_iff seat_def take_seat_def)
  have inj: "inj_on ?s ?P" using uv by (auto simp: inj_on_def)
  have "?s ` ?P \<subseteq> ?P" using mem by auto
  then have perm: "?s ` ?P = ?P" using endo_inj_surj inj finite_set by blast
  have "inj_on (seat ?tab) ?P" unfolding s using D(2) perm comp_inj_on [OF inj] by simp
  moreover have "seat ?tab ` ?P = seat tab ` ?P" unfolding s image_comp [symmetric] perm ..
  moreover have "x \<in> ?P \<longleftrightarrow> (\<exists>y. ?tab x = Some y \<and> p_room y = Some h)" for x using D(6) [of x] p q by (auto simp: take_seat_def)
  ultimately show ?thesis using D(1,3,4,5,7) unfolding room_ok_def by metis
qed

subsection \<open>Changes of the game\<close>

lemma game_okD:
  assumes "game_ok g"
  shows "h < length (g_objs g) \<Longrightarrow> room_ok (g_players g) h (g_objs g ! h)"
    "g_players g uid = Some p \<Longrightarrow> p_room p = Some h \<Longrightarrow> h < length (g_objs g)"
    "g_players g uid = Some p \<Longrightarrow> p_room p = Some h \<Longrightarrow> p_login p"
    "(i, h) \<in> set (g_rooms g) \<Longrightarrow> h < length (g_objs g)"
  using assms by (auto simp: game_ok_def)

lemma room_ok_agree:
  assumes "room_ok tab h r" "\<And>u p. tab u = Some p \<Longrightarrow> p_room p = Some h \<Longrightarrow> tab' u = Some p"
    "\<And>u p. tab' u = Some p \<Longrightarrow> p_room p = Some h \<Longrightarrow> tab u = Some p"
  shows "room_ok tab' h r"
proof -
  note D = room_okD [OF assms(1)]
  have mem: "u \<in> set (r_players r) \<longleftrightarrow> (\<exists>p. tab' u = Some p \<and> p_room p = Some h)" for u
    using D(6) [of u] assms(2,3) [of u] by blast
  have s: "seat tab' u = seat tab u" if "u \<in> set (r_players r)" for u
    using D(6) [of u] that assms(2) [of u] by (auto simp: seat_def)
  have "seat tab' ` set (r_players r) = seat tab ` set (r_players r)" using s by (rule image_cong [OF refl])
  moreover have "inj_on (seat tab') (set (r_players r))" using D(2) s unfolding inj_on_def by metis
  ultimately show ?thesis using D(1,3,4,5,7) unfolding room_ok_def by (simp add: mem [symmetric]) blast
qed

text \<open>A step that changes one room and one player of it or of no room.\<close>

lemma game_ok_step:
  assumes ok: "game_ok g" and h: "h < length (g_objs g)"
    and p: "\<And>p h'. g_players g uid = Some p \<Longrightarrow> p_room p = Some h' \<Longrightarrow> h' = h"
    and q: "\<And>h'. p_room q = Some h' \<Longrightarrow> h' = h \<and> p_login q"
    and r: "room_ok ((g_players g)(uid \<mapsto> q)) h r"
    and g': "g_players g' = (g_players g)(uid \<mapsto> q)" "g_objs g' = (g_objs g)[h := r]" "set (g_rooms g') \<subseteq> set (g_rooms g)"
  shows "game_ok g'"
proof -
  have "room_ok (g_players g') h' (g_objs g' ! h')" if "h' < length (g_objs g')" for h'
  proof (cases "h' = h")
    case False
    then have "room_ok ((g_players g)(uid \<mapsto> q)) h' (g_objs g ! h')"
      using game_okD(1) [OF ok] that p q g'(2) by (intro room_ok_other) auto
    then show ?thesis using False g' by simp
  qed (use g' h r in simp)
  moreover have "h' < length (g_objs g') \<and> p_login x" if "g_players g' u = Some x" "p_room x = Some h'" for u x h'
    using that g' q h game_okD(2,3) [OF ok, of u x h'] by (cases "u = uid") auto
  moreover have "\<forall>(i, h') \<in> set (g_rooms g'). h' < length (g_objs g')" using g' game_okD(4) [OF ok] by auto
  ultimately show ?thesis unfolding game_ok_def by blast
qed

lemma game_ok_room:
  assumes ok: "game_ok g" and r: "h < length (g_objs g) \<Longrightarrow> room_ok (g_players g) h (f (g_objs g ! h))"
  shows "game_ok (upd_room h f g)"
proof -
  have "room_ok (g_players g) h' ((g_objs g)[h := f (g_objs g ! h)] ! h')" if "h' < length (g_objs g)" for h'
    using game_okD(1) [OF ok that] r that by (cases "h' = h") auto
  then show ?thesis using ok by (auto simp: game_ok_def)
qed

lemma game_ok_status: "game_ok g \<Longrightarrow> game_ok (upd_room h (\<lambda>r. r\<lparr>r_status := st\<rparr>) g)"
  by (rule game_ok_room) (auto simp: game_ok_def room_ok_def)

text \<open>A player of no room may change at will.\<close>

lemma game_ok_loner:
  assumes ok: "game_ok g" and p: "\<And>p. g_players g uid = Some p \<Longrightarrow> p_room p = None" and q: "p_room q = None"
    and g': "g_players g' = (g_players g)(uid \<mapsto> q)" "g_objs g' = g_objs g" "g_rooms g' = g_rooms g"
  shows "game_ok g'"
proof -
  have "room_ok (g_players g') h (g_objs g' ! h)" if "h < length (g_objs g')" for h
    using game_okD(1) [OF ok, of h] p q that unfolding g' by (intro room_ok_other) auto
  moreover have "h' < length (g_objs g') \<and> p_login x" if "g_players g' u = Some x" "p_room x = Some h'" for u x h'
    using that g' q game_okD(2,3) [OF ok, of u x h'] by (cases "u = uid") auto
  ultimately show ?thesis using game_okD(4) [OF ok] unfolding game_ok_def g' by blast
qed

lemma game_ok_new_room:
  assumes ok: "game_ok g"
  shows "game_ok (g\<lparr>g_cur_room_id := i, g_objs := g_objs g @ [room_new rid n mode]\<rparr>)" (is "game_ok ?g")
proof -
  have none: "\<not> (\<exists>p. g_players g u = Some p \<and> p_room p = Some (length (g_objs g)))" for u
    using game_okD(2) [OF ok] by blast
  have "set (map (\<lambda>i. int i + 1) [0..<n]) = {1..int n}"
  proof -
    have "x \<in> (\<lambda>i. int i + 1) ` {0..<n}" if "1 \<le> x" "x \<le> int n" for x
      using that by (intro image_eqI [where x = "nat (x - 1)"]) auto
    then show ?thesis by auto
  qed
  moreover have "distinct (map (\<lambda>i. int i + 1) [0..<n])" by (simp add: distinct_map inj_on_def)
  ultimately have new: "room_ok (g_players g) (length (g_objs g)) (room_new rid n mode)"
    using none by (auto simp: room_ok_def room_new_def)
  have "room_ok (g_players g) h ((g_objs g @ [room_new rid n mode]) ! h)" if "h < Suc (length (g_objs g))" for h
    using that new game_okD(1) [OF ok, of h] by (cases "h = length (g_objs g)") (auto simp: nth_append)
  moreover have "h < Suc (length (g_objs g)) \<and> p_login p" if "g_players g u = Some p" "p_room p = Some h" for u p h
    using game_okD(2,3) [OF ok that] by simp
  moreover have "\<forall>(i, h) \<in> set (g_rooms g). h < Suc (length (g_objs g))" using game_okD(4) [OF ok] by fastforce
  ultimately show ?thesis unfolding game_ok_def by simp
qed

subsection \<open>The operations of a room keep the invariant\<close>

lemma update_to_status_simps [simp]:
  "p_room (update_to_login_status p) = None" "p_login (update_to_login_status p)" "p_room (update_to_none_status p) = None"
  by (simp_all add: update_to_login_status_def update_to_none_status_def)

lemma same_seats_objs: "same_seats g g' \<Longrightarrow> g_objs g' = g_objs g"
  by (simp add: same_seats_def)

lemma room_join_ok:
  assumes ok: "game_ok g" and h: "h < length (g_objs g)" and p: "g_players g uid = Some p" "p_room p = None" "p_login p"
    and seats: "r_pos (g_objs g ! h) \<noteq> []"
  shows "\<exists>g'. room_join h uid g = Inr g' \<and> game_ok g' \<and> h < length (g_objs g') \<and> uid \<in> set (r_players (g_objs g' ! h)) \<and>
    g_rooms g' = g_rooms g"
proof -
  let ?r = "g_objs g ! h"
  let ?r1 = "?r\<lparr>r_master := (if r_players ?r = [] then Some uid else r_master ?r), r_players := insort_insert uid (r_players ?r)\<rparr>"
  obtain pos rest where l: "get_pos_list ?r1 = pos # rest"
    using get_pos_list_nonempty [of ?r1] seats by (cases "get_pos_list ?r1") simp_all
  then have pos: "pos \<in> set (r_pos ?r)" using get_pos_list_sub [of ?r1] by auto
  let ?r2 = "?r1\<lparr>r_pos := removeAll pos (r_pos ?r)\<rparr>"
  let ?q = "set_player_pos ?r2 pos (p\<lparr>p_room := Some h\<rparr>)"
  define g1 where "g1 = upd_player uid (set_player_pos ?r2 pos) (upd_room h (\<lambda>_. ?r2)
    (upd_player uid (\<lambda>p. p\<lparr>p_room := Some h\<rparr>) (upd_room h (\<lambda>_. ?r1) g)))"
  have join: "room_join h uid g = Inr (update_player_info h g1)"
    using h l by (simp add: room_join_def get_pos_def g1_def Let_def upd_room_def)
  have "room_ok ((g_players g)(uid \<mapsto> ?q)) h ?r2"
    using room_ok_join [OF game_okD(1) [OF ok h] p(1,2), of ?q] pos by simp
  then have "game_ok g1"
    by (rule game_ok_step [OF ok h, rotated 2]) (use p in \<open>auto simp: g1_def\<close>)
  moreover have "h < length (g_objs g1)" "uid \<in> set (r_players (g_objs g1 ! h))" "g_rooms g1 = g_rooms g"
    using h by (simp_all add: g1_def set_insort_insert)
  moreover note same_seats_update_info [OF calculation(1,2)]
  ultimately show ?thesis using join game_ok_same_seats [of g1] by (simp add: same_seats_def)
qed

lemma room_remove_ok:
  assumes ok: "game_ok g" and p: "g_players g uid = Some p" "p_room p = Some h"
  shows "game_ok (room_remove h uid g)" "p_room (the_player (room_remove h uid g) uid) = None"
    "length (g_objs (room_remove h uid g)) = length (g_objs g)" "g_players (room_remove h uid g) uid \<noteq> None"
proof -
  have h: "h < length (g_objs g)" using game_okD(2) [OF ok p] .
  have mem: "uid \<in> set (r_players (g_objs g ! h))" using room_okD(6) [OF game_okD(1) [OF ok h]] p by blast
  show "game_ok (room_remove h uid g)"
    by (rule game_ok_step [OF ok h _ _ room_ok_leave [OF game_okD(1) [OF ok h] p, of "update_to_login_status p"]])
      (use p mem in \<open>auto simp: room_remove_def\<close>)
  show "p_room (the_player (room_remove h uid g) uid) = None" "length (g_objs (room_remove h uid g)) = length (g_objs g)"
    "g_players (room_remove h uid g) uid \<noteq> None"
    using p mem by (simp_all add: room_remove_def)
qed

lemma destroyed_players:
  "g_players (fold (\<lambda>uid. upd_player uid update_to_login_status) us g) u =
     (if u \<in> set us then Some (update_to_login_status player_new) else g_players g u)"
  "g_objs (fold (\<lambda>uid. upd_player uid update_to_login_status) us g) = g_objs g"
  "g_rooms (fold (\<lambda>uid. upd_player uid update_to_login_status) us g) = g_rooms g"
  by (induction us arbitrary: g) (auto simp: update_to_login_status_def update_to_none_status_def)

lemma destroy_room_ok:
  assumes ok: "game_ok g" and h: "h < length (g_objs g)"
  shows "game_ok (destroy_room h g)" "\<And>p. g_players (destroy_room h g) uid = Some p \<Longrightarrow> p_room p \<noteq> Some h"
proof -
  let ?us = "r_players (g_objs g ! h)" let ?g = "destroy_room h g"
  have tab: "g_players ?g u = (if u \<in> set ?us then Some (update_to_login_status player_new) else g_players g u)" for u
    by (simp add: destroy_room_def room_destroy_def Let_def destroyed_players)
  have mem: "u \<in> set ?us \<longleftrightarrow> (\<exists>p. g_players g u = Some p \<and> p_room p = Some h)" for u
    using room_okD(6) [OF game_okD(1) [OF ok h]] .
  show none: "p_room p \<noteq> Some h" if "g_players ?g uid = Some p" for uid p
    using that mem [of uid] unfolding tab by (auto split: if_splits)
  have objs: "g_objs ?g = (g_objs g)[h := (g_objs g ! h)\<lparr>r_id := 0, r_status := st_open, r_master := None, r_max := 0,
      r_players := [], r_pos := []\<rparr>]"
    by (simp add: destroy_room_def room_destroy_def Let_def destroyed_players)
  have rooms: "set (g_rooms ?g) \<subseteq> set (g_rooms g)"
    by (auto simp: destroy_room_def room_destroy_def Let_def destroyed_players)
  have "room_ok (g_players ?g) h' (g_objs ?g ! h')" if "h' < length (g_objs ?g)" for h'
  proof (cases "h' = h")
    case True
    then show ?thesis using none h by (auto simp: objs room_ok_def)
  next
    case False
    have "room_ok (g_players ?g) h' (g_objs g ! h')"
      by (rule room_ok_agree [OF game_okD(1) [OF ok]]) (use that False mem in \<open>auto simp: objs tab split: if_splits\<close>)
    then show ?thesis using False by (simp add: objs)
  qed
  moreover have "h' < length (g_objs ?g) \<and> p_login p" if "g_players ?g u = Some p" "p_room p = Some h'" for u p h'
    using that game_okD(2,3) [OF ok, of u p h'] by (auto simp: tab objs split: if_splits)
  moreover have "\<forall>(i, h') \<in> set (g_rooms ?g). h' < length (g_objs ?g)" using rooms game_okD(4) [OF ok] by (auto simp: objs)
  ultimately show "game_ok ?g" unfolding game_ok_def by blast
qed

lemma game_ok_sent [simp]: "game_ok (send_client_msg uid m g) = game_ok g" "game_ok (broadcast_msg h m g) = game_ok g"
  by (simp_all add: game_ok_def)

lemma deal_destroy_room_ok:
  assumes "game_ok g" "h < length (g_objs g)"
  shows "game_ok (deal_destroy_room h g)" "\<And>p. g_players (deal_destroy_room h g) uid = Some p \<Longrightarrow> p_room p \<noteq> Some h"
  using destroy_room_ok [of "broadcast_msg h sc_room_destroyed g"] assms by (simp_all add: deal_destroy_room_def)

text \<open>Leaving succeeds and leaves the player in no room.\<close>

lemma destroy_keeps_loner:
  "g_players g uid = Some p \<Longrightarrow> p_room p = None \<Longrightarrow> \<exists>q. g_players (destroy_room h g) uid = Some q \<and> p_room q = None"
  by (simp add: destroy_room_def room_destroy_def Let_def destroyed_players)

lemma destroy_frees_member:
  assumes "game_ok g" "g_players g uid = Some p" "p_room p = Some h"
  shows "\<exists>q. g_players (destroy_room h g) uid = Some q \<and> p_room q = None"
  using room_okD(6) [OF game_okD(1) [OF assms(1) game_okD(2) [OF assms]], of uid] assms(2,3)
  by (simp add: destroy_room_def room_destroy_def Let_def destroyed_players)

lemma exit_room_ok:
  assumes ok: "game_ok g" and p: "g_players g uid = Some p"
  shows "\<exists>g' q. exit_room (Some uid) g = Inr g' \<and> game_ok g' \<and> g_players g' uid = Some q \<and> p_room q = None"
proof (cases "p_room p")
  case None
  then show ?thesis using ok p by (simp add: exit_room_def)
next
  case (Some h)
  have h: "h < length (g_objs g)" using game_okD(2) [OF ok p Some] .
  let ?g1 = "room_remove h uid g"
  note rem = room_remove_ok [OF ok p Some]
  obtain q where q: "g_players ?g1 uid = Some q" "p_room q = None" using rem(2,4) by auto
  have "game_ok (deal_destroy_room h g)" "game_ok (deal_destroy_room h ?g1)" "game_ok (destroy_room h ?g1)"
    using deal_destroy_room_ok(1) destroy_room_ok(1) ok h rem(1,3) by auto
  moreover have "\<exists>q. g_players (deal_destroy_room h g) uid = Some q \<and> p_room q = None"
    unfolding deal_destroy_room_def by (rule destroy_frees_member) (use ok p Some in simp_all)
  moreover have "\<exists>q. g_players (deal_destroy_room h ?g1) uid = Some q \<and> p_room q = None"
    "\<exists>q. g_players (destroy_room h ?g1) uid = Some q \<and> p_room q = None"
    unfolding deal_destroy_room_def by (rule destroy_keeps_loner; use q in simp)+
  ultimately show ?thesis using p Some q rem(1) by (simp add: exit_room_def Let_def)
qed

lemma player_atD: "player_at h pos g = Some u \<Longrightarrow> u \<in> set (r_players (g_objs g ! h)) \<and> seat (g_players g) u = pos"
  by (auto simp: player_at_def find_Some_iff seat_def)

lemma seat_taken_by_someone:
  assumes "room_ok (g_players g) h (g_objs g ! h)" "1 \<le> pos" "pos \<le> int (r_max (g_objs g ! h))" "pos \<notin> set (r_pos (g_objs g ! h))"
  shows "\<exists>u. player_at h pos g = Some u"
proof -
  have "pos \<in> seat (g_players g) ` set (r_players (g_objs g ! h))" using room_okD(4) [OF assms(1)] assms(2-4) by fastforce
  then have "player_at h pos g \<noteq> None" by (auto simp: player_at_def find_None_iff seat_def)
  then show ?thesis by blast
qed

lemma switch_seat_ok:
  assumes ok: "game_ok g" and p: "g_players g uid = Some p" "p_room p = Some h"
    and pos: "1 \<le> pos" "pos \<le> int (r_max (g_objs g ! h))"
  shows "\<exists>g'. switch_seat h uid pos g = Inr g' \<and> game_ok g' \<and> length (g_objs g') = length (g_objs g) \<and>
    r_players (g_objs g' ! h) = r_players (g_objs g ! h)"
proof -
  have h: "h < length (g_objs g)" using game_okD(2) [OF ok p] .
  note r = game_okD(1) [OF ok h] and login = game_okD(3) [OF ok p]
  consider (same) "pos = p_pos p" | (free) "pos \<noteq> p_pos p" "pos \<in> set (r_pos (g_objs g ! h))"
    | (taken) "pos \<noteq> p_pos p" "pos \<notin> set (r_pos (g_objs g ! h))" by blast
  then show ?thesis
  proof cases
    case same
    then show ?thesis using ok p by (simp add: switch_seat_def)
  next
    case free
    let ?q = "set_player_pos (g_objs g ! h) pos p"
    have "room_ok ((g_players g)(uid \<mapsto> ?q)) h
        ((g_objs g ! h)\<lparr>r_pos := insort_insert (p_pos p) (removeAll pos (r_pos (g_objs g ! h)))\<rparr>)"
      using room_ok_move [OF r p, of ?q] free p by simp
    then have "game_ok (upd_room h (\<lambda>r. r\<lparr>r_pos := insort_insert (p_pos p) (removeAll pos (r_pos r))\<rparr>)
        (upd_player uid (set_player_pos (g_objs g ! h) pos) g))"
      by (rule game_ok_step [OF ok h, rotated 2]) (use p login in auto)
    then show ?thesis using free p h by (simp add: switch_seat_def)
  next
    case taken
    obtain v where v: "player_at h pos g = Some v" using seat_taken_by_someone [OF r pos taken(2)] by blast
    obtain q where q: "g_players g v = Some q" "p_room q = Some h" using player_atD [OF v] room_member [OF ok h] by blast
    have uv: "uid \<noteq> v" using player_atD [OF v] taken(1) p by (auto simp: seat_def)
    let ?g1 = "upd_player v (take_seat p) (upd_player uid (take_seat q) g)"
    have tab: "g_players ?g1 = (g_players g)(uid \<mapsto> take_seat q p, v \<mapsto> take_seat p q)" using p q uv by simp
    have "room_ok (g_players ?g1) h' (g_objs g ! h')" if "h' < length (g_objs g)" for h'
    proof (cases "h' = h")
      case True
      then show ?thesis unfolding tab using room_ok_swap [OF r p q uv] by simp
    next
      case False
      show ?thesis
        by (rule room_ok_agree [OF game_okD(1) [OF ok that]])
          (use p q uv False in \<open>auto simp: tab take_seat_def split: if_splits\<close>)
    qed
    moreover have "h' < length (g_objs g) \<and> p_login x" if "g_players ?g1 u = Some x" "p_room x = Some h'" for u x h'
      using that p q h login game_okD(3) [OF ok q] game_okD(2,3) [OF ok, of u x h']
      by (auto simp: tab take_seat_def split: if_splits)
    ultimately have "game_ok ?g1" using game_okD(4) [OF ok] unfolding game_ok_def by (simp del: upd_player_simps(1)) blast
    then show ?thesis using taken v p q by (simp add: switch_seat_def)
  qed
qed

lemma broadcast_room_info_ok:
  assumes "game_ok g" "h < length (g_objs g)" "r_players (g_objs g ! h) \<noteq> []"
  shows "\<exists>g'. broadcast_room_info h g = Inr g' \<and> game_ok g'"
  using room_okD(7) [OF game_okD(1) [OF assms(1,2)] assms(3)] assms(1)
  by (auto simp: broadcast_room_info_def get_room_info_def Let_def)

subsection \<open>The handlers keep the invariant\<close>

definition handled :: "room_fault + game \<Rightarrow> bool" where
  "handled res \<longleftrightarrow> (\<exists>g'. res = Inr g' \<and> game_ok g')"

lemma handledI [intro]: "game_ok g \<Longrightarrow> handled (Inr g)"
  by (simp add: handled_def)

lemma find_player_login: "find_player uid True g = Some u \<Longrightarrow> u = uid \<and> (\<exists>p. g_players g uid = Some p \<and> p_login p)"
  by (auto simp: find_player_def split: option.splits if_splits)

lemma handled_broadcast:
  "game_ok g \<Longrightarrow> h < length (g_objs g) \<Longrightarrow> uid \<in> set (r_players (g_objs g ! h)) \<Longrightarrow> handled (broadcast_room_info h g)"
  unfolding handled_def by (rule broadcast_room_info_ok) auto

lemma disconnect_ok:
  assumes ok: "game_ok g"
  shows "\<exists>g'. handle_player_disconnect uid g = Inr g' \<and> game_ok g' \<and>
    (g_players g uid \<noteq> None \<longrightarrow> (\<exists>q. g_players g' uid = Some q \<and> p_room q = None))"
proof (cases "find_player uid True g")
  case None
  have "p_room p = None" if "g_players g uid = Some p" for p
    using None that game_okD(3) [OF ok that] by (cases "p_room p") (auto simp: find_player_def)
  then show ?thesis using None ok by (auto simp: handle_player_disconnect_def)
next
  case (Some u)
  then obtain p where p: "u = uid" "g_players g uid = Some p" using find_player_login by blast
  obtain g1 q where g1: "exit_room (Some uid) g = Inr g1" "game_ok g1" "g_players g1 uid = Some q" "p_room q = None"
    using exit_room_ok [OF ok p(2)] by blast
  have "game_ok (upd_player uid update_to_none_status g1)"
    by (rule game_ok_loner [OF g1(2), where uid = uid and q = "update_to_none_status q"]) (use g1 in auto)
  then show ?thesis using Some p g1 by (simp add: handle_player_disconnect_def)
qed

lemma login_handled:
  assumes ok: "game_ok g"
  shows "handled (login_game uid g)"
proof -
  have ok1: "game_ok (get_player uid g)"
  proof (cases "g_players g uid")
    case None
    show ?thesis
      by (rule game_ok_loner [OF ok, where uid = uid and q = player_new])
        (use None in \<open>auto simp: get_player_def find_player_def player_new_def\<close>)
  qed (use ok in \<open>auto simp: get_player_def find_player_def\<close>)
  obtain p where p: "g_players (get_player uid g) uid = Some p"
    by (cases "g_players g uid") (auto simp: get_player_def find_player_def)
  let ?g2 = "if p_room (the_player (get_player uid g) uid) \<noteq> None then handle_player_disconnect uid (get_player uid g)
    else Inr (get_player uid g)"
  obtain g2 q where g2: "?g2 = Inr g2" "game_ok g2" "g_players g2 uid = Some q" "p_room q = None"
    using disconnect_ok [OF ok1, of uid] ok1 p by (cases "p_room p") auto
  have "game_ok (upd_player uid update_to_login_status g2)"
    by (rule game_ok_loner [OF g2(2), where uid = uid and q = "update_to_login_status q"]) (use g2 in auto)
  then show ?thesis unfolding login_game_def Let_def g2(1) using g2(2) by auto
qed

lemma join_then_broadcast:
  assumes "game_ok g" "h < length (g_objs g)" "g_players g uid = Some p" "p_room p = None" "p_login p" "r_pos (g_objs g ! h) \<noteq> []"
    and that: "\<And>g. g_players (f g) = g_players g" "\<And>g. g_objs (f g) = g_objs g" "\<And>g1. game_ok g1 \<Longrightarrow> h < length (g_objs g1) \<Longrightarrow> game_ok (f g1)"
  shows "handled (case room_join h uid g of Inl x \<Rightarrow> Inl x | Inr g1 \<Rightarrow> broadcast_room_info h (send_client_msg uid m (f g1)))"
proof -
  obtain g1 where g1: "room_join h uid g = Inr g1" "game_ok g1" "h < length (g_objs g1)" "uid \<in> set (r_players (g_objs g1 ! h))"
    using room_join_ok [OF assms(1-6)] by blast
  have "handled (broadcast_room_info h (send_client_msg uid m (f g1)))"
    by (rule handled_broadcast [where uid = uid]) (use g1 that in auto)
  then show ?thesis using g1(1) by simp
qed

lemma set_emplace: "set (emplace k v ps) \<subseteq> insert (k, v) (set ps)"
  by (induction ps) auto

lemma game_ok_emplace: "game_ok g \<Longrightarrow> h < length (g_objs g) \<Longrightarrow> game_ok (g\<lparr>g_rooms := emplace rid h (g_rooms g)\<rparr>)"
  using set_emplace [of rid h "g_rooms g"] by (auto simp: game_ok_def)

lemma create_handled:
  assumes ok: "game_ok g" and n: "0 < count"
  shows "handled (cs_create_room uid pattern count g)"
proof -
  have "handled (case create_room uid count mode g of Inl f \<Rightarrow> Inl f
      | Inr (h, g1) \<Rightarrow> broadcast_room_info h (send_client_msg uid m g1))"
    if p: "g_players g uid = Some p" "p_room p = None" "p_login p" for p mode m
  proof -
    define rid where "rid = fst (get_room_id g)"
    have rid: "get_room_id g = (rid, g\<lparr>g_cur_room_id := rid\<rparr>)" by (simp add: rid_def get_room_id_def Let_def)
    let ?g = "g\<lparr>g_cur_room_id := rid, g_objs := g_objs g @ [room_new rid (nat count) mode]\<rparr>"
    have "r_pos (g_objs ?g ! length (g_objs g)) \<noteq> []" using n by (simp add: room_new_def)
    from join_then_broadcast [OF game_ok_new_room [OF ok] _ _ p(2,3) this,
        where uid = uid and f = "\<lambda>g1. g1\<lparr>g_rooms := emplace rid (length (g_objs g)) (g_rooms g1)\<rparr>" and m = m]
    have "handled (case room_join (length (g_objs g)) uid ?g of Inl x \<Rightarrow> Inl x
        | Inr g1 \<Rightarrow> broadcast_room_info (length (g_objs g))
            (send_client_msg uid m (g1\<lparr>g_rooms := emplace rid (length (g_objs g)) (g_rooms g1)\<rparr>)))"
      using p game_ok_emplace by simp
    then show ?thesis using n by (cases "room_join (length (g_objs g)) uid ?g") (simp_all add: create_room_def rid Let_def)
  qed
  then show ?thesis using ok find_player_login [of uid g uid]
    by (auto simp: cs_create_room_def Let_def check_not_matched_def dest: find_player_login split: if_splits)
qed

lemma check_room_joinable:
  assumes ok: "game_ok g" and c: "check_room (find_room room_id g) g = 0"
  shows "the (find_room room_id g) < length (g_objs g)" "r_pos (g_objs g ! the (find_room room_id g)) \<noteq> []"
proof -
  obtain h where h: "find_room room_id g = Some h" "\<not> room_full (g_objs g ! h)"
    using c by (auto simp: check_room_def split: option.splits if_splits)
  then have "h < length (g_objs g)"
    using game_okD(4) [OF ok] by (auto simp: find_room_def find_Some_iff split: if_splits dest: map_of_SomeD nth_mem)
  moreover from this have "r_pos (g_objs g ! h) \<noteq> []"
    using free_seats [OF game_okD(1) [OF ok]] h(2) by (force simp: room_full_def)
  ultimately show "the (find_room room_id g) < length (g_objs g)" "r_pos (g_objs g ! the (find_room room_id g)) \<noteq> []"
    using h(1) by simp_all
qed

lemma join_handled:
  assumes ok: "game_ok g"
  shows "handled (cs_join_room uid room_id g)"
proof -
  have "handled (case room_join (the (find_room room_id g)) uid g of Inl f \<Rightarrow> Inl f
      | Inr g1 \<Rightarrow> broadcast_room_info (the (find_room room_id g)) (send_client_msg uid m g1))"
    if "g_players g uid = Some p" "p_room p = None" "p_login p" "check_room (find_room room_id g) g = 0" for p m
    using join_then_broadcast [OF ok check_room_joinable(1) [OF ok that(4)] that(1-3) check_room_joinable(2) [OF ok that(4)],
      where f = "\<lambda>g. g"] by simp
  then show ?thesis using ok
    by (auto simp: cs_join_room_def Let_def check_not_matched_def dest!: find_player_login split: if_splits)
qed

lemma exit_handled:
  assumes ok: "game_ok g"
  shows "handled (cs_exit_room uid g)"
proof -
  have "handled (exit_room (Some uid) (send_client_msg uid m g))" if "g_players g uid = Some p" for m p
    using exit_room_ok [of "send_client_msg uid m g" uid p] ok that by (auto simp: handled_def)
  then show ?thesis using ok
    by (cases "find_player uid True g") (auto simp: cs_exit_room_def Let_def dest: find_player_login)
qed

lemma end_battle_handled:
  assumes ok: "game_ok g" and p: "find_player uid True g \<noteq> None"
  shows "handled (cs_end_battle uid g)"
proof -
  obtain p where p: "g_players g uid = Some p" "find_player uid True g = Some uid" using p find_player_login by fastforce
  have out: "handled (case exit_room (Some uid) g1 of Inl f \<Rightarrow> Inl f | Inr g2 \<Rightarrow> Inr (send_client_msg uid m g2))"
    if "game_ok g1" "g_players g1 uid = Some p" for m g1
    using exit_room_ok [OF that] by (auto simp: handled_def)
  have "handled (case exit_room (Some uid) g of Inl f \<Rightarrow> Inl f | Inr g2 \<Rightarrow> Inr (send_client_msg uid m g2))"
    "handled (case exit_room (Some uid) (send_client_msg uid m g) of Inl f \<Rightarrow> Inl f | Inr g2 \<Rightarrow> Inr (send_client_msg uid m g2))" for m
    using ok p by (auto intro!: out)
  then show ?thesis using p(2) unfolding cs_end_battle_def Let_def by (simp split: if_split)
qed

lemma member_of_room:
  assumes ok: "game_ok g" and p: "g_players g uid = Some p" "p_room p = Some h"
  shows "h < length (g_objs g)" "uid \<in> set (r_players (g_objs g ! h))"
  using game_okD(2) [OF ok p] room_okD(6) [OF game_okD(1) [OF ok]] p by blast+

lemma switch_seat_handled:
  assumes ok: "game_ok g"
  shows "handled (cs_switch_seat uid pid pos g)"
proof -
  have "handled (case switch_seat h pid pos g of Inl f \<Rightarrow> Inl f | Inr g1 \<Rightarrow> broadcast_room_info h (send_client_msg uid m g1))"
    if p: "g_players g pid = Some p" "p_room p = Some h" and pos: "1 \<le> pos" "pos \<le> int (r_max (g_objs g ! h))" for p h m
  proof -
    obtain g' where g': "switch_seat h pid pos g = Inr g'" "game_ok g'" "length (g_objs g') = length (g_objs g)"
      "r_players (g_objs g' ! h) = r_players (g_objs g ! h)" using switch_seat_ok [OF ok p pos] by blast
    have "handled (broadcast_room_info h (send_client_msg uid m g'))"
      by (rule handled_broadcast [where uid = pid]) (use g' member_of_room [OF ok p] in auto)
    then show ?thesis using g'(1) by simp
  qed
  then show ?thesis using ok
    by (auto simp: cs_switch_seat_def Let_def check_matched_def dest!: find_player_login split: if_splits cong: sum.case_cong)
qed

lemma switch_equipment_handled:
  assumes ok: "game_ok g" and f: "\<And>p. p_room (f p) = p_room p \<and> p_pos (f p) = p_pos p \<and> p_login (f p) = p_login p"
  shows "handled (switch_equipment uid f g)"
proof -
  have "handled (broadcast_room_info h (update_player_info h (upd_player uid f g)))"
    if p: "g_players g uid = Some p" "p_room p = Some h" for p h
  proof -
    let ?g1 = "upd_player uid f g"
    have same: "same_seats g ?g1" using p f by (intro same_seats_player) auto
    have ok1: "game_ok ?g1" and h: "h < length (g_objs ?g1)" using game_ok_same_seats [OF ok same] member_of_room [OF ok p] by auto
    note same1 = same_seats_update_info [OF ok1 h]
    show ?thesis
      by (rule handled_broadcast [where uid = uid])
        (use game_ok_same_seats [OF ok1 same1] same_seats_objs [OF same1] member_of_room [OF ok p] in auto)
  qed
  then show ?thesis using ok f
    by (auto simp: switch_equipment_def Let_def check_matched_def dest!: find_player_login split: if_splits)
qed

lemma end_load_handled:
  assumes ok: "game_ok g"
  shows "handled (cs_end_load_resource uid g)"
proof -
  have "handled (let g1 = upd_player uid (\<lambda>p. p\<lparr>p_ready := True\<rparr>) g in if all_ready h g1
      then (case get_room_info h g1 of Inl f \<Rightarrow> Inl f | Inr i \<Rightarrow> Inr (g1\<lparr>g_sent := g_sent g1 @ [to_battle i]\<rparr>)) else Inr g1)"
    if p: "g_players g uid = Some p" "p_room p = Some h" for p h
  proof -
    let ?g1 = "upd_player uid (\<lambda>p. p\<lparr>p_ready := True\<rparr>) g"
    have "same_seats g ?g1" using p by (intro same_seats_player) auto
    then have ok1: "game_ok ?g1" by (rule game_ok_same_seats [OF ok])
    then have "game_ok (?g1\<lparr>g_sent := x\<rparr>)" for x by (rule game_ok_same_seats) (simp add: same_seats_def)
    moreover have "r_players (g_objs g ! h) \<noteq> []" using member_of_room(2) [OF ok p] by auto
    then have "r_master (g_objs g ! h) \<noteq> None" by (rule room_okD(7) [OF game_okD(1) [OF ok member_of_room(1) [OF ok p]]])
    then obtain i where "get_room_info h ?g1 = Inr i" by (auto simp: get_room_info_def Let_def)
    ultimately show ?thesis using ok1 by (simp add: Let_def handled_def)
  qed
  note ready = this
  show ?thesis
  proof (cases "find_player uid True g = None \<or> check_matched uid g \<noteq> 0 \<or> check_room_ready (the (p_room (the_player g uid))) g \<noteq> 0")
    case True
    then show ?thesis using ok by (auto simp: cs_end_load_resource_def Let_def)
  next
    case False
    then obtain p h where "g_players g uid = Some p" "p_room p = Some h"
      by (auto simp: check_matched_def dest: find_player_login split: if_splits)
    then show ?thesis using False ready ok handledI by (simp add: cs_end_load_resource_def Let_def)
  qed
qed

lemma battle_handled:
  assumes ok: "game_ok g"
  shows "handled (cs_start_battle uid g)" "handled (br_start_battle uid result g)"
  using ok by (auto simp: cs_start_battle_def br_start_battle_def Let_def intro!: handledI game_ok_status)

lemma room_list_handled: "game_ok g \<Longrightarrow> handled (cs_request_room_list uid pattern per_page page g)"
  by (auto simp: cs_request_room_list_def Let_def)

text \<open>The two messages that fault: ending a battle without being logged in, and making a room of no seats.\<close>

definition faulty :: "int \<Rightarrow> request \<Rightarrow> game \<Rightarrow> bool" where
  "faulty uid req g \<longleftrightarrow>
     (case req of
        Create_room pattern count \<Rightarrow>
          count \<le> 0 \<and> find_player uid True g \<noteq> None \<and> p_room (the_player g uid) = None \<and> 0 \<le> pattern \<and> pattern \<le> 2 \<and>
          check_room_size count pattern = 0
      | End_battle \<Rightarrow> find_player uid True g = None
      | _ \<Rightarrow> False)"

lemma not_faulty_handled:
  assumes "game_ok g" "\<not> faulty uid req g"
  shows "handled (handle uid req g)"
proof (cases req)
  case (Create_room pattern count)
  show ?thesis
  proof (cases "0 < count")
    case False
    then have "first_code [check_not_matched uid g, check_room_mode pattern, check_room_size count pattern] \<noteq> 0 \<or>
        find_player uid True g = None"
      using assms(2) Create_room by (auto simp: faulty_def check_not_matched_def check_room_mode_def)
    then show ?thesis using assms(1) Create_room by (auto simp: cs_create_room_def Let_def)
  qed (use assms Create_room create_handled in simp)
next
  case (Switch_ship s)
  then show ?thesis using assms by (simp add: cs_switch_ship_def switch_equipment_handled)
next
  case (Switch_slot s sk b)
  then show ?thesis using assms by (simp add: cs_switch_slot_def switch_equipment_handled)
next
  case End_battle
  then show ?thesis using assms end_battle_handled by (simp add: faulty_def)
qed (use assms(1) in \<open>simp_all add: login_handled join_handled exit_handled switch_seat_handled battle_handled
      end_load_handled room_list_handled\<close>)

lemma faulty_faults:
  assumes "faulty uid req g"
  shows "\<exists>f. handle uid req g = Inl f"
proof (cases req)
  case (Create_room pattern count)
  then have c: "count \<le> 0" "first_code [check_not_matched uid g, check_room_mode pattern, check_room_size count pattern] = 0"
    "find_player uid True g \<noteq> None"
    using assms by (auto simp: faulty_def check_not_matched_def check_room_mode_def)
  have "\<exists>f. create_room uid count mode g = Inl f" for mode
    using c(1) by (auto simp: create_room_def get_room_id_def room_join_def get_pos_def get_pos_list_def room_new_def Let_def
        upd_room_def upd_player_def split: room_mode.splits sum.splits)
  then obtain f where "create_room uid count (the (mode_of pattern)) g = Inl f" by blast
  then show ?thesis using c Create_room by (simp add: cs_create_room_def Let_def del: first_code.simps)
qed (use assms in \<open>auto simp: faulty_def cs_end_battle_def exit_room_def Let_def\<close>)

lemma reached_ok: "reached e g \<Longrightarrow> game_ok g"
proof (induction rule: reached.induct)
  case (message g uid req g')
  then have "\<not> faulty uid req g" using faulty_faults [of uid req g] by force
  then have "handled (handle uid req g)" by (rule not_faulty_handled [OF message.IH])
  then show ?case using message.hyps(2) by (simp add: handled_def)
qed (rule game_new_ok)

section \<open>Properties\<close>

text \<open>
  (C30) In every state the server reaches the seats of a room are exclusive: two players of one room have different seats, every
  player sits on a seat of the room, a free seat is nobody's, and the seats taken and the free ones make up the room.
\<close>

theorem seats_are_exclusive:
  assumes "reached e g" "g_players g u = Some p" "p_room p = Some h"
  shows "h < length (g_objs g) \<and> u \<in> set (r_players (g_objs g ! h)) \<and> p_pos p \<in> {1..int (r_max (g_objs g ! h))} \<and>
    p_pos p \<notin> set (r_pos (g_objs g ! h)) \<and>
    length (r_players (g_objs g ! h)) + length (r_pos (g_objs g ! h)) = r_max (g_objs g ! h) \<and>
    (\<forall>v q. g_players g v = Some q \<longrightarrow> p_room q = Some h \<longrightarrow> p_pos q = p_pos p \<longrightarrow> v = u)"
proof -
  have ok: "game_ok g" using assms(1) by (rule reached_ok)
  note m = member_of_room [OF ok assms(2,3)]
  have r: "room_ok (g_players g) h (g_objs g ! h)" using game_okD(1) [OF ok m(1)] .
  have s: "p_pos p \<in> seat (g_players g) ` set (r_players (g_objs g ! h))" using m(2) assms(2) by (force simp: seat_def)
  have "v = u" if "g_players g v = Some q" "p_room q = Some h" "p_pos q = p_pos p" for v q
    using inj_onD [OF room_okD(2) [OF r] _ member_of_room(2) [OF ok that(1,2)] m(2)] that assms(2) by (simp add: seat_def)
  then show ?thesis using m s room_okD(3,4) [OF r] free_seats [OF r] by blast
qed

definition two_players :: game where
  "two_players =
     the (fold (\<lambda>(uid, req) g. case g of None \<Rightarrow> None | Some g \<Rightarrow> (case handle uid req g of Inl f \<Rightarrow> None | Inr g' \<Rightarrow> Some g'))
       [(7, Login), (8, Login), (7, Create_room 2 3), (8, Join_room 1)] (Some (game_new False)))"

lemma two_players_reached: "reached False two_players"
proof -
  let ?step = "\<lambda>(uid, req) g. case g of None \<Rightarrow> None | Some g \<Rightarrow> (case handle uid req g of Inl f \<Rightarrow> None | Inr g' \<Rightarrow> Some g')"
  have run: "reached False g \<Longrightarrow> fold ?step evs (Some g) = Some g' \<Longrightarrow> reached False g'" for evs g g'
  proof (induction evs arbitrary: g)
    case (Cons ev evs)
    obtain uid req where ev: "ev = (uid, req)" by fastforce
    have none: "fold ?step evs None = None" for evs by (induction evs) auto
    show ?case
    proof (cases "handle uid req g")
      case (Inl f)
      then show ?thesis using Cons.prems ev none by simp
    next
      case (Inr g1)
      then show ?thesis using Cons.prems ev Cons.IH [of g1] reached.message [of False g uid req g1] by simp
    qed
  qed simp
  have "fold ?step [(7, Login), (8, Login), (7, Create_room 2 3), (8, Join_room 1)] (Some (game_new False)) \<noteq> None"
    by code_simp
  then show ?thesis unfolding two_players_def using run [OF reached.start] by fastforce
qed

theorem seats_are_exclusive_witness:
  "\<exists>p q. g_players two_players 7 = Some p \<and> g_players two_players 8 = Some q \<and> p_room p = Some 0 \<and> p_room q = Some 0 \<and>
     p_pos p \<noteq> p_pos q \<and> p_pos p \<in> {1..int (r_max (g_objs two_players ! 0))}"
proof -
  have "map_option p_room (g_players two_players 7) = Some (Some 0)" "map_option p_room (g_players two_players 8) = Some (Some 0)"
    by code_simp+
  then obtain p q where p: "g_players two_players 7 = Some p" "p_room p = Some 0"
    and q: "g_players two_players 8 = Some q" "p_room q = Some 0" by auto
  have "p_pos p \<in> {1..int (r_max (g_objs two_players ! 0))}" "p_pos q = p_pos p \<longrightarrow> (8::int) = 7"
    using seats_are_exclusive [OF two_players_reached p] q by blast+
  then have "p_pos p \<noteq> p_pos q" "p_pos p \<in> {1..int (r_max (g_objs two_players ! 0))}" by simp_all
  then show ?thesis using p q by blast
qed

text \<open>
  (C31) Which messages bring the server down: in a state it reaches, a message faults exactly when it ends a battle for a user who is
  not logged in (the handler goes on with a null player after the failed check), or creates a room of zero or a negative size
  that the check of the size lets pass.
\<close>

theorem faulting_messages:
  assumes "reached e g"
  shows "(\<exists>f. handle uid req g = Inl f) \<longleftrightarrow> faulty uid req g"
proof (cases "faulty uid req g")
  case False
  then show ?thesis using not_faulty_handled [OF reached_ok [OF assms] False] by (auto simp: handled_def)
qed (use faulty_faults in blast)

theorem faulting_messages_witness:
  "(\<exists>f. handle 9 End_battle two_players = Inl f) \<and> \<not> (\<exists>f. handle 8 End_battle two_players = Inl f)"
proof -
  have "faulty 9 End_battle two_players" "\<not> faulty 8 End_battle two_players" by code_simp+
  then show ?thesis unfolding faulting_messages [OF two_players_reached] by blast
qed

end
