(* ===== verification/Csv_Reader.thy ===== *)
theory Csv_Reader
  imports Csv Enum_Meta
begin

text \<open>
  The typed reader of the configuration tables, \<open>src/network/serialize/csv_adapter.hpp\<close>: every row of a table becomes a structure kept
  under the row's id. Members are plain cells, lists written in one cell, a structure spread over the columns between \<open>name(\<close>
  and \<open>)\<close>, or a list of such structures. The conversions of cells are those of \<open>src/network/util/cast.hpp\<close>, over the enumerations
  of \<open>Enum_Meta\<close>. \<open>boost::lexical_cast\<close>, \<open>boost::split\<close> and \<open>boost::trim_if\<close> are parameters; a number type is known by a number. Dates are
  left out. The fields of a structure, which macros list at compile time, are given as names with their types.
\<close>

section \<open>Model\<close>

subsection \<open>Conversions\<close>

datatype base_type =
    B_bool | B_num nat | B_string | B_enum nat nat | B_opt base_type | B_vec base_type | B_arr base_type nat | B_chars nat

datatype cell_value =
    C_bool bool | C_num int | C_str string | C_enum u32 | C_opt "cell_value option" | C_list "cell_value list" | C_chars string

datatype reader_error = bad_lexical_cast | csv_failure csv_fault

record lib =
  lexical_cast :: "nat \<Rightarrow> string \<Rightarrow> int option"
  lib_split :: split_fn
  lib_trim :: trim_if
  lib_enums :: enum_factory

definition cast_num :: "lib \<Rightarrow> nat \<Rightarrow> string \<Rightarrow> reader_error + int" where
  "cast_num l k s = (case lexical_cast l k s of None \<Rightarrow> Inl bad_lexical_cast | Some i \<Rightarrow> Inr i)"

definition cast_bool :: "string \<Rightarrow> bool" where
  "cast_bool str = (\<not> (str = [] \<or> str = ''false'' \<or> str = ''FALSE'' \<or> str = ''0'' \<or> str = ''off'' \<or> str = ''OFF''))"

definition cast_enum :: "lib \<Rightarrow> nat \<Rightarrow> nat \<Rightarrow> string \<Rightarrow> reader_error + u32" where
  "cast_enum l tid ut str =
     (case ef_to_enum tid str True (lib_enums l) of
        Some v \<Rightarrow> Inr v
      | None \<Rightarrow> ebind (cast_num l ut str) (\<lambda>i. Inr (word_of_int i)))"

text \<open>Printing an enumeration, \<open>to_str\<close>; the flag is true where the caller gives none. A number without a name is printed as such.\<close>

definition to_str :: "(nat \<Rightarrow> string) \<Rightarrow> lib \<Rightarrow> nat \<Rightarrow> u32 \<Rightarrow> bool \<Rightarrow> string" where
  "to_str print l tid t has_enum_name =
     (case ef_to_string tid t has_enum_name (lib_enums l) of Some v \<Rightarrow> v | None \<Rightarrow> print (unat t))"

fun traverse :: "('a \<Rightarrow> 'e + 'b) \<Rightarrow> 'a list \<Rightarrow> 'e + 'b list" where
  "traverse f [] = Inr []"
| "traverse f (x # xs) =
     ebind (f x) (\<lambda>y. ebind (traverse f xs) (\<lambda>ys. Inr (y # ys)))"

definition process_array :: "lib \<Rightarrow> string \<Rightarrow> string list" where
  "process_array l val =
     map (\<lambda>v. trim_copy (lib_trim l) v [CHR 0x20, CHR 0x09, CR, LF]) (if val \<noteq> [] then lib_split l val '',|'' else [])"

primrec base_init :: "base_type \<Rightarrow> cell_value" where
  "base_init B_bool = C_bool False"
| "base_init (B_num k) = C_num 0"
| "base_init B_string = C_str []"
| "base_init (B_enum tid k) = C_enum 0"
| "base_init (B_opt t) = C_opt None"
| "base_init (B_vec t) = C_list []"
| "base_init (B_arr t n) = C_list (replicate n (base_init t))"
| "base_init (B_chars n) = C_chars (replicate n (CHR 0x00))"

fun elements :: "cell_value \<Rightarrow> cell_value list" where
  "elements (C_list vs) = vs"
| "elements _ = []"

fun chars_of :: "cell_value \<Rightarrow> string" where
  "chars_of (C_chars s) = s"
| "chars_of _ = []"

definition copy_chars :: "nat \<Rightarrow> string \<Rightarrow> string \<Rightarrow> string" where
  "copy_chars n val p = (take n val @ drop (length val) p)[(if length val \<ge> n then n - 1 else length val) := CHR 0x00]"

text \<open>Reading a cell into a value that is there already.\<close>

primrec ReadBase :: "base_type \<Rightarrow> lib \<Rightarrow> bool \<Rightarrow> cell_value \<Rightarrow> string \<Rightarrow> reader_error + cell_value" where
  "ReadBase B_bool l es t val = Inr (C_bool (cast_bool val))"
| "ReadBase (B_num k) l es t val = ebind (cast_num l k val) (\<lambda>i. Inr (C_num i))"
| "ReadBase B_string l es t val = Inr (C_str val)"
| "ReadBase (B_enum tid ut) l es t val =
     (if \<not> es then ebind (cast_num l ut val) (\<lambda>i. Inr (C_enum (word_of_int i)))
      else ebind (cast_enum l tid ut val) (\<lambda>v. Inr (C_enum v)))"
| "ReadBase (B_opt b) l es t val =
     (if val \<noteq> ''null'' then ebind (ReadBase b l es (base_init b) val) (\<lambda>v. Inr (C_opt (Some v)))
      else Inr t)"
| "ReadBase (B_vec b) l es t val =
     ebind (traverse (ReadBase b l es (base_init b)) (process_array l val)) (\<lambda>vs. Inr (C_list (elements t @ vs)))"
| "ReadBase (B_arr b n) l es t val =
     ebind (traverse (\<lambda>(old, s). ReadBase b l es old s) (zip (take n (elements t)) (process_array l val)))
       (\<lambda>vs. Inr (C_list (vs @ drop (length vs) (elements t))))"
| "ReadBase (B_chars n) l es t val = Inr (C_chars (copy_chars n val (chars_of t)))"

subsection \<open>Structures over several columns\<close>

type_synonym field = "string \<times> base_type"

text \<open>Searching the header for the columns of a structure; \<open>-1\<close> says that there is none.\<close>

fun find_columns :: "string \<Rightarrow> string list \<Rightarrow> nat \<Rightarrow> int \<Rightarrow> int \<times> int" where
  "find_columns key [] i start_index = (start_index, -1)"
| "find_columns key (h # hs) i start_index =
     (let start_index' = (if h = key then int i else start_index)
      in if start_index' \<ge> 0 \<and> int i > start_index' \<and> h = '')'' then (start_index', int i)
         else find_columns key hs (Suc i) start_index')"

definition name_map :: "string list \<Rightarrow> (string \<rightharpoonup> nat)" where
  "name_map names = fold (\<lambda>i m. m(names ! i \<mapsto> i)) [0..<length names] Map.empty"

fun read_fields :: "lib \<Rightarrow> bool \<Rightarrow> (string \<rightharpoonup> nat) \<Rightarrow> csv_row \<Rightarrow> nat \<Rightarrow> (field \<times> cell_value) list \<Rightarrow> reader_error + cell_value list" where
  "read_fields l es nm val val_index [] = Inr []"
| "read_fields l es nm val val_index (((name, b), t) # fs) =
     ebind (case nm name of
              None \<Rightarrow> Inr t
            | Some index \<Rightarrow>
                (case row_at (index + val_index) val of Inl e \<Rightarrow> Inl (csv_failure e) | Inr str \<Rightarrow> ReadBase b l es t str))
       (\<lambda>v. ebind (read_fields l es nm val val_index fs) (\<lambda>vs. Inr (v # vs)))"

definition paren :: "string \<Rightarrow> bool" where
  "paren s \<longleftrightarrow> s = '')'' \<or> s = ''(''"

function skip_to_open :: "string list \<Rightarrow> nat \<Rightarrow> nat" where
  "skip_to_open val i = (if i + 1 < length val then if val ! (i + 1) = ''('' then i + 1 else skip_to_open val (i + 1) else i)"
  by pat_completeness auto
termination skip_to_open by (relation "measure (\<lambda>(val, i). length val - i)") auto

declare skip_to_open.simps [simp del]

lemma skip_to_open_le: "i \<le> skip_to_open val i"
  by (induction val i rule: skip_to_open.induct) (subst skip_to_open.simps, auto)

text \<open>The loops over the cells. \<open>k\<close> is one less than the number of columns, which is not zero here.\<close>

function struct_loop :: "lib \<Rightarrow> bool \<Rightarrow> (string \<rightharpoonup> nat) \<Rightarrow> nat \<Rightarrow> csv_row \<Rightarrow> field list \<Rightarrow> nat \<Rightarrow> cell_value list \<Rightarrow> reader_error + cell_value list" where
  "struct_loop l es nm k val fs i t =
     (if i + 1 < length (row_values val) then
        if paren (row_values val ! (i + 1)) then struct_loop l es nm k val fs (i + 1) t
        else ebind (read_fields l es nm val i (zip fs t))
               (\<lambda>t'. struct_loop l es nm k val fs (skip_to_open (row_values val) (i + Suc k)) t')
      else Inr t)"
  by pat_completeness auto
termination struct_loop
  by (relation "measure (\<lambda>(l, es, nm, k, val, fs, i, t). length (row_values val) - i)")
    (auto intro!: diff_less_mono2 less_le_trans [OF _ skip_to_open_le])

function structs_loop :: "lib \<Rightarrow> bool \<Rightarrow> (string \<rightharpoonup> nat) \<Rightarrow> nat \<Rightarrow> csv_row \<Rightarrow> (field \<times> cell_value) list \<Rightarrow> nat \<Rightarrow> cell_value list list \<Rightarrow>
    reader_error + cell_value list list" where
  "structs_loop l es nm k val tt i t =
     (if i + 1 < length (row_values val) then
        if paren (row_values val ! i) then structs_loop l es nm k val tt (i + 1) t
        else ebind (read_fields l es nm val i tt)
               (\<lambda>s. structs_loop l es nm k val tt (skip_to_open (row_values val) (i + Suc k)) (t @ [s]))
      else Inr t)"
  by pat_completeness auto
termination structs_loop
  by (relation "measure (\<lambda>(l, es, nm, k, val, tt, i, t). length (row_values val) - i)")
    (auto intro!: diff_less_mono2 less_le_trans [OF _ skip_to_open_le])

declare struct_loop.simps [simp del] structs_loop.simps [simp del]

definition columns_of :: "string \<Rightarrow> string list \<Rightarrow> (nat \<times> nat) option" where
  "columns_of key_name headers =
     (case find_columns (key_name @ ''('') headers 0 (-1) of
        (start_index, end_index) \<Rightarrow>
          if start_index < 0 \<or> end_index < 0 \<or> start_index + 1 = end_index then None
          else Some (nat start_index, nat end_index))"

definition column_names :: "string list \<Rightarrow> nat \<Rightarrow> nat \<Rightarrow> string list" where
  "column_names headers start_index end_index = take (end_index - (start_index + 1)) (drop (start_index + 1) headers)"

subsection \<open>Members, rows, tables\<close>

datatype member = M_base base_type | M_struct "field list" | M_structs "(field \<times> cell_value) list"

datatype member_value = V_base cell_value | V_struct "cell_value list" | V_structs "cell_value list list"

fun ReadObject :: "lib \<Rightarrow> bool \<Rightarrow> string list \<Rightarrow> csv_row \<Rightarrow> string \<Rightarrow> member \<Rightarrow> member_value \<Rightarrow> reader_error + member_value" where
  "ReadObject l es headers val key_name (M_base b) (V_base t) =
     (if key_name \<in> set headers
      then (case row_key headers key_name val of
          Inl e \<Rightarrow> Inl (csv_failure e)
        | Inr s \<Rightarrow> ebind (ReadBase b l es t s) (\<lambda>v. Inr (V_base v)))
      else Inr (V_base t))"
| "ReadObject l es headers val key_name (M_struct fs) (V_struct t) =
     (case columns_of key_name headers of
        None \<Rightarrow> Inr (V_struct t)
      | Some (s, e) \<Rightarrow>
          ebind (struct_loop l es (name_map (column_names headers s e)) (e - s - 2) val fs (s + 1) t) (\<lambda>t'. Inr (V_struct t')))"
| "ReadObject l es headers val key_name (M_structs tt) (V_structs t) =
     (case columns_of key_name headers of
        None \<Rightarrow> Inr (V_structs t)
      | Some (s, e) \<Rightarrow>
          ebind (structs_loop l es (name_map (column_names headers s e)) (e - s - 2) val tt (s + 1) t) (\<lambda>t'. Inr (V_structs t')))"
| "ReadObject l es headers val key_name m v = Inr v"

fun ReadTuple :: "lib \<Rightarrow> bool \<Rightarrow> string list \<Rightarrow> csv_row \<Rightarrow> (string \<times> member \<times> member_value) list \<Rightarrow> reader_error + member_value list" where
  "ReadTuple l es headers val [] = Inr []"
| "ReadTuple l es headers val ((key_name, m, v) # ms) =
     (if row_values val = [] then Inr (v # map (\<lambda>(_, _, v). v) ms)
      else ebind (ReadObject l es headers val key_name m v)
             (\<lambda>v'. ebind (ReadTuple l es headers val ms) (\<lambda>vs. Inr (v' # vs))))"

text \<open>The number type \<open>0\<close> is \<open>int\<close>, the type of the ids.\<close>

definition row_id :: "lib \<Rightarrow> string list \<Rightarrow> csv_row \<Rightarrow> reader_error + int" where
  "row_id l headers val = (case row_key headers ''id'' val of Inl e \<Rightarrow> Inl (csv_failure e) | Inr s \<Rightarrow> cast_num l 0 s)"

fun ReadMap :: "lib \<Rightarrow> bool \<Rightarrow> string list \<Rightarrow> csv_row list \<Rightarrow> (string \<times> member \<times> member_value) list \<Rightarrow> (int \<rightharpoonup> member_value list) \<Rightarrow>
    reader_error + (int \<rightharpoonup> member_value list)" where
  "ReadMap l es headers [] ms t = Inr t"
| "ReadMap l es headers (val # rows) ms t =
     ebind (row_id l headers val) (\<lambda>val_id.
     ebind (ReadTuple l es headers val ms) (\<lambda>s. ReadMap l es headers rows ms (t(val_id \<mapsto> s))))"

datatype reader_failure = csv_runtime_exception | undefined_read

definition rethrow :: "reader_error \<Rightarrow> reader_failure" where
  "rethrow e = (if e = csv_failure Out_Of_Bounds then undefined_read else csv_runtime_exception)"

definition csv_DeSerialize :: "lib \<Rightarrow> bool \<Rightarrow> csv \<Rightarrow> (string \<times> member \<times> member_value) list \<Rightarrow> (int \<rightharpoonup> member_value list) \<Rightarrow>
    reader_failure + (int \<rightharpoonup> member_value list)" where
  "csv_DeSerialize l es d ms t =
     (case ReadMap l es (csv_header d) (csv_content d) ms t of Inl e \<Rightarrow> Inl (rethrow e) | Inr t' \<Rightarrow> Inr t')"

definition csv_reader_parse :: "trim_if \<Rightarrow> string \<Rightarrow> csv \<Rightarrow> (reader_failure + unit) \<times> csv" where
  "csv_reader_parse trim_if str d =
     (case parse_string trim_if str d of (Inl e, d') \<Rightarrow> (Inl csv_runtime_exception, d') | (Inr u, d') \<Rightarrow> (Inr u, d'))"

section \<open>Structures in columns\<close>

subsection \<open>The header\<close>

lemma find_columns_bounds:
  assumes "find_columns key hs i st = (s, e)" "0 \<le> e" "st < int i"
  shows "s < e \<and> e < int (i + length hs)"
  using assms
proof (induction hs arbitrary: i st)
  case (Cons h hs)
  let ?st = "if h = key then int i else st"
  show ?case
  proof (cases "?st \<ge> 0 \<and> int i > ?st \<and> h = '')''")
    case True
    then show ?thesis using Cons.prems by (auto simp: Let_def split: if_splits)
  next
    case False
    then have "find_columns key hs (Suc i) ?st = (s, e)" using Cons.prems(1) by (simp only: find_columns.simps Let_def if_False)
    from Cons.IH [OF this] Cons.prems show ?thesis by auto
  qed
qed auto

lemma column_names_length:
  assumes "columns_of key headers = Some (s, e)"
  shows "length (column_names headers s e) = e - s - 1" "s + 1 < e"
proof -
  obtain s' e' where *: "find_columns (key @ ''('') headers 0 (-1) = (s', e')" "0 \<le> s'" "0 \<le> e'" "s' + 1 \<noteq> e'" "s = nat s'" "e = nat e'"
    using assms by (auto simp: columns_of_def split: prod.splits if_splits)
  then show "length (column_names headers s e) = e - s - 1" "s + 1 < e"
    using find_columns_bounds [OF *(1,3)] by (auto simp: column_names_def)
qed

lemma name_map_bound: "name_map names n = Some i \<Longrightarrow> i < length names"
proof -
  have "fold (\<lambda>i m. m(names ! i \<mapsto> i)) is m n = Some i \<Longrightarrow> i \<in> set is \<or> m n = Some i" for "is" m
  proof (induction "is" arbitrary: m)
    case (Cons a as)
    then show ?case using Cons.IH [of "m(names ! a \<mapsto> a)"] by (auto split: if_splits)
  qed simp
  then show "name_map names n = Some i \<Longrightarrow> i < length names" by (fastforce simp: name_map_def)
qed

subsection \<open>The cells\<close>

lemma skip_to_open_finds:
  assumes "val = a @ ys @ ''('' # zs" "length a = Suc i" "''('' \<notin> set ys"
  shows "skip_to_open val i = Suc (i + length ys)"
  using assms
proof (induction ys arbitrary: a i)
  case Nil
  then show ?case by (subst skip_to_open.simps) (simp add: nth_append)
next
  case (Cons y ys)
  have "skip_to_open val (Suc i) = Suc (Suc i + length ys)" using Cons.IH [of "a @ [y]" "Suc i"] Cons.prems by simp
  moreover have "y \<noteq> ''(''" using Cons.prems(3) by auto
  ultimately show ?case using Cons.prems by (subst skip_to_open.simps) (simp add: nth_append)
qed

lemma skip_to_open_ends:
  assumes "val = a @ ys" "length a = Suc i" "''('' \<notin> set ys"
  shows "length val \<le> Suc (skip_to_open val i)"
  using assms
proof (induction ys arbitrary: a i)
  case Nil
  then show ?case by (subst skip_to_open.simps) simp
next
  case (Cons y ys)
  have "length val \<le> Suc (skip_to_open val (Suc i))" using Cons.IH [of "a @ [y]" "Suc i"] Cons.prems by simp
  moreover have "y \<noteq> ''(''" using Cons.prems(3) by auto
  ultimately show ?case using Cons.prems by (subst skip_to_open.simps) (simp add: nth_append)
qed

definition cells :: "string list \<Rightarrow> csv_row" where
  "cells vs = \<lparr>row_header = True, row_values = vs\<rparr>"

text \<open>The fields of a group of cells, read from the group alone.\<close>

lemma read_fields_group:
  assumes "row_values val = a @ g @ b" "length a = i" "\<And>n j. nm n = Some j \<Longrightarrow> j < length g"
  shows "read_fields l es nm val i fs = read_fields l es nm (cells g) 0 fs"
proof (induction fs)
  case (Cons f fs)
  obtain name b' t where f: "f = ((name, b'), t)" by (metis surj_pair)
  have "row_at (j + i) val = row_at j (cells g)" if "nm name = Some j" for j
    using assms(1,2) assms(3) [OF that] by (simp add: row_at_def cells_def nth_append)
  then show ?case using Cons.IH by (cases "nm name") (simp_all add: f)
qed simp

definition paren_group :: "string list \<Rightarrow> string list" where
  "paren_group g = ''('' # g @ ['')'']"

lemma structs_loop_groups:
  assumes "row_values val = a @ concat (map paren_group gs) @ post" "gs \<noteq> []" "''('' \<notin> set post"
    "\<forall>g \<in> set gs. length g = Suc k \<and> \<not> paren (hd g)" "\<And>n j. nm n = Some j \<Longrightarrow> j < Suc k"
  shows "structs_loop l es nm k val tt (Suc (length a)) t =
    ebind (traverse (\<lambda>g. read_fields l es nm (cells g) 0 tt) gs) (\<lambda>ss. Inr (t @ ss))"
  using assms(1-4)
proof (induction gs arbitrary: a t)
  case (Cons g gs)
  let ?v = "row_values val" let ?i = "Suc (length a)"
  have g: "length g = Suc k" "\<not> paren (hd g)" using Cons.prems(4) by auto
  have v: "?v = (a @ [''('']) @ g @ '')'' # concat (map paren_group gs) @ post" using Cons.prems(1) by (simp add: paren_group_def [of g])
  have at: "?v ! ?i = hd g" using g(1) v by (cases g) (simp_all add: nth_append)
  have rd: "read_fields l es nm val ?i tt = read_fields l es nm (cells g) 0 tt"
    by (rule read_fields_group [OF v]) (use g assms(5) in auto)
  have step: "structs_loop l es nm k val tt ?i t = ebind (read_fields l es nm (cells g) 0 tt)
      (\<lambda>s. structs_loop l es nm k val tt (skip_to_open ?v (?i + Suc k)) (t @ [s]))"
    using g v at rd by (subst structs_loop.simps) simp
  have rest: "structs_loop l es nm k val tt (skip_to_open ?v (?i + Suc k)) t' =
      ebind (traverse (\<lambda>g. read_fields l es nm (cells g) 0 tt) gs) (\<lambda>ss. Inr (t' @ ss))" for t'
  proof (cases gs)
    case Nil
    have "length ?v \<le> Suc (skip_to_open ?v (?i + Suc k))"
      by (rule skip_to_open_ends [of _ "a @ paren_group g" post]) (use Nil Cons.prems g in \<open>auto simp: paren_group_def\<close>)
    then show ?thesis using Nil by (subst structs_loop.simps) simp
  next
    case (Cons g2 gs2)
    let ?a = "a @ paren_group g"
    have va: "?v = ?a @ ''('' # g2 @ '')'' # concat (map paren_group gs2) @ post" using Cons Cons.prems(1) v by (simp add: paren_group_def [of g] paren_group_def [of g2])
    have "skip_to_open ?v (?i + Suc k) = length ?a"
      using skip_to_open_finds [of ?v ?a "[]" "g2 @ '')'' # concat (map paren_group gs2) @ post" "?i + Suc k"] va g by (simp add: paren_group_def)
    moreover have "structs_loop l es nm k val tt (length ?a) t' = structs_loop l es nm k val tt (Suc (length ?a)) t'"
      using va by (subst structs_loop.simps) (simp add: paren_def nth_append)
    ultimately show ?thesis using Cons.IH [of ?a t'] Cons.prems Cons by simp
  qed
  show ?case unfolding step rest by (simp add: ebind_def split: sum.split)
qed simp

text \<open>
  (C35) A list of structures is read group by group: when the row has, from the column \<open>name(\<close> on, groups of as many cells as the
  header has names between the parentheses, each group in parentheses, reading the member yields one structure per group in
  order, with the fields of that group, or fails as the first group that cannot be converted does, whatever stands in front of the
  groups and whatever without an opening parenthesis follows them.
\<close>

theorem structures_read_by_groups:
  assumes "columns_of key headers = Some (s, e)" "row_values val = pre @ concat (map paren_group gs) @ post" "length pre = s" "gs \<noteq> []"
    "''('' \<notin> set post" "\<forall>g \<in> set gs. length g = e - s - 1 \<and> \<not> paren (hd g)"
  shows "ReadObject l es headers val key (M_structs tt) (V_structs t) =
    ebind (traverse (\<lambda>g. read_fields l es (name_map (column_names headers s e)) (cells g) 0 tt) gs) (\<lambda>ss. Inr (V_structs (t @ ss)))"
proof -
  note len = column_names_length [OF assms(1)]
  have nmb: "j < Suc (e - s - 2)" if "name_map (column_names headers s e) n = Some j" for n j
    using name_map_bound [OF that] len by simp
  have "structs_loop l es (name_map (column_names headers s e)) (e - s - 2) val tt (Suc (length pre)) t =
      ebind (traverse (\<lambda>g. read_fields l es (name_map (column_names headers s e)) (cells g) 0 tt) gs) (\<lambda>ss. Inr (t @ ss))"
    by (rule structs_loop_groups [OF assms(2,4,5)]) (use assms(6) len nmb in auto)
  then show ?thesis using assms(1,3) by (simp add: ebind_def split: sum.split)
qed

definition sample_lib :: lib where
  "sample_lib = \<lparr>lexical_cast = (\<lambda>k s. if s = ''7'' then Some 7 else if s = ''8'' then Some 8 else None), lib_split = split_compress,
     lib_trim = (\<lambda>p s. s), lib_enums = sample_factory\<rparr>"

definition sample_header :: "string list" where
  "sample_header = [''id'', ''items('', ''kind'', ''count'', '')'']"

theorem structures_read_by_groups_witness:
  "ReadObject sample_lib False sample_header (cells [''1'', ''('', ''a'', ''7'', '')'', ''('', ''b'', ''8'', '')'']) ''items''
     (M_structs [((''count'', B_num 0), C_num 0), ((''kind'', B_string), C_str [])]) (V_structs []) =
     Inr (V_structs [[C_num 7, C_str ''a''], [C_num 8, C_str ''b'']])"
proof -
  have cols: "columns_of ''items'' sample_header = Some (1, 4)" by code_simp
  have ok: "\<forall>g \<in> set [[''a'', ''7''], [''b'', ''8'']]. length g = 4 - 1 - 1 \<and> \<not> paren (hd g)" by code_simp
  have row: "row_values (cells [''1'', ''('', ''a'', ''7'', '')'', ''('', ''b'', ''8'', '')'']) =
      [''1''] @ concat (map paren_group [[''a'', ''7''], [''b'', ''8'']]) @ []"
    by (simp add: cells_def paren_group_def)
  have read: "traverse (\<lambda>g. read_fields sample_lib False (name_map (column_names sample_header 1 4)) (cells g) 0
      [((''count'', B_num 0), C_num 0), ((''kind'', B_string), C_str [])]) [[''a'', ''7''], [''b'', ''8'']] =
      Inr [[C_num 7, C_str ''a''], [C_num 8, C_str ''b'']]"
    by code_simp
  show ?thesis
    using structures_read_by_groups [OF cols row _ _ _ ok, of sample_lib False
        "[((''count'', B_num 0), C_num 0), ((''kind'', B_string), C_str [])]" "[]"] read by simp
qed

text \<open>A single structure of two or more columns is read from its group, when no other opening parenthesis follows in the row.\<close>

lemma structure_read:
  assumes "columns_of key headers = Some (s, e)" "row_values val = pre @ paren_group g @ post" "length pre = s"
    "''('' \<notin> set post" "length g = e - s - 1" "2 \<le> length g" "\<not> paren (g ! 1)"
  shows "ReadObject l es headers val key (M_struct fs) (V_struct t) =
    ebind (read_fields l es (name_map (column_names headers s e)) (cells g) 0 (zip fs t)) (\<lambda>t'. Inr (V_struct t'))"
proof -
  let ?nm = "name_map (column_names headers s e)" let ?k = "e - s - 2" let ?v = "row_values val"
  note len = column_names_length [OF assms(1)]
  have v: "?v = (pre @ [''('']) @ g @ '')'' # post" using assms(2) by (simp add: paren_group_def)
  have at: "?v ! (s + 1 + 1) = g ! 1" using v assms(3,6) by (simp add: nth_append)
  have lt: "s + 1 + 1 < length ?v" using v assms(3,6) by (cases g) auto
  have rd: "read_fields l es ?nm val (s + 1) (zip fs t) = read_fields l es ?nm (cells g) 0 (zip fs t)"
    by (rule read_fields_group [OF v]) (use assms(3,5) len name_map_bound [of "column_names headers s e"] in auto)
  have "length ?v \<le> Suc (skip_to_open ?v (s + 1 + Suc ?k))"
    by (rule skip_to_open_ends [of _ "pre @ paren_group g" post]) (use assms v in \<open>auto simp: paren_group_def\<close>)
  then have over: "struct_loop l es ?nm ?k val fs (skip_to_open ?v (s + 1 + Suc ?k)) t' = Inr t'" for t'
    by (subst struct_loop.simps) simp
  have "struct_loop l es ?nm ?k val fs (s + 1) t = ebind (read_fields l es ?nm (cells g) 0 (zip fs t)) Inr"
    unfolding struct_loop.simps [of l es ?nm ?k val fs "s + 1"] at rd over using lt assms(7) by simp
  then show ?thesis using assms(1) by (simp add: ebind_def split: sum.split)
qed

text \<open>A structure of one column is not read at all: the test for a parenthesis looks one cell too far.\<close>

lemma one_column_structure_not_read:
  "ReadObject sample_lib False [''id'', ''p('', ''x'', '')''] (cells [''1'', ''('', ''7'', '')'']) ''p'' (M_struct [(''x'', B_num 0)])
     (V_struct [C_num 0]) = Inr (V_struct [C_num 0])"
  by code_simp

text \<open>When another structure follows in the row, its cells are read into the first one as well; here the parenthesis is taken for a number.\<close>

lemma following_structure_is_read_too:
  "ReadObject sample_lib False [''id'', ''p('', ''x'', ''y'', '')'', ''q('', ''x'', ''y'', '')'']
     (cells [''1'', ''('', ''7'', ''8'', '')'', ''('', ''8'', ''8'', '')'']) ''p''
     (M_struct [(''x'', B_num 0), (''y'', B_num 0)]) (V_struct [C_num 0, C_num 0]) = Inl bad_lexical_cast"
  by code_simp

text \<open>Two lists of structures in one table: the groups of the second are elements of the first.\<close>

lemma second_list_joins_first:
  "ReadObject sample_lib False [''id'', ''p('', ''x'', '')'', ''q('', ''x'', '')'']
     (cells [''1'', ''('', ''7'', '')'', ''('', ''8'', '')'']) ''p'' (M_structs [((''x'', B_num 0), C_num 0)]) (V_structs []) =
     Inr (V_structs [[C_num 7], [C_num 8]])"
  by code_simp

section \<open>Tables\<close>

definition row_read :: "lib \<Rightarrow> bool \<Rightarrow> string list \<Rightarrow> (string \<times> member \<times> member_value) list \<Rightarrow> csv_row \<Rightarrow> reader_error + int \<times> member_value list" where
  "row_read l es headers ms val = ebind (row_id l headers val) (\<lambda>i. ebind (ReadTuple l es headers val ms) (\<lambda>s. Inr (i, s)))"

lemma ReadMap_rows:
  "ReadMap l es headers rows ms t = ebind (traverse (row_read l es headers ms) rows) (\<lambda>ps. Inr (t ++ map_of (rev ps)))"
proof (induction rows arbitrary: t)
  case (Cons val rows)
  have "t(i \<mapsto> s) ++ map_of (rev ps) = t ++ map_of (rev ((i, s) # ps))" for i s ps by (simp add: map_add_def fun_eq_iff split: option.split)
  then show ?case by (simp add: Cons.IH row_read_def ebind_def fun_upd_def split: sum.split)
qed simp

text \<open>Every row is kept under its id, and of two rows with one id the later counts; a row that cannot be read leaves no table.\<close>

lemma table_by_id:
  assumes "traverse (row_read l es (csv_header d) ms) (csv_content d) = Inr ps"
  shows "csv_DeSerialize l es d ms Map.empty = Inr (map_of (rev ps))"
  using assms by (simp add: csv_DeSerialize_def ReadMap_rows)

lemma bad_row_fails:
  assumes "traverse (row_read l es (csv_header d) ms) (csv_content d) = Inl e"
  shows "csv_DeSerialize l es d ms t = Inl (rethrow e)"
  using assms by (simp add: csv_DeSerialize_def ReadMap_rows)

text \<open>A row that is too short is not noticed: the cell of the id is read behind the end of the row.\<close>

lemma short_row_undefined:
  "csv_DeSerialize sample_lib False \<lparr>first_line_is_header = True, header_is_in_rows = False, csv_content = [cells [''a'']],
     csv_header = [''name'', ''id''], csv_types = [], csv_desc = []\<rparr> [] Map.empty = Inl undefined_read"
  by (simp add: csv_DeSerialize_def row_id_def row_key_def cells_def rethrow_def)

text \<open>What \<open>to_str\<close> prints for an enumeration by default, \<open>cast\<close> does not understand.\<close>

lemma printed_enum_not_cast:
  "to_str print sample_lib 1 1 True = ''color::red'' \<and> cast_enum sample_lib 1 0 ''color::red'' = Inl bad_lexical_cast \<and>
   cast_enum sample_lib 1 0 (to_str print sample_lib 1 1 False) = Inr 1"
proof -
  have "ef_to_string 1 1 True sample_factory = Some ''color::red''" "ef_to_string 1 1 False sample_factory = Some ''red''" by code_simp+
  then have "to_str print sample_lib 1 1 True = ''color::red''" "to_str print sample_lib 1 1 False = ''red''"
    by (simp_all add: to_str_def sample_lib_def)
  moreover have "cast_enum sample_lib 1 0 ''color::red'' = Inl bad_lexical_cast" "cast_enum sample_lib 1 0 ''red'' = Inr 1" by code_simp+
  ultimately show ?thesis by simp
qed

end
