(* ===== verification/Msg_Pack.thy ===== *)
theory Msg_Pack
  imports Gos_Serializer Raw_Msg
begin

text \<open>
  Messages made of several values, \<open>src/network/gameserver/msg_pack.hpp\<close>: \<open>pack_msg\<close> writes its arguments one after the other to a stream
  that becomes the body of a message, \<open>unpack_msg\<close> reads them from the body of a received one. The overloads of \<open>pack_msg_impl\<close> are the
  constructors of \<open>part\<close>: a value for the binary codec, the body of another message, or something that packs itself. What the Thrift codec
  writes is left to that library.
\<close>

section \<open>Model\<close>

datatype part = P_gos gval | P_msg basic_msg | P_custom "mstream \<times> heap \<Rightarrow> mem_error + mstream \<times> heap"

fun pack_msg_impl :: "(nat \<Rightarrow> u8) \<Rightarrow> bool \<Rightarrow> part \<Rightarrow> mstream \<times> heap \<Rightarrow> mem_error + mstream \<times> heap" where
  "pack_msg_impl junk be (P_gos v) gos = gos_pack_into junk be v gos"
| "pack_msg_impl junk be (P_msg m) (gos, h) = ms_write_binary junk (mb_data_ptr (bm_body m)) (uint (mb_len (bm_body m))) gos h"
| "pack_msg_impl junk be (P_custom pack) gos = pack gos"

primrec pack_parts :: "(nat \<Rightarrow> u8) \<Rightarrow> bool \<Rightarrow> part list \<Rightarrow> mstream \<times> heap \<Rightarrow> mem_error + mstream \<times> heap" where
  "pack_parts junk be [] gos = Inr gos"
| "pack_parts junk be (p # ps) gos = ebind (pack_msg_impl junk be p gos) (pack_parts junk be ps)"

text \<open>\<open>pack_msg\<close> of several arguments; the stream is destroyed after the message has taken its block.\<close>

definition pack_msg_args :: "(nat \<Rightarrow> u8) \<Rightarrow> bool \<Rightarrow> part list \<Rightarrow> heap \<Rightarrow> mem_error + basic_msg \<times> heap" where
  "pack_msg_args junk be ps h =
     ebind (pack_parts junk be ps (ms_new junk ms_default_size h)) (\<lambda>(gos, h1).
     ebind (bm_reset_stream gos bm_empty h1) (\<lambda>(m, gos', h2).
     ebind (ms_destroy gos' h2) (\<lambda>h3. Inr (m, h3))))"

text \<open>\<open>pack_msg\<close> of one value: the buffer is emptied after the message has taken its block.\<close>

definition pack_msg :: "(nat \<Rightarrow> u8) \<Rightarrow> bool \<Rightarrow> gty \<Rightarrow> gval \<Rightarrow> heap \<Rightarrow> mem_error + basic_msg \<times> heap" where
  "pack_msg junk be ty v h =
     ebind (gos_pack junk be ty v h) (\<lambda>(buffer, h1).
     ebind (bm_reset (buf_data buffer) (buf_size buffer) bm_empty h1) (\<lambda>(m, h2).
     ebind (gb_reset False buffer h2) (\<lambda>(buffer', h3).
     ebind (gb_destroy buffer' h3) (\<lambda>h4. Inr (m, h4)))))"

definition pack_msg_none :: basic_msg where
  "pack_msg_none = bm_empty"

primrec unpack_parts :: "(nat \<Rightarrow> u8) \<Rightarrow> bool \<Rightarrow> gty list \<Rightarrow> mstream \<times> heap \<Rightarrow> mem_error + gval list \<times> mstream \<times> heap" where
  "unpack_parts junk be [] gos = Inr ([], gos)"
| "unpack_parts junk be (ty # tys) gos =
     ebind (DeSerialize (ms_ops junk) be ty gos) (\<lambda>(v, gos1).
     ebind (unpack_parts junk be tys gos1) (\<lambda>(vs, gos2). Inr (v # vs, gos2)))"

definition unpack_msg_args :: "(nat \<Rightarrow> u8) \<Rightarrow> bool \<Rightarrow> gty list \<Rightarrow> basic_msg \<Rightarrow> heap \<Rightarrow> mem_error + gval list \<times> heap" where
  "unpack_msg_args junk be tys m h =
     ebind (bm_get_stream junk m h) (\<lambda>gos.
     ebind (unpack_parts junk be tys gos) (\<lambda>(vs, gos1, h1).
     ebind (ms_destroy gos1 h1) (\<lambda>h2. Inr (vs, h2))))"

definition unpack_msg :: "(nat \<Rightarrow> u8) \<Rightarrow> bool \<Rightarrow> gty \<Rightarrow> basic_msg \<Rightarrow> heap \<Rightarrow> mem_error + gval \<times> heap" where
  "unpack_msg junk be ty m h = gos_unpack junk be ty (mb_data_ptr (bm_body m)) (uint (mb_len (bm_body m))) h"

section \<open>What the parts are on the wire\<close>

definition body_bytes :: "bool \<Rightarrow> gval list \<Rightarrow> bytes" where
  "body_bytes be vs = concat (map (enc be True) vs)"

lemma body_bytes_simps [simp]: "body_bytes be [] = []" "body_bytes be (v # vs) = enc be True v @ body_bytes be vs"
  by (simp_all add: body_bytes_def)

lemma pack_parts_values:
  assumes "ms_wf s h" "(wr_pos s + int (length (body_bytes be vs))) * 2 < 2 ^ 31"
  shows "\<exists>s1 h1. pack_parts junk be (map P_gos vs) (s, h) = Inr (s1, h1) \<and> ms_wf s1 h1 \<and>
    ms_content s1 h1 = ms_content s h @ body_bytes be vs"
  using assms
proof (induction vs arbitrary: s h)
  case (Cons v vs)
  from ms_serialize [OF Cons.prems(1), of be v "length (body_bytes be vs)" junk] Cons.prems(2) obtain s1 h1 where
    1: "Serialize (ms_ops junk) be v (s, h) = Inr (s1, h1)" "ms_wf s1 h1" "ms_content s1 h1 = ms_content s h @ enc be True v"
      "ms_room (s1, h1) (length (body_bytes be vs))" by auto
  from Cons.IH [OF 1(2)] 1(4) obtain s2 h2 where "pack_parts junk be (map P_gos vs) (s1, h1) = Inr (s2, h2)" "ms_wf s2 h2"
    "ms_content s2 h2 = ms_content s1 h1 @ body_bytes be vs" by (auto simp: ms_room_def)
  then show ?case using 1 by (simp add: gos_pack_into_def)
qed simp

text \<open>A value with strings is read in full only when something follows it.\<close>

fun readable :: "bool \<Rightarrow> (gty \<times> gval) list \<Rightarrow> bool" where
  "readable be [] = True"
| "readable be ((ty, v) # ps) = ((no_strings ty \<or> body_bytes be (map snd ps) \<noteq> []) \<and> readable be ps)"

definition typed :: "(gty \<times> gval) list \<Rightarrow> bool" where
  "typed ps \<longleftrightarrow> list_all (\<lambda>(ty, v). has_ty ty v \<and> agree ty True True) ps"

lemma unpack_parts_values:
  assumes "ms_wf s h" "ms_content s h = body_bytes be (map snd ps)" "typed ps" "readable be ps"
  shows "\<exists>s1 h1. unpack_parts junk be (map fst ps) (s, h) = Inr (map snd ps, s1, h1) \<and> alloc_type s1 = alloc_type s"
  using assms
proof (induction ps arbitrary: s h)
  case (Cons p ps)
  obtain ty v where p: "p = (ty, v)" by (cases p)
  have c: "ms_content s h = enc be True v @ body_bytes be (map snd ps)" using Cons.prems(2) p by simp
  have t: "has_ty ty v" "agree ty True True" "no_strings ty \<or> body_bytes be (map snd ps) \<noteq> []" "typed ps" "readable be ps"
    using Cons.prems(3,4) p by (auto simp: typed_def)
  from ms_deserialize [OF Cons.prems(1) c t(1-3), of junk] obtain s1 h1 where
    1: "DeSerialize (ms_ops junk) be ty (s, h) = Inr (v, s1, h1)" "ms_wf s1 h1" "ms_content s1 h1 = body_bytes be (map snd ps)"
      "alloc_type s1 = alloc_type s" by blast
  from Cons.IH [OF 1(2,3) t(4,5)] show ?case using 1 p by auto
qed simp

lemma sint_word32: "0 \<le> n \<Longrightarrow> n < 2 ^ 31 \<Longrightarrow> sint (word_of_int n :: u32) = n"
  by (simp add: signed_of_int signed_take_bit_int_eq_self)

section \<open>Properties\<close>

text \<open>
  (C34) The values of a message arrive: packing several values yields a message whose body is their encodings one after the other and whose
  header carries the length of the body, and a receiver that holds these bytes in the body of a message and unpacks them as values of the
  same types gets the values in order. The values have to fit their types (\<open>typed\<close>: strings shorter than 32768 bytes without a zero byte,
  no map or pair whose keys one side leaves out), the body has to be shorter than \<open>2 ^ 30\<close> bytes, and behind every value whose type has
  strings something has to follow in the body (\<open>readable\<close>): a message that ends with a string is not covered, since reading it
  leaves the block (\<open>trailing_string_faults\<close>).
\<close>

theorem message_values_arrive:
  assumes "heap_ok h" "typed ps" "readable be ps" "int (length (body_bytes be (map snd ps))) * 2 < 2 ^ 31"
    "heap_ok h'" "blocks h' b = Some (body_bytes be (map snd ps))"
    "bm_body m' = \<lparr>mb_data = Some (b, 0), mb_length = word_of_int (int (length (body_bytes be (map snd ps)))), mb_offset = 0\<rparr>"
  shows "\<exists>m h1 h2. pack_msg_args junk be (map (P_gos \<circ> snd) ps) h = Inr (m, h1) \<and>
    mb_to_buffer (bm_body m) h1 = Inr (body_bytes be (map snd ps)) \<and>
    msg_length (bm_header m) = word_of_int (int (length (body_bytes be (map snd ps)))) \<and>
    unpack_msg_args junk be (map fst ps) m' h' = Inr (map snd ps, h2)"
proof -
  let ?bs = "body_bytes be (map snd ps)"
  obtain s h0 where new: "ms_new junk ms_default_size h = (s, h0)" by fastforce
  from ms_new_ok [OF assms(1) _ new] have s: "ms_wf s h0" "ms_content s h0 = []" "wr_pos s = 0" by (simp_all add: ms_default_size_def)
  obtain s1 h1 where 1: "pack_parts junk be (map P_gos (map snd ps)) (s, h0) = Inr (s1, h1)" "ms_wf s1 h1" "ms_content s1 h1 = ?bs"
    using pack_parts_values [OF s(1), of be "map snd ps" junk] s(2,3) assms(4) by auto
  have len: "ms_length s1 = int (length ?bs)" using length_ms_content [OF 1(2)] 1(3) by simp
  then obtain m gos' where m: "bm_reset_stream s1 bm_empty h1 = Inr (m, gos', h1)" "alloc_type gos' = 0"
      "bm_header m = mh_zero\<lparr>msg_length := word_of_int (int (length ?bs))\<rparr>" "bm_to_buffers m h1 = Inr (mh_to_buffer (bm_header m) @ ?bs)"
    using bm_reset_stream_ok [OF 1(2), of mh_zero] assms(4) 1(3) by (auto simp: bm_empty_def)
  have pack: "pack_msg_args junk be (map (P_gos \<circ> snd) ps) h = Inr (m, h1)"
    using new 1(1) m(1,2) by (simp add: pack_msg_args_def ms_destroy_def)
  have body: "mb_to_buffer (bm_body m) h1 = Inr ?bs" using m(4) by (auto simp: bm_to_buffers_def ebind_Inr_iff)
  have "sint (word_of_int (int (length ?bs)) :: u32) = int (length ?bs)"
    using assms(4) by (intro sint_word32) simp_all
  then have "bm_get_stream junk m' h' = ms_wrap junk (Some (b, 0)) (int (length ?bs)) 0 h'"
    by (simp add: bm_get_stream_def assms(7) mb_data_ptr_def mb_len_def)
  then obtain s2 where 2: "bm_get_stream junk m' h' = Inr (s2, h')" "ms_wf s2 h'" "ms_content s2 h' = ?bs" "alloc_type s2 = 0"
    using wrap_ok [OF assms(5,6), of junk] by (auto simp: ms_wrap_def)
  from unpack_parts_values [OF 2(2,3) assms(2,3), of junk] obtain s3 h3 where
    "unpack_parts junk be (map fst ps) (s2, h') = Inr (map snd ps, s3, h3)" "alloc_type s3 = 0" using 2(4) by auto
  then have "unpack_msg_args junk be (map fst ps) m' h' = Inr (map snd ps, h3)" using 2(1) by (simp add: unpack_msg_args_def ms_destroy_def)
  moreover have "msg_length (bm_header m) = word_of_int (int (length ?bs))" by (subst m(3)) simp
  ultimately show ?thesis using pack body by blast
qed

theorem message_values_arrive_witness:
  "\<exists>m h1 h2. pack_msg_args (\<lambda>_. 0) True [P_gos (V_Str [104, 105]), P_gos (V_Num [1, 2])] empty_heap = Inr (m, h1) \<and>
     mb_to_buffer (bm_body m) h1 = Inr (body_bytes True [V_Str [104, 105], V_Num [1, 2]]) \<and>
     unpack_msg_args (\<lambda>_. 0) True [G_Str, G_Num 2]
       \<lparr>bm_header = mh_zero, bm_body = \<lparr>mb_data = Some (0, 0), mb_length = 6, mb_offset = 0\<rparr>\<rparr>
       \<lparr>blocks = [0 \<mapsto> body_bytes True [V_Str [104, 105], V_Num [1, 2]]], next_block = 1\<rparr> = Inr ([V_Str [104, 105], V_Num [1, 2]], h2)"
proof -
  let ?ps = "[(G_Str, V_Str [104, 105]), (G_Num 2, V_Num [1, 2])]"
  let ?h = "\<lparr>blocks = [0 \<mapsto> body_bytes True (map snd ?ps)], next_block = 1\<rparr>"
  have h: "heap_ok ?h" "blocks ?h 0 = Some (body_bytes True (map snd ?ps))" by (simp_all add: heap_ok_def)
  have t: "typed ?ps" "readable True ?ps" "int (length (body_bytes True (map snd ?ps))) * 2 < 2 ^ 31" by (simp_all add: typed_def short_image_def)
  have b: "bm_body \<lparr>bm_header = mh_zero, bm_body = \<lparr>mb_data = Some (0, 0), mb_length = 6, mb_offset = 0\<rparr>\<rparr> =
      \<lparr>mb_data = Some (0, 0), mb_length = word_of_int (int (length (body_bytes True (map snd ?ps)))), mb_offset = 0\<rparr>"
    by (simp add: short_image_def)
  from message_values_arrive [OF heap_ok_empty t h b, of "\<lambda>_. 0"] show ?thesis by (simp add: comp_def) blast
qed

end
