(* ===== verification/Spec2Isabelle.thy ===== *)
theory Spec2Isabelle
  imports Tcp_Server Rpc_Task Csv Memory_Pool Gos_Serializer Event_Bus Go_Channel Game_Server Paths Cmder Orm
    Thrift Enum_Meta Date_Time World Room_Server Csv_Reader Msg_Pack
begin

text \<open>
  A verification of the core of \<^emph>\<open>network-core\<close>, a C++17 library for game servers: messages over TCP,
  remote procedure calls on top of them, and the timers, thread pools and configuration tables a
  server needs. The sources are under \<open>src/network/\<close>; almost everything is in headers.

  \<^bold>\<open>The parts and how they interact.\<close> Two communication stacks stand side by side. The plain one
  (\<open>net/\<close>) sends messages made of a 24-byte header and a body: a serialiser fills a \<open>memory_stream\<close>, a
  \<open>basic_msg\<close> takes over its block, a \<open>tcp_connection\<close> queues the message, writes it alone or in a batch,
  and the peer's \<open>connection_reader\<close> cuts the incoming bytes into messages again; a \<open>tcp_server\<close> makes the
  connections and spreads them over the services of an \<open>ios_pool\<close>. The RPC stack (\<open>rpc/net/\<close>) sends
  calls and answers: an \<open>async_rpc_context\<close> is one call, the two forms of \<open>base_call_container\<close> keep
  the calls that wait for a reply, \<open>async_rpc_channel\<close> runs a session, and \<open>router\<close> finds the handler of a request
  and sends its answer. Both convert headers with \<open>util/net.hpp\<close>, report with \<open>net_result\<close> and number
  messages with protocol ids.

  \<^bold>\<open>The theories\<close>, in the order of the imports, with the sources they model:
  \<^item> \<open>Prelude\<close>: words and byte images, results that may fail, list lemmas.
  \<^item> \<open>Byte_Order\<close>: \<open>util/net.hpp\<close>. The swap macros reverse the byte image; every conversion undoes itself.
  \<^item> \<open>Protocol\<close>: \<open>net/common.hpp\<close>, \<open>net/exception.hpp\<close>. Protocol ids as bit fields, error codes, \<open>net_result\<close>.
  \<^item> \<open>Wire_Header\<close>: the 24-byte header of \<open>net/raw_msg.hpp\<close> and the locale \<open>wire_header\<close>, what a header owes the wire.
  \<^item> \<open>Rpc_Header\<close>: \<open>rpc/net/msg_header.hpp\<close>. The client header and the union header of the servers, both
    interpreted as \<open>wire_header\<close> and, for the channel, as \<open>rpc_header\<close>.
  \<^item> \<open>Heap\<close>: the byte store with its faults, as \<open>base/memory_pool.hpp\<close> is used by the buffers.
  \<^item> \<open>Memory_Stream\<close>: \<open>base/memory_stream.hpp\<close>, refining the queue of bytes of the locale \<open>byte_queue\<close>.
  \<^item> \<open>Raw_Msg\<close>: \<open>msg_body\<close>, \<open>basic_msg\<close> and \<open>batch_msg\<close> of \<open>net/raw_msg.hpp\<close>.
  \<^item> \<open>Conn_Reader\<close>: \<open>connection_reader\<close> and the read loop of \<open>net/tcp_connect.hpp\<close>; \<open>rx_step\<close> is one step of reading.
  \<^item> \<open>Timer_Manager\<close>: \<open>timer/schedule_timer.hpp\<close>, \<open>timer/timer_manager.hpp\<close>; \<open>tm_step\<close> is one step of the clock or of a user.
  \<^item> \<open>Tcp_Connection\<close>: \<open>tcp_connection\<close> of \<open>net/tcp_connect.hpp\<close>; \<open>cn_step\<close> is one handler or one call of a user.
  \<^item> \<open>Pools\<close>: \<open>net/ios_pool.hpp\<close>, \<open>net/net_common.hpp\<close>, \<open>thread/executor.hpp\<close>, \<open>executor_pool.hpp\<close>,
    \<open>thread_pool.hpp\<close>; the locale \<open>round_robin\<close> for the pools that take turns, \<open>pl_step\<close> for the worker threads
    with the condition variable they wait on.
  \<^item> \<open>Tcp_Server\<close>: \<open>net/tcp_server.hpp\<close>.
  \<^item> \<open>Rpc_Context\<close>: \<open>rpc/net/async_rpc_context.hpp\<close>, \<open>base/waitable_object.hpp\<close>; the locale \<open>call_queue\<close> for both containers.
  \<^item> \<open>Router\<close>: \<open>rpc/net/router.hpp\<close>, \<open>router_impl.hpp\<close>, \<open>invoker_traits.hpp\<close>, \<open>protocol.hpp\<close>.
  \<^item> \<open>Rpc_Channel\<close>: \<open>rpc/net/async_rpc_channel.hpp\<close>, \<open>async_connection.hpp\<close>; the locale \<open>call_list\<close> and \<open>ch_step\<close>.
  \<^item> \<open>Rpc_Task\<close>: \<open>rpc/net/rpc_task.hpp\<close>, \<open>rpc/client/\<close>, \<open>rpc/server/server.hpp\<close>, \<open>net/ios_wrapper.hpp\<close>, the callback of
    \<open>rpc/net/router_register.hpp\<close>; \<open>tk_step\<close> is one step of the user of a client, of a timer or of the channel.
  \<^item> \<open>Csv\<close>: \<open>serialize/detail/csv_parser.hpp\<close>, \<open>util/file.hpp\<close>.
  \<^item> \<open>Wildcard\<close>: the wildcard matching of \<open>util/string.hpp\<close>, compared with the reference \<open>glob\<close>.
  \<^item> \<open>Memory_Pool\<close>: \<open>base/memory_pool.hpp\<close>, the size classes in front of the allocators. \<open>Heap\<close> stays
    an ideal store for the buffers; here the real block layout and its faults are followed.
  \<^item> \<open>Gos_Serializer\<close>: \<open>serialize/serializer.hpp\<close>, \<open>gos_adapter.hpp\<close>, \<open>codec/codec_gos.hpp\<close>, \<open>codec_common.hpp\<close>,
    \<open>tuple_total_size\<close> of \<open>traits/traits.hpp\<close>; the locale \<open>gos_stream\<close> is what it needs of \<open>memory_stream\<close>.
  \<^item> \<open>Signals\<close>: \<open>msgbus/msg_signal.hpp\<close>, the ring of callbacks, refining the list of its handlers.
  \<^item> \<open>Event_Bus\<close>: \<open>msgbus/event.hpp\<close>, over the locale \<open>handler_list\<close> that \<open>Signals\<close> provides.
  \<^item> \<open>Go_Channel\<close>: \<open>base/channel.h\<close>. The critical sections of a channel as functions, threads that wait and
    notify as the step relations \<open>gc_call\<close> (the program) and \<open>gc_run\<close> (the channel), and \<open>select\<close>.
  \<^item> \<open>Services\<close>: \<open>service/service_meta.hpp\<close>, \<open>service_manager.hpp\<close>, \<open>module/base_module.hpp\<close>, \<open>module_manager.hpp\<close>; the
    locale \<open>first_wins\<close> for the maps of services and names.
  \<^item> \<open>Game_Server\<close>: \<open>gameserver/game_server_base.hpp\<close>, \<open>server_manager.hpp\<close> (the center), \<open>game_server.hpp\<close>, \<open>proto.hpp\<close>,
    \<open>server_config.hpp\<close>, \<open>protocol.hpp\<close>; \<open>center_after\<close> is the center after a history of messages and lost connections.
  \<^item> \<open>Strings\<close>: the public part of \<open>util/string.hpp\<close>: splitting, joining, cutting, and the replacement of marked names.
  \<^item> \<open>Paths\<close>: \<open>util/path.hpp\<close>, listing a tree of files and matching paths with \<open>*\<close>, \<open>?\<close> and \<open>**\<close>.
  \<^item> \<open>Cmder\<close>: \<open>cmder/\<close>. The manager of commands and aliases, commands that repeat, retry or wait, the interactive loop, and
    scripts with jumps.
  \<^item> \<open>Orm\<close>: \<open>orm/\<close>. Conditions and statements as SQL text, the connection with its reconnecting, reading of rows.
  \<^item> \<open>Thrift\<close>: \<open>rpc/thrift/\<close>. The header, again a \<open>wire_header\<close>, the transport, the client with its waiter, the server's callbacks.
  \<^item> \<open>Enum_Meta\<close>: \<open>meta/enum_meta.hpp\<close>, enumerations by name; its maps are \<open>first_wins\<close> again.
  \<^item> \<open>Date_Time\<close>: \<open>base/date_time.hpp\<close>, times in milliseconds and their formats.
  \<^item> \<open>World\<close>: \<open>base/world.hpp\<close>, \<open>instance_factory.hpp\<close>, \<open>type_map.hpp\<close>, the chances of \<open>util/random.hpp\<close>; the locale \<open>slots\<close> for the maps
    whose last value counts.
  \<^item> \<open>Csv_Reader\<close>: \<open>serialize/csv_adapter.hpp\<close>, \<open>util/cast.hpp\<close>, the rows of a table as structures under their ids.
  \<^item> \<open>Msg_Pack\<close>: \<open>gameserver/msg_pack.hpp\<close>, several values in one message.
  \<^item> \<open>Room_Server\<close>: \<open>src/example/room_server\<close>, a whole server on top of the library: players, rooms with seats, all handlers of
    messages. \<open>reached\<close> are the states after any messages of any users.

  \<^bold>\<open>How the code is modelled.\<close> An object is a record with the fields of its class, a method a function
  on it; an object that several others point to is a number into a table. A throw, an assertion or a memory
  fault is a value of a sum type; behaviour the language leaves undefined is a fault, a flag after which a run stops (\<open>overlapped\<close>), or no
  result (matching with regard to case). Asynchronous operations are split where the code splits them: a
  method records what it asked the service, the socket or the clock for, and a rule of the step relation
  completes it, in any order the environment may choose. Handlers of one object run one after the
  other, as the code arranges with one service per connection or a mutex. Fixed-width integers are
  words where they can wrap or are taken apart, integers elsewhere. Boost, the codec, the user's
  handlers and the clock are parameters or rules of the environment.

  \<^bold>\<open>What is shown.\<close> Below, that what a connection was given to write is what its peer delivers. In the theories:
  framing does not depend on how the stream is cut, as long as the copy of the unread rest does not overlap itself, and reading ends; writes leave in order, one at a time;
  headers and fields survive the wire; the stream is a queue of bytes; a stopped timer is silent and a
  fixed one keeps its rhythm; a call is submitted once unless its task is copied, and completes once, its reply finds it, a thread
  that waits for it gets the value or the error, and stopping completes it unless its reply is being read; a
  request is answered once; the worker threads run each task once and drain the queue; connections
  are spread in turn; printed tables are read back; values, messages and the arguments of calls survive the
  binary codec, except for a string at the very end of a block; events reach their subscribers in order and destroyed receivers leave no handler; the
  wildcard matcher, without regard to case, answers as its reference and always ends; blocks of the pool are large enough; a channel between
  threads is a bounded queue, loses no wakeup and keeps its assertions under a stated discipline; services are found
  and started in the order of their registration; the center of a game knows which servers are connected, forwards
  messages to exactly these and lets a starting server find its database; a path pattern finds the files of a tree; marked
  names are replaced; a script of commands runs in order and ends when its jumps lead forward; the names of an enumeration are read back; the values packed into a message arrive; a table row is read into structures; in the room server no two players share a seat, and exactly two kinds
  of messages bring it down. Several theorems show where the code
  does not do what it means to, such as an idle timeout that never fires, a copy of a buffer onto itself, a task whose copy submits
  the call again, a reply that is lost when the session stops, a refused call that blocks a
  channel, an error answer that bounces between two peers, a block released at the wrong address,
  handlers that outlive their receiver, a database handle used after it was closed, a file pattern that does not enter the
  directory it names, or a \<open>select\<close> that never sees a waiting receiver.

  \<^bold>\<open>Bounds.\<close> No fuel is used: recursive functions terminate by a measure (\<open>parse_loop\<close> by the unparsed
  bytes); the loops of \<open>Wildcard\<close>, \<open>Signals\<close>, \<open>Go_Channel\<close>, \<open>Strings\<close>, \<open>Paths\<close> and \<open>Cmder\<close>, which need not end on every input, are partial functions into
  \<open>option\<close> and their theorems state that they return, and lemmas name inputs on which they do not; runs are unbounded step relations whose length is bounded by theorems where the code
  promises an end (reading, closing a thread pool, the threads of a channel coming to rest). Sizes stay below \<open>2 ^ 31\<close> in the buffer theorems, as
  the code's \<open>int\<close> needs; the reader's buffer has the code's 102400 bytes.

  \<^bold>\<open>What is not modelled.\<close> Logging; \<open>boost::pool\<close> and \<open>malloc\<close>, which are parameters; the wide-string methods of the
  stream; true parallelism inside one handler (the mutexes of the channel); a connection that is started again after a reconnect, beyond
  the definition of its start; message objects shared between connections in \<open>Game_Server\<close>, where messages are values, which is exact for
  headers in host order; \<open>char\<close> arrays in the binary format. Not modelled
  at all: the adapters that hand values to JSON, XML, Thrift and option libraries (\<open>serialize/\<close>), whose formats those libraries define; the
  compile-time reflection (\<open>reflect/\<close>, the rest of \<open>meta/\<close>, \<open>traits/\<close>), which has no run-time state; the generated protocol
  types of the examples (\<open>src/example/common/proto\<close>) and the other examples.
\<close>

section \<open>Properties that span components\<close>

text \<open>The reader of a peer, started on the bytes another connection has put on the socket.\<close>

definition rx_of_sent :: "bool \<Rightarrow> (nat \<Rightarrow> u8) \<Rightarrow> conn \<Rightarrow> rx" where
  "rx_of_sent be junk c = (rx_init be junk [])\<lparr>rx_wire := cn_sent c\<rparr>"

lemma sent_is_wire:
  assumes "(cn_step be)\<^sup>*\<^sup>* (cn_started opts tab now) c" "distinct (map fst (cn_accepted c))"
    "cn_is_running c" "cn_out c = []"
  shows "rx_of_sent be junk c = rx_init be junk (map snd (cn_accepted c))"
proof -
  from cn_reach_ok [OF assms(1,2)] obtain dn fl rest where sp: "cn_split be c dn fl rest" by (auto simp: cn_ok_def)
  then have "cn_accepted c = dn" using assms(3,4) by (auto simp: cn_split_def queue_mirrors_def)
  with sp have "cn_sent c = concat (map (\<lambda>m. rm_to_buffers (rm_hton be m)) (map snd (cn_accepted c)))"
    by (simp add: cn_split_def wire_bytes_def comp_def)
  then show ?thesis by (simp add: rx_of_sent_def rx_init_def)
qed

text \<open>
  (C1) End to end. Take a running connection with no write outstanding, whose accepted message
  objects are distinct and fit the reader's buffer (at most \<open>CLIENT_MSG_BUFF_MAX\<close> bytes with the
  header, the header's length that of the body). A peer that reads the bytes it has put on the
  socket, cut into whatever pieces, stays open, never delivers anything but a prefix of the messages
  the sender took for writing, and stops after at most two steps per byte. Unless a \<open>memcpy\<close> of the rest of
  a read has overlapped, it has then delivered exactly these messages, headers and bodies unchanged
  and in order; no copy overlaps when no message is longer than the one before it.
\<close>

theorem end_to_end_delivery:
  assumes "(cn_step be)\<^sup>*\<^sup>* (cn_started opts tab now) c" "distinct (map fst (cn_accepted c))"
    "cn_is_running c" "cn_out c = []" "list_all msg_fits (map snd (cn_accepted c))"
    "(rx_step be ^^ n) (rx_of_sent be junk c) s"
  shows "rx_open s \<and> prefix (rx_out s) (map snd (cn_accepted c)) \<and> n \<le> 2 * length (cn_sent c) \<and>
    (\<not> overlapped (rx_reader s) \<longrightarrow> (\<nexists>t. rx_step be s t) \<longrightarrow> rx_out s = map snd (cn_accepted c)) \<and>
    (shrinking (map snd (cn_accepted c)) \<longrightarrow> \<not> overlapped (rx_reader s))"
proof -
  let ?ms = "map snd (cn_accepted c)"
  have run: "(rx_step be ^^ n) (rx_init be junk ?ms) s"
    using assms(6) unfolding sent_is_wire [OF assms(1-4)] .
  have "rx_measure (rx_init be junk ?ms) = 2 * length (cn_sent c)"
    unfolding sent_is_wire [OF assms(1-4), symmetric] by (simp add: rx_measure_def rx_of_sent_def rx_init_def)
  with rx_run_measure [OF run rx_init_inv [OF assms(5)]] have "n \<le> 2 * length (cn_sent c)" by linarith
  with rx_reach_delivers [OF assms(5) relpowp_imp_rtranclp [OF run]] show ?thesis by blast
qed

theorem end_to_end_delivery_witness:
  "\<exists>(c :: conn) (s :: rx). cn_accepted c = [(7, sample_msg)] \<and> rx_open s \<and> rx_out s = [sample_msg]"
proof -
  obtain c where reach: "(cn_step True)\<^sup>*\<^sup>* (cn_started \<lparr>disconnect_interval = 0, batch_send_msg = True\<rparr> (\<lambda>_. sample_msg) 0) c"
    and c: "cn_accepted c = [(7, sample_msg)]" "cn_is_running c" "cn_out c = []"
    using sample_run by (elim exE conjE)
  have d: "distinct (map fst (cn_accepted c))" and ms: "map snd (cn_accepted c) = [sample_msg]"
    by (simp_all add: c)
  have fits: "list_all msg_fits (map snd (cn_accepted c))"
    by (simp add: ms sample_msg_def msg_fits_def mh_init_short_def header_length_def mh_size_def CLIENT_MSG_BUFF_MAX_def)
  obtain s n where s: "(rx_step True ^^ n) (rx_of_sent True (\<lambda>_. 0) c) s" "rx_out s = [sample_msg]"
    using rx_complete_run [OF rx_init_byte_wise [OF fits], of True "\<lambda>_. 0"]
    unfolding sent_is_wire [OF reach d c(2,3)] ms rtranclp_power by (elim exE conjE)
  from end_to_end_delivery [OF reach d c(2,3) fits s(1)] have "rx_open s" by (elim conjE)
  with c(1) s(2) show ?thesis by (intro exI conjI)
qed

end
